(* ===== verification/Prelude.thy ===== *)
theory Prelude
  imports Main "HOL-Library.Word" "HOL-Library.Monad_Syntax" "HOL-Library.Multiset"
begin

text \<open>
  Shared vocabulary of the development: the machine types of the 32-bit Allegrex
  target, byte buffers with checked access, little-endian encodings, and the generic
  list, option and word lemmas the components rely on.

  Execution that leaves defined C behaviour (an access outside a buffer, a failed
  \<^verbatim>\<open>assert\<close>, a \<^verbatim>\<open>panic\<close>) is the value \<open>None\<close> of an option; the
  \<open>do\<close>-notation of the option monad sequences such computations.
\<close>

unbundle bit_operations_syntax

named_theorems buf_simps \<open>rewrite rules for checked buffer access\<close>
named_theorems len_simps \<open>lengths of buffers after an operation\<close>

type_synonym u8 = "8 word"
type_synonym u16 = "16 word"
type_synonym u32 = "32 word"
type_synonym bytes = "u8 list"

section \<open>Options and lists\<close>

lemma bind_eq_Some_conv:
  "(Option.bind m f = Some y) \<longleftrightarrow> (\<exists>x. m = Some x \<and> f x = Some y)"
  by (cases m) auto

lemma bind_eq_None_conv:
  "(Option.bind m f = None) \<longleftrightarrow> (m = None \<or> (\<exists>x. m = Some x \<and> f x = None))"
  by (cases m) auto

section \<open>Byte buffers\<close>

text \<open>
  A C object is the list of its bytes. A pointer into it is an offset. \<open>mem_read\<close> and
  \<open>mem_write\<close> are the two halves of a \<^verbatim>\<open>memcpy\<close>: \<open>None\<close> when the accessed range
  leaves the object.
\<close>

definition mem_read :: "'a list \<Rightarrow> nat \<Rightarrow> nat \<Rightarrow> 'a list option" where
  "mem_read b off n = (if off + n \<le> length b then Some (take n (drop off b)) else None)"

definition mem_write :: "'a list \<Rightarrow> nat \<Rightarrow> 'a list \<Rightarrow> 'a list option" where
  "mem_write b off src =
     (if off + length src \<le> length b
      then Some (take off b @ src @ drop (off + length src) b) else None)"

lemma mem_read_Some [buf_simps]:
  "off + n \<le> length b \<Longrightarrow> mem_read b off n = Some (take n (drop off b))"
  by (simp add: mem_read_def)

lemma mem_write_Some [buf_simps]:
  "off + length src \<le> length b \<Longrightarrow>
   mem_write b off src = Some (take off b @ src @ drop (off + length src) b)"
  by (simp add: mem_write_def)

lemma mem_read_length [len_simps]: "mem_read b off n = Some r \<Longrightarrow> length r = n"
  by (auto simp: mem_read_def split: if_splits)

lemma mem_write_length [len_simps]: "mem_write b off src = Some b' \<Longrightarrow> length b' = length b"
  by (auto simp: mem_write_def split: if_splits)

lemma mem_read_take [buf_simps]:
  "off + n \<le> m \<Longrightarrow> mem_read (take m b) off n = mem_read b off n"
  by (auto simp: mem_read_def drop_take min_def)

lemma mem_write_obtain:
  assumes "off + length src \<le> length b"
  obtains b' where "mem_write b off src = Some b'" "length b' = length b"
  using assms by (simp add: mem_write_def)

lemma mem_write_nth:
  "mem_write b off src = Some b' \<Longrightarrow> i < length b \<Longrightarrow>
   b' ! i = (if off \<le> i \<and> i < off + length src then src ! (i - off) else b ! i)"
  by (auto simp: mem_write_def nth_append min_def split: if_splits)

lemma mem_write_single [buf_simps]: "i < length b \<Longrightarrow> mem_write b i [v] = Some (b[i := v])"
  by (simp add: mem_write_def upd_conv_take_nth_drop)

lemma mem_write_read_same:
  "mem_write b off src = Some b' \<Longrightarrow> mem_read b' off (length src) = Some src"
  by (auto simp: mem_write_def mem_read_def min_def split: if_splits)

lemma mem_write_read_other:
  assumes "mem_write b off src = Some b'" and "o2 + n \<le> off \<or> off + length src \<le> o2"
  shows "mem_read b' o2 n = mem_read b o2 n"
proof (cases "o2 + n \<le> length b")
  case True
  have "take n (drop o2 b') = take n (drop o2 b)"
  proof (rule nth_equalityI)
    show "length (take n (drop o2 b')) = length (take n (drop o2 b))"
      using mem_write_length [OF assms(1)] by simp
    fix i assume "i < length (take n (drop o2 b'))"
    then have "i < n" by simp
    then have "o2 + i < length b" using True by simp
    then show "take n (drop o2 b') ! i = take n (drop o2 b) ! i"
      using mem_write_nth [OF assms(1), of "o2 + i"] mem_write_length [OF assms(1)]
        assms(2) \<open>i < n\<close> by auto
  qed
  then show ?thesis using True mem_write_length [OF assms(1)] by (simp add: mem_read_def)
next
  case False
  then show ?thesis using mem_write_length [OF assms(1)] by (simp add: mem_read_def)
qed

section \<open>Little-endian words\<close>

fun le16 :: "bytes \<Rightarrow> u16 option" where
  "le16 [a, b] = Some (ucast a OR push_bit 8 (ucast b))"
| "le16 _ = None"

fun le32 :: "bytes \<Rightarrow> u32 option" where
  "le32 [a, b, c, d] =
     Some (ucast a OR push_bit 8 (ucast b) OR push_bit 16 (ucast c) OR push_bit 24 (ucast d))"
| "le32 _ = None"

definition to_le16 :: "u16 \<Rightarrow> bytes" where
  "to_le16 w = [ucast w, ucast (drop_bit 8 w)]"

definition to_le32 :: "u32 \<Rightarrow> bytes" where
  "to_le32 w = [ucast w, ucast (drop_bit 8 w), ucast (drop_bit 16 w), ucast (drop_bit 24 w)]"

lemma length_to_le16 [simp]: "length (to_le16 w) = 2"
  by (simp add: to_le16_def)

lemma length_to_le32 [simp]: "length (to_le32 w) = 4"
  by (simp add: to_le32_def)

lemma le16_to_le16: "le16 (to_le16 w) = Some w"
  by (auto simp: to_le16_def intro!: bit_word_eqI)
     (auto simp: bit_simps not_le less_diff_conv2)

lemma le32_to_le32: "le32 (to_le32 w) = Some w"
  by (auto simp: to_le32_def intro!: bit_word_eqI)
     (auto simp: bit_simps not_le less_diff_conv2 intro: ccontr)

definition read_u32 :: "bytes \<Rightarrow> nat \<Rightarrow> u32 option" where
  "read_u32 b off = Option.bind (mem_read b off 4) le32"

lemma read_u32_take [buf_simps]: "off + 4 \<le> m \<Longrightarrow> read_u32 (take m b) off = read_u32 b off"
  by (simp add: read_u32_def mem_read_take)

lemma le32_length4: "length xs = 4 \<Longrightarrow> \<exists>w. le32 xs = Some w"
  by (auto simp: length_Suc_conv numeral_eq_Suc)

lemma read_u32_Some: "off + 4 \<le> length b \<Longrightarrow> \<exists>w. read_u32 b off = Some w"
  by (simp add: read_u32_def mem_read_def le32_length4)

section \<open>Words and bits\<close>

lemma unat_of_nat_small32 [simp]: "n < 2 ^ 32 \<Longrightarrow> unat (of_nat n :: u32) = n"
  by (simp add: unat_of_nat take_bit_nat_eq_self)

lemma xor_cancel_right [simp]: "(x XOR k) XOR k = (x :: 'a::len word)"
  by (simp add: xor.assoc)

lemma word_and_or_absorb: "(a AND b) OR b = (b :: 'a::len word)"
  by (rule bit_word_eqI) (auto simp: bit_simps)

lemma bit_less_pow:
  assumes "unat (w :: 'a::len word) < 2 ^ k" "bit w n"
  shows "n < k"
proof -
  have "take_bit k (unat w) = unat w" using assms(1) by (rule take_bit_nat_eq_self)
  moreover have "bit (unat w) n" using assms(2) by (simp add: bit_unsigned_iff)
  ultimately have "bit (take_bit k (unat w)) n" by simp
  then show ?thesis by (simp only: bit_take_bit_iff)
qed

section \<open>LK status codes\<close>

text \<open>The subset of \<^verbatim>\<open>status_t\<close> (lk/err.h) the modelled code produces.\<close>

datatype status_t = NO_ERROR | ERR_GENERIC | ERR_NOT_FOUND | ERR_NOT_READY | ERR_NO_MEMORY
  | ERR_TIMED_OUT | ERR_OBJECT_DESTROYED | ERR_NOT_BLOCKED | ERR_INVALID_ARGS
  | ERR_NOT_OWNER | ERR_THREAD_DETACHED | ERR_ALREADY_EXISTS | ERR_NOT_ENOUGH_BUFFER
  | ERR_BAD_HANDLE | ERR_PARTIAL_WRITE | ERR_BUSY | ERR_NO_MSG | ERR_NOT_ALLOWED | ERR_TOO_BIG
  | ERR_CANCELLED

end
