(* ===== verification/Crypt.thy ===== *)
theory Crypt
  imports Prelude
begin

text \<open>
  app/aiseirigh/crypt.c and personalisation.c: the wrappers that drive the KIRK
  cryptographic engine through the 0x400-byte window at 0xBFC00C00.

  The engine itself, and the layout of its command headers, belong to the platform SDK
  and are parameters: \<open>kirk_engine\<close> collects the operations the code calls.
  \<^item> \<open>kirk1_op\<close> decrypts a command block: given the bytes at the source pointer it
    returns the status and the bytes written at the destination.
  \<^item> \<open>kirk5_op\<close> and \<open>kirk7_op\<close> work in place on the window and return the status
    and the new contents of the window.
  \<^item> \<open>kirk58_hdr\<close> and \<open>kirk47_hdr\<close> encode the header fields mode, unk_4, unk_8,
    keyslot and size.
  \<open>kirk_ok\<close> is what the code relies on: a header occupies 0x14 bytes, the window keeps
  its size, and a decrypted block is no longer than its command block.
\<close>

record kirk_engine =
  kirk1_op :: "bytes \<Rightarrow> int \<times> bytes"
  kirk5_op :: "bytes \<Rightarrow> int \<times> bytes"
  kirk7_op :: "bytes \<Rightarrow> int \<times> bytes"
  kirk58_hdr :: "u32 \<Rightarrow> u32 \<Rightarrow> u32 \<Rightarrow> u32 \<Rightarrow> u32 \<Rightarrow> bytes"
  kirk47_hdr :: "u32 \<Rightarrow> u32 \<Rightarrow> u32 \<Rightarrow> u32 \<Rightarrow> u32 \<Rightarrow> bytes"

definition kirk_ok :: "kirk_engine \<Rightarrow> bool" where
  "kirk_ok K \<longleftrightarrow>
     (\<forall>b. length (snd (kirk1_op K b)) \<le> length b) \<and>
     (\<forall>b. length (snd (kirk5_op K b)) = length b) \<and>
     (\<forall>b. length (snd (kirk7_op K b)) = length b) \<and>
     (\<forall>a b c d e. length (kirk58_hdr K a b c d e) = 0x14) \<and>
     (\<forall>a b c d e. length (kirk47_hdr K a b c d e) = 0x14)"

abbreviation KIRK_WINDOW :: nat where
  "KIRK_WINDOW \<equiv> 0x400"

text \<open>
  \<^verbatim>\<open>kirk5_encrypt\<close> and \<^verbatim>\<open>kirk7_decrypt\<close>: \<open>kmem\<close> is the window, \<open>src\<close> the
  \<^verbatim>\<open>len\<close> source bytes. The result is the return code, the bytes copied to the
  destination (\<open>None\<close> when the destination is left alone) and the window afterwards.
\<close>

definition kirk5_encrypt ::
  "kirk_engine \<Rightarrow> bytes \<Rightarrow> bytes \<Rightarrow> (int \<times> bytes option \<times> bytes) option" where
  "kirk5_encrypt K kmem src = (let len = length src in
     if len > 0x400 - 0x14 then Some (-1, None, kmem)
     else (let hdr = kirk58_hdr K 4 0 0 0x100 (of_nat len) in do {
       kmem1 \<leftarrow> mem_write kmem (length hdr) src;
       kmem2 \<leftarrow> mem_write kmem1 0 hdr;
       let (res, kmem3) = kirk5_op K kmem2;
       if res \<noteq> 0 then Some (-2, None, kmem3)
       else do { out \<leftarrow> mem_read kmem3 (length hdr) len; Some (0, Some out, kmem3) }
     }))"

definition kirk7_decrypt ::
  "kirk_engine \<Rightarrow> bytes \<Rightarrow> bytes \<Rightarrow> u32 \<Rightarrow> (int \<times> bytes option \<times> bytes) option" where
  "kirk7_decrypt K kmem src keyid = (let len = length src in
     if len > 0x400 - 0x14 then Some (-1, None, kmem)
     else (let hdr = kirk47_hdr K 5 0 0 keyid (of_nat len) in do {
       kmem1 \<leftarrow> mem_write kmem (length hdr) src;
       kmem2 \<leftarrow> mem_write kmem1 0 hdr;
       let (res, kmem3) = kirk7_op K kmem2;
       if res \<noteq> 0 then Some (-2, None, kmem3)
       else do { out \<leftarrow> mem_read kmem3 0 len; Some (0, Some out, kmem3) }
     }))"

text \<open>The outcomes the two wrappers can have, and that they always have one.\<close>

definition kirk_outcome :: "nat \<Rightarrow> nat \<Rightarrow> (int \<times> bytes option \<times> bytes) \<Rightarrow> bool" where
  "kirk_outcome len w r \<longleftrightarrow>
     (case r of (rc, out, kmem') \<Rightarrow>
        length kmem' = w \<and>
        (case out of None \<Rightarrow> rc = -1 \<and> 0x400 - 0x14 < len \<or> rc = -2 \<and> len \<le> 0x400 - 0x14
         | Some o1 \<Rightarrow> rc = 0 \<and> length o1 = len))"

lemma kirk_window_load:
  assumes "length kmem = KIRK_WINDOW" "length hdr = 0x14" "length src \<le> 0x400 - 0x14"
  shows "\<exists>kmem1 kmem2. mem_write kmem (length hdr) src = Some kmem1 \<and>
     mem_write kmem1 0 hdr = Some kmem2 \<and> length kmem2 = KIRK_WINDOW"
proof -
  obtain kmem1 where k1: "mem_write kmem (length hdr) src = Some kmem1"
    using assms by (simp add: mem_write_def)
  then have l1: "length kmem1 = KIRK_WINDOW" using assms(1) by (simp add: mem_write_length)
  then obtain kmem2 where k2: "mem_write kmem1 0 hdr = Some kmem2"
    using assms(2) by (simp add: mem_write_def)
  then show ?thesis using k1 l1 mem_write_length [OF k2] by simp
qed

lemma kirk5_encrypt_outcome:
  assumes "kirk_ok K" "length kmem = KIRK_WINDOW"
  shows "\<exists>r. kirk5_encrypt K kmem src = Some r \<and> kirk_outcome (length src) KIRK_WINDOW r"
proof (cases "length src > 0x400 - 0x14")
  case True
  then show ?thesis using assms by (simp add: kirk5_encrypt_def kirk_outcome_def)
next
  case False
  let ?hdr = "kirk58_hdr K 4 0 0 0x100 (of_nat (length src))"
  have h: "length ?hdr = 0x14" using assms(1) by (simp add: kirk_ok_def)
  obtain kmem1 kmem2 where k: "mem_write kmem (length ?hdr) src = Some kmem1"
      "mem_write kmem1 0 ?hdr = Some kmem2" "length kmem2 = KIRK_WINDOW"
    using kirk_window_load [OF assms(2) h, of src] False by auto
  moreover have "length (snd (kirk5_op K kmem2)) = KIRK_WINDOW"
    using assms(1) k(3) by (simp add: kirk_ok_def)
  ultimately show ?thesis using False h
    by (auto simp: kirk5_encrypt_def kirk_outcome_def Let_def mem_read_def split: prod.split)
qed

lemma kirk7_decrypt_outcome:
  assumes "kirk_ok K" "length kmem = KIRK_WINDOW"
  shows "\<exists>r. kirk7_decrypt K kmem src keyid = Some r \<and> kirk_outcome (length src) KIRK_WINDOW r"
proof (cases "length src > 0x400 - 0x14")
  case True
  then show ?thesis using assms by (simp add: kirk7_decrypt_def kirk_outcome_def)
next
  case False
  let ?hdr = "kirk47_hdr K 5 0 0 keyid (of_nat (length src))"
  have h: "length ?hdr = 0x14" using assms(1) by (simp add: kirk_ok_def)
  obtain kmem1 kmem2 where k: "mem_write kmem (length ?hdr) src = Some kmem1"
      "mem_write kmem1 0 ?hdr = Some kmem2" "length kmem2 = KIRK_WINDOW"
    using kirk_window_load [OF assms(2) h, of src] False by auto
  moreover have "length (snd (kirk7_op K kmem2)) = KIRK_WINDOW"
    using assms(1) k(3) by (simp add: kirk_ok_def)
  ultimately show ?thesis using False h
    by (auto simp: kirk7_decrypt_def kirk_outcome_def Let_def mem_read_def split: prod.split)
qed

text \<open>The same fact in the form callers use it: run the wrapper, split on its return code.\<close>

lemma kirk7_decrypt_cases:
  assumes "kirk_ok K" "length kmem = KIRK_WINDOW"
  obtains rc kmem' where "kirk7_decrypt K kmem src keyid = Some (rc, None, kmem')" "rc < 0"
      "length kmem' = KIRK_WINDOW"
    | out kmem' where "kirk7_decrypt K kmem src keyid = Some (0, Some out, kmem')"
      "length out = length src" "length kmem' = KIRK_WINDOW"
  using kirk7_decrypt_outcome [OF assms, of src keyid]
  by (fastforce simp: kirk_outcome_def split: option.splits)

section \<open>Personalisation\<close>

datatype PersonalisationResult = PERSONALISATION_RESULT_OK | PERSONALISATION_ERR_ENCRYPT

definition g_personalisation_xor_before :: bytes where
  "g_personalisation_xor_before =
     [0x71, 0xF6, 0xA8, 0x31, 0x1E, 0xE0, 0xFF, 0x1E,
      0x50, 0xBA, 0x6C, 0xD2, 0x98, 0x2D, 0xD6, 0x2D]"

definition g_personalisation_xor_after :: bytes where
  "g_personalisation_xor_after =
     [0xAA, 0x85, 0x4D, 0xB0, 0xFF, 0xCA, 0x47, 0xEB,
      0x38, 0x7F, 0xD7, 0xE4, 0x3D, 0x62, 0xB0, 0x10]"

text \<open>The XOR loops: byte \<open>i\<close> is combined with key byte \<open>i mod\<close> the key length.\<close>

definition xor_cycle :: "bytes \<Rightarrow> bytes \<Rightarrow> bytes" where
  "xor_cycle key b = map (\<lambda>i. b ! i XOR key ! (i mod length key)) [0..<length b]"

lemma length_xor_cycle [simp]: "length (xor_cycle key b) = length b"
  by (simp add: xor_cycle_def)

lemma xor_cycle_involution: "xor_cycle key (xor_cycle key b) = b"
  by (rule nth_equalityI) (simp_all add: xor_cycle_def)

definition personalise ::
  "kirk_engine \<Rightarrow> bytes \<Rightarrow> bytes \<Rightarrow> (PersonalisationResult \<times> bytes \<times> bytes) option" where
  "personalise K kmem data = do {
     t0 \<leftarrow> mem_read data 0x110 0x40;
     t1 \<leftarrow> mem_read data 0x80 0x90;
     let tmp = xor_cycle g_personalisation_xor_before (t0 @ t1);
     (res, out, kmem') \<leftarrow> kirk5_encrypt K kmem tmp;
     if res \<noteq> 0 then Some (PERSONALISATION_ERR_ENCRYPT, data, kmem')
     else do {
         enc \<leftarrow> out;
         data' \<leftarrow> mem_write data 0x80 (xor_cycle g_personalisation_xor_after enc);
         Some (PERSONALISATION_RESULT_OK, data', kmem')
       }
   }"

lemma personalise_spec:
  assumes K: "kirk_ok K" and w: "length kmem = KIRK_WINDOW" and d: "0x150 \<le> length data"
  shows "\<exists>res data' kmem'. personalise K kmem data = Some (res, data', kmem') \<and>
     length kmem' = KIRK_WINDOW \<and> length data' = length data \<and>
     (res \<noteq> PERSONALISATION_RESULT_OK \<longrightarrow> data' = data) \<and>
     (\<forall>i < length data. i < 0x80 \<or> 0x150 \<le> i \<longrightarrow> data' ! i = data ! i)"
proof -
  let ?t0 = "take 0x40 (drop 0x110 data)" and ?t1 = "take 0x90 (drop 0x80 data)"
  let ?tmp = "xor_cycle g_personalisation_xor_before (?t0 @ ?t1)"
  have r: "mem_read data 0x110 0x40 = Some ?t0" "mem_read data 0x80 0x90 = Some ?t1"
    using d by (simp_all add: buf_simps)
  have lt: "length ?tmp = 0xD0" using d by simp
  obtain rc out kmem' where k: "kirk5_encrypt K kmem ?tmp = Some (rc, out, kmem')"
    and oc: "kirk_outcome 0xD0 KIRK_WINDOW (rc, out, kmem')"
    using kirk5_encrypt_outcome [OF K w, of ?tmp] lt by auto
  show ?thesis
  proof (cases out)
    case None
    then show ?thesis using r k oc by (simp add: personalise_def kirk_outcome_def Let_def)
  next
    case (Some enc)
    let ?e = "xor_cycle g_personalisation_xor_after enc"
    have le: "length ?e = 0xD0" using Some oc by (simp add: kirk_outcome_def)
    then obtain data' where dw: "mem_write data 0x80 ?e = Some data'"
      using d by (simp add: mem_write_def)
    have "\<forall>i < length data. i < 0x80 \<or> 0x150 \<le> i \<longrightarrow> data' ! i = data ! i"
      using mem_write_nth [OF dw] le by auto
    then show ?thesis using r k oc Some dw mem_write_length [OF dw]
      by (simp add: personalise_def kirk_outcome_def Let_def)
  qed
qed

lemma personalise_lengths:
  assumes "kirk_ok K" "personalise K km d = Some (r, d', km')"
  shows "length km' = length km \<and> length d' = length d"
proof -
  have "length km' = length km" if "kirk5_encrypt K km src = Some (rc, out, km')" for src rc out
    using that assms(1) by (auto simp: kirk5_encrypt_def kirk_ok_def bind_eq_Some_conv Let_def case_prod_beta
        dest!: mem_write_length split: if_splits)
  then show ?thesis using assms(2)
    by (auto simp: personalise_def bind_eq_Some_conv Let_def mem_write_length split: if_splits)
qed

end
