(* ===== verification/Prx.thy ===== *)
theory Prx
  imports Crypt
begin

text \<open>
  app/aiseirigh/prx.c, prxtype2.c and prxtype8.c: decryption of the signed executables
  (PRX modules, the IPL, the PSAR blocks) inside the buffer that holds them. An image
  is the byte list of the whole buffer; the 0x150-byte \<^verbatim>\<open>PSP_Header\<close> stands at its start.
\<close>

section \<open>The metatype table\<close>

datatype PrxType = PRX_TYPE_2 | PRX_TYPE_8

datatype PrxDecryptResult = PRX_DECRYPT_RESULT_OK | PRX_DECRYPT_ERR_UNSUPPORTED
  | PRX_DECRYPT_ERR_KIRK1 | PRX_DECRYPT_ERR_KIRK7

record PrxMetaType =
  tag :: u32
  keyid :: u32
  prx_type :: PrxType
  seed :: bytes

definition g_0x0E000000_seed :: bytes where
  "g_0x0E000000_seed =
     [0xDE, 0x57, 0xB7, 0x77, 0x17, 0xDD, 0x62, 0xEE, 0x7B, 0x78, 0x03, 0x5D,
      0x44, 0x86, 0xCA, 0x59, 0x20, 0x8D, 0xF6, 0x93, 0x28, 0x93, 0x81, 0x21,
      0x71, 0x4E, 0xA7, 0x86, 0xCA, 0x82, 0x24, 0x1B, 0x58, 0xAE, 0x74, 0x5F,
      0x6C, 0x01, 0x8D, 0x56, 0x32, 0x88, 0x4D, 0x9A, 0x72, 0x43, 0xA2, 0x2E,
      0x84, 0xF4, 0x0C, 0x82, 0xB9, 0x06, 0xFC, 0xFC, 0x6A, 0xFB, 0x5B, 0x8A,
      0xD7, 0x9C, 0x9F, 0xBF, 0x01, 0x0D, 0x85, 0x15, 0xBA, 0x5F, 0xED, 0x39,
      0x93, 0x83, 0xC3, 0x4C, 0xAF, 0xDE, 0x3A, 0xED, 0xBF, 0x68, 0xA7, 0x1A,
      0x77, 0x8A, 0xBD, 0x89, 0x65, 0x41, 0x56, 0x46, 0xD9, 0xDB, 0x33, 0x73,
      0x81, 0x6C, 0xE8, 0x62, 0x96, 0x9B, 0x29, 0x03, 0x5A, 0xAE, 0xAF, 0x73,
      0x20, 0x53, 0xA0, 0x40, 0xE8, 0x4B, 0x66, 0x10, 0x99, 0x6A, 0xB7, 0xE5,
      0x70, 0xDD, 0xE0, 0x29, 0x28, 0x24, 0x60, 0xEA, 0x30, 0xAE, 0x42, 0x20,
      0x32, 0x8D, 0x6F, 0x94, 0x71, 0x5F, 0x9E, 0xA2, 0xD5, 0x7F, 0x0C, 0x7C]"

definition g_0xD82310F0_seed :: bytes where
  "g_0xD82310F0_seed =
     [0x9D, 0x09, 0xFD, 0x20, 0xF3, 0x8F, 0x10, 0x69, 0x0D, 0xB2, 0x6F, 0x00,
      0xCC, 0xC5, 0x51, 0x2E]"

definition g_0xD8231EF0_seed :: bytes where
  "g_0xD8231EF0_seed =
     [0x4F, 0x44, 0x5C, 0x62, 0xB3, 0x53, 0xC4, 0x30, 0xFC, 0x3A, 0xA4, 0x5B,
      0xEC, 0xFE, 0x51, 0xEA]"

definition g_0xD82328F0_seed :: bytes where
  "g_0xD82328F0_seed =
     [0x5D, 0xAA, 0x72, 0xF2, 0x26, 0x60, 0x4D, 0x1C, 0xE7, 0x2D, 0xC8, 0xA3,
      0x2F, 0x79, 0xC5, 0x54]"

definition g_prx_metatypes :: "PrxMetaType list" where
  "g_prx_metatypes =
     [\<lparr>tag = 0x0E000000, keyid = 0x51, prx_type = PRX_TYPE_8, seed = g_0x0E000000_seed\<rparr>,
      \<lparr>tag = 0xD82310F0, keyid = 0x51, prx_type = PRX_TYPE_2, seed = g_0xD82310F0_seed\<rparr>,
      \<lparr>tag = 0xD8231EF0, keyid = 0x51, prx_type = PRX_TYPE_2, seed = g_0xD8231EF0_seed\<rparr>,
      \<lparr>tag = 0xD82328F0, keyid = 0x51, prx_type = PRX_TYPE_2, seed = g_0xD82328F0_seed\<rparr>]"

text \<open>Offsets of the \<^verbatim>\<open>PSP_Header\<close> fields the code reads, and its size.\<close>

abbreviation PSP_HEADER_SIZE :: nat where "PSP_HEADER_SIZE \<equiv> 0x150"
abbreviation COMP_SIZE_OFF :: nat where "COMP_SIZE_OFF \<equiv> 0xB0"
abbreviation TAG_OFF :: nat where "TAG_OFF \<equiv> 0xD0"

section \<open>Type 2\<close>

text \<open>
  Nine copies of the 16-byte seed, the first byte of each replaced by its index, then
  one KIRK 7 decryption of the 0x90 bytes.
\<close>

fun expand_copies :: "bytes \<Rightarrow> nat \<Rightarrow> nat \<Rightarrow> bytes option" where
  "expand_copies sd i 0 = Some []"
| "expand_copies sd i (Suc n) = do {
     c \<leftarrow> mem_read sd 0 0x10;
     r \<leftarrow> expand_copies sd (Suc i) n;
     Some (c[0 := of_nat i] @ r)
   }"

definition expand_seed ::
  "kirk_engine \<Rightarrow> bytes \<Rightarrow> PrxMetaType \<Rightarrow> (PrxDecryptResult \<times> bytes \<times> bytes) option" where
  "expand_seed K kmem mt = do {
     expanded \<leftarrow> expand_copies (seed mt) 0 9;
     (res, out, kmem') \<leftarrow> kirk7_decrypt K kmem expanded (keyid mt);
     if res < 0 then Some (PRX_DECRYPT_ERR_KIRK7, expanded, kmem')
     else do { xorbuf \<leftarrow> out; Some (PRX_DECRYPT_RESULT_OK, xorbuf, kmem') }
   }"

text \<open>\<^verbatim>\<open>xor_at\<close>: the loops \<^verbatim>\<open>kirk_block[i] ^= xorbuf[off + i]\<close>.\<close>

definition xor_at :: "bytes \<Rightarrow> bytes \<Rightarrow> nat \<Rightarrow> bytes option" where
  "xor_at b key off = do {
     k \<leftarrow> mem_read key off (length b);
     Some (map2 (XOR) b k)
   }"

text \<open>
  \<^verbatim>\<open>PrxType2\<close> is a sequence of byte arrays, so the 0x60 bytes decrypted from
  \<^verbatim>\<open>btcnf_id\<close> on run through \<^verbatim>\<open>sha1_hash\<close>, \<^verbatim>\<open>kirk_aes_key\<close>, \<^verbatim>\<open>kirk_cmac_key\<close>,
  \<^verbatim>\<open>kirk_header_hash\<close> and the first 12 bytes of \<^verbatim>\<open>kirk_data_hash\<close>. The header is the
  0x150-byte list of its fields in declaration order.
\<close>

definition prx2_header :: "bytes \<Rightarrow> bytes option" where
  "prx2_header img = do {
     personalisation \<leftarrow> mem_read img 0xD0 0x5C;
     btcnf_id \<leftarrow> mem_read img 0x140 0x10;
     sha1_hash \<leftarrow> mem_read img 0x12C 0x14;
     kirk_aes_key \<leftarrow> mem_read img 0x80 0x10;
     kirk_cmac_key \<leftarrow> mem_read img 0x90 0x10;
     kirk_header_hash \<leftarrow> mem_read img 0xA0 0x10;
     kirk_data_hash \<leftarrow> mem_read img 0xC0 0x10;
     kirk_metadata \<leftarrow> mem_read img 0xB0 0x10;
     elf_info \<leftarrow> mem_read img 0x00 0x80;
     Some (personalisation @ btcnf_id @ sha1_hash @ kirk_aes_key @ kirk_cmac_key @
           kirk_header_hash @ kirk_data_hash @ kirk_metadata @ elf_info)
   }"

text \<open>The tail of \<^verbatim>\<open>prx2_decrypt\<close>: build the KIRK 1 block at 0x40 and run it over the image.\<close>

definition prx2_finish ::
  "kirk_engine \<Rightarrow> bytes \<Rightarrow> bytes \<Rightarrow> bytes \<Rightarrow> bytes \<Rightarrow> bytes \<Rightarrow>
   (PrxDecryptResult \<times> bytes \<times> bytes) option" where
  "prx2_finish K kmem img kirk_block kirk_metadata elf_info = do {
     img1 \<leftarrow> mem_write img (0x40 + 0x00) kirk_block;
     img2 \<leftarrow> mem_write img1 (0x40 + 0x40) (replicate 0x30 0);
     img3 \<leftarrow> mem_write img2 (0x40 + 0x70) kirk_metadata;
     img4 \<leftarrow> mem_write img3 (0x40 + 0x80) (replicate 0x10 0);
     img5 \<leftarrow> mem_write img4 (0x40 + 0x90) elf_info;
     img6 \<leftarrow> mem_write img5 (0x40 + 0x60) (to_le32 1);
     let (res, out) = kirk1_op K (drop 0x40 img6);
     img7 \<leftarrow> mem_write img6 0 out;
     if res \<noteq> 0 then Some (PRX_DECRYPT_ERR_KIRK1, img7, kmem)
     else Some (PRX_DECRYPT_RESULT_OK, img7, kmem)
   }"

definition prx2_decrypt ::
  "kirk_engine \<Rightarrow> bytes \<Rightarrow> bytes \<Rightarrow> PrxMetaType \<Rightarrow> (PrxDecryptResult \<times> bytes \<times> bytes) option" where
  "prx2_decrypt K kmem img mt = do {
     (res, xorbuf, kmem1) \<leftarrow> expand_seed K kmem mt;
     if res \<noteq> PRX_DECRYPT_RESULT_OK then Some (res, img, kmem1)
     else do {
       header0 \<leftarrow> prx2_header img;
       enc \<leftarrow> mem_read header0 0x5C 0x60;
       (k7_res, dec, kmem2) \<leftarrow> kirk7_decrypt K kmem1 enc (keyid mt);
       if k7_res < 0 then Some (PRX_DECRYPT_ERR_KIRK7, img, kmem2)
       else do {
         dec' \<leftarrow> dec;
         header \<leftarrow> mem_write header0 0x5C dec';
         kirk_block0 \<leftarrow> mem_read header 0x80 0x40;
         kirk_block1 \<leftarrow> xor_at kirk_block0 xorbuf 0x10;
         (k7_res2, dec2, kmem3) \<leftarrow> kirk7_decrypt K kmem2 kirk_block1 (keyid mt);
         if k7_res2 < 0 then Some (PRX_DECRYPT_ERR_KIRK7, img, kmem3)
         else do {
           kirk_block2 \<leftarrow> dec2;
           kirk_block \<leftarrow> xor_at kirk_block2 xorbuf 0x50;
           kirk_metadata \<leftarrow> mem_read header 0xC0 0x10;
           elf_info \<leftarrow> mem_read header 0xD0 0x80;
           prx2_finish K kmem3 img kirk_block kirk_metadata elf_info
         }
       }
     }
   }"

section \<open>Type 8\<close>

text \<open>
  The buffer \<^verbatim>\<open>sha_buf\<close> is filled in the source but the hash over it is commented out,
  so it has no effect on the result and is left out here.
\<close>

definition prx8_finish ::
  "kirk_engine \<Rightarrow> bytes \<Rightarrow> bytes \<Rightarrow> bytes \<Rightarrow> bytes \<Rightarrow> bytes \<Rightarrow>
   (PrxDecryptResult \<times> bytes \<times> bytes) option" where
  "prx8_finish K kmem img kirk_block m1 m2 = do {
     img1 \<leftarrow> mem_write img (0x40 + 0x00) kirk_block;
     img2 \<leftarrow> mem_write img1 (0x40 + 0x70) m1;
     img3 \<leftarrow> mem_write img2 (0x40 + 0x90) m2;
     let (res, out) = kirk1_op K (drop 0x40 img3);
     img4 \<leftarrow> mem_write img3 0 out;
     if res \<noteq> 0 then Some (PRX_DECRYPT_ERR_KIRK1, img4, kmem)
     else Some (PRX_DECRYPT_RESULT_OK, img4, kmem)
   }"

definition prx8_decrypt ::
  "kirk_engine \<Rightarrow> bytes \<Rightarrow> bytes \<Rightarrow> PrxMetaType \<Rightarrow> (PrxDecryptResult \<times> bytes \<times> bytes) option" where
  "prx8_decrypt K kmem img mt = do {
     h0 \<leftarrow> mem_read img 0xD0 0x80;
     h1 \<leftarrow> mem_read img 0x80 0x50;
     h2 \<leftarrow> mem_read img 0x00 0x80;
     let reorganised_header = h0 @ h1 @ h2;
     sd \<leftarrow> mem_read (seed mt) 0 0x90;
     (res1, out1, kmem1) \<leftarrow> kirk7_decrypt K kmem sd (keyid mt);
     if res1 < 0 then Some (PRX_DECRYPT_ERR_KIRK7, img, kmem1)
     else do {
       xorbuf \<leftarrow> out1;
       block0 \<leftarrow> mem_read reorganised_header 0x40 0x70;
       block1 \<leftarrow> xor_at block0 xorbuf 0x14;
       (res2, out2, kmem2) \<leftarrow> kirk7_decrypt K kmem1 block1 (keyid mt);
       if res2 < 0 then Some (PRX_DECRYPT_ERR_KIRK7, img, kmem2)
       else do {
         block2 \<leftarrow> out2;
         kirk_block \<leftarrow> xor_at block2 xorbuf 0x20;
         m1 \<leftarrow> mem_read reorganised_header 0xB0 0x20;
         m2 \<leftarrow> mem_read reorganised_header 0xD0 0x80;
         prx8_finish K kmem2 img kirk_block m1 m2
       }
     }
   }"

section \<open>Dispatch on the tag\<close>

fun prx_dispatch ::
  "kirk_engine \<Rightarrow> bytes \<Rightarrow> bytes \<Rightarrow> u32 \<Rightarrow> PrxMetaType list \<Rightarrow>
   (PrxDecryptResult \<times> bytes \<times> bytes) option" where
  "prx_dispatch K kmem img tg [] = Some (PRX_DECRYPT_ERR_UNSUPPORTED, img, kmem)"
| "prx_dispatch K kmem img tg (mt # mts) =
     (if tg = tag mt then
        (case prx_type mt of
           PRX_TYPE_2 \<Rightarrow> prx2_decrypt K kmem img mt
         | PRX_TYPE_8 \<Rightarrow> prx8_decrypt K kmem img mt)
      else prx_dispatch K kmem img tg mts)"

text \<open>
  \<^verbatim>\<open>prx_decrypt\<close>: the result, \<^verbatim>\<open>*out_length\<close> (the compressed size, a 32-bit value), the
  buffer and the KIRK window afterwards.
\<close>

definition prx_decrypt ::
  "kirk_engine \<Rightarrow> bytes \<Rightarrow> bytes \<Rightarrow> (PrxDecryptResult \<times> u32 \<times> bytes \<times> bytes) option" where
  "prx_decrypt K kmem data = do {
     header \<leftarrow> mem_read data 0 PSP_HEADER_SIZE;
     comp_size \<leftarrow> read_u32 header COMP_SIZE_OFF;
     tg \<leftarrow> read_u32 header TAG_OFF;
     (res, data', kmem') \<leftarrow> prx_dispatch K kmem data tg g_prx_metatypes;
     Some (res, comp_size, data', kmem')
   }"

section \<open>Every outcome stays inside the buffer\<close>

text \<open>
  \<open>prx_safe\<close> is the contract of the three decryptors: they return, neither the image nor
  the window changes size, and a KIRK 7 or tag failure leaves the image as it was.
\<close>

definition prx_safe :: "bytes \<Rightarrow> (PrxDecryptResult \<times> bytes \<times> bytes) option \<Rightarrow> bool" where
  "prx_safe img r \<longleftrightarrow> (\<exists>res img' kmem'. r = Some (res, img', kmem') \<and>
     length img' = length img \<and> length kmem' = KIRK_WINDOW \<and>
     (res = PRX_DECRYPT_ERR_KIRK7 \<or> res = PRX_DECRYPT_ERR_UNSUPPORTED \<longrightarrow> img' = img))"

lemma expand_copies_length:
  "0x10 \<le> length sd \<Longrightarrow> \<exists>r. expand_copies sd i n = Some r \<and> length r = 0x10 * n"
proof (induction n arbitrary: i)
  case 0
  then show ?case by simp
next
  case (Suc n)
  then obtain r where "expand_copies sd (Suc i) n = Some r" "length r = 0x10 * n" by blast
  then show ?case using Suc.prems by (simp add: mem_read_def)
qed

lemma expand_seed_cases:
  assumes "kirk_ok K" "length kmem = KIRK_WINDOW" "0x10 \<le> length (seed mt)"
  obtains e kmem' where "expand_seed K kmem mt = Some (PRX_DECRYPT_ERR_KIRK7, e, kmem')"
      "length kmem' = KIRK_WINDOW"
    | xorbuf kmem' where "expand_seed K kmem mt = Some (PRX_DECRYPT_RESULT_OK, xorbuf, kmem')"
      "length xorbuf = 0x90" "length kmem' = KIRK_WINDOW"
proof -
  obtain e where e: "expand_copies (seed mt) 0 9 = Some e" "length e = 0x90"
    using expand_copies_length [OF assms(3), of 0 9] by auto
  show thesis
    by (rule kirk7_decrypt_cases [OF assms(1,2), of e "keyid mt"])
       (use e that in \<open>auto simp: expand_seed_def\<close>)
qed

lemma xor_at_Some:
  "off + length b \<le> length key \<Longrightarrow> \<exists>r. xor_at b key off = Some r \<and> length r = length b"
  by (simp add: xor_at_def mem_read_def)

lemma kirk1_write_back:
  assumes "kirk_ok K" "0x40 \<le> length img"
  shows "\<exists>img'. mem_write img 0 (snd (kirk1_op K (drop 0x40 img))) = Some img' \<and>
    length img' = length img"
proof -
  have "length (snd (kirk1_op K (drop 0x40 img))) \<le> length img"
    using assms unfolding kirk_ok_def by (metis diff_le_self le_trans length_drop)
  then show ?thesis by (simp add: mem_write_def)
qed

lemma prx2_finish_safe:
  assumes K: "kirk_ok K" and w: "length kmem = KIRK_WINDOW" and i: "0x150 \<le> length img"
    and l: "length kb = 0x40" "length md = 0x10" "length ei = 0x80"
  shows "prx_safe img (prx2_finish K kmem img kb md ei)"
proof -
  obtain i1 where i1: "mem_write img (0x40 + 0x00) kb = Some i1" "length i1 = length img"
    by (rule mem_write_obtain [of "0x40 + 0x00" kb img]) (use i l in simp_all)
  obtain i2 where i2: "mem_write i1 (0x40 + 0x40) (replicate 0x30 0) = Some i2" "length i2 = length img"
    by (rule mem_write_obtain [of "0x40 + 0x40" "replicate 0x30 0" i1]) (use i i1 in simp_all)
  obtain i3 where i3: "mem_write i2 (0x40 + 0x70) md = Some i3" "length i3 = length img"
    by (rule mem_write_obtain [of "0x40 + 0x70" md i2]) (use i l i2 in simp_all)
  obtain i4 where i4: "mem_write i3 (0x40 + 0x80) (replicate 0x10 0) = Some i4" "length i4 = length img"
    by (rule mem_write_obtain [of "0x40 + 0x80" "replicate 0x10 0" i3]) (use i i3 in simp_all)
  obtain i5 where i5: "mem_write i4 (0x40 + 0x90) ei = Some i5" "length i5 = length img"
    by (rule mem_write_obtain [of "0x40 + 0x90" ei i4]) (use i l i4 in simp_all)
  obtain i6 where i6: "mem_write i5 (0x40 + 0x60) (to_le32 1) = Some i6" "length i6 = length img"
    by (rule mem_write_obtain [of "0x40 + 0x60" "to_le32 1" i5]) (use i i5 in simp_all)
  have "0x40 \<le> length i6" using i6 i by simp
  from kirk1_write_back [OF K this] show ?thesis
    using w i1 i2 i3 i4 i5 i6
    by (auto simp: prx2_finish_def prx_safe_def Let_def split: prod.split)
qed

lemma prx8_finish_safe:
  assumes K: "kirk_ok K" and w: "length kmem = KIRK_WINDOW" and i: "0x150 \<le> length img"
    and l: "length kb = 0x70" "length m1 = 0x20" "length m2 = 0x80"
  shows "prx_safe img (prx8_finish K kmem img kb m1 m2)"
proof -
  obtain i1 where i1: "mem_write img (0x40 + 0x00) kb = Some i1" "length i1 = length img"
    by (rule mem_write_obtain [of "0x40 + 0x00" kb img]) (use i l in simp_all)
  obtain i2 where i2: "mem_write i1 (0x40 + 0x70) m1 = Some i2" "length i2 = length img"
    by (rule mem_write_obtain [of "0x40 + 0x70" m1 i1]) (use i l i1 in simp_all)
  obtain i3 where i3: "mem_write i2 (0x40 + 0x90) m2 = Some i3" "length i3 = length img"
    by (rule mem_write_obtain [of "0x40 + 0x90" m2 i2]) (use i l i2 in simp_all)
  have "0x40 \<le> length i3" using i3 i by simp
  from kirk1_write_back [OF K this] show ?thesis
    using w i1 i2 i3
    by (auto simp: prx8_finish_def prx_safe_def Let_def split: prod.split)
qed

lemma prx2_header_Some:
  "0x150 \<le> length img \<Longrightarrow> \<exists>h. prx2_header img = Some h \<and> length h = 0x150"
  by (simp add: prx2_header_def buf_simps)

lemma prx2_decrypt_safe:
  assumes K: "kirk_ok K" and w: "length kmem = KIRK_WINDOW" and i: "0x150 \<le> length img"
    and s: "0x10 \<le> length (seed mt)"
  shows "prx_safe img (prx2_decrypt K kmem img mt)"
proof (rule expand_seed_cases [OF K w s], goal_cases)
  case (1 e k1)
  then show ?case by (simp add: prx2_decrypt_def prx_safe_def)
next
  case (2 xb k1)
  obtain h0 where h0: "prx2_header img = Some h0" "length h0 = 0x150"
    using prx2_header_Some [OF i] by blast
  obtain enc where enc: "mem_read h0 0x5C 0x60 = Some enc" "length enc = 0x60"
    using h0 by (simp add: mem_read_def)
  show ?case
  proof (rule kirk7_decrypt_cases [OF K 2(3), of enc "keyid mt"], goal_cases)
    case (1 rc k2)
    then show ?case using 2 h0 enc by (simp add: prx2_decrypt_def prx_safe_def)
  next
    case d: (2 dec k2)
    obtain h where h: "mem_write h0 0x5C dec = Some h" "length h = 0x150"
      by (rule mem_write_obtain [of "0x5C" dec h0]) (use d enc h0 in simp_all)
    obtain b0 md ei where b: "mem_read h 0x80 0x40 = Some b0" "mem_read h 0xC0 0x10 = Some md"
        "mem_read h 0xD0 0x80 = Some ei" "length b0 = 0x40" "length md = 0x10" "length ei = 0x80"
      using h by (simp add: mem_read_def)
    obtain b1 where b1: "xor_at b0 xb 0x10 = Some b1" "length b1 = 0x40"
      using xor_at_Some [of "0x10" b0 xb] 2 b by auto
    show ?case
    proof (rule kirk7_decrypt_cases [OF K d(3), of b1 "keyid mt"], goal_cases)
      case (1 rc k3)
      then show ?case using 2 h0 enc d h b b1 by (simp add: prx2_decrypt_def prx_safe_def)
    next
      case f: (2 b2 k3)
      obtain kb where kb: "xor_at b2 xb 0x50 = Some kb" "length kb = 0x40"
        using xor_at_Some [of "0x50" b2 xb] 2 f b1 by auto
      have "prx2_decrypt K kmem img mt = prx2_finish K k3 img kb md ei"
        using 2 h0 enc d h b b1 f kb by (simp add: prx2_decrypt_def)
      then show ?case using prx2_finish_safe [OF K f(3) i kb(2) b(5,6)] by simp
    qed
  qed
qed

lemma prx8_decrypt_safe:
  assumes K: "kirk_ok K" and w: "length kmem = KIRK_WINDOW" and i: "0x150 \<le> length img"
    and s: "0x90 \<le> length (seed mt)"
  shows "prx_safe img (prx8_decrypt K kmem img mt)"
proof -
  let ?rh = "take 0x80 (drop 0xD0 img) @ take 0x50 (drop 0x80 img) @ take 0x80 img"
  have rh: "mem_read img 0xD0 0x80 = Some (take 0x80 (drop 0xD0 img))"
    "mem_read img 0x80 0x50 = Some (take 0x50 (drop 0x80 img))"
    "mem_read img 0x00 0x80 = Some (take 0x80 img)" and lrh: "length ?rh = 0x150"
    using i by (simp_all add: mem_read_def)
  obtain sd where sd: "mem_read (seed mt) 0 0x90 = Some sd" "length sd = 0x90"
    using s by (simp add: mem_read_def)
  obtain b0 m1 m2 where b: "mem_read ?rh 0x40 0x70 = Some b0" "mem_read ?rh 0xB0 0x20 = Some m1"
      "mem_read ?rh 0xD0 0x80 = Some m2" "length b0 = 0x70" "length m1 = 0x20" "length m2 = 0x80"
    using lrh by (simp only: mem_read_def) simp
  show ?thesis
  proof (rule kirk7_decrypt_cases [OF K w, of sd "keyid mt"], goal_cases)
    case (1 rc k1)
    then show ?case using rh sd by (simp add: prx8_decrypt_def prx_safe_def)
  next
    case x: (2 xb k1)
    obtain b1 where b1: "xor_at b0 xb 0x14 = Some b1" "length b1 = 0x70"
      using xor_at_Some [of "0x14" b0 xb] x sd b by auto
    show ?case
    proof (rule kirk7_decrypt_cases [OF K x(3), of b1 "keyid mt"], goal_cases)
      case (1 rc k2)
      then show ?case using rh sd x b b1
        by (simp add: prx8_decrypt_def prx_safe_def del: append_assoc)
    next
      case f: (2 b2 k2)
      obtain kb where kb: "xor_at b2 xb 0x20 = Some kb" "length kb = 0x70"
        using xor_at_Some [of "0x20" b2 xb] x sd f b1 by auto
      have "prx8_decrypt K kmem img mt = prx8_finish K k2 img kb m1 m2"
        using rh sd x b b1 f kb by (simp add: prx8_decrypt_def)
      then show ?case using prx8_finish_safe [OF K f(3) i kb(2) b(5,6)] by simp
    qed
  qed
qed

lemma g_prx_metatypes_seeds:
  "mt \<in> set g_prx_metatypes \<Longrightarrow>
     (case prx_type mt of PRX_TYPE_2 \<Rightarrow> 0x10 \<le> length (seed mt) | PRX_TYPE_8 \<Rightarrow> 0x90 \<le> length (seed mt))"
  by (auto simp: g_prx_metatypes_def g_0x0E000000_seed_def g_0xD82310F0_seed_def
      g_0xD8231EF0_seed_def g_0xD82328F0_seed_def)

lemma prx_dispatch_safe:
  assumes "kirk_ok K" "length kmem = KIRK_WINDOW" "0x150 \<le> length img"
    and "set mts \<subseteq> set g_prx_metatypes"
  shows "prx_safe img (prx_dispatch K kmem img tg mts)"
  using assms(4)
proof (induction mts)
  case Nil
  then show ?case using assms(2) by (simp add: prx_safe_def)
next
  case (Cons mt mts)
  then show ?case using g_prx_metatypes_seeds [of mt] prx2_decrypt_safe [OF assms(1-3), of mt]
      prx8_decrypt_safe [OF assms(1-3), of mt] by (cases "prx_type mt") auto
qed

lemma prx_decrypt_safe:
  assumes "kirk_ok K" "length kmem = KIRK_WINDOW" "PSP_HEADER_SIZE \<le> length data"
  shows "\<exists>res n data' kmem'. prx_decrypt K kmem data = Some (res, n, data', kmem') \<and>
     read_u32 data COMP_SIZE_OFF = Some n \<and>
     length data' = length data \<and> length kmem' = KIRK_WINDOW \<and>
     (res = PRX_DECRYPT_ERR_KIRK7 \<or> res = PRX_DECRYPT_ERR_UNSUPPORTED \<longrightarrow> data' = data)"
proof -
  let ?h = "take PSP_HEADER_SIZE data"
  have h: "mem_read data 0 PSP_HEADER_SIZE = Some ?h" "length ?h = PSP_HEADER_SIZE"
    using assms(3) by (simp_all add: mem_read_def)
  obtain cs where cs: "read_u32 ?h COMP_SIZE_OFF = Some cs"
    using read_u32_Some [of COMP_SIZE_OFF ?h] h assms(3) by auto
  obtain tg where tg: "read_u32 ?h TAG_OFF = Some tg"
    using read_u32_Some [of TAG_OFF ?h] h assms(3) by auto
  have "read_u32 data COMP_SIZE_OFF = Some cs"
    using cs by (simp add: read_u32_take)
  then show ?thesis
    using h cs tg prx_dispatch_safe [OF assms, of g_prx_metatypes tg]
    by (auto simp: prx_decrypt_def prx_safe_def)
qed

end
