(* ===== verification/Cstring.thy ===== *)
theory Cstring
  imports Prelude "HOL-Library.Char_ord" "HOL-Library.List_Lexorder" "HOL-Library.Sublist"
begin

text \<open>
  The C string routines of lib/libc/string that the flasher and the console use.
  A \<^verbatim>\<open>char *\<close> is the list of bytes from the pointer to the end of the object it
  points into; a pointer result is the offset from the argument. Reading past the end
  of the object gives \<open>None\<close>, so a theorem that a routine returns \<open>Some\<close> also says
  that it never leaves a properly terminated string. Where the routine can return
  \<^verbatim>\<open>NULL\<close> the inner option is \<open>None\<close>.
\<close>

section \<open>The routines\<close>

fun strlen :: "bytes \<Rightarrow> nat option" where
  "strlen [] = None"
| "strlen (c # s) = (if c \<noteq> 0 then map_option Suc (strlen s) else Some 0)"

fun strnlen :: "bytes \<Rightarrow> nat \<Rightarrow> nat option" where
  "strnlen s 0 = Some 0"
| "strnlen [] (Suc n) = None"
| "strnlen (c # s) (Suc n) = (if c \<noteq> 0 then map_option Suc (strnlen s n) else Some 0)"

text \<open>The difference is stored in a \<^verbatim>\<open>signed char\<close>, so it wraps at eight bits.\<close>

fun strcmp :: "bytes \<Rightarrow> bytes \<Rightarrow> int option" where
  "strcmp (a # cs) (b # ct) =
     (let res = a - b in if res \<noteq> 0 \<or> a = 0 then Some (sint res) else strcmp cs ct)"
| "strcmp _ _ = None"

fun strncmp :: "bytes \<Rightarrow> bytes \<Rightarrow> nat \<Rightarrow> int option" where
  "strncmp cs ct 0 = Some 0"
| "strncmp (a # cs) (b # ct) (Suc n) =
     (let res = a - b in
      if res \<noteq> 0 \<or> a = 0 then Some (sint res) else strncmp cs ct n)"
| "strncmp _ _ (Suc n) = None"

fun memcmp :: "bytes \<Rightarrow> bytes \<Rightarrow> nat \<Rightarrow> int option" where
  "memcmp cs ct 0 = Some 0"
| "memcmp (a # cs) (b # ct) (Suc n) =
     (let res = a - b in if res \<noteq> 0 then Some (sint res) else memcmp cs ct n)"
| "memcmp _ _ (Suc n) = None"

fun memchr :: "bytes \<Rightarrow> u8 \<Rightarrow> nat \<Rightarrow> nat option option" where
  "memchr b x 0 = Some None"
| "memchr [] x (Suc n) = None"
| "memchr (c # b) x (Suc n) =
     (if c = x then Some (Some 0) else map_option (map_option Suc) (memchr b x n))"

fun strchr :: "bytes \<Rightarrow> u8 \<Rightarrow> nat option option" where
  "strchr [] c = None"
| "strchr (x # s) c =
     (if x = c then Some (Some 0)
      else if x = 0 then Some None
      else map_option (map_option Suc) (strchr s c))"

text \<open>\<^verbatim>\<open>strrchr\<close> compares the (signed) character with the \<^verbatim>\<open>int\<close> argument.\<close>

fun strrchr_loop :: "bytes \<Rightarrow> int \<Rightarrow> nat \<Rightarrow> nat option \<Rightarrow> nat option option" where
  "strrchr_loop [] c i lst = None"
| "strrchr_loop (x # s) c i lst =
     (if x \<noteq> 0 then strrchr_loop s c (Suc i) (if sint x = c then Some i else lst)
      else Some lst)"

definition strrchr :: "bytes \<Rightarrow> int \<Rightarrow> nat option option" where
  "strrchr s c = strrchr_loop s c 0 (if c \<noteq> 0 then None else Some 0)"

text \<open>The inner loop of \<^verbatim>\<open>strspn\<close> and \<^verbatim>\<open>strpbrk\<close>: is \<open>x\<close> among the bytes of the set?\<close>

fun scan_set :: "bytes \<Rightarrow> u8 \<Rightarrow> bool option" where
  "scan_set [] x = None"
| "scan_set (a # acc) x =
     (if a = 0 then Some False else if x = a then Some True else scan_set acc x)"

fun strspn :: "bytes \<Rightarrow> bytes \<Rightarrow> nat option" where
  "strspn [] accept = None"
| "strspn (p # s) accept =
     (if p = 0 then Some 0
      else case scan_set accept p of
        None \<Rightarrow> None
      | Some False \<Rightarrow> Some 0
      | Some True \<Rightarrow> map_option Suc (strspn s accept))"

fun strpbrk :: "bytes \<Rightarrow> bytes \<Rightarrow> nat option option" where
  "strpbrk [] ct = None"
| "strpbrk (c # s) ct =
     (if c = 0 then Some None
      else case scan_set ct c of
        None \<Rightarrow> None
      | Some True \<Rightarrow> Some (Some 0)
      | Some False \<Rightarrow> map_option (map_option Suc) (strpbrk s ct))"

fun strstr_loop :: "nat \<Rightarrow> bytes \<Rightarrow> bytes \<Rightarrow> nat \<Rightarrow> nat \<Rightarrow> nat option option" where
  "strstr_loop 0 s1 s2 l2 i =
     (if 0 \<ge> l2 then
        (case memcmp s1 s2 l2 of
           None \<Rightarrow> None | Some r \<Rightarrow> if r = 0 then Some (Some i) else Some None)
      else Some None)"
| "strstr_loop (Suc l1) s1 s2 l2 i =
     (if Suc l1 \<ge> l2 then
        (case memcmp s1 s2 l2 of
           None \<Rightarrow> None
         | Some r \<Rightarrow> if r = 0 then Some (Some i)
                     else (case s1 of [] \<Rightarrow> None | _ # s1' \<Rightarrow> strstr_loop l1 s1' s2 l2 (Suc i)))
      else Some None)"

definition strstr :: "bytes \<Rightarrow> bytes \<Rightarrow> nat option option" where
  "strstr s1 s2 = do {
     l2 \<leftarrow> strlen s2;
     if l2 = 0 then Some (Some 0)
     else do { l1 \<leftarrow> strlen s1; strstr_loop l1 s1 s2 l2 0 }
   }"

fun strcpy :: "bytes \<Rightarrow> bytes \<Rightarrow> bytes option" where
  "strcpy (_ # dest) (c # src) =
     (if c \<noteq> 0 then map_option ((#) c) (strcpy dest src) else Some (c # dest))"
| "strcpy _ _ = None"

fun strcat :: "bytes \<Rightarrow> bytes \<Rightarrow> bytes option" where
  "strcat [] src = None"
| "strcat (d # dest) src =
     (if d \<noteq> 0 then map_option ((#) d) (strcat dest src) else strcpy (d # dest) src)"

fun strlcpy_loop :: "bytes \<Rightarrow> bytes \<Rightarrow> nat \<Rightarrow> nat \<Rightarrow> (bytes \<times> nat) option" where
  "strlcpy_loop (d # dst) (c # src) room i =
     (if room > 0 \<and> c \<noteq> 0
      then map_option (\<lambda>(dst', r). (c # dst', r)) (strlcpy_loop dst src (room - 1) (Suc i))
      else map_option (\<lambda>n. (0 # dst, i + n)) (strlen (c # src)))"
| "strlcpy_loop _ _ _ _ = None"

definition strlcpy :: "bytes \<Rightarrow> bytes \<Rightarrow> nat \<Rightarrow> (bytes \<times> nat) option" where
  "strlcpy dst src s =
     (if s = 0 then map_option (\<lambda>n. (dst, n)) (strlen src)
      else strlcpy_loop dst src (s - 1) 0)"

text \<open>\<^verbatim>\<open>strdup\<close>, given whether \<^verbatim>\<open>malloc\<close> succeeds: the copy, or \<^verbatim>\<open>NULL\<close>.\<close>

definition strdup :: "bool \<Rightarrow> bytes \<Rightarrow> bytes option option" where
  "strdup malloc_ok str = do {
     n \<leftarrow> strlen str;
     if \<not> malloc_ok then Some None
     else do { copy \<leftarrow> mem_read str 0 (n + 1); Some (Some copy) }
   }"

text \<open>
  \<^verbatim>\<open>strtok\<close> works on an object \<open>buf\<close> and the static pointer \<^verbatim>\<open>___strtok\<close>, both
  offsets into it: given the saved pointer and the argument (\<open>None\<close> for \<^verbatim>\<open>NULL\<close>) it
  returns the token pointer, the object with the delimiter overwritten, and the new
  saved pointer.
\<close>

definition strtok ::
  "bytes \<Rightarrow> nat option \<Rightarrow> nat option \<Rightarrow> bytes \<Rightarrow> (nat option \<times> bytes \<times> nat option) option" where
  "strtok buf saved s ct =
     (case (if s \<noteq> None then s else saved) of
        None \<Rightarrow> Some (None, buf, saved)
      | Some sb0 \<Rightarrow> do {
          k \<leftarrow> strspn (drop sb0 buf) ct;
          let sb = sb0 + k;
          if sb \<ge> length buf then None
          else if buf ! sb = 0 then Some (None, buf, None)
          else do {
            brk \<leftarrow> strpbrk (drop sb buf) ct;
            case brk of
              None \<Rightarrow> Some (Some sb, buf, None)
            | Some j \<Rightarrow>
                (if buf ! (sb + j) \<noteq> 0
                 then Some (Some sb, buf[sb + j := 0], Some (sb + j + 1))
                 else Some (Some sb, buf, Some (sb + j)))
          }
        })"

section \<open>Strings as lists of non-zero bytes\<close>

text \<open>\<open>cstr bs\<close> is the C object holding the string \<open>bs\<close>; \<open>lit\<close> turns a literal into its bytes.\<close>

definition lit :: "string \<Rightarrow> bytes" where
  "lit s = map of_char s"

abbreviation cstr :: "bytes \<Rightarrow> bytes" where
  "cstr s \<equiv> s @ [0]"

definition nonul :: "bytes \<Rightarrow> bool" where
  "nonul s \<longleftrightarrow> 0 \<notin> set s"

lemma nonul_simps [simp]:
  "nonul []" "nonul (c # s) \<longleftrightarrow> c \<noteq> 0 \<and> nonul s" "nonul (s @ t) \<longleftrightarrow> nonul s \<and> nonul t"
  by (auto simp: nonul_def)

lemma cstr_split: "0 \<in> set b \<Longrightarrow> \<exists>s r. b = s @ 0 # r \<and> nonul s"
  by (drule split_list_first) (auto simp: nonul_def)

lemma strlen_cstr [simp]: "nonul s \<Longrightarrow> strlen (s @ 0 # r) = Some (length s)"
  by (induction s) auto

lemma strlen_Some_iff: "strlen b = Some n \<longleftrightarrow> n < length b \<and> b ! n = 0 \<and> nonul (take n b)"
proof (induction b arbitrary: n)
  case Nil
  then show ?case by simp
next
  case (Cons c s)
  then show ?case by (cases n) auto
qed

lemma strlen_None_iff: "strlen b = None \<longleftrightarrow> nonul b"
  by (induction b) auto

lemma strcpy_cstr:
  "nonul s \<Longrightarrow> length s < length d \<Longrightarrow> strcpy d (s @ 0 # r) = Some (s @ 0 # drop (Suc (length s)) d)"
proof (induction s arbitrary: d)
  case Nil
  then show ?case by (cases d) auto
next
  case (Cons c s)
  then show ?case by (cases d) auto
qed

section \<open>Comparison\<close>

lemma sint8_eq_0 [simp]: "sint (x :: u8) = 0 \<longleftrightarrow> x = 0"
  by (metis signed_0 signed_word_eqI)

lemma strcmp_eq_iff:
  "nonul s \<Longrightarrow> nonul t \<Longrightarrow> strcmp (s @ 0 # p) (t @ 0 # q) = Some 0 \<longleftrightarrow> s = t"
proof (induction s arbitrary: t)
  case Nil
  then show ?case by (cases t) (auto simp: Let_def)
next
  case (Cons a s)
  then show ?case by (cases t) (auto simp: Let_def)
qed

lemma strcmp_returns:
  "nonul s \<Longrightarrow> nonul t \<Longrightarrow> \<exists>r. strcmp (s @ 0 # p) (t @ 0 # q) = Some r"
proof (induction s arbitrary: t)
  case Nil
  then show ?case by (cases t) (auto simp: Let_def)
next
  case (Cons a s)
  then show ?case by (cases t) (auto simp: Let_def)
qed

lemma sint_eq_uint_ascii: "(a :: u8) < 128 \<Longrightarrow> sint a = uint a"
  by (simp add: word_less_def sint_uint signed_take_bit_int_eq_self_iff
      order_trans [OF _ uint_ge_0])

lemma sint_diff_ascii:
  assumes "(a :: u8) < 128" "b < 128"
  shows "sint (a - b) = uint a - uint b"
proof -
  have a: "uint a < 128" and b: "uint b < 128"
    using assms by (simp_all add: word_less_def)
  have "- 128 \<le> uint a - uint b" using b uint_ge_0 [of a] by linarith
  moreover have "uint a - uint b < 128" using a uint_ge_0 [of b] by linarith
  ultimately have "signed_take_bit 7 (uint a - uint b) = uint a - uint b"
    by (simp add: signed_take_bit_int_eq_self_iff)
  then show ?thesis
    by (simp add: sint_word_ariths sint_eq_uint_ascii assms)
qed

lemma sint_neg_ascii: "(a :: u8) < 128 \<Longrightarrow> sint (- a) = - uint a"
  using sint_diff_ascii [of 0 a] by simp

lemma uint_eq_iff_word: "uint a = uint b \<longleftrightarrow> a = b"
  by (auto intro: word_uint_eqI)

lemma uint_pos_iff [simp]: "0 < uint a \<longleftrightarrow> a \<noteq> 0"
  using uint_ge_0 [of a] by (metis less_le uint_0_iff)

lemma strcmp_ascii_sign:
  assumes "nonul s" "nonul t" "\<forall>c \<in> set s \<union> set t. c < 128"
  shows "\<exists>r. strcmp (s @ 0 # p) (t @ 0 # q) = Some r \<and> (r < 0 \<longleftrightarrow> s < t) \<and> (r = 0 \<longleftrightarrow> s = t)"
  using assms
proof (induction s arbitrary: t)
  case Nil
  then show ?case
    by (cases t) (auto simp: Let_def sint_neg_ascii uint_0_iff)
next
  case (Cons a s)
  show ?case
  proof (cases t)
    case Nil
    with Cons.prems show ?thesis
      by (auto simp: Let_def sint_eq_uint_ascii uint_0_iff)
  next
    case (Cons b t')
    with Cons.prems Cons.IH [of t'] show ?thesis
      by (auto simp: Let_def sint_diff_ascii word_less_def uint_eq_iff_word)
  qed
qed

lemma memcmp_eq_iff:
  "n \<le> length a \<Longrightarrow> n \<le> length b \<Longrightarrow> memcmp a b n = Some 0 \<longleftrightarrow> take n a = take n b"
proof (induction a b n rule: memcmp.induct)
  case (2 a cs b ct n)
  then show ?case by (auto simp: Let_def)
qed auto

lemma memcmp_returns:
  "n \<le> length a \<Longrightarrow> n \<le> length b \<Longrightarrow> \<exists>r. memcmp a b n = Some r"
  by (induction a b n rule: memcmp.induct) (auto simp: Let_def)

lemma memcmp_readable: "memcmp a b n = Some 0 \<Longrightarrow> n \<le> length a"
  by (induction a b n rule: memcmp.induct) (auto simp: Let_def split: if_splits)

section \<open>Searching\<close>

lemma strchr_cstr:
  "nonul s \<Longrightarrow> c \<noteq> 0 \<Longrightarrow>
   strchr (s @ 0 # r) c = Some (if c \<in> set s then Some (length (takeWhile (\<lambda>x. x \<noteq> c) s)) else None)"
  by (induction s) auto

lemma scan_set_cstr: "nonul acc \<Longrightarrow> scan_set (acc @ 0 # q) x = Some (x \<in> set acc)"
  by (induction acc) auto

lemma strspn_cstr:
  "nonul s \<Longrightarrow> nonul acc \<Longrightarrow>
   strspn (s @ 0 # r) (acc @ 0 # q) = Some (length (takeWhile (\<lambda>x. x \<in> set acc) s))"
  by (induction s) (auto simp: scan_set_cstr)

lemma strpbrk_cstr:
  "nonul s \<Longrightarrow> nonul acc \<Longrightarrow>
   strpbrk (s @ 0 # r) (acc @ 0 # q) =
     Some (if set s \<inter> set acc = {} then None
           else Some (length (takeWhile (\<lambda>x. x \<notin> set acc) s)))"
  by (induction s) (auto simp: scan_set_cstr)

lemma strrchr_loop_cstr:
  "nonul s \<Longrightarrow> strrchr_loop (s @ 0 # r) c i lst =
     Some (if c \<in> sint ` set s
           then Some (i + length s - Suc (length (takeWhile (\<lambda>x. sint x \<noteq> c) (rev s)))) else lst)"
proof (induction s arbitrary: i lst)
  case Nil
  then show ?case by simp
next
  case (Cons x s)
  have "c \<in> sint ` set s \<Longrightarrow> length (takeWhile (\<lambda>x. sint x \<noteq> c) (rev s)) < length s"
    using takeWhile_eq_all_conv [of "\<lambda>x. sint x \<noteq> c" "rev s"]
      length_takeWhile_le [of "\<lambda>x. sint x \<noteq> c" "rev s"]
    by (metis (mono_tags, lifting) imageE length_rev nat_less_le set_rev takeWhile_eq_take take_all_iff)
  moreover have "c \<notin> sint ` set s \<Longrightarrow> takeWhile (\<lambda>x. sint x \<noteq> c) (rev s) = rev s"
    by auto
  moreover have "c \<in> sint ` set s \<Longrightarrow>
      takeWhile (\<lambda>x. sint x \<noteq> c) (rev s @ [x]) = takeWhile (\<lambda>x. sint x \<noteq> c) (rev s)"
    by (auto simp: takeWhile_append)
  ultimately show ?case using Cons
    by (auto simp: takeWhile_append)
qed

lemma strrchr_cstr:
  "nonul s \<Longrightarrow> c \<noteq> 0 \<Longrightarrow>
   strrchr (s @ 0 # r) c =
     Some (if c \<in> sint ` set s
           then Some (length s - Suc (length (takeWhile (\<lambda>x. sint x \<noteq> c) (rev s)))) else None)"
  by (simp add: strrchr_def strrchr_loop_cstr)

text \<open>
  \<^verbatim>\<open>strstr\<close> returns the first offset at which the needle occurs.
\<close>

lemma strstr_loop_spec:
  assumes "nonul s1" "nonul s2" "s2 \<noteq> []"
  shows "\<exists>res. strstr_loop (length s1) (s1 @ 0 # p) (s2 @ 0 # q) (length s2) i = Some res \<and>
     (case res of
        None \<Rightarrow> \<forall>j. \<not> prefix s2 (drop j s1)
      | Some k \<Rightarrow> k \<ge> i \<and> prefix s2 (drop (k - i) s1) \<and> (\<forall>j < k - i. \<not> prefix s2 (drop j s1)))"
  using assms(1)
proof (induction s1 arbitrary: i)
  case Nil
  then show ?case using assms(3) by auto
next
  case (Cons a s1)
  let ?n = "length s2" and ?b = "(a # s1) @ 0 # p"
  show ?case
  proof (cases "?n \<le> Suc (length s1)")
    case False
    then have "\<not> prefix s2 (drop j (a # s1))" for j
      by (auto simp: prefix_def dest!: arg_cong [where f = length] split: if_splits)
    with False show ?thesis by auto
  next
    case True
    obtain r where r: "memcmp ?b (s2 @ 0 # q) ?n = Some r"
      using memcmp_returns [of ?n ?b "s2 @ 0 # q"] True by auto
    have eq: "r = 0 \<longleftrightarrow> prefix s2 (a # s1)"
    proof -
      have "r = 0 \<longleftrightarrow> take ?n ?b = s2"
        using memcmp_eq_iff [of ?n ?b "s2 @ 0 # q"] r True by auto
      also have "\<dots> \<longleftrightarrow> take ?n (a # s1) = s2"
        using True take_append [of ?n "a # s1" "0 # p"] by simp
      also have "\<dots> \<longleftrightarrow> prefix s2 (a # s1)"
        by (metis append_eq_conv_conj append_take_drop_id prefix_def)
      finally show ?thesis .
    qed
    show ?thesis
    proof (cases "r = 0")
      case True
      with r eq \<open>?n \<le> Suc (length s1)\<close> show ?thesis by (auto intro!: exI [of _ "Some i"])
    next
      case False
      obtain res where res: "strstr_loop (length s1) (s1 @ 0 # p) (s2 @ 0 # q) ?n (Suc i) = Some res"
        and sp: "case res of None \<Rightarrow> \<forall>j. \<not> prefix s2 (drop j s1)
          | Some k \<Rightarrow> k \<ge> Suc i \<and> prefix s2 (drop (k - Suc i) s1) \<and> (\<forall>j < k - Suc i. \<not> prefix s2 (drop j s1))"
        using Cons by auto
      have "strstr_loop (length (a # s1)) ?b (s2 @ 0 # q) ?n i = Some res"
        using r False res \<open>?n \<le> Suc (length s1)\<close> by simp
      moreover have "case res of None \<Rightarrow> \<forall>j. \<not> prefix s2 (drop j (a # s1))
          | Some k \<Rightarrow> k \<ge> i \<and> prefix s2 (drop (k - i) (a # s1)) \<and> (\<forall>j < k - i. \<not> prefix s2 (drop j (a # s1)))"
      proof (cases res)
        case None
        then show ?thesis using sp eq False by (auto simp: drop_Cons' )
      next
        case (Some k)
        then show ?thesis using sp eq False
          by (auto simp: drop_Cons' Suc_diff_Suc)
      qed
      ultimately show ?thesis by blast
    qed
  qed
qed

lemma strstr_cstr:
  assumes "nonul s1" "nonul s2" "s2 \<noteq> []"
  shows "\<exists>res. strstr (s1 @ 0 # p) (s2 @ 0 # q) = Some res \<and>
     (case res of
        None \<Rightarrow> \<forall>j. \<not> prefix s2 (drop j s1)
      | Some k \<Rightarrow> prefix s2 (drop k s1) \<and> (\<forall>j < k. \<not> prefix s2 (drop j s1)))"
  using strstr_loop_spec [OF assms, of p q 0] assms by (simp add: strstr_def cong: option.case_cong)

section \<open>Tokenising\<close>

text \<open>
  One call of \<^verbatim>\<open>strtok\<close> on a string \<open>pre\<close> (delimiters), \<open>tok\<close> (no delimiter, not empty)
  and the rest: the token is returned terminated, and the saved pointer stands behind
  the overwritten delimiter.
\<close>

lemma strtok_token:
  assumes "nonul ct" "set pre \<subseteq> set ct" "set tok \<inter> set ct = {}" "tok \<noteq> []" "nonul tok"
    and "d \<in> set ct" "nonul rest"
    and off: "off = (case s of Some o1 \<Rightarrow> o1 | None \<Rightarrow> the saved)" "s \<noteq> None \<or> saved \<noteq> None"
    and buf: "buf = hdr @ pre @ tok @ d # rest @ 0 # tr" "off = length hdr"
  shows "strtok buf saved s (ct @ 0 # q) =
     Some (Some (off + length pre), hdr @ pre @ tok @ 0 # rest @ 0 # tr,
           Some (off + length pre + length tok + 1))"
proof -
  have npre: "nonul pre" and d0: "d \<noteq> 0"
    using assms(1,2,6) by (auto simp: nonul_def)
  have sel: "(if s \<noteq> None then s else saved) = Some off" using off by (cases s) auto
  have "takeWhile (\<lambda>x. x \<in> set ct) (pre @ tok @ d # rest) = pre"
    using assms(2,3,4) by (cases tok) (auto simp: takeWhile_append)
  then have spn: "strspn (drop off buf) (ct @ 0 # q) = Some (length pre)"
    using strspn_cstr [of "pre @ tok @ d # rest" ct tr q] npre assms(1,5,7) d0 buf by simp
  have "takeWhile (\<lambda>x. x \<notin> set ct) (tok @ d # rest) = tok"
    using assms(3,6) by (auto simp: takeWhile_append disjoint_iff)
  then have brk: "strpbrk (drop (off + length pre) buf) (ct @ 0 # q) = Some (Some (length tok))"
    using strpbrk_cstr [of "tok @ d # rest" ct tr q] assms(1,5,6,7) d0 buf by auto
  have n1: "buf ! (off + length pre) \<noteq> 0"
    using buf assms(4,5) by (cases tok) (auto simp: nth_append)
  have n2: "buf ! (off + length pre + length tok) = d"
    using buf by (simp add: nth_append)
  have upd: "buf[off + length pre + length tok := 0] = hdr @ pre @ tok @ 0 # rest @ 0 # tr"
    using buf by (simp add: list_update_append)
  show ?thesis
    using sel spn brk n1 n2 upd d0 buf by (simp add: strtok_def Let_def)
qed

lemma strtok_last:
  assumes "nonul ct" "set pre \<subseteq> set ct" "set tok \<inter> set ct = {}" "tok \<noteq> []" "nonul tok"
    and off: "off = (case s of Some o1 \<Rightarrow> o1 | None \<Rightarrow> the saved)" "s \<noteq> None \<or> saved \<noteq> None"
    and buf: "buf = hdr @ pre @ tok @ 0 # tr" "off = length hdr"
  shows "strtok buf saved s (ct @ 0 # q) = Some (Some (off + length pre), buf, None)"
proof -
  have npre: "nonul pre" using assms(1,2) by (auto simp: nonul_def)
  have sel: "(if s \<noteq> None then s else saved) = Some off" using off by (cases s) auto
  have "takeWhile (\<lambda>x. x \<in> set ct) (pre @ tok) = pre"
    using assms(2,3,4) by (cases tok) (auto simp: takeWhile_append)
  then have spn: "strspn (drop off buf) (ct @ 0 # q) = Some (length pre)"
    using strspn_cstr [of "pre @ tok" ct tr q] npre assms(1,5) buf by simp
  have brk: "strpbrk (drop (off + length pre) buf) (ct @ 0 # q) = Some None"
    using strpbrk_cstr [of tok ct tr q] assms(1,3,5) buf by simp
  have n1: "buf ! (off + length pre) \<noteq> 0"
    using buf assms(4,5) by (cases tok) (auto simp: nth_append)
  show ?thesis using sel spn brk n1 buf by (simp add: strtok_def Let_def)
qed

lemma strtok_done:
  assumes "nonul ct" "set pre \<subseteq> set ct"
    and off: "off = (case s of Some o1 \<Rightarrow> o1 | None \<Rightarrow> the saved)" "s \<noteq> None \<or> saved \<noteq> None"
    and buf: "buf = hdr @ pre @ 0 # tr" "off = length hdr"
  shows "strtok buf saved s (ct @ 0 # q) = Some (None, buf, None)"
proof -
  have npre: "nonul pre" using assms(1,2) by (auto simp: nonul_def)
  have sel: "(if s \<noteq> None then s else saved) = Some off" using off by (cases s) auto
  have "length (takeWhile (\<lambda>x. x \<in> set ct) pre) = length pre"
    using assms(2) by (metis subsetD takeWhile_eq_all_conv)
  then have "strspn (drop off buf) (ct @ 0 # q) = Some (length pre)"
    using strspn_cstr [of pre ct tr q] npre assms(1) buf by simp
  then show ?thesis using sel buf by (simp add: strtok_def nth_append Let_def)
qed

text \<open>The difference is kept in a signed char: bytes 128 or more apart compare in the wrong order.\<close>

lemma strcmp_wrong_sign:
  assumes "128 \<le> uint a - uint b"
  shows "\<exists>r. strcmp (a # s) (b # t) = Some r \<and> r < 0"
proof -
  have u: "uint (a - b) = uint a - uint b" using assms by (subst uint_sub_lem [symmetric]) simp
  have "uint (a - b) < 256" using uint_lt2p [of "a - b"] by simp
  then have "uint (a - b) div 128 = 1" using assms u by (intro div_pos_geq [THEN trans]) simp_all
  then have "odd (uint (a - b) div 2 ^ 7)" by simp
  then have "bit (uint (a - b)) 7" by (simp only: bit_iff_odd not_False_eq_True)
  then have "bit (a - b) 7" by (simp add: bit_uint_iff)
  then have "sint (a - b) < 0" using bit_last_iff [of "a - b"] by simp
  then show ?thesis using assms by (auto simp: Let_def)
qed

end
