(* ===== verification/Fatfs.thy ===== *)
theory Fatfs
  imports Prelude
begin

text \<open>
  The FatFs result codes with app/aiseirigh/fferr.c, and the file operations the
  application calls. FatFs is a vendored library, so its operations are fields of a
  record over an abstract file-object type; \<open>fat_ok\<close> is the documented behaviour the
  application relies on.
\<close>

datatype FRESULT = FR_OK | FR_DISK_ERR | FR_INT_ERR | FR_NOT_READY | FR_NO_FILE | FR_NO_PATH
  | FR_INVALID_NAME | FR_DENIED | FR_EXIST | FR_INVALID_OBJECT | FR_WRITE_PROTECTED
  | FR_INVALID_DRIVE | FR_NOT_ENABLED | FR_NO_FILESYSTEM | FR_MKFS_ABORTED | FR_TIMEOUT
  | FR_LOCKED | FR_NOT_ENOUGH_CORE | FR_TOO_MANY_OPEN_FILES | FR_INVALID_PARAMETER

fun ff_result_to_str :: "FRESULT \<Rightarrow> string" where
  "ff_result_to_str FR_OK = ''FR_OK''"
| "ff_result_to_str FR_DISK_ERR = ''FR_DISK_ERR''"
| "ff_result_to_str FR_INT_ERR = ''FR_INT_ERR''"
| "ff_result_to_str FR_NOT_READY = ''FR_NOT_READY''"
| "ff_result_to_str FR_NO_FILE = ''FR_NO_FILE''"
| "ff_result_to_str FR_NO_PATH = ''FR_NO_PATH''"
| "ff_result_to_str FR_INVALID_NAME = ''FR_INVALID_NAME''"
| "ff_result_to_str FR_DENIED = ''FR_DENIED''"
| "ff_result_to_str FR_EXIST = ''FR_EXIST''"
| "ff_result_to_str FR_INVALID_OBJECT = ''FR_INVALID_OBJECT''"
| "ff_result_to_str FR_WRITE_PROTECTED = ''FR_WRITE_PROTECTED''"
| "ff_result_to_str FR_INVALID_DRIVE = ''FR_INVALID_DRIVE''"
| "ff_result_to_str FR_NOT_ENABLED = ''FR_NOT_ENABLED''"
| "ff_result_to_str FR_NO_FILESYSTEM = ''FR_NO_FILESYSTEM''"
| "ff_result_to_str FR_MKFS_ABORTED = ''FR_MKFS_ABORTED''"
| "ff_result_to_str FR_TIMEOUT = ''FR_TIMEOUT''"
| "ff_result_to_str FR_LOCKED = ''FR_LOCKED''"
| "ff_result_to_str FR_NOT_ENOUGH_CORE = ''FR_NOT_ENOUGH_CORE''"
| "ff_result_to_str FR_TOO_MANY_OPEN_FILES = ''FR_TOO_MANY_OPEN_FILES''"
| "ff_result_to_str FR_INVALID_PARAMETER = ''FR_INVALID_PARAMETER''"

text \<open>
  Reading an open file. \<open>f_read\<close> returns the result code, the bytes transferred to the
  caller's buffer (their number is \<^verbatim>\<open>*br\<close>) and the file object afterwards.
\<close>

record 'fil fat_ops =
  f_open :: "bytes \<Rightarrow> FRESULT \<times> 'fil"
  f_read :: "'fil \<Rightarrow> nat \<Rightarrow> FRESULT \<times> bytes \<times> 'fil"
  f_lseek :: "'fil \<Rightarrow> u32 \<Rightarrow> FRESULT \<times> 'fil"
  f_tell :: "'fil \<Rightarrow> u32"
  f_size :: "'fil \<Rightarrow> u32"
  f_close :: "'fil \<Rightarrow> FRESULT"

definition fat_ok :: "'fil fat_ops \<Rightarrow> bool" where
  "fat_ok F \<longleftrightarrow> (\<forall>fp n. length (fst (snd (f_read F fp n))) \<le> n)"

text \<open>
  The bytes of a local object after an \<open>f_read\<close> into it: a short read leaves the tail
  as it was.
\<close>

definition read_into :: "bytes \<Rightarrow> bytes \<Rightarrow> bytes" where
  "read_into obj d = d @ drop (length d) obj"

lemma length_read_into: "length d \<le> length obj \<Longrightarrow> length (read_into obj d) = length obj"
  by (simp add: read_into_def)

text \<open>
  A file of fixed contents with a position: the instance that witnesses use.
\<close>

definition file_ops :: "(bytes \<Rightarrow> bytes option) \<Rightarrow> (bytes \<times> nat) fat_ops" where
  "file_ops fs = \<lparr>
     f_open = (\<lambda>path. case fs path of None \<Rightarrow> (FR_NO_FILE, ([], 0)) | Some c \<Rightarrow> (FR_OK, (c, 0))),
     f_read = (\<lambda>(c, p) n. (FR_OK, take n (drop p c), (c, p + min n (length c - p)))),
     f_lseek = (\<lambda>(c, p) n. (FR_OK, (c, min (unat n) (length c)))),
     f_tell = (\<lambda>(c, p). of_nat p),
     f_size = (\<lambda>(c, p). of_nat (length c)),
     f_close = (\<lambda>_. FR_OK)\<rparr>"

lemma file_ops_ok: "fat_ok (file_ops fs)"
  by (simp add: fat_ok_def file_ops_def split: prod.split)

lemma ff_result_to_str_inj: "inj ff_result_to_str"
proof (rule injI)
  fix a b
  assume "ff_result_to_str a = ff_result_to_str b"
  then show "a = b" by (cases a; cases b) simp_all
qed

end
