(* ===== verification/Psar.thy ===== *)
theory Psar
  imports Prx Cstring Fatfs
begin

text \<open>
  app/aiseirigh/psar.c: reading the firmware archive (PSAR) out of the updater file.
  The archive is a sequence of encrypted blocks; the handle keeps the open file, the two
  work buffers, the list of archive entries and the table that maps entries to paths on
  the flash.

  The handle is a record; the two work buffers are its byte lists (their lengths are
  \<^verbatim>\<open>wb->len\<close>). The KIRK window is global memory in C and rides along in the state.
  \<^verbatim>\<open>malloc\<close> is a parameter saying which request sizes succeed, the inflate routine and
  the DES-CBC decryption are parameters too.
\<close>

section \<open>Data\<close>

datatype PsarResult = PSAR_RESULT_OK | PSAR_ERR_OPEN | PSAR_ERR_READ_HEADER
  | PSAR_ERR_SEEK_HEADER | PSAR_ERR_NOT_PSAR | PSAR_ERR_READ_DATA | PSAR_ERR_DECRYPT_HEADER
  | PSAR_ERR_UNKNOWN_FIRMWARE | PSAR_ERR_SEEK_DATA | PSAR_ERR_PARSE_FILE_HEADER | PSAR_ERR_OOM
  | PSAR_ERR_ENTRY_NOT_FOUND | PSAR_ERR_ENTRY_NOT_FILE | PSAR_ERR_WORK_BUFFER_TOO_SMALL
  | PSAR_ERR_DECOMPRESSION | PSAR_ERR_PARSE_TABLE | PSAR_ERR_DECRYPT_TABLE | PSAR_ERR_HANDLER
  | PSAR_ERR_DECRYPT_IPL | PSAR_ERR_IPL_NOT_FOUND
  | PSAR_RAW int \<comment> \<open>an int returned through the enum type, as decrypt_block_in_wb1 does\<close>

text \<open>The models the sources name; any other value of the SDK's enum is \<open>PSP_MODEL_OTHER\<close>.\<close>

datatype PspModel = PSP_MODEL_01G | PSP_MODEL_02G | PSP_MODEL_03G | PSP_MODEL_04G
  | PSP_MODEL_05G | PSP_MODEL_07G | PSP_MODEL_09G | PSP_MODEL_11G | PSP_MODEL_OTHER

datatype Personalisation = PSAR_FILE_NORMAL | PSAR_FILE_REQ_PERSONALISED
datatype FileType = PSAR_FILE_TYPE_NORMAL | PSAR_FILE_TYPE_IPL

record FileProperties =
  personalisation :: Personalisation
  file_type :: FileType

text \<open>
  A \<^verbatim>\<open>PsarEntry\<close>: the fields of its 0x110-byte \<^verbatim>\<open>PSAR_File_Header\<close> the code uses
  (\<open>ent_filename\<close> is the header from the name on, the object a string read can run through)
  and the offset of the file data.
\<close>

record PsarEntry =
  ent_filename :: bytes
  ent_size :: u32
  ent_expanded_size :: u32
  ent_is_file :: u8
  ent_signcheck :: u8
  ent_file_offset :: u32

text \<open>
  A \<^verbatim>\<open>TableEntry\<close>: \<^verbatim>\<open>name\<close> and \<^verbatim>\<open>path\<close> point into the table text, \<^verbatim>\<open>entry\<close> into the
  entry list.
\<close>

record TableEntry =
  te_name :: nat
  te_path :: nat
  te_entry :: nat

record 'fil PsarHandle =
  fp :: 'fil
  psar_version :: u32
  table_version :: u32
  wb1 :: bytes
  wb2 :: bytes
  psar_list :: "PsarEntry list"
  table_text :: bytes
  table_list :: "TableEntry list"
  metadata :: bytes

record 'fil psar_state = "'fil PsarHandle" +
  kmem :: bytes

record psar_env =
  kirk :: kirk_engine
  malloc_ok :: "u32 \<Rightarrow> bool"
  tinfl :: "nat \<Rightarrow> bytes \<Rightarrow> bool \<times> bytes"
  des_cbc_dec :: "bytes \<Rightarrow> bytes \<Rightarrow> bytes \<Rightarrow> bytes"
  psp_model :: PspModel

text \<open>
  \<open>tinfl\<close>: given the output capacity and the input, whether decompression succeeded and
  the bytes it wrote. \<open>des_cbc_dec key iv b\<close>: the bytes written over the buffer.
\<close>

definition psar_env_ok :: "psar_env \<Rightarrow> bool" where
  "psar_env_ok E \<longleftrightarrow> kirk_ok (kirk E) \<and>
     (\<forall>n b. length (snd (tinfl E n b)) \<le> n) \<and>
     (\<forall>k iv b. length (des_cbc_dec E k iv b) = length b)"

section \<open>Finding the PSAR inside the updater\<close>

abbreviation PBP_MAGIC :: u32 where "PBP_MAGIC \<equiv> 0x50425000"
abbreviation PSAR_MAGIC :: u32 where "PSAR_MAGIC \<equiv> 0x52415350"

text \<open>
  \<^verbatim>\<open>get_header\<close> loops for as long as it reads a PBP header; the value \<open>None\<close> is a loop
  that never ends. \<open>hdr\<close> is the caller's 16-byte \<^verbatim>\<open>PSAR_Header\<close>.
\<close>

partial_function (option) get_header ::
  "'fil fat_ops \<Rightarrow> 'fil \<Rightarrow> bytes \<Rightarrow> (PsarResult \<times> 'fil \<times> bytes) option" where
  "get_header F fp0 hdr0 =
     (case f_read F fp0 0x10 of (res, d, fp1) \<Rightarrow>
        let hdr = read_into hdr0 d in
        if res \<noteq> FR_OK then Some (PSAR_ERR_READ_HEADER, fp1, hdr)
        else if read_u32 hdr 0 = Some PBP_MAGIC then
          (case f_lseek F fp1 0x24 of (res2, fp2) \<Rightarrow>
             if res2 \<noteq> FR_OK then Some (PSAR_ERR_SEEK_HEADER, fp2, hdr)
             else (case f_read F fp2 4 of (res3, d3, fp3) \<Rightarrow>
               if res3 \<noteq> FR_OK then Some (PSAR_ERR_READ_HEADER, fp3, hdr)
               else (case read_u32 (read_into (to_le32 0) d3) 0 of
                   None \<Rightarrow> None
                 | Some psar_offset \<Rightarrow>
                     (case f_lseek F fp3 psar_offset of (res4, fp4) \<Rightarrow>
                        if res4 \<noteq> FR_OK then Some (PSAR_ERR_SEEK_HEADER, fp4, hdr)
                        else get_header F fp4 hdr))))
        else if read_u32 hdr 0 = Some PSAR_MAGIC then Some (PSAR_RESULT_OK, fp1, hdr)
        else Some (PSAR_ERR_NOT_PSAR, fp1, hdr))"

section \<open>Table keys\<close>

record PsarTableKeys =
  tk_key :: bytes
  tk_iv :: bytes

definition table_keys :: "PsarTableKeys list" where
  "table_keys =
     [\<lparr>tk_key = [0x95, 0x62, 0x0B, 0x49, 0xB7, 0x30, 0xE5, 0xC7],
       tk_iv = [0x9E, 0xA4, 0x33, 0x81, 0x86, 0x0C, 0x52, 0x85]\<rparr>,
      \<lparr>tk_key = [0x5A, 0x7B, 0x3D, 0x9D, 0x45, 0xC9, 0xDC, 0x95],
       tk_iv = [0xB2, 0xFE, 0xD9, 0x79, 0x8A, 0x02, 0xB1, 0x87]\<rparr>,
      \<lparr>tk_key = [0x4C, 0xCE, 0x49, 0x5B, 0x6F, 0x20, 0x58, 0x5A],
       tk_iv = [0x81, 0x08, 0xC1, 0xF2, 0x35, 0x98, 0x69, 0xB0]\<rparr>,
      \<lparr>tk_key = [0x73, 0xF4, 0x52, 0x62, 0x62, 0x0B, 0xF1, 0x5A],
       tk_iv = [0x6D, 0x52, 0x1B, 0xA3, 0xC2, 0x36, 0xF9, 0x2B]\<rparr>,
      \<lparr>tk_key = [0xA6, 0x64, 0xC8, 0xF8, 0xFD, 0x9D, 0x44, 0x98],
       tk_iv = [0xDB, 0x4E, 0x79, 0x41, 0xF5, 0x97, 0x30, 0xAD]\<rparr>,
      \<lparr>tk_key = [0xD7, 0xBD, 0x74, 0x81, 0x3D, 0x64, 0x26, 0xE7],
       tk_iv = [0xA6, 0x83, 0x0C, 0x2F, 0x63, 0x0B, 0x96, 0x29]\<rparr>]"

definition get_table_keys :: "u32 \<Rightarrow> PsarTableKeys option" where
  "get_table_keys ver = (if unat ver \<ge> length table_keys then None else Some (table_keys ! unat ver))"

text \<open>
  \<^verbatim>\<open>decrypt_table\<close> works in place on the first \<open>len\<close> bytes of \<open>b\<close>: DES-CBC, then the
  PRX decryption. The result is the return code, the buffer and the KIRK window.
\<close>

definition decrypt_table ::
  "psar_env \<Rightarrow> bytes \<Rightarrow> bytes \<Rightarrow> nat \<Rightarrow> u32 \<Rightarrow> (int \<times> bytes \<times> bytes) option" where
  "decrypt_table E km b len ver = do {
     keys \<leftarrow> get_table_keys ver;
     src \<leftarrow> mem_read b 0 len;
     b1 \<leftarrow> mem_write b 0 (des_cbc_dec E (tk_key keys) (tk_iv keys) src);
     (res, n, b2, km') \<leftarrow> prx_decrypt (kirk E) km b1;
     (case res of
        PRX_DECRYPT_RESULT_OK \<Rightarrow> Some (0, b2, km')
      | PRX_DECRYPT_ERR_KIRK1 \<Rightarrow> Some (-3, b2, km')
      | PRX_DECRYPT_ERR_KIRK7 \<Rightarrow> Some (-4, b2, km')
      | PRX_DECRYPT_ERR_UNSUPPORTED \<Rightarrow> Some (-5, b2, km'))
   }"

section \<open>Blocks\<close>

definition go_pre_key :: bytes where
  "go_pre_key = [0xD8, 0x69, 0xB8, 0x95, 0x33, 0x6B, 0x63, 0x34,
                 0x98, 0xB9, 0xFC, 0x3C, 0xB7, 0x26, 0x2B, 0xD7]"

definition go_post_key :: bytes where
  "go_post_key = [0x0D, 0xA0, 0x90, 0x84, 0xAF, 0x9E, 0xB6, 0xE2,
                  0xD2, 0x94, 0xF2, 0xAA, 0xEF, 0x99, 0x68, 0x71]"

text \<open>The XOR over \<^verbatim>\<open>header + 0x20\<close> that version 5 (the PSP Go) adds on both sides.\<close>

definition go_xor :: "u32 \<Rightarrow> bytes \<Rightarrow> bytes \<Rightarrow> bytes option" where
  "go_xor ver k header =
     (if ver = 5 then do {
        b \<leftarrow> mem_read header 0x20 (PSP_HEADER_SIZE - 0x20);
        mem_write header 0x20 (xor_cycle k b)
      } else Some header)"

definition decrypt_header ::
  "kirk_engine \<Rightarrow> u32 \<Rightarrow> bytes \<Rightarrow> bytes \<Rightarrow> (PsarResult \<times> bytes \<times> bytes) option" where
  "decrypt_header K ver km header = do {
     header1 \<leftarrow> go_xor ver go_pre_key header;
     enc \<leftarrow> mem_read header1 0x20 (PSP_HEADER_SIZE - 0x20);
     (res, out, km') \<leftarrow> kirk7_decrypt K km enc 0x55;
     if res \<noteq> 0 then Some (PSAR_ERR_DECRYPT_HEADER, header1, km')
     else do {
       dec \<leftarrow> out;
       header2 \<leftarrow> mem_write header1 0x20 dec;
       header3 \<leftarrow> go_xor ver go_post_key header2;
       Some (PSAR_RESULT_OK, header3, km')
     }
   }"

definition decrypt_block_in_wb1 ::
  "kirk_engine \<Rightarrow> 'fil psar_state \<Rightarrow> u32 \<Rightarrow> (PsarResult \<times> u32 \<times> 'fil psar_state) option" where
  "decrypt_block_in_wb1 K st len = do {
     (res, dec_length, b, km) \<leftarrow> prx_decrypt K (kmem st) (wb1 st);
     let st' = st\<lparr>wb1 := b, kmem := km\<rparr>;
     (case res of
        PRX_DECRYPT_RESULT_OK \<Rightarrow> Some (PSAR_RESULT_OK, dec_length, st')
      | PRX_DECRYPT_ERR_KIRK1 \<Rightarrow> Some (PSAR_RAW (-3), len, st')
      | PRX_DECRYPT_ERR_KIRK7 \<Rightarrow> Some (PSAR_RAW (-4), len, st')
      | PRX_DECRYPT_ERR_UNSUPPORTED \<Rightarrow> Some (PSAR_RAW (-5), len, st'))
   }"

text \<open>The result, the new value of \<^verbatim>\<open>*len\<close> (0 in every caller on entry) and the state.\<close>

definition read_next_block_wb1 ::
  "kirk_engine \<Rightarrow> 'fil fat_ops \<Rightarrow> 'fil psar_state \<Rightarrow> nat \<Rightarrow>
   (PsarResult \<times> u32 \<times> 'fil psar_state) option" where
  "read_next_block_wb1 K F st block_size =
     (case f_read F (fp st) block_size of (res, d, fp') \<Rightarrow> do {
        b \<leftarrow> mem_write (wb1 st) 0 d;
        let st1 = st\<lparr>fp := fp', wb1 := b\<rparr>;
        if res \<noteq> FR_OK then Some (PSAR_ERR_READ_DATA, 0, st1)
        else if length d \<noteq> block_size then Some (PSAR_ERR_READ_DATA, 0, st1)
        else if psar_version st1 \<noteq> 1 then do {
          (hres, b2, km) \<leftarrow> decrypt_header K (psar_version st1) (kmem st1) (wb1 st1);
          let st2 = st1\<lparr>wb1 := b2, kmem := km\<rparr>;
          if hres \<noteq> PSAR_RESULT_OK then Some (hres, 0, st2)
          else decrypt_block_in_wb1 K st2 0
        }
        else decrypt_block_in_wb1 K st1 0
      })"

section \<open>The contents list\<close>

abbreviation METADATA_SIZE :: nat where "METADATA_SIZE \<equiv> 0x110"
abbreviation FILE_HEADER_SIZE :: nat where "FILE_HEADER_SIZE \<equiv> 0x110"
abbreviation PSAR_ENTRY_SIZE :: nat where "PSAR_ENTRY_SIZE \<equiv> 0x114"

text \<open>\<^verbatim>\<open>memcpy(&list[i].header, wb1, sizeof header)\<close>, and the position after the block.\<close>

definition parse_entry :: "bytes \<Rightarrow> u32 \<Rightarrow> PsarEntry option" where
  "parse_entry b pos = do {
     h \<leftarrow> mem_read b 0 FILE_HEADER_SIZE;
     sz \<leftarrow> read_u32 h 0x104;
     esz \<leftarrow> read_u32 h 0x108;
     isf \<leftarrow> mem_read h 0x10E 1;
     sgn \<leftarrow> mem_read h 0x10F 1;
     Some \<lparr>ent_filename = drop 4 h, ent_size = sz, ent_expanded_size = esz,
           ent_is_file = hd isf, ent_signcheck = hd sgn, ent_file_offset = pos\<rparr>
   }"

text \<open>
  The loop that fills the list: \<open>n\<close> entries remain, \<open>acc\<close> holds those already stored,
  \<open>cap\<close> is how many fit in the allocated block (storing one more leaves it).
\<close>

fun populate_list ::
  "kirk_engine \<Rightarrow> 'fil fat_ops \<Rightarrow> 'fil psar_state \<Rightarrow> nat \<Rightarrow> nat \<Rightarrow> PsarEntry list \<Rightarrow>
   (PsarResult \<times> PsarEntry list \<times> 'fil psar_state) option" where
  "populate_list K F st cap 0 acc = Some (PSAR_RESULT_OK, acc, st)"
| "populate_list K F st cap (Suc n) acc = do {
     (res, len, st1) \<leftarrow> read_next_block_wb1 K F st (PSP_HEADER_SIZE + FILE_HEADER_SIZE);
     if res \<noteq> PSAR_RESULT_OK then Some (res, acc, st1)
     else if len \<noteq> of_nat FILE_HEADER_SIZE then Some (PSAR_ERR_PARSE_FILE_HEADER, acc, st1)
     else if length acc \<ge> cap then None
     else do {
       e \<leftarrow> parse_entry (wb1 st1) (f_tell F (fp st1));
       if unat (ent_size e) > length (wb1 st1) \<or> unat (ent_size e) > length (wb2 st1)
       then Some (PSAR_ERR_WORK_BUFFER_TOO_SMALL, acc, st1)
       else if unat (ent_expanded_size e) > length (wb1 st1) \<or>
               unat (ent_expanded_size e) > length (wb2 st1)
       then Some (PSAR_ERR_WORK_BUFFER_TOO_SMALL, acc, st1)
       else (case f_lseek F (fp st1) (f_tell F (fp st1) + ent_size e) of (fres, fp') \<Rightarrow>
         (let st2 = st1\<lparr>fp := fp'\<rparr> in
          if fres \<noteq> FR_OK then Some (PSAR_ERR_SEEK_DATA, acc, st2)
          else populate_list K F st2 cap n (acc @ [e])))
     }
   }"

text \<open>
  The second half of \<^verbatim>\<open>read_psar_contents_list\<close>: skip the block before the list, allocate
  (the size is a 32-bit product) and fill the list.
\<close>

definition psar_list_bytes :: "u32 \<Rightarrow> u32" where
  "psar_list_bytes num_contents = of_nat PSAR_ENTRY_SIZE * num_contents"

definition read_entry_list ::
  "psar_env \<Rightarrow> 'fil fat_ops \<Rightarrow> 'fil psar_state \<Rightarrow> bytes \<Rightarrow> u32 \<Rightarrow> u32 \<Rightarrow>
   (PsarResult \<times> 'fil psar_state) option" where
  "read_entry_list E F st md num_entries unk_block_size =
     (case f_lseek F (fp st) (f_tell F (fp st) + unk_block_size) of (fres, fp1) \<Rightarrow>
        (let st1 = st\<lparr>fp := fp1\<rparr> in
         if fres \<noteq> FR_OK then Some (PSAR_ERR_SEEK_DATA, st1)
         else (let num_contents = num_entries - 1;
                   bytes_req = psar_list_bytes num_contents in
           if \<not> malloc_ok E bytes_req then Some (PSAR_ERR_OOM, st1)
           else do {
             (res, lst, st2) \<leftarrow> populate_list (kirk E) F st1 (unat bytes_req div PSAR_ENTRY_SIZE)
                                 (unat num_contents) [];
             if res \<noteq> PSAR_RESULT_OK then Some (res, st2)
             else Some (PSAR_RESULT_OK, st2\<lparr>psar_list := lst, metadata := md\<rparr>)
           })))"

text \<open>
  \<open>hdr0\<close> is the uninitialised \<^verbatim>\<open>psar_header\<close> on the stack.
\<close>

definition read_psar_contents_list ::
  "psar_env \<Rightarrow> 'fil fat_ops \<Rightarrow> bytes \<Rightarrow> 'fil psar_state \<Rightarrow>
   (PsarResult \<times> 'fil psar_state) option" where
  "read_psar_contents_list E F hdr0 st = do {
     (res, fp1, hdr) \<leftarrow> get_header F (fp st) hdr0;
     let st1 = st\<lparr>fp := fp1\<rparr>;
     if res \<noteq> PSAR_RESULT_OK then Some (res, st1)
     else do {
       ver \<leftarrow> read_u32 hdr 4;
       let st2 = st1\<lparr>psar_version := ver\<rparr>;
       (res2, len, st3) \<leftarrow> read_next_block_wb1 (kirk E) F st2 (PSP_HEADER_SIZE + METADATA_SIZE);
       if res2 \<noteq> PSAR_RESULT_OK then Some (res2, st3)
       else if len \<noteq> of_nat METADATA_SIZE then Some (PSAR_ERR_PARSE_FILE_HEADER, st3)
       else do {
         md \<leftarrow> mem_read (wb1 st3) 0 METADATA_SIZE;
         num_entries \<leftarrow> read_u32 md 8;
         unk_block_size \<leftarrow> read_u32 md 12;
         read_entry_list E F st3 md num_entries unk_block_size
       }
     }
   }"

section \<open>Files of the archive\<close>

definition is_entry_a_file :: "PsarEntry \<Rightarrow> bool" where
  "is_entry_a_file e \<longleftrightarrow> ent_is_file e = 1"

fun lookup_entry_by_name :: "PsarEntry list \<Rightarrow> bytes \<Rightarrow> nat \<Rightarrow> nat option option" where
  "lookup_entry_by_name [] nm i = Some None"
| "lookup_entry_by_name (e # es) nm i = do {
     r \<leftarrow> strcmp (ent_filename e) nm;
     if r = 0 then Some (Some i) else lookup_entry_by_name es nm (Suc i)
   }"

text \<open>
  The result, \<^verbatim>\<open>*out_len\<close> and the state; \<^verbatim>\<open>*out_data\<close> is always work buffer 2.
\<close>

definition read_file_by_entry ::
  "psar_env \<Rightarrow> 'fil fat_ops \<Rightarrow> 'fil psar_state \<Rightarrow> PsarEntry \<Rightarrow>
   (PsarResult \<times> u32 \<times> 'fil psar_state) option" where
  "read_file_by_entry E F st e =
     (if \<not> is_entry_a_file e then Some (PSAR_ERR_ENTRY_NOT_FILE, 0, st)
      else (case f_lseek F (fp st) (ent_file_offset e) of (fres, fp1) \<Rightarrow>
        (let st1 = st\<lparr>fp := fp1\<rparr> in
         if fres \<noteq> FR_OK then Some (PSAR_ERR_SEEK_DATA, 0, st1)
         else do {
           (res, len, st2) \<leftarrow> read_next_block_wb1 (kirk E) F st1 (unat (ent_size e));
           if res \<noteq> PSAR_RESULT_OK then Some (res, 0, st2)
           else do {
             src \<leftarrow> mem_read (wb1 st2) 0 (unat len);
             let (ok, out) = tinfl E (unat (ent_expanded_size e)) src;
             b \<leftarrow> mem_write (wb2 st2) 0 out;
             let st3 = st2\<lparr>wb2 := b\<rparr>;
             if \<not> ok then Some (PSAR_ERR_DECOMPRESSION, 0, st3)
             else Some (PSAR_RESULT_OK, ent_expanded_size e, st3)
           }
         })))"

definition read_file_by_name ::
  "psar_env \<Rightarrow> 'fil fat_ops \<Rightarrow> 'fil psar_state \<Rightarrow> bytes \<Rightarrow>
   (PsarResult \<times> u32 \<times> 'fil psar_state) option" where
  "read_file_by_name E F st nm = do {
     r \<leftarrow> lookup_entry_by_name (psar_list st) nm 0;
     (case r of
        None \<Rightarrow> Some (PSAR_ERR_ENTRY_NOT_FOUND, 0, st)
      | Some i \<Rightarrow> read_file_by_entry E F st (psar_list st ! i))
   }"

text \<open>\<open>None\<close> is the panic for an unknown model.\<close>

fun get_table_name_for_model :: "PspModel \<Rightarrow> string option" where
  "get_table_name_for_model PSP_MODEL_01G = Some ''00001''"
| "get_table_name_for_model PSP_MODEL_02G = Some ''00002''"
| "get_table_name_for_model PSP_MODEL_03G = Some ''00003''"
| "get_table_name_for_model PSP_MODEL_04G = Some ''00004''"
| "get_table_name_for_model PSP_MODEL_05G = Some ''00005''"
| "get_table_name_for_model PSP_MODEL_07G = Some ''00007''"
| "get_table_name_for_model PSP_MODEL_09G = Some ''00009''"
| "get_table_name_for_model PSP_MODEL_11G = Some ''00011''"
| "get_table_name_for_model PSP_MODEL_OTHER = None"

section \<open>The path table\<close>

definition crlf :: bytes where
  "crlf = [13, 10]"

lemma strstr_crlf_nonempty: "strstr b (cstr crlf) = Some (Some k) \<Longrightarrow> b \<noteq> []"
  by (auto simp: strstr_def crlf_def)

function count_table_entries :: "bytes \<Rightarrow> nat option" where
  "count_table_entries table =
     (case strstr table (cstr crlf) of
        None \<Rightarrow> None
      | Some None \<Rightarrow> Some 0
      | Some (Some k) \<Rightarrow> map_option Suc (count_table_entries (drop (k + 2) table)))"
  by pat_completeness auto
termination
  by (relation "measure length") (auto dest!: strstr_crlf_nonempty)

declare count_table_entries.simps [simp del]

text \<open>
  The parsing loop of \<^verbatim>\<open>build_table_entry_list\<close>: \<open>tok\<close> is the current token, \<open>saved\<close>
  the static pointer of \<^verbatim>\<open>strtok\<close>, \<open>n\<close> the entries still expected.
\<close>

fun build_entries ::
  "PsarEntry list \<Rightarrow> bytes \<Rightarrow> nat option \<Rightarrow> nat option \<Rightarrow> nat \<Rightarrow> TableEntry list \<Rightarrow>
   (PsarResult \<times> bytes \<times> TableEntry list) option" where
  "build_entries es table tok saved 0 acc = Some (PSAR_RESULT_OK, table, acc)"
| "build_entries es table tok saved (Suc n) acc =
     (case tok of
        None \<Rightarrow> Some (PSAR_ERR_PARSE_TABLE, table, acc)
      | Some t \<Rightarrow> do {
          sep \<leftarrow> strchr (drop t table) 44;
          (case sep of
             None \<Rightarrow> Some (PSAR_ERR_PARSE_TABLE, table, acc)
           | Some j \<Rightarrow> (let table1 = table[t + j := 0] in do {
               r \<leftarrow> lookup_entry_by_name es (drop t table1) 0;
               (case r of
                  None \<Rightarrow> Some (PSAR_ERR_PARSE_TABLE, table1, acc)
                | Some i \<Rightarrow> do {
                    (tok', table2, saved') \<leftarrow> strtok table1 saved None (cstr crlf);
                    build_entries es table2 tok' saved' n
                      (acc @ [\<lparr>te_name = t, te_path = t + j + 1, te_entry = i\<rparr>])
                  })
             }))
        })"

text \<open>
  The second allocation holds \<open>num_entries\<close> table entries of 12 bytes; the loop stores
  exactly that many, and the product cannot wrap because the text itself is in memory
  (\<open>2 * num_entries\<close> bytes of it are line ends).
\<close>

definition build_table_entry_list ::
  "psar_env \<Rightarrow> 'fil psar_state \<Rightarrow> bytes \<Rightarrow> (PsarResult \<times> 'fil psar_state) option" where
  "build_table_entry_list E st temp_table = do {
     n \<leftarrow> strlen temp_table;
     if \<not> malloc_ok E (of_nat (n + 1)) then Some (PSAR_ERR_OOM, st)
     else do {
       table \<leftarrow> strcpy (replicate (n + 1) 0) temp_table;
       num_entries \<leftarrow> count_table_entries table;
       if \<not> malloc_ok E (of_nat (num_entries * 12)) then Some (PSAR_ERR_OOM, st)
       else do {
         (tok, table1, saved) \<leftarrow> strtok table None (Some 0) (cstr crlf);
         (res, table2, lst) \<leftarrow> build_entries (psar_list st) table1 tok saved num_entries [];
         if res \<noteq> PSAR_RESULT_OK then Some (res, st)
         else Some (PSAR_RESULT_OK, st\<lparr>table_text := table2, table_list := lst\<rparr>)
       }
     }
   }"

section \<open>The IPL\<close>

definition ipl_prefix :: bytes where
  "ipl_prefix = lit ''ipl:''"

text \<open>\<^verbatim>\<open>memcmp(path, "ipl:", 4) == 0\<close> for a path inside the table text.\<close>

definition is_ipl_path :: "bytes \<Rightarrow> bool option" where
  "is_ipl_path p = map_option (\<lambda>r. r = 0) (memcmp p (cstr ipl_prefix) 4)"

definition decrypt_ipl ::
  "kirk_engine \<Rightarrow> 'fil psar_state \<Rightarrow> (PsarResult \<times> u32 \<times> 'fil psar_state) option" where
  "decrypt_ipl K st = do {
     (res, n, b, km) \<leftarrow> prx_decrypt K (kmem st) (wb2 st);
     let st' = st\<lparr>wb2 := b, kmem := km\<rparr>;
     (case res of
        PRX_DECRYPT_RESULT_OK \<Rightarrow> Some (PSAR_RESULT_OK, n, st')
      | PRX_DECRYPT_ERR_KIRK1 \<Rightarrow> Some (PSAR_ERR_DECRYPT_IPL, n, st')
      | PRX_DECRYPT_ERR_KIRK7 \<Rightarrow> Some (PSAR_ERR_DECRYPT_IPL, n, st')
      | PRX_DECRYPT_ERR_UNSUPPORTED \<Rightarrow> Some (PSAR_ERR_DECRYPT_IPL, n, st'))
   }"

fun self_test_loop ::
  "psar_env \<Rightarrow> 'fil fat_ops \<Rightarrow> 'fil psar_state \<Rightarrow> TableEntry list \<Rightarrow>
   (PsarResult \<times> 'fil psar_state) option" where
  "self_test_loop E F st [] = Some (PSAR_ERR_IPL_NOT_FOUND, st)"
| "self_test_loop E F st (t # ts) =
     (if te_entry t \<ge> length (psar_list st) then None
      else (let e = psar_list st ! te_entry t in
        if \<not> is_entry_a_file e then self_test_loop E F st ts
        else do {
          ipl \<leftarrow> is_ipl_path (drop (te_path t) (table_text st));
          if \<not> ipl then self_test_loop E F st ts
          else do {
            (res, len, st1) \<leftarrow> read_file_by_entry E F st e;
            if res \<noteq> PSAR_RESULT_OK then Some (res, st1)
            else do { (dres, n, st2) \<leftarrow> decrypt_ipl (kirk E) st1; Some (dres, st2) }
          }
        }))"

definition self_test_ipl_decryption ::
  "psar_env \<Rightarrow> 'fil fat_ops \<Rightarrow> 'fil psar_state \<Rightarrow> (PsarResult \<times> 'fil psar_state) option" where
  "self_test_ipl_decryption E F st =
     (if psp_model E = PSP_MODEL_01G then Some (PSAR_RESULT_OK, st)
      else self_test_loop E F st (table_list st))"

section \<open>The public operations\<close>

text \<open>\<open>fp0\<close> stands for the zeroed file object.\<close>

definition psar_init :: "'fil \<Rightarrow> bytes \<Rightarrow> bytes \<Rightarrow> bytes \<Rightarrow> PsarResult \<times> 'fil psar_state" where
  "psar_init fp0 b1 b2 km =
     (PSAR_RESULT_OK,
      \<lparr>fp = fp0, psar_version = 0, table_version = 0, wb1 = b1, wb2 = b2, psar_list = [],
       table_text = [], table_list = [], metadata = replicate METADATA_SIZE 0, kmem = km\<rparr>)"

definition firmware_661 :: bytes where
  "firmware_661 = lit ''6.61''"

definition psar_open ::
  "psar_env \<Rightarrow> 'fil fat_ops \<Rightarrow> bytes \<Rightarrow> 'fil psar_state \<Rightarrow> bytes \<Rightarrow>
   (PsarResult \<times> 'fil psar_state) option" where
  "psar_open E F hdr0 st path =
     (case f_open F path of (ores, fp') \<Rightarrow>
        if ores \<noteq> FR_OK then Some (PSAR_ERR_OPEN, st)
        else do {
          (res, st1) \<leftarrow> read_psar_contents_list E F hdr0 (st\<lparr>fp := fp'\<rparr>);
          if res \<noteq> PSAR_RESULT_OK then Some (res, st1)
          else do {
            let ver = drop 16 (metadata st1);
            comma \<leftarrow> strrchr ver 44;
            (case comma of
               None \<Rightarrow> Some (PSAR_ERR_UNKNOWN_FIRMWARE, st1)
             | Some p \<Rightarrow> do {
                 c \<leftarrow> memcmp (drop (p + 1) ver) (cstr firmware_661) 4;
                 if c \<noteq> 0 then Some (PSAR_ERR_UNKNOWN_FIRMWARE, st1)
                 else do {
                   let st2 = st1\<lparr>table_version := 4\<rparr>;
                   table_name \<leftarrow> get_table_name_for_model (psp_model E);
                   (res3, table_length, st3) \<leftarrow> read_file_by_name E F st2 (cstr (lit table_name));
                   if res3 \<noteq> PSAR_RESULT_OK then Some (res3, st3)
                   else do {
                     (tbl_res, b, km) \<leftarrow> decrypt_table E (kmem st3) (wb2 st3) (unat table_length)
                                           (table_version st3);
                     let st4 = st3\<lparr>wb2 := b, kmem := km\<rparr>;
                     if tbl_res \<noteq> 0 then Some (PSAR_ERR_DECRYPT_TABLE, st4)
                     else do {
                       (res5, st5) \<leftarrow> build_table_entry_list E st4 (wb2 st4);
                       if res5 \<noteq> PSAR_RESULT_OK then Some (res5, st5)
                       else self_test_ipl_decryption E F st5
                     }
                   }
                 }
               })
          }
        })"

text \<open>
  The two iterations over the table. The callback's state \<open>'s\<close> is whatever its
  \<^verbatim>\<open>void *\<close> argument (or the device it drives) refers to; a directory callback sees
  the path, a file callback also the KIRK window and work buffer 2, both of which it
  may change.
\<close>

fun read_each_directory ::
  "('s \<Rightarrow> bytes \<Rightarrow> (int \<times> 's) option) \<Rightarrow> 'fil psar_state \<Rightarrow> 's \<Rightarrow> TableEntry list \<Rightarrow>
   (PsarResult \<times> 's) option" where
  "read_each_directory func st s [] = Some (PSAR_RESULT_OK, s)"
| "read_each_directory func st s (t # ts) =
     (if te_entry t \<ge> length (psar_list st) then None
      else if is_entry_a_file (psar_list st ! te_entry t) then read_each_directory func st s ts
      else do {
        (r, s') \<leftarrow> func s (drop (te_path t) (table_text st));
        if r \<noteq> 0 then Some (PSAR_ERR_HANDLER, s') else read_each_directory func st s' ts
      })"

definition psar_read_each_directory ::
  "('s \<Rightarrow> bytes \<Rightarrow> (int \<times> 's) option) \<Rightarrow> 'fil psar_state \<Rightarrow> 's \<Rightarrow> (PsarResult \<times> 's) option" where
  "psar_read_each_directory func st s = read_each_directory func st s (table_list st)"

type_synonym 's on_file_func =
  "'s \<Rightarrow> bytes \<Rightarrow> bytes \<Rightarrow> bytes \<Rightarrow> u32 \<Rightarrow> FileProperties \<Rightarrow> (int \<times> 's \<times> bytes \<times> bytes) option"

definition file_properties :: "bool \<Rightarrow> PsarEntry \<Rightarrow> FileProperties" where
  "file_properties ipl e =
     \<lparr>personalisation = (if ent_signcheck e = 2 then PSAR_FILE_REQ_PERSONALISED else PSAR_FILE_NORMAL),
      file_type = (if ipl then PSAR_FILE_TYPE_IPL else PSAR_FILE_TYPE_NORMAL)\<rparr>"

fun read_each_file ::
  "psar_env \<Rightarrow> 'fil fat_ops \<Rightarrow> 's on_file_func \<Rightarrow> 'fil psar_state \<Rightarrow> 's \<Rightarrow> TableEntry list \<Rightarrow>
   (PsarResult \<times> 'fil psar_state \<times> 's) option" where
  "read_each_file E F func st s [] = Some (PSAR_RESULT_OK, st, s)"
| "read_each_file E F func st s (t # ts) =
     (if te_entry t \<ge> length (psar_list st) then None
      else (let e = psar_list st ! te_entry t; p = drop (te_path t) (table_text st) in
        if \<not> is_entry_a_file e then read_each_file E F func st s ts
        else do {
          ipl \<leftarrow> is_ipl_path p;
          let properties = file_properties ipl e;
          (res, len, st1) \<leftarrow> read_file_by_entry E F st e;
          if res \<noteq> PSAR_RESULT_OK then Some (res, st1, s)
          else do {
            (dres, len', st2) \<leftarrow>
              (if ipl \<and> psp_model E \<noteq> PSP_MODEL_01G then decrypt_ipl (kirk E) st1
               else Some (PSAR_RESULT_OK, len, st1));
            if dres \<noteq> PSAR_RESULT_OK then Some (dres, st2, s)
            else do {
              (r, s', km, b) \<leftarrow> func s (kmem st2) p (wb2 st2) len' properties;
              let st3 = st2\<lparr>kmem := km, wb2 := b\<rparr>;
              if r \<noteq> 0 then Some (PSAR_ERR_HANDLER, st3, s')
              else read_each_file E F func st3 s' ts
            }
          }
        }))"

definition psar_read_each_file ::
  "psar_env \<Rightarrow> 'fil fat_ops \<Rightarrow> 's on_file_func \<Rightarrow> 'fil psar_state \<Rightarrow> 's \<Rightarrow>
   (PsarResult \<times> 'fil psar_state \<times> 's) option" where
  "psar_read_each_file E F func st s = read_each_file E F func st s (table_list st)"

end
