(* ===== verification/Psar_Safety.thy ===== *)
theory Psar_Safety
  imports Psar
begin

text \<open>
  Buffer safety of the PSAR reader. \<open>psar_wf\<close> is what \<^verbatim>\<open>psar_init\<close> establishes (work
  buffers that hold at least one header block, the KIRK window of its fixed size);
  every operation keeps it and touches only the file position, the work buffers and the
  window. A successful contents scan yields entries that fit both work buffers.
\<close>

definition psar_wf :: "'fil psar_state \<Rightarrow> bool" where
  "psar_wf st \<longleftrightarrow> PSP_HEADER_SIZE + FILE_HEADER_SIZE \<le> length (wb1 st) \<and>
     PSP_HEADER_SIZE \<le> length (wb2 st) \<and> length (kmem st) = KIRK_WINDOW"

text \<open>Only the position, the buffers' contents and the window differ.\<close>

definition psar_frame :: "'fil psar_state \<Rightarrow> 'fil psar_state \<Rightarrow> bool" where
  "psar_frame st st' \<longleftrightarrow>
     st' = st\<lparr>fp := fp st', wb1 := wb1 st', wb2 := wb2 st', kmem := kmem st'\<rparr> \<and>
     length (wb1 st') = length (wb1 st) \<and> length (wb2 st') = length (wb2 st) \<and>
     length (kmem st') = length (kmem st)"

lemma psar_frame_refl [simp]: "psar_frame st st"
  by (simp add: psar_frame_def)

lemma psar_frame_trans: "psar_frame a b \<Longrightarrow> psar_frame b c \<Longrightarrow> psar_frame a c"
  by (cases a; cases b; cases c) (auto simp: psar_frame_def)

lemma psar_frame_fp [simp]: "psar_frame st (st\<lparr>fp := f\<rparr>)"
  by (simp add: psar_frame_def)

lemma psar_frame_lengths:
  assumes "psar_frame st st'"
  shows "length (wb1 st') = length (wb1 st)" "length (wb2 st') = length (wb2 st)"
    "length (kmem st') = length (kmem st)" "psar_list st' = psar_list st"
    "table_list st' = table_list st" "table_text st' = table_text st"
    "metadata st' = metadata st" "psar_version st' = psar_version st"
    "table_version st' = table_version st"
  using assms by (cases st; cases st'; simp add: psar_frame_def)+

lemma psar_frame_wf: "psar_frame st st' \<Longrightarrow> psar_wf st \<Longrightarrow> psar_wf st'"
  by (simp add: psar_wf_def psar_frame_lengths)

section \<open>Blocks\<close>

lemma go_xor_Some:
  "PSP_HEADER_SIZE \<le> length h \<Longrightarrow> \<exists>h'. go_xor ver k h = Some h' \<and> length h' = length h"
  by (simp add: go_xor_def mem_read_def mem_write_def)

lemma decrypt_header_safe:
  assumes K: "kirk_ok K" and w: "length km = KIRK_WINDOW" and h: "PSP_HEADER_SIZE \<le> length header"
  shows "\<exists>res h' km'. decrypt_header K ver km header = Some (res, h', km') \<and>
     length h' = length header \<and> length km' = KIRK_WINDOW \<and>
     (res = PSAR_RESULT_OK \<or> res = PSAR_ERR_DECRYPT_HEADER)"
proof -
  obtain h1 where h1: "go_xor ver go_pre_key header = Some h1" "length h1 = length header"
    using go_xor_Some [OF h] by blast
  obtain enc where enc: "mem_read h1 0x20 (PSP_HEADER_SIZE - 0x20) = Some enc" "length enc = 0x130"
    using h h1 by (simp add: mem_read_def)
  show ?thesis
  proof (rule kirk7_decrypt_cases [OF K w, of enc "0x55"], goal_cases)
    case (1 rc km')
    then show ?case using h1 enc by (simp add: decrypt_header_def)
  next
    case (2 dec km')
    obtain h2 where h2: "mem_write h1 0x20 dec = Some h2" "length h2 = length header"
      by (rule mem_write_obtain [of "0x20" dec h1]) (use 2 enc h h1 in simp_all)
    obtain h3 where "go_xor ver go_post_key h2 = Some h3" "length h3 = length header"
      using go_xor_Some [of h2] h h2 by auto
    then show ?case using 2 h1 enc h2 by (simp add: decrypt_header_def)
  qed
qed

lemma decrypt_block_in_wb1_safe:
  assumes K: "kirk_ok K" and wf: "psar_wf st"
  shows "\<exists>res len st'. decrypt_block_in_wb1 K st n = Some (res, len, st') \<and> psar_frame st st' \<and>
     (res = PSAR_RESULT_OK \<longrightarrow> read_u32 (wb1 st) COMP_SIZE_OFF = Some len)"
proof -
  obtain res len b km where p: "prx_decrypt K (kmem st) (wb1 st) = Some (res, len, b, km)"
      "read_u32 (wb1 st) COMP_SIZE_OFF = Some len" "length b = length (wb1 st)" "length km = KIRK_WINDOW"
    using prx_decrypt_safe [OF K, of "kmem st" "wb1 st"] wf by (auto simp: psar_wf_def)
  then show ?thesis using wf
    by (cases res) (auto simp: decrypt_block_in_wb1_def psar_frame_def psar_wf_def Let_def)
qed

lemma read_next_block_wb1_safe:
  assumes K: "kirk_ok K" and F: "fat_ok F" and wf: "psar_wf st"
    and sz: "n \<le> length (wb1 st)"
  shows "\<exists>res len st'. read_next_block_wb1 K F st n = Some (res, len, st') \<and> psar_frame st st'"
proof -
  obtain fres d fp' where r: "f_read F (fp st) n = (fres, d, fp')" by (metis prod_cases3)
  have "length d \<le> n" using F r unfolding fat_ok_def by (metis fst_conv snd_conv)
  then obtain b where b: "mem_write (wb1 st) 0 d = Some b" "length b = length (wb1 st)"
    using sz by (auto intro: mem_write_obtain [of 0 d "wb1 st"])
  let ?st1 = "st\<lparr>fp := fp', wb1 := b\<rparr>"
  have f1: "psar_frame st ?st1" using b by (simp add: psar_frame_def)
  then have wf1: "psar_wf ?st1" using wf by (rule psar_frame_wf)
  obtain hres b2 km where h: "decrypt_header K (psar_version st) (kmem st) b = Some (hres, b2, km)"
      "length b2 = length b" "length km = KIRK_WINDOW"
    using decrypt_header_safe [OF K, of "kmem st" b "psar_version st"] wf b by (auto simp: psar_wf_def)
  let ?st2 = "?st1\<lparr>wb1 := b2, kmem := km\<rparr>"
  have f2: "psar_frame st ?st2" using b h wf by (simp add: psar_frame_def psar_wf_def)
  then have wf2: "psar_wf ?st2" using wf by (rule psar_frame_wf)
  show ?thesis
    using r b h f1 f2 decrypt_block_in_wb1_safe [OF K wf1, of 0]
      decrypt_block_in_wb1_safe [OF K wf2, of 0]
    by (auto simp: read_next_block_wb1_def Let_def dest: psar_frame_trans)
qed

section \<open>The contents list\<close>

definition entry_fits :: "'fil psar_state \<Rightarrow> PsarEntry \<Rightarrow> bool" where
  "entry_fits st e \<longleftrightarrow>
     unat (ent_size e) \<le> length (wb1 st) \<and> unat (ent_size e) \<le> length (wb2 st) \<and>
     unat (ent_expanded_size e) \<le> length (wb1 st) \<and> unat (ent_expanded_size e) \<le> length (wb2 st)"

lemma entry_fits_frame: "psar_frame st st' \<Longrightarrow> entry_fits st' e = entry_fits st e"
  by (simp add: entry_fits_def psar_frame_lengths)

lemma parse_entry_Some:
  assumes "FILE_HEADER_SIZE \<le> length b"
  shows "\<exists>e. parse_entry b pos = Some e \<and> ent_file_offset e = pos"
proof -
  let ?h = "take FILE_HEADER_SIZE b"
  have h: "mem_read b 0 FILE_HEADER_SIZE = Some ?h" and l: "length ?h = FILE_HEADER_SIZE"
    using assms by (simp_all add: mem_read_def)
  obtain sz esz where "read_u32 ?h 0x104 = Some sz" "read_u32 ?h 0x108 = Some esz"
    using read_u32_Some [of "0x104" ?h] read_u32_Some [of "0x108" ?h] l assms by auto
  then show ?thesis using h l assms by (simp add: parse_entry_def mem_read_def)
qed

lemma populate_step:
  assumes "kirk_ok K" "fat_ok F" "psar_wf st"
  obtains r len st1 e fres fp' where
    "read_next_block_wb1 K F st (PSP_HEADER_SIZE + FILE_HEADER_SIZE) = Some (r, len, st1)"
    "psar_frame st st1" "parse_entry (wb1 st1) (f_tell F (fp st1)) = Some e"
    "f_lseek F (fp st1) (f_tell F (fp st1) + ent_size e) = (fres, fp')"
    "psar_frame st (st1\<lparr>fp := fp'\<rparr>)" "psar_wf (st1\<lparr>fp := fp'\<rparr>)"
    "entry_fits (st1\<lparr>fp := fp'\<rparr>) = entry_fits st" "entry_fits st1 = entry_fits st"
proof -
  obtain r len st1 where
      r: "read_next_block_wb1 K F st (PSP_HEADER_SIZE + FILE_HEADER_SIZE) = Some (r, len, st1)"
      and f: "psar_frame st st1"
    using read_next_block_wb1_safe [OF assms, of "PSP_HEADER_SIZE + FILE_HEADER_SIZE"] assms(3)
    by (auto simp: psar_wf_def)
  obtain e where e: "parse_entry (wb1 st1) (f_tell F (fp st1)) = Some e"
    using parse_entry_Some [of "wb1 st1"] psar_frame_wf [OF f assms(3)] by (auto simp: psar_wf_def)
  obtain fres fp' where s: "f_lseek F (fp st1) (f_tell F (fp st1) + ent_size e) = (fres, fp')"
    by fastforce
  have f2: "psar_frame st (st1\<lparr>fp := fp'\<rparr>)" using f by (rule psar_frame_trans) simp
  show thesis
    by (rule that [OF r f e s f2 psar_frame_wf [OF f2 assms(3)]])
       (use entry_fits_frame [OF f] entry_fits_frame [OF f2] in auto)
qed

text \<open>Whatever the archive announces, a successful scan leaves only entries that fit.\<close>

lemma populate_list_fits:
  assumes KF: "kirk_ok K" "fat_ok F"
  shows "psar_wf st \<Longrightarrow> list_all (entry_fits st) acc \<Longrightarrow>
     populate_list K F st cap n acc = Some (res, lst, st') \<Longrightarrow>
     psar_frame st st' \<and> list_all (entry_fits st) lst \<and>
     (res = PSAR_RESULT_OK \<longrightarrow> length lst = length acc + n)"
proof (induction n arbitrary: st acc)
  case 0
  then show ?case by simp
next
  case (Suc n)
  show ?case
  proof (rule populate_step [OF KF Suc.prems(1)], goal_cases)
    case step: (1 r len st1 e fres fp')
    show ?case
    proof (cases "r = PSAR_RESULT_OK \<and> len = of_nat FILE_HEADER_SIZE \<and> entry_fits st1 e \<and> fres = FR_OK")
      case True
      then have p: "populate_list K F (st1\<lparr>fp := fp'\<rparr>) cap n (acc @ [e]) = Some (res, lst, st')"
        using Suc.prems(3) step(1-4) by (auto simp: entry_fits_def Let_def split: if_splits)
      have "list_all (entry_fits (st1\<lparr>fp := fp'\<rparr>)) (acc @ [e])"
        using Suc.prems(2) True step(7,8) by simp
      from Suc.IH [OF step(6) this p] show ?thesis
        using psar_frame_trans [OF step(5)] step(7) by auto
    next
      case False
      then show ?thesis using Suc.prems(2,3) step(1-5)
        by (auto simp: entry_fits_def [of st1] not_le Let_def split: if_splits)
    qed
  qed
qed

text \<open>The loop never stores outside the allocated block when the block is large enough.\<close>

lemma populate_list_returns:
  assumes KF: "kirk_ok K" "fat_ok F"
  shows "psar_wf st \<Longrightarrow> length acc + n \<le> cap \<Longrightarrow> \<exists>r. populate_list K F st cap n acc = Some r"
proof (induction n arbitrary: st acc)
  case 0
  then show ?case by simp
next
  case (Suc n)
  show ?case
  proof (rule populate_step [OF KF Suc.prems(1)], goal_cases)
    case (1 r len st1 e fres fp')
    moreover have "\<exists>r. populate_list K F (st1\<lparr>fp := fp'\<rparr>) cap n (acc @ [e]) = Some r"
      using Suc.IH [OF 1(6), of "acc @ [e]"] Suc.prems(2) by simp
    ultimately show ?case using Suc.prems(2) by (auto simp: Let_def)
  qed
qed

lemma read_entry_list_fits:
  assumes E: "psar_env_ok E" and F: "fat_ok F" and wf: "psar_wf st"
    and r: "read_entry_list E F st md num ubs = Some (PSAR_RESULT_OK, st')"
  obtains lst st2 where "st' = st2\<lparr>psar_list := lst, metadata := md\<rparr>" "psar_frame st st2"
    "list_all (entry_fits st) lst" "length lst = unat (num - 1)"
proof -
  have K: "kirk_ok (kirk E)" using E by (simp add: psar_env_ok_def)
  obtain fres fp1 where s: "f_lseek F (fp st) (f_tell F (fp st) + ubs) = (fres, fp1)" by fastforce
  let ?st1 = "st\<lparr>fp := fp1\<rparr>"
  have wf1: "psar_wf ?st1" using psar_frame_wf [OF psar_frame_fp wf] .
  from r s obtain lst st2 where
      pl: "populate_list (kirk E) F ?st1 (unat (psar_list_bytes (num - 1)) div PSAR_ENTRY_SIZE)
             (unat (num - 1)) [] = Some (PSAR_RESULT_OK, lst, st2)" and
      st': "st' = st2\<lparr>psar_list := lst, metadata := md\<rparr>"
    by (auto simp: read_entry_list_def bind_eq_Some_conv Let_def split: if_splits)
  note p = populate_list_fits [OF K F wf1 _ pl, simplified]
  have "entry_fits ?st1 = entry_fits st" by (rule ext) (simp add: entry_fits_def)
  with p have "list_all (entry_fits st) lst" by simp
  moreover have "psar_frame st st2"
    by (rule psar_frame_trans [OF psar_frame_fp [of st fp1]]) (use p in simp)
  ultimately show thesis using that st' p by simp
qed

lemma read_psar_contents_list_fits:
  assumes E: "psar_env_ok E" and F: "fat_ok F" and wf: "psar_wf st"
    and r: "read_psar_contents_list E F hdr0 st = Some (PSAR_RESULT_OK, st')"
  shows "psar_wf st' \<and> list_all (entry_fits st') (psar_list st') \<and>
     length (wb1 st') = length (wb1 st) \<and> length (wb2 st') = length (wb2 st) \<and>
     table_list st' = table_list st \<and> length (metadata st') = METADATA_SIZE \<and>
     (\<exists>num. read_u32 (metadata st') 8 = Some num \<and> length (psar_list st') = unat (num - 1))"
proof -
  have K: "kirk_ok (kirk E)" using E by (simp add: psar_env_ok_def)
  from r obtain fp1 ver len st3 md num ubs where
      rb: "read_next_block_wb1 (kirk E) F (st\<lparr>fp := fp1, psar_version := ver\<rparr>) (PSP_HEADER_SIZE + METADATA_SIZE)
            = Some (PSAR_RESULT_OK, len, st3)" and
      md: "mem_read (wb1 st3) 0 METADATA_SIZE = Some md" "read_u32 md 8 = Some num" and
      pl: "read_entry_list E F st3 md num ubs = Some (PSAR_RESULT_OK, st')"
    by (auto simp: read_psar_contents_list_def bind_eq_Some_conv Let_def split: if_splits)
  let ?st2 = "st\<lparr>fp := fp1, psar_version := ver\<rparr>"
  have wf2: "psar_wf ?st2" using wf by (simp add: psar_wf_def)
  have f3: "psar_frame ?st2 st3"
    using read_next_block_wb1_safe [OF K F wf2, of "PSP_HEADER_SIZE + METADATA_SIZE"] rb wf2
    by (auto simp: psar_wf_def)
  obtain lst st5 where p: "st' = st5\<lparr>psar_list := lst, metadata := md\<rparr>" "psar_frame st3 st5"
      "list_all (entry_fits st3) lst" "length lst = unat (num - 1)"
    by (rule read_entry_list_fits [OF E F psar_frame_wf [OF f3 wf2] pl])
  have f5: "psar_frame ?st2 st5" using psar_frame_trans [OF f3 p(2)] .
  have "entry_fits st3 = entry_fits st'"
    using psar_frame_lengths [OF p(2)] p(1) by (auto simp: entry_fits_def fun_eq_iff)
  then show ?thesis
    using p md psar_frame_lengths [OF f5] psar_frame_wf [OF f5 wf2] mem_read_length [OF md(1)]
    by (simp add: psar_wf_def)
qed

section \<open>Reading one file\<close>

text \<open>
  The only way \<^verbatim>\<open>read_file_by_entry\<close> leaves its buffers: the decrypted block header
  announces a compressed size beyond work buffer 1, which the code passes to the
  decompressor unchecked.
\<close>

lemma read_file_by_entry_safe:
  assumes E: "psar_env_ok E" and F: "fat_ok F" and wf: "psar_wf st" and fits: "entry_fits st e"
  shows "(\<exists>res len st'. read_file_by_entry E F st e = Some (res, len, st') \<and> psar_frame st st' \<and>
            (res = PSAR_RESULT_OK \<longrightarrow> len = ent_expanded_size e)) \<or>
         (\<exists>len st2 fp1. read_next_block_wb1 (kirk E) F (st\<lparr>fp := fp1\<rparr>) (unat (ent_size e))
              = Some (PSAR_RESULT_OK, len, st2) \<and> length (wb1 st) < unat len \<and>
            read_file_by_entry E F st e = None)"
proof -
  have K: "kirk_ok (kirk E)" using E by (simp add: psar_env_ok_def)
  obtain fres fp1 where s: "f_lseek F (fp st) (ent_file_offset e) = (fres, fp1)" by fastforce
  let ?st1 = "st\<lparr>fp := fp1\<rparr>"
  have wf1: "psar_wf ?st1" using wf by (simp add: psar_wf_def)
  obtain res len st2 where
      r: "read_next_block_wb1 (kirk E) F ?st1 (unat (ent_size e)) = Some (res, len, st2)" and
      f: "psar_frame ?st1 st2"
    using read_next_block_wb1_safe [OF K F wf1, of "unat (ent_size e)"] fits
    by (auto simp: entry_fits_def)
  have f2: "psar_frame st st2" using psar_frame_trans [OF psar_frame_fp f] .
  note l2 = psar_frame_lengths [OF f2]
  show ?thesis
  proof (cases "is_entry_a_file e \<and> fres = FR_OK \<and> res = PSAR_RESULT_OK")
    case False
    then show ?thesis using s r f2 by (auto simp: read_file_by_entry_def Let_def)
  next
    case True
    show ?thesis
    proof (cases "unat len \<le> length (wb1 st)")
      case False
      then have "read_file_by_entry E F st e = None" using True s r l2(1)
        by (simp add: read_file_by_entry_def mem_read_def)
      moreover have "length (wb1 st) < unat len" using False by simp
      ultimately show ?thesis using True r by blast
    next
      case l: True
      let ?out = "tinfl E (unat (ent_expanded_size e)) (take (unat len) (wb1 st2))"
      have "length (snd ?out) \<le> unat (ent_expanded_size e)" using E by (simp add: psar_env_ok_def)
      then obtain b where b: "mem_write (wb2 st2) 0 (snd ?out) = Some b" "length b = length (wb2 st2)"
        using fits l2 by (auto simp: entry_fits_def intro: mem_write_obtain [of 0 "snd ?out" "wb2 st2"])
      have "psar_frame st (st2\<lparr>wb2 := b\<rparr>)"
        by (rule psar_frame_trans [OF f2]) (simp add: psar_frame_def b)
      then show ?thesis using True l s r l2 b
        by (auto simp: read_file_by_entry_def Let_def mem_read_def split: prod.split)
    qed
  qed
qed

lemma read_file_by_entry_frame:
  assumes "psar_env_ok E" "fat_ok F" "psar_wf st" "entry_fits st e"
    and "read_file_by_entry E F st e = Some (res, len, st')"
  shows "psar_frame st st' \<and> (res = PSAR_RESULT_OK \<longrightarrow> len = ent_expanded_size e)"
  using read_file_by_entry_safe [OF assms(1-4)] assms(5) by auto

lemma decrypt_ipl_safe:
  assumes K: "kirk_ok K" and wf: "psar_wf st"
  shows "\<exists>res n st'. decrypt_ipl K st = Some (res, n, st') \<and> psar_frame st st'"
proof -
  obtain res n b km where p: "prx_decrypt K (kmem st) (wb2 st) = Some (res, n, b, km)"
      "length b = length (wb2 st)" "length km = KIRK_WINDOW"
    using prx_decrypt_safe [OF K, of "kmem st" "wb2 st"] wf by (auto simp: psar_wf_def)
  then show ?thesis using wf
    by (cases res) (auto simp: decrypt_ipl_def psar_frame_def psar_wf_def Let_def)
qed

end
