(* ===== verification/Psar_Table.thy ===== *)
theory Psar_Table
  imports Psar_Safety
begin

text \<open>
  The path table of the archive: what \<^verbatim>\<open>build_table_entry_list\<close> parses and what the two
  iterations over it do. A table text is a sequence of lines \<open>name,path\<close> ended by CR LF;
  parsing such a text gives back exactly the lines it was made from.
\<close>

section \<open>Entries by name\<close>

definition terminated :: "PsarEntry \<Rightarrow> bool" where
  "terminated e \<longleftrightarrow> 0 \<in> set (ent_filename e)"

definition ent_name :: "PsarEntry \<Rightarrow> bytes" where
  "ent_name e = takeWhile (\<lambda>c. c \<noteq> 0) (ent_filename e)"

lemma terminated_split: "terminated e \<Longrightarrow> \<exists>r. ent_filename e = ent_name e @ 0 # r \<and> nonul (ent_name e)"
proof -
  assume "terminated e"
  then obtain s r where s: "ent_filename e = s @ 0 # r" "nonul s"
    unfolding terminated_def using cstr_split by blast
  moreover have "takeWhile (\<lambda>c. c \<noteq> 0) (s @ 0 # r) = s" using s(2) by (induction s) auto
  ultimately show ?thesis by (simp add: ent_name_def)
qed

fun name_index :: "PsarEntry list \<Rightarrow> bytes \<Rightarrow> nat option" where
  "name_index [] nm = None"
| "name_index (e # es) nm = (if ent_name e = nm then Some 0 else map_option Suc (name_index es nm))"

lemma name_index_Some:
  "name_index es nm = Some k \<Longrightarrow>
     k < length es \<and> ent_name (es ! k) = nm \<and> (\<forall>j < k. ent_name (es ! j) \<noteq> nm)"
proof (induction es arbitrary: k)
  case Nil
  then show ?case by simp
next
  case (Cons e es)
  then show ?case by (cases k) (auto simp: nth_Cons less_Suc_eq_0_disj split: if_splits nat.splits)
qed

lemma name_index_None: "name_index es nm = None \<longleftrightarrow> (\<forall>e \<in> set es. ent_name e \<noteq> nm)"
  by (induction es) auto

lemma lookup_entry_by_name_index:
  assumes "nonul nm"
  shows "list_all terminated es \<Longrightarrow>
     lookup_entry_by_name es (nm @ 0 # r) i = Some (map_option ((+) i) (name_index es nm))"
proof (induction es arbitrary: i)
  case Nil
  then show ?case by simp
next
  case (Cons e es)
  obtain q where q: "ent_filename e = ent_name e @ 0 # q" "nonul (ent_name e)"
    using Cons.prems terminated_split by auto
  obtain c where c: "strcmp (ent_filename e) (nm @ 0 # r) = Some c"
    using strcmp_returns [OF q(2) assms, of q r] q(1) by auto
  have "c = 0 \<longleftrightarrow> ent_name e = nm"
    using strcmp_eq_iff [OF q(2) assms, of q r] c q(1) by auto
  with Cons c show ?case
    by (cases "name_index es nm") auto
qed

section \<open>Table text\<close>

fun table_line :: "bytes \<times> bytes \<Rightarrow> bytes" where
  "table_line (n, p) = n @ 44 # p"

fun good_line :: "bytes \<times> bytes \<Rightarrow> bool" where
  "good_line (n, p) \<longleftrightarrow> nonul n \<and> nonul p \<and> 44 \<notin> set n \<and>
     13 \<notin> set n \<and> 10 \<notin> set n \<and> 13 \<notin> set p \<and> 10 \<notin> set p"

definition table_txt :: "(bytes \<times> bytes) list \<Rightarrow> bytes" where
  "table_txt ls = concat (map (\<lambda>l. table_line l @ crlf) ls)"

fun parsed_line :: "bytes \<times> bytes \<Rightarrow> bytes" where
  "parsed_line (n, p) = n @ 0 # p @ [0, 10]"

definition parsed_txt :: "(bytes \<times> bytes) list \<Rightarrow> bytes" where
  "parsed_txt ls = concat (map parsed_line ls)"

lemma table_txt_simps [simp]:
  "table_txt [] = []" "table_txt (l # ls) = table_line l @ 13 # 10 # table_txt ls"
  by (simp_all add: table_txt_def crlf_def)

lemma parsed_txt_simps [simp]:
  "parsed_txt [] = []" "parsed_txt (l # ls) = parsed_line l @ parsed_txt ls"
  by (simp_all add: parsed_txt_def)

lemma good_line_props:
  assumes "good_line l"
  shows "nonul (table_line l)" "set (table_line l) \<inter> set crlf = {}" "table_line l \<noteq> []"
  using assms by (cases l; auto simp: crlf_def)+

lemma nonul_table_txt: "list_all good_line ls \<Longrightarrow> nonul (table_txt ls)"
  by (induction ls) (auto simp: good_line_props)

lemma nonul_crlf [simp]: "nonul crlf"
  by (simp add: crlf_def)

lemma first_crlf:
  assumes "set w \<inter> set crlf = {}" and pre: "prefix crlf (drop j (w @ r))"
  shows "j \<ge> length w"
proof (rule ccontr)
  assume "\<not> j \<ge> length w"
  then have j: "j < length w" by simp
  then have "drop j (w @ r) = w ! j # drop (Suc j) w @ r"
    by (simp add: Cons_nth_drop_Suc [symmetric])
  then have "w ! j = 13" using pre by (simp add: crlf_def)
  then show False using assms(1) nth_mem [OF j] by (auto simp: crlf_def)
qed

lemma strstr_first_line:
  assumes "good_line l" "list_all good_line ls"
  shows "strstr (table_txt (l # ls) @ 0 # q) (cstr crlf) = Some (Some (length (table_line l)))"
proof -
  let ?w = "table_line l" and ?s = "table_txt (l # ls)"
  have ns: "nonul ?s" using assms nonul_table_txt [of "l # ls"] by simp
  obtain res where res: "strstr (?s @ 0 # q) (cstr crlf) = Some res" and
      sp: "case res of None \<Rightarrow> \<forall>j. \<not> prefix crlf (drop j ?s)
        | Some k \<Rightarrow> prefix crlf (drop k ?s) \<and> (\<forall>j < k. \<not> prefix crlf (drop j ?s))"
    using strstr_cstr [OF ns nonul_crlf, of q "[]"] by (auto simp: crlf_def)
  have here: "prefix crlf (drop (length ?w) ?s)" by (simp add: crlf_def)
  show ?thesis
  proof (cases res)
    case None
    then have "\<not> prefix crlf (drop (length ?w) ?s)" using sp by (simp del: table_txt_simps)
    then show ?thesis using here by contradiction
  next
    case (Some k)
    then have k: "prefix crlf (drop k ?s)" "\<forall>j < k. \<not> prefix crlf (drop j ?s)"
      using sp by (simp_all del: table_txt_simps)
    have "length ?w \<le> k"
      by (rule first_crlf [OF good_line_props(2) [OF assms(1)], of _ "13 # 10 # table_txt ls"])
         (use k(1) in \<open>simp only: table_txt_simps\<close>)
    moreover have "\<not> length ?w < k" using k(2) here by blast
    ultimately have "k = length ?w" by simp
    then show ?thesis using res Some by simp
  qed
qed

lemma strstr_no_line: "strstr (0 # q) (cstr crlf) = Some None"
  by (simp add: strstr_def crlf_def)

lemma count_table_entries_txt:
  "list_all good_line ls \<Longrightarrow> count_table_entries (table_txt ls @ 0 # q) = Some (length ls)"
proof (induction ls)
  case Nil
  then show ?case by (subst count_table_entries.simps) (simp add: strstr_no_line)
next
  case (Cons l ls)
  then have "strstr (table_txt (l # ls) @ 0 # q) (cstr crlf) = Some (Some (length (table_line l)))"
    using strstr_first_line [of l ls q] by simp
  then show ?case using Cons by (subst count_table_entries.simps) simp
qed

section \<open>Parsing a table text\<close>

fun entries_at :: "PsarEntry list \<Rightarrow> nat \<Rightarrow> (bytes \<times> bytes) list \<Rightarrow> TableEntry list" where
  "entries_at es off [] = []"
| "entries_at es off ((n, p) # ls) =
     \<lparr>te_name = off, te_path = off + length n + 1, te_entry = the (name_index es n)\<rparr>
     # entries_at es (off + length (parsed_line (n, p))) ls"

text \<open>\<^verbatim>\<open>strtok\<close> at the start of a line, and at the end of the text.\<close>

lemma strtok_next_line:
  assumes "good_line l" "list_all good_line ls" "set pre \<subseteq> set crlf"
    and "off = (case s of Some o1 \<Rightarrow> o1 | None \<Rightarrow> the saved)" "s \<noteq> None \<or> saved \<noteq> None"
    and "off = length hdr"
  shows "strtok (hdr @ pre @ table_txt (l # ls) @ [0]) saved s (cstr crlf) =
     Some (Some (off + length pre), hdr @ pre @ table_line l @ 0 # 10 # table_txt ls @ [0],
           Some (off + length pre + length (table_line l) + 1))"
  using strtok_token [where ct = crlf and pre = pre and tok = "table_line l" and d = 13
      and rest = "10 # table_txt ls" and off = off and s = s and saved = saved and hdr = hdr
      and tr = "[]" and q = "[]"]
    good_line_props [OF assms(1)] nonul_table_txt [OF assms(2)] assms(3-6)
  by (simp add: crlf_def)

lemma build_entries_step:
  assumes "strchr (drop t table) 44 = Some (Some j)"
    and "lookup_entry_by_name es (drop t (table[t + j := 0])) 0 = Some (Some i)"
    and "strtok (table[t + j := 0]) saved None (cstr crlf) = Some (tok', table2, saved')"
  shows "build_entries es table (Some t) saved (Suc n) acc =
     build_entries es table2 tok' saved' n (acc @ [\<lparr>te_name = t, te_path = t + j + 1, te_entry = i\<rparr>])"
  using assms by simp

lemma build_entries_txt:
  assumes T: "list_all terminated es"
  shows "list_all good_line ((n, p) # ls) \<Longrightarrow> \<forall>l \<in> set ((n, p) # ls). name_index es (fst l) \<noteq> None \<Longrightarrow>
     build_entries es (hdr @ table_line (n, p) @ 0 # 10 # table_txt ls @ [0]) (Some (length hdr))
       (Some (length hdr + length (table_line (n, p)) + 1)) (Suc (length ls)) acc =
     Some (PSAR_RESULT_OK, hdr @ parsed_txt ((n, p) # ls) @ [0],
           acc @ entries_at es (length hdr) ((n, p) # ls))"
proof (induction ls arbitrary: n p hdr acc)
  case Nil
  let ?h = "hdr @ n @ 0 # p @ [0]"
  obtain i where i: "name_index es n = Some i" using Nil by auto
  have g: "nonul n" "44 \<notin> set n" "nonul p" using Nil by auto
  have sep: "strchr (n @ 44 # p @ 0 # 10 # [0]) 44 = Some (Some (length n))"
    using strchr_cstr [of "n @ 44 # p" 44 "10 # [0]"] g by (simp add: takeWhile_append)
  have lk: "lookup_entry_by_name es (n @ 0 # p @ 0 # 10 # [0]) 0 = Some (Some i)"
    using lookup_entry_by_name_index [OF g(1) T] i by simp
  have tk: "strtok (hdr @ n @ 0 # p @ [0, 10, 0]) (Some (Suc (length hdr + Suc (length n + length p)))) None (cstr crlf)
      = Some (None, hdr @ n @ 0 # p @ [0, 10, 0], None)"
    using strtok_done [where ct = crlf and pre = "[10]" and s = None and hdr = ?h and tr = "[]" and q = "[]"
        and off = "Suc (length hdr + Suc (length n + length p))"
        and saved = "Some (Suc (length hdr + Suc (length n + length p)))"]
    by (simp add: crlf_def)
  show ?case using sep lk tk i by (simp add: list_update_append)
next
  case (Cons l ls)
  obtain n2 p2 where l: "l = (n2, p2)" by fastforce
  let ?h = "hdr @ n @ 0 # p @ [0]"
  obtain i where i: "name_index es n = Some i" using Cons by auto
  have g: "nonul n" "44 \<notin> set n" "nonul p" using Cons by auto
  let ?rest = "10 # table_txt (l # ls) @ [0]"
  have sep: "strchr (n @ 44 # p @ 0 # ?rest) 44 = Some (Some (length n))"
    using strchr_cstr [of "n @ 44 # p" 44 ?rest] g by (simp add: takeWhile_append)
  have lk: "lookup_entry_by_name es (n @ 0 # p @ 0 # ?rest) 0 = Some (Some i)"
    using lookup_entry_by_name_index [OF g(1) T] i by simp
  have tk: "strtok (?h @ ?rest) (Some (length ?h)) None (cstr crlf) =
      Some (Some (length (?h @ [10])), (?h @ [10]) @ table_line l @ 0 # 10 # table_txt ls @ [0],
            Some (length (?h @ [10]) + length (table_line l) + 1))"
    using strtok_next_line [where l = l and ls = ls and pre = "[10]" and off = "length ?h"
        and s = None and saved = "Some (length ?h)" and hdr = ?h] Cons.prems
    by (simp add: crlf_def)
  have IH: "build_entries es ((?h @ [10]) @ table_line (n2, p2) @ 0 # 10 # table_txt ls @ [0])
       (Some (length (?h @ [10]))) (Some (length (?h @ [10]) + length (table_line (n2, p2)) + 1))
       (Suc (length ls)) acc' =
     Some (PSAR_RESULT_OK, (?h @ [10]) @ parsed_txt ((n2, p2) # ls) @ [0],
           acc' @ entries_at es (length (?h @ [10])) ((n2, p2) # ls))" for acc'
    using Cons.IH [of n2 p2 "?h @ [10]" acc'] Cons.prems l by simp
  let ?tab = "hdr @ table_line (n, p) @ 0 # ?rest"
  have upd: "?tab[length hdr + length n := 0] = ?h @ ?rest" by (simp add: list_update_append)
  have "build_entries es ?tab (Some (length hdr)) (Some (length ?h)) (Suc (Suc (length ls))) acc =
      build_entries es ((?h @ [10]) @ table_line l @ 0 # 10 # table_txt ls @ [0]) (Some (length (?h @ [10])))
        (Some (length (?h @ [10]) + length (table_line l) + 1)) (Suc (length ls))
        (acc @ [\<lparr>te_name = length hdr, te_path = length hdr + length n + 1, te_entry = i\<rparr>])"
    by (rule build_entries_step) (use sep lk tk upd in simp_all)
  with IH l i show ?case by (simp del: build_entries.simps)
qed

section \<open>The whole table\<close>

text \<open>
  A work buffer that holds a well-formed table, with names that all occur in the entry
  list, is parsed completely and exactly.
\<close>

lemma build_table_entry_list_txt:
  assumes T: "list_all terminated (psar_list st)" and g: "list_all good_line ls"
    and nm: "\<forall>l \<in> set ls. name_index (psar_list st) (fst l) \<noteq> None"
    and ne: "ls \<noteq> []" and m: "\<And>n. malloc_ok E n"
  shows "build_table_entry_list E st (table_txt ls @ 0 # r) =
     Some (PSAR_RESULT_OK,
       st\<lparr>table_text := parsed_txt ls @ [0], table_list := entries_at (psar_list st) 0 ls\<rparr>)"
proof -
  obtain n p ls' where ls: "ls = (n, p) # ls'" using ne by (cases ls) auto
  have ns: "nonul (table_txt ls)" using g by (rule nonul_table_txt)
  have cp: "strcpy (replicate (length (table_txt ls) + 1) 0) (table_txt ls @ 0 # r) = Some (table_txt ls @ [0])"
    using strcpy_cstr [OF ns, of "replicate (length (table_txt ls) + 1) 0" r] by simp
  have ct: "count_table_entries (table_txt ls @ [0]) = Some (length ls)"
    using count_table_entries_txt [OF g] by simp
  have tk: "strtok (table_txt ls @ [0]) None (Some 0) (cstr crlf) =
      Some (Some 0, table_line (n, p) @ 0 # 10 # table_txt ls' @ [0], Some (length (table_line (n, p)) + 1))"
    using strtok_next_line [where l = "(n, p)" and ls = ls' and pre = "[]" and off = 0 and s = "Some 0"
        and saved = None and hdr = "[]"] g ls by (simp del: table_line.simps)
  have be: "build_entries (psar_list st) (table_line (n, p) @ 0 # 10 # table_txt ls' @ [0]) (Some 0)
      (Some (length (table_line (n, p)) + 1)) (length ls) [] =
      Some (PSAR_RESULT_OK, parsed_txt ls @ [0], entries_at (psar_list st) 0 ls)"
    using build_entries_txt [OF T, of n p ls' "[]" "[]"] g nm ls
    by (simp del: build_entries.simps table_line.simps)
  show ?thesis
    using ns cp ct tk be m by (simp add: build_table_entry_list_def del: build_entries.simps)
qed

lemma entries_at_length [simp]: "length (entries_at es off ls) = length ls"
  by (induction es off ls rule: entries_at.induct) auto

text \<open>Each parsed entry points at its own name and path in the parsed text.\<close>

lemma entries_at_nth:
  assumes "k < length ls" "off = length hdr"
  shows "te_entry (entries_at es off ls ! k) = the (name_index es (fst (ls ! k))) \<and>
     (\<exists>r. drop (te_name (entries_at es off ls ! k)) (hdr @ parsed_txt ls @ tl1) = fst (ls ! k) @ 0 # r) \<and>
     (\<exists>r. drop (te_path (entries_at es off ls ! k)) (hdr @ parsed_txt ls @ tl1) = snd (ls ! k) @ 0 # r)"
  using assms
proof (induction es off ls arbitrary: k hdr rule: entries_at.induct)
  case (1 es off)
  then show ?case by simp
next
  case (2 es off n p ls)
  show ?case
  proof (cases k)
    case 0
    then show ?thesis using 2(3) by simp
  next
    case (Suc k')
    then show ?thesis using 2(1) [of k' "hdr @ parsed_line (n, p)"] 2(2,3) by simp
  qed
qed

end
