(* ===== verification/Psar_Open.thy ===== *)
theory Psar_Open
  imports Psar_Table
begin

text \<open>
  What a successful \<^verbatim>\<open>psar_open\<close> guarantees to the states that flash the device, and
  what the iterations over the table do with it.
\<close>

definition table_valid :: "'fil psar_state \<Rightarrow> TableEntry list \<Rightarrow> bool" where
  "table_valid st ts \<longleftrightarrow> list_all (\<lambda>t. te_entry t < length (psar_list st)) ts"

definition is_661 :: "bytes \<Rightarrow> bool" where
  "is_661 md \<longleftrightarrow> (case strrchr (drop 16 md) 44 of
     Some (Some p) \<Rightarrow> memcmp (drop (p + 1) (drop 16 md)) (cstr firmware_661) 4 = Some 0
   | _ \<Rightarrow> False)"

definition psar_ready :: "'fil psar_state \<Rightarrow> bool" where
  "psar_ready st \<longleftrightarrow> psar_wf st \<and> list_all (entry_fits st) (psar_list st) \<and>
     table_valid st (table_list st) \<and> is_661 (metadata st)"

lemma psar_ready_frame: "psar_frame st st' \<Longrightarrow> psar_ready st \<Longrightarrow> psar_ready st'"
  using psar_frame_lengths [of st st'] psar_frame_wf [of st st']
  by (auto simp: psar_ready_def table_valid_def list_all_iff entry_fits_frame)

section \<open>Every table entry refers to an archive entry\<close>

lemma lookup_entry_by_name_bound:
  "lookup_entry_by_name es nm i = Some (Some k) \<Longrightarrow> i \<le> k \<and> k < i + length es"
proof (induction es arbitrary: i)
  case Nil
  then show ?case by simp
next
  case (Cons e es)
  then show ?case by (fastforce simp: bind_eq_Some_conv split: if_splits)
qed

lemma build_entries_valid:
  "build_entries es table tok saved n acc = Some (PSAR_RESULT_OK, table', lst) \<Longrightarrow>
   list_all (\<lambda>t. te_entry t < length es) acc \<Longrightarrow>
   list_all (\<lambda>t. te_entry t < length es) lst \<and> length lst = length acc + n"
proof (induction n arbitrary: table tok saved acc)
  case 0
  then show ?case by simp
next
  case (Suc n)
  then obtain t j i tok' table2 saved' where
      lk: "lookup_entry_by_name es (drop t (table[t + j := 0])) 0 = Some (Some i)" and
      rec: "build_entries es table2 tok' saved' n
        (acc @ [\<lparr>te_name = t, te_path = t + j + 1, te_entry = i\<rparr>]) = Some (PSAR_RESULT_OK, table', lst)"
    by (auto simp: bind_eq_Some_conv Let_def split: option.splits)
  have "i < length es" using lookup_entry_by_name_bound [OF lk] by simp
  then show ?case using Suc.IH [OF rec] Suc.prems(2) by simp
qed

lemma build_table_entry_list_valid:
  assumes "build_table_entry_list E st tmp = Some (PSAR_RESULT_OK, st')"
  obtains tx lst where "st' = st\<lparr>table_text := tx, table_list := lst\<rparr>" "table_valid st lst"
proof -
  from assms obtain table1 tok saved n table2 lst where
      b: "build_entries (psar_list st) table1 tok saved n [] = Some (PSAR_RESULT_OK, table2, lst)" and
      st': "st' = st\<lparr>table_text := table2, table_list := lst\<rparr>"
    by (auto simp: build_table_entry_list_def bind_eq_Some_conv split: if_splits)
  then show thesis using that build_entries_valid [OF b] by (simp add: table_valid_def)
qed

section \<open>Steps of \<^verbatim>\<open>psar_open\<close>\<close>

lemma read_file_by_name_frame:
  assumes "psar_env_ok E" "fat_ok F" "psar_wf st" "list_all (entry_fits st) (psar_list st)"
    and "read_file_by_name E F st nm = Some (res, len, st')"
  shows "psar_frame st st' \<and> (res = PSAR_RESULT_OK \<longrightarrow> unat len \<le> length (wb2 st))"
proof -
  from assms(5) obtain r where r: "lookup_entry_by_name (psar_list st) nm 0 = Some r"
    by (auto simp: read_file_by_name_def bind_eq_Some_conv)
  show ?thesis
  proof (cases r)
    case None
    then show ?thesis using assms(5) r by (auto simp: read_file_by_name_def)
  next
    case (Some i)
    then have i: "i < length (psar_list st)" using lookup_entry_by_name_bound r by fastforce
    then have ft: "entry_fits st (psar_list st ! i)" using assms(4) by (simp add: list_all_length)
    have "read_file_by_entry E F st (psar_list st ! i) = Some (res, len, st')"
      using assms(5) r Some by (simp add: read_file_by_name_def)
    from read_file_by_entry_frame [OF assms(1-3) ft this] show ?thesis
      using ft by (auto simp: entry_fits_def)
  qed
qed

lemma decrypt_table_safe:
  assumes E: "psar_env_ok E" and w: "length km = KIRK_WINDOW" "PSP_HEADER_SIZE \<le> length b"
    and l: "len \<le> length b" and v: "unat ver < 6"
  shows "\<exists>rc b' km'. decrypt_table E km b len ver = Some (rc, b', km') \<and>
     length b' = length b \<and> length km' = KIRK_WINDOW"
proof -
  have v': "unat ver < length table_keys" using v by (simp add: table_keys_def)
  let ?d = "des_cbc_dec E (tk_key (table_keys ! unat ver)) (tk_iv (table_keys ! unat ver)) (take len b)"
  have "length ?d = len" using E l by (simp add: psar_env_ok_def)
  then obtain b1 where b1: "mem_write b 0 ?d = Some b1" "length b1 = length b"
    using l by (auto intro: mem_write_obtain [of 0 ?d b])
  obtain res n b2 km' where "prx_decrypt (kirk E) km b1 = Some (res, n, b2, km')"
      "length b2 = length b1" "length km' = KIRK_WINDOW"
    using prx_decrypt_safe [of "kirk E" km b1] E w b1 by (auto simp: psar_env_ok_def)
  then show ?thesis using v' l b1
    by (cases res) (auto simp: decrypt_table_def get_table_keys_def mem_read_def)
qed

text \<open>
  The self test ends with a decrypted IPL: some table entry under \<open>ipl:\<close> was read and
  decrypted, in a state that differs from the final one only in buffers and position.
\<close>

definition ipl_decrypts :: "psar_env \<Rightarrow> 'fil fat_ops \<Rightarrow> 'fil psar_state \<Rightarrow> bool" where
  "ipl_decrypts E F st' \<longleftrightarrow> (\<exists>t \<in> set (table_list st'). \<exists>st len st1 n.
     te_entry t < length (psar_list st') \<and> is_entry_a_file (psar_list st' ! te_entry t) \<and>
     is_ipl_path (drop (te_path t) (table_text st')) = Some True \<and>
     read_file_by_entry E F st (psar_list st' ! te_entry t) = Some (PSAR_RESULT_OK, len, st1) \<and>
     decrypt_ipl (kirk E) st1 = Some (PSAR_RESULT_OK, n, st'))"

lemma self_test_loop_ok:
  assumes E: "psar_env_ok E" "fat_ok F" and rdy: "psar_wf st" "list_all (entry_fits st) (psar_list st)"
  shows "self_test_loop E F st ts = Some (PSAR_RESULT_OK, st') \<Longrightarrow> table_valid st ts \<Longrightarrow>
     psar_frame st st' \<and> (\<exists>t \<in> set ts. \<exists>len st1 n.
       te_entry t < length (psar_list st) \<and> is_entry_a_file (psar_list st ! te_entry t) \<and>
       is_ipl_path (drop (te_path t) (table_text st)) = Some True \<and>
       read_file_by_entry E F st (psar_list st ! te_entry t) = Some (PSAR_RESULT_OK, len, st1) \<and>
       decrypt_ipl (kirk E) st1 = Some (PSAR_RESULT_OK, n, st'))"
proof (induction ts)
  case Nil
  then show ?case by simp
next
  case (Cons t ts)
  let ?e = "psar_list st ! te_entry t"
  have v: "te_entry t < length (psar_list st)" using Cons.prems(2) by (simp add: table_valid_def)
  show ?case
  proof (cases "is_entry_a_file ?e \<and> is_ipl_path (drop (te_path t) (table_text st)) = Some True")
    case False
    then have "self_test_loop E F st ts = Some (PSAR_RESULT_OK, st')"
      using Cons.prems(1) v by (auto simp: Let_def bind_eq_Some_conv split: if_splits)
    then show ?thesis using Cons.IH Cons.prems(2) by (auto simp: table_valid_def)
  next
    case True
    then obtain len st1 n where
        r: "read_file_by_entry E F st ?e = Some (PSAR_RESULT_OK, len, st1)" and
        d: "decrypt_ipl (kirk E) st1 = Some (PSAR_RESULT_OK, n, st')"
      using Cons.prems(1) v by (auto simp: Let_def bind_eq_Some_conv split: if_splits)
    have "entry_fits st ?e" using rdy(2) v by (simp add: list_all_length)
    then have f: "psar_frame st st1" using read_file_by_entry_frame [OF E rdy(1) _ r] by simp
    moreover have "psar_frame st1 st'"
      using decrypt_ipl_safe [of "kirk E" st1] psar_frame_wf [OF f rdy(1)] d E(1)
      by (auto simp: psar_env_ok_def)
    ultimately show ?thesis using True v r d psar_frame_trans by fastforce
  qed
qed

lemma psar_open_ready:
  assumes E: "psar_env_ok E" and F: "fat_ok F" and wf: "psar_wf st"
    and r: "psar_open E F hdr0 st path = Some (PSAR_RESULT_OK, st')"
  shows "psar_ready st' \<and> table_version st' = 4 \<and>
     (psp_model E \<noteq> PSP_MODEL_01G \<longrightarrow> ipl_decrypts E F st')"
proof -
  obtain ores fp' where o: "f_open F path = (ores, fp')" by fastforce
  from r o obtain st1 p tn len st3 b km st5 where
      cl: "read_psar_contents_list E F hdr0 (st\<lparr>fp := fp'\<rparr>) = Some (PSAR_RESULT_OK, st1)" and
      ver: "strrchr (drop 16 (metadata st1)) 44 = Some (Some p)"
        "memcmp (drop (p + 1) (drop 16 (metadata st1))) (cstr firmware_661) 4 = Some 0" and
      rf: "read_file_by_name E F (st1\<lparr>table_version := 4\<rparr>) (cstr (lit tn)) = Some (PSAR_RESULT_OK, len, st3)" and
      dt: "decrypt_table E (kmem st3) (wb2 st3) (unat len) (table_version st3) = Some (0, b, km)" and
      bt: "build_table_entry_list E (st3\<lparr>wb2 := b, kmem := km\<rparr>) b = Some (PSAR_RESULT_OK, st5)" and
      stt: "self_test_ipl_decryption E F st5 = Some (PSAR_RESULT_OK, st')"
    by (auto simp: psar_open_def bind_eq_Some_conv Let_def split: if_splits option.splits)
  have "psar_wf (st\<lparr>fp := fp'\<rparr>)" using wf by (simp add: psar_wf_def)
  note c = read_psar_contents_list_fits [OF E F this cl]
  let ?st2 = "st1\<lparr>table_version := 4\<rparr>"
  have wf2: "psar_wf ?st2" using c by (simp add: psar_wf_def)
  have fits2: "list_all (entry_fits ?st2) (psar_list ?st2)"
    using c by (auto simp: list_all_iff entry_fits_def)
  note f3 = read_file_by_name_frame [OF E F wf2 fits2 rf]
  note l3 = psar_frame_lengths [OF conjunct1 [OF f3]]
  have wf3: "psar_wf st3" using psar_frame_wf f3 wf2 by blast
  have "length b = length (wb2 st3) \<and> length km = KIRK_WINDOW"
    using decrypt_table_safe [OF E, of "kmem st3" "wb2 st3" "unat len" "table_version st3"] dt wf3 f3 l3
    by (auto simp: psar_wf_def)
  then have f4: "psar_frame ?st2 (st3\<lparr>wb2 := b, kmem := km\<rparr>)"
    using wf3 by (intro psar_frame_trans [OF conjunct1 [OF f3]]) (simp add: psar_frame_def psar_wf_def)
  obtain tx lst where st5: "st5 = st3\<lparr>wb2 := b, kmem := km, table_text := tx, table_list := lst\<rparr>"
      and tv: "table_valid (st3\<lparr>wb2 := b, kmem := km\<rparr>) lst"
    by (rule build_table_entry_list_valid [OF bt]) simp
  note l4 = psar_frame_lengths [OF f4]
  have wf5: "psar_wf st5" using psar_frame_wf [OF f4 wf2] st5 by (simp add: psar_wf_def)
  have fits5: "list_all (entry_fits st5) (psar_list st5)"
    using fits2 l4 st5 by (simp add: list_all_iff entry_fits_def)
  have rdy5: "psar_ready st5" "table_version st5 = 4" "table_valid st5 (table_list st5)"
    using wf5 fits5 tv ver l4 st5 by (simp_all add: psar_ready_def table_valid_def is_661_def)
  show ?thesis
  proof (cases "psp_model E = PSP_MODEL_01G")
    case True
    then show ?thesis using stt rdy5 by (simp add: self_test_ipl_decryption_def)
  next
    case False
    then have "self_test_loop E F st5 (table_list st5) = Some (PSAR_RESULT_OK, st')"
      using stt by (simp add: self_test_ipl_decryption_def)
    note t = self_test_loop_ok [OF E F wf5 fits5 this rdy5(3)]
    note l5 = psar_frame_lengths [OF conjunct1 [OF t]]
    have "ipl_decrypts E F st'" using t l5 unfolding ipl_decrypts_def by metis
    moreover have "psar_ready st'" using psar_ready_frame [OF conjunct1 [OF t] rdy5(1)] .
    ultimately show ?thesis using l5(9) rdy5(2) by simp
  qed
qed

section \<open>Iterating over the table\<close>

text \<open>The paths of the directory entries, in table order.\<close>

definition directory_paths :: "'fil psar_state \<Rightarrow> TableEntry list \<Rightarrow> bytes list" where
  "directory_paths st ts =
     map (\<lambda>t. drop (te_path t) (table_text st))
       (filter (\<lambda>t. \<not> is_entry_a_file (psar_list st ! te_entry t)) ts)"

lemma read_each_directory_fold:
  assumes f: "\<And>s p. p \<in> set (directory_paths st ts) \<Longrightarrow> func s p = Some (0, g p s)"
    and v: "table_valid st ts"
  shows "read_each_directory func st s ts = Some (PSAR_RESULT_OK, fold g (directory_paths st ts) s)"
  using assms
proof (induction ts arbitrary: s)
  case Nil
  then show ?case by (simp add: directory_paths_def)
next
  case (Cons t ts)
  have v: "te_entry t < length (psar_list st)" "table_valid st ts"
    using Cons.prems(2) by (simp_all add: table_valid_def)
  show ?case
  proof (cases "is_entry_a_file (psar_list st ! te_entry t)")
    case True
    then have "directory_paths st (t # ts) = directory_paths st ts" by (simp add: directory_paths_def)
    then show ?thesis using True v Cons.IH Cons.prems(1) by simp
  next
    case False
    then have d: "directory_paths st (t # ts) =
        drop (te_path t) (table_text st) # directory_paths st ts" by (simp add: directory_paths_def)
    then have "func s (drop (te_path t) (table_text st)) = Some (0, g (drop (te_path t) (table_text st)) s)"
      using Cons.prems(1) by simp
    moreover have "read_each_directory func st s' ts = Some (PSAR_RESULT_OK, fold g (directory_paths st ts) s')" for s'
      by (rule Cons.IH) (use Cons.prems(1) d v in auto)
    ultimately show ?thesis using False v d by simp
  qed
qed

text \<open>
  The file iteration keeps the handle ready: whatever the callback does within the two
  buffers it is given, the handle after the iteration still satisfies \<open>psar_ready\<close>.
\<close>

lemma psar_frame_buffers:
  "length km = length (kmem st) \<Longrightarrow> length b = length (wb2 st) \<Longrightarrow>
   psar_frame st (st\<lparr>kmem := km, wb2 := b\<rparr>)"
  by (simp add: psar_frame_def)

lemma read_each_file_frame:
  assumes E: "psar_env_ok E" "fat_ok F"
    and cb: "\<And>s km p b n pr r s' km' b'. func s km p b n pr = Some (r, s', km', b') \<Longrightarrow>
       length km' = length km \<and> length b' = length b"
  shows "psar_ready st \<Longrightarrow> table_valid st ts \<Longrightarrow>
     read_each_file E F func st s ts = Some (res, st', s') \<Longrightarrow> psar_frame st st'"
proof (induction ts arbitrary: st s)
  case Nil
  then show ?case by simp
next
  case (Cons t ts)
  let ?e = "psar_list st ! te_entry t" and ?p = "drop (te_path t) (table_text st)"
  have v: "te_entry t < length (psar_list st)" "table_valid st ts"
    using Cons.prems(2) by (simp_all add: table_valid_def)
  show ?case
  proof (cases "is_entry_a_file ?e")
    case False
    then show ?thesis using Cons v by simp
  next
    case True
    then obtain ipl rr len st1 where ipl: "is_ipl_path ?p = Some ipl" and
        r: "read_file_by_entry E F st ?e = Some (rr, len, st1)"
      using Cons.prems(3) v by (auto simp: Let_def bind_eq_Some_conv)
    have ft: "psar_wf st" "entry_fits st ?e"
      using Cons.prems(1) v by (auto simp: psar_ready_def list_all_length)
    have f1: "psar_frame st st1" using read_file_by_entry_frame [OF E ft r] by simp
    define di where "di = (if ipl \<and> psp_model E \<noteq> PSP_MODEL_01G then decrypt_ipl (kirk E) st1
        else Some (PSAR_RESULT_OK, len, st1))"
    obtain dr n st2 where d: "di = Some (dr, n, st2)" and f2: "psar_frame st1 st2"
    proof (cases "ipl \<and> psp_model E \<noteq> PSP_MODEL_01G")
      case True
      moreover obtain dr n st2 where "decrypt_ipl (kirk E) st1 = Some (dr, n, st2)" "psar_frame st1 st2"
        using decrypt_ipl_safe [of "kirk E" st1] psar_frame_wf [OF f1 ft(1)] E(1)
        by (auto simp: psar_env_ok_def)
      ultimately show ?thesis using that by (simp add: di_def)
    next
      case False
      then have "di = Some (PSAR_RESULT_OK, len, st1)" by (auto simp: di_def)
      then show ?thesis by (rule that) (simp add: psar_frame_def)
    qed
    note f12 = psar_frame_trans [OF f1 f2]
    have step: "(if rr \<noteq> PSAR_RESULT_OK then Some (rr, st1, s)
        else if dr \<noteq> PSAR_RESULT_OK then Some (dr, st2, s)
        else func s (kmem st2) ?p (wb2 st2) n (file_properties ipl ?e) \<bind> (\<lambda>(r, s', km, b).
          let st3 = st2\<lparr>kmem := km, wb2 := b\<rparr>
          in if r \<noteq> 0 then Some (PSAR_ERR_HANDLER, st3, s') else read_each_file E F func st3 s' ts))
        = Some (res, st', s')"
      using Cons.prems(3) True v ipl r d
      by (cases "rr = PSAR_RESULT_OK") (simp_all add: Let_def di_def)
    show ?thesis
    proof (cases "rr = PSAR_RESULT_OK \<and> dr = PSAR_RESULT_OK")
      case False
      then show ?thesis using step f1 f12 by (auto split: if_splits)
    next
      case ok: True
      then obtain c s1 km b where c: "func s (kmem st2) ?p (wb2 st2) n (file_properties ipl ?e) = Some (c, s1, km, b)"
        using step by (auto simp: Let_def bind_eq_Some_conv)
      let ?st3 = "st2\<lparr>kmem := km, wb2 := b\<rparr>"
      have f3: "psar_frame st ?st3"
        using psar_frame_trans [OF f12 psar_frame_buffers] cb [OF c] by simp
      have r3: "psar_ready ?st3" "table_valid ?st3 ts"
        using psar_ready_frame [OF f3 Cons.prems(1)] v(2) psar_frame_lengths [OF f3]
        by (simp_all add: table_valid_def)
      show ?thesis
      proof (cases "c = 0")
        case False
        then show ?thesis using step ok c f3 by (simp add: Let_def)
      next
        case z: True
        then have "read_each_file E F func ?st3 s1 ts = Some (res, st', s')"
          using step ok c by (simp add: Let_def)
        then show ?thesis using Cons.IH [OF r3] psar_frame_trans [OF f3] by blast
      qed
    qed
  qed
qed

section \<open>\<^verbatim>\<open>get_header\<close>\<close>

text \<open>A file that starts with the PSAR magic is accepted at once.\<close>

lemma get_header_psar:
  assumes "f_read F fp0 0x10 = (FR_OK, d, fp1)" "read_u32 (read_into hdr0 d) 0 = Some PSAR_MAGIC"
  shows "get_header F fp0 hdr0 = Some (PSAR_RESULT_OK, fp1, read_into hdr0 d)"
  using assms by (subst get_header.simps) (simp add: Let_def)

text \<open>A PBP whose archive offset leads to a PSAR header is followed once.\<close>

lemma get_header_pbp:
  assumes "f_read F fp0 0x10 = (FR_OK, d, fp1)" "read_u32 (read_into hdr0 d) 0 = Some PBP_MAGIC"
    and "f_lseek F fp1 0x24 = (FR_OK, fp2)" "f_read F fp2 4 = (FR_OK, d3, fp3)"
    and "read_u32 (read_into (to_le32 0) d3) 0 = Some off" "f_lseek F fp3 off = (FR_OK, fp4)"
    and "f_read F fp4 0x10 = (FR_OK, d5, fp5)"
    and "read_u32 (read_into (read_into hdr0 d) d5) 0 = Some PSAR_MAGIC"
  shows "get_header F fp0 hdr0 = Some (PSAR_RESULT_OK, fp5, read_into (read_into hdr0 d) d5)"
  using assms(1-6) get_header_psar [OF assms(7,8)]
  by (subst get_header.simps) (simp add: Let_def)

text \<open>
  A PBP that names itself as the archive is read again and again: the loop never returns.
\<close>

lemma get_header_diverges:
  assumes "\<And>hdr. \<exists>d fp1. f_read F fp0 0x10 = (FR_OK, d, fp1) \<and> read_u32 (read_into hdr d) 0 = Some PBP_MAGIC \<and>
      (\<exists>fp2 d3 fp3 off. f_lseek F fp1 0x24 = (FR_OK, fp2) \<and> f_read F fp2 4 = (FR_OK, d3, fp3) \<and>
        read_u32 (read_into (to_le32 0) d3) 0 = Some off \<and> f_lseek F fp3 off = (FR_OK, fp0))"
  shows "get_header F fp0 hdr0 = None"
proof -
  have "get_header F fp0 hdr0 = Some r \<Longrightarrow> False" for r
  proof -
    assume ret: "get_header F fp0 hdr0 = Some r"
    have "F = F \<and> fp0 = fp0 \<longrightarrow> False"
    proof (rule get_header.raw_induct [where P = "\<lambda>F' f h r. F' = F \<and> f = fp0 \<longrightarrow> False", OF _ ret])
      fix gh F' f h and r :: "PsarResult \<times> 'a \<times> bytes"
      assume IH: "\<And>F' f h r. gh F' f h = Some r \<Longrightarrow> F' = F \<and> f = fp0 \<longrightarrow> False"
        and eq: "(case f_read F' f 0x10 of (res, d, fp1) \<Rightarrow>
        let hdr = read_into h d in
        if res \<noteq> FR_OK then Some (PSAR_ERR_READ_HEADER, fp1, hdr)
        else if read_u32 hdr 0 = Some PBP_MAGIC then
          (case f_lseek F' fp1 0x24 of (res2, fp2) \<Rightarrow>
             if res2 \<noteq> FR_OK then Some (PSAR_ERR_SEEK_HEADER, fp2, hdr)
             else (case f_read F' fp2 4 of (res3, d3, fp3) \<Rightarrow>
               if res3 \<noteq> FR_OK then Some (PSAR_ERR_READ_HEADER, fp3, hdr)
               else (case read_u32 (read_into (to_le32 0) d3) 0 of
                   None \<Rightarrow> None
                 | Some psar_offset \<Rightarrow>
                     (case f_lseek F' fp3 psar_offset of (res4, fp4) \<Rightarrow>
                        if res4 \<noteq> FR_OK then Some (PSAR_ERR_SEEK_HEADER, fp4, hdr)
                        else gh F' fp4 hdr))))
        else if read_u32 hdr 0 = Some PSAR_MAGIC then Some (PSAR_RESULT_OK, fp1, hdr)
        else Some (PSAR_ERR_NOT_PSAR, fp1, hdr)) = Some r"
      show "F' = F \<and> f = fp0 \<longrightarrow> False"
      proof
        assume "F' = F \<and> f = fp0"
        then have "\<exists>h'. gh F fp0 h' = Some r"
          using eq assms [of h] by (auto simp: Let_def)
        then show False using IH by blast
      qed
    qed
    then show False by simp
  qed
  then show ?thesis by (cases "get_header F fp0 hdr0") auto
qed

end
