(* ===== verification/Ipl.thy ===== *)
theory Ipl
  imports Psar
begin

text \<open>
  app/aiseirigh/ipl.c: erasing the boot area of the NAND and writing the initial program
  loader to it. The NAND driver (emcsm) is not part of the repository: its three
  operations are fields of the record \<open>nand_ops\<close> over an abstract device state, with
  \<open>nand_page_data\<close> a ghost observation of what a block holds. \<open>nand_ok\<close> is what the
  driver promises.
\<close>

record IplSpareData =
  unk0 :: u8
  unk1 :: u8
  spare_xor_id :: u16
  spare_tag :: u32
  ecc :: u32

text \<open>\<^verbatim>\<open>memset(&spare[i], 0xFF, sizeof(IplSpareData))\<close>.\<close>

definition spare_ff :: IplSpareData where
  "spare_ff = \<lparr>unk0 = 0xFF, unk1 = 0xFF, spare_xor_id = 0xFFFF, spare_tag = 0xFFFFFFFF, ecc = 0xFFFFFFFF\<rparr>"

type_synonym nand_block = "bytes \<times> IplSpareData list"

record 'dev nand_ops =
  emcsm_erase_block :: "'dev \<Rightarrow> nat \<Rightarrow> int \<times> 'dev"
  emcsm_is_bad_block :: "'dev \<Rightarrow> nat \<Rightarrow> int"
  emcsm_write_block_with_verify :: "'dev \<Rightarrow> nat \<Rightarrow> bytes \<Rightarrow> IplSpareData list \<Rightarrow> int \<times> 'dev"
  nand_page_data :: "'dev \<Rightarrow> nat \<Rightarrow> nand_block"

definition nand_ok :: "'dev nand_ops \<Rightarrow> bool" where
  "nand_ok N \<longleftrightarrow>
     (\<forall>d p b s r d'. emcsm_write_block_with_verify N d p b s = (r, d') \<longrightarrow>
        (0 \<le> r \<longrightarrow> nand_page_data N d' p = (b, s)) \<and>
        (\<forall>q. q \<noteq> p \<longrightarrow> nand_page_data N d' q = nand_page_data N d q) \<and>
        (\<forall>q. emcsm_is_bad_block N d' q = emcsm_is_bad_block N d q)) \<and>
     (\<forall>d p q. q \<noteq> p \<longrightarrow> nand_page_data N (snd (emcsm_erase_block N d p)) q = nand_page_data N d q)"

section \<open>\<^verbatim>\<open>clear_ipl\<close>\<close>

fun clear_blocks :: "'dev nand_ops \<Rightarrow> 'dev \<Rightarrow> nat list \<Rightarrow> 'dev" where
  "clear_blocks N d [] = d"
| "clear_blocks N d (block # bs) = clear_blocks N (snd (emcsm_erase_block N d (block * 32))) bs"

definition clear_ipl :: "'dev nand_ops \<Rightarrow> 'dev \<Rightarrow> int \<times> 'dev" where
  "clear_ipl N d = (0, clear_blocks N d [0..<0x30])"

section \<open>\<^verbatim>\<open>write_ipl\<close>\<close>

fun ipl_xor_id :: "PspModel \<Rightarrow> u16" where
  "ipl_xor_id PSP_MODEL_01G = 0"
| "ipl_xor_id PSP_MODEL_02G = 0"
| "ipl_xor_id PSP_MODEL_03G = 1"
| "ipl_xor_id PSP_MODEL_04G = 1"
| "ipl_xor_id PSP_MODEL_07G = 1"
| "ipl_xor_id PSP_MODEL_09G = 1"
| "ipl_xor_id PSP_MODEL_11G = 1"
| "ipl_xor_id PSP_MODEL_05G = 2"
| "ipl_xor_id PSP_MODEL_OTHER = 0xFFFF"

definition ppb :: nat where "ppb = 32"
definition page_size :: nat where "page_size = 512"

definition num_ipl_pages :: "nat \<Rightarrow> nat" where
  "num_ipl_pages len = len div page_size + (if len mod page_size \<noteq> 0 then 1 else 0)"

definition ipl_spare :: "u16 \<Rightarrow> IplSpareData" where
  "ipl_spare xid = spare_ff\<lparr>spare_xor_id := xid, spare_tag := 0x6DC64A38\<rparr>"

text \<open>The inner loop that skips bad blocks; \<open>None\<close> when block 48 is reached.\<close>

function next_good_block :: "'dev nand_ops \<Rightarrow> 'dev \<Rightarrow> nat \<Rightarrow> nat option" where
  "next_good_block N d block_num =
     (if block_num \<ge> 48 then None
      else if emcsm_is_bad_block N d (block_num * ppb) = 0 then Some block_num
      else next_good_block N d (block_num + 1))"
  by pat_completeness auto
termination by (relation "measure (\<lambda>(N, d, b). 48 - b)") auto

declare next_good_block.simps [simp del]

text \<open>
  The loop that fills \<^verbatim>\<open>block_data\<close> and \<^verbatim>\<open>spare\<close>, page \<open>i\<close> of 32: all 32 pages are
  overwritten, so the uninitialised contents never matter. The source of the copy is
  checked: page \<open>w + i\<close> has to lie inside the caller's buffer.
\<close>

fun fill_block :: "bytes \<Rightarrow> u16 \<Rightarrow> nat \<Rightarrow> nat \<Rightarrow> nat list \<Rightarrow> (bytes \<times> IplSpareData list) option" where
  "fill_block data xid np w [] = Some ([], [])"
| "fill_block data xid np w (i # js) =
     do {
       (page, sp) \<leftarrow>
         (if w + i < np then
            do { p \<leftarrow> mem_read data ((w + i) * page_size) page_size; Some (p, ipl_spare xid) }
          else Some (replicate page_size 0xFF, spare_ff));
       (ps, sps) \<leftarrow> fill_block data xid np w js;
       Some (page @ ps, sp # sps)
     }"

function write_chunks :: "'dev nand_ops \<Rightarrow> bytes \<Rightarrow> u16 \<Rightarrow> nat \<Rightarrow> 'dev \<Rightarrow> nat \<Rightarrow> nat \<Rightarrow> u16 list
    \<Rightarrow> (int \<times> 'dev \<times> u16 list) option" where
  "write_chunks N data xid np d block_num w idx =
     (if w < np then
        (case next_good_block N d block_num of
           None \<Rightarrow> Some (-1, d, idx)
         | Some b \<Rightarrow>
             do {
               (block_data, spare) \<leftarrow> fill_block data xid np w [0..<ppb];
               idx' \<leftarrow> mem_write idx (w div ppb) [of_nat b];
               let (res, d') = emcsm_write_block_with_verify N d (b * ppb) block_data spare;
               (if res < 0 then Some (-1, d', idx')
                else write_chunks N data xid np d' (b + 1) (w + ppb) idx')
             })
      else Some (0, d, idx))"
  by pat_completeness auto
termination by (relation "measure (\<lambda>(N, data, xid, np, d, b, w, idx). np - w)") (auto simp: ppb_def)

declare write_chunks.simps [simp del]

text \<open>The block index: 32 block numbers, then zeros; its first spare entry is tagged.\<close>

definition index_block :: "u16 list \<Rightarrow> bytes" where
  "index_block idx = concat (map to_le16 idx) @ replicate (32 * 512 - 64) 0"

definition index_spare :: "u16 \<Rightarrow> IplSpareData list" where
  "index_spare xid = ipl_spare xid # replicate 31 spare_ff"

text \<open>Blocks 4 to 11 hold the index.\<close>

definition index_block_nums :: "nat list" where
  "index_block_nums = [4..<12]"

fun write_index :: "'dev nand_ops \<Rightarrow> bytes \<Rightarrow> IplSpareData list \<Rightarrow> 'dev \<Rightarrow> nat list \<Rightarrow> bool \<Rightarrow> bool \<times> 'dev" where
  "write_index N bd sp d [] written = (written, d)"
| "write_index N bd sp d (b # bs) written =
     (if emcsm_is_bad_block N d (b * ppb) \<noteq> 0 then write_index N bd sp d bs written
      else write_index N bd sp (snd (emcsm_write_block_with_verify N d (b * ppb) bd sp)) bs True)"

definition write_ipl :: "'dev nand_ops \<Rightarrow> PspModel \<Rightarrow> 'dev \<Rightarrow> bytes \<Rightarrow> u32 \<Rightarrow> (int \<times> 'dev) option" where
  "write_ipl N model d data len =
     (if len = 0 then Some (-1, d)
      else if unat len > 32 * ppb * page_size then Some (-1, d)
      else
        do {
          let xid = ipl_xor_id model;
          (res, d1, idx) \<leftarrow>
            write_chunks N data xid (num_ipl_pages (unat len)) d 16 0 (replicate 32 0);
          (if res \<noteq> 0 then Some (res, d1)
           else let (written, d2) = write_index N (index_block idx) (index_spare xid) d1 index_block_nums False
             in Some (if written then 0 else -1, d2))
        })"


section \<open>What the blocks hold afterwards\<close>

definition ipl_page :: "bytes \<Rightarrow> nat \<Rightarrow> nat \<Rightarrow> bytes" where
  "ipl_page data np j =
     (if j < np then take page_size (drop (j * page_size) data) else replicate page_size 0xFF)"

definition ipl_chunk :: "bytes \<Rightarrow> u16 \<Rightarrow> nat \<Rightarrow> nat \<Rightarrow> nat list \<Rightarrow> nand_block" where
  "ipl_chunk data xid np w js =
     (concat (map (\<lambda>i. ipl_page data np (w + i)) js),
      map (\<lambda>i. if w + i < np then ipl_spare xid else spare_ff) js)"

lemma fill_block_chunk:
  "np * page_size \<le> length data \<Longrightarrow> fill_block data xid np w js = Some (ipl_chunk data xid np w js)"
proof (induction js)
  case Nil
  then show ?case by (simp add: ipl_chunk_def)
next
  case (Cons i js)
  have "(w + i) * page_size + page_size \<le> np * page_size" if "w + i < np"
    using mult_le_mono1 [of "w + i + 1" np page_size] that by (simp add: add.commute)
  then have "mem_read data ((w + i) * page_size) page_size = Some (ipl_page data np (w + i))"
    if "w + i < np" using that Cons.prems by (simp add: mem_read_def ipl_page_def)
  then show ?case using Cons by (simp add: ipl_chunk_def) (simp add: ipl_page_def)
qed

lemma next_good_block_Some:
  "next_good_block N d b = Some b' \<Longrightarrow>
   b \<le> b' \<and> b' < 48 \<and> emcsm_is_bad_block N d (b' * ppb) = 0"
proof (induction N d b rule: next_good_block.induct)
  case (1 N d b)
  note eq = next_good_block.simps [of N d b]
  show ?case
  proof (cases "b < 48 \<and> emcsm_is_bad_block N d (b * ppb) \<noteq> 0")
    case True
    then have "next_good_block N d (b + 1) = Some b'" using "1.prems" eq by simp
    then show ?thesis using "1.IH" True by fastforce
  next
    case False
    then show ?thesis using "1.prems" eq by (auto split: if_splits)
  qed
qed

lemma next_good_block_None:
  "next_good_block N d b = None \<Longrightarrow> b \<le> k \<Longrightarrow> k < 48 \<Longrightarrow> emcsm_is_bad_block N d (k * ppb) \<noteq> 0"
proof (induction N d b rule: next_good_block.induct)
  case (1 N d b)
  then have "\<not> 48 \<le> b" "emcsm_is_bad_block N d (b * ppb) \<noteq> 0"
      "next_good_block N d (b + 1) = None"
    by (auto simp: next_good_block.simps [of N d b] split: if_splits)
  then show ?case using "1.IH" "1.prems" by (cases "k = b") auto
qed

lemma nand_write:
  assumes "nand_ok N" "emcsm_write_block_with_verify N d p b s = (r, d')"
  shows "0 \<le> r \<Longrightarrow> nand_page_data N d' p = (b, s)"
    and "q \<noteq> p \<Longrightarrow> nand_page_data N d' q = nand_page_data N d q"
    and "emcsm_is_bad_block N d' q = emcsm_is_bad_block N d q"
  using assms unfolding nand_ok_def by blast+

text \<open>
  The state of the NAND after the chunks from page \<open>w\<close> on were written to the blocks \<open>bs\<close>.
\<close>

definition chunks_written :: "'dev nand_ops \<Rightarrow> bytes \<Rightarrow> u16 \<Rightarrow> nat \<Rightarrow> 'dev \<Rightarrow> nat \<Rightarrow> nat \<Rightarrow> 'dev \<Rightarrow> nat list \<Rightarrow> bool" where
  "chunks_written N data xid np d bn w d' bs \<longleftrightarrow>
     sorted_wrt (<) bs \<and>
     (\<forall>b \<in> set bs. bn \<le> b \<and> b < 48 \<and> emcsm_is_bad_block N d (b * ppb) = 0) \<and>
     length bs = (np - w + 31) div 32 \<and>
     (\<forall>k < length bs. nand_page_data N d' (bs ! k * ppb) = ipl_chunk data xid np (w + ppb * k) [0..<ppb]) \<and>
     (\<forall>q. q \<notin> (\<lambda>b. b * ppb) ` set bs \<longrightarrow> nand_page_data N d' q = nand_page_data N d q) \<and>
     (\<forall>q. emcsm_is_bad_block N d' q = emcsm_is_bad_block N d q)"

lemma chunk_count:
  assumes "(w::nat) < np"
  shows "(np - w + 31) div 32 = Suc ((np - (w + 32) + 31) div 32)"
proof (cases "np - w \<le> 32")
  case True
  then have "(np - w + 31) div 32 = 1" using assms by (intro div_nat_eqI) auto
  then show ?thesis using True by simp
next
  case False
  then obtain x where x: "np - w = x + 32" using le_Suc_ex [of 32 "np - w"] by auto
  moreover have "np - (w + 32) = x" using x by linarith
  moreover have "(x + 32 + 31) div 32 = Suc ((x + 31) div 32)" for x :: nat by simp
  ultimately show ?thesis by metis
qed

lemma chunks_written_Cons:
  assumes N: "nand_ok N" and w: "w < np"
    and b: "bn \<le> b" "b < 48" "emcsm_is_bad_block N d (b * ppb) = 0"
    and wr: "emcsm_write_block_with_verify N d (b * ppb) bd sp = (r, d1)" "0 \<le> r"
    and bd: "(bd, sp) = ipl_chunk data xid np w [0..<ppb]"
    and rest: "chunks_written N data xid np d1 (b + 1) (w + ppb) d' bs"
  shows "chunks_written N data xid np d bn w d' (b # bs)"
proof -
  note W = nand_write [OF N wr(1)]
  have nb: "b * ppb \<notin> (\<lambda>b. b * ppb) ` set bs"
    using rest by (auto simp: chunks_written_def ppb_def)
  have "nand_page_data N d' (b * ppb) = ipl_chunk data xid np w [0..<ppb]"
  proof -
    have "nand_page_data N d' (b * ppb) = nand_page_data N d1 (b * ppb)"
      using rest nb unfolding chunks_written_def by blast
    also have "\<dots> = (bd, sp)" using W(1) wr(2) .
    finally show ?thesis using bd by simp
  qed
  moreover have "(np - w + 31) div 32 = Suc ((np - (w + ppb) + 31) div 32)"
    using chunk_count w by (simp add: ppb_def)
  moreover have "nand_page_data N d' ((b # bs) ! k * ppb) = ipl_chunk data xid np (w + ppb * k) [0..<ppb]"
    if "k < length (b # bs)" for k
  proof (cases k)
    case 0
    then show ?thesis using calculation(1) by simp
  next
    case (Suc j)
    then have "nand_page_data N d' (bs ! j * ppb) = ipl_chunk data xid np (w + ppb + ppb * j) [0..<ppb]"
      using rest that unfolding chunks_written_def by auto
    then show ?thesis using Suc by (simp add: add.assoc)
  qed
  moreover have "nand_page_data N d' q = nand_page_data N d q" if "q \<notin> (\<lambda>b. b * ppb) ` set (b # bs)" for q
  proof -
    have "nand_page_data N d' q = nand_page_data N d1 q"
      using rest that unfolding chunks_written_def by simp
    also have "\<dots> = nand_page_data N d q" using W(2) that by simp
    finally show ?thesis .
  qed
  moreover have "\<forall>c \<in> set (b # bs). bn \<le> c \<and> c < 48 \<and> emcsm_is_bad_block N d (c * ppb) = 0"
    using rest b W(3) by (auto simp: chunks_written_def)
  ultimately show ?thesis
    using rest W(3) unfolding chunks_written_def by (simp add: Suc_le_eq)
qed

lemma write_chunks_step:
  assumes "np * page_size \<le> length data" "w < np" "32 dvd w" "np \<le> 32 * length idx"
    and "next_good_block N d bn = Some b"
    and "emcsm_write_block_with_verify N d (b * ppb) (fst (ipl_chunk data xid np w [0..<ppb]))
      (snd (ipl_chunk data xid np w [0..<ppb])) = (r, d1)"
  shows "write_chunks N data xid np d bn w idx =
    (if r < 0 then Some (-1, d1, idx[w div 32 := of_nat b])
     else write_chunks N data xid np d1 (b + 1) (w + ppb) (idx[w div 32 := of_nat b]))"
proof -
  have "w div ppb < length idx" using assms(2,3,4) by (auto simp: ppb_def)
  then show ?thesis using assms
    by (subst write_chunks.simps) (simp add: fill_block_chunk case_prod_beta mem_write_single ppb_def)
qed

lemma write_chunks_ok:
  "write_chunks N data xid np d bn w idx = Some (0, d', idx') \<Longrightarrow> nand_ok N \<Longrightarrow>
   np * page_size \<le> length data \<Longrightarrow> 32 dvd w \<Longrightarrow> np \<le> 32 * length idx \<Longrightarrow>
    \<exists>bs. chunks_written N data xid np d bn w d' bs \<and>
      idx' = take (w div 32) idx @ map of_nat bs @ drop (w div 32 + length bs) idx"
proof (induction "np - w" arbitrary: d bn w idx rule: less_induct)
  case less
  note IH = less(1) and prems = less(2-6)
  show ?case
  proof (cases "w < np")
    case False
    then have "chunks_written N data xid np d bn w d' []" "idx' = idx"
      using prems(1) by (auto simp: write_chunks.simps [of N data xid np d bn w] chunks_written_def)
    then show ?thesis by (intro exI [of _ "[]"]) simp
  next
    case True
    let ?c = "ipl_chunk data xid np w [0..<ppb]"
    obtain b where b: "next_good_block N d bn = Some b"
      using True prems(1)
      by (auto simp: write_chunks.simps [of N data xid np d bn w] split: option.splits)
    obtain r d1 where wr: "emcsm_write_block_with_verify N d (b * ppb) (fst ?c) (snd ?c) = (r, d1)"
      by fastforce
    note st = write_chunks_step [OF prems(3) True prems(4,5) b wr]
    let ?idx = "idx[w div 32 := of_nat b]"
    have r: "0 \<le> r" and rec: "write_chunks N data xid np d1 (b + 1) (w + ppb) ?idx = Some (0, d', idx')"
      using st prems(1) by (auto split: if_splits)
    have "np - (w + ppb) < np - w" "32 dvd w + ppb" "np \<le> 32 * length ?idx"
      using True prems(4,5) by (auto simp: ppb_def)
    from IH [OF this(1) rec prems(2,3) this(2,3)] obtain bs where
        bs: "chunks_written N data xid np d1 (b + 1) (w + ppb) d' bs" and
        i': "idx' = take ((w + ppb) div 32) ?idx @ map of_nat bs @ drop ((w + ppb) div 32 + length bs) ?idx"
      by blast
    have "chunks_written N data xid np d bn w d' (b # bs)"
      using next_good_block_Some [OF b] by (intro chunks_written_Cons [OF prems(2) True _ _ _ wr r _ bs]) simp_all
    moreover have "idx' = take (w div 32) idx @ map of_nat (b # bs) @ drop (w div 32 + length (b # bs)) idx"
    proof -
      have "w div 32 < length idx" using True prems(4,5) by auto
      moreover have "(w + ppb) div 32 = Suc (w div 32)" by (simp add: ppb_def)
      ultimately show ?thesis using i' by (simp add: take_Suc_conv_app_nth)
    qed
    ultimately show ?thesis by blast
  qed
qed

text \<open>With a large enough source buffer and index nothing is accessed out of range.\<close>

lemma write_chunks_returns:
  "np * page_size \<le> length data \<Longrightarrow> 32 dvd w \<Longrightarrow> np \<le> 32 * length idx \<Longrightarrow>
   \<exists>r d' idx'. write_chunks N data xid np d bn w idx = Some (r, d', idx') \<and> (r = 0 \<or> r = -1)"
proof (induction "np - w" arbitrary: d bn w idx rule: less_induct)
  case less
  show ?case
  proof (cases "w < np")
    case False
    then show ?thesis by (simp add: write_chunks.simps [of N data xid np d bn w])
  next
    case True
    show ?thesis
    proof (cases "next_good_block N d bn")
      case None
      then show ?thesis using True by (simp add: write_chunks.simps [of N data xid np d bn w])
    next
      case (Some b)
      obtain r d1 where wr: "emcsm_write_block_with_verify N d (b * ppb)
          (fst (ipl_chunk data xid np w [0..<ppb])) (snd (ipl_chunk data xid np w [0..<ppb])) = (r, d1)"
        by fastforce
      have "np - (w + ppb) < np - w" "32 dvd w + ppb" using True less(3) by (auto simp: ppb_def)
      from less(1) [OF this(1) less(2) this(2), of "idx[w div 32 := of_nat b]" d1 "b + 1"]
      show ?thesis using write_chunks_step [OF less(2) True less(3,4) Some wr] less(4) by auto
    qed
  qed
qed

section \<open>The whole loader on the NAND\<close>

definition ipl_image :: "'dev nand_ops \<Rightarrow> 'dev \<Rightarrow> nat list \<Rightarrow> bytes" where
  "ipl_image N d bs = concat (map (\<lambda>b. fst (nand_page_data N d (b * ppb))) bs)"

lemma concat_pages_chunks:
  "concat (map (\<lambda>k. concat (map (\<lambda>i. f (n * k + i)) [0..<n])) [0..<m]) = concat (map f [0..<n * m])"
proof (induction m)
  case 0
  then show ?case by simp
next
  case (Suc m)
  have "[0..<n * Suc m] = [0..<n * m] @ map (\<lambda>i. i + n * m) [0..<n]"
    by (metis add.commute le0 map_add_upt mult_Suc_right upt_add_eq_append)
  then show ?case using Suc by (simp add: comp_def add.commute)
qed

lemma concat_ipl_pages:
  "m \<le> np \<Longrightarrow> m * page_size \<le> length data \<Longrightarrow>
   concat (map (ipl_page data np) [0..<m]) = take (m * page_size) data"
proof (induction m)
  case 0
  then show ?case by simp
next
  case (Suc m)
  then have "concat (map (ipl_page data np) [0..<m]) = take (m * page_size) data" by simp
  moreover have "take (Suc m * page_size) data = take (m * page_size) data @ take page_size (drop (m * page_size) data)"
    by (subst mult_Suc, subst add.commute, rule take_add)
  moreover have "ipl_page data np m = take page_size (drop (m * page_size) data)"
    using Suc.prems by (simp add: ipl_page_def)
  ultimately show ?case by simp
qed

lemma take_eq_le: "take m xs = take m ys \<Longrightarrow> n \<le> m \<Longrightarrow> take n xs = take n ys"
  by (drule arg_cong [where f = "take n"]) (simp add: min_def)

lemma ipl_image_chunks:
  assumes "chunks_written N data xid np d bn 0 d' bs" "np * page_size \<le> length data"
  shows "take (np * page_size) (ipl_image N d' bs) = take (np * page_size) data"
proof -
  have *: "fst (nand_page_data N d' (bs ! k * ppb)) = concat (map (\<lambda>i. ipl_page data np (ppb * k + i)) [0..<ppb])"
    if "k < length bs" for k
    using assms(1) that unfolding chunks_written_def by (auto simp: ipl_chunk_def)
  have "ipl_image N d' bs = concat (map (\<lambda>k. fst (nand_page_data N d' (bs ! k * ppb))) [0..<length bs])"
    unfolding ipl_image_def by (subst map_nth [of bs, symmetric]) (simp only: map_map comp_def)
  also have "\<dots> = concat (map (\<lambda>k. concat (map (\<lambda>i. ipl_page data np (ppb * k + i)) [0..<ppb])) [0..<length bs])"
    using * by (intro arg_cong [of _ _ concat] map_cong) auto
  also have "\<dots> = concat (map (ipl_page data np) [0..<ppb * length bs])"
    by (rule concat_pages_chunks)
  finally have img: "ipl_image N d' bs = concat (map (ipl_page data np) [0..<ppb * length bs])" .
  have "np \<le> ppb * length bs"
    using assms(1) by (simp add: chunks_written_def ppb_def)
  then have "[0..<ppb * length bs] = [0..<np] @ [np..<ppb * length bs]"
    using upt_add_eq_append [of 0 np "ppb * length bs - np"] by simp
  then show ?thesis using img concat_ipl_pages [OF order_refl assms(2)] assms(2) by simp
qed

lemma write_index_spec:
  "nand_ok N \<Longrightarrow> write_index N bd sp d bs wr0 = (wr, d') \<Longrightarrow> distinct bs \<Longrightarrow>
   (wr \<longleftrightarrow> wr0 \<or> (\<exists>b \<in> set bs. emcsm_is_bad_block N d (b * ppb) = 0)) \<and>
   (\<forall>b \<in> set bs. emcsm_is_bad_block N d (b * ppb) = 0 \<longrightarrow>
      nand_page_data N d' (b * ppb) = (bd, sp) \<or>
      (\<exists>d1. fst (emcsm_write_block_with_verify N d1 (b * ppb) bd sp) < 0)) \<and>
   (\<forall>q. q \<notin> (\<lambda>b. b * ppb) ` set bs \<longrightarrow> nand_page_data N d' q = nand_page_data N d q)"
proof (induction bs arbitrary: d wr0)
  case Nil
  then show ?case by simp
next
  case (Cons b bs)
  show ?case
  proof (cases "emcsm_is_bad_block N d (b * ppb) = 0")
    case False
    then show ?thesis using Cons by simp
  next
    case True
    obtain r d1 where wr: "emcsm_write_block_with_verify N d (b * ppb) bd sp = (r, d1)" by fastforce
    note W = nand_write [OF Cons.prems(1) wr]
    have rec: "write_index N bd sp d1 bs True = (wr, d')" using Cons.prems(2) True wr by simp
    note IH = Cons.IH [OF Cons.prems(1) rec] 
    have nb: "b * ppb \<notin> (\<lambda>b. b * ppb) ` set bs" using Cons.prems(3) by (auto simp: ppb_def)
    have "nand_page_data N d' (b * ppb) = nand_page_data N d1 (b * ppb)" using IH Cons.prems(3) nb by simp
    then have b: "nand_page_data N d' (b * ppb) = (bd, sp) \<or>
        (\<exists>d1. fst (emcsm_write_block_with_verify N d1 (b * ppb) bd sp) < 0)"
      using W(1) wr by (cases "0 \<le> r") (auto intro: exI [of _ d])
    have "nand_page_data N d' q = nand_page_data N d q" if "q \<notin> (\<lambda>b. b * ppb) ` set (b # bs)" for q
      using IH Cons.prems(3) W(2) [of q] that by simp
    then show ?thesis using IH Cons.prems(3) W(3) True b by auto
  qed
qed

lemma num_ipl_pages_bounds:
  "len \<le> num_ipl_pages len * page_size"
  "len \<le> 32 * ppb * page_size \<Longrightarrow> num_ipl_pages len \<le> 1024"
proof -
  have q: "len div 512 * 512 + len mod 512 = len" "len mod 512 < 512" by simp_all
  show "len \<le> num_ipl_pages len * page_size"
  proof (cases "len mod 512 = 0")
    case True
    then show ?thesis using q by (simp only: num_ipl_pages_def page_size_def) simp
  next
    case False
    then have "num_ipl_pages len * page_size = len div 512 * 512 + 512"
      by (simp add: num_ipl_pages_def page_size_def)
    then show ?thesis using q by linarith
  qed
  assume "len \<le> 32 * ppb * page_size"
  then have le: "len \<le> 524288" by (simp add: page_size_def ppb_def)
  show "num_ipl_pages len \<le> 1024"
  proof (cases "len mod 512 = 0")
    case True
    then have "num_ipl_pages len = len div 512" by (simp add: num_ipl_pages_def page_size_def)
    then show ?thesis using div_le_mono [OF le, of 512] by simp
  next
    case False
    then have "len \<noteq> 524288" by auto
    then have "len div 512 < 1024" using le by (intro less_mult_imp_div_less) simp
    then show ?thesis by (simp add: num_ipl_pages_def page_size_def)
  qed
qed

text \<open>
  What a successful \<^verbatim>\<open>write_ipl\<close> leaves on the NAND: the loader on the listed blocks, the
  list of blocks on every good index block, and nothing else changed.
\<close>

definition ipl_installed :: "'dev nand_ops \<Rightarrow> PspModel \<Rightarrow> 'dev \<Rightarrow> bytes \<Rightarrow> nat \<Rightarrow> 'dev \<Rightarrow> nat list \<Rightarrow> bool" where
  "ipl_installed N model d data len d' bs \<longleftrightarrow>
     sorted_wrt (<) bs \<and> length bs \<le> 32 \<and>
     (\<forall>b \<in> set bs. 16 \<le> b \<and> b < 48 \<and> emcsm_is_bad_block N d (b * ppb) = 0) \<and>
     take len (ipl_image N d' bs) = take len data \<and>
     (\<exists>b \<in> {4..<12}. emcsm_is_bad_block N d (b * ppb) = 0) \<and>
     (\<forall>b \<in> {4..<12}. emcsm_is_bad_block N d (b * ppb) = 0 \<longrightarrow>
        (let bd = index_block (map of_nat bs @ replicate (32 - length bs) 0);
             sp = index_spare (ipl_xor_id model) in
         nand_page_data N d' (b * ppb) = (bd, sp) \<or>
         (\<exists>d1. fst (emcsm_write_block_with_verify N d1 (b * ppb) bd sp) < 0))) \<and>
     (\<forall>q. q \<notin> (\<lambda>b. b * ppb) ` ({4..<12} \<union> set bs) \<longrightarrow> nand_page_data N d' q = nand_page_data N d q)"

lemma write_ipl_installs:
  assumes N: "nand_ok N" and buf: "num_ipl_pages (unat len) * page_size \<le> length data"
    and ok: "write_ipl N model d data len = Some (0, d')"
  shows "\<exists>bs. ipl_installed N model d data (unat len) d' bs"
proof -
  let ?np = "num_ipl_pages (unat len)" and ?x = "ipl_xor_id model"
  have len: "len \<noteq> 0" "unat len \<le> 32 * ppb * page_size"
    using ok by (auto simp: write_ipl_def split: if_splits)
  then obtain d1 idx where
      ch: "write_chunks N data ?x ?np d 16 0 (replicate 32 0) = Some (0, d1, idx)" and
      wi: "write_index N (index_block idx) (index_spare ?x) d1 index_block_nums False = (True, d')"
    using ok by (auto simp: write_ipl_def Let_def bind_eq_Some_conv split: if_splits prod.splits)
  have np: "?np \<le> 32 * length (replicate 32 (0::u16))" using num_ipl_pages_bounds(2) [OF len(2)] by simp
  from write_chunks_ok [OF ch N buf _ np] obtain bs where
      bs: "chunks_written N data ?x ?np d 16 0 d1 bs" and
      idx: "idx = map of_nat bs @ replicate (32 - length bs) 0"
    by auto
  have "distinct index_block_nums" "set index_block_nums = {4..<12}"
    unfolding index_block_nums_def by (simp_all only: distinct_upt set_upt)
  note I = write_index_spec [OF N wi this(1), unfolded this(2)]
  have bl: "sorted_wrt (<) bs" "\<forall>b \<in> set bs. 16 \<le> b \<and> b < 48 \<and> emcsm_is_bad_block N d (b * ppb) = 0"
      "length bs = (?np + 31) div 32"
    using bs by (simp_all add: chunks_written_def)
  have lb: "length bs \<le> 32" using bl(3) np by simp
  have bad: "emcsm_is_bad_block N d1 q = emcsm_is_bad_block N d q" for q
    using bs unfolding chunks_written_def by blast
  have keep: "nand_page_data N d' q = nand_page_data N d1 q" if "q \<notin> (\<lambda>b. b * ppb) ` {4..<12}" for q
    using I that by simp
  have "nand_page_data N d' (b * ppb) = nand_page_data N d1 (b * ppb)" if "b \<in> set bs" for b
    by (rule keep) (use bl(2) that in \<open>auto simp: ppb_def\<close>)
  then have "ipl_image N d' bs = ipl_image N d1 bs"
    unfolding ipl_image_def by (intro arg_cong [of _ _ concat] map_cong) auto
  then have img: "take (unat len) (ipl_image N d' bs) = take (unat len) data"
    using take_eq_le [OF ipl_image_chunks [OF bs buf] num_ipl_pages_bounds(1)] by simp
  have fr: "nand_page_data N d' q = nand_page_data N d q"
    if "q \<notin> (\<lambda>b. b * ppb) ` ({4..<12} \<union> set bs)" for q
  proof -
    have "nand_page_data N d' q = nand_page_data N d1 q" using keep that by (simp add: image_Un)
    also have "\<dots> = nand_page_data N d q"
      using bs that unfolding chunks_written_def by (simp add: image_Un)
    finally show ?thesis .
  qed
  show ?thesis
    using bl(1,2) lb img fr I bad idx unfolding ipl_installed_def Let_def
    by (intro exI [of _ bs]) simp
qed

section \<open>When writing succeeds\<close>

definition good_blocks :: "'dev nand_ops \<Rightarrow> 'dev \<Rightarrow> nat \<Rightarrow> nat set" where
  "good_blocks N d bn = {b \<in> {bn..<48}. emcsm_is_bad_block N d (b * ppb) = 0}"

lemma card_good_blocks_step:
  assumes "next_good_block N d bn = Some b"
  shows "card (good_blocks N d bn) = Suc (card (good_blocks N d (b + 1)))"
proof -
  have "emcsm_is_bad_block N d (k * ppb) \<noteq> 0" if "bn \<le> k" "k < b" for k
    using assms that
  proof (induction N d bn rule: next_good_block.induct)
    case (1 N d bn)
    then have "bn \<noteq> b" by simp
    then have bad: "emcsm_is_bad_block N d (bn * ppb) \<noteq> 0" "\<not> 48 \<le> bn" "next_good_block N d (bn + 1) = Some b"
      using "1.prems"(1) by (auto simp: next_good_block.simps [of N d bn] split: if_splits)
    then show ?case using "1.IH" "1.prems" by (cases "k = bn") auto
  qed
  then have "good_blocks N d bn = insert b (good_blocks N d (b + 1))"
    using next_good_block_Some [OF assms] by (auto simp: good_blocks_def not_le Suc_le_eq) (meson le_less_linear nat_neq_iff)
  moreover have "finite (good_blocks N d (b + 1))" "b \<notin> good_blocks N d (b + 1)"
    by (simp_all add: good_blocks_def)
  ultimately show ?thesis by simp
qed

lemma write_chunks_succeeds:
  assumes N: "nand_ok N" and nf: "\<And>d p b s. 0 \<le> fst (emcsm_write_block_with_verify N d p b s)"
    and data: "np * page_size \<le> length data"
  shows "32 dvd w \<Longrightarrow> np \<le> 32 * length idx \<Longrightarrow> (np - w + 31) div 32 \<le> card (good_blocks N d bn) \<Longrightarrow>
    \<exists>d' idx'. write_chunks N data xid np d bn w idx = Some (0, d', idx')"
proof (induction "np - w" arbitrary: d bn w idx rule: less_induct)
  case less
  show ?case
  proof (cases "w < np")
    case False
    then show ?thesis by (simp add: write_chunks.simps [of N data xid np d bn w])
  next
    case True
    have "good_blocks N d bn \<noteq> {}" using less(4) chunk_count [OF True] by auto
    then obtain k where k: "bn \<le> k" "k < 48" "emcsm_is_bad_block N d (k * ppb) = 0"
      by (auto simp: good_blocks_def)
    obtain b where b: "next_good_block N d bn = Some b"
      using next_good_block_None [of N d bn k] k by (cases "next_good_block N d bn") auto
    let ?c = "ipl_chunk data xid np w [0..<ppb]"
    obtain r d1 where wr: "emcsm_write_block_with_verify N d (b * ppb) (fst ?c) (snd ?c) = (r, d1)"
      by fastforce
    have r: "\<not> r < 0" using nf [of d "b * ppb" "fst ?c" "snd ?c"] wr by simp
    have "good_blocks N d1 (b + 1) = good_blocks N d (b + 1)"
      using nand_write(3) [OF N wr] by (simp add: good_blocks_def)
    then have "(np - (w + ppb) + 31) div 32 \<le> card (good_blocks N d1 (b + 1))"
      using less(4) chunk_count [OF True] card_good_blocks_step [OF b] by (simp add: ppb_def)
    moreover have "np - (w + ppb) < np - w" "32 dvd w + ppb" using True less(2) by (auto simp: ppb_def)
    ultimately have "\<exists>d' idx'. write_chunks N data xid np d1 (b + 1) (w + ppb) (idx[w div 32 := of_nat b]) = Some (0, d', idx')"
      using less(1) [of "w + ppb" "idx[w div 32 := of_nat b]" d1 "b + 1"] less(3) by simp
    then show ?thesis using write_chunks_step [OF data True less(2,3) b wr] r by simp
  qed
qed

lemma write_ipl_succeeds:
  assumes N: "nand_ok N" and nf: "\<And>d p b s. 0 \<le> fst (emcsm_write_block_with_verify N d p b s)"
    and buf: "num_ipl_pages (unat len) * page_size \<le> length data"
    and len: "len \<noteq> 0" "unat len \<le> 32 * ppb * page_size"
    and good: "(num_ipl_pages (unat len) + 31) div 32 \<le> card (good_blocks N d 16)"
    and ix: "\<exists>b \<in> {4..<12}. emcsm_is_bad_block N d (b * ppb) = 0"
  shows "\<exists>d'. write_ipl N model d data len = Some (0, d')"
proof -
  let ?np = "num_ipl_pages (unat len)"
  have np: "?np \<le> 32 * length (replicate 32 (0::u16))" using num_ipl_pages_bounds(2) [OF len(2)] by simp
  obtain d1 idx where ch: "write_chunks N data (ipl_xor_id model) ?np d 16 0 (replicate 32 0) = Some (0, d1, idx)"
    using write_chunks_succeeds [OF N nf buf _ np] good by fastforce
  from write_chunks_ok [OF ch N buf _ np] obtain bs where "chunks_written N data (ipl_xor_id model) ?np d 16 0 d1 bs"
    by auto
  then have bad: "emcsm_is_bad_block N d1 q = emcsm_is_bad_block N d q" for q
    unfolding chunks_written_def by blast
  obtain wr d2 where wi: "write_index N (index_block idx) (index_spare (ipl_xor_id model)) d1 index_block_nums False = (wr, d2)"
    by fastforce
  have "set index_block_nums = {4..<12}" "distinct index_block_nums"
    by (simp_all only: index_block_nums_def set_upt distinct_upt)
  then have "wr" using write_index_spec [OF N wi] ix bad by auto
  then show ?thesis using ch wi len by (simp add: write_ipl_def)
qed

text \<open>A NAND that holds what was last written to each block, with a set of bad blocks.\<close>

definition mem_nand :: "(nat \<Rightarrow> bool) \<Rightarrow> (nat \<Rightarrow> nand_block) nand_ops" where
  "mem_nand bad = \<lparr>
     emcsm_erase_block = (\<lambda>d p. (0, d(p := (replicate (32 * 512) 0xFF, replicate 32 spare_ff)))),
     emcsm_is_bad_block = (\<lambda>d p. if bad p then 1 else 0),
     emcsm_write_block_with_verify = (\<lambda>d p b s. (0, d(p := (b, s)))),
     nand_page_data = (\<lambda>d. d)\<rparr>"

lemma mem_nand_ok: "nand_ok (mem_nand bad)"
  by (auto simp: nand_ok_def mem_nand_def)

lemma mem_nand_writes:
  assumes "\<not> bad (17 * 32)" "\<not> bad (4 * 32)" "0 < len" "unat len \<le> 512"
  shows "\<exists>d'. write_ipl (mem_nand bad) model d (replicate 512 7) len = Some (0, d')"
proof (rule write_ipl_succeeds [OF mem_nand_ok])
  let ?N = "mem_nand bad"
  have "unat len = 512 \<or> unat len mod 512 = unat len" "unat len \<noteq> 0"
    using assms(3,4) mod_less [of "unat len" 512] by (cases "unat len < 512"; auto simp: unat_eq_zero)+
  then have np: "num_ipl_pages (unat len) = 1" using assms(4) by (auto simp: num_ipl_pages_def page_size_def)
  then show "num_ipl_pages (unat len) * page_size \<le> length (replicate 512 7)" by (simp add: page_size_def)
  have "17 \<in> good_blocks ?N d 16" "finite (good_blocks ?N d 16)"
    using assms(1) by (auto simp: good_blocks_def mem_nand_def ppb_def)
  then show "(num_ipl_pages (unat len) + 31) div 32 \<le> card (good_blocks ?N d 16)"
    using np card_gt_0_iff [of "good_blocks ?N d 16"] by auto
  show "\<exists>b \<in> {4..<12}. emcsm_is_bad_block ?N d (b * ppb) = 0"
    using assms(2) by (intro bexI [of _ 4]) (simp_all add: mem_nand_def ppb_def)
qed (use assms in \<open>auto simp: mem_nand_def page_size_def ppb_def\<close>)

lemma clear_blocks_frame:
  "nand_ok N \<Longrightarrow> q \<notin> (\<lambda>b. b * 32) ` set bs \<Longrightarrow>
   nand_page_data N (clear_blocks N d bs) q = nand_page_data N d q"
proof (induction bs arbitrary: d)
  case Nil
  then show ?case by simp
next
  case (Cons b bs)
  then have "q \<noteq> b * 32" by auto
  then show ?case using Cons by (simp add: nand_ok_def)
qed

end
