(* ===== verification/Fdisk.thy ===== *)
theory Fdisk
  imports Prelude
begin

text \<open>
  external/lib/fdisk/fdisk.c: the partition table writer. A master boot record with one
  extended partition is written to sector 0, then one extended boot record per logical
  partition, each linking to the next one.

  \<^verbatim>\<open>size_t\<close> is 32 bits wide and its arithmetic wraps. The packed structures are records
  with their byte encoding. The flash translation layer (lflash) is not part of the
  repository: it is the record \<open>lflash_ops\<close>, with \<open>lflash_sector\<close> a ghost observation of a
  sector's contents.
\<close>

section \<open>Data\<close>

datatype FdiskResult = FDISK_RESULT_OK | FDISK_ERR_LBA_OUT_OF_CHS_RANGE | FDISK_ERR_WRITE

record CylinderHeadSector =
  cylinder :: u32
  head :: u32
  sector :: u32

record CylinderHeadSectorAddress =
  addr_h :: u8
  addr_cs :: u8
  addr_c8 :: u8

record PartitionEntry =
  boot_indicator :: u8
  chs_part_start :: CylinderHeadSectorAddress
  part_type :: u8
  chs_part_end :: CylinderHeadSectorAddress
  lba_part_start :: u32
  part_size :: u32

record BootRecord =
  unused :: bytes
  br_partitions :: "PartitionEntry list"
  signature :: u16

record Partition =
  sector_lba :: u32
  part_record :: BootRecord

record DiskGeometry =
  max_cylinders :: u32
  heads_per_cylinder :: u32
  sectors_per_track :: u32

record FdiskState =
  geometry :: DiskGeometry
  disk_size :: u32
  next_offset :: u32
  alignment :: u32
  ebr_base :: u32
  num_partitions :: u32
  fd_partitions :: "Partition list"

definition g_assumed_geometry :: DiskGeometry where
  "g_assumed_geometry = \<lparr>max_cylinders = 1023, heads_per_cylinder = 2, sectors_per_track = 32\<rparr>"

text \<open>Zeroed structures, as \<^verbatim>\<open>memset\<close> and \<^verbatim>\<open>calloc\<close> leave them.\<close>

definition zero_addr :: CylinderHeadSectorAddress where
  "zero_addr = \<lparr>addr_h = 0, addr_cs = 0, addr_c8 = 0\<rparr>"

definition zero_entry :: PartitionEntry where
  "zero_entry = \<lparr>boot_indicator = 0, chs_part_start = zero_addr, part_type = 0,
     chs_part_end = zero_addr, lba_part_start = 0, part_size = 0\<rparr>"

definition zero_record :: BootRecord where
  "zero_record = \<lparr>unused = replicate 0x1BE 0, br_partitions = replicate 4 zero_entry, signature = 0\<rparr>"

text \<open>The packed layouts.\<close>

definition addr_bytes :: "CylinderHeadSectorAddress \<Rightarrow> bytes" where
  "addr_bytes a = [addr_h a, addr_cs a, addr_c8 a]"

definition entry_bytes :: "PartitionEntry \<Rightarrow> bytes" where
  "entry_bytes e = [boot_indicator e] @ addr_bytes (chs_part_start e) @ [part_type e] @
     addr_bytes (chs_part_end e) @ to_le32 (lba_part_start e) @ to_le32 (part_size e)"

definition record_bytes :: "BootRecord \<Rightarrow> bytes" where
  "record_bytes r = unused r @ concat (map entry_bytes (br_partitions r)) @ to_le16 (signature r)"

section \<open>Operations\<close>

definition lba_to_chs :: "u32 \<Rightarrow> DiskGeometry \<Rightarrow> FdiskResult \<times> CylinderHeadSector option" where
  "lba_to_chs lba g =
     (let c = lba div (heads_per_cylinder g * sectors_per_track g);
          h = (lba div sectors_per_track g) mod heads_per_cylinder g;
          s = lba mod sectors_per_track g + 1
      in if c > max_cylinders g then (FDISK_ERR_LBA_OUT_OF_CHS_RANGE, None)
         else (FDISK_RESULT_OK, Some \<lparr>cylinder = c, head = h, sector = s\<rparr>))"

definition chs_to_chs_addr :: "CylinderHeadSector \<Rightarrow> CylinderHeadSectorAddress" where
  "chs_to_chs_addr chs = \<lparr>
     addr_h = ucast (head chs),
     addr_cs = ucast ((sector chs AND 0x3F) OR push_bit 6 (drop_bit 8 (cylinder chs) AND 0x3)),
     addr_c8 = ucast (cylinder chs AND 0xFF)\<rparr>"

definition chs_or_max :: "u32 \<Rightarrow> DiskGeometry \<Rightarrow> CylinderHeadSector" where
  "chs_or_max lba g = (case lba_to_chs lba g of
     (FDISK_RESULT_OK, Some chs) \<Rightarrow> chs
   | _ \<Rightarrow> \<lparr>cylinder = max_cylinders g, head = heads_per_cylinder g, sector = sectors_per_track g\<rparr>)"

text \<open>Both addresses are computed from the start of the partition, as in the source.\<close>

definition build_ebr_part_entry :: "PartitionEntry \<Rightarrow> u32 \<Rightarrow> u32 \<Rightarrow> u32 \<Rightarrow> u32 \<Rightarrow> DiskGeometry \<Rightarrow> PartitionEntry" where
  "build_ebr_part_entry pte ty lba base sz g =
     (let chs_start = chs_or_max lba g; chs_end = chs_or_max lba g in
      pte\<lparr>part_type := ucast ty,
          chs_part_start := chs_to_chs_addr chs_start,
          chs_part_end := chs_to_chs_addr chs_end,
          lba_part_start := lba - base,
          part_size := sz\<rparr>)"

definition align_next :: "FdiskState \<Rightarrow> u32 \<Rightarrow> FdiskState" where
  "align_next st sz =
     (let st1 = st\<lparr>next_offset := next_offset st + sz\<rparr>;
          remainder = next_offset st1 mod alignment st1
      in if remainder \<noteq> 0
         then st1\<lparr>next_offset := next_offset st1 + (alignment st1 - remainder)\<rparr> else st1)"

definition build_mbr :: "FdiskState \<Rightarrow> FdiskState \<times> BootRecord" where
  "build_mbr st =
     (let r0 = zero_record;
          e = build_ebr_part_entry (br_partitions r0 ! 0) 0xF 0x40 0 (disk_size st - 0x40) (geometry st);
          r = r0\<lparr>br_partitions := (br_partitions r0)[0 := e], signature := 0xAA55\<rparr>
      in (align_next st 0x40, r))"

text \<open>
  \<open>add_partition\<close> indexes the array of 16 partitions: beyond it the source writes out of
  bounds.
\<close>

definition link_previous :: "FdiskState \<Rightarrow> u32 \<Rightarrow> FdiskState" where
  "link_previous st sz =
     (let i = unat (num_partitions st) - 1; p = fd_partitions st ! i; r = part_record p;
          e = build_ebr_part_entry (br_partitions r ! 1) 0xF (next_offset st) (ebr_base st) sz (geometry st)
      in st\<lparr>fd_partitions := (fd_partitions st)[i := p\<lparr>part_record :=
            r\<lparr>br_partitions := (br_partitions r)[1 := e]\<rparr>\<rparr>]\<rparr>)"

definition add_partition :: "FdiskState \<Rightarrow> u32 \<Rightarrow> u32 \<Rightarrow> FdiskState option" where
  "add_partition st ty sz =
     (let i = unat (num_partitions st);
          st1 = (if num_partitions st = 0 then
                   let s = align_next st 0 in s\<lparr>ebr_base := next_offset s\<rparr>
                 else link_previous (align_next st 0) sz);
          e = build_ebr_part_entry (br_partitions zero_record ! 0) ty (alignment st1) 0
                (sz - alignment st1) (geometry st1);
          r = zero_record\<lparr>signature := 0xAA55, br_partitions := (br_partitions zero_record)[0 := e]\<rparr>
      in if i < length (fd_partitions st) then
           let st2 = st1\<lparr>fd_partitions := (fd_partitions st1)[i :=
                 \<lparr>sector_lba = next_offset st1, part_record = r\<rparr>]\<rparr>;
               st3 = align_next st2 sz
           in Some (st3\<lparr>num_partitions := num_partitions st3 + 1\<rparr>)
         else None)"

record 'dev lflash_ops =
  lflash_get_size :: "'dev \<Rightarrow> u32"
  lflash_write_sector :: "'dev \<Rightarrow> u32 \<Rightarrow> bytes \<Rightarrow> int \<times> 'dev"
  lflash_sync :: "'dev \<Rightarrow> 'dev"
  lflash_sector :: "'dev \<Rightarrow> u32 \<Rightarrow> bytes"

fun write_partitions :: "'dev lflash_ops \<Rightarrow> 'dev \<Rightarrow> Partition list \<Rightarrow> FdiskResult \<times> 'dev" where
  "write_partitions L d [] = (FDISK_RESULT_OK, d)"
| "write_partitions L d (p # ps) =
     (let (res, d1) = lflash_write_sector L d (sector_lba p) (record_bytes (part_record p)) in
      if res \<noteq> 0 then (FDISK_ERR_WRITE, d1) else write_partitions L d1 ps)"

definition initial_fdisk_state :: "u32 \<Rightarrow> FdiskState" where
  "initial_fdisk_state sz = \<lparr>geometry = g_assumed_geometry, disk_size = sz, next_offset = 0,
     alignment = 32, ebr_base = 0, num_partitions = 0,
     fd_partitions = replicate 16 \<lparr>sector_lba = 0, part_record = zero_record\<rparr>\<rparr>"

text \<open>A failed \<^verbatim>\<open>calloc\<close> is not checked in the source: the next store is through \<^verbatim>\<open>NULL\<close>.\<close>

definition fdisk :: "'dev lflash_ops \<Rightarrow> bool \<Rightarrow> 'dev \<Rightarrow> u32 \<Rightarrow> u32 \<Rightarrow> u32 \<Rightarrow> u32 \<Rightarrow> (FdiskResult \<times> 'dev) option" where
  "fdisk L calloc_ok d f0_size f1_size f2_size f3_size =
     (if \<not> calloc_ok then None
      else
        let (st0, mbr) = build_mbr (initial_fdisk_state (lflash_get_size L d));
            (res, d1) = lflash_write_sector L d 0 (record_bytes mbr)
        in if res \<noteq> 0 then Some (FDISK_ERR_WRITE, d1)
           else do {
             st1 \<leftarrow> add_partition st0 0xE f0_size;
             st2 \<leftarrow> add_partition st1 0xE f1_size;
             st3 \<leftarrow> add_partition st2 0xE f2_size;
             st4 \<leftarrow> add_partition st3 0xE f3_size;
             let (wres, d2) = write_partitions L d1 (take (unat (num_partitions st4)) (fd_partitions st4));
             Some (if wres \<noteq> FDISK_RESULT_OK then (wres, d2) else (FDISK_RESULT_OK, lflash_sync L d2))
           })"

section \<open>Addresses\<close>

text \<open>The block a CHS triple denotes, and the triple a packed address denotes.\<close>

definition chs_to_lba :: "CylinderHeadSector \<Rightarrow> DiskGeometry \<Rightarrow> nat" where
  "chs_to_lba chs g = (unat (cylinder chs) * unat (heads_per_cylinder g) + unat (head chs)) *
     unat (sectors_per_track g) + (unat (sector chs) - 1)"

definition addr_to_chs :: "CylinderHeadSectorAddress \<Rightarrow> CylinderHeadSector" where
  "addr_to_chs a = \<lparr>cylinder = ucast (addr_c8 a) OR push_bit 2 (ucast (addr_cs a) AND 0xC0),
     head = ucast (addr_h a), sector = ucast (addr_cs a) AND 0x3F\<rparr>"

lemma chs_to_lba_to_chs:
  assumes "lba_to_chs lba g = (FDISK_RESULT_OK, Some chs)"
    and g: "0 < sectors_per_track g"
      "unat (heads_per_cylinder g) * unat (sectors_per_track g) < 2 ^ 32"
      "unat (sectors_per_track g) < 2 ^ 32 - 1"
  shows "chs_to_lba chs g = unat lba"
    and "1 \<le> unat (sector chs) \<and> unat (sector chs) \<le> unat (sectors_per_track g)"
    and "cylinder chs \<le> max_cylinders g"
    and "0 < heads_per_cylinder g \<Longrightarrow> head chs < heads_per_cylinder g"
proof -
  let ?s = "unat (sectors_per_track g)" and ?h = "unat (heads_per_cylinder g)"
  have chs: "cylinder chs = lba div (heads_per_cylinder g * sectors_per_track g)"
      "head chs = (lba div sectors_per_track g) mod heads_per_cylinder g"
      "sector chs = lba mod sectors_per_track g + 1" "cylinder chs \<le> max_cylinders g"
    using assms(1) by (auto simp: lba_to_chs_def Let_def split: if_splits)
  have s0: "0 < ?s" using g(1) by (simp add: word_less_nat_alt)
  have "unat (heads_per_cylinder g * sectors_per_track g) = ?h * ?s"
    using g(2) by (simp add: unat_mult_lem [THEN iffD1])
  then have u: "unat (cylinder chs) = unat lba div ?s div ?h" "unat (head chs) = unat lba div ?s mod ?h"
    using chs(1,2) div_mult2_eq [of "unat lba" ?s ?h]
    by (simp_all add: unat_div_distrib unat_mod_distrib mult.commute)
  have "unat lba mod ?s + 1 < 2 ^ 32" using mod_less_divisor [OF s0, of "unat lba"] g(3) by simp
  then have us: "unat (sector chs) = unat lba mod ?s + 1"
    using chs by (simp add: unat_add_lem [THEN iffD1] unat_mod_distrib)
  show "chs_to_lba chs g = unat lba" by (simp add: chs_to_lba_def u us)
  show "1 \<le> unat (sector chs) \<and> unat (sector chs) \<le> ?s"
    using us mod_less_divisor [OF s0, of "unat lba"] by simp
  show "cylinder chs \<le> max_cylinders g" by (rule chs)
  show "0 < heads_per_cylinder g \<Longrightarrow> head chs < heads_per_cylinder g"
    using u by (simp add: word_less_nat_alt)
qed

lemma chs_masks:
  "(0xFF :: u32) = mask 8" "(0x3F :: u32) = mask 6" "(0x3 :: u32) = mask 2"
  "(0xC0 :: u32) = push_bit 6 (mask 2)"
  by (simp_all add: mask_eq_exp_minus_1 push_bit_eq_mult)

lemma unpack_cylinder:
  fixes c s :: u32
  assumes "unat c < 2 ^ 10"
  shows "ucast (ucast (c AND 0xFF) :: u8) OR push_bit 2
    (ucast (ucast ((s AND 0x3F) OR push_bit 6 (drop_bit 8 c AND 0x3)) :: u8) AND 0xC0) = c"
  unfolding chs_masks
proof (rule bit_word_eqI)
  fix n :: nat
  consider "n < 8" | "n = 8" | "n = 9" | "10 \<le> n" by linarith
  then show "bit (ucast (ucast (c AND mask 8) :: u8) OR push_bit 2 (ucast (ucast ((s AND mask 6)
      OR push_bit 6 (drop_bit 8 c AND mask 2)) :: u8) AND push_bit 6 (mask 2)) :: u32) n = bit c n"
    using bit_less_pow [OF assms, of n] by cases (auto simp: bit_simps)
qed

lemma unpack_sector:
  fixes c s :: u32
  assumes "unat s < 2 ^ 6"
  shows "ucast (ucast ((s AND 0x3F) OR push_bit 6 (drop_bit 8 c AND 0x3)) :: u8) AND 0x3F = s"
  unfolding chs_masks
proof (rule bit_word_eqI)
  fix n
  show "bit (ucast (ucast ((s AND mask 6) OR push_bit 6 (drop_bit 8 c AND mask 2)) :: u8) AND mask 6 :: u32) n = bit s n"
    using bit_less_pow [OF assms, of n] by (cases "n < 6") (auto simp: bit_simps)
qed

lemma addr_to_chs_roundtrip:
  assumes "head chs < 256" "cylinder chs < 1024" "sector chs < 64"
  shows "addr_to_chs (chs_to_chs_addr chs) = chs"
proof -
  have b: "unat (head chs) < 2 ^ 8" "unat (cylinder chs) < 2 ^ 10" "unat (sector chs) < 2 ^ 6"
    using assms by (simp_all add: word_less_nat_alt)
  have "ucast (ucast (head chs) :: u8) = head chs"
    by (rule bit_word_eqI) (use bit_less_pow [OF b(1)] in \<open>auto simp: bit_simps\<close>)
  then show ?thesis
    unfolding addr_to_chs_def chs_to_chs_addr_def CylinderHeadSectorAddress.simps
    by (subst unpack_cylinder [OF b(2)], subst unpack_sector [OF b(3)]) simp
qed

section \<open>Alignment\<close>

definition align_up :: "nat \<Rightarrow> nat" where
  "align_up n = (if n mod 32 = 0 then n else n + (32 - n mod 32))"

lemma align_up_bounds: "n \<le> align_up n" "align_up n < n + 32" "32 dvd align_up n"
proof -
  show "n \<le> align_up n" "align_up n < n + 32" by (auto simp: align_up_def)
  obtain q r where n: "n = 32 * q + r" "r < 32"
    using mult_div_mod_eq [of 32 n] mod_less_divisor [of 32 n] by (metis zero_less_numeral)
  then have "n + (32 - n mod 32) = 32 * (q + 1)" by simp
  then show "32 dvd align_up n" by (auto simp: align_up_def dvd_eq_mod_eq_0)
qed

lemma align_up_fixed: "32 dvd n \<Longrightarrow> align_up n = n"
  by (simp add: align_up_def dvd_eq_mod_eq_0)

lemma align_next_offset:
  assumes "alignment st = 32" "unat (next_offset st) + unat sz + 31 < 2 ^ 32"
  shows "unat (next_offset (align_next st sz)) = align_up (unat (next_offset st) + unat sz)"
    and "align_next st sz = st\<lparr>next_offset := next_offset (align_next st sz)\<rparr>"
proof -
  let ?n = "next_offset st + sz"
  have n: "unat ?n = unat (next_offset st) + unat sz"
    using assms(2) by (simp add: unat_add_lem [THEN iffD1])
  have r: "unat (?n mod 32) = unat ?n mod 32" by (simp add: unat_mod_distrib)
  have "?n mod 32 \<le> 32" by (simp add: word_le_nat_alt r)
  then have d: "unat (32 - ?n mod 32) = 32 - unat ?n mod 32" by (simp add: unat_sub r)
  have "unat (?n + (32 - ?n mod 32)) = unat ?n + (32 - unat ?n mod 32)" if "unat ?n mod 32 \<noteq> 0"
  proof -
    have "unat ?n + unat (32 - ?n mod 32) < 2 ^ 32" using assms(2) n d that by simp
    then show ?thesis using d by (simp add: unat_add_lem [THEN iffD1])
  qed
  moreover have "(?n mod 32 = 0) = (unat ?n mod 32 = 0)" using r by (simp add: unat_eq_zero [symmetric])
  ultimately show "unat (next_offset (align_next st sz)) = align_up (unat (next_offset st) + unat sz)"
    using assms(1) n by (simp add: align_next_def align_up_def Let_def)
  show "align_next st sz = st\<lparr>next_offset := next_offset (align_next st sz)\<rparr>"
    by (simp add: align_next_def Let_def)
qed

lemma align_next_aligned:
  assumes "alignment st = 32" "32 dvd unat (next_offset st)"
  shows "align_next st 0 = st"
proof -
  have "unat (next_offset st mod 32) = 0" using assms(2) by (simp add: unat_mod_distrib dvd_eq_mod_eq_0)
  then have "next_offset st mod 32 = 0" by (simp only: unat_eq_zero)
  then show ?thesis using assms(1) by (simp add: align_next_def Let_def)
qed

lemma align_next_simps [simp]:
  "geometry (align_next st sz) = geometry st" "alignment (align_next st sz) = alignment st"
  "ebr_base (align_next st sz) = ebr_base st" "num_partitions (align_next st sz) = num_partitions st"
  "fd_partitions (align_next st sz) = fd_partitions st"
  by (simp_all add: align_next_def Let_def)

lemma link_previous_simps [simp]:
  "geometry (link_previous st sz) = geometry st" "alignment (link_previous st sz) = alignment st"
  "next_offset (link_previous st sz) = next_offset st" "ebr_base (link_previous st sz) = ebr_base st"
  "num_partitions (link_previous st sz) = num_partitions st"
  "length (fd_partitions (link_previous st sz)) = length (fd_partitions st)"
  by (simp_all add: link_previous_def Let_def)

section \<open>The partition array as a chain\<close>

text \<open>
  The record of a logical partition of \<open>sz\<close> sectors whose successor is \<open>nxt\<close>, and the
  abstraction of the array of partitions to the list of its start sectors and sizes.
\<close>

definition ebr_record :: "u32 \<Rightarrow> u32 \<Rightarrow> (u32 \<times> u32) option \<Rightarrow> BootRecord" where
  "ebr_record base sz nxt = \<lparr>unused = replicate 0x1BE 0,
     br_partitions = [build_ebr_part_entry zero_entry 0xE 32 0 (sz - 32) g_assumed_geometry,
       (case nxt of None \<Rightarrow> zero_entry
        | Some (s, z) \<Rightarrow> build_ebr_part_entry zero_entry 0xF s base z g_assumed_geometry),
       zero_entry, zero_entry],
     signature = 0xAA55\<rparr>"

definition chain_next :: "(u32 \<times> u32) list \<Rightarrow> nat \<Rightarrow> (u32 \<times> u32) option" where
  "chain_next ps i = (if i + 1 < length ps then Some (ps ! (i + 1)) else None)"

definition represents :: "FdiskState \<Rightarrow> (u32 \<times> u32) list \<Rightarrow> bool" where
  "represents st ps \<longleftrightarrow> geometry st = g_assumed_geometry \<and> alignment st = 32 \<and>
     num_partitions st = of_nat (length ps) \<and> length (fd_partitions st) = 16 \<and> length ps \<le> 16 \<and>
     (ps \<noteq> [] \<longrightarrow> ebr_base st = fst (ps ! 0)) \<and>
     (\<forall>i < length ps. fd_partitions st ! i =
        \<lparr>sector_lba = fst (ps ! i), part_record = ebr_record (ebr_base st) (snd (ps ! i)) (chain_next ps i)\<rparr>)"

lemma zero_record_update:
  "zero_record\<lparr>signature := 0xAA55, br_partitions := (br_partitions zero_record)
     [0 := build_ebr_part_entry (br_partitions zero_record ! 0) 0xE 32 0 (sz - 32) g_assumed_geometry]\<rparr>
   = ebr_record base sz None"
  by (simp add: zero_record_def ebr_record_def numeral_eq_Suc)

lemma ebr_record_link:
  "(ebr_record base sz None)\<lparr>br_partitions := (br_partitions (ebr_record base sz None))
     [1 := build_ebr_part_entry (br_partitions (ebr_record base sz None) ! 1) 0xF s base z g_assumed_geometry]\<rparr>
   = ebr_record base sz (Some (s, z))"
  by (simp add: ebr_record_def)

lemma link_previous_nth:
  assumes "unat (num_partitions st) = Suc j" "j < length (fd_partitions st)" "geometry st = g_assumed_geometry"
    and "fd_partitions st ! j = \<lparr>sector_lba = a, part_record = ebr_record (ebr_base st) s None\<rparr>"
  shows "fd_partitions (link_previous st sz) ! i = (if i = j then
      \<lparr>sector_lba = a, part_record = ebr_record (ebr_base st) s (Some (next_offset st, sz))\<rparr>
    else fd_partitions st ! i)"
  using assms ebr_record_link [of "ebr_base st" s "next_offset st" sz]
  by (simp add: link_previous_def Let_def nth_list_update)

lemma chain_next_append:
  "i < length ps \<Longrightarrow> chain_next (ps @ [p]) i = (if i + 1 = length ps then Some p else chain_next ps i)"
  by (auto simp: chain_next_def nth_append)

lemma unat_of_nat_le16 [simp]: "n \<le> 16 \<Longrightarrow> unat (of_nat n :: u32) = n"
  by (rule unat_of_nat_small32) simp

lemma add_partition_represents:
  assumes R: "represents st ps" and l: "length ps < 16" and al: "32 dvd unat (next_offset st)"
    and ov: "unat (next_offset st) + unat sz + 31 < 2 ^ 32"
  obtains st' where "add_partition st 0xE sz = Some st'"
    "represents st' (ps @ [(next_offset st, sz)])"
    "unat (next_offset st') = align_up (unat (next_offset st) + unat sz)"
proof -
  have r: "geometry st = g_assumed_geometry" "alignment st = 32" "num_partitions st = of_nat (length ps)"
      "length (fd_partitions st) = 16" "ps \<noteq> [] \<Longrightarrow> ebr_base st = fst (ps ! 0)"
      "\<And>i. i < length ps \<Longrightarrow> fd_partitions st ! i =
        \<lparr>sector_lba = fst (ps ! i), part_record = ebr_record (ebr_base st) (snd (ps ! i)) (chain_next ps i)\<rparr>"
    using R by (auto simp: represents_def)
  have a0: "align_next st 0 = st" using align_next_aligned [OF r(2) al] .
  have n: "unat (num_partitions st) = length ps" using r(3) l by simp
  define st1 where "st1 = (if ps = [] then st\<lparr>ebr_base := next_offset st\<rparr> else link_previous st sz)"
  let ?new = "\<lparr>sector_lba = next_offset st, part_record = ebr_record (ebr_base st1) sz None\<rparr>"
  define st2 where "st2 = st1\<lparr>fd_partitions := (fd_partitions st1)[length ps := ?new]\<rparr>"
  have s1: "geometry st1 = g_assumed_geometry" "alignment st1 = 32" "next_offset st1 = next_offset st"
      "num_partitions st1 = num_partitions st" "length (fd_partitions st1) = 16"
      "ebr_base st1 = (if ps = [] then next_offset st else ebr_base st)"
    using r by (simp_all add: st1_def)
  have ps0: "(num_partitions st = 0) = (ps = [])" using n by (metis length_0_conv unat_eq_zero)
  have add: "add_partition st 0xE sz = Some ((align_next st2 sz)\<lparr>num_partitions := num_partitions (align_next st2 sz) + 1\<rparr>)"
  proof (cases "ps = []")
    case True
    then show ?thesis using l r(1,2,4) n ps0 a0 zero_record_update [of sz "next_offset st"]
      by (simp add: add_partition_def Let_def st2_def st1_def)
  next
    case False
    then show ?thesis using l r(1,2,4) n ps0 a0 zero_record_update [of sz "ebr_base st"]
      by (simp add: add_partition_def Let_def st2_def st1_def)
  qed
  have "alignment st2 = 32" "unat (next_offset st2) + unat sz + 31 < 2 ^ 32" "next_offset st2 = next_offset st"
    using s1 ov by (simp_all add: st2_def)
  note an = align_next_offset [OF this(1,2), unfolded this(3)]
  define st3 where "st3 = (align_next st2 sz)\<lparr>num_partitions := num_partitions (align_next st2 sz) + 1\<rparr>"
  have s3: "geometry st3 = g_assumed_geometry" "alignment st3 = 32" "num_partitions st3 = num_partitions st + 1"
      "fd_partitions st3 = (fd_partitions st1)[length ps := ?new]" "ebr_base st3 = ebr_base st1"
      "next_offset st3 = next_offset (align_next st2 sz)"
    using s1 by (simp_all add: st3_def st2_def)
  have fd: "fd_partitions st3 ! i = \<lparr>sector_lba = fst ((ps @ [(next_offset st, sz)]) ! i),
      part_record = ebr_record (ebr_base st3) (snd ((ps @ [(next_offset st, sz)]) ! i))
        (chain_next (ps @ [(next_offset st, sz)]) i)\<rparr>" if i: "i < Suc (length ps)" for i
  proof (cases "i = length ps")
    case True
    then show ?thesis using s1(5) s3 l by (simp add: chain_next_def)
  next
    case False
    then have i: "i < length ps" using that by simp
    then have "ps \<noteq> []" by auto
    then have "fd_partitions st1 ! i = (if i + 1 = length ps then
        \<lparr>sector_lba = fst (ps ! i), part_record = ebr_record (ebr_base st) (snd (ps ! i)) (Some (next_offset st, sz))\<rparr>
      else fd_partitions st ! i)"
    proof -
      have "fd_partitions st ! (length ps - 1) = \<lparr>sector_lba = fst (ps ! (length ps - 1)),
          part_record = ebr_record (ebr_base st) (snd (ps ! (length ps - 1))) None\<rparr>"
        using r(6) [of "length ps - 1"] i by (simp add: chain_next_def)
      from link_previous_nth [OF _ _ r(1) this, of sz i] show ?thesis
        using i n l r(4) by (auto simp: st1_def)
    qed
    then show ?thesis using False i r(6) [OF i] s3 s1 chain_next_append [OF i] \<open>ps \<noteq> []\<close>
      by (simp add: nth_append)
  qed
  have "represents st3 (ps @ [(next_offset st, sz)])"
    using s1 s3 r(3,5) l fd by (auto simp: represents_def nth_append)
  then show thesis using that [of st3] add an(1) s3(6) by (simp add: st3_def)
qed

section \<open>Reading a partition table\<close>

text \<open>
  What a reader of the table sees: the fields of entry \<open>i\<close> of a boot sector, and the list of
  logical partitions (first sector, number of sectors) found by following the links of the
  extended boot records from the extended partition of the master boot record. \<open>n\<close> bounds the
  number of records followed.
\<close>

definition sector_entry :: "bytes \<Rightarrow> nat \<Rightarrow> (u8 \<times> u32 \<times> u32) option" where
  "sector_entry b i =
     do {
       ty \<leftarrow> mem_read b (0x1BE + 16 * i + 4) 1;
       start \<leftarrow> read_u32 b (0x1BE + 16 * i + 8);
       count \<leftarrow> read_u32 b (0x1BE + 16 * i + 12);
       sig \<leftarrow> Option.bind (mem_read b 510 2) le16;
       (if sig = 0xAA55 then Some (hd ty, start, count) else None)
     }"

fun read_logical :: "(u32 \<Rightarrow> bytes) \<Rightarrow> nat \<Rightarrow> u32 \<Rightarrow> u32 \<Rightarrow> (u32 \<times> u32) list option" where
  "read_logical S 0 base lba = None"
| "read_logical S (Suc n) base lba =
     do {
       (ty, start, count) \<leftarrow> sector_entry (S lba) 0;
       (ty1, link, _) \<leftarrow> sector_entry (S lba) 1;
       (if ty1 = 0xF then
          do { rest \<leftarrow> read_logical S n base (base + link); Some ((lba + start, count) # rest) }
        else Some [(lba + start, count)])
     }"

definition read_table :: "(u32 \<Rightarrow> bytes) \<Rightarrow> nat \<Rightarrow> (u32 \<times> u32) list option" where
  "read_table S n =
     do {
       (ty, base, _) \<leftarrow> sector_entry (S 0) 0;
       (if ty = 0xF then read_logical S n base base else None)
     }"

lemma length_entry_bytes [simp]: "length (entry_bytes e) = 16"
  by (simp add: entry_bytes_def addr_bytes_def)

lemma mem_read_skip: "off = length a + k \<Longrightarrow> mem_read (a @ b) off n = mem_read b k n"
  by (simp add: mem_read_def)

lemma mem_read_entry:
  "mem_read (entry_bytes e @ b) 4 1 = Some [part_type e]"
  "Option.bind (mem_read (entry_bytes e @ b) 8 4) le32 = Some (lba_part_start e)"
  "Option.bind (mem_read (entry_bytes e @ b) 12 4) le32 = Some (part_size e)"
  using le32_to_le32 by (simp_all add: mem_read_def entry_bytes_def addr_bytes_def)

lemma sector_entry_record:
  assumes "length (unused r) = 0x1BE" "br_partitions r = [e0, e1, e2, e3]" "signature r = 0xAA55"
  shows "sector_entry (record_bytes r) 0 = Some (part_type e0, lba_part_start e0, part_size e0)"
    and "sector_entry (record_bytes r) 1 = Some (part_type e1, lba_part_start e1, part_size e1)"
proof -
  let ?b = "record_bytes r"
  have b: "?b = unused r @ entry_bytes e0 @ entry_bytes e1 @ entry_bytes e2 @ entry_bytes e3 @ to_le16 0xAA55"
    using assms(2,3) by (simp add: record_bytes_def)
  have sig: "mem_read ?b 510 2 = Some (to_le16 0xAA55)"
    unfolding b using assms(1) by (simp add: mem_read_def)
  have 0: "mem_read ?b (0x1BE + 16 * 0 + k) n = mem_read (entry_bytes e0 @ entry_bytes e1 @ entry_bytes e2 @
      entry_bytes e3 @ to_le16 0xAA55) k n" for k n
    unfolding b using assms(1) by (intro mem_read_skip) simp
  have 1: "mem_read ?b (0x1BE + 16 * 1 + k) n = mem_read (entry_bytes e1 @ entry_bytes e2 @
      entry_bytes e3 @ to_le16 0xAA55) k n" for k n
    unfolding b append_assoc [of "unused r" "entry_bytes e0", symmetric]
    using assms(1) by (intro mem_read_skip) simp
  show "sector_entry ?b 0 = Some (part_type e0, lba_part_start e0, part_size e0)"
    unfolding sector_entry_def read_u32_def sig 0 mem_read_entry by (simp add: le16_to_le16)
  show "sector_entry ?b 1 = Some (part_type e1, lba_part_start e1, part_size e1)"
    unfolding sector_entry_def read_u32_def sig 1 mem_read_entry by (simp add: le16_to_le16)
qed

lemma build_ebr_part_entry_fields [simp]:
  "part_type (build_ebr_part_entry pte ty lba base sz g) = ucast ty"
  "lba_part_start (build_ebr_part_entry pte ty lba base sz g) = lba - base"
  "part_size (build_ebr_part_entry pte ty lba base sz g) = sz"
  by (simp_all add: build_ebr_part_entry_def Let_def)

lemma ebr_record_fields:
  "length (unused (ebr_record base sz nxt)) = 0x1BE" "signature (ebr_record base sz nxt) = 0xAA55"
  "br_partitions (ebr_record base sz nxt) =
     [build_ebr_part_entry zero_entry 0xE 32 0 (sz - 32) g_assumed_geometry,
      (case nxt of None \<Rightarrow> zero_entry
        | Some (s, z) \<Rightarrow> build_ebr_part_entry zero_entry 0xF s base z g_assumed_geometry),
      zero_entry, zero_entry]"
  by (simp_all add: ebr_record_def)

lemma sector_entry_ebr:
  "sector_entry (record_bytes (ebr_record base sz nxt)) 0 = Some (0xE, 32, sz - 32)"
  "sector_entry (record_bytes (ebr_record base sz nxt)) (Suc 0) =
     Some (case nxt of None \<Rightarrow> (0, 0, 0) | Some (s, z) \<Rightarrow> (0xF, s - base, z))"
  using sector_entry_record [OF ebr_record_fields(1,3,2), of base sz nxt]
  by (auto simp: zero_entry_def split: option.split)

text \<open>The sectors of a chain read back as the partitions.\<close>

lemma read_logical_chain:
  assumes "\<And>i. i < length ps \<Longrightarrow> S (fst (ps ! i)) = record_bytes (ebr_record base (snd (ps ! i)) (chain_next ps i))"
  shows "k < length ps \<Longrightarrow> length ps - k \<le> n \<Longrightarrow>
    read_logical S n base (fst (ps ! k)) = Some (map (\<lambda>(s, z). (s + 32, z - 32)) (drop k ps))"
proof (induction n arbitrary: k)
  case 0
  then show ?case by simp
next
  case (Suc n)
  have d: "drop k ps = ps ! k # drop (Suc k) ps" using Suc.prems(1) by (simp add: Cons_nth_drop_Suc)
  show ?case
  proof (cases "Suc k < length ps")
    case True
    then have "read_logical S n base (fst (ps ! Suc k)) = Some (map (\<lambda>(s, z). (s + 32, z - 32)) (drop (Suc k) ps))"
      using Suc by simp
    then show ?thesis using True Suc.prems(1) assms [of k] d
      by (cases "ps ! Suc k") (simp add: sector_entry_ebr chain_next_def case_prod_beta)
  next
    case False
    then show ?thesis using Suc.prems(1) assms [of k] d
      by (simp add: sector_entry_ebr chain_next_def case_prod_beta)
  qed
qed

section \<open>The table on the flash\<close>

definition lflash_ok :: "'dev lflash_ops \<Rightarrow> bool" where
  "lflash_ok L \<longleftrightarrow>
     (\<forall>d lba b d'. lflash_write_sector L d lba b = (0, d') \<longrightarrow>
        (\<forall>q. lflash_sector L d' q = (if q = lba then b else lflash_sector L d q))) \<and>
     (\<forall>d q. lflash_sector L (lflash_sync L d) q = lflash_sector L d q)"

lemma write_partitions_sectors:
  "lflash_ok L \<Longrightarrow> write_partitions L d ps = (FDISK_RESULT_OK, d') \<Longrightarrow> distinct (map sector_lba ps) \<Longrightarrow>
   (\<forall>p \<in> set ps. lflash_sector L d' (sector_lba p) = record_bytes (part_record p)) \<and>
   (\<forall>q. q \<notin> sector_lba ` set ps \<longrightarrow> lflash_sector L d' q = lflash_sector L d q)"
proof (induction ps arbitrary: d)
  case Nil
  then show ?case by simp
next
  case (Cons p ps)
  from Cons.prems(2) obtain d1 where
      w: "lflash_write_sector L d (sector_lba p) (record_bytes (part_record p)) = (0, d1)" and
      rec: "write_partitions L d1 ps = (FDISK_RESULT_OK, d')"
    by (auto split: prod.splits if_splits)
  have s: "lflash_sector L d1 q = (if q = sector_lba p then record_bytes (part_record p) else lflash_sector L d q)" for q
    using Cons.prems(1) w by (simp add: lflash_ok_def)
  note IH = Cons.IH [OF Cons.prems(1) rec]
  have nin: "sector_lba p \<notin> sector_lba ` set ps" using Cons.prems(3) by simp
  have "lflash_sector L d' (sector_lba p) = record_bytes (part_record p)"
    using IH Cons.prems(3) nin s [of "sector_lba p"] by simp
  moreover have "lflash_sector L d' q = lflash_sector L d q" if "q \<notin> sector_lba ` set (p # ps)" for q
    using IH Cons.prems(3) s [of q] that by simp
  ultimately show ?case using IH Cons.prems(3) by simp
qed

text \<open>Where the partitions go: one after the other from sector 64 on, each start aligned.\<close>

fun layout :: "nat \<Rightarrow> nat list \<Rightarrow> nat list" where
  "layout off [] = []"
| "layout off (z # zs) = off # layout (align_up (off + z)) zs"

definition fdisk_fits :: "nat list \<Rightarrow> bool" where
  "fdisk_fits zs \<longleftrightarrow> (\<forall>z \<in> set zs. 0 < z) \<and> 64 + sum_list (map (\<lambda>z. z + 31) zs) < 2 ^ 32"

lemma build_mbr_state:
  "represents (fst (build_mbr (initial_fdisk_state n))) []"
  "unat (next_offset (fst (build_mbr (initial_fdisk_state n)))) = 64"
proof -
  have "next_offset (align_next (initial_fdisk_state n) 0x40) = 0x40"
    by (simp add: align_next_def initial_fdisk_state_def Let_def)
  then show "unat (next_offset (fst (build_mbr (initial_fdisk_state n)))) = 64"
    by (simp add: build_mbr_def Let_def)
  show "represents (fst (build_mbr (initial_fdisk_state n))) []"
    by (simp add: represents_def build_mbr_def Let_def) (simp add: initial_fdisk_state_def)
qed

lemma build_mbr_sector:
  "sector_entry (record_bytes (snd (build_mbr (initial_fdisk_state n)))) 0 = Some (0xF, 0x40, n - 0x40)"
proof -
  let ?e = "build_ebr_part_entry zero_entry 0xF 0x40 0 (n - 0x40) g_assumed_geometry"
  have "snd (build_mbr (initial_fdisk_state n)) = \<lparr>unused = replicate 0x1BE 0,
      br_partitions = [?e, zero_entry, zero_entry, zero_entry], signature = 0xAA55\<rparr>"
    by (simp add: build_mbr_def Let_def zero_record_def initial_fdisk_state_def numeral_eq_Suc)
  then have "length (unused (snd (build_mbr (initial_fdisk_state n)))) = 0x1BE"
      "br_partitions (snd (build_mbr (initial_fdisk_state n))) = [?e, zero_entry, zero_entry, zero_entry]"
      "signature (snd (build_mbr (initial_fdisk_state n))) = 0xAA55"
    by simp_all
  from sector_entry_record(1) [OF this] show ?thesis by simp
qed

text \<open>The four calls of \<open>add_partition\<close> lay the partitions out.\<close>

lemma add_partitions_layout:
  fixes f0 f1 f2 f3 :: u32
  assumes fit: "fdisk_fits (map unat [f0, f1, f2, f3])"
    and r0: "represents st0 []" "unat (next_offset st0) = 64"
  obtains st1 st2 st3 st4 ps where "add_partition st0 0xE f0 = Some st1" "add_partition st1 0xE f1 = Some st2"
    "add_partition st2 0xE f2 = Some st3" "add_partition st3 0xE f3 = Some st4"
    "represents st4 ps" "map snd ps = [f0, f1, f2, f3]"
    "map (unat \<circ> fst) ps = layout 64 (map unat [f0, f1, f2, f3])"
proof -
  let ?o1 = "align_up (64 + unat f0)" let ?o2 = "align_up (?o1 + unat f1)" let ?o3 = "align_up (?o2 + unat f2)"
  have ov: "64 + unat f0 + 31 < 2 ^ 32" "?o1 + unat f1 + 31 < 2 ^ 32" "?o2 + unat f2 + 31 < 2 ^ 32"
      "?o3 + unat f3 + 31 < 2 ^ 32"
    using fit align_up_bounds(2) [of "64 + unat f0"] align_up_bounds(2) [of "?o1 + unat f1"]
      align_up_bounds(2) [of "?o2 + unat f2"] by (simp_all add: fdisk_fits_def)
  obtain st1 where 1: "add_partition st0 0xE f0 = Some st1" "represents st1 [(next_offset st0, f0)]"
      "unat (next_offset st1) = ?o1"
    by (rule add_partition_represents [OF r0(1), of f0]) (use ov r0(2) in simp_all)
  obtain st2 where 2: "add_partition st1 0xE f1 = Some st2"
      "represents st2 [(next_offset st0, f0), (next_offset st1, f1)]" "unat (next_offset st2) = ?o2"
    by (rule add_partition_represents [OF 1(2), of f1]) (use ov 1(3) align_up_bounds(3) in simp_all)
  obtain st3 where 3: "add_partition st2 0xE f2 = Some st3"
      "represents st3 [(next_offset st0, f0), (next_offset st1, f1), (next_offset st2, f2)]"
      "unat (next_offset st3) = ?o3"
    by (rule add_partition_represents [OF 2(2), of f2]) (use ov 2(3) align_up_bounds(3) in simp_all)
  obtain st4 where 4: "add_partition st3 0xE f3 = Some st4" "represents st4 [(next_offset st0, f0),
      (next_offset st1, f1), (next_offset st2, f2), (next_offset st3, f3)]"
    by (rule add_partition_represents [OF 3(2), of f3]) (use ov 3(3) align_up_bounds(3) in simp_all)
  show thesis by (rule that [OF 1(1) 2(1) 3(1) 4]) (use r0(2) 1(3) 2(3) 3(3) in simp_all)
qed

lemma layout_ge: "n \<in> set (layout off zs) \<Longrightarrow> off \<le> n"
proof (induction zs arbitrary: off)
  case Nil
  then show ?case by simp
next
  case (Cons z zs)
  then show ?case using align_up_bounds(1) [of "off + z"] by fastforce
qed

lemma layout_distinct: "\<forall>z \<in> set zs. 0 < z \<Longrightarrow> distinct (layout off zs)"
proof (induction zs arbitrary: off)
  case Nil
  then show ?case by simp
next
  case (Cons z zs)
  have "off < align_up (off + z)" using Cons.prems align_up_bounds(1) [of "off + z"] by simp
  then show ?case using Cons layout_ge [of off "align_up (off + z)" zs] by auto
qed

lemma length_layout [simp]: "length (layout off zs) = length zs"
  by (induction zs arbitrary: off) simp_all

text \<open>Consecutive partitions do not overlap and starts are block aligned.\<close>

lemma layout_disjoint:
  "Suc i < length zs \<Longrightarrow> layout off zs ! i + zs ! i \<le> layout off zs ! Suc i"
proof (induction zs arbitrary: off i)
  case Nil
  then show ?case by simp
next
  case (Cons z zs)
  show ?case
  proof (cases i)
    case 0
    then show ?thesis using Cons.prems align_up_bounds(1) [of "off + z"] by (cases zs) simp_all
  next
    case (Suc j)
    then show ?thesis using Cons by simp
  qed
qed

lemma layout_fits:
  "i < length zs \<Longrightarrow> layout off zs ! i + zs ! i \<le> off + sum_list (map (\<lambda>z. z + 31) zs)"
proof (induction zs arbitrary: off i)
  case Nil
  then show ?case by simp
next
  case (Cons z zs)
  show ?case
  proof (cases i)
    case 0
    then show ?thesis by simp
  next
    case (Suc j)
    then show ?thesis using Cons.IH [of j "align_up (off + z)"] Cons.prems align_up_bounds(2) [of "off + z"] by simp
  qed
qed

lemma layout_aligned: "32 dvd off \<Longrightarrow> n \<in> set (layout off zs) \<Longrightarrow> 32 dvd n"
proof (induction zs arbitrary: off)
  case Nil
  then show ?case by simp
next
  case (Cons z zs)
  then show ?case using align_up_bounds(3) by auto
qed

lemma fdisk_table:
  assumes L: "lflash_ok L" and fit: "fdisk_fits (map unat [f0, f1, f2, f3])"
    and ok: "fdisk L True d f0 f1 f2 f3 = Some (FDISK_RESULT_OK, d')"
  shows "\<exists>ps. map snd ps = [f0, f1, f2, f3] \<and> map (unat \<circ> fst) ps = layout 64 (map unat [f0, f1, f2, f3]) \<and>
    read_table (lflash_sector L d') 4 = Some (map (\<lambda>(s, z). (s + 32, z - 32)) ps) \<and>
    (\<forall>q. q \<notin> insert 0 (fst ` set ps) \<longrightarrow> lflash_sector L d' q = lflash_sector L d q)"
proof -
  let ?m = "build_mbr (initial_fdisk_state (lflash_get_size L d))"
  obtain st1 st2 st3 st4 ps where add: "add_partition (fst ?m) 0xE f0 = Some st1" "add_partition st1 0xE f1 = Some st2"
      "add_partition st2 0xE f2 = Some st3" "add_partition st3 0xE f3 = Some st4"
    and R: "represents st4 ps" and ps: "map snd ps = [f0, f1, f2, f3]"
      "map (unat \<circ> fst) ps = layout 64 (map unat [f0, f1, f2, f3])"
    using add_partitions_layout [OF fit build_mbr_state] .
  have len: "length ps = 4" using arg_cong [OF ps(1), of length] by simp
  have n4: "unat (num_partitions st4) = 4" using R len by (simp add: represents_def)
  obtain d1 d2 where w0: "lflash_write_sector L d 0 (record_bytes (snd ?m)) = (0, d1)" and
      wp: "write_partitions L d1 (take 4 (fd_partitions st4)) = (FDISK_RESULT_OK, d2)" and
      d': "d' = lflash_sync L d2"
    using ok add n4 by (auto simp: fdisk_def case_prod_beta Let_def prod_eq_iff split: if_splits)
  let ?P = "take 4 (fd_partitions st4)"
  have pi: "?P ! i = \<lparr>sector_lba = fst (ps ! i),
      part_record = ebr_record (ebr_base st4) (snd (ps ! i)) (chain_next ps i)\<rparr>" if "i < 4" for i
    using R that len by (simp add: represents_def)
  have lP: "length ?P = 4" using R by (simp add: represents_def)
  have lbas: "map sector_lba ?P = map fst ps"
    using lP len pi by (intro nth_equalityI) simp_all
  have dl: "distinct (layout 64 (map unat [f0, f1, f2, f3]))"
    using fit by (intro layout_distinct) (simp add: fdisk_fits_def)
  have dist: "distinct (map fst ps)"
  proof -
    have "distinct (map unat (map fst ps))" using dl ps(2) by simp
    then show ?thesis by (simp only: distinct_map [of unat])
  qed
  have nz: "0 \<notin> fst ` set ps"
  proof
    assume "0 \<in> fst ` set ps"
    then have "unat 0 \<in> set (map (unat \<circ> fst) ps)" by force
    then show False using layout_ge [of "unat 0" 64] unfolding ps(2) by fastforce
  qed
  note W = write_partitions_sectors [OF L wp, unfolded lbas, OF dist]
  have img: "sector_lba ` set ?P = fst ` set ps" using arg_cong [OF lbas, of set] by simp
  have sec: "lflash_sector L d' q = lflash_sector L d2 q" for q using L d' by (simp add: lflash_ok_def)
  have chain: "lflash_sector L d' (fst (ps ! i)) = record_bytes (ebr_record (ebr_base st4) (snd (ps ! i)) (chain_next ps i))"
    if "i < length ps" for i
  proof -
    have "?P ! i \<in> set ?P" using that lP len by (intro nth_mem) simp
    then show ?thesis using W pi [of i] that len sec by auto
  qed
  have s1: "lflash_sector L d1 q = (if q = 0 then record_bytes (snd ?m) else lflash_sector L d q)" for q
    using L w0 by (simp add: lflash_ok_def)
  have other: "lflash_sector L d' q = lflash_sector L d1 q" if "q \<notin> fst ` set ps" for q
    using W sec that img by simp
  have base: "ebr_base st4 = fst (ps ! 0)" "fst (ps ! 0) = 0x40"
  proof -
    show "ebr_base st4 = fst (ps ! 0)" using R len by (auto simp: represents_def)
    have "unat (fst (ps ! 0)) = 64" using arg_cong [OF ps(2), of "\<lambda>l. l ! 0"] len by simp
    then show "fst (ps ! 0) = 0x40" by (simp add: word_unat_eq_iff)
  qed
  have "read_logical (lflash_sector L d') 4 (ebr_base st4) (fst (ps ! 0)) = Some (map (\<lambda>(s, z). (s + 32, z - 32)) ps)"
    using read_logical_chain [of ps "lflash_sector L d'" "ebr_base st4" 0 4] chain len by simp
  then have "read_table (lflash_sector L d') 4 = Some (map (\<lambda>(s, z). (s + 32, z - 32)) ps)"
    using other [OF nz] s1 [of 0] base build_mbr_sector by (simp add: read_table_def)
  moreover have "\<forall>q. q \<notin> insert 0 (fst ` set ps) \<longrightarrow> lflash_sector L d' q = lflash_sector L d q"
    using other s1 by simp
  ultimately show ?thesis by (intro exI [of _ ps] conjI ps)
qed

text \<open>A memory-backed flash, and its contract.\<close>

definition mem_lflash :: "u32 \<Rightarrow> (u32 \<Rightarrow> bytes) lflash_ops" where
  "mem_lflash n = \<lparr>lflash_get_size = (\<lambda>_. n), lflash_write_sector = (\<lambda>d lba b. (0, d(lba := b))),
     lflash_sync = (\<lambda>d. d), lflash_sector = (\<lambda>d. d)\<rparr>"

lemma mem_lflash_ok: "lflash_ok (mem_lflash n)"
  by (auto simp: lflash_ok_def mem_lflash_def)

lemma write_partitions_returns:
  "(\<And>d q b. fst (lflash_write_sector L d q b) = 0) \<Longrightarrow> fst (write_partitions L d ps) = FDISK_RESULT_OK"
  by (induction ps arbitrary: d) (simp_all add: case_prod_beta)

lemma fdisk_succeeds:
  assumes fit: "fdisk_fits (map unat [f0, f1, f2, f3])"
    and nf: "\<And>d q b. fst (lflash_write_sector L d q b) = 0"
  shows "\<exists>d'. fdisk L True d f0 f1 f2 f3 = Some (FDISK_RESULT_OK, d')"
proof -
  let ?m = "build_mbr (initial_fdisk_state (lflash_get_size L d))"
  obtain st1 st2 st3 st4 ps where "add_partition (fst ?m) 0xE f0 = Some st1" "add_partition st1 0xE f1 = Some st2"
      "add_partition st2 0xE f2 = Some st3" "add_partition st3 0xE f3 = Some st4"
    using add_partitions_layout [OF fit build_mbr_state] .
  then show ?thesis using nf write_partitions_returns [of L, OF nf]
    by (simp add: fdisk_def case_prod_beta Let_def)
qed

end
