(* ===== verification/Qsort.thy ===== *)
theory Qsort
  imports Cstring "HOL-Library.Multiset"
begin

text \<open>
  lib/libc/qsort.c: the quicksort of Bentley and McIlroy that orders the directory list. The
  array is a list of its elements and a pointer is the index of the element it points to;
  \<open>pc\<close> is held one higher (\<open>e = pc + 1\<close>), because it can step to the element before
  \<open>pb\<close>. Every write to the array is a swap.

  The locale \<open>comparator\<close> states what qsort asks of its comparison function; under it the
  result is sorted. The comparison the application passes is \<^verbatim>\<open>strcmp\<close>, which orders
  strings of 7-bit characters.
\<close>

section \<open>The program\<close>

definition swap_at :: "'a list \<Rightarrow> nat \<Rightarrow> nat \<Rightarrow> 'a list" where
  "swap_at xs i j = xs[i := xs ! j, j := xs ! i]"

text \<open>The inner loop of the insertion sort, and the whole of it.\<close>

fun sift :: "('a \<Rightarrow> 'a \<Rightarrow> int) \<Rightarrow> 'a list \<Rightarrow> nat \<Rightarrow> 'a list" where
  "sift cmp xs 0 = xs"
| "sift cmp xs (Suc l) = (if cmp (xs ! l) (xs ! Suc l) > 0 then sift cmp (swap_at xs (Suc l) l) l else xs)"

definition insertion_sort :: "('a \<Rightarrow> 'a \<Rightarrow> int) \<Rightarrow> 'a list \<Rightarrow> 'a list" where
  "insertion_sort cmp xs = fold (\<lambda>pm ys. sift cmp ys pm) [1..<length xs] xs"

definition med3 :: "('a \<Rightarrow> 'a \<Rightarrow> int) \<Rightarrow> 'a list \<Rightarrow> nat \<Rightarrow> nat \<Rightarrow> nat \<Rightarrow> nat" where
  "med3 cmp xs a b c =
     (if cmp (xs ! a) (xs ! b) < 0
      then (if cmp (xs ! b) (xs ! c) < 0 then b else if cmp (xs ! a) (xs ! c) < 0 then c else a)
      else (if cmp (xs ! b) (xs ! c) > 0 then b else if cmp (xs ! a) (xs ! c) < 0 then a else c))"

definition choose_pivot :: "('a \<Rightarrow> 'a \<Rightarrow> int) \<Rightarrow> 'a list \<Rightarrow> nat" where
  "choose_pivot cmp xs =
     (let n = length xs; pm = n div 2 in
      if n > 7 then
        (let pl = 0; pn = n - 1; d = n div 8 in
         if n > 40 then
           med3 cmp xs (med3 cmp xs pl (pl + d) (pl + 2 * d)) (med3 cmp xs (pm - d) pm (pm + d))
             (med3 cmp xs (pn - 2 * d) (pn - d) pn)
         else med3 cmp xs pl pm pn)
      else pm)"

text \<open>The two inner loops of the partition, with the pivot at index 0.\<close>

function scan_up :: "('a \<Rightarrow> 'a \<Rightarrow> int) \<Rightarrow> 'a list \<Rightarrow> nat \<Rightarrow> nat \<Rightarrow> nat \<Rightarrow> bool \<Rightarrow> 'a list \<times> nat \<times> nat \<times> bool" where
  "scan_up cmp xs pa pb e sw =
     (if pb < e \<and> cmp (xs ! pb) (xs ! 0) \<le> 0 then
        (if cmp (xs ! pb) (xs ! 0) = 0 then scan_up cmp (swap_at xs pa pb) (pa + 1) (pb + 1) e True
         else scan_up cmp xs pa (pb + 1) e sw)
      else (xs, pa, pb, sw))"
  by pat_completeness auto
termination by (relation "measure (\<lambda>(cmp, xs, pa, pb, e, sw). e - pb)") auto

function scan_down :: "('a \<Rightarrow> 'a \<Rightarrow> int) \<Rightarrow> 'a list \<Rightarrow> nat \<Rightarrow> nat \<Rightarrow> nat \<Rightarrow> bool \<Rightarrow> 'a list \<times> nat \<times> nat \<times> bool" where
  "scan_down cmp xs pb e pd sw =
     (if pb < e \<and> cmp (xs ! (e - 1)) (xs ! 0) \<ge> 0 then
        (if cmp (xs ! (e - 1)) (xs ! 0) = 0 then scan_down cmp (swap_at xs (e - 1) pd) pb (e - 1) (pd - 1) True
         else scan_down cmp xs pb (e - 1) pd sw)
      else (xs, e, pd, sw))"
  by pat_completeness auto
termination by (relation "measure (\<lambda>(cmp, xs, pb, e, pd, sw). e - pb)") auto

declare scan_up.simps [simp del] scan_down.simps [simp del]

lemma scan_up_ge: "scan_up cmp xs pa pb e sw = (ys, pa', pb', sw') \<Longrightarrow> pb \<le> pb'"
proof (induction cmp xs pa pb e sw rule: scan_up.induct)
  case (1 cmp xs pa pb e sw)
  then show ?case by (subst (asm) (3) scan_up.simps) (fastforce split: if_splits)
qed

lemma scan_down_le: "scan_down cmp xs pb e pd sw = (ys, e', pd', sw') \<Longrightarrow> e' \<le> e"
proof (induction cmp xs pb e pd sw rule: scan_down.induct)
  case (1 cmp xs pb e pd sw)
  then show ?case by (subst (asm) (3) scan_down.simps) (fastforce split: if_splits)
qed

function partition_loop :: "('a \<Rightarrow> 'a \<Rightarrow> int) \<Rightarrow> 'a list \<Rightarrow> nat \<Rightarrow> nat \<Rightarrow> nat \<Rightarrow> nat \<Rightarrow> bool \<Rightarrow>
    'a list \<times> nat \<times> nat \<times> nat \<times> bool" where
  "partition_loop cmp xs pa pb e pd sw =
     (case scan_up cmp xs pa pb e sw of (xs1, pa1, pb1, sw1) \<Rightarrow>
      case scan_down cmp xs1 pb1 e pd sw1 of (xs2, e2, pd2, sw2) \<Rightarrow>
      if pb1 \<ge> e2 then (xs2, pa1, pb1, pd2, sw2)
      else partition_loop cmp (swap_at xs2 pb1 (e2 - 1)) pa1 (pb1 + 1) (e2 - 1) pd2 True)"
  by pat_completeness auto
termination
  by (relation "measure (\<lambda>(cmp, xs, pa, pb, e, pd, sw). e - pb)")
     (auto dest!: scan_up_ge [OF sym] scan_down_le [OF sym])

declare partition_loop.simps [simp del]

text \<open>\<^verbatim>\<open>vecswap\<close>: exchange two blocks of \<open>r\<close> elements.\<close>

fun vecswap :: "'a list \<Rightarrow> nat \<Rightarrow> nat \<Rightarrow> nat \<Rightarrow> 'a list" where
  "vecswap xs i j 0 = xs"
| "vecswap xs i j (Suc r) = vecswap (swap_at xs i j) (Suc i) (Suc j) r"

text \<open>
  One pass of the loop of \<^verbatim>\<open>qsort\<close> for seven or more elements, after the pivot has been
  swapped to the front: the array, the lengths of the parts below and above the pivot, and
  whether any swap happened.
\<close>

definition qsort_pass :: "('a \<Rightarrow> 'a \<Rightarrow> int) \<Rightarrow> 'a list \<Rightarrow> 'a list \<times> nat \<times> nat \<times> bool" where
  "qsort_pass cmp xs0 =
     (let xs = swap_at xs0 0 (choose_pivot cmp xs0); n = length xs in
      case partition_loop cmp xs 1 1 n (n - 1) False of (ys, pa, pb, pd, sw) \<Rightarrow>
      if \<not> sw then (ys, 0, 0, False)
      else
        let ys1 = (let r = min pa (pb - pa) in vecswap ys 0 (pb - r) r);
            ys2 = (let r = min (pd + 1 - pb) (n - pd - 1) in vecswap ys1 pb (n - r) r)
        in (ys2, pb - pa, pd + 1 - pb, True))"

section \<open>Bounds and permutation\<close>

lemma length_swap_at [simp]: "length (swap_at xs i j) = length xs"
  by (simp add: swap_at_def)

lemma nth_swap_at:
  "i < length xs \<Longrightarrow> j < length xs \<Longrightarrow>
   swap_at xs i j ! k = (if k = i then xs ! j else if k = j then xs ! i else xs ! k)"
  by (auto simp: swap_at_def nth_list_update)

lemma mset_swap_at [simp]: "i < length xs \<Longrightarrow> j < length xs \<Longrightarrow> mset (swap_at xs i j) = mset xs"
  by (simp add: swap_at_def mset_swap)

lemma sift_mset: "l < length xs \<Longrightarrow> mset (sift cmp xs l) = mset xs \<and> length (sift cmp xs l) = length xs"
  by (induction l arbitrary: xs) simp_all

lemma insertion_sort_mset: "mset (insertion_sort cmp xs) = mset xs"
proof -
  have "mset (fold (\<lambda>pm ys. sift cmp ys pm) ns ys) = mset ys" if "\<forall>k \<in> set ns. k < length ys" for ns ys
    using that
  proof (induction ns arbitrary: ys)
    case (Cons k ns)
    then show ?case using sift_mset [of k ys cmp] by simp
  qed simp
  then show ?thesis by (simp add: insertion_sort_def)
qed

lemma vecswap_mset:
  "i + r \<le> length xs \<Longrightarrow> j + r \<le> length xs \<Longrightarrow>
   mset (vecswap xs i j r) = mset xs \<and> length (vecswap xs i j r) = length xs"
  by (induction xs i j r rule: vecswap.induct) simp_all

lemma med3_in: "med3 cmp xs a b c \<in> {a, b, c}"
  by (simp add: med3_def)

lemma pivot_candidates:
  fixes n d h :: nat
  assumes "8 * d \<le> n" "2 * h \<le> n" "7 \<le> n"
  shows "x \<in> {0, d, 2 * d, h - d, h, h + d, n - 1 - 2 * d, n - 1 - d, n - 1} \<Longrightarrow> x < n"
  using assms by auto

lemma choose_pivot_less:
  assumes "7 \<le> length xs"
  shows "choose_pivot cmp xs < length xs"
proof -
  let ?n = "length xs"
  define d h where "d = ?n div 8" "h = ?n div 2"
  have "8 * d \<le> ?n" "2 * h \<le> ?n" by (simp_all add: d_h_def)
  note b = pivot_candidates [OF this assms]
  have in3: "med3 cmp xs u v w < m" if "u < m" "v < m" "w < m" for u v w m
    using med3_in [of cmp xs u v w] that by auto
  show ?thesis
    unfolding choose_pivot_def Let_def d_h_def [symmetric]
    by (auto intro!: in3 intro: b)
qed

section \<open>The partition\<close>

text \<open>
  The picture in Bentley and McIlroy's paper: equal elements gather at both ends, smaller ones
  between \<open>pa\<close> and \<open>pb\<close>, larger ones between \<open>pc\<close> and \<open>pd\<close>.
\<close>

definition part_inv :: "('a \<Rightarrow> 'a \<Rightarrow> int) \<Rightarrow> 'a \<Rightarrow> nat \<Rightarrow> 'a list \<Rightarrow> nat \<Rightarrow> nat \<Rightarrow> nat \<Rightarrow> nat \<Rightarrow> bool" where
  "part_inv cmp p n xs pa pb e pd \<longleftrightarrow> length xs = n \<and> xs ! 0 = p \<and> 1 \<le> pa \<and> pa \<le> pb \<and> pb \<le> e \<and> e \<le> pd + 1 \<and> pd < n \<and>
     (\<forall>i. 1 \<le> i \<and> i < pa \<longrightarrow> cmp (xs ! i) p = 0) \<and> (\<forall>i. pa \<le> i \<and> i < pb \<longrightarrow> cmp (xs ! i) p < 0) \<and>
     (\<forall>i. e \<le> i \<and> i \<le> pd \<longrightarrow> 0 < cmp (xs ! i) p) \<and> (\<forall>i. pd < i \<and> i < n \<longrightarrow> cmp (xs ! i) p = 0)"

lemma scan_up_inv:
  "part_inv cmp p n xs pa pb e pd \<Longrightarrow> scan_up cmp xs pa pb e sw = (ys, pa', pb', sw') \<Longrightarrow>
   part_inv cmp p n ys pa' pb' e pd \<and> mset ys = mset xs \<and> (pb' < e \<longrightarrow> 0 < cmp (ys ! pb') p)"
proof (induction cmp xs pa pb e sw rule: scan_up.induct)
  case (1 cmp xs pa pb e sw)
  note eq = scan_up.simps [of cmp xs pa pb e sw]
  have b: "pa < length xs" "pb < length xs" "pb < e" if "pb < e"
    using "1.prems"(1) that by (auto simp: part_inv_def)
  have p: "xs ! 0 = p" using "1.prems"(1) by (simp add: part_inv_def)
  consider "pb < e" "cmp (xs ! pb) p = 0" | "pb < e" "cmp (xs ! pb) p < 0" | "\<not> (pb < e \<and> cmp (xs ! pb) p \<le> 0)" by linarith
  then show ?case
  proof cases
    case 1
    have "part_inv cmp p n (swap_at xs pa pb) (pa + 1) (pb + 1) e pd"
      using "1.prems"(1) 1 b by (auto simp: part_inv_def nth_swap_at less_Suc_eq)
    then show ?thesis using "1.IH"(1) "1.prems"(2) 1 eq p b by simp
  next
    case 2
    have "part_inv cmp p n xs pa (pb + 1) e pd"
      using "1.prems"(1) 2 by (auto simp: part_inv_def less_Suc_eq)
    then show ?thesis using "1.IH"(2) "1.prems"(2) 2 eq p by simp
  next
    case 3
    then show ?thesis using "1.prems" eq p by auto
  qed
qed

lemma scan_down_inv:
  "part_inv cmp p n xs pa pb e pd \<Longrightarrow> scan_down cmp xs pb e pd sw = (ys, e', pd', sw') \<Longrightarrow>
   part_inv cmp p n ys pa pb e' pd' \<and> mset ys = mset xs \<and> (pb < e' \<longrightarrow> cmp (ys ! (e' - 1)) p < 0) \<and>
   (pb < e' \<longrightarrow> ys ! pb = xs ! pb)"
proof (induction cmp xs pb e pd sw rule: scan_down.induct)
  case (1 cmp xs pb e pd sw)
  note eq = scan_down.simps [of cmp xs pb e pd sw]
  have b: "pd < length xs" "e - 1 < length xs" "1 \<le> e - 1" "e - 1 \<le> pd" if "pb < e"
    using "1.prems"(1) that by (auto simp: part_inv_def)
  have p: "xs ! 0 = p" using "1.prems"(1) by (simp add: part_inv_def)
  consider "pb < e" "cmp (xs ! (e - 1)) p = 0" | "pb < e" "0 < cmp (xs ! (e - 1)) p"
    | "\<not> (pb < e \<and> 0 \<le> cmp (xs ! (e - 1)) p)" by linarith
  then show ?case
  proof cases
    case 1
    obtain c where c: "e = Suc c" using 1(1) by (cases e) simp_all
    have "part_inv cmp p n (swap_at xs (e - 1) pd) pa pb (e - 1) (pd - 1)"
      using "1.prems"(1) 1 b by (auto simp: part_inv_def nth_swap_at c Suc_le_eq)
    then have "part_inv cmp p n ys pa pb e' pd' \<and> mset ys = mset (swap_at xs (e - 1) pd) \<and>
        (pb < e' \<longrightarrow> cmp (ys ! (e' - 1)) p < 0) \<and> (pb < e' \<longrightarrow> ys ! pb = swap_at xs (e - 1) pd ! pb)"
      using "1.IH"(1) "1.prems"(2) 1 eq p by simp
    moreover have "e' \<le> e - 1" using scan_down_le "1.prems"(2) 1 eq p by (metis order.refl)
    ultimately show ?thesis using b 1(1) by (auto simp: nth_swap_at)
  next
    case 2
    have "0 < cmp (xs ! i) p" if "e - 1 \<le> i" "i \<le> pd" for i
      using "1.prems"(1) 2 that by (cases "i = e - 1") (auto simp: part_inv_def)
    then have "part_inv cmp p n xs pa pb (e - 1) pd"
      using "1.prems"(1) 2 by (auto simp: part_inv_def)
    then show ?thesis using "1.IH"(2) "1.prems"(2) 2 eq p by auto
  next
    case 3
    then show ?thesis using "1.prems" eq p by auto
  qed
qed

lemma partition_loop_inv:
  "part_inv cmp p n xs pa pb e pd \<Longrightarrow> partition_loop cmp xs pa pb e pd sw = (ys, pa', pb', pd', sw') \<Longrightarrow>
   part_inv cmp p n ys pa' pb' pb' pd' \<and> mset ys = mset xs"
proof (induction cmp xs pa pb e pd sw rule: partition_loop.induct)
  case (1 cmp xs pa pb e pd sw)
  obtain xs1 pa1 pb1 sw1 where u: "scan_up cmp xs pa pb e sw = (xs1, pa1, pb1, sw1)" by (metis prod_cases4)
  obtain xs2 e2 pd2 sw2 where d: "scan_down cmp xs1 pb1 e pd sw1 = (xs2, e2, pd2, sw2)" by (metis prod_cases4)
  note U = scan_up_inv [OF "1.prems"(1) u]
  note D = scan_down_inv [OF conjunct1 [OF U] d]
  have le: "e2 \<le> e" using scan_down_le [OF d] .
  have eq: "partition_loop cmp xs pa pb e pd sw =
      (if pb1 \<ge> e2 then (xs2, pa1, pb1, pd2, sw2)
       else partition_loop cmp (swap_at xs2 pb1 (e2 - 1)) pa1 (pb1 + 1) (e2 - 1) pd2 True)"
    by (subst partition_loop.simps) (simp add: u d)
  show ?case
  proof (cases "pb1 \<ge> e2")
    case True
    moreover have "pb1 \<le> e2" using D by (simp add: part_inv_def)
    ultimately show ?thesis using D U eq "1.prems"(2) by auto
  next
    case False
    have hi: "0 < cmp (xs2 ! pb1) p" "cmp (xs2 ! (e2 - 1)) p < 0" using D U le False by auto
    then have ne: "pb1 \<noteq> e2 - 1" by auto
    have b: "pb1 < length xs2" "e2 - 1 < length xs2" using D False by (auto simp: part_inv_def)
    obtain c where c: "e2 = Suc c" using False by (cases e2) simp_all
    have "part_inv cmp p n (swap_at xs2 pb1 (e2 - 1)) pa1 (pb1 + 1) (e2 - 1) pd2"
      using D hi b False ne by (auto simp: part_inv_def nth_swap_at less_Suc_eq c Suc_le_eq)
    then show ?thesis using "1.IH" [OF u [symmetric] refl refl d [symmetric] refl refl False]
      "1.prems"(2) eq False U D b by simp
  qed
qed

lemma nth_vecswap:
  "i + r \<le> j \<Longrightarrow> j + r \<le> length xs \<Longrightarrow> vecswap xs i j r ! k =
     (if i \<le> k \<and> k < i + r then xs ! (k - i + j) else if j \<le> k \<and> k < j + r then xs ! (k - j + i) else xs ! k)"
proof (induction r arbitrary: xs i j)
  case 0
  then show ?case by auto
next
  case (Suc r)
  have "vecswap xs i j (Suc r) ! k = (if Suc i \<le> k \<and> k < Suc i + r then swap_at xs i j ! (k - Suc i + Suc j)
      else if Suc j \<le> k \<and> k < Suc j + r then swap_at xs i j ! (k - Suc j + Suc i) else swap_at xs i j ! k)"
    using Suc.IH [of "Suc i" "Suc j" "swap_at xs i j"] Suc.prems by simp
  moreover have "i < length xs" "j < length xs" using Suc.prems by auto
  ultimately show ?case using Suc.prems by (auto simp: nth_swap_at Suc_diff_Suc)
qed

text \<open>
  What a pass leaves: the smaller elements, the elements equal to the pivot (there is at least
  one), the larger elements.
\<close>

definition three_way :: "('a \<Rightarrow> 'a \<Rightarrow> int) \<Rightarrow> 'a \<Rightarrow> 'a list \<Rightarrow> nat \<Rightarrow> nat \<Rightarrow> bool" where
  "three_way cmp p ys lo hi \<longleftrightarrow> lo + hi < length ys \<and> (\<forall>i < lo. cmp (ys ! i) p < 0) \<and>
     (\<forall>i. lo \<le> i \<and> i < length ys - hi \<longrightarrow> ys ! i = p \<or> cmp (ys ! i) p = 0) \<and>
     (\<forall>i. length ys - hi \<le> i \<and> i < length ys \<longrightarrow> 0 < cmp (ys ! i) p)"

lemma vecswaps_three_way:
  assumes inv: "part_inv cmp p n ys pa pb pb pd"
    and ys1: "ys1 = (let r = min pa (pb - pa) in vecswap ys 0 (pb - r) r)"
    and ys2: "ys2 = (let r = min (pd + 1 - pb) (n - pd - 1) in vecswap ys1 pb (n - r) r)"
  shows "three_way cmp p ys2 (pb - pa) (pd + 1 - pb) \<and> mset ys2 = mset ys \<and> length ys2 = n"
proof -
  have b: "length ys = n" "ys ! 0 = p" "1 \<le> pa" "pa \<le> pb" "pb \<le> pd + 1" "pd < n"
      and eq1: "\<And>i. 1 \<le> i \<Longrightarrow> i < pa \<Longrightarrow> cmp (ys ! i) p = 0" and lt: "\<And>i. pa \<le> i \<Longrightarrow> i < pb \<Longrightarrow> cmp (ys ! i) p < 0"
      and gt: "\<And>i. pb \<le> i \<Longrightarrow> i \<le> pd \<Longrightarrow> 0 < cmp (ys ! i) p" and eq2: "\<And>i. pd < i \<Longrightarrow> i < n \<Longrightarrow> cmp (ys ! i) p = 0"
    using inv unfolding part_inv_def by blast+
  have eq: "ys ! i = p \<or> cmp (ys ! i) p = 0" if "i < pa" for i using eq1 [of i] b(2) that by (cases "i = 0") simp_all
  define r1 where "r1 = min pa (pb - pa)"
  define r2 where "r2 = min (pd + 1 - pb) (n - pd - 1)"
  have y1: "ys1 = vecswap ys 0 (pb - r1) r1" and y2: "ys2 = vecswap ys1 pb (n - r2) r2"
    by (simp_all add: ys1 ys2 r1_def r2_def Let_def)
  have r1: "r1 \<le> pb - r1" "pb - r1 + r1 \<le> n" "r1 \<le> pa" "r1 \<le> pb - pa" using b by (auto simp: r1_def)
  have r2: "pb + r2 \<le> n - r2" "n - r2 + r2 \<le> n" "r2 \<le> pd + 1 - pb" "r2 \<le> n - pd - 1" using b by (auto simp: r2_def)
  have m1: "mset ys1 = mset ys \<and> length ys1 = n" using vecswap_mset [of 0 r1 ys "pb - r1"] r1 b y1 by simp
  have m2: "mset ys2 = mset ys1 \<and> length ys2 = n" using vecswap_mset [of pb r2 ys1 "n - r2"] r2 b m1 y2 by simp
  have n1: "ys1 ! k = (if k < r1 then ys ! (k + (pb - r1)) else if pb - r1 \<le> k \<and> k < pb then ys ! (k - (pb - r1)) else ys ! k)" for k
    using nth_vecswap [of 0 r1 "pb - r1" ys k] r1 b y1 by auto
  have n2: "ys2 ! k = (if pb \<le> k \<and> k < pb + r2 then ys1 ! (k - pb + (n - r2)) else if n - r2 \<le> k \<and> k < n then ys1 ! (k - (n - r2) + pb) else ys1 ! k)" for k
    using nth_vecswap [of pb r2 "n - r2" ys1 k] r2 b m1 y2 by auto
  have low: "cmp (ys2 ! i) p < 0" if "i < pb - pa" for i
  proof -
    have "ys2 ! i = ys1 ! i" using n2 [of i] that b r2 by auto
    moreover have "cmp (ys1 ! i) p < 0" using n1 [of i] that b r1 lt by (auto simp: r1_def min_def split: if_splits)
    ultimately show ?thesis by simp
  qed
  have hi: "ys1 ! k = ys ! k" if "pb \<le> k" for k using n1 [of k] r1 that by auto
  have mid: "ys2 ! i = p \<or> cmp (ys2 ! i) p = 0" if "pb - pa \<le> i" "i < n - (pd + 1 - pb)" for i
  proof (cases "i < pb")
    case True
    then have "ys2 ! i = ys1 ! i" using n2 [of i] r2 by auto
    moreover have "ys1 ! i = p \<or> cmp (ys1 ! i) p = 0"
      using n1 [of i] that True b r1 eq by (auto simp: r1_def min_def split: if_splits)
    ultimately show ?thesis by simp
  next
    case False
    show ?thesis
    proof (cases "i < pb + r2")
      case True
      have "pd < i - pb + (n - r2)" "i - pb + (n - r2) < n" using True False b r2 by linarith+
      then show ?thesis using n2 [of i] True False hi eq2 b by simp
    next
      case F2: False
      then have "r2 \<noteq> n - pd - 1" using that(2) b by linarith
      then have "r2 = pd + 1 - pb" by (auto simp: r2_def)
      then have "pd < i" "i < n" "\<not> n - r2 \<le> i" using F2 that(2) b by linarith+
      then show ?thesis using n2 [of i] F2 False hi eq2 b by simp
    qed
  qed
  have high: "0 < cmp (ys2 ! i) p" if "n - (pd + 1 - pb) \<le> i" "i < n" for i
  proof (cases "n - r2 \<le> i")
    case True
    have "i - (n - r2) + pb \<le> pd" using True that b r2 by linarith
    then show ?thesis using n2 [of i] True that hi gt r2 by simp
  next
    case False
    then have "r2 = n - pd - 1" using that(1) b by (auto simp: r2_def min_def split: if_splits)
    then have "i \<le> pd" "pb + r2 \<le> i" using False that b r2 by linarith+
    then show ?thesis using n2 [of i] False hi gt by simp
  qed
  show ?thesis using low mid high m1 m2 b by (auto simp: three_way_def)
qed

lemma qsort_pass_ok:
  assumes "7 \<le> length xs" "qsort_pass cmp xs = (ys, lo, hi, sw)"
  shows "mset ys = mset xs \<and> length ys = length xs \<and> lo + hi < length xs \<and> (sw \<longrightarrow> (\<exists>p \<in> set xs. three_way cmp p ys lo hi))"
proof -
  let ?n = "length xs" and ?x = "swap_at xs 0 (choose_pivot cmp xs)"
  have n0: "0 < ?n" using assms(1) by linarith
  obtain zs pa pb pd s where pl: "partition_loop cmp ?x 1 1 ?n (?n - 1) False = (zs, pa, pb, pd, s)" by (metis prod_cases5)
  have "part_inv cmp (?x ! 0) ?n ?x 1 1 ?n (?n - 1)" using assms(1) by (auto simp: part_inv_def)
  note P = partition_loop_inv [OF this pl]
  have mx: "mset ?x = mset xs" using choose_pivot_less [OF assms(1)] n0 by (intro mset_swap_at) simp_all
  have "?x ! 0 = xs ! choose_pivot cmp xs" using choose_pivot_less [OF assms(1)] n0 by (simp add: nth_swap_at)
  then have p: "?x ! 0 \<in> set xs" using choose_pivot_less [OF assms(1)] by simp
  show ?thesis
  proof (cases s)
    case False
    then show ?thesis using assms pl P mx by (auto simp: qsort_pass_def Let_def part_inv_def)
  next
    case True
    have y: "ys = (let r = min (pd + 1 - pb) (?n - pd - 1) in
          vecswap (let r = min pa (pb - pa) in vecswap zs 0 (pb - r) r) pb (?n - r) r)"
        "lo = pb - pa" "hi = pd + 1 - pb" "sw"
      using assms(2) pl True by (auto simp: qsort_pass_def Let_def)
    note V = vecswaps_three_way [OF conjunct1 [OF P] refl y(1)]
    then have "lo + hi < length xs" using y(2,3) by (auto simp: three_way_def)
    then show ?thesis using V P mx p y(2-4) by auto
  qed
qed

function qsort :: "('a \<Rightarrow> 'a \<Rightarrow> int) \<Rightarrow> 'a list \<Rightarrow> 'a list" where
  "qsort cmp xs =
     (if length xs < 7 then insertion_sort cmp xs
      else case qsort_pass cmp xs of (ys, lo, hi, sw) \<Rightarrow>
        if \<not> sw then insertion_sort cmp ys
        else (if lo > 1 then qsort cmp (take lo ys) else take lo ys) @
             take (length ys - lo - hi) (drop lo ys) @
             (if hi > 1 then qsort cmp (drop (length ys - hi) ys) else drop (length ys - hi) ys))"
  by pat_completeness auto
termination
proof (relation "measure (length \<circ> snd)", goal_cases)
  case 1
  then show ?case by simp
next
  case (2 cmp xs x y lo z hi sw)
  then show ?case using qsort_pass_ok [of xs cmp x lo hi sw] by auto
next
  case (3 cmp xs x y lo z hi sw)
  then show ?case using qsort_pass_ok [of xs cmp x lo hi sw] by auto
qed

declare qsort.simps [simp del]

lemma qsort_mset: "mset (qsort cmp xs) = mset xs"
proof (induction cmp xs rule: qsort.induct)
  case (1 cmp xs)
  show ?case
  proof (cases "length xs < 7")
    case True
    then show ?thesis by (simp add: qsort.simps insertion_sort_mset)
  next
    case False
    obtain ys lo hi sw where ps: "qsort_pass cmp xs = (ys, lo, hi, sw)" by (metis prod_cases4)
    note P = qsort_pass_ok [OF _ ps]
    have eq: "qsort cmp xs = (if \<not> sw then insertion_sort cmp ys
        else (if lo > 1 then qsort cmp (take lo ys) else take lo ys) @ take (length ys - lo - hi) (drop lo ys) @
             (if hi > 1 then qsort cmp (drop (length ys - hi) ys) else drop (length ys - hi) ys))"
      using False ps by (subst qsort.simps) simp
    show ?thesis
    proof (cases sw)
      case True
      note IH = "1.IH" [OF False ps [symmetric] refl refl]
      have "drop (length ys - hi) ys = drop (length ys - lo - hi) (drop lo ys)"
        using P False by (simp add: add.commute)
      then have "mset ys = mset (take lo ys) + mset (take (length ys - lo - hi) (drop lo ys)) + mset (drop (length ys - hi) ys)"
        by (metis append_take_drop_id mset_append union_assoc)
      then show ?thesis using eq IH True P False by auto
    next
      case F: False
      then show ?thesis using eq P False by (simp add: insertion_sort_mset)
    qed
  qed
qed

lemma length_qsort [simp]: "length (qsort cmp xs) = length xs"
  by (metis qsort_mset size_mset)

lemma set_qsort [simp]: "set (qsort cmp xs) = set xs"
  by (metis qsort_mset set_mset_mset)

section \<open>Sortedness, for any comparison function that orders the elements\<close>

locale comparator =
  fixes cmp :: "'a \<Rightarrow> 'a \<Rightarrow> int" and S :: "'a set"
  assumes cmp_refl: "x \<in> S \<Longrightarrow> cmp x x = 0"
    and cmp_flip: "x \<in> S \<Longrightarrow> y \<in> S \<Longrightarrow> 0 \<le> cmp x y \<longleftrightarrow> cmp y x \<le> 0"
    and cmp_trans: "x \<in> S \<Longrightarrow> y \<in> S \<Longrightarrow> z \<in> S \<Longrightarrow> cmp x y \<le> 0 \<Longrightarrow> cmp y z \<le> 0 \<Longrightarrow> cmp x z \<le> 0"
begin

abbreviation ordered :: "'a list \<Rightarrow> bool" where
  "ordered xs \<equiv> sorted_wrt (\<lambda>x y. cmp x y \<le> 0) xs"

lemma sift_ordered:
  "ordered as \<Longrightarrow> set as \<subseteq> S \<Longrightarrow> x \<in> S \<Longrightarrow>
   \<exists>cs. sift cmp (as @ x # bs) (length as) = cs @ bs \<and> mset cs = mset (x # as) \<and> ordered cs"
proof (induction as arbitrary: bs rule: rev_induct)
  case Nil
  then show ?case by simp
next
  case (snoc a as)
  have s: "swap_at ((as @ [a]) @ x # bs) (Suc (length as)) (length as) = as @ x # a # bs"
    by (simp add: swap_at_def nth_append list_update_append)
  have le: "\<forall>y \<in> set as. cmp y a \<le> 0" "ordered as" "a \<in> S" "set as \<subseteq> S"
    using snoc.prems by (auto simp: sorted_wrt_append)
  show ?case
  proof (cases "cmp a x > 0")
    case True
    obtain cs where cs: "sift cmp (as @ x # a # bs) (length as) = cs @ a # bs" "mset cs = mset (x # as)" "ordered cs"
      using snoc.IH [of "a # bs"] le snoc.prems(3) by blast
    have "set cs = insert x (set as)" using arg_cong [OF cs(2), of set_mset] by simp
    moreover have "cmp x a \<le> 0" using True cmp_flip [of a x] le(3) snoc.prems(3) by simp
    ultimately have "ordered (cs @ [a])" using cs(3) le by (auto simp: sorted_wrt_append)
    then show ?thesis using cs True s by (intro exI [of _ "cs @ [a]"]) (simp add: nth_append)
  next
    case False
    then have "\<forall>y \<in> set as. cmp y x \<le> 0" using le snoc.prems(3) by (meson cmp_trans not_less subsetD)
    then show ?thesis using False snoc.prems by (intro exI [of _ "as @ [a, x]"]) (auto simp: nth_append sorted_wrt_append)
  qed
qed

lemma insertion_sort_ordered:
  assumes "set xs \<subseteq> S"
  shows "ordered (insertion_sort cmp xs)"
proof -
  have "\<exists>cs. fold (\<lambda>pm ys. sift cmp ys pm) [1..<Suc k] xs = cs @ drop (Suc k) xs \<and> mset cs = mset (take (Suc k) xs) \<and> ordered cs"
    if "k < length xs" for k
    using that
  proof (induction k)
    case 0
    then show ?case by (cases xs) auto
  next
    case (Suc k)
    then obtain cs where cs: "fold (\<lambda>pm ys. sift cmp ys pm) [1..<Suc k] xs = cs @ drop (Suc k) xs"
        "mset cs = mset (take (Suc k) xs)" "ordered cs" by auto
    have len: "length cs = Suc k" using arg_cong [OF cs(2), of size] Suc.prems by simp
    have sc: "set cs \<subseteq> S" using arg_cong [OF cs(2), of set_mset] assms set_take_subset [of "Suc k" xs] by auto
    have d: "drop (Suc k) xs = xs ! Suc k # drop (Suc (Suc k)) xs" using Suc.prems by (simp add: Cons_nth_drop_Suc)
    have xk: "xs ! Suc k \<in> S" using Suc.prems assms by (meson nth_mem subsetD)
    obtain ds where ds: "sift cmp (cs @ xs ! Suc k # drop (Suc (Suc k)) xs) (length cs) = ds @ drop (Suc (Suc k)) xs"
        "mset ds = mset (xs ! Suc k # cs)" "ordered ds"
      using sift_ordered [OF cs(3) sc xk, of "drop (Suc (Suc k)) xs"] by blast
    have "fold (\<lambda>pm ys. sift cmp ys pm) [1..<Suc (Suc k)] xs = ds @ drop (Suc (Suc k)) xs"
    proof -
      have "[1..<Suc (Suc k)] = [1..<Suc k] @ [Suc k]" by simp
      then have "fold (\<lambda>pm ys. sift cmp ys pm) [1..<Suc (Suc k)] xs = sift cmp (cs @ xs ! Suc k # drop (Suc (Suc k)) xs) (Suc k)"
        by (simp only: fold_append comp_apply fold_simps cs(1) d)
      then show ?thesis using ds(1) by (simp only: len)
    qed
    then show ?case using ds cs(2) Suc.prems by (auto simp: take_Suc_conv_app_nth [of "Suc k"])
  qed
  from this [of "length xs - 1"] show ?thesis
    by (cases "xs = []") (auto simp: insertion_sort_def)
qed

lemma three_way_parts:
  assumes "three_way cmp p ys lo hi" "p \<in> S" "set ys \<subseteq> S"
    and d: "d = lo" "m = length ys - lo - hi" "h = length ys - hi"
    and L: "mset L = mset (take d ys)" "ordered L" and H: "mset H = mset (drop h ys)" "ordered H"
  shows "ordered (L @ take m (drop d ys) @ H)"
proof -
  have n: "lo + hi < length ys" using assms(1) by (simp add: three_way_def)
  have sl: "set L = set (take lo ys)" using arg_cong [OF L(1), of set_mset] d by simp
  have sh: "set H = set (drop (length ys - hi) ys)" using arg_cong [OF H(1), of set_mset] d by simp
  let ?M = "take m (drop d ys)"
  have l: "x \<in> S \<and> cmp x p < 0" if xin: "x \<in> set L" for x
  proof -
    obtain i where "i < lo" "x = ys ! i" using xin n unfolding sl by (auto simp: in_set_conv_nth)
    then show ?thesis using assms(1,3) n nth_mem [of i ys] by (auto simp: three_way_def)
  qed
  have g: "x \<in> S \<and> 0 < cmp x p" if xin: "x \<in> set H" for x
  proof -
    obtain i where i: "i < hi" "x = ys ! (length ys - hi + i)" using xin n unfolding sh by (auto simp: in_set_conv_nth)
    then have "length ys - hi \<le> length ys - hi + i \<and> length ys - hi + i < length ys" using n by linarith
    then have "0 < cmp x p \<and> x \<in> set ys" using assms(1) i(2) unfolding three_way_def by (metis nth_mem)
    then show ?thesis using assms(3) by auto
  qed
  have q: "x \<in> S \<and> cmp x p = 0" if xin: "x \<in> set ?M" for x
  proof -
    obtain i where i: "i < m" "x = ys ! (lo + i)" using xin n d by (auto simp: in_set_conv_nth)
    then have "lo \<le> lo + i \<and> lo + i < length ys - hi \<and> lo + i < length ys" using n d by linarith
    then have "(x = p \<or> cmp x p = 0) \<and> x \<in> set ys" using assms(1) i(2) unfolding three_way_def by (metis nth_mem)
    then show ?thesis using assms(2,3) cmp_refl by auto
  qed
  have via: "cmp x y \<le> 0" if "x \<in> S" "y \<in> S" "cmp x p \<le> 0" "0 \<le> cmp y p" for x y
    using cmp_trans [of x p y] cmp_flip [of y p] that assms(2) by auto
  have "ordered ?M"
    unfolding sorted_wrt_iff_nth_less
  proof (intro allI impI)
    fix i j
    assume "i < j" "j < length ?M"
    then have "?M ! i \<in> set ?M" "?M ! j \<in> set ?M" by (simp_all only: nth_mem order.strict_trans)
    then show "cmp (?M ! i) (?M ! j) \<le> 0" using via q by (simp only:)
  qed
  moreover have "cmp x y \<le> 0" if "x \<in> set L" "y \<in> set ?M \<union> set H" for x y
    using via [of x y] l [OF that(1)] g [of y] q [of y] that(2) by auto
  moreover have "cmp x y \<le> 0" if "x \<in> set ?M" "y \<in> set H" for x y
    using via [of x y] q [OF that(1)] g [OF that(2)] by simp
  ultimately show ?thesis using L(2) H(2) by (auto simp: sorted_wrt_append)
qed

lemma qsort_ordered: "set xs \<subseteq> S \<Longrightarrow> ordered (qsort cmp xs)"
proof (induction "length xs" arbitrary: xs rule: less_induct)
  case less
  show ?case
  proof (cases "length xs < 7")
    case True
    then show ?thesis using insertion_sort_ordered [OF less.prems] by (subst qsort.simps) simp
  next
    case False
    obtain ys lo hi sw where ps: "qsort_pass cmp xs = (ys, lo, hi, sw)" by (metis prod_cases4)
    note P = qsort_pass_ok [OF _ ps]
    have set: "set ys \<subseteq> S" using P False less.prems by (metis not_less set_mset_mset)
    show ?thesis
    proof (cases sw)
      case F: False
      then show ?thesis using insertion_sort_ordered [OF set] ps False by (subst qsort.simps) simp
    next
      case True
      obtain p where p: "p \<in> set xs" "three_way cmp p ys lo hi" using P True False by auto
      have one: "ordered zs" if "length zs \<le> 1" for zs :: "'a list" using that by (cases zs) auto
      have n: "lo + hi < length xs" "length ys = length xs" using P False by auto
      let ?L = "if lo > 1 then qsort cmp (take lo ys) else take lo ys"
      let ?H = "if hi > 1 then qsort cmp (drop (length ys - hi) ys) else drop (length ys - hi) ys"
      have "ordered ?L"
        using less.hyps [of "take lo ys"] set set_take_subset [of lo ys] n one by auto
      moreover have "ordered ?H"
        using less.hyps [of "drop (length ys - hi) ys"] set set_drop_subset [of "length ys - hi" ys] n one by auto
      moreover have "mset ?L = mset (take lo ys)" "mset ?H = mset (drop (length ys - hi) ys)"
        by (simp_all add: qsort_mset)
      ultimately have "ordered (?L @ take (length ys - lo - hi) (drop lo ys) @ ?H)"
        using three_way_parts [OF p(2) _ set refl refl refl] p(1) less.prems by blast
      then show ?thesis using ps False True by (subst qsort.simps) simp
    qed
  qed
qed

end

section \<open>Directory paths\<close>

text \<open>\<^verbatim>\<open>strcmp_qsort_wrapper\<close> of states/processpsarstate.c; the strings it sees are terminated.\<close>

definition strcmp_qsort_wrapper :: "bytes \<Rightarrow> bytes \<Rightarrow> int" where
  "strcmp_qsort_wrapper a b = the (strcmp a b)"

definition ascii_strings :: "bytes set" where
  "ascii_strings = {cstr s | s. nonul s \<and> (\<forall>c \<in> set s. c < 128)}"

lemma wrapper_sign:
  assumes "cstr s \<in> ascii_strings" "cstr t \<in> ascii_strings"
  shows "strcmp_qsort_wrapper (cstr s) (cstr t) < 0 \<longleftrightarrow> s < t"
    and "strcmp_qsort_wrapper (cstr s) (cstr t) = 0 \<longleftrightarrow> s = t"
    and "strcmp_qsort_wrapper (cstr s) (cstr t) \<le> 0 \<longleftrightarrow> s \<le> t"
proof -
  have "nonul s" "nonul t" "\<forall>c \<in> set s \<union> set t. c < 128"
    using assms by (auto simp: ascii_strings_def)
  from strcmp_ascii_sign [OF this, of "[]" "[]"] obtain r where
    "strcmp (cstr s) (cstr t) = Some r" "r < 0 \<longleftrightarrow> s < t" "r = 0 \<longleftrightarrow> s = t" by blast
  then show "strcmp_qsort_wrapper (cstr s) (cstr t) < 0 \<longleftrightarrow> s < t"
      "strcmp_qsort_wrapper (cstr s) (cstr t) = 0 \<longleftrightarrow> s = t"
      "strcmp_qsort_wrapper (cstr s) (cstr t) \<le> 0 \<longleftrightarrow> s \<le> t"
    by (auto simp: strcmp_qsort_wrapper_def order_le_less)
qed

interpretation path_order: comparator strcmp_qsort_wrapper ascii_strings
proof (unfold_locales, goal_cases)
  case (1 x)
  then obtain s where "x = cstr s" by (auto simp: ascii_strings_def)
  then show ?case using 1 wrapper_sign(2) [of s s] by simp
next
  case (2 x y)
  then obtain s t where "x = cstr s" "y = cstr t" by (auto simp: ascii_strings_def)
  then show ?case using 2 wrapper_sign(1) [of s t] wrapper_sign(3) [of t s] by (simp add: not_less [symmetric])
next
  case (3 x y z)
  then obtain s t u where "x = cstr s" "y = cstr t" "z = cstr u" by (auto simp: ascii_strings_def)
  then show ?case using 3 wrapper_sign(3) [of s t] wrapper_sign(3) [of t u] wrapper_sign(3) [of s u] by simp
qed

text \<open>After sorting, a directory comes before every directory inside it.\<close>

lemma qsort_parents_first:
  assumes S: "set ds \<subseteq> ascii_strings"
    and i: "i < length ds" "j < length ds" "qsort strcmp_qsort_wrapper ds ! i = cstr s"
      "qsort strcmp_qsort_wrapper ds ! j = cstr (s @ t)" "t \<noteq> []"
  shows "i < j"
proof (rule ccontr)
  let ?q = "qsort strcmp_qsort_wrapper ds"
  assume "\<not> i < j"
  moreover have "?q ! i \<noteq> ?q ! j" using i(3-5) by simp
  ultimately have "j < i" by (metis linorder_neqE_nat)
  then have "strcmp_qsort_wrapper (?q ! j) (?q ! i) \<le> 0"
    using path_order.qsort_ordered [OF S] i(1) by (simp add: sorted_wrt_iff_nth_less)
  moreover have "?q ! i \<in> ascii_strings" "?q ! j \<in> ascii_strings"
    using S i(1,2) nth_mem [of i ?q] nth_mem [of j ?q] by auto
  ultimately have "s @ t \<le> s" using wrapper_sign(3) [of "s @ t" s] i(3,4) by simp
  moreover have "s < s @ t" using i(5) by (induction s) (cases t, auto)
  ultimately show False by simp
qed

end
