(* ===== verification/States.thy ===== *)
theory States
  imports Psar_Open Ipl Fdisk Qsort
begin

text \<open>
  The states of the flasher, app/aiseirigh/states/*.c: what each \<^verbatim>\<open>on_enter\<close> and
  \<^verbatim>\<open>on_key_press\<close> does to the application state and to the devices, and which state it asks
  the machine to enter next. The machine itself is \<open>State_Machine\<close>.

  A handler maps the application state to the new one and the state it passes to
  \<^verbatim>\<open>statemachine_transition\<close>, if any; \<open>None\<close> stands for a failed assertion, a null
  dereference or a loop that never ends. Each handler calls \<^verbatim>\<open>statemachine_transition\<close> at
  most once, as its last action.
\<close>

section \<open>The environment\<close>

text \<open>
  Drivers and libraries outside the application, over an abstract device state \<open>'w\<close>: FatFs
  on the flash partitions, the NAND driver, the flash translation layer, the system
  controller. \<open>f_mkfs\<close> also gets the work area and returns its contents afterwards.
\<close>

record MKFS_PARM =
  fmt :: nat
  n_fat :: nat
  align_mkfs :: nat
  n_root :: nat
  au_size :: nat

record ('w, 'fil) dev_ops =
  f_mount :: "'w \<Rightarrow> bytes \<Rightarrow> FRESULT \<times> 'w"
  f_mkfs :: "'w \<Rightarrow> bytes \<Rightarrow> MKFS_PARM \<Rightarrow> bytes \<Rightarrow> FRESULT \<times> bytes \<times> 'w"
  f_mkdir :: "'w \<Rightarrow> bytes \<Rightarrow> FRESULT \<times> 'w"
  f_create :: "'w \<Rightarrow> bytes \<Rightarrow> FRESULT \<times> 'fil \<times> 'w"
  f_write :: "'w \<Rightarrow> 'fil \<Rightarrow> bytes \<Rightarrow> FRESULT \<times> nat \<times> 'fil \<times> 'w"
  f_close_written :: "'w \<Rightarrow> 'fil \<Rightarrow> FRESULT \<times> 'w"
  nand :: "'w nand_ops"
  lflash :: "'w lflash_ops"
  emcsm_disable_write_protect :: "'w \<Rightarrow> 'w"
  emcsm_set_scramble_0 :: "'w \<Rightarrow> 'w"
  syscon_reset_device :: "'w \<Rightarrow> 'w"

text \<open>The streaming interface of mbedtls's SHA-1.\<close>

record 'h sha1_ops =
  sha1_starts :: 'h
  sha1_update :: "'h \<Rightarrow> bytes \<Rightarrow> 'h"
  sha1_finish :: "'h \<Rightarrow> bytes"

record ('w, 'fil, 'h) app_env =
  penv :: psar_env
  card :: "'fil fat_ops"
  dev :: "('w, 'fil) dev_ops"
  hash_lib :: "'h sha1_ops"
  memalign :: "nat \<Rightarrow> nat \<Rightarrow> nat \<Rightarrow> bytes option" \<comment> \<open>n-th call, alignment, size\<close>
  calloc_ok :: bool
  strdup_ok :: bool
  fil0 :: 'fil
  stack_header :: bytes
  SYSCON_CTRL_CROSS :: u32
  identity_text :: string

section \<open>Application state\<close>

datatype State = g_init_state | g_menu_state | g_mount_ms_state | g_check_updater_state
  | g_process_psar_state | g_partition_flash_state | g_format_flash_state | g_mount_flash_state
  | g_create_directories_state | g_flash_files_state | g_finish_state | g_error_state

datatype Colour = FG_COLOUR | FG_COLOUR_ERR | FG_COLOUR_SUCCESS

text \<open>
  \<^verbatim>\<open>struct AppState\<close> with the globals the handlers touch. The work buffers \<^verbatim>\<open>wb1\<close> and
  \<^verbatim>\<open>wb2\<close> are shared between the application and the archive handle, so they appear once,
  in \<open>ph\<close>. \<open>console\<close> lists the calls of \<^verbatim>\<open>primary_puts\<close> since the last clear.
\<close>

record ('w, 'fil) app =
  identity :: "PspModel option"
  updater_path :: "bytes option"
  directories :: "bytes list"
  ph :: "'fil psar_state"
  world :: 'w
  console :: "(Colour \<times> string) list"
  g_why :: "string option"

definition primary_puts :: "Colour \<Rightarrow> string \<Rightarrow> ('w, 'fil) app \<Rightarrow> ('w, 'fil) app" where
  "primary_puts c msg a = a\<lparr>console := console a @ [(c, msg)]\<rparr>"

definition primary_clear :: "('w, 'fil) app \<Rightarrow> ('w, 'fil) app" where
  "primary_clear a = a\<lparr>console := []\<rparr>"

text \<open>
  \<^verbatim>\<open>statemachine_transition_error\<close> up to the transition: the formatted message is copied
  into a buffer that has to be allocated, and \<^verbatim>\<open>error_state_set_message\<close> keeps a copy of
  it (\<^verbatim>\<open>NULL\<close> if that allocation fails).
\<close>

definition transition_error :: "('w, 'fil, 'h) app_env \<Rightarrow> ('w, 'fil) app \<Rightarrow> string \<Rightarrow> (('w, 'fil) app \<times> State option) option" where
  "transition_error N a msg =
     (if \<not> malloc_ok (penv N) (of_nat (length msg + 1)) then None
      else Some (a\<lparr>g_why := (if strdup_ok N then Some msg else None)\<rparr>, Some g_error_state))"

text \<open>Decimal digits, as \<^verbatim>\<open>%i\<close> prints them.\<close>

fun digits :: "nat \<Rightarrow> string" where
  "digits n = (if n < 10 then [char_of (48 + n)] else digits (n div 10) @ [char_of (48 + n mod 10)])"

declare digits.simps [simp del]

definition decimal :: "int \<Rightarrow> string" where
  "decimal i = (if i < 0 then CHR 0x2D # digits (nat (- i)) else digits (nat i))"

fun psar_code :: "PsarResult \<Rightarrow> int" where
  "psar_code PSAR_RESULT_OK = 0"
| "psar_code PSAR_ERR_OPEN = 1"
| "psar_code PSAR_ERR_READ_HEADER = 2"
| "psar_code PSAR_ERR_SEEK_HEADER = 3"
| "psar_code PSAR_ERR_NOT_PSAR = 4"
| "psar_code PSAR_ERR_READ_DATA = 5"
| "psar_code PSAR_ERR_DECRYPT_HEADER = 6"
| "psar_code PSAR_ERR_UNKNOWN_FIRMWARE = 7"
| "psar_code PSAR_ERR_SEEK_DATA = 8"
| "psar_code PSAR_ERR_PARSE_FILE_HEADER = 9"
| "psar_code PSAR_ERR_OOM = 10"
| "psar_code PSAR_ERR_ENTRY_NOT_FOUND = 11"
| "psar_code PSAR_ERR_ENTRY_NOT_FILE = 12"
| "psar_code PSAR_ERR_WORK_BUFFER_TOO_SMALL = 13"
| "psar_code PSAR_ERR_DECOMPRESSION = 14"
| "psar_code PSAR_ERR_PARSE_TABLE = 15"
| "psar_code PSAR_ERR_DECRYPT_TABLE = 16"
| "psar_code PSAR_ERR_HANDLER = 17"
| "psar_code PSAR_ERR_DECRYPT_IPL = 18"
| "psar_code PSAR_ERR_IPL_NOT_FOUND = 19"
| "psar_code (PSAR_RAW i) = i"

fun fdisk_code :: "FdiskResult \<Rightarrow> int" where
  "fdisk_code FDISK_RESULT_OK = 0"
| "fdisk_code FDISK_ERR_LBA_OUT_OF_CHS_RANGE = 1"
| "fdisk_code FDISK_ERR_WRITE = 2"

section \<open>Initialisation, menu, memory card\<close>

abbreviation (input) WORK_BUFFER_SIZE :: nat where "WORK_BUFFER_SIZE \<equiv> 12 * 1024 * 1024"

definition get_updater_path :: "PspModel \<Rightarrow> bytes" where
  "get_updater_path m = cstr (lit (if m = PSP_MODEL_05G then ''ms:/661GO.PBP'' else ''ms:/661.PBP''))"

definition work_buffer_create :: "('w, 'fil, 'h) app_env \<Rightarrow> nat \<Rightarrow> nat \<Rightarrow> nat \<Rightarrow> bytes option" where
  "work_buffer_create N k len al = memalign N k al len"

definition init_on_enter :: "('w, 'fil, 'h) app_env \<Rightarrow> ('w, 'fil) app \<Rightarrow> (('w, 'fil) app \<times> State option) option" where
  "init_on_enter N a = do {
     let m = psp_model (penv N);
     let a1 = a\<lparr>identity := Some m, updater_path := Some (get_updater_path m)\<rparr>;
     b1 \<leftarrow> work_buffer_create N 0 WORK_BUFFER_SIZE 64;
     b2 \<leftarrow> work_buffer_create N 1 WORK_BUFFER_SIZE 64;
     Some (a1\<lparr>ph := (ph a1)\<lparr>wb1 := b1, wb2 := b2\<rparr>\<rparr>, Some g_menu_state)
   }"

definition IS_KEY_PRESSED :: "u32 \<Rightarrow> u32 \<Rightarrow> bool" where
  "IS_KEY_PRESSED keys combo \<longleftrightarrow> keys AND combo = combo"

definition menu_on_enter :: "('w, 'fil, 'h) app_env \<Rightarrow> ('w, 'fil) app \<Rightarrow> (('w, 'fil) app \<times> State option) option" where
  "menu_on_enter N a =
     (let a1 = primary_puts FG_COLOUR ''aiseirigh v0.1\<newline>by davee\<newline>\<newline>'' (primary_clear a);
          a2 = primary_puts FG_COLOUR (identity_text N) a1
      in Some (primary_puts FG_COLOUR ''press X to flash\<newline>'' a2, None))"

definition menu_on_key_press :: "('w, 'fil, 'h) app_env \<Rightarrow> ('w, 'fil) app \<Rightarrow> u32 \<Rightarrow> (('w, 'fil) app \<times> State option) option" where
  "menu_on_key_press N a keys =
     Some (a, if IS_KEY_PRESSED keys (SYSCON_CTRL_CROSS N) then Some g_mount_ms_state else None)"

definition mount_ms_on_enter :: "('w, 'fil, 'h) app_env \<Rightarrow> ('w, 'fil) app \<Rightarrow> (('w, 'fil) app \<times> State option) option" where
  "mount_ms_on_enter N a =
     (let a1 = primary_puts FG_COLOUR ''mounting memory card... '' a;
          (res, w) = f_mount (dev N) (world a1) (cstr (lit ''ms:''));
          a2 = a1\<lparr>world := w\<rparr>
      in if res \<noteq> FR_OK then transition_error N a2 (''error '' @ ff_result_to_str res @ '' mounting memory card.'')
         else Some (primary_puts FG_COLOUR ''ok\<newline>'' a2, Some g_check_updater_state))"

section \<open>Checking the updater\<close>

datatype FileHashResult = FILE_SHA_RES_OK | FILE_SHA_ERR_OPEN | FILE_SHA_ERR_READ | FILE_SHA_ERR_CLOSE

text \<open>
  The reading loop of \<^verbatim>\<open>file_sha1_calc\<close>. It hashes \<open>copylen\<close> bytes of the buffer, however
  many the read delivered; with an empty buffer it would never end (\<open>None\<close>).
\<close>

function sha1_loop :: "'h sha1_ops \<Rightarrow> 'fil fat_ops \<Rightarrow> 'fil \<Rightarrow> bytes \<Rightarrow> nat \<Rightarrow> 'h \<Rightarrow>
    (FileHashResult \<times> 'fil \<times> bytes \<times> 'h) option" where
  "sha1_loop H F fp0 buffer remaining ctx =
     (if remaining = 0 then Some (FILE_SHA_RES_OK, fp0, buffer, ctx)
      else if buffer = [] then None
      else
        (let copylen = min (length buffer) remaining;
             (res, d, fp1) = f_read F fp0 copylen;
             buffer1 = read_into buffer d
         in if res \<noteq> FR_OK then Some (FILE_SHA_ERR_READ, fp1, buffer1, ctx)
            else sha1_loop H F fp1 buffer1 (remaining - copylen) (sha1_update H ctx (take copylen buffer1))))"
  by pat_completeness auto
termination
  by (relation "measure (\<lambda>(H, F, fp0, buffer, remaining, ctx). remaining)") auto

declare sha1_loop.simps [simp del]

definition file_sha1_calc :: "'h sha1_ops \<Rightarrow> 'fil fat_ops \<Rightarrow> bytes \<Rightarrow> bytes \<Rightarrow> (FileHashResult \<times> bytes \<times> bytes) option" where
  "file_sha1_calc H F path buffer =
     (case f_open F path of (ores, fp0) \<Rightarrow>
        if ores \<noteq> FR_OK then Some (FILE_SHA_ERR_OPEN, [], buffer)
        else do {
          (res, fp1, buffer1, ctx) \<leftarrow> sha1_loop H F fp0 buffer (unat (f_size F fp0)) (sha1_starts H);
          if res \<noteq> FILE_SHA_RES_OK then Some (res, [], buffer1)
          else if f_close F fp1 \<noteq> FR_OK then Some (FILE_SHA_ERR_CLOSE, [], buffer1)
          else Some (FILE_SHA_RES_OK, sha1_finish H ctx, buffer1)
        })"

abbreviation (input) SHA1_DIGEST_SIZE :: nat where "SHA1_DIGEST_SIZE \<equiv> 20"

definition s_psp_661_update :: bytes where
  "s_psp_661_update = [0xBC, 0x10, 0xAD, 0x21, 0x14, 0xE1, 0xC3, 0x49, 0xF2, 0x3E, 0xE2, 0xB1, 0x30, 0xD8, 0x2F,
     0x7E, 0x86, 0x34, 0x60, 0xAC]"

definition s_psp_go_661_update :: bytes where
  "s_psp_go_661_update = [0x91, 0xF7, 0x8E, 0xCE, 0xC0, 0x25, 0x70, 0x5F, 0x38, 0xC3, 0x68, 0x80, 0x59, 0xCB, 0x14,
     0xFF, 0x42, 0x57, 0xAB, 0x8A]"

definition get_updater_sha1 :: "PspModel \<Rightarrow> bytes" where
  "get_updater_sha1 m = (if m \<noteq> PSP_MODEL_05G then s_psp_661_update else s_psp_go_661_update)"

definition check_updater_on_enter :: "('w, 'fil, 'h) app_env \<Rightarrow> ('w, 'fil) app \<Rightarrow> (('w, 'fil) app \<times> State option) option" where
  "check_updater_on_enter N a = do {
     let a1 = primary_puts FG_COLOUR ''checking 6.61 updater... '' a;
     m \<leftarrow> identity a1;
     path \<leftarrow> updater_path a1;
     (hash_res, digest, b) \<leftarrow> file_sha1_calc (hash_lib N) (card N) path (wb1 (ph a1));
     let a2 = a1\<lparr>ph := (ph a1)\<lparr>wb1 := b\<rparr>\<rparr>;
     bad \<leftarrow> (if hash_res \<noteq> FILE_SHA_RES_OK then Some True
             else map_option (\<lambda>c. c \<noteq> 0) (memcmp digest (get_updater_sha1 m) SHA1_DIGEST_SIZE));
     if bad then transition_error N a2 (''check you have the correct updater in '' @ map (\<lambda>c. char_of (unat c)) (butlast path) @ ''\<newline>'')
     else Some (primary_puts FG_COLOUR ''ok\<newline>'' a2, Some g_process_psar_state)
   }"

section \<open>Reading the archive\<close>

text \<open>
  The callback that collects the directories. A failed \<^verbatim>\<open>realloc\<close> or \<^verbatim>\<open>strdup\<close> leaves a
  null pointer that is dereferenced next.
\<close>

definition read_directory :: "psar_env \<Rightarrow> bytes list \<Rightarrow> bytes \<Rightarrow> (int \<times> bytes list) option" where
  "read_directory E dirs path =
     (if \<not> malloc_ok E (of_nat ((length dirs + 1) * 4)) then None
      else do {
        n \<leftarrow> strlen path;
        s \<leftarrow> strdup (malloc_ok E (of_nat (n + 1))) path;
        copy \<leftarrow> s;
        Some (0, dirs @ [copy])
      })"

definition process_psar_on_enter :: "('w, 'fil, 'h) app_env \<Rightarrow> ('w, 'fil) app \<Rightarrow> (('w, 'fil) app \<times> State option) option" where
  "process_psar_on_enter N a = do {
     let a1 = primary_puts FG_COLOUR ''reading 6.61 psar... '' a;
     let (psar_res, st0) = psar_init (fil0 N) (wb1 (ph a1)) (wb2 (ph a1)) (kmem (ph a1));
     let a2 = a1\<lparr>ph := st0\<rparr>;
     if psar_res \<noteq> PSAR_RESULT_OK then
       transition_error N a2 (''error '' @ decimal (psar_code psar_res) @ '' initialising psar handle.'')
     else do {
       path \<leftarrow> updater_path a2;
       (psar_res2, st1) \<leftarrow> psar_open (penv N) (card N) (stack_header N) st0 path;
       let a3 = a2\<lparr>ph := st1\<rparr>;
       if psar_res2 \<noteq> PSAR_RESULT_OK then
         transition_error N a3 (''error '' @ decimal (psar_code psar_res2) @ '' opening 6.61 psar.'')
       else do {
         (_, dirs) \<leftarrow> psar_read_each_directory (read_directory (penv N)) st1 [];
         let a4 = a3\<lparr>directories := qsort strcmp_qsort_wrapper dirs\<rparr>;
         Some (primary_puts FG_COLOUR ''ok\<newline>'' a4, Some g_partition_flash_state)
       }
     }
   }"

section \<open>Partitioning, formatting, mounting\<close>

definition partition_flash :: "('w, 'fil, 'h) app_env \<Rightarrow> 'w \<Rightarrow> PspModel \<Rightarrow> (FdiskResult \<times> 'w) option" where
  "partition_flash N w m =
     (let w1 = emcsm_disable_write_protect (dev N) w in
      if m = PSP_MODEL_01G then fdisk (lflash (dev N)) (calloc_ok N) w1 0xC000 0x2000 0x800 0x780
      else fdisk (lflash (dev N)) (calloc_ok N) w1 0x14800 0x2800 0x2000 0x4900)"

definition partition_flash_on_enter :: "('w, 'fil, 'h) app_env \<Rightarrow> ('w, 'fil) app \<Rightarrow> (('w, 'fil) app \<times> State option) option" where
  "partition_flash_on_enter N a = do {
     let a1 = primary_puts FG_COLOUR ''partitioning flash... '' a;
     m \<leftarrow> identity a1;
     (fdisk_res, w) \<leftarrow> partition_flash N (world a1) m;
     let a2 = a1\<lparr>world := w\<rparr>;
     if fdisk_res \<noteq> FDISK_RESULT_OK then
       transition_error N a2 (''error '' @ decimal (fdisk_code fdisk_res) @ '' partitioning flash\<newline>'')
     else Some (primary_puts FG_COLOUR ''ok\<newline>'' a2, Some g_format_flash_state)
   }"

definition mkfs_opt :: MKFS_PARM where
  "mkfs_opt = \<lparr>fmt = 1, n_fat = 2, align_mkfs = 0, n_root = 512, au_size = 32 * 512\<rparr>"

definition format_flash :: "('w, 'fil, 'h) app_env \<Rightarrow> 'w \<Rightarrow> bytes \<Rightarrow> bytes \<Rightarrow> FRESULT \<times> bytes \<times> 'w" where
  "format_flash N w drive work_buffer = f_mkfs (dev N) w drive mkfs_opt work_buffer"

definition flashes :: "string list" where
  "flashes = [''flash3'', ''flash2'', ''flash1'', ''flash0'']"

fun format_flashes :: "('w, 'fil, 'h) app_env \<Rightarrow> ('w, 'fil) app \<Rightarrow> string list \<Rightarrow> (('w, 'fil) app \<times> State option) option" where
  "format_flashes N a [] = Some (a, Some g_mount_flash_state)"
| "format_flashes N a (f # fs) =
     (let a1 = primary_puts FG_COLOUR (''formatting '' @ f @ ''... '') a;
          (res, b, w) = format_flash N (world a1) (cstr (lit (f @ '':''))) (wb1 (ph a1));
          a2 = a1\<lparr>world := w, ph := (ph a1)\<lparr>wb1 := b\<rparr>\<rparr>
      in if res \<noteq> FR_OK then transition_error N a2 (''error '' @ ff_result_to_str res @ '' formatting '' @ f @ ''.'')
         else format_flashes N (primary_puts FG_COLOUR ''ok\<newline>'' a2) fs)"

definition format_flash_on_enter :: "('w, 'fil, 'h) app_env \<Rightarrow> ('w, 'fil) app \<Rightarrow> (('w, 'fil) app \<times> State option) option" where
  "format_flash_on_enter N a = format_flashes N a flashes"

definition mount_flash_on_enter :: "('w, 'fil, 'h) app_env \<Rightarrow> ('w, 'fil) app \<Rightarrow> (('w, 'fil) app \<times> State option) option" where
  "mount_flash_on_enter N a =
     (let a1 = primary_puts FG_COLOUR ''mounting flash0... '' a;
          (res, w) = f_mount (dev N) (world a1) (cstr (lit ''flash0:''));
          a2 = a1\<lparr>world := w\<rparr>
      in if res \<noteq> FR_OK then transition_error N a2 (''error '' @ ff_result_to_str res @ '' mounting flash0.'')
         else
           (let a3 = primary_puts FG_COLOUR ''mounting flash1... '' (primary_puts FG_COLOUR ''ok\<newline>'' a2);
                (res1, w1) = f_mount (dev N) (world a3) (cstr (lit ''flash1:''));
                a4 = a3\<lparr>world := w1\<rparr>
            in if res1 \<noteq> FR_OK then transition_error N a4 (''error '' @ ff_result_to_str res1 @ '' mounting flash1.'')
               else Some (primary_puts FG_COLOUR ''ok\<newline>'' a4, Some g_create_directories_state)))"

section \<open>Directories and files\<close>

abbreviation (input) MAX_RETRY :: nat where "MAX_RETRY \<equiv> 5"

fun mkdir_retry :: "('w, 'fil) dev_ops \<Rightarrow> bytes \<Rightarrow> nat \<Rightarrow> FRESULT \<Rightarrow> 'w \<Rightarrow> FRESULT \<times> 'w" where
  "mkdir_retry D path 0 res w = (res, w)"
| "mkdir_retry D path (Suc n) res w =
     (case f_mkdir D w path of (r, w1) \<Rightarrow> if r = FR_OK then (r, w1) else mkdir_retry D path n r w1)"

fun make_directories :: "('w, 'fil) dev_ops \<Rightarrow> bytes list \<Rightarrow> FRESULT \<Rightarrow> 'w \<Rightarrow> FRESULT \<times> 'w" where
  "make_directories D [] result w = (result, w)"
| "make_directories D (p # ps) result w =
     (case mkdir_retry D p MAX_RETRY FR_OK w of (res, w1) \<Rightarrow>
        make_directories D ps (if res \<noteq> FR_OK then res else result) w1)"

definition create_directories_on_enter :: "('w, 'fil, 'h) app_env \<Rightarrow> ('w, 'fil) app \<Rightarrow> (('w, 'fil) app \<times> State option) option" where
  "create_directories_on_enter N a =
     (let a1 = primary_puts FG_COLOUR ''creating directories... '' a;
          (result, w) = make_directories (dev N) (directories a1) FR_OK (world a1);
          a2 = a1\<lparr>world := w\<rparr>
      in if result \<noteq> FR_OK then transition_error N a2 (''error '' @ ff_result_to_str result @ '' creating directories.'')
         else Some (primary_puts FG_COLOUR ''ok\<newline>'' a2, Some g_flash_files_state))"

definition flash_file :: "psar_env \<Rightarrow> ('w, 'fil) dev_ops \<Rightarrow> 'w on_file_func" where
  "flash_file E D w km path data len prop =
     (case f_create D w path of (res, fd, w1) \<Rightarrow>
        if res \<noteq> FR_OK then Some (1, w1, km, data)
        else do {
          (pres, data1, km1) \<leftarrow>
            (if personalisation prop = PSAR_FILE_REQ_PERSONALISED then personalise (kirk E) km data
             else Some (PERSONALISATION_RESULT_OK, data, km));
          if pres \<noteq> PERSONALISATION_RESULT_OK then Some (1, w1, km1, data1)
          else do {
            bytes \<leftarrow> mem_read data1 0 (unat len);
            let (wres, _, fd2, w2) = f_write D w1 fd bytes;
            if wres \<noteq> FR_OK then Some (1, w2, km1, data1)
            else let (cres, w3) = f_close_written D w2 fd2
              in Some (if cres \<noteq> FR_OK then 1 else 0, w3, km1, data1)
          }
        })"

definition on_read_psar_file :: "psar_env \<Rightarrow> ('w, 'fil) dev_ops \<Rightarrow> 'w on_file_func" where
  "on_read_psar_file E D w km path data len prop =
     (if file_type prop = PSAR_FILE_TYPE_IPL then do {
        let w1 = emcsm_set_scramble_0 D w;
        let (_, w2) = clear_ipl (nand D) w1;
        (_, w3) \<leftarrow> write_ipl (nand D) (psp_model E) w2 data len;
        Some (0, w3, km, data)
      }
      else flash_file E D w km path data len prop)"

lemma on_read_psar_file_lengths:
  assumes "kirk_ok (kirk E)" "on_read_psar_file E D w km path data len pr = Some (r, w', km', data')"
  shows "length km' = length km \<and> length data' = length data"
proof (cases "file_type pr = PSAR_FILE_TYPE_IPL")
  case True
  then show ?thesis using assms(2) by (auto simp: on_read_psar_file_def bind_eq_Some_conv case_prod_beta Let_def)
next
  case False
  then have "flash_file E D w km path data len pr = Some (r, w', km', data')" using assms(2) by (simp add: on_read_psar_file_def)
  then show ?thesis
    by (auto simp: flash_file_def bind_eq_Some_conv case_prod_beta Let_def dest!: personalise_lengths [OF assms(1)] split: if_splits)
qed

definition flash_files_on_enter :: "('w, 'fil, 'h) app_env \<Rightarrow> ('w, 'fil) app \<Rightarrow> (('w, 'fil) app \<times> State option) option" where
  "flash_files_on_enter N a = do {
     let a1 = primary_puts FG_COLOUR ''flashing files... '' a;
     (res, st, w) \<leftarrow> psar_read_each_file (penv N) (card N) (on_read_psar_file (penv N) (dev N)) (ph a1) (world a1);
     let a2 = a1\<lparr>ph := st, world := w\<rparr>;
     if res \<noteq> PSAR_RESULT_OK then transition_error N a2 (''error '' @ decimal (psar_code res) @ '' flashing files.'')
     else Some (primary_puts FG_COLOUR ''ok\<newline>'' a2, Some g_finish_state)
   }"

section \<open>The last states\<close>

definition finish_on_enter :: "('w, 'fil) app \<Rightarrow> (('w, 'fil) app \<times> State option) option" where
  "finish_on_enter a = Some (primary_puts FG_COLOUR_SUCCESS ''\<newline>Done. Press X to reboot.\<newline>'' a, None)"

definition finish_on_key_press :: "('w, 'fil, 'h) app_env \<Rightarrow> ('w, 'fil) app \<Rightarrow> u32 \<Rightarrow> (('w, 'fil) app \<times> State option) option" where
  "finish_on_key_press N a keys =
     Some (if IS_KEY_PRESSED keys (SYSCON_CTRL_CROSS N) then a\<lparr>world := syscon_reset_device (dev N) (world a)\<rparr> else a, None)"

definition error_on_enter :: "('w, 'fil) app \<Rightarrow> (('w, 'fil) app \<times> State option) option" where
  "error_on_enter a =
     (let a1 = primary_puts FG_COLOUR_ERR ''failed\<newline>'' a in
      Some (case g_why a1 of None \<Rightarrow> a1 | Some m \<Rightarrow> primary_puts FG_COLOUR_ERR m a1, None))"

text \<open>The function pointers of the \<^verbatim>\<open>State\<close> objects.\<close>

fun on_enter :: "('w, 'fil, 'h) app_env \<Rightarrow> State \<Rightarrow> ('w, 'fil) app \<Rightarrow> (('w, 'fil) app \<times> State option) option" where
  "on_enter N g_init_state a = init_on_enter N a"
| "on_enter N g_menu_state a = menu_on_enter N a"
| "on_enter N g_mount_ms_state a = mount_ms_on_enter N a"
| "on_enter N g_check_updater_state a = check_updater_on_enter N a"
| "on_enter N g_process_psar_state a = process_psar_on_enter N a"
| "on_enter N g_partition_flash_state a = partition_flash_on_enter N a"
| "on_enter N g_format_flash_state a = format_flash_on_enter N a"
| "on_enter N g_mount_flash_state a = mount_flash_on_enter N a"
| "on_enter N g_create_directories_state a = create_directories_on_enter N a"
| "on_enter N g_flash_files_state a = flash_files_on_enter N a"
| "on_enter N g_finish_state a = finish_on_enter a"
| "on_enter N g_error_state a = error_on_enter a"

fun on_key_press :: "('w, 'fil, 'h) app_env \<Rightarrow> State \<Rightarrow> ('w, 'fil) app \<Rightarrow> u32 \<Rightarrow> (('w, 'fil) app \<times> State option) option" where
  "on_key_press N g_menu_state a keys = menu_on_key_press N a keys"
| "on_key_press N g_finish_state a keys = finish_on_key_press N a keys"
| "on_key_press N _ a keys = Some (a, None)"

text \<open>The callback reports success for the boot loader, whatever \<^verbatim>\<open>write_ipl\<close> returned.\<close>

lemma ipl_result_ignored:
  assumes "file_type prop = PSAR_FILE_TYPE_IPL"
    and "write_ipl (nand D) (psp_model E) (snd (clear_ipl (nand D) (emcsm_set_scramble_0 D w))) data len = Some (res, w')"
  shows "on_read_psar_file E D w km path data len prop = Some (0, w', km, data)"
  using assms by (simp add: on_read_psar_file_def case_prod_beta Let_def)

end
