(* ===== verification/Thread.thy ===== *)
theory Thread
  imports Prelude
begin

text \<open>
  kernel/thread.c: threads, the run queues and the wait queues of the kernel, for one
  processor and the fixed-rate timer of the target (\<^verbatim>\<open>WITH_SMP\<close> and
  \<^verbatim>\<open>PLATFORM_HAS_DYNAMIC_TIMER\<close> unset).

  A thread is a number, the kernel state maps it to its \<^verbatim>\<open>thread_t\<close>. The node
  \<^verbatim>\<open>queue_node\<close> is in at most one list; \<open>queued\<close> is \<^verbatim>\<open>list_in_list(&t->queue_node)\<close>. A
  failed \<^verbatim>\<open>DEBUG_ASSERT\<close> is \<open>None\<close>. A function that switches threads is modelled up to
  the switch: the state afterwards has the next thread as \<open>current_thread\<close>. Statistics,
  stack checks and the debug LED are left out.
\<close>

section \<open>Data\<close>

type_synonym tid = nat
type_synonym wqid = nat

datatype thread_state = THREAD_SUSPENDED | THREAD_READY | THREAD_RUNNING | THREAD_BLOCKED
  | THREAD_SLEEPING | THREAD_DEATH

record thread_t =
  t_magic :: bool
  queued :: bool
  priority :: nat
  t_state :: thread_state
  remaining_quantum :: int
  flag_detached :: bool
  flag_real_time :: bool
  flag_idle :: bool
  blocking_wait_queue :: "wqid option"
  wait_queue_block_ret :: status_t
  retcode :: int
  retcode_wait_queue :: wqid

record wait_queue_t =
  wq_magic :: bool
  wq_list :: "tid list"
  wq_count :: int

record kernel =
  threads :: "tid \<Rightarrow> thread_t"
  run_queue :: "nat \<Rightarrow> tid list"
  run_queue_bitmap :: u32
  wait_queues :: "wqid \<Rightarrow> wait_queue_t"
  current_thread :: tid
  thread_list :: "tid list"

abbreviation (input) NUM_PRIORITIES :: nat where "NUM_PRIORITIES \<equiv> 32"
abbreviation (input) HIGHEST_PRIORITY :: nat where "HIGHEST_PRIORITY \<equiv> 31"
abbreviation (input) IDLE_PRIORITY :: nat where "IDLE_PRIORITY \<equiv> 0"
abbreviation (input) DEFAULT_PRIORITY :: nat where "DEFAULT_PRIORITY \<equiv> 16"

definition idle_thread :: tid where
  "idle_thread = 0"

definition upd_thread :: "kernel \<Rightarrow> tid \<Rightarrow> (thread_t \<Rightarrow> thread_t) \<Rightarrow> kernel" where
  "upd_thread K t f = K\<lparr>threads := (threads K)(t := f (threads K t))\<rparr>"

definition upd_wq :: "kernel \<Rightarrow> wqid \<Rightarrow> (wait_queue_t \<Rightarrow> wait_queue_t) \<Rightarrow> kernel" where
  "upd_wq K w f = K\<lparr>wait_queues := (wait_queues K)(w := f (wait_queues K w))\<rparr>"

section \<open>Run queues\<close>

definition insert_in_run_queue_head :: "kernel \<Rightarrow> tid \<Rightarrow> kernel option" where
  "insert_in_run_queue_head K t =
     (let th = threads K t; p = priority th in
      if t_magic th \<and> t_state th = THREAD_READY \<and> \<not> queued th then
        Some (upd_thread (K\<lparr>run_queue := (run_queue K)(p := t # run_queue K p),
                run_queue_bitmap := run_queue_bitmap K OR (2 ^ p)\<rparr>) t (\<lambda>th. th\<lparr>queued := True\<rparr>))
      else None)"

definition insert_in_run_queue_tail :: "kernel \<Rightarrow> tid \<Rightarrow> kernel option" where
  "insert_in_run_queue_tail K t =
     (let th = threads K t; p = priority th in
      if t_magic th \<and> t_state th = THREAD_READY \<and> \<not> queued th then
        Some (upd_thread (K\<lparr>run_queue := (run_queue K)(p := run_queue K p @ [t]),
                run_queue_bitmap := run_queue_bitmap K OR (2 ^ p)\<rparr>) t (\<lambda>th. th\<lparr>queued := True\<rparr>))
      else None)"

text \<open>\<^verbatim>\<open>sizeof(bitmap) * 8 - 1 - __builtin_clz(bitmap)\<close>: the highest bit set.\<close>

fun find_top :: "u32 \<Rightarrow> nat \<Rightarrow> nat option" where
  "find_top bm 0 = None"
| "find_top bm (Suc n) = (if bit bm n then Some n else find_top bm n)"

definition top_bit :: "u32 \<Rightarrow> nat option" where
  "top_bit bm = find_top bm 32"

lemma find_top_Some: "find_top bm n = Some p \<Longrightarrow> bit bm p \<and> p < n \<and> (\<forall>q. p < q \<and> q < n \<longrightarrow> \<not> bit bm q)"
  by (induction n) (auto split: if_splits simp: less_Suc_eq)

lemma find_top_None: "find_top bm n = None \<Longrightarrow> p < n \<Longrightarrow> \<not> bit bm p"
  by (induction n) (auto split: if_splits simp: less_Suc_eq)

lemma clear_bit_less: "bit bm p \<Longrightarrow> unat (bm AND NOT (2 ^ p)) < unat (bm :: u32)"
proof -
  assume b: "bit bm p"
  have "bm AND NOT (2 ^ p) \<le> bm" by (rule word_and_le2)
  moreover have "\<not> bit (bm AND NOT (2 ^ p)) p"
    using b by (auto simp: bit_simps dest: bit_imp_le_length)
  then have "bm AND NOT (2 ^ p) \<noteq> bm" using b by metis
  ultimately show ?thesis by (simp add: word_less_nat_alt [symmetric])
qed

text \<open>
  The loop of \<^verbatim>\<open>get_top_thread\<close> over the local copy of the bitmap. A queue whose bit is set
  but which is empty is skipped.
\<close>

function get_top_loop :: "kernel \<Rightarrow> u32 \<Rightarrow> tid \<times> kernel" where
  "get_top_loop K bm =
     (case top_bit bm of
        None \<Rightarrow> (idle_thread, K)
      | Some q \<Rightarrow>
          (case run_queue K q of
             newthread # rest \<Rightarrow>
               (newthread,
                upd_thread (K\<lparr>run_queue := (run_queue K)(q := rest),
                  run_queue_bitmap := (if rest = [] then run_queue_bitmap K AND NOT (2 ^ q)
                                       else run_queue_bitmap K)\<rparr>)
                  newthread (\<lambda>th. th\<lparr>queued := False\<rparr>))
           | [] \<Rightarrow> get_top_loop K (bm AND NOT (2 ^ q))))"
  by pat_completeness auto
termination
  by (relation "measure (\<lambda>(K, bm). unat bm)")
     (auto simp: top_bit_def dest: find_top_Some intro: clear_bit_less)

declare get_top_loop.simps [simp del]

definition get_top_thread :: "kernel \<Rightarrow> tid \<times> kernel" where
  "get_top_thread K = get_top_loop K (run_queue_bitmap K)"

definition thread_resched :: "kernel \<Rightarrow> kernel option" where
  "thread_resched K =
     (if t_state (threads K (current_thread K)) = THREAD_RUNNING then None
      else
        (let (newthread, K1) = get_top_thread K;
             K2 = upd_thread K1 newthread (\<lambda>th. th\<lparr>t_state := THREAD_RUNNING\<rparr>)
         in if newthread = current_thread K then Some K2
            else
              (let K3 = (if remaining_quantum (threads K2 newthread) \<le> 0
                         then upd_thread K2 newthread (\<lambda>th. th\<lparr>remaining_quantum := 5\<rparr>) else K2)
               in Some (K3\<lparr>current_thread := newthread\<rparr>))))"

section \<open>Giving up the processor\<close>

definition thread_is_idle :: "thread_t \<Rightarrow> bool" where
  "thread_is_idle th = flag_idle th"

definition thread_is_real_time_or_idle :: "thread_t \<Rightarrow> bool" where
  "thread_is_real_time_or_idle th = (flag_real_time th \<or> flag_idle th)"

definition running :: "kernel \<Rightarrow> bool" where
  "running K \<longleftrightarrow> t_magic (threads K (current_thread K)) \<and>
     t_state (threads K (current_thread K)) = THREAD_RUNNING"

definition thread_yield :: "kernel \<Rightarrow> kernel option" where
  "thread_yield K =
     (if \<not> running K then None
      else
        (let c = current_thread K;
             K1 = upd_thread K c (\<lambda>th. th\<lparr>t_state := THREAD_READY, remaining_quantum := 0\<rparr>)
         in do {
           K2 \<leftarrow> (if \<not> thread_is_idle (threads K1 c) then insert_in_run_queue_tail K1 c else Some K1);
           thread_resched K2
         }))"

definition thread_preempt :: "kernel \<Rightarrow> kernel option" where
  "thread_preempt K =
     (if \<not> running K then None
      else
        (let c = current_thread K; K1 = upd_thread K c (\<lambda>th. th\<lparr>t_state := THREAD_READY\<rparr>)
         in do {
           K2 \<leftarrow> (if \<not> thread_is_idle (threads K1 c) then
                   (if remaining_quantum (threads K1 c) > 0 then insert_in_run_queue_head K1 c
                    else insert_in_run_queue_tail K1 c)
                 else Some K1);
           thread_resched K2
         }))"

datatype handler_return = INT_NO_RESCHEDULE | INT_RESCHEDULE

definition thread_timer_tick :: "kernel \<Rightarrow> handler_return \<times> kernel" where
  "thread_timer_tick K =
     (let c = current_thread K in
      if thread_is_real_time_or_idle (threads K c) then (INT_NO_RESCHEDULE, K)
      else
        (let K1 = upd_thread K c (\<lambda>th. th\<lparr>remaining_quantum := remaining_quantum th - 1\<rparr>)
         in (if remaining_quantum (threads K1 c) \<le> 0 then INT_RESCHEDULE else INT_NO_RESCHEDULE, K1)))"

definition thread_sleep :: "kernel \<Rightarrow> kernel option" where
  "thread_sleep K =
     (if \<not> running K \<or> thread_is_idle (threads K (current_thread K)) then None
      else thread_resched (upd_thread K (current_thread K) (\<lambda>th. th\<lparr>t_state := THREAD_SLEEPING\<rparr>)))"

definition thread_sleep_handler :: "kernel \<Rightarrow> tid \<Rightarrow> (handler_return \<times> kernel) option" where
  "thread_sleep_handler K t =
     (if t_magic (threads K t) \<and> t_state (threads K t) = THREAD_SLEEPING then
        do {
          K1 \<leftarrow> insert_in_run_queue_head (upd_thread K t (\<lambda>th. th\<lparr>t_state := THREAD_READY\<rparr>)) t;
          Some (INT_RESCHEDULE, K1)
        }
      else None)"

text \<open>Any \<^verbatim>\<open>int\<close> may be passed; it is clamped to 1..31.\<close>

definition clamp_priority :: "int \<Rightarrow> nat" where
  "clamp_priority p =
     (let p1 = (if p \<le> int IDLE_PRIORITY then int IDLE_PRIORITY + 1 else p);
          p2 = (if p1 > int HIGHEST_PRIORITY then int HIGHEST_PRIORITY else p1)
      in nat p2)"

definition thread_set_priority :: "kernel \<Rightarrow> int \<Rightarrow> kernel option" where
  "thread_set_priority K p =
     (let c = current_thread K;
          K1 = upd_thread K c (\<lambda>th. th\<lparr>priority := clamp_priority p, t_state := THREAD_READY\<rparr>)
      in do { K2 \<leftarrow> insert_in_run_queue_head K1 c; thread_resched K2 })"

definition thread_set_real_time :: "kernel \<Rightarrow> tid \<Rightarrow> (status_t \<times> kernel) option" where
  "thread_set_real_time K t =
     (if \<not> t_magic (threads K t) then None
      else Some (NO_ERROR, upd_thread K t (\<lambda>th. th\<lparr>flag_real_time := True\<rparr>)))"

section \<open>Wait queues\<close>

definition wait_queue_init :: "kernel \<Rightarrow> wqid \<Rightarrow> kernel" where
  "wait_queue_init K w = upd_wq K w (\<lambda>_. \<lparr>wq_magic = True, wq_list = [], wq_count = 0\<rparr>)"

datatype lk_time = INFINITE_TIME | Millis u32

text \<open>
  \<^verbatim>\<open>wait_queue_block\<close> up to the switch: \<open>Inl\<close> the immediate result, or \<open>Inr\<close> the state in
  which another thread runs. When the blocked thread runs again it returns its
  \<^verbatim>\<open>wait_queue_block_ret\<close>, which is \<open>wait_queue_block_result\<close>. The timer of a finite
  timeout is an external event that may run \<open>wait_queue_timeout_handler\<close>.
\<close>

definition wait_queue_block :: "kernel \<Rightarrow> wqid \<Rightarrow> lk_time \<Rightarrow> (status_t + kernel) option" where
  "wait_queue_block K w timeout =
     (if \<not> wq_magic (wait_queues K w) \<or> t_state (threads K (current_thread K)) \<noteq> THREAD_RUNNING then None
      else if timeout = Millis 0 then Some (Inl ERR_TIMED_OUT)
      else
        (let c = current_thread K;
             K1 = upd_wq K w (\<lambda>q. q\<lparr>wq_list := wq_list q @ [c], wq_count := wq_count q + 1\<rparr>);
             K2 = upd_thread K1 c (\<lambda>th. th\<lparr>queued := True, t_state := THREAD_BLOCKED,
                    blocking_wait_queue := Some w, wait_queue_block_ret := NO_ERROR\<rparr>)
         in map_option Inr (thread_resched K2)))"

definition wait_queue_block_result :: "kernel \<Rightarrow> status_t" where
  "wait_queue_block_result K = wait_queue_block_ret (threads K (current_thread K))"

text \<open>Take the head of a wait queue off it and make it ready.\<close>

definition wake_head :: "kernel \<Rightarrow> wqid \<Rightarrow> status_t \<Rightarrow> (tid \<times> kernel) option" where
  "wake_head K w err =
     (case wq_list (wait_queues K w) of
        [] \<Rightarrow> None
      | t # ts \<Rightarrow>
          if t_state (threads K t) \<noteq> THREAD_BLOCKED then None
          else Some (t, upd_thread
             (upd_wq K w (\<lambda>q. q\<lparr>wq_list := ts, wq_count := wq_count q - 1\<rparr>)) t
             (\<lambda>th. th\<lparr>queued := False, t_state := THREAD_READY, wait_queue_block_ret := err,
                blocking_wait_queue := None\<rparr>)))"

definition wait_queue_wake_one :: "kernel \<Rightarrow> wqid \<Rightarrow> bool \<Rightarrow> status_t \<Rightarrow> (int \<times> kernel) option" where
  "wait_queue_wake_one K w reschedule err =
     (if \<not> wq_magic (wait_queues K w) then None
      else if wq_list (wait_queues K w) = [] then Some (0, K)
      else do {
        (t, K1) \<leftarrow> wake_head K w err;
        let c = current_thread K;
        K2 \<leftarrow> (if reschedule then
                insert_in_run_queue_head (upd_thread K1 c (\<lambda>th. th\<lparr>t_state := THREAD_READY\<rparr>)) c
              else Some K1);
        K3 \<leftarrow> insert_in_run_queue_head K2 t;
        K4 \<leftarrow> (if reschedule then thread_resched K3 else Some K3);
        Some (1, K4)
      })"

fun wake_loop :: "kernel \<Rightarrow> wqid \<Rightarrow> status_t \<Rightarrow> nat \<Rightarrow> int \<Rightarrow> (int \<times> kernel) option" where
  "wake_loop K w err 0 ret = (if wq_list (wait_queues K w) = [] then Some (ret, K) else None)"
| "wake_loop K w err (Suc n) ret =
     (if wq_list (wait_queues K w) = [] then Some (ret, K)
      else do {
        (t, K1) \<leftarrow> wake_head K w err;
        K2 \<leftarrow> insert_in_run_queue_head K1 t;
        wake_loop K2 w err n (ret + 1)
      })"

definition wait_queue_wake_all :: "kernel \<Rightarrow> wqid \<Rightarrow> bool \<Rightarrow> status_t \<Rightarrow> (int \<times> kernel) option" where
  "wait_queue_wake_all K w reschedule err =
     (if \<not> wq_magic (wait_queues K w) then None
      else do {
        let c = current_thread K;
        K1 \<leftarrow> (if reschedule \<and> wq_count (wait_queues K w) > 0 then
                insert_in_run_queue_head (upd_thread K c (\<lambda>th. th\<lparr>t_state := THREAD_READY\<rparr>)) c
              else Some K);
        (ret, K2) \<leftarrow> wake_loop K1 w err (length (wq_list (wait_queues K1 w))) 0;
        if wq_count (wait_queues K2 w) \<noteq> 0 then None
        else if ret > 0 \<and> reschedule then do { K3 \<leftarrow> thread_resched K2; Some (ret, K3) }
        else Some (ret, K2)
      })"

definition wait_queue_destroy :: "kernel \<Rightarrow> wqid \<Rightarrow> bool \<Rightarrow> kernel option" where
  "wait_queue_destroy K w reschedule = do {
     (_, K1) \<leftarrow> wait_queue_wake_all K w reschedule ERR_OBJECT_DESTROYED;
     Some (upd_wq K1 w (\<lambda>q. q\<lparr>wq_magic := False\<rparr>))
   }"

definition thread_unblock_from_wait_queue :: "kernel \<Rightarrow> tid \<Rightarrow> status_t \<Rightarrow> (status_t \<times> kernel) option" where
  "thread_unblock_from_wait_queue K t err =
     (if \<not> t_magic (threads K t) then None
      else if t_state (threads K t) \<noteq> THREAD_BLOCKED then Some (ERR_NOT_BLOCKED, K)
      else
        (case blocking_wait_queue (threads K t) of
           None \<Rightarrow> None
         | Some w \<Rightarrow>
             if \<not> wq_magic (wait_queues K w) \<or> \<not> queued (threads K t) then None
             else do {
               K1 \<leftarrow> insert_in_run_queue_head (upd_thread
                 (upd_wq K w (\<lambda>q. q\<lparr>wq_list := remove1 t (wq_list q), wq_count := wq_count q - 1\<rparr>)) t
                 (\<lambda>th. th\<lparr>queued := False, blocking_wait_queue := None, t_state := THREAD_READY,
                    wait_queue_block_ret := err\<rparr>)) t;
               Some (NO_ERROR, K1)
             }))"

definition wait_queue_timeout_handler :: "kernel \<Rightarrow> tid \<Rightarrow> (handler_return \<times> kernel) option" where
  "wait_queue_timeout_handler K t = do {
     (st, K1) \<leftarrow> thread_unblock_from_wait_queue K t ERR_TIMED_OUT;
     Some (if st = NO_ERROR then INT_RESCHEDULE else INT_NO_RESCHEDULE, K1)
   }"

section \<open>Life of a thread\<close>

text \<open>
  \<^verbatim>\<open>thread_create_etc\<close> for a fresh thread \<open>t\<close>, given whether the two allocations succeed.
\<close>

definition thread_create :: "kernel \<Rightarrow> tid \<Rightarrow> wqid \<Rightarrow> nat \<Rightarrow> bool \<Rightarrow> bool \<Rightarrow> (tid option \<times> kernel)" where
  "thread_create K t w prio struct_ok stack_ok =
     (if \<not> struct_ok \<or> \<not> stack_ok then (None, K)
      else
        (let th = \<lparr>t_magic = True, queued = False, priority = prio, t_state = THREAD_SUSPENDED,
               remaining_quantum = 0, flag_detached = False, flag_real_time = False,
               flag_idle = False, blocking_wait_queue = None, wait_queue_block_ret = NO_ERROR,
               retcode = 0, retcode_wait_queue = w\<rparr>;
             K1 = wait_queue_init (upd_thread K t (\<lambda>_. th)) w
         in (Some t, K1\<lparr>thread_list := t # thread_list K1\<rparr>)))"

definition thread_resume :: "kernel \<Rightarrow> tid \<Rightarrow> bool \<Rightarrow> (status_t \<times> kernel) option" where
  "thread_resume K t ints_disabled =
     (if \<not> t_magic (threads K t) \<or> t_state (threads K t) = THREAD_DEATH then None
      else if t_state (threads K t) = THREAD_SUSPENDED then
        do {
          K1 \<leftarrow> insert_in_run_queue_head (upd_thread K t (\<lambda>th. th\<lparr>t_state := THREAD_READY\<rparr>)) t;
          K2 \<leftarrow> (if \<not> ints_disabled then thread_yield K1 else Some K1);
          Some (NO_ERROR, K2)
        }
      else Some (NO_ERROR, K))"

text \<open>The end of \<^verbatim>\<open>thread_join\<close>, once the thread is dead.\<close>

definition thread_reap :: "kernel \<Rightarrow> tid \<Rightarrow> (int \<times> kernel) option" where
  "thread_reap K t =
     (let th = threads K t in
      if t_magic th \<and> t_state th = THREAD_DEATH \<and> blocking_wait_queue th = None \<and> \<not> queued th
      then Some (retcode th, (upd_thread K t (\<lambda>th. th\<lparr>t_magic := False\<rparr>))
             \<lparr>thread_list := remove1 t (thread_list K)\<rparr>)
      else None)"

text \<open>\<open>Inl\<close>: joined (or an error) at once; \<open>Inr\<close>: the caller waits for the thread to die.\<close>

definition thread_join :: "kernel \<Rightarrow> tid \<Rightarrow> lk_time \<Rightarrow> ((status_t \<times> int option \<times> kernel) + kernel) option" where
  "thread_join K t timeout =
     (if \<not> t_magic (threads K t) then None
      else if flag_detached (threads K t) then Some (Inl (ERR_THREAD_DETACHED, None, K))
      else if t_state (threads K t) \<noteq> THREAD_DEATH then
        do {
          r \<leftarrow> wait_queue_block K (retcode_wait_queue (threads K t)) timeout;
          Some (case r of Inl err \<Rightarrow> Inl (err, None, K) | Inr K1 \<Rightarrow> Inr K1)
        }
      else do { (rc, K1) \<leftarrow> thread_reap K t; Some (Inl (NO_ERROR, Some rc, K1)) })"

definition thread_detach :: "kernel \<Rightarrow> tid \<Rightarrow> (status_t \<times> kernel) option" where
  "thread_detach K t =
     (if \<not> t_magic (threads K t) then None
      else do {
        (_, K1) \<leftarrow> wait_queue_wake_all K (retcode_wait_queue (threads K t)) False ERR_THREAD_DETACHED;
        if t_state (threads K1 t) = THREAD_DEATH then
          do {
            (_, K2) \<leftarrow> thread_reap (upd_thread K1 t (\<lambda>th. th\<lparr>flag_detached := False\<rparr>)) t;
            Some (NO_ERROR, K2)
          }
        else Some (NO_ERROR, upd_thread K1 t (\<lambda>th. th\<lparr>flag_detached := True\<rparr>))
      })"

definition thread_detach_and_resume :: "kernel \<Rightarrow> tid \<Rightarrow> bool \<Rightarrow> (status_t \<times> kernel) option" where
  "thread_detach_and_resume K t ints_disabled = do {
     (err, K1) \<leftarrow> thread_detach K t;
     if err \<noteq> NO_ERROR then Some (err, K1) else thread_resume K1 t ints_disabled
   }"

text \<open>\<^verbatim>\<open>thread_exit\<close> never returns: the result is the state in which the next thread runs.\<close>

definition thread_exit :: "kernel \<Rightarrow> int \<Rightarrow> kernel option" where
  "thread_exit K rc =
     (let c = current_thread K in
      if \<not> running K \<or> thread_is_idle (threads K c) then None
      else
        (let K1 = upd_thread K c (\<lambda>th. th\<lparr>t_state := THREAD_DEATH, retcode := rc\<rparr>) in
         if flag_detached (threads K c) then
           thread_resched ((upd_thread K1 c (\<lambda>th. th\<lparr>t_magic := False\<rparr>))
             \<lparr>thread_list := remove1 c (thread_list K1)\<rparr>)
         else do {
           (_, K2) \<leftarrow> wait_queue_wake_all K1 (retcode_wait_queue (threads K c)) False NO_ERROR;
           thread_resched K2
         }))"

end
