(* ===== verification/Thread_Inv.thy ===== *)
theory Thread_Inv
  imports Thread
begin

text \<open>
  The invariant of the scheduler. \<open>core X K\<close>: the run queues, the bitmap, the wait queues and
  the thread states agree, for every thread outside \<open>X\<close>; the threads of \<open>X\<close> are in flight
  between two queues. \<open>kernel_wf\<close> adds that exactly the current thread is running. Every
  operation keeps \<open>kernel_wf\<close> and never fails an assertion.
\<close>

definition runq_ok :: "tid set \<Rightarrow> kernel \<Rightarrow> bool" where
  "runq_ok X K \<longleftrightarrow>
     (\<forall>p. bit (run_queue_bitmap K) p = (run_queue K p \<noteq> [])) \<and>
     (\<forall>p. distinct (run_queue K p)) \<and>
     (\<forall>p t. t \<in> set (run_queue K p) \<longrightarrow> t \<notin> X \<and> t \<noteq> idle_thread \<and> t_magic (threads K t) \<and>
        queued (threads K t) \<and> t_state (threads K t) = THREAD_READY \<and> priority (threads K t) = p)"

definition waitq_ok :: "tid set \<Rightarrow> kernel \<Rightarrow> bool" where
  "waitq_ok X K \<longleftrightarrow>
     (\<forall>w. distinct (wq_list (wait_queues K w)) \<and>
        wq_count (wait_queues K w) = int (length (wq_list (wait_queues K w))) \<and>
        (wq_list (wait_queues K w) \<noteq> [] \<longrightarrow> wq_magic (wait_queues K w))) \<and>
     (\<forall>w t. t \<in> set (wq_list (wait_queues K w)) \<longrightarrow> t \<notin> X \<and> t \<noteq> idle_thread \<and> t_magic (threads K t) \<and>
        queued (threads K t) \<and> t_state (threads K t) = THREAD_BLOCKED \<and>
        blocking_wait_queue (threads K t) = Some w)"

text \<open>Where a thread has to be, given its state.\<close>

definition placed :: "kernel \<Rightarrow> tid \<Rightarrow> bool" where
  "placed K t \<longleftrightarrow>
     (t \<noteq> idle_thread \<and> t_state (threads K t) = THREAD_READY \<longrightarrow> t \<in> set (run_queue K (priority (threads K t)))) \<and>
     (t_state (threads K t) = THREAD_BLOCKED \<longrightarrow>
        (\<exists>w. blocking_wait_queue (threads K t) = Some w \<and> t \<in> set (wq_list (wait_queues K w)))) \<and>
     (queued (threads K t) \<longrightarrow> t_state (threads K t) = THREAD_READY \<or> t_state (threads K t) = THREAD_BLOCKED)"

definition thread_ok :: "tid \<Rightarrow> thread_t \<Rightarrow> bool" where
  "thread_ok t th \<longleftrightarrow> priority th < NUM_PRIORITIES \<and> (t_state th \<noteq> THREAD_DEATH \<longrightarrow> t_magic th) \<and>
     (flag_idle th = (t = idle_thread)) \<and>
     (t_state th \<noteq> THREAD_BLOCKED \<longrightarrow> blocking_wait_queue th = None) \<and>
     (t = idle_thread \<longrightarrow> \<not> queued th \<and> (t_state th = THREAD_READY \<or> t_state th = THREAD_RUNNING))"

definition core :: "tid set \<Rightarrow> kernel \<Rightarrow> bool" where
  "core X K \<longleftrightarrow> runq_ok X K \<and> waitq_ok X K \<and> (\<forall>t. t \<notin> X \<longrightarrow> placed K t) \<and>
     (\<forall>t \<in> X. \<not> queued (threads K t)) \<and> (\<forall>t. thread_ok t (threads K t))"

definition kernel_wf :: "kernel \<Rightarrow> bool" where
  "kernel_wf K \<longleftrightarrow> core {} K \<and> (\<forall>t. t_state (threads K t) = THREAD_RUNNING \<longleftrightarrow> t = current_thread K)"

text \<open>The state in which \<^verbatim>\<open>thread_resched\<close> may be called: nothing is running.\<close>

definition switchable :: "kernel \<Rightarrow> bool" where
  "switchable K \<longleftrightarrow> core {} K \<and> (\<forall>t. t_state (threads K t) \<noteq> THREAD_RUNNING)"

lemmas core_defs = core_def runq_ok_def waitq_ok_def placed_def thread_ok_def

lemma upd_thread_sel [simp]:
  "threads (upd_thread K t f) = (threads K)(t := f (threads K t))"
  "run_queue (upd_thread K t f) = run_queue K"
  "run_queue_bitmap (upd_thread K t f) = run_queue_bitmap K"
  "wait_queues (upd_thread K t f) = wait_queues K"
  "current_thread (upd_thread K t f) = current_thread K"
  "thread_list (upd_thread K t f) = thread_list K"
  by (simp_all add: upd_thread_def)

lemma upd_thread_twice [simp]: "upd_thread (upd_thread K t f) t g = upd_thread K t (\<lambda>th. g (f th))"
  by (simp add: upd_thread_def)

lemma upd_wq_sel [simp]:
  "threads (upd_wq K w g) = threads K"
  "run_queue (upd_wq K w g) = run_queue K"
  "run_queue_bitmap (upd_wq K w g) = run_queue_bitmap K"
  "wait_queues (upd_wq K w g) = (wait_queues K)(w := g (wait_queues K w))"
  "current_thread (upd_wq K w g) = current_thread K"
  "thread_list (upd_wq K w g) = thread_list K"
  by (simp_all add: upd_wq_def)

section \<open>Threads in flight\<close>

lemma core_float:
  "core X K \<Longrightarrow> \<not> queued (threads K t) \<Longrightarrow> core (insert t X) K"
  by (auto simp: core_defs)

lemma core_land:
  "core X K \<Longrightarrow> t_state (threads K t) \<noteq> THREAD_BLOCKED \<Longrightarrow>
   t = idle_thread \<or> t_state (threads K t) \<noteq> THREAD_READY \<Longrightarrow> core (X - {t}) K"
  by (auto simp: core_defs)

lemma core_upd_float:
  assumes "core X K" "t \<in> X" "thread_ok t (f (threads K t))" "\<not> queued (f (threads K t))"
  shows "core X (upd_thread K t f)"
  using assms unfolding core_def
  by (auto simp: runq_ok_def waitq_ok_def placed_def)

lemma core_thread_list [simp]: "core X (K\<lparr>thread_list := l\<rparr>) = core X K"
  by (simp add: core_defs)

lemma core_current [simp]: "core X (K\<lparr>current_thread := c\<rparr>) = core X K"
  by (simp add: core_defs)

section \<open>Moves between queues\<close>

lemma bit_set_iff: "p < 32 \<Longrightarrow> bit ((bm :: u32) OR 2 ^ p) q = (bit bm q \<or> q = p)"
  by (auto simp: bit_simps)

lemma bit_clear_iff: "p < 32 \<Longrightarrow> bit ((bm :: u32) AND NOT (2 ^ p)) q = (bit bm q \<and> q \<noteq> p)"
  by (auto simp: bit_simps dest: bit_imp_le_length)

lemma placed_mono:
  "placed K s \<Longrightarrow> threads K' s = threads K s \<Longrightarrow>
   (\<And>p. s \<in> set (run_queue K p) \<Longrightarrow> s \<in> set (run_queue K' p)) \<Longrightarrow>
   (\<And>w. s \<in> set (wq_list (wait_queues K w)) \<Longrightarrow> s \<in> set (wq_list (wait_queues K' w))) \<Longrightarrow> placed K' s"
  unfolding placed_def by auto

text \<open>Putting a ready thread in flight on its run queue, at either end.\<close>

lemma core_runq_put:
  assumes c: "core X K" and t: "t \<in> X" "t \<noteq> idle_thread" "t_state (threads K t) = THREAD_READY"
    and rq: "set rq = insert t (set (run_queue K (priority (threads K t))))" "distinct rq"
  shows "core (X - {t}) (upd_thread (K\<lparr>run_queue := (run_queue K)(priority (threads K t) := rq),
    run_queue_bitmap := run_queue_bitmap K OR 2 ^ priority (threads K t)\<rparr>) t (\<lambda>th. th\<lparr>queued := True\<rparr>))"
    (is "core _ ?K'")
proof -
  have ok: "thread_ok t (threads K t)" using c by (simp add: core_def)
  then have p: "priority (threads K t) < 32" "t_magic (threads K t)" using t by (auto simp: thread_ok_def)
  have ne: "rq \<noteq> []" using rq(1) by auto
  have r: "\<And>q. bit (run_queue_bitmap K) q = (run_queue K q \<noteq> [])" "\<And>q. distinct (run_queue K q)"
      "\<And>q s. s \<in> set (run_queue K q) \<Longrightarrow> s \<notin> X \<and> s \<noteq> idle_thread \<and> t_magic (threads K s) \<and>
        queued (threads K s) \<and> t_state (threads K s) = THREAD_READY \<and> priority (threads K s) = q"
    using c unfolding core_def runq_ok_def by blast+
  have "runq_ok (X - {t}) ?K'"
    unfolding runq_ok_def
  proof (intro conjI allI impI)
    fix q
    show "bit (run_queue_bitmap ?K') q = (run_queue ?K' q \<noteq> [])"
      using r(1) [of q] ne p(1) by (simp add: bit_set_iff)
    show "distinct (run_queue ?K' q)" using r(2) [of q] rq(2) by simp
    fix s
    assume s: "s \<in> set (run_queue ?K' q)"
    show "s \<notin> X - {t}" "s \<noteq> idle_thread" "t_magic (threads ?K' s)" "queued (threads ?K' s)"
        "t_state (threads ?K' s) = THREAD_READY" "priority (threads ?K' s) = q"
      using s r(3) [of s q] t p(2) rq(1) by (auto split: if_splits)
  qed
  moreover have "waitq_ok (X - {t}) ?K'"
  proof -
    have w: "waitq_ok X K" using c by (simp add: core_def)
    then have "s \<noteq> t" if "s \<in> set (wq_list (wait_queues K w))" for s w
      using that t(1) unfolding waitq_ok_def by blast
    then show ?thesis using w unfolding waitq_ok_def by simp
  qed
  moreover have "placed ?K' s" if "s \<notin> X - {t}" for s
  proof (cases "s = t")
    case True
    then show ?thesis using t(3) rq(1) by (simp add: placed_def)
  next
    case False
    then have "placed K s" using c that by (simp add: core_def)
    then show ?thesis by (rule placed_mono) (use False rq(1) in auto)
  qed
  moreover have "thread_ok s (threads ?K' s)" for s
    using c t(2) by (simp add: core_def thread_ok_def)
  moreover have "\<not> queued (threads ?K' s)" if "s \<in> X - {t}" for s
    using c that by (simp add: core_def)
  ultimately show ?thesis by (simp add: core_def)
qed

lemma core_not_in_queues:
  assumes "core X K" "t \<in> X"
  shows "t \<notin> set (run_queue K p)" "t \<notin> set (wq_list (wait_queues K w))"
  using assms by (auto simp: core_def runq_ok_def waitq_ok_def)

lemma core_floating:
  assumes "core X K" "t \<in> X"
  shows "\<not> queued (threads K t)" "t_state (threads K t) \<noteq> THREAD_DEATH \<Longrightarrow> t_magic (threads K t)"
  using assms by (auto simp: core_def thread_ok_def)

text \<open>
  Both insertions succeed and keep the invariant; they change nothing but the queue and the
  node of the thread. \<open>same_but_queues\<close> is what later steps need to know.
\<close>

definition same_but_queues :: "kernel \<Rightarrow> kernel \<Rightarrow> bool" where
  "same_but_queues K K' \<longleftrightarrow> current_thread K' = current_thread K \<and> wait_queues K' = wait_queues K \<and>
     thread_list K' = thread_list K \<and>
     (\<forall>t. threads K' t = (threads K t)\<lparr>queued := queued (threads K' t)\<rparr>)"

lemma same_but_queues_sel:
  assumes "same_but_queues K K'"
  shows "current_thread K' = current_thread K" "wait_queues K' = wait_queues K"
    "t_state (threads K' t) = t_state (threads K t)" "t_magic (threads K' t) = t_magic (threads K t)"
    "flag_idle (threads K' t) = flag_idle (threads K t)" "flag_detached (threads K' t) = flag_detached (threads K t)"
    "priority (threads K' t) = priority (threads K t)"
    "remaining_quantum (threads K' t) = remaining_quantum (threads K t)"
    "wait_queue_block_ret (threads K' t) = wait_queue_block_ret (threads K t)"
    "retcode_wait_queue (threads K' t) = retcode_wait_queue (threads K t)"
    "blocking_wait_queue (threads K' t) = blocking_wait_queue (threads K t)"
    "retcode (threads K' t) = retcode (threads K t)"
proof -
  have "threads K' t = (threads K t)\<lparr>queued := queued (threads K' t)\<rparr>"
    using assms by (simp add: same_but_queues_def)
  then have e: "f (threads K' t) = f ((threads K t)\<lparr>queued := queued (threads K' t)\<rparr>)" for f :: "thread_t \<Rightarrow> 'b"
    by metis
  show "t_state (threads K' t) = t_state (threads K t)" "t_magic (threads K' t) = t_magic (threads K t)"
    "flag_idle (threads K' t) = flag_idle (threads K t)" "flag_detached (threads K' t) = flag_detached (threads K t)"
    "priority (threads K' t) = priority (threads K t)"
    "remaining_quantum (threads K' t) = remaining_quantum (threads K t)"
    "wait_queue_block_ret (threads K' t) = wait_queue_block_ret (threads K t)"
    "retcode_wait_queue (threads K' t) = retcode_wait_queue (threads K t)"
    "blocking_wait_queue (threads K' t) = blocking_wait_queue (threads K t)"
    "retcode (threads K' t) = retcode (threads K t)"
    by (subst e, simp)+
qed (use assms in \<open>simp_all add: same_but_queues_def\<close>)

lemma insert_head_core:
  assumes c: "core X K" and t: "t \<in> X" "t \<noteq> idle_thread" "t_state (threads K t) = THREAD_READY"
  obtains K' where "insert_in_run_queue_head K t = Some K'" "core (X - {t}) K'" "same_but_queues K K'"
    "run_queue K' = (run_queue K)(priority (threads K t) := t # run_queue K (priority (threads K t)))"
proof -
  let ?p = "priority (threads K t)"
  have "distinct (run_queue K ?p)" using c by (simp add: core_def runq_ok_def)
  then have d: "distinct (t # run_queue K ?p)" using core_not_in_queues(1) [OF c t(1)] by simp
  from core_runq_put [OF c t _ d] show thesis
    using core_floating [OF c t(1)] t(3)
    by (intro that) (auto simp: insert_in_run_queue_head_def Let_def same_but_queues_def)
qed

lemma insert_tail_core:
  assumes c: "core X K" and t: "t \<in> X" "t \<noteq> idle_thread" "t_state (threads K t) = THREAD_READY"
  obtains K' where "insert_in_run_queue_tail K t = Some K'" "core (X - {t}) K'" "same_but_queues K K'"
    "run_queue K' = (run_queue K)(priority (threads K t) := run_queue K (priority (threads K t)) @ [t])"
proof -
  let ?p = "priority (threads K t)"
  have "distinct (run_queue K ?p)" using c by (simp add: core_def runq_ok_def)
  then have d: "distinct (run_queue K ?p @ [t])" using core_not_in_queues(1) [OF c t(1)] by simp
  from core_runq_put [OF c t _ d] show thesis
    using core_floating [OF c t(1)] t(3)
    by (intro that) (auto simp: insert_in_run_queue_tail_def Let_def same_but_queues_def)
qed

lemma core_in_queue:
  assumes "core X K"
  shows "t \<in> set (run_queue K p) \<Longrightarrow> t_state (threads K t) = THREAD_READY"
    and "t \<in> set (wq_list (wait_queues K w)) \<Longrightarrow> t_state (threads K t) = THREAD_BLOCKED"
    and "t \<in> set (wq_list (wait_queues K w)) \<Longrightarrow> blocking_wait_queue (threads K t) = Some w"
    and "t \<in> set (wq_list (wait_queues K w)) \<Longrightarrow> wq_magic (wait_queues K w)"
    and "t \<in> set (wq_list (wait_queues K w)) \<Longrightarrow> t \<noteq> idle_thread \<and> t_magic (threads K t) \<and> queued (threads K t)"
proof -
  have r: "runq_ok X K" "waitq_ok X K" using assms by (simp_all add: core_def)
  show "t \<in> set (run_queue K p) \<Longrightarrow> t_state (threads K t) = THREAD_READY"
    using r(1) by (simp add: runq_ok_def)
  show "t \<in> set (wq_list (wait_queues K w)) \<Longrightarrow> t_state (threads K t) = THREAD_BLOCKED"
      "t \<in> set (wq_list (wait_queues K w)) \<Longrightarrow> blocking_wait_queue (threads K t) = Some w"
      "t \<in> set (wq_list (wait_queues K w)) \<Longrightarrow> t \<noteq> idle_thread \<and> t_magic (threads K t) \<and> queued (threads K t)"
    using r(2) by (simp_all add: waitq_ok_def)
  show "t \<in> set (wq_list (wait_queues K w)) \<Longrightarrow> wq_magic (wait_queues K w)"
    using r(2) by (cases "wq_list (wait_queues K w)") (simp_all add: waitq_ok_def)
qed

lemma core_wq_remove:
  assumes c: "core X K" and t: "t \<in> set (wq_list (wait_queues K w))"
    and f: "thread_ok t (f (threads K t))" "\<not> queued (f (threads K t))"
  shows "core (insert t X) (upd_thread (upd_wq K w (\<lambda>q. q\<lparr>wq_list := remove1 t (wq_list q),
    wq_count := wq_count q - 1\<rparr>)) t f)" (is "core _ ?K'")
proof -
  have w: "waitq_ok X K" using c by (simp add: core_def)
  have tw: "v = w" if "t \<in> set (wq_list (wait_queues K v))" for v
    using w t that unfolding waitq_ok_def by (metis option.inject)
  have tr: "t \<notin> set (run_queue K p)" for p
    using core_in_queue(1) [OF c, of t p] core_in_queue(2) [OF c t] by auto
  have d: "distinct (wq_list (wait_queues K w))" using w by (simp add: waitq_ok_def)
  have "runq_ok (insert t X) ?K'"
  proof -
    have "runq_ok X K" using c by (simp add: core_def)
    moreover have "s \<noteq> t" if "s \<in> set (run_queue K p)" for s p using that tr by blast
    ultimately show ?thesis unfolding runq_ok_def by simp
  qed
  moreover have "waitq_ok (insert t X) ?K'"
    unfolding waitq_ok_def
  proof (intro conjI allI impI)
    fix v
    show "distinct (wq_list (wait_queues ?K' v))" using w by (simp add: waitq_ok_def)
    show "wq_count (wait_queues ?K' v) = int (length (wq_list (wait_queues ?K' v)))"
    proof -
      have "int (length (remove1 t (wq_list (wait_queues K w)))) = int (length (wq_list (wait_queues K w))) - 1"
        using t length_pos_if_in_set [OF t] by (simp add: length_remove1 Suc_leI)
      then show ?thesis using w by (simp add: waitq_ok_def)
    qed
    show "wq_magic (wait_queues ?K' v)" if "wq_list (wait_queues ?K' v) \<noteq> []"
      using w that core_in_queue(4) [OF c t] by (cases "v = w") (simp_all add: waitq_ok_def)
    fix s
    assume s: "s \<in> set (wq_list (wait_queues ?K' v))"
    then have "s \<noteq> t" using tw [of v] d by (auto split: if_splits)
    moreover have "s \<in> set (wq_list (wait_queues K v))"
      using s set_remove1_subset [of t "wq_list (wait_queues K w)"] by (auto split: if_splits)
    ultimately show "s \<notin> insert t X" "s \<noteq> idle_thread" "t_magic (threads ?K' s)" "queued (threads ?K' s)"
        "t_state (threads ?K' s) = THREAD_BLOCKED" "blocking_wait_queue (threads ?K' s) = Some v"
      using w by (simp_all add: waitq_ok_def)
  qed
  moreover have "placed ?K' s" if "s \<notin> insert t X" for s
  proof -
    have "placed K s" using c that by (simp add: core_def)
    then show ?thesis by (rule placed_mono) (use that in auto)
  qed
  moreover have "thread_ok s (threads ?K' s)" for s using c f by (simp add: core_def)
  moreover have "\<not> queued (threads ?K' s)" if "s \<in> insert t X" for s
    using c f that by (auto simp: core_def)
  ultimately show ?thesis by (simp add: core_def)
qed

lemma core_wq_push:
  assumes c: "core X K" and t: "t \<in> X" "t \<noteq> idle_thread" and m: "wq_magic (wait_queues K w)"
    and f: "thread_ok t (f (threads K t))" "queued (f (threads K t))" "t_magic (f (threads K t))"
      "t_state (f (threads K t)) = THREAD_BLOCKED" "blocking_wait_queue (f (threads K t)) = Some w"
  shows "core (X - {t}) (upd_thread (upd_wq K w (\<lambda>q. q\<lparr>wq_list := wq_list q @ [t],
    wq_count := wq_count q + 1\<rparr>)) t f)" (is "core _ ?K'")
proof -
  have w: "waitq_ok X K" using c by (simp add: core_def)
  note nin = core_not_in_queues [OF c t(1)]
  have "runq_ok (X - {t}) ?K'"
  proof -
    have "runq_ok X K" using c by (simp add: core_def)
    moreover have "s \<noteq> t" if "s \<in> set (run_queue K p)" for s p using that nin(1) by blast
    ultimately show ?thesis unfolding runq_ok_def by simp
  qed
  moreover have "waitq_ok (X - {t}) ?K'"
    unfolding waitq_ok_def
  proof (intro conjI allI impI)
    fix v
    show "distinct (wq_list (wait_queues ?K' v))" using w nin(2) by (simp add: waitq_ok_def)
    show "wq_count (wait_queues ?K' v) = int (length (wq_list (wait_queues ?K' v)))"
      using w by (simp add: waitq_ok_def)
    show "wq_magic (wait_queues ?K' v)" if "wq_list (wait_queues ?K' v) \<noteq> []"
      using w that m by (auto simp: waitq_ok_def split: if_splits)
    fix s
    assume s: "s \<in> set (wq_list (wait_queues ?K' v))"
    have "s = t \<and> v = w \<or> s \<noteq> t \<and> s \<in> set (wq_list (wait_queues K v))"
      using s nin(2) by (auto split: if_splits)
    then show "s \<notin> X - {t}" "s \<noteq> idle_thread" "t_magic (threads ?K' s)" "queued (threads ?K' s)"
        "t_state (threads ?K' s) = THREAD_BLOCKED" "blocking_wait_queue (threads ?K' s) = Some v"
      using w f t by (auto simp: waitq_ok_def)
  qed
  moreover have "placed ?K' s" if "s \<notin> X - {t}" for s
  proof (cases "s = t")
    case True
    then show ?thesis using f by (simp add: placed_def)
  next
    case False
    then have "placed K s" using c that by (simp add: core_def)
    then show ?thesis by (rule placed_mono) (use False in auto)
  qed
  moreover have "thread_ok s (threads ?K' s)" for s using c f by (simp add: core_def)
  moreover have "\<not> queued (threads ?K' s)" if "s \<in> X - {t}" for s
    using c that by (simp add: core_def)
  ultimately show ?thesis by (simp add: core_def)
qed

lemma core_runq_remove:
  assumes c: "core X K" and rq: "run_queue K p = t # rest"
  shows "core (insert t X) (upd_thread (K\<lparr>run_queue := (run_queue K)(p := rest),
    run_queue_bitmap := (if rest = [] then run_queue_bitmap K AND NOT (2 ^ p) else run_queue_bitmap K)\<rparr>)
    t (\<lambda>th. th\<lparr>queued := False\<rparr>))" (is "core _ ?K'")
proof -
  have r: "runq_ok X K" using c by (simp add: core_def)
  have t: "t_state (threads K t) = THREAD_READY" "priority (threads K t) = p" "t \<noteq> idle_thread"
    using r rq unfolding runq_ok_def by (metis list.set_intros(1))+
  have p: "p < 32" using t(2) c by (auto simp: core_def thread_ok_def)
  have d: "distinct (t # rest)" using r rq unfolding runq_ok_def by metis
  have "runq_ok (insert t X) ?K'"
    unfolding runq_ok_def
  proof (intro conjI allI impI)
    fix q
    show "bit (run_queue_bitmap ?K') q = (run_queue ?K' q \<noteq> [])"
      using r rq p by (auto simp: runq_ok_def bit_clear_iff)
    show "distinct (run_queue ?K' q)" using r d by (simp add: runq_ok_def)
    fix s
    assume s: "s \<in> set (run_queue ?K' q)"
    then have sq: "s \<in> set (run_queue K q)" using rq by (auto split: if_splits)
    then have "priority (threads K s) = q" using r by (simp add: runq_ok_def)
    then have "s \<noteq> t" using s d t(2) by (auto split: if_splits)
    then show "s \<notin> insert t X" "s \<noteq> idle_thread" "t_magic (threads ?K' s)" "queued (threads ?K' s)"
        "t_state (threads ?K' s) = THREAD_READY" "priority (threads ?K' s) = q"
      using r sq by (simp_all add: runq_ok_def)
  qed
  moreover have "waitq_ok (insert t X) ?K'"
  proof -
    have w: "waitq_ok X K" using c by (simp add: core_def)
    then have "s \<noteq> t" if "s \<in> set (wq_list (wait_queues K v))" for s v
      using core_in_queue(2) [OF c that] t(1) by auto
    then show ?thesis using w unfolding waitq_ok_def by simp
  qed
  moreover have "placed ?K' s" if "s \<notin> insert t X" for s
  proof -
    have "placed K s" using c that by (simp add: core_def)
    then show ?thesis by (rule placed_mono) (use that rq in auto)
  qed
  moreover have "thread_ok s (threads ?K' s)" for s using c by (simp add: core_def thread_ok_def)
  moreover have "\<not> queued (threads ?K' s)" if "s \<in> insert t X" for s
    using c that by (auto simp: core_def)
  ultimately show ?thesis by (simp add: core_def)
qed

section \<open>Choosing the next thread\<close>

text \<open>What \<^verbatim>\<open>get_top_thread\<close> returns: the first thread of the highest non-empty queue.\<close>

definition is_top :: "kernel \<Rightarrow> tid \<Rightarrow> bool" where
  "is_top K t \<longleftrightarrow>
     (if \<forall>p. run_queue K p = [] then t = idle_thread
      else \<exists>p rest. run_queue K p = t # rest \<and> (\<forall>q > p. run_queue K q = []))"

lemma is_top_ready:
  assumes c: "core {} K" and top: "is_top K t"
  shows "t_state (threads K t) = THREAD_READY \<or> t = idle_thread \<and> t_state (threads K t) = THREAD_RUNNING"
proof (cases "\<forall>p. run_queue K p = []")
  case True
  then have "t = idle_thread" using top by (simp add: is_top_def)
  moreover have "thread_ok t (threads K t)" using c by (simp add: core_def)
  ultimately show ?thesis by (auto simp: thread_ok_def)
next
  case False
  then obtain p rest where "run_queue K p = t # rest" using top unfolding is_top_def by metis
  then have "t \<in> set (run_queue K p)" by simp
  then show ?thesis using c unfolding core_def runq_ok_def by blast
qed

lemma get_top_thread_core:
  assumes c: "core X K"
  obtains t K' where "get_top_thread K = (t, K')" "is_top K t" "core (insert t X) K'" "same_but_queues K K'"
    "t = idle_thread \<or> t \<notin> X \<and> t_state (threads K t) = THREAD_READY"
proof -
  have bm: "bit (run_queue_bitmap K) p = (run_queue K p \<noteq> [])" for p
    using c by (simp add: core_def runq_ok_def)
  show thesis
  proof (cases "top_bit (run_queue_bitmap K)")
    case None
    have e: "run_queue K p = []" for p
      using find_top_None [OF None [unfolded top_bit_def], of p] bm [of p]
      by (cases "p < 32") (auto dest: bit_imp_le_length)
    have "core (insert idle_thread X) K"
      by (rule core_float [OF c]) (use c in \<open>simp add: core_def thread_ok_def\<close>)
    then show thesis using None e
      by (intro that [of idle_thread K])
         (simp_all add: get_top_thread_def get_top_loop.simps is_top_def same_but_queues_def)
  next
    case (Some p)
    note f = find_top_Some [OF Some [unfolded top_bit_def]]
    obtain t rest where rq: "run_queue K p = t # rest" using f bm [of p] by (cases "run_queue K p") auto
    have hi: "run_queue K q = []" if "p < q" for q
      using f bm [of q] that by (cases "q < 32") (auto dest: bit_imp_le_length)
    have ne: "\<not> (\<forall>p. run_queue K p = [])" using rq by (metis list.distinct(1))
    have t: "t \<notin> X" "t_state (threads K t) = THREAD_READY"
      using c rq unfolding core_def runq_ok_def by (metis list.set_intros(1))+
    let ?K' = "upd_thread (K\<lparr>run_queue := (run_queue K)(p := rest),
      run_queue_bitmap := (if rest = [] then run_queue_bitmap K AND NOT (2 ^ p) else run_queue_bitmap K)\<rparr>)
      t (\<lambda>th. th\<lparr>queued := False\<rparr>)"
    show thesis
    proof (rule that [of t ?K'])
      show "get_top_thread K = (t, ?K')" using Some rq by (simp add: get_top_thread_def get_top_loop.simps)
      show "is_top K t" using ne rq hi unfolding is_top_def by auto
      show "core (insert t X) ?K'" by (rule core_runq_remove [OF c rq])
      show "same_but_queues K ?K'" by (simp add: same_but_queues_def)
      show "t = idle_thread \<or> t \<notin> X \<and> t_state (threads K t) = THREAD_READY" using t by simp
    qed
  qed
qed

text \<open>\<^verbatim>\<open>thread_resched\<close> runs the top thread and nothing else changes state.\<close>

lemma thread_resched_wf:
  assumes s: "switchable K"
  obtains K' where "thread_resched K = Some K'" "kernel_wf K'" "is_top K (current_thread K')"
    "wait_queues K' = wait_queues K" "thread_list K' = thread_list K"
    "\<And>t. t \<noteq> current_thread K' \<Longrightarrow> threads K' t = (threads K t)\<lparr>queued := queued (threads K' t)\<rparr>"
    "\<And>t. wait_queue_block_ret (threads K' t) = wait_queue_block_ret (threads K t)"
proof -
  have c: "core {} K" and nr: "\<And>t. t_state (threads K t) \<noteq> THREAD_RUNNING"
    using s by (simp_all add: switchable_def)
  obtain n K1 where g: "get_top_thread K = (n, K1)" "is_top K n" "core (insert n {}) K1" "same_but_queues K K1"
    by (rule get_top_thread_core [OF c])
  note sb = same_but_queues_sel [OF g(4)]
  let ?f = "\<lambda>th :: thread_t. th\<lparr>t_state := THREAD_RUNNING\<rparr>"
  define h where "h = (\<lambda>th. if n = current_thread K then ?f th
      else if remaining_quantum (?f th) \<le> 0 then (?f th)\<lparr>remaining_quantum := 5\<rparr> else ?f th)"
  let ?K' = "(upd_thread K1 n h)\<lparr>current_thread := n\<rparr>"
  have ok: "thread_ok n (threads K1 n)" using g(3) by (simp add: core_def)
  have nq: "\<not> queued (threads K1 n)" using g(3) by (simp add: core_def)
  have rd: "t_state (threads K1 n) = THREAD_READY"
  proof (cases "n = idle_thread")
    case True
    then show ?thesis using ok sb(3) [of n] nr [of n] by (auto simp: thread_ok_def)
  next
    case False
    then have "t_state (threads K n) = THREAD_READY"
      using get_top_thread_core [OF c] g(1) by (metis prod.inject)
    then show ?thesis using sb(3) by simp
  qed
  have "thread_ok n (h (threads K1 n))" "\<not> queued (h (threads K1 n))" "t_state (h (threads K1 n)) = THREAD_RUNNING"
    using ok nq rd by (auto simp: thread_ok_def h_def)
  note h = this
  have "core {n} (upd_thread K1 n h)" using core_upd_float [OF g(3), of n h] h by simp
  from core_land [OF this, of n] have "core {} ?K'" using h(3) by simp
  then have wf: "kernel_wf ?K'" using h(3) nr sb(3) by (auto simp: kernel_wf_def)
  have "upd_thread (upd_thread K1 n f) n f' = upd_thread K1 n (f' \<circ> f)" for f f'
    by (simp add: upd_thread_def)
  then have r: "thread_resched K = Some ?K'"
    using nr g(1) sb(1) by (auto simp: thread_resched_def h_def comp_def Let_def upd_thread_def)
  show thesis
  proof (rule that [OF r wf])
    show "is_top K (current_thread ?K')" using g(2) by simp
    show "wait_queues ?K' = wait_queues K" "thread_list ?K' = thread_list K"
      using g(4) by (simp_all add: same_but_queues_def)
    fix t
    show "threads ?K' t = (threads K t)\<lparr>queued := queued (threads ?K' t)\<rparr>" if "t \<noteq> current_thread ?K'"
      using g(4) that by (simp add: same_but_queues_def)
    show "wait_queue_block_ret (threads ?K' t) = wait_queue_block_ret (threads K t)"
      using sb(9) by (simp add: h_def)
  qed
qed

section \<open>Every operation keeps the invariant\<close>

lemma kernel_wfD:
  assumes "kernel_wf K"
  shows "core {} K" "t_state (threads K t) = THREAD_RUNNING \<longleftrightarrow> t = current_thread K"
    "\<not> queued (threads K (current_thread K))" "running K"
    "thread_ok t (threads K t)" "t_state (threads K (current_thread K)) = THREAD_RUNNING"
    "flag_idle (threads K t) = (t = idle_thread)"
proof -
  show c: "core {} K" and r: "t_state (threads K t) = THREAD_RUNNING \<longleftrightarrow> t = current_thread K" for t
    using assms by (auto simp: kernel_wf_def)
  have r': "t_state (threads K (current_thread K)) = THREAD_RUNNING" using r by simp
  then show "t_state (threads K (current_thread K)) = THREAD_RUNNING" .
  show "\<not> queued (threads K (current_thread K))"
  proof -
    have "placed K (current_thread K)" using c by (simp add: core_def)
    then show ?thesis using r' by (auto simp: placed_def)
  qed
  show ok: "thread_ok t (threads K t)" for t using c by (simp add: core_def)
  then show "running K" using ok [of "current_thread K"] r' by (auto simp: running_def thread_ok_def)
  show "flag_idle (threads K t) = (t = idle_thread)" using ok by (simp add: thread_ok_def)
qed

text \<open>The current thread, taken off the processor and put in flight.\<close>

lemma current_float:
  assumes wf: "kernel_wf K" and f: "thread_ok (current_thread K) (f (threads K (current_thread K)))"
    "\<not> queued (f (threads K (current_thread K)))"
  shows "core {current_thread K} (upd_thread K (current_thread K) f)"
proof -
  have "core {current_thread K} K" using core_float [OF kernel_wfD(1) [OF wf] kernel_wfD(3) [OF wf]] .
  then show ?thesis by (rule core_upd_float) (simp_all add: f)
qed

lemma switchable_intro:
  assumes "core {} K'" "\<And>t. t_state (threads K' t) \<noteq> THREAD_RUNNING"
  shows "switchable K'"
  using assms by (simp add: switchable_def)

text \<open>
  The current thread becomes ready, at the head or the tail of its queue (the idle thread stays
  out of the queues): the common part of yielding, preemption and wake-ups that reschedule.
\<close>

lemma current_ready:
  assumes wf: "kernel_wf K" and K1: "K1 = upd_thread K (current_thread K) f"
    and f: "thread_ok (current_thread K) (f (threads K (current_thread K)))"
      "\<not> queued (f (threads K (current_thread K)))" "t_state (f (threads K (current_thread K))) = THREAD_READY"
    and ni: "current_thread K \<noteq> idle_thread"
  shows "\<exists>K2. insert_in_run_queue_head K1 (current_thread K) = Some K2 \<and> switchable K2 \<and> same_but_queues K1 K2"
    and "\<exists>K3. insert_in_run_queue_tail K1 (current_thread K) = Some K3 \<and> switchable K3 \<and> same_but_queues K1 K3"
proof -
  let ?c = "current_thread K"
  have c: "core {?c} K1" unfolding K1 by (rule current_float) (simp_all add: wf f)
  have st: "t_state (threads K1 ?c) = THREAD_READY" using f(3) K1 by simp
  have nr: "t_state (threads K1 t) \<noteq> THREAD_RUNNING" for t
    using f(3) kernel_wfD(2) [OF wf] by (cases "t = ?c") (simp_all add: K1)
  obtain K2 where K2: "insert_in_run_queue_head K1 ?c = Some K2" "core ({?c} - {?c}) K2" "same_but_queues K1 K2"
    using insert_head_core [OF c _ ni st] by auto
  obtain K3 where K3: "insert_in_run_queue_tail K1 ?c = Some K3" "core ({?c} - {?c}) K3" "same_but_queues K1 K3"
    using insert_tail_core [OF c _ ni st] by auto
  have "switchable K2" "switchable K3"
    using K2 K3 nr by (auto intro!: switchable_intro simp: same_but_queues_sel)
  then show "\<exists>K2. insert_in_run_queue_head K1 ?c = Some K2 \<and> switchable K2 \<and> same_but_queues K1 K2"
      "\<exists>K3. insert_in_run_queue_tail K1 ?c = Some K3 \<and> switchable K3 \<and> same_but_queues K1 K3"
    using K2 K3 by blast+
qed

lemma thread_ok_upd:
  "thread_ok t th \<Longrightarrow> t_state th = THREAD_RUNNING \<Longrightarrow> thread_ok t (th\<lparr>t_state := THREAD_READY\<rparr>)"
  "thread_ok t th \<Longrightarrow> thread_ok t (th\<lparr>remaining_quantum := n\<rparr>)"
  "thread_ok t th \<Longrightarrow> t_state th = THREAD_RUNNING \<Longrightarrow> t \<noteq> idle_thread \<Longrightarrow> s \<noteq> THREAD_BLOCKED \<Longrightarrow>
     thread_ok t (th\<lparr>t_state := s\<rparr>)"
  "thread_ok t th \<Longrightarrow> p < 32 \<Longrightarrow> thread_ok t (th\<lparr>priority := p\<rparr>)"
  by (auto simp: thread_ok_def)

lemma current_idle_ready:
  assumes wf: "kernel_wf K" and i: "current_thread K = idle_thread"
    and f: "thread_ok idle_thread (f (threads K idle_thread))" "t_state (f (threads K idle_thread)) = THREAD_READY"
  shows "switchable (upd_thread K idle_thread f)"
proof -
  have "\<not> queued (f (threads K idle_thread))" using f(1) by (simp add: thread_ok_def)
  then have "core {idle_thread} (upd_thread K idle_thread f)"
    using current_float [OF wf, of f] f(1) i by simp
  from core_land [OF this, of idle_thread] have "core {} (upd_thread K idle_thread f)" using f(2) by simp
  then show ?thesis using f(2) kernel_wfD(2) [OF wf] i
    by (auto intro!: switchable_intro split: if_splits)
qed

lemma resched_returns: "switchable K \<Longrightarrow> \<exists>K'. thread_resched K = Some K' \<and> kernel_wf K'"
  by (rule thread_resched_wf) blast+

lemma thread_yield_switch:
  assumes wf: "kernel_wf K"
  obtains K2 where "thread_yield K = thread_resched K2" "switchable K2"
proof -
  let ?c = "current_thread K" and ?f = "\<lambda>th :: thread_t. th\<lparr>t_state := THREAD_READY, remaining_quantum := 0\<rparr>"
  note w = kernel_wfD [OF wf]
  have ok: "thread_ok ?c (?f (threads K ?c))" using w(5,6) by (simp add: thread_ok_upd)
  have "\<exists>K2. (if \<not> flag_idle (threads K ?c) then insert_in_run_queue_tail (upd_thread K ?c ?f) ?c
      else Some (upd_thread K ?c ?f)) = Some K2 \<and> switchable K2"
  proof (cases "?c = idle_thread")
    case True
    then show ?thesis using current_idle_ready [OF wf True, of ?f] ok w(7) by simp
  next
    case False
    then obtain K3 where "insert_in_run_queue_tail (upd_thread K ?c ?f) ?c = Some K3" "switchable K3"
      using current_ready(2) [where f = ?f, OF wf refl ok _ _ False] w(3) by auto
    then show ?thesis using False w(7) by simp
  qed
  then obtain K2 where K2: "(if \<not> flag_idle (threads K ?c) then insert_in_run_queue_tail (upd_thread K ?c ?f) ?c
      else Some (upd_thread K ?c ?f)) = Some K2" "switchable K2" by blast
  have "thread_yield K = thread_resched K2" using w(4) K2(1) by (simp add: thread_yield_def thread_is_idle_def Let_def)
  then show thesis using K2(2) by (rule that)
qed

lemma thread_yield_wf:
  assumes "kernel_wf K"
  shows "\<exists>K'. thread_yield K = Some K' \<and> kernel_wf K'"
proof -
  obtain K2 where "thread_yield K = thread_resched K2" "switchable K2" by (rule thread_yield_switch [OF assms])
  then show ?thesis using resched_returns by simp
qed

lemma thread_preempt_switch:
  assumes wf: "kernel_wf K"
  obtains K2 where "thread_preempt K = thread_resched K2" "switchable K2"
proof -
  let ?c = "current_thread K" and ?f = "\<lambda>th :: thread_t. th\<lparr>t_state := THREAD_READY\<rparr>"
  let ?K1 = "upd_thread K ?c ?f"
  note w = kernel_wfD [OF wf]
  have ok: "thread_ok ?c (?f (threads K ?c))" using w(5,6) by (simp add: thread_ok_upd)
  have "\<exists>K2. (if \<not> flag_idle (threads K ?c) then
      if remaining_quantum (threads K ?c) > 0 then insert_in_run_queue_head ?K1 ?c
      else insert_in_run_queue_tail ?K1 ?c else Some ?K1) = Some K2 \<and> switchable K2"
  proof (cases "?c = idle_thread")
    case True
    then show ?thesis using current_idle_ready [OF wf True, of ?f] ok w(7) by simp
  next
    case False
    then obtain K2 K3 where "insert_in_run_queue_head ?K1 ?c = Some K2" "switchable K2"
        "insert_in_run_queue_tail ?K1 ?c = Some K3" "switchable K3"
      using current_ready [where f = ?f, OF wf refl ok _ _ False] w(3) by fastforce
    then show ?thesis using False w(7) by simp
  qed
  then obtain K2 where K2: "(if \<not> flag_idle (threads K ?c) then
      if remaining_quantum (threads K ?c) > 0 then insert_in_run_queue_head ?K1 ?c
      else insert_in_run_queue_tail ?K1 ?c else Some ?K1) = Some K2" "switchable K2" by blast
  have "thread_preempt K = thread_resched K2"
    using w(4) K2(1) by (auto simp: thread_preempt_def thread_is_idle_def Let_def split: if_splits)
  then show thesis using K2(2) by (rule that)
qed

lemma thread_preempt_wf:
  assumes "kernel_wf K"
  shows "\<exists>K'. thread_preempt K = Some K' \<and> kernel_wf K'"
proof -
  obtain K2 where "thread_preempt K = thread_resched K2" "switchable K2" by (rule thread_preempt_switch [OF assms])
  then show ?thesis using resched_returns by simp
qed

lemma thread_set_priority_switch:
  assumes wf: "kernel_wf K" and ni: "current_thread K \<noteq> idle_thread"
  obtains K2 where "thread_set_priority K p = thread_resched K2" "switchable K2"
proof -
  let ?c = "current_thread K"
  let ?f = "\<lambda>th :: thread_t. th\<lparr>priority := clamp_priority p, t_state := THREAD_READY\<rparr>"
  note w = kernel_wfD [OF wf]
  have "clamp_priority p < 32" by (auto simp: clamp_priority_def Let_def)
  then have ok: "thread_ok ?c (?f (threads K ?c))" using w(5,6) by (simp add: thread_ok_upd)
  obtain K2 where K2: "insert_in_run_queue_head (upd_thread K ?c ?f) ?c = Some K2" "switchable K2"
    using current_ready(1) [where f = ?f, OF wf refl ok _ _ ni] w(3) by auto
  have "thread_set_priority K p = thread_resched K2" using K2(1) by (simp add: thread_set_priority_def Let_def)
  then show thesis using K2(2) by (rule that)
qed

lemma thread_set_priority_wf:
  assumes "kernel_wf K" "current_thread K \<noteq> idle_thread"
  shows "\<exists>K'. thread_set_priority K p = Some K' \<and> kernel_wf K'"
proof -
  obtain K2 where "thread_set_priority K p = thread_resched K2" "switchable K2" by (rule thread_set_priority_switch [OF assms])
  then show ?thesis using resched_returns by simp
qed

lemma thread_sleep_switch:
  assumes wf: "kernel_wf K" and ni: "current_thread K \<noteq> idle_thread"
  shows "thread_sleep K = thread_resched (upd_thread K (current_thread K) (\<lambda>th. th\<lparr>t_state := THREAD_SLEEPING\<rparr>))"
    "switchable (upd_thread K (current_thread K) (\<lambda>th. th\<lparr>t_state := THREAD_SLEEPING\<rparr>))"
proof -
  let ?c = "current_thread K" and ?f = "\<lambda>th :: thread_t. th\<lparr>t_state := THREAD_SLEEPING\<rparr>"
  note w = kernel_wfD [OF wf]
  have "core {?c} (upd_thread K ?c ?f)"
    by (rule current_float [OF wf]) (use w ni in \<open>simp_all add: thread_ok_upd\<close>)
  from core_land [OF this, of ?c] have "core {} (upd_thread K ?c ?f)" by simp
  then show "switchable (upd_thread K ?c ?f)"
    using w(2) by (auto intro!: switchable_intro split: if_splits)
  show "thread_sleep K = thread_resched (upd_thread K ?c ?f)"
    using w(4,7) ni by (simp add: thread_sleep_def thread_is_idle_def)
qed

lemma thread_sleep_wf:
  assumes "kernel_wf K" "current_thread K \<noteq> idle_thread"
  shows "\<exists>K'. thread_sleep K = Some K' \<and> kernel_wf K'"
  using thread_sleep_switch [OF assms] resched_returns by simp

section \<open>Waking\<close>

text \<open>
  \<open>wakes K w S err K'\<close>: the threads \<open>S\<close> were taken off wait queue \<open>w\<close> and made ready with
  result \<open>err\<close>; nothing else changed but run queues and nodes.
\<close>

definition wakes :: "kernel \<Rightarrow> wqid \<Rightarrow> tid set \<Rightarrow> status_t \<Rightarrow> kernel \<Rightarrow> bool" where
  "wakes K w S err K' \<longleftrightarrow> current_thread K' = current_thread K \<and> thread_list K' = thread_list K \<and>
     (\<forall>v. wq_magic (wait_queues K' v) = wq_magic (wait_queues K v)) \<and>
     (\<forall>v. v \<noteq> w \<longrightarrow> wait_queues K' v = wait_queues K v) \<and>
     wq_list (wait_queues K' w) = filter (\<lambda>t. t \<notin> S) (wq_list (wait_queues K w)) \<and>
     (\<forall>t. \<exists>q. threads K' t = (if t \<in> S then (threads K t)\<lparr>queued := q, t_state := THREAD_READY,
        wait_queue_block_ret := err, blocking_wait_queue := None\<rparr>
      else (threads K t)\<lparr>queued := q\<rparr>))"

lemma wakes_sel:
  assumes "wakes K w S err K'"
  shows "t_state (threads K' t) = (if t \<in> S then THREAD_READY else t_state (threads K t))"
    "wait_queue_block_ret (threads K' t) = (if t \<in> S then err else wait_queue_block_ret (threads K t))"
    "flag_idle (threads K' t) = flag_idle (threads K t)" "flag_detached (threads K' t) = flag_detached (threads K t)"
    "current_thread K' = current_thread K"
    "wq_list (wait_queues K' w) = filter (\<lambda>t. t \<notin> S) (wq_list (wait_queues K w))"
    "wq_magic (wait_queues K' v) = wq_magic (wait_queues K v)"
    "v \<noteq> w \<Longrightarrow> wait_queues K' v = wait_queues K v"
    "t_magic (threads K' t) = t_magic (threads K t)" "retcode (threads K' t) = retcode (threads K t)"
proof -
  obtain q where "threads K' t = (if t \<in> S then (threads K t)\<lparr>queued := q, t_state := THREAD_READY,
        wait_queue_block_ret := err, blocking_wait_queue := None\<rparr>
      else (threads K t)\<lparr>queued := q\<rparr>)"
    using assms unfolding wakes_def by blast
  then show "t_state (threads K' t) = (if t \<in> S then THREAD_READY else t_state (threads K t))"
    "wait_queue_block_ret (threads K' t) = (if t \<in> S then err else wait_queue_block_ret (threads K t))"
    "flag_idle (threads K' t) = flag_idle (threads K t)" "flag_detached (threads K' t) = flag_detached (threads K t)"
    "t_magic (threads K' t) = t_magic (threads K t)" "retcode (threads K' t) = retcode (threads K t)"
    by simp_all
qed (use assms in \<open>simp_all add: wakes_def\<close>)

text \<open>Taking one thread off its queue and putting it on its run queue.\<close>

lemma wake_thread:
  assumes c: "core X K" and t: "t \<in> set (wq_list (wait_queues K w))"
    and K1: "K1 = upd_thread (upd_wq K w (\<lambda>q. q\<lparr>wq_list := remove1 t (wq_list q), wq_count := wq_count q - 1\<rparr>)) t
      (\<lambda>th. th\<lparr>queued := False, t_state := THREAD_READY, wait_queue_block_ret := err, blocking_wait_queue := None\<rparr>)"
  obtains K2 where "insert_in_run_queue_head K1 t = Some K2" "core X K2" "wakes K w {t} err K2"
    "core (insert t X) K1"
proof -
  let ?f = "\<lambda>th :: thread_t. th\<lparr>queued := False, t_state := THREAD_READY, wait_queue_block_ret := err, blocking_wait_queue := None\<rparr>"
  note q = core_in_queue [OF c]
  have ok: "thread_ok t (threads K t)" using c by (simp add: core_def)
  have nX: "t \<notin> X" using core_not_in_queues(2) [OF c] t by blast
  have c1: "core (insert t X) K1"
    unfolding K1 by (rule core_wq_remove [OF c t]) (use ok q(5) [OF t] in \<open>auto simp: thread_ok_def\<close>)
  have st: "t_state (threads K1 t) = THREAD_READY" by (simp add: K1)
  obtain K2 where K2: "insert_in_run_queue_head K1 t = Some K2" "core (insert t X - {t}) K2" "same_but_queues K1 K2"
    using insert_head_core [OF c1 _ _ st] q(5) [OF t] by auto
  have d: "distinct (wq_list (wait_queues K w))" using c by (simp add: core_def waitq_ok_def)
  have "core X K2" using K2(2) nX by simp
  moreover have "wakes K w {t} err K2"
  proof -
    have "\<exists>q. threads K2 s = (if s \<in> {t} then (threads K s)\<lparr>queued := q, t_state := THREAD_READY,
        wait_queue_block_ret := err, blocking_wait_queue := None\<rparr> else (threads K s)\<lparr>queued := q\<rparr>)" for s
    proof -
      obtain q where "threads K2 s = (threads K1 s)\<lparr>queued := q\<rparr>"
        using K2(3) unfolding same_but_queues_def by blast
      then show ?thesis by (intro exI [of _ q]) (simp add: K1)
    qed
    moreover have "wq_list (wait_queues K2 w) = filter (\<lambda>s. s \<notin> {t}) (wq_list (wait_queues K w))"
      using same_but_queues_sel(2) [OF K2(3)] d by (simp add: K1 distinct_remove1_removeAll removeAll_filter_not_eq)
        (metis (mono_tags, lifting))
    ultimately show ?thesis using K2(3) by (auto simp: wakes_def same_but_queues_def K1)
  qed
  ultimately show thesis using that K2(1) c1 by blast
qed

lemma wakes_wf:
  assumes wf: "kernel_wf K" and K': "core {} K'" "wakes K w S err K'" and S: "current_thread K \<notin> S"
  shows "kernel_wf K'"
  using K' kernel_wfD(2) [OF wf] S unfolding kernel_wf_def by (auto simp: wakes_sel [OF K'(2)])

lemma wakes_trans:
  assumes a: "wakes K w S err K1" and b: "wakes K1 w S' err K2"
  shows "wakes K w (S \<union> S') err K2"
proof -
  have "\<exists>q. threads K2 t = (if t \<in> S \<union> S' then (threads K t)\<lparr>queued := q, t_state := THREAD_READY,
        wait_queue_block_ret := err, blocking_wait_queue := None\<rparr> else (threads K t)\<lparr>queued := q\<rparr>)" for t
  proof -
    obtain q1 where "threads K1 t = (if t \<in> S then (threads K t)\<lparr>queued := q1, t_state := THREAD_READY,
        wait_queue_block_ret := err, blocking_wait_queue := None\<rparr> else (threads K t)\<lparr>queued := q1\<rparr>)"
      using a unfolding wakes_def by blast
    moreover obtain q2 where "threads K2 t = (if t \<in> S' then (threads K1 t)\<lparr>queued := q2, t_state := THREAD_READY,
        wait_queue_block_ret := err, blocking_wait_queue := None\<rparr> else (threads K1 t)\<lparr>queued := q2\<rparr>)"
      using b unfolding wakes_def by blast
    ultimately show ?thesis by (intro exI [of _ q2]) (auto split: if_splits)
  qed
  then show ?thesis using a b unfolding wakes_def by simp
qed

lemma wakes_refl: "wakes K w {} err K"
proof -
  have "\<exists>q. th = (th :: thread_t)\<lparr>queued := q\<rparr>" for th by (intro exI [of _ "queued th"]) simp
  then show ?thesis by (simp add: wakes_def)
qed

text \<open>Waking one thread without rescheduling: the first one that blocked.\<close>

lemma wake_head_eq:
  assumes c: "core X K" and q: "wq_list (wait_queues K w) = t # ts"
  obtains K1 K2 where "wake_head K w err = Some (t, K1)" "insert_in_run_queue_head K1 t = Some K2"
    "core X K2" "wakes K w {t} err K2" "core (insert t X) K1" "t_state (threads K1 t) = THREAD_READY"
    "\<And>s. s \<noteq> t \<Longrightarrow> threads K1 s = threads K s" "current_thread K1 = current_thread K" "t \<noteq> idle_thread"
    "wait_queues K1 = wait_queues K2"
proof -
  have t: "t \<in> set (wq_list (wait_queues K w))" using q by simp
  let ?K1 = "upd_thread (upd_wq K w (\<lambda>q. q\<lparr>wq_list := remove1 t (wq_list q), wq_count := wq_count q - 1\<rparr>)) t
      (\<lambda>th. th\<lparr>queued := False, t_state := THREAD_READY, wait_queue_block_ret := err, blocking_wait_queue := None\<rparr>)"
  obtain K2 where K2: "insert_in_run_queue_head ?K1 t = Some K2" "core X K2" "wakes K w {t} err K2"
      "core (insert t X) ?K1"
    using wake_thread [OF c t refl] .
  have h: "wake_head K w err = Some (t, ?K1)"
    using q core_in_queue(2) [OF c t] by (simp add: wake_head_def upd_thread_def upd_wq_def)
  have "wait_queues ?K1 = wait_queues K2"
    using K2(1) by (auto simp: insert_in_run_queue_head_def Let_def split: if_splits)
  then show thesis using that [OF h K2(1-3) K2(4)] core_in_queue(5) [OF c t] by simp
qed

lemma wake_loop_wakes:
  "core X K \<Longrightarrow> length (wq_list (wait_queues K w)) = n \<Longrightarrow>
   \<exists>K'. wake_loop K w err n ret = Some (ret + int n, K') \<and> core X K' \<and>
     wakes K w (set (wq_list (wait_queues K w))) err K'"
proof (induction n arbitrary: K ret)
  case 0
  then show ?case using wakes_refl by simp
next
  case (Suc n)
  then obtain t ts where q: "wq_list (wait_queues K w) = t # ts" by (cases "wq_list (wait_queues K w)") auto
  obtain K1 K2 where K2: "wake_head K w err = Some (t, K1)" "insert_in_run_queue_head K1 t = Some K2"
      "core X K2" "wakes K w {t} err K2"
    using wake_head_eq [OF Suc.prems(1) q] by metis
  have d: "distinct (t # ts)" using Suc.prems(1) q unfolding core_def waitq_ok_def by metis
  then have q2: "wq_list (wait_queues K2 w) = ts"
    using wakes_sel(6) [OF K2(4)] q by (auto simp: filter_id_conv)
  then have "length (wq_list (wait_queues K2 w)) = n" using Suc.prems(2) q by simp
  from Suc.IH [OF K2(3) this, of "ret + 1"] obtain K' where
      K': "wake_loop K2 w err n (ret + 1) = Some (ret + 1 + int n, K')" "core X K'" "wakes K2 w (set ts) err K'"
    using q2 by auto
  have "wakes K w (insert t (set ts)) err K'" using wakes_trans [OF K2(4) K'(3)] by simp
  then show ?case using q K2(1,2) K'(1,2) by (simp add: add.assoc)
qed

text \<open>\<^verbatim>\<open>wait_queue_wake_all\<close> from a handler or with a later reschedule.\<close>

lemma wait_queue_wake_all_wf:
  assumes wf: "kernel_wf K" and m: "wq_magic (wait_queues K w)"
  shows "\<exists>K'. wait_queue_wake_all K w False err = Some (int (length (wq_list (wait_queues K w))), K') \<and>
    kernel_wf K' \<and> wakes K w (set (wq_list (wait_queues K w))) err K'"
proof -
  note c = kernel_wfD(1) [OF wf]
  obtain K' where K': "wake_loop K w err (length (wq_list (wait_queues K w))) 0 =
        Some (0 + int (length (wq_list (wait_queues K w))), K')" "core {} K'"
      "wakes K w (set (wq_list (wait_queues K w))) err K'"
    using wake_loop_wakes [OF c refl, where ret = 0] by blast
  have "current_thread K \<notin> set (wq_list (wait_queues K w))"
    using core_in_queue(2) [OF c, of "current_thread K"] kernel_wfD(6) [OF wf] by auto
  from wakes_wf [OF wf K'(2,3) this] have "kernel_wf K'" .
  moreover have "wq_count (wait_queues K' w) = 0"
    using K'(2) wakes_sel(6) [OF K'(3)] by (simp add: core_def waitq_ok_def)
  ultimately show ?thesis using K' m by (simp add: wait_queue_wake_all_def)
qed

text \<open>
  The threads waiting on a queue, in the order they will be woken, and the contract of waking
  one thread, with or without giving it the processor at once.
\<close>

abbreviation waiting :: "kernel \<Rightarrow> wqid \<Rightarrow> tid list" where
  "waiting K w \<equiv> wq_list (wait_queues K w)"

lemma wake_one_resched:
  assumes wf: "kernel_wf K" and q: "waiting K w = t # ts" and ni: "current_thread K \<noteq> idle_thread"
    and h: "wake_head K w err = Some (t, K1)" "core {t} K1" "t_state (threads K1 t) = THREAD_READY"
      "\<And>s. s \<noteq> t \<Longrightarrow> threads K1 s = threads K s" "current_thread K1 = current_thread K" "t \<noteq> idle_thread"
  obtains K2 K3 where "insert_in_run_queue_head (upd_thread K1 (current_thread K) (\<lambda>th. th\<lparr>t_state := THREAD_READY\<rparr>))
      (current_thread K) = Some K2" "insert_in_run_queue_head K2 t = Some K3" "switchable K3"
    "wait_queues K3 = wait_queues K1" "\<And>s. wait_queue_block_ret (threads K3 s) = wait_queue_block_ret (threads K1 s)"
proof -
  let ?c = "current_thread K" and ?f = "\<lambda>th :: thread_t. th\<lparr>t_state := THREAD_READY\<rparr>"
  let ?K1 = "upd_thread K1 ?c ?f"
  note w = kernel_wfD [OF wf]
  have "t \<in> set (waiting K w)" using q by simp
  then have tc: "?c \<noteq> t" using core_in_queue(2) [OF w(1)] w(6) by force
  have "core {?c, t} K1" by (rule core_float [OF h(2)]) (use w(3) h(4) tc in simp)
  then have c1: "core {?c, t} ?K1"
    by (rule core_upd_float) (use w(3,5,6) h(4) tc in \<open>simp_all add: thread_ok_upd\<close>)
  obtain K2 where K2: "insert_in_run_queue_head ?K1 ?c = Some K2" "core ({?c, t} - {?c}) K2" "same_but_queues ?K1 K2"
    using insert_head_core [OF c1 _ ni] by auto
  note s2 = same_but_queues_sel [OF K2(3)]
  have "core {t} K2" using K2(2) tc by (simp add: insert_Diff_if)
  then obtain K3 where K3: "insert_in_run_queue_head K2 t = Some K3" "core ({t} - {t}) K3" "same_but_queues K2 K3"
    using insert_head_core [of "{t}" K2 t] h(3,6) s2(3) tc by auto
  note s3 = same_but_queues_sel [OF K3(3)]
  have "t_state (threads K3 s) \<noteq> THREAD_RUNNING" for s
    using s3(3) s2(3) h(3) h(4) [of s] w(2) [of s] by (cases "s = t"; cases "s = ?c") auto
  then have "switchable K3" using K3(2) by (intro switchable_intro) simp_all
  then show thesis using that [OF K2(1) K3(1)] s2 s3 by simp
qed

lemma wait_queue_wake_one_wf:
  assumes wf: "kernel_wf K" and m: "wq_magic (wait_queues K w)"
    and ni: "reschedule \<Longrightarrow> current_thread K \<noteq> idle_thread"
  shows "\<exists>n K'. wait_queue_wake_one K w reschedule err = Some (n, K') \<and> kernel_wf K' \<and>
    waiting K' w = tl (waiting K w) \<and> (\<forall>v. v \<noteq> w \<longrightarrow> wait_queues K' v = wait_queues K v) \<and>
    n = (if waiting K w = [] then 0 else 1) \<and> wq_magic (wait_queues K' w) \<and>
    (\<forall>t. wait_queue_block_ret (threads K' t) =
       (if waiting K w \<noteq> [] \<and> t = hd (waiting K w) then err else wait_queue_block_ret (threads K t)))"
proof (cases "waiting K w")
  case Nil
  then show ?thesis using wf m by (simp add: wait_queue_wake_one_def)
next
  case (Cons t ts)
  note c = kernel_wfD(1) [OF wf]
  obtain K1 K2 where h: "wake_head K w err = Some (t, K1)" "insert_in_run_queue_head K1 t = Some K2"
      "core {} K2" "wakes K w {t} err K2" "core {t} K1" "t_state (threads K1 t) = THREAD_READY"
      "\<And>s. s \<noteq> t \<Longrightarrow> threads K1 s = threads K s" "current_thread K1 = current_thread K" "t \<noteq> idle_thread"
      "wait_queues K1 = wait_queues K2"
    using wake_head_eq [OF c Cons] by metis
  note ws = wakes_sel [OF h(4)]
  have d: "distinct (t # ts)" using c Cons unfolding core_def waitq_ok_def by metis
  then have q: "waiting K2 w = ts" using ws(6) Cons by (auto simp: filter_id_conv)
  show ?thesis
  proof (cases reschedule)
    case False
    have "current_thread K \<noteq> t"
      using core_in_queue(2) [OF c, of t w] Cons kernel_wfD(6) [OF wf] by auto
    then have "kernel_wf K2" using wakes_wf [OF wf h(3,4)] by simp
    then show ?thesis using False Cons m h(1,2) q ws by (simp add: wait_queue_wake_one_def)
  next
    case True
    then have ni': "current_thread K \<noteq> idle_thread" using ni by simp
    obtain K3 K4 where K34: "insert_in_run_queue_head (upd_thread K1 (current_thread K) (\<lambda>th. th\<lparr>t_state := THREAD_READY\<rparr>))
        (current_thread K) = Some K3" "insert_in_run_queue_head K3 t = Some K4" "switchable K4"
        "wait_queues K4 = wait_queues K1" "\<And>s. wait_queue_block_ret (threads K4 s) = wait_queue_block_ret (threads K1 s)"
      using wake_one_resched [OF wf Cons ni' h(1,5,6,7,8,9)] by blast
    obtain K' where K': "thread_resched K4 = Some K'" "kernel_wf K'" "wait_queues K' = wait_queues K4"
        "\<And>s. wait_queue_block_ret (threads K' s) = wait_queue_block_ret (threads K4 s)"
      using thread_resched_wf [OF K34(3)] by metis
    have r1: "wait_queue_block_ret (threads K1 s) = wait_queue_block_ret (threads K2 s)" for s
      using h(2) by (auto simp: insert_in_run_queue_head_def Let_def split: if_splits)
    show ?thesis
      using True Cons m h(1,10) K34(1,2,4,5) K' q ws(2,7,8) r1 by (simp add: wait_queue_wake_one_def)
  qed
qed

text \<open>Blocking puts the current thread at the end of the queue and runs another one.\<close>

lemma wait_queue_block_wf:
  assumes wf: "kernel_wf K" and m: "wq_magic (wait_queues K w)" and ni: "current_thread K \<noteq> idle_thread"
    and tmo: "timeout \<noteq> Millis 0"
  shows "\<exists>K'. wait_queue_block K w timeout = Some (Inr K') \<and> kernel_wf K' \<and>
    waiting K' w = waiting K w @ [current_thread K] \<and>
    (\<forall>v. v \<noteq> w \<longrightarrow> wait_queues K' v = wait_queues K v) \<and> current_thread K' \<noteq> current_thread K \<and>
    wq_magic (wait_queues K' w) \<and>
    (\<forall>t. t \<noteq> current_thread K \<longrightarrow> wait_queue_block_ret (threads K' t) = wait_queue_block_ret (threads K t))"
proof -
  let ?c = "current_thread K"
  let ?f = "\<lambda>th :: thread_t. th\<lparr>queued := True, t_state := THREAD_BLOCKED, blocking_wait_queue := Some w, wait_queue_block_ret := NO_ERROR\<rparr>"
  let ?K2 = "upd_thread (upd_wq K w (\<lambda>q. q\<lparr>wq_list := wq_list q @ [?c], wq_count := wq_count q + 1\<rparr>)) ?c ?f"
  note w = kernel_wfD [OF wf]
  have "core {?c} K" using core_float [OF w(1,3)] .
  then have "core ({?c} - {?c}) ?K2"
    by (rule core_wq_push) (use w(5) [of ?c] w(6) ni m in \<open>auto simp: thread_ok_def\<close>)
  then have sw: "switchable ?K2" using w(2) by (intro switchable_intro) (auto split: if_splits)
  obtain K' where K': "thread_resched ?K2 = Some K'" "kernel_wf K'" "wait_queues K' = wait_queues ?K2"
      "\<And>t. wait_queue_block_ret (threads K' t) = wait_queue_block_ret (threads ?K2 t)"
    by (rule thread_resched_wf [OF sw]) (rule that; assumption)
  have "?c \<in> set (waiting K' w)" using K'(3) by simp
  then have "current_thread K' \<noteq> ?c"
    using core_in_queue(2) [OF kernel_wfD(1) [OF K'(2)], of ?c w] kernel_wfD(6) [OF K'(2)] by auto
  then show ?thesis using m w(6) tmo K' by (simp add: wait_queue_block_def Let_def)
qed

end
