(* ===== verification/Thread_Ops.thy ===== *)
theory Thread_Ops
  imports Thread_Inv
begin

text \<open>
  The remaining operations of kernel/thread.c keep the scheduler invariant; the kernel as a
  transition system, whose steps are the calls of the running thread and the timer interrupts;
  and the wait queue contract the synchronisation objects rely on, as a locale.
\<close>

lemma wait_queue_block_poll:
  "kernel_wf K \<Longrightarrow> wq_magic (wait_queues K w) \<Longrightarrow> wait_queue_block K w (Millis 0) = Some (Inl ERR_TIMED_OUT)"
  using kernel_wfD(6) [of K] by (simp add: wait_queue_block_def)

lemma thread_unblock_from_wait_queue_wf:
  assumes wf: "kernel_wf K" and m: "t_magic (threads K t)"
  shows "\<exists>st K'. thread_unblock_from_wait_queue K t err = Some (st, K') \<and> kernel_wf K' \<and>
    (if t_state (threads K t) = THREAD_BLOCKED then st = NO_ERROR \<and>
       (\<exists>w. t \<in> set (waiting K w) \<and> wakes K w {t} err K')
     else st = ERR_NOT_BLOCKED \<and> K' = K)"
proof (cases "t_state (threads K t) = THREAD_BLOCKED")
  case False
  then show ?thesis using wf m by (simp add: thread_unblock_from_wait_queue_def)
next
  case True
  note c = kernel_wfD(1) [OF wf]
  have "placed K t" using c by (simp add: core_def)
  then obtain w where w: "blocking_wait_queue (threads K t) = Some w" "t \<in> set (waiting K w)"
    using True by (auto simp: placed_def)
  note q = core_in_queue [OF c]
  let ?K1 = "upd_thread (upd_wq K w (\<lambda>q. q\<lparr>wq_list := remove1 t (wq_list q), wq_count := wq_count q - 1\<rparr>)) t
      (\<lambda>th. th\<lparr>queued := False, t_state := THREAD_READY, wait_queue_block_ret := err, blocking_wait_queue := None\<rparr>)"
  obtain K2 where K2: "insert_in_run_queue_head ?K1 t = Some K2" "core {} K2" "wakes K w {t} err K2"
    using wake_thread [OF c w(2) refl] by blast
  have "current_thread K \<noteq> t" using True kernel_wfD(6) [OF wf] by auto
  then have "kernel_wf K2" using wakes_wf [OF wf K2(2,3)] by simp
  moreover have "(\<lambda>th :: thread_t. th\<lparr>queued := False, blocking_wait_queue := None, t_state := THREAD_READY,
      wait_queue_block_ret := err\<rparr>) = (\<lambda>th. th\<lparr>queued := False, t_state := THREAD_READY,
      wait_queue_block_ret := err, blocking_wait_queue := None\<rparr>)"
    by (rule ext) simp
  ultimately show ?thesis
    using True m w q(4) [OF w(2)] q(5) [OF w(2)] K2(1,3)
    by (auto simp: thread_unblock_from_wait_queue_def)
qed

text \<open>\<open>readies K X K'\<close>: the threads \<open>X\<close> became ready and no other thread changed its state.\<close>

definition readies :: "kernel \<Rightarrow> tid set \<Rightarrow> kernel \<Rightarrow> bool" where
  "readies K X K' \<longleftrightarrow> current_thread K' = current_thread K \<and>
     (\<forall>t. t_magic (threads K' t) = t_magic (threads K t) \<and>
       t_state (threads K' t) = (if t \<in> X then THREAD_READY else t_state (threads K t)))"

lemma wait_queue_timeout_handler_wf:
  assumes wf: "kernel_wf K" and m: "t_magic (threads K t)"
  shows "\<exists>r K'. wait_queue_timeout_handler K t = Some (r, K') \<and> kernel_wf K' \<and>
    (r = INT_RESCHEDULE \<longleftrightarrow> t_state (threads K t) = THREAD_BLOCKED) \<and>
    readies K (if t_state (threads K t) = THREAD_BLOCKED then {t} else {}) K'"
  using thread_unblock_from_wait_queue_wf [OF wf m, of ERR_TIMED_OUT]
  by (auto simp: wait_queue_timeout_handler_def readies_def wakes_sel split: if_splits)

lemma make_ready:
  assumes c: "core {} K" and t: "t \<noteq> idle_thread" "\<not> queued (threads K t)" "t_magic (threads K t)"
    and nb: "t_state (threads K t) \<noteq> THREAD_BLOCKED"
  shows "\<exists>K'. insert_in_run_queue_head (upd_thread K t (\<lambda>th. th\<lparr>t_state := THREAD_READY\<rparr>)) t = Some K' \<and>
    core {} K' \<and> same_but_queues (upd_thread K t (\<lambda>th. th\<lparr>t_state := THREAD_READY\<rparr>)) K'"
proof -
  let ?K1 = "upd_thread K t (\<lambda>th. th\<lparr>t_state := THREAD_READY\<rparr>)"
  have ok: "thread_ok t (threads K t)" using c by (simp add: core_def)
  have "core {t} K" using core_float [OF c t(2)] .
  then have "core {t} ?K1"
    by (rule core_upd_float) (use ok t nb in \<open>auto simp: thread_ok_def\<close>)
  from insert_head_core [OF this _ t(1)] obtain K' where
    "insert_in_run_queue_head ?K1 t = Some K'" "core ({t} - {t}) K'" "same_but_queues ?K1 K'" by auto
  then show ?thesis by auto
qed

lemma not_queued:
  "core {} K \<Longrightarrow> t_state (threads K t) \<noteq> THREAD_READY \<Longrightarrow> t_state (threads K t) \<noteq> THREAD_BLOCKED \<Longrightarrow>
   \<not> queued (threads K t)"
  unfolding core_def placed_def by blast

lemma readied_wf:
  assumes wf: "kernel_wf K" and s: "same_but_queues (upd_thread K t (\<lambda>th. th\<lparr>t_state := THREAD_READY\<rparr>)) K'"
    and c: "core {} K'" and t: "t \<noteq> current_thread K"
  shows "kernel_wf K'"
proof -
  note q = same_but_queues_sel [OF s]
  have "t_state (threads K' u) = THREAD_RUNNING \<longleftrightarrow> u = current_thread K'" for u
    using q(1) q(3) [of u] kernel_wfD(2) [OF wf, of u] t by (cases "u = t") simp_all
  then show ?thesis using c by (simp add: kernel_wf_def)
qed

lemma thread_sleep_handler_wf:
  assumes wf: "kernel_wf K" and t: "t_magic (threads K t)" "t_state (threads K t) = THREAD_SLEEPING"
  shows "\<exists>K'. thread_sleep_handler K t = Some (INT_RESCHEDULE, K') \<and> kernel_wf K' \<and> readies K {t} K'"
proof -
  note w = kernel_wfD [OF wf]
  have ni: "t \<noteq> idle_thread" using w(5) [of t] t by (auto simp: thread_ok_def)
  have "\<not> queued (threads K t)" using not_queued [OF w(1)] t(2) by simp
  from make_ready [OF w(1) ni this t(1)] obtain K' where
    K': "insert_in_run_queue_head (upd_thread K t (\<lambda>th. th\<lparr>t_state := THREAD_READY\<rparr>)) t = Some K'" "core {} K'"
      "same_but_queues (upd_thread K t (\<lambda>th. th\<lparr>t_state := THREAD_READY\<rparr>)) K'" using t(2) by auto
  have "t \<noteq> current_thread K" using w(6) t(2) by auto
  from readied_wf [OF wf K'(3,2) this] show ?thesis
    using K'(1) t same_but_queues_sel(1,3,4) [OF K'(3)] by (simp add: thread_sleep_handler_def readies_def)
qed

lemma thread_resume_wf:
  assumes wf: "kernel_wf K" and t: "t_magic (threads K t)" "t_state (threads K t) \<noteq> THREAD_DEATH"
  shows "\<exists>K'. thread_resume K t ints_disabled = Some (NO_ERROR, K') \<and> kernel_wf K'"
proof (cases "t_state (threads K t) = THREAD_SUSPENDED")
  case False
  then show ?thesis using wf t by (simp add: thread_resume_def)
next
  case True
  note w = kernel_wfD [OF wf]
  have ni: "t \<noteq> idle_thread" using w(5) [of t] True by (auto simp: thread_ok_def)
  have "\<not> queued (threads K t)" using not_queued [OF w(1)] True by simp
  from make_ready [OF w(1) ni this t(1)] obtain K1 where
    K1: "insert_in_run_queue_head (upd_thread K t (\<lambda>th. th\<lparr>t_state := THREAD_READY\<rparr>)) t = Some K1" "core {} K1"
      "same_but_queues (upd_thread K t (\<lambda>th. th\<lparr>t_state := THREAD_READY\<rparr>)) K1" using True by auto
  have "t \<noteq> current_thread K" using w(6) True by auto
  note wf1 = readied_wf [OF wf K1(3,2) this]
  then show ?thesis using K1(1) t True thread_yield_wf [OF wf1] by (auto simp: thread_resume_def)
qed

text \<open>Exiting: a detached thread is torn down, otherwise whoever joins it is woken.\<close>

lemma death_switchable:
  assumes c: "core {} K" and r: "\<And>t. t_state (threads K t) = THREAD_RUNNING \<Longrightarrow> t = c"
    and d: "t_state (f (threads K c)) = THREAD_DEATH" "\<not> queued (f (threads K c))" "thread_ok c (f (threads K c))"
    and nq: "\<not> queued (threads K c)"
  shows "switchable (upd_thread K c f)"
proof -
  have "core {c} K" using core_float [OF c nq] .
  then have "core {c} (upd_thread K c f)" by (rule core_upd_float) (simp_all add: d)
  from core_land [OF this, of c] have "core {} (upd_thread K c f)" using d(1) by simp
  then show ?thesis using r d(1) by (auto intro!: switchable_intro split: if_splits)
qed

lemma switchable_thread_list [simp]: "switchable (K\<lparr>thread_list := l\<rparr>) = switchable K"
  by (simp add: switchable_def)

lemma wake_all_switchable:
  assumes s: "switchable K" and m: "wq_magic (wait_queues K w)"
  shows "\<exists>K'. wait_queue_wake_all K w False err = Some (int (length (waiting K w)), K') \<and>
    switchable K' \<and> wakes K w (set (waiting K w)) err K'"
proof -
  have c: "core {} K" using s by (simp add: switchable_def)
  obtain K' where K': "wake_loop K w err (length (waiting K w)) 0 = Some (0 + int (length (waiting K w)), K')"
      "core {} K'" "wakes K w (set (waiting K w)) err K'"
    using wake_loop_wakes [OF c refl, where ret = 0] by blast
  have "wq_count (wait_queues K' w) = 0"
    using K'(2) wakes_sel(6) [OF K'(3)] by (simp add: core_def waitq_ok_def)
  moreover have "switchable K'" using s K'(2) wakes_sel(1) [OF K'(3)] by (auto simp: switchable_def)
  ultimately show ?thesis using K' m by (simp add: wait_queue_wake_all_def)
qed

lemma thread_exit_wf:
  assumes wf: "kernel_wf K" and ni: "current_thread K \<noteq> idle_thread"
    and m: "wq_magic (wait_queues K (retcode_wait_queue (threads K (current_thread K))))"
  shows "\<exists>K'. thread_exit K rc = Some K' \<and> kernel_wf K' \<and> current_thread K' \<noteq> current_thread K"
proof -
  let ?c = "current_thread K"
  let ?f = "\<lambda>th :: thread_t. th\<lparr>t_state := THREAD_DEATH, retcode := rc\<rparr>"
  let ?g = "\<lambda>th :: thread_t. th\<lparr>t_magic := False\<rparr>"
  let ?w = "retcode_wait_queue (threads K ?c)"
  note w = kernel_wfD [OF wf]
  have okf: "thread_ok ?c (?f (threads K ?c))" "thread_ok ?c (?g (?f (threads K ?c)))"
    using w(5) [of ?c] w(6) ni by (auto simp: thread_ok_def)
  have s1: "switchable (upd_thread K ?c ?f)"
    by (rule death_switchable) (use w okf in simp_all)
  have s2: "switchable (upd_thread K ?c (\<lambda>th. ?g (?f th)))"
    by (rule death_switchable) (use w okf in simp_all)
  have top: "current_thread K' \<noteq> ?c" if "kernel_wf K'" "is_top K2 (current_thread K')"
      "core {} K2" "t_state (threads K2 ?c) = THREAD_DEATH" for K' K2
  proof
    note a = that
    assume e: "current_thread K' = ?c"
    then obtain p where "?c \<in> set (run_queue K2 p)"
      using a(2) ni unfolding is_top_def by (metis list.set_intros(1))
    then show False using core_in_queue(1) [OF a(3)] a(4) by fastforce
  qed
  show ?thesis
  proof (cases "flag_detached (threads K ?c)")
    case True
    let ?K2 = "(upd_thread K ?c (\<lambda>th. ?g (?f th)))\<lparr>thread_list := remove1 ?c (thread_list K)\<rparr>"
    have K2: "switchable ?K2" using s2 by simp
    obtain K' where K': "thread_resched ?K2 = Some K'" "kernel_wf K'" "is_top ?K2 (current_thread K')"
      by (rule thread_resched_wf [OF K2])
    have "current_thread K' \<noteq> ?c" by (rule top [OF K'(2,3)]) (use K2 in \<open>simp_all add: switchable_def\<close>)
    then show ?thesis using True K'(1,2) w(4,7) ni
      by (simp add: thread_exit_def thread_is_idle_def Let_def)
  next
    case False
    obtain n K2 where K2: "wait_queue_wake_all (upd_thread K ?c ?f) ?w False NO_ERROR = Some (n, K2)" "switchable K2"
        "wakes (upd_thread K ?c ?f) ?w (set (waiting (upd_thread K ?c ?f) ?w)) NO_ERROR K2"
      using wake_all_switchable [OF s1, of ?w NO_ERROR] m by auto
    have "?c \<notin> set (waiting K ?w)" using core_in_queue(2) [OF w(1), of ?c] w(6) by auto
    then have dead: "t_state (threads K2 ?c) = THREAD_DEATH" using wakes_sel(1) [OF K2(3), of ?c] by simp
    obtain K' where K': "thread_resched K2 = Some K'" "kernel_wf K'" "is_top K2 (current_thread K')"
      by (rule thread_resched_wf [OF K2(2)])
    have "current_thread K' \<noteq> ?c"
      by (rule top [OF K'(2,3) _ dead]) (use K2(2) in \<open>simp add: switchable_def\<close>)
    then show ?thesis using False K'(1,2) K2(1) w(4,7) ni
      by (simp add: thread_exit_def thread_is_idle_def Let_def)
  qed
qed

lemma thread_timer_tick_wf:
  assumes wf: "kernel_wf K"
  shows "kernel_wf (snd (thread_timer_tick K))"
proof -
  let ?c = "current_thread K" and ?f = "\<lambda>th :: thread_t. th\<lparr>remaining_quantum := remaining_quantum th - 1\<rparr>"
  note w = kernel_wfD [OF wf]
  have "core {?c} (upd_thread K ?c ?f)"
    by (rule current_float [OF wf]) (use w in \<open>simp_all add: thread_ok_upd\<close>)
  from core_land [OF this, of ?c] have "core {} (upd_thread K ?c ?f)" using w(6) by simp
  then have "kernel_wf (upd_thread K ?c ?f)" using w(2) by (auto simp: kernel_wf_def split: if_splits)
  then show ?thesis using wf by (simp add: thread_timer_tick_def Let_def)
qed

lemma thread_create_wf:
  assumes wf: "kernel_wf K" and t: "t_state (threads K t) = THREAD_DEATH" "t \<noteq> idle_thread"
    and w: "waiting K w = []" and p: "prio < 32"
  shows "kernel_wf (snd (thread_create K t w prio struct_ok stack_ok))"
proof (cases "struct_ok \<and> stack_ok")
  case False
  then show ?thesis using wf by (auto simp: thread_create_def)
next
  case True
  let ?th = "\<lparr>t_magic = True, queued = False, priority = prio, t_state = THREAD_SUSPENDED,
    remaining_quantum = 0, flag_detached = False, flag_real_time = False, flag_idle = False,
    blocking_wait_queue = None, wait_queue_block_ret = NO_ERROR, retcode = 0, retcode_wait_queue = w\<rparr>"
  note k = kernel_wfD [OF wf]
  have "core {t} K" using core_float [OF k(1)] not_queued [OF k(1), of t] t by simp
  then have "core {t} (upd_thread K t (\<lambda>_. ?th))"
    by (rule core_upd_float) (use t p in \<open>auto simp: thread_ok_def\<close>)
  from core_land [OF this, of t] have c: "core {} (upd_thread K t (\<lambda>_. ?th))" by simp
  have "core {} (wait_queue_init (upd_thread K t (\<lambda>_. ?th)) w)"
  proof -
    have e: "wq_list (wait_queues (wait_queue_init (upd_thread K t (\<lambda>_. ?th)) w) v) = waiting K v" for v
      using w by (simp add: wait_queue_init_def)
    have "waitq_ok {} (wait_queue_init (upd_thread K t (\<lambda>_. ?th)) w)"
      using c w unfolding core_def waitq_ok_def by (simp add: wait_queue_init_def)
    moreover have "placed (wait_queue_init (upd_thread K t (\<lambda>_. ?th)) w) s" for s
      using c unfolding core_def placed_def e by (simp add: wait_queue_init_def)
    ultimately show ?thesis using c unfolding core_def by (simp add: runq_ok_def wait_queue_init_def)
  qed
  moreover have nc: "t \<noteq> current_thread K" using k(6) t(1) by auto
  have "t_state (threads (wait_queue_init (upd_thread K t (\<lambda>_. ?th)) w) s) = THREAD_RUNNING \<longleftrightarrow> s = current_thread K" for s
    using k(2) [of s] nc by (cases "s = t") (simp_all add: wait_queue_init_def)
  moreover have "current_thread (wait_queue_init (upd_thread K t (\<lambda>_. ?th)) w) = current_thread K"
    by (simp add: wait_queue_init_def)
  ultimately have "kernel_wf (wait_queue_init (upd_thread K t (\<lambda>_. ?th)) w)"
    unfolding kernel_wf_def by simp
  then show ?thesis using True by (simp add: thread_create_def kernel_wf_def Let_def)
qed

lemma thread_flag_wf:
  assumes wf: "kernel_wf K"
  shows "kernel_wf (upd_thread K t (\<lambda>th. th\<lparr>flag_detached := b\<rparr>))"
    (is "kernel_wf ?K")
proof -
  have e: "t_magic (threads ?K s) = t_magic (threads K s)" "queued (threads ?K s) = queued (threads K s)"
      "priority (threads ?K s) = priority (threads K s)" "t_state (threads ?K s) = t_state (threads K s)"
      "flag_idle (threads ?K s) = flag_idle (threads K s)"
      "blocking_wait_queue (threads ?K s) = blocking_wait_queue (threads K s)" for s
    by (cases "s = t"; simp)+
  show ?thesis
    using wf unfolding kernel_wf_def core_def runq_ok_def waitq_ok_def placed_def thread_ok_def e by simp blast
qed

lemma thread_reap_wf:
  assumes wf: "kernel_wf K" and t: "t_state (threads K t) = THREAD_DEATH" "t_magic (threads K t)"
  shows "\<exists>K'. thread_reap K t = Some (retcode (threads K t), K') \<and> kernel_wf K'"
proof -
  let ?f = "\<lambda>th :: thread_t. th\<lparr>t_magic := False\<rparr>"
  note k = kernel_wfD [OF wf]
  have nq: "\<not> queued (threads K t)" using not_queued [OF k(1)] t by simp
  have "core {t} K" using core_float [OF k(1) nq] .
  then have "core {t} (upd_thread K t ?f)"
    by (rule core_upd_float) (use k(5) [of t] t nq in \<open>auto simp: thread_ok_def\<close>)
  from core_land [OF this, of t] have "core {} (upd_thread K t ?f)" using t by simp
  then have "kernel_wf ((upd_thread K t ?f)\<lparr>thread_list := remove1 t (thread_list K)\<rparr>)"
    using k(2) [of t] k(2) t by (auto simp: kernel_wf_def)
  then show ?thesis using t nq k(5) [of t] by (simp add: thread_reap_def Let_def thread_ok_def)
qed

lemma thread_detach_wf:
  assumes wf: "kernel_wf K" and t: "t_magic (threads K t)"
    and m: "wq_magic (wait_queues K (retcode_wait_queue (threads K t)))"
  shows "\<exists>K'. thread_detach K t = Some (NO_ERROR, K') \<and> kernel_wf K'"
proof -
  let ?w = "retcode_wait_queue (threads K t)"
  obtain n K1 where K1: "wait_queue_wake_all K ?w False ERR_THREAD_DETACHED = Some (n, K1)" "kernel_wf K1"
      "wakes K ?w (set (waiting K ?w)) ERR_THREAD_DETACHED K1"
    using wait_queue_wake_all_wf [OF wf m] by blast
  show ?thesis
  proof (cases "t_state (threads K1 t) = THREAD_DEATH")
    case True
    have "\<exists>K'. thread_reap (upd_thread K1 t (\<lambda>th. th\<lparr>flag_detached := False\<rparr>)) t =
        Some (retcode (threads (upd_thread K1 t (\<lambda>th. th\<lparr>flag_detached := False\<rparr>)) t), K') \<and> kernel_wf K'"
      by (rule thread_reap_wf [OF thread_flag_wf [OF K1(2)]])
         (use True t wakes_sel(9) [OF K1(3)] in simp_all)
    then show ?thesis using True K1(1) t by (auto simp: thread_detach_def)
  next
    case False
    then show ?thesis using K1(1) t thread_flag_wf [OF K1(2)] by (simp add: thread_detach_def)
  qed
qed

lemma wait_queue_init_wf:
  assumes "kernel_wf K" "waiting K w = []"
  shows "kernel_wf (wait_queue_init K w)"
proof -
  have "waiting (wait_queue_init K w) v = waiting K v" for v using assms(2) by (simp add: wait_queue_init_def)
  moreover have "threads (wait_queue_init K w) = threads K" "run_queue (wait_queue_init K w) = run_queue K"
      "run_queue_bitmap (wait_queue_init K w) = run_queue_bitmap K" "current_thread (wait_queue_init K w) = current_thread K"
    by (simp_all add: wait_queue_init_def)
  moreover have "wq_count (wait_queues (wait_queue_init K w) v) = (if v = w then 0 else wq_count (wait_queues K v))"
      "wq_magic (wait_queues (wait_queue_init K w) v) = (v = w \<or> wq_magic (wait_queues K v))" for v
    by (simp_all add: wait_queue_init_def)
  ultimately show ?thesis using assms by (auto simp: kernel_wf_def core_def runq_ok_def waitq_ok_def placed_def)
qed

text \<open>
  Waking all threads and giving the processor away at once: the caller goes back to the head of its run queue first, so that
  the woken threads of its priority run before it.
\<close>

lemma wake_all_resched_wf:
  assumes wf: "kernel_wf K" and m: "wq_magic (wait_queues K w)" and ni: "current_thread K \<noteq> idle_thread"
  shows "\<exists>K'. wait_queue_wake_all K w True err = Some (int (length (waiting K w)), K') \<and> kernel_wf K' \<and>
    waiting K' w = [] \<and> (\<forall>v. v \<noteq> w \<longrightarrow> wait_queues K' v = wait_queues K v) \<and> wq_magic (wait_queues K' w) \<and>
    (\<forall>t. wait_queue_block_ret (threads K' t) = (if t \<in> set (waiting K w) then err else wait_queue_block_ret (threads K t)))"
proof (cases "waiting K w = []")
  case True
  then have "wq_count (wait_queues K w) = 0" using kernel_wfD(1) [OF wf] by (simp add: core_def waitq_ok_def)
  then show ?thesis using True wf m by (simp add: wait_queue_wake_all_def)
next
  case False
  let ?c = "current_thread K" and ?f = "\<lambda>th :: thread_t. th\<lparr>t_state := THREAD_READY\<rparr>"
  note k = kernel_wfD [OF wf]
  have "wq_count (wait_queues K w) = int (length (waiting K w))" using k(1) by (simp add: core_def waitq_ok_def)
  then have cnt: "0 < wq_count (wait_queues K w)" using False by simp
  obtain K1 where K1: "insert_in_run_queue_head (upd_thread K ?c ?f) ?c = Some K1" "switchable K1"
      "same_but_queues (upd_thread K ?c ?f) K1"
    using current_ready(1) [OF wf refl, of ?f] k(3,5,6) ni by (auto simp: thread_ok_upd)
  note s1 = same_but_queues_sel [OF K1(3)]
  have q1: "waiting K1 w = waiting K w" using s1(2) by simp
  have c1: "core {} K1" using K1(2) by (simp add: switchable_def)
  obtain K2 where K2: "wake_loop K1 w err (length (waiting K1 w)) 0 = Some (0 + int (length (waiting K1 w)), K2)" "core {} K2"
      "wakes K1 w (set (waiting K1 w)) err K2"
    using wake_loop_wakes [OF c1 refl, where ret = 0] by blast
  note w2 = wakes_sel [OF K2(3)]
  have "switchable K2" using K1(2) K2(2) w2(1) by (auto simp: switchable_def)
  then obtain K' where K': "thread_resched K2 = Some K'" "kernel_wf K'" "wait_queues K' = wait_queues K2"
      "\<And>t. wait_queue_block_ret (threads K' t) = wait_queue_block_ret (threads K2 t)"
    by (rule thread_resched_wf) (rule that; assumption)
  have "waiting K2 w = []" using w2(6) by simp
  moreover have "wq_count (wait_queues K2 w) = 0" using K2(2) calculation by (simp add: core_def waitq_ok_def)
  moreover have "wait_queue_block_ret (threads K1 t) = wait_queue_block_ret (threads K t)" for t using s1(9) by simp
  ultimately show ?thesis using m cnt False K1(1) K2(1) K' q1 w2(2,7,8) s1(2)
    by (simp add: wait_queue_wake_all_def Let_def)
qed

lemma clear_magic_wf:
  assumes "kernel_wf K" "waiting K w = []"
  shows "kernel_wf (upd_wq K w (\<lambda>q. q\<lparr>wq_magic := False\<rparr>))"
proof -
  have "waiting (upd_wq K w (\<lambda>q. q\<lparr>wq_magic := False\<rparr>)) v = waiting K v" for v by simp
  then show ?thesis using assms unfolding kernel_wf_def core_def runq_ok_def waitq_ok_def placed_def by simp
qed

lemma wait_queue_destroy_wf:
  assumes wf: "kernel_wf K" and m: "wq_magic (wait_queues K w)" and ni: "resched \<Longrightarrow> current_thread K \<noteq> idle_thread"
  shows "\<exists>K'. wait_queue_destroy K w resched = Some K' \<and> kernel_wf K' \<and> waiting K' w = [] \<and> \<not> wq_magic (wait_queues K' w) \<and>
    (\<forall>v. v \<noteq> w \<longrightarrow> wait_queues K' v = wait_queues K v) \<and>
    (\<forall>t. wait_queue_block_ret (threads K' t) =
       (if t \<in> set (waiting K w) then ERR_OBJECT_DESTROYED else wait_queue_block_ret (threads K t)))"
proof -
  obtain n K1 where K1: "wait_queue_wake_all K w resched ERR_OBJECT_DESTROYED = Some (n, K1)" "kernel_wf K1" "waiting K1 w = []"
      "\<forall>v. v \<noteq> w \<longrightarrow> wait_queues K1 v = wait_queues K v"
      "\<forall>t. wait_queue_block_ret (threads K1 t) =
         (if t \<in> set (waiting K w) then ERR_OBJECT_DESTROYED else wait_queue_block_ret (threads K t))"
  proof (cases resched)
    case True
    then show thesis using wake_all_resched_wf [OF wf m ni [OF True], of ERR_OBJECT_DESTROYED] that by fastforce
  next
    case False
    then obtain K1 where "wait_queue_wake_all K w resched ERR_OBJECT_DESTROYED = Some (int (length (waiting K w)), K1)" "kernel_wf K1"
        "wakes K w (set (waiting K w)) ERR_OBJECT_DESTROYED K1"
      using wait_queue_wake_all_wf [OF wf m, of ERR_OBJECT_DESTROYED] by auto
    note K1 = this
    show thesis by (rule that [OF K1(1,2)]) (use wakes_sel(2,6,8) [OF K1(3)] in simp_all)
  qed
  then show ?thesis using clear_magic_wf [OF K1(2,3)] by (simp add: wait_queue_destroy_def)
qed

text \<open>The thread chosen by the scheduler has the highest priority of all that can run.\<close>

lemma is_top_priority:
  assumes c: "core {} K" and top: "is_top K t"
    and s: "s \<noteq> idle_thread" "t_state (threads K s) = THREAD_READY"
  shows "t \<noteq> idle_thread \<and> priority (threads K s) \<le> priority (threads K t)"
proof -
  have "placed K s" using c by (simp add: core_def)
  then have q: "s \<in> set (run_queue K (priority (threads K s)))" using s by (simp add: placed_def)
  then have "run_queue K (priority (threads K s)) \<noteq> []" by auto
  then obtain p rest where p: "run_queue K p = t # rest" "\<forall>q > p. run_queue K q = []"
    using top unfolding is_top_def by metis
  have "t \<in> set (run_queue K p)" using p(1) by simp
  then have "t \<noteq> idle_thread" "priority (threads K t) = p" using c by (auto simp: core_def runq_ok_def)
  moreover have "\<not> p < priority (threads K s)" using p(2) q by auto
  ultimately show ?thesis by simp
qed

lemma thread_resched_same_priority:
  assumes sw: "switchable K" and r: "thread_resched K = Some K'"
  shows "priority (threads K' t) = priority (threads K t)"
proof -
  have c: "core {} K" using sw by (simp add: switchable_def)
  obtain n K1 where g: "get_top_thread K = (n, K1)" "same_but_queues K K1"
    by (rule get_top_thread_core [OF c])
  show ?thesis
    using r g(1) same_but_queues_sel(7) [OF g(2)]
    by (auto simp: thread_resched_def Let_def split: if_splits)
qed

lemma thread_resched_priority:
  assumes sw: "switchable K" and r: "thread_resched K = Some K'"
    and s: "s \<noteq> idle_thread" "t_state (threads K' s) = THREAD_READY"
  shows "current_thread K' \<noteq> idle_thread \<and> priority (threads K' s) \<le> priority (threads K' (current_thread K'))"
proof -
  have c: "core {} K" using sw by (simp add: switchable_def)
  obtain K2 where K2: "thread_resched K = Some K2" "kernel_wf K2" "is_top K (current_thread K2)"
      "wait_queues K2 = wait_queues K" "thread_list K2 = thread_list K"
      "\<And>t. t \<noteq> current_thread K2 \<Longrightarrow> threads K2 t = (threads K t)\<lparr>queued := queued (threads K2 t)\<rparr>"
    by (rule thread_resched_wf [OF sw]) (rule that; assumption)
  have e: "K2 = K'" using K2(1) r by simp
  have nc: "s \<noteq> current_thread K'" using kernel_wfD(6) [OF K2(2)] s(2) e by auto
  then obtain q where "threads K' s = (threads K s)\<lparr>queued := q\<rparr>" using K2(6) e by blast
  then have st: "t_state (threads K s) = THREAD_READY" "priority (threads K' s) = priority (threads K s)"
    using s(2) by simp_all
  have "priority (threads K' (current_thread K')) = priority (threads K (current_thread K'))"
    using thread_resched_same_priority [OF sw r] .
  then show ?thesis using is_top_priority [OF c K2(3) s(1) st(1)] st(2) e by simp
qed

section \<open>The kernel as a transition system\<close>

text \<open>
  \<open>sys_call K K'\<close>: the running thread calls an operation, or a timer interrupt arrives. The
  premises are what callers guarantee: the idle thread never blocks, objects are live, a new
  thread gets unused memory. \<open>reachable\<close> are the states after boot.
\<close>

inductive sys_call :: "kernel \<Rightarrow> kernel \<Rightarrow> bool" where
  yield: "thread_yield K = Some K' \<Longrightarrow> sys_call K K'"
| preempt: "thread_preempt K = Some K' \<Longrightarrow> sys_call K K'"
| tick: "thread_timer_tick K = (r, K') \<Longrightarrow> sys_call K K'"
| sleep: "current_thread K \<noteq> idle_thread \<Longrightarrow> thread_sleep K = Some K' \<Longrightarrow> sys_call K K'"
| sleep_expired: "thread_sleep_handler K t = Some (r, K') \<Longrightarrow> sys_call K K'"
| set_priority: "current_thread K \<noteq> idle_thread \<Longrightarrow> thread_set_priority K p = Some K' \<Longrightarrow> sys_call K K'"
| create: "t_state (threads K t) = THREAD_DEATH \<Longrightarrow> t \<noteq> idle_thread \<Longrightarrow> waiting K w = [] \<Longrightarrow> prio < 32 \<Longrightarrow>
    thread_create K t w prio a b = (r, K') \<Longrightarrow> sys_call K K'"
| resume: "thread_resume K t ints = Some (st, K') \<Longrightarrow> sys_call K K'"
| detach: "wq_magic (wait_queues K (retcode_wait_queue (threads K t))) \<Longrightarrow>
    thread_detach K t = Some (st, K') \<Longrightarrow> sys_call K K'"
| block: "current_thread K \<noteq> idle_thread \<Longrightarrow> wait_queue_block K w timeout = Some (Inr K') \<Longrightarrow> sys_call K K'"
| wake_one: "(resched \<Longrightarrow> current_thread K \<noteq> idle_thread) \<Longrightarrow>
    wait_queue_wake_one K w resched err = Some (n, K') \<Longrightarrow> sys_call K K'"
| wake_all: "(resched \<Longrightarrow> current_thread K \<noteq> idle_thread) \<Longrightarrow>
    wait_queue_wake_all K w resched err = Some (n, K') \<Longrightarrow> sys_call K K'"
| destroy_queue: "(resched \<Longrightarrow> current_thread K \<noteq> idle_thread) \<Longrightarrow>
    wait_queue_destroy K w resched = Some K' \<Longrightarrow> sys_call K K'"
| timed_out: "wait_queue_timeout_handler K t = Some (r, K') \<Longrightarrow> sys_call K K'"
| exit: "current_thread K \<noteq> idle_thread \<Longrightarrow>
    wq_magic (wait_queues K (retcode_wait_queue (threads K (current_thread K)))) \<Longrightarrow>
    thread_exit K rc = Some K' \<Longrightarrow> sys_call K K'"

inductive reachable :: "kernel \<Rightarrow> kernel \<Rightarrow> bool" for K0 where
  start: "reachable K0 K0"
| step: "reachable K0 K \<Longrightarrow> sys_call K K' \<Longrightarrow> reachable K0 K'"

inductive_cases sys_callE: "sys_call K K'"

lemma sys_call_wf:
  assumes "sys_call K K'" and wf: "kernel_wf K"
  shows "kernel_wf K'"
  using assms(1)
proof cases
  case yield
  then show ?thesis using thread_yield_wf [OF wf] by auto
next
  case preempt
  then show ?thesis using thread_preempt_wf [OF wf] by auto
next
  case (tick r)
  then show ?thesis using thread_timer_tick_wf [OF wf] by simp
next
  case sleep
  then show ?thesis using thread_sleep_wf [OF wf] by auto
next
  case (sleep_expired t r)
  then have "t_magic (threads K t)" "t_state (threads K t) = THREAD_SLEEPING"
    by (auto simp: thread_sleep_handler_def split: if_splits)
  then show ?thesis using thread_sleep_handler_wf [OF wf] sleep_expired by fastforce
next
  case (set_priority p)
  then show ?thesis using thread_set_priority_wf [OF wf, of p] by auto
next
  case (create t w prio a b r)
  then show ?thesis using thread_create_wf [OF wf, of t w prio a b] by simp
next
  case (resume t ints st)
  then have "t_magic (threads K t)" "t_state (threads K t) \<noteq> THREAD_DEATH"
    by (auto simp: thread_resume_def split: if_splits)
  then show ?thesis using thread_resume_wf [OF wf, of t ints] resume by auto
next
  case (detach t st)
  then have "t_magic (threads K t)" by (auto simp: thread_detach_def split: if_splits)
  then show ?thesis using thread_detach_wf [OF wf _ detach(1)] detach by auto
next
  case (block w timeout)
  then have "wq_magic (wait_queues K w)" "timeout \<noteq> Millis 0"
    by (auto simp: wait_queue_block_def split: if_splits)
  then show ?thesis using wait_queue_block_wf [OF wf _ block(1)] block by fastforce
next
  case (wake_one resched w err n)
  then have "wq_magic (wait_queues K w)" by (auto simp: wait_queue_wake_one_def split: if_splits)
  then show ?thesis using wait_queue_wake_one_wf [where reschedule = resched, OF wf _ wake_one(1), where w = w and err = err] wake_one(2) by auto
next
  case (wake_all resched w err n)
  then have "wq_magic (wait_queues K w)" by (auto simp: wait_queue_wake_all_def split: if_splits)
  then show ?thesis using wait_queue_wake_all_wf [OF wf, of w err] wake_all_resched_wf [OF wf, of w err] wake_all
    by (cases resched) auto
next
  case (destroy_queue resched w)
  then have "wq_magic (wait_queues K w)"
    by (auto simp: wait_queue_destroy_def wait_queue_wake_all_def bind_eq_Some_conv split: if_splits)
  then show ?thesis using wait_queue_destroy_wf [where resched = resched, OF wf _ destroy_queue(1), of w] destroy_queue(2) by auto
next
  case (timed_out t r)
  then have "t_magic (threads K t)"
    by (auto simp: wait_queue_timeout_handler_def thread_unblock_from_wait_queue_def split: if_splits)
  then show ?thesis using wait_queue_timeout_handler_wf [OF wf] timed_out by fastforce
next
  case (exit rc)
  then show ?thesis using thread_exit_wf [OF wf exit(1,2), of rc] by auto
qed

lemma reachable_wf: "reachable K0 K \<Longrightarrow> kernel_wf K0 \<Longrightarrow> kernel_wf K"
  by (induction rule: reachable.induct) (auto intro: sys_call_wf)

text \<open>The state \<^verbatim>\<open>thread_init_early\<close> builds, once the boot thread has become the idle thread.\<close>

definition boot_thread :: thread_t where
  "boot_thread = \<lparr>t_magic = True, queued = False, priority = IDLE_PRIORITY, t_state = THREAD_RUNNING,
     remaining_quantum = 0, flag_detached = True, flag_real_time = False, flag_idle = True,
     blocking_wait_queue = None, wait_queue_block_ret = NO_ERROR, retcode = 0, retcode_wait_queue = 0\<rparr>"

definition boot_kernel :: kernel where
  "boot_kernel = \<lparr>
     threads = (\<lambda>t. if t = idle_thread then boot_thread
       else boot_thread\<lparr>t_magic := False, t_state := THREAD_DEATH, flag_idle := False\<rparr>),
     run_queue = (\<lambda>_. []), run_queue_bitmap = 0,
     wait_queues = (\<lambda>w. \<lparr>wq_magic = (w = 0), wq_list = [], wq_count = 0\<rparr>),
     current_thread = idle_thread, thread_list = [idle_thread]\<rparr>"

lemma boot_kernel_wf: "kernel_wf boot_kernel"
  by (auto simp: boot_kernel_def boot_thread_def kernel_wf_def core_def runq_ok_def waitq_ok_def
      placed_def thread_ok_def)

section \<open>The wait queue contract\<close>

text \<open>
  What mutexes, semaphores, events and event flags rely on: queues are first in, first out,
  a blocked thread stays where it is until it is woken, and operations on one queue leave the
  others alone.
\<close>

locale wait_queue_contract =
  fixes ok :: "'k \<Rightarrow> bool" and queue :: "'k \<Rightarrow> 'w \<Rightarrow> tid list" and live :: "'k \<Rightarrow> 'w \<Rightarrow> bool"
    and current :: "'k \<Rightarrow> tid" and may_block :: "'k \<Rightarrow> bool"
    and blk :: "'k \<Rightarrow> 'w \<Rightarrow> 'k option" and wake :: "'k \<Rightarrow> 'w \<Rightarrow> (int \<times> 'k) option"
  assumes blk_law: "ok k \<Longrightarrow> live k w \<Longrightarrow> may_block k \<Longrightarrow>
      \<exists>k'. blk k w = Some k' \<and> ok k' \<and> queue k' w = queue k w @ [current k] \<and> live k' w \<and>
        (\<forall>v. v \<noteq> w \<longrightarrow> queue k' v = queue k v \<and> live k' v = live k v)"
    and wake_law: "ok k \<Longrightarrow> live k w \<Longrightarrow>
      \<exists>n k'. wake k w = Some (n, k') \<and> ok k' \<and> queue k' w = tl (queue k w) \<and> live k' w \<and>
        n = (if queue k w = [] then 0 else 1) \<and>
        (\<forall>v. v \<noteq> w \<longrightarrow> queue k' v = queue k v \<and> live k' v = live k v)"
begin

lemma blk_wake_other:
  assumes "ok k" "live k w" "may_block k" "queue k w \<noteq> []"
  shows "\<exists>k1 n k2. blk k w = Some k1 \<and> wake k1 w = Some (n, k2) \<and> n = 1 \<and>
    queue k2 w = tl (queue k w) @ [current k]"
proof -
  obtain k1 where k1: "blk k w = Some k1" "ok k1" "queue k1 w = queue k w @ [current k]" "live k1 w"
    using blk_law [OF assms(1-3)] by blast
  obtain n k2 where "wake k1 w = Some (n, k2)" "queue k2 w = tl (queue k1 w)" "n = (if queue k1 w = [] then 0 else 1)"
    using wake_law [OF k1(2,4)] by blast
  then show ?thesis using k1 assms(4) by simp
qed

text \<open>Waking \<open>n\<close> times takes the first \<open>n\<close> threads in the order they blocked.\<close>

fun wake_times :: "nat \<Rightarrow> 'k \<Rightarrow> 'w \<Rightarrow> (int \<times> 'k) option" where
  "wake_times 0 k w = Some (0, k)"
| "wake_times (Suc n) k w = do { (a, k1) \<leftarrow> wake k w; (b, k2) \<leftarrow> wake_times n k1 w; Some (a + b, k2) }"

lemma wake_times_fifo:
  "ok k \<Longrightarrow> live k w \<Longrightarrow> \<exists>k'. wake_times n k w = Some (int (min n (length (queue k w))), k') \<and>
     ok k' \<and> queue k' w = drop n (queue k w)"
proof (induction n arbitrary: k)
  case 0
  then show ?case by simp
next
  case (Suc n)
  obtain a k1 where k1: "wake k w = Some (a, k1)" "ok k1" "queue k1 w = tl (queue k w)" "live k1 w"
      "a = (if queue k w = [] then 0 else 1)"
    using wake_law [OF Suc.prems] by blast
  obtain k' where k': "wake_times n k1 w = Some (int (min n (length (queue k1 w))), k')" "ok k'"
      "queue k' w = drop n (queue k1 w)"
    using Suc.IH [OF k1(2,4)] by blast
  show ?case using k1 k' by (cases "queue k w") (simp_all add: drop_Suc)
qed

end

definition block_forever :: "kernel \<Rightarrow> wqid \<Rightarrow> kernel option" where
  "block_forever K w = do { r \<leftarrow> wait_queue_block K w INFINITE_TIME; case r of Inl _ \<Rightarrow> None | Inr K' \<Rightarrow> Some K' }"

definition wake_first :: "kernel \<Rightarrow> wqid \<Rightarrow> (int \<times> kernel) option" where
  "wake_first K w = wait_queue_wake_one K w False NO_ERROR"

lemma block_forever_law:
  assumes "kernel_wf K" "wq_magic (wait_queues K w)" "current_thread K \<noteq> idle_thread"
  shows "\<exists>K'. block_forever K w = Some K' \<and> kernel_wf K' \<and> waiting K' w = waiting K w @ [current_thread K] \<and>
    wq_magic (wait_queues K' w) \<and>
    (\<forall>v. v \<noteq> w \<longrightarrow> waiting K' v = waiting K v \<and> wq_magic (wait_queues K' v) = wq_magic (wait_queues K v))"
proof -
  obtain K' where K': "wait_queue_block K w INFINITE_TIME = Some (Inr K')" "kernel_wf K'"
      "waiting K' w = waiting K w @ [current_thread K]" "\<forall>v. v \<noteq> w \<longrightarrow> wait_queues K' v = wait_queues K v"
    using wait_queue_block_wf [OF assms, of INFINITE_TIME] by blast
  have "wq_magic (wait_queues K' w)"
    using core_in_queue(4) [OF kernel_wfD(1) [OF K'(2)], of "current_thread K" w] K'(3) by simp
  then show ?thesis using K' by (simp add: block_forever_def)
qed

lemma wake_first_law:
  assumes "kernel_wf K" "wq_magic (wait_queues K w)"
  shows "\<exists>n K'. wake_first K w = Some (n, K') \<and> kernel_wf K' \<and> waiting K' w = tl (waiting K w) \<and>
    wq_magic (wait_queues K' w) \<and> n = (if waiting K w = [] then 0 else 1) \<and>
    (\<forall>v. v \<noteq> w \<longrightarrow> waiting K' v = waiting K v \<and> wq_magic (wait_queues K' v) = wq_magic (wait_queues K v))"
proof -
  obtain n K' where K': "wait_queue_wake_one K w False NO_ERROR = Some (n, K')" "kernel_wf K'"
      "waiting K' w = tl (waiting K w)" "\<forall>v. v \<noteq> w \<longrightarrow> wait_queues K' v = wait_queues K v"
      "n = (if waiting K w = [] then 0 else 1)"
    using wait_queue_wake_one_wf [OF assms, of False NO_ERROR] by blast
  have "wq_magic (wait_queues K' w)"
    using K'(1) by (auto simp: wait_queue_wake_one_def wake_head_def insert_in_run_queue_head_def Let_def
        bind_eq_Some_conv split: if_splits list.splits)
  then show ?thesis using K' by (simp add: wake_first_def)
qed

interpretation kernel_queues: wait_queue_contract kernel_wf waiting "\<lambda>K w. wq_magic (wait_queues K w)"
  current_thread "\<lambda>K. current_thread K \<noteq> idle_thread" block_forever wake_first
  by unfold_locales (rule block_forever_law wake_first_law; assumption)+

end
