(* ===== verification/Sync.thy ===== *)
theory Sync
  imports Thread_Ops
begin

text \<open>
  The synchronisation objects: kernel/mutex.c, kernel/semaphore.c, kernel/event.c and
  external/lib/evflag/evflag.c, each over the wait queues of \<open>Thread\<close>.

  An operation that may wait has two halves. The first runs under the thread lock up to the
  switch: it returns (\<open>Returned\<close>) or leaves the caller blocked (\<open>Blocked\<close>). The second is
  what the same call does when its thread runs again; it starts by reading the thread's
  \<^verbatim>\<open>wait_queue_block_ret\<close>. A failed assertion or a panic is \<open>None\<close>.
\<close>

datatype 'o waitable = Returned status_t 'o kernel | Blocked 'o kernel

section \<open>Mutexes\<close>

record mutex_t =
  m_magic :: bool
  holder :: "tid option"
  m_count :: int
  m_wait :: wqid

definition mutex_init :: "kernel \<Rightarrow> wqid \<Rightarrow> mutex_t \<times> kernel" where
  "mutex_init K w = (\<lparr>m_magic = True, holder = None, m_count = 0, m_wait = w\<rparr>, wait_queue_init K w)"

definition mutex_destroy :: "kernel \<Rightarrow> mutex_t \<Rightarrow> (mutex_t \<times> kernel) option" where
  "mutex_destroy K m =
     (if \<not> m_magic m then None
      else if holder m \<noteq> None \<and> holder m \<noteq> Some (current_thread K) then None
      else do {
        K' \<leftarrow> wait_queue_destroy K (m_wait m) True;
        Some (m\<lparr>m_magic := False, m_count := 0\<rparr>, K')
      })"

definition mutex_acquire_timeout :: "kernel \<Rightarrow> mutex_t \<Rightarrow> lk_time \<Rightarrow> mutex_t waitable option" where
  "mutex_acquire_timeout K m timeout =
     (if \<not> m_magic m then None
      else if holder m = Some (current_thread K) then None
      else
        (let m1 = m\<lparr>m_count := m_count m + 1\<rparr> in
         if m_count m1 > 1 then
           do {
             r \<leftarrow> wait_queue_block K (m_wait m) timeout;
             Some (case r of
                Inl ret \<Rightarrow> Returned ret (if ret = ERR_TIMED_OUT then m1\<lparr>m_count := m_count m1 - 1\<rparr> else m1) K
              | Inr K' \<Rightarrow> Blocked m1 K')
           }
         else Some (Returned NO_ERROR (m1\<lparr>holder := Some (current_thread K)\<rparr>) K)))"

definition mutex_acquire_resume :: "kernel \<Rightarrow> mutex_t \<Rightarrow> status_t \<times> mutex_t" where
  "mutex_acquire_resume K m =
     (let ret = wait_queue_block_result K in
      if ret \<noteq> NO_ERROR then
        (ret, if ret = ERR_TIMED_OUT then m\<lparr>m_count := m_count m - 1\<rparr> else m)
      else (NO_ERROR, m\<lparr>holder := Some (current_thread K)\<rparr>))"

definition mutex_release :: "kernel \<Rightarrow> mutex_t \<Rightarrow> (status_t \<times> mutex_t \<times> kernel) option" where
  "mutex_release K m =
     (if \<not> m_magic m then None
      else if holder m \<noteq> Some (current_thread K) then None
      else
        (let m1 = m\<lparr>holder := None, m_count := m_count m - 1\<rparr> in
         if m_count m1 \<ge> 1 then
           do { (_, K') \<leftarrow> wait_queue_wake_one K (m_wait m) True NO_ERROR; Some (NO_ERROR, m1, K') }
         else Some (NO_ERROR, m1, K)))"

section \<open>Semaphores\<close>

record semaphore_t =
  s_count :: int
  s_wait :: wqid

definition sem_init :: "kernel \<Rightarrow> wqid \<Rightarrow> u32 \<Rightarrow> semaphore_t \<times> kernel" where
  "sem_init K w v = (\<lparr>s_count = sint v, s_wait = w\<rparr>, wait_queue_init K w)"

definition sem_destroy :: "kernel \<Rightarrow> semaphore_t \<Rightarrow> (semaphore_t \<times> kernel) option" where
  "sem_destroy K s = do {
     K' \<leftarrow> wait_queue_destroy K (s_wait s) True;
     Some (s\<lparr>s_count := 0\<rparr>, K')
   }"

definition sem_post :: "kernel \<Rightarrow> semaphore_t \<Rightarrow> bool \<Rightarrow> (int \<times> semaphore_t \<times> kernel) option" where
  "sem_post K s resched =
     (let s1 = s\<lparr>s_count := s_count s + 1\<rparr> in
      if s_count s1 \<le> 0 then
        do { (ret, K') \<leftarrow> wait_queue_wake_one K (s_wait s) resched NO_ERROR; Some (ret, s1, K') }
      else Some (0, s1, K))"

definition sem_timedwait :: "kernel \<Rightarrow> semaphore_t \<Rightarrow> lk_time \<Rightarrow> semaphore_t waitable option" where
  "sem_timedwait K s timeout =
     (let s1 = s\<lparr>s_count := s_count s - 1\<rparr> in
      if s_count s1 < 0 then
        do {
          r \<leftarrow> wait_queue_block K (s_wait s) timeout;
          Some (case r of
             Inl ret \<Rightarrow> Returned ret (if ret = ERR_TIMED_OUT then s1\<lparr>s_count := s_count s1 + 1\<rparr> else s1) K
           | Inr K' \<Rightarrow> Blocked s1 K')
        }
      else Some (Returned NO_ERROR s1 K))"

definition sem_timedwait_resume :: "kernel \<Rightarrow> semaphore_t \<Rightarrow> status_t \<times> semaphore_t" where
  "sem_timedwait_resume K s =
     (let ret = wait_queue_block_result K in
      (ret, if ret = ERR_TIMED_OUT then s\<lparr>s_count := s_count s + 1\<rparr> else s))"

definition sem_wait :: "kernel \<Rightarrow> semaphore_t \<Rightarrow> semaphore_t waitable option" where
  "sem_wait K s =
     (let s1 = s\<lparr>s_count := s_count s - 1\<rparr> in
      if s_count s1 < 0 then
        do {
          r \<leftarrow> wait_queue_block K (s_wait s) INFINITE_TIME;
          Some (case r of Inl ret \<Rightarrow> Returned ret s1 K | Inr K' \<Rightarrow> Blocked s1 K')
        }
      else Some (Returned NO_ERROR s1 K))"

definition sem_trywait :: "semaphore_t \<Rightarrow> status_t \<times> semaphore_t" where
  "sem_trywait s =
     (if s_count s \<le> 0 then (ERR_NOT_READY, s) else (NO_ERROR, s\<lparr>s_count := s_count s - 1\<rparr>))"

section \<open>Events\<close>

record event_t =
  e_magic :: bool
  signaled :: bool
  autounsignal :: bool
  e_wait :: wqid

definition event_init :: "kernel \<Rightarrow> wqid \<Rightarrow> bool \<Rightarrow> bool \<Rightarrow> event_t \<times> kernel" where
  "event_init K w initial auto_unsignal =
     (\<lparr>e_magic = True, signaled = initial, autounsignal = auto_unsignal, e_wait = w\<rparr>, wait_queue_init K w)"

definition event_destroy :: "kernel \<Rightarrow> event_t \<Rightarrow> (event_t \<times> kernel) option" where
  "event_destroy K e =
     (if \<not> e_magic e then None
      else do {
        K' \<leftarrow> wait_queue_destroy K (e_wait e) True;
        Some (e\<lparr>e_magic := False, signaled := False, autounsignal := False\<rparr>, K')
      })"

definition event_wait_timeout :: "kernel \<Rightarrow> event_t \<Rightarrow> lk_time \<Rightarrow> event_t waitable option" where
  "event_wait_timeout K e timeout =
     (if \<not> e_magic e then None
      else if signaled e then
        Some (Returned NO_ERROR (if autounsignal e then e\<lparr>signaled := False\<rparr> else e) K)
      else do {
        r \<leftarrow> wait_queue_block K (e_wait e) timeout;
        Some (case r of Inl ret \<Rightarrow> Returned ret e K | Inr K' \<Rightarrow> Blocked e K')
      })"

definition event_signal :: "kernel \<Rightarrow> event_t \<Rightarrow> bool \<Rightarrow> (status_t \<times> event_t \<times> kernel) option" where
  "event_signal K e reschedule =
     (if \<not> e_magic e then None
      else if \<not> signaled e then
        (if autounsignal e then
           do {
             (n, K') \<leftarrow> wait_queue_wake_one K (e_wait e) reschedule NO_ERROR;
             Some (NO_ERROR, if n \<le> 0 then e\<lparr>signaled := True\<rparr> else e, K')
           }
         else
           do {
             (_, K') \<leftarrow> wait_queue_wake_all K (e_wait e) reschedule NO_ERROR;
             Some (NO_ERROR, e\<lparr>signaled := True\<rparr>, K')
           })
      else Some (NO_ERROR, e, K))"

definition event_unsignal :: "event_t \<Rightarrow> (status_t \<times> event_t) option" where
  "event_unsignal e = (if \<not> e_magic e then None else Some (NO_ERROR, e\<lparr>signaled := False\<rparr>))"

section \<open>Event flags\<close>

record evflag_t =
  ev_magic :: bool
  ev_bits :: u32
  ev_wait :: wqid

abbreviation (input) EVENT_FLAG_AUTOCLEAR :: u32 where "EVENT_FLAG_AUTOCLEAR \<equiv> 1"
abbreviation (input) EVENT_FLAG_WAIT_MODE_OR :: u32 where "EVENT_FLAG_WAIT_MODE_OR \<equiv> 0"
abbreviation (input) EVENT_FLAG_WAIT_MODE_AND :: u32 where "EVENT_FLAG_WAIT_MODE_AND \<equiv> 2"

text \<open>The AND mode compares with \<open>bits\<close>, as the source does.\<close>

definition check_pattern :: "u32 \<Rightarrow> u32 \<Rightarrow> u32 \<Rightarrow> bool" where
  "check_pattern bits pattern flags =
     (if flags AND 2 = EVENT_FLAG_WAIT_MODE_AND then bits AND pattern = bits
      else if flags AND 2 = EVENT_FLAG_WAIT_MODE_OR then bits AND pattern \<noteq> 0
      else False)"

definition clear_pattern :: "u32 \<Rightarrow> u32 \<Rightarrow> u32 \<Rightarrow> u32" where
  "clear_pattern bits pattern flags = bits AND NOT pattern"

definition evflag_init :: "kernel \<Rightarrow> wqid \<Rightarrow> u32 \<Rightarrow> evflag_t \<times> kernel" where
  "evflag_init K w initial = (\<lparr>ev_magic = True, ev_bits = initial, ev_wait = w\<rparr>, wait_queue_init K w)"

definition evflag_destroy :: "kernel \<Rightarrow> evflag_t \<Rightarrow> (evflag_t \<times> kernel) option" where
  "evflag_destroy K e =
     (if \<not> ev_magic e then None
      else do {
        K' \<leftarrow> wait_queue_destroy K (ev_wait e) True;
        Some (e\<lparr>ev_magic := False, ev_bits := 0\<rparr>, K')
      })"

text \<open>
  One iteration of the loop of \<^verbatim>\<open>evflag_wait_timeout\<close>; \<open>out\<close> is \<^verbatim>\<open>*out_bits\<close> when the
  pattern matches. The resumed half either returns an error or iterates again.
\<close>

definition evflag_wait_timeout :: "kernel \<Rightarrow> evflag_t \<Rightarrow> u32 \<Rightarrow> u32 \<Rightarrow> lk_time \<Rightarrow> (u32 option \<times> evflag_t waitable) option" where
  "evflag_wait_timeout K e pattern flags timeout =
     (if \<not> ev_magic e then None
      else if check_pattern (ev_bits e) pattern flags then
        Some (Some (ev_bits e), Returned NO_ERROR
          (if flags AND EVENT_FLAG_AUTOCLEAR \<noteq> 0
           then e\<lparr>ev_bits := clear_pattern (ev_bits e) pattern flags\<rparr> else e) K)
      else do {
        r \<leftarrow> wait_queue_block K (ev_wait e) timeout;
        Some (None, case r of Inl ret \<Rightarrow> Returned ret e K | Inr K' \<Rightarrow> Blocked e K')
      })"

definition evflag_wait_resume :: "kernel \<Rightarrow> evflag_t \<Rightarrow> u32 \<Rightarrow> u32 \<Rightarrow> lk_time \<Rightarrow> (u32 option \<times> evflag_t waitable) option" where
  "evflag_wait_resume K e pattern flags timeout =
     (let ret = wait_queue_block_result K in
      if ret \<noteq> NO_ERROR then Some (None, Returned ret e K)
      else evflag_wait_timeout K e pattern flags timeout)"

definition evflag_raise :: "kernel \<Rightarrow> evflag_t \<Rightarrow> u32 \<Rightarrow> bool \<Rightarrow> (status_t \<times> evflag_t \<times> kernel) option" where
  "evflag_raise K e bits reschedule =
     (if \<not> ev_magic e then None
      else do {
        (_, K') \<leftarrow> wait_queue_wake_all K (ev_wait e) reschedule NO_ERROR;
        Some (NO_ERROR, e\<lparr>ev_bits := ev_bits e OR bits\<rparr>, K')
      })"

end
