(* ===== verification/State_Machine.thy ===== *)
theory State_Machine
  imports States Sync
begin

text \<open>
  app/aiseirigh/statemachine.c: the loop that waits for a transition or a key press, and the
  \<^verbatim>\<open>on_press\<close> thread that reports key presses to it. The two threads share the machine; the
  sections between \<^verbatim>\<open>mutex_acquire\<close> and \<^verbatim>\<open>mutex_release\<close> are single steps (a mutex has one
  owner, \<open>Sync_Inv\<close>), everything between two such sections may interleave. The event flag
  behaves as \<open>check_pattern\<close> and \<open>clear_pattern\<close> say.
\<close>

section \<open>Order of the states\<close>

fun stage :: "State \<Rightarrow> nat" where
  "stage g_init_state = 0"
| "stage g_menu_state = 1"
| "stage g_mount_ms_state = 2"
| "stage g_check_updater_state = 3"
| "stage g_process_psar_state = 4"
| "stage g_partition_flash_state = 5"
| "stage g_format_flash_state = 6"
| "stage g_mount_flash_state = 7"
| "stage g_create_directories_state = 8"
| "stage g_flash_files_state = 9"
| "stage g_finish_state = 10"
| "stage g_error_state = 11"

lemma stage_inj: "stage s = stage t \<Longrightarrow> s = t"
  by (cases s; cases t) simp_all

lemma stage_le: "stage s \<le> 11"
  by (cases s) simp_all

instantiation State :: linorder
begin

definition less_eq_State :: "State \<Rightarrow> State \<Rightarrow> bool" where "s \<le> t \<longleftrightarrow> stage s \<le> stage t"
definition less_State :: "State \<Rightarrow> State \<Rightarrow> bool" where "s < t \<longleftrightarrow> stage s < stage t"

instance
  by standard (auto simp: less_eq_State_def less_State_def stage_inj)

end

text \<open>Every transition a handler asks for goes forward.\<close>

lemmas handler_defs = init_on_enter_def menu_on_enter_def mount_ms_on_enter_def check_updater_on_enter_def
  process_psar_on_enter_def partition_flash_on_enter_def format_flash_on_enter_def mount_flash_on_enter_def
  create_directories_on_enter_def flash_files_on_enter_def finish_on_enter_def error_on_enter_def

lemma transition_error_Some:
  "transition_error N a msg = Some (a', t) \<Longrightarrow> t = Some g_error_state \<and> world a' = world a \<and> ph a' = ph a"
  by (auto simp: transition_error_def split: if_splits)

lemma primary_puts_sel [simp]:
  "identity (primary_puts c m a) = identity a" "updater_path (primary_puts c m a) = updater_path a"
  "directories (primary_puts c m a) = directories a" "ph (primary_puts c m a) = ph a"
  "world (primary_puts c m a) = world a" "g_why (primary_puts c m a) = g_why a"
  by (simp_all add: primary_puts_def)

lemma primary_clear_sel [simp]:
  "identity (primary_clear a) = identity a" "updater_path (primary_clear a) = updater_path a"
  "directories (primary_clear a) = directories a" "ph (primary_clear a) = ph a"
  "world (primary_clear a) = world a" "g_why (primary_clear a) = g_why a"
  by (simp_all add: primary_clear_def)

lemma format_flashes_target:
  "format_flashes N a fs = Some (a', Some t) \<Longrightarrow> t = g_mount_flash_state \<or> t = g_error_state"
  by (induction N a fs rule: format_flashes.induct)
     (auto simp: Let_def split: prod.splits if_splits dest: transition_error_Some)

fun next_stage :: "State \<Rightarrow> State option" where
  "next_stage g_init_state = Some g_menu_state"
| "next_stage g_menu_state = None"
| "next_stage g_mount_ms_state = Some g_check_updater_state"
| "next_stage g_check_updater_state = Some g_process_psar_state"
| "next_stage g_process_psar_state = Some g_partition_flash_state"
| "next_stage g_partition_flash_state = Some g_format_flash_state"
| "next_stage g_format_flash_state = Some g_mount_flash_state"
| "next_stage g_mount_flash_state = Some g_create_directories_state"
| "next_stage g_create_directories_state = Some g_flash_files_state"
| "next_stage g_flash_files_state = Some g_finish_state"
| "next_stage g_finish_state = None"
| "next_stage g_error_state = None"

lemma on_enter_target:
  assumes "on_enter N s a = Some (a', Some t)"
  shows "(next_stage s = Some t \<or> t = g_error_state) \<and> next_stage s \<noteq> None"
  using assms
  by (cases s)
     (auto simp: handler_defs Let_def bind_eq_Some_conv
       split: prod.splits if_splits dest: transition_error_Some format_flashes_target)

lemma on_enter_forward:
  assumes "on_enter N s a = Some (a', Some t)"
  shows "s < t"
  using on_enter_target [OF assms] by (cases s) (auto simp: less_State_def)

lemma on_key_press_target:
  "on_key_press N s a keys = Some (a', Some t) \<Longrightarrow>
   s = g_menu_state \<and> t = g_mount_ms_state \<and> a' = a \<and> IS_KEY_PRESSED keys (SYSCON_CTRL_CROSS N)"
  by (cases s) (auto simp: menu_on_key_press_def finish_on_key_press_def split: if_splits)

section \<open>The machine\<close>

text \<open>
  Where the main thread is: waiting for the event flag, in the three parts of
  \<^verbatim>\<open>perform_state_transition\<close>, in the two parts of \<^verbatim>\<open>statemachine_transition\<close> (the flag says
  whether the key reset of the main loop follows), in a key handler, or clearing the keys.
  \<open>Assert_failed\<close> is an assertion of statemachine.c, \<open>Handler_failed\<close> a handler that does
  not return.
\<close>

datatype main_pc = Waiting | Perform | Swap State | Enter State | Set_next State bool | Raise bool
  | Key_press | Reset_keys | Assert_failed | Handler_failed

datatype press_pc = Reading | Storing u32 | Reporting

record ('w, 'fil) machine =
  state :: "State option"
  next_state :: "State option"
  evbits :: u32
  on_press_keys :: u32
  app_state :: "('w, 'fil) app"
  mpc :: main_pc
  opc :: press_pc

abbreviation (input) SM_TRANSITION :: u32 where "SM_TRANSITION \<equiv> 1"
abbreviation (input) SM_ON_PRESS :: u32 where "SM_ON_PRESS \<equiv> 2"

text \<open>After \<^verbatim>\<open>statemachine_init\<close>, at the call \<^verbatim>\<open>statemachine_start(machine, s)\<close>.\<close>

definition statemachine_init :: "('w, 'fil) app \<Rightarrow> State \<Rightarrow> ('w, 'fil) machine" where
  "statemachine_init a s = \<lparr>state = None, next_state = None, evbits = 0, on_press_keys = 0, app_state = a,
     mpc = Set_next s False, opc = Reading\<rparr>"

definition statemachine_transition :: "('w, 'fil) machine \<Rightarrow> State \<Rightarrow> bool \<Rightarrow> ('w, 'fil) machine" where
  "statemachine_transition m s reset =
     (if next_state m \<noteq> None then m\<lparr>mpc := Assert_failed\<rparr>
      else m\<lparr>next_state := Some s, mpc := Raise reset\<rparr>)"

definition perform_state_transition :: "('w, 'fil) machine \<Rightarrow> ('w, 'fil) machine" where
  "perform_state_transition m =
     (case next_state m of None \<Rightarrow> m\<lparr>mpc := Assert_failed\<rparr> | Some s \<Rightarrow> m\<lparr>mpc := Swap s\<rparr>)"

text \<open>What the main thread does with the outcome of a handler.\<close>

definition after_handler :: "('w, 'fil) machine \<Rightarrow> (('w, 'fil) app \<times> State option) option \<Rightarrow> ('w, 'fil) machine" where
  "after_handler m r =
     (case r of
        None \<Rightarrow> m\<lparr>mpc := Handler_failed\<rparr>
      | Some (a, t) \<Rightarrow> m\<lparr>app_state := a, mpc := (case t of None \<Rightarrow> Reset_keys | Some s \<Rightarrow> Set_next s True)\<rparr>)"

text \<open>One step of the main thread; \<open>None\<close> while it is blocked.\<close>

definition main_step :: "('w, 'fil, 'h) app_env \<Rightarrow> ('w, 'fil) machine \<Rightarrow> ('w, 'fil) machine option" where
  "main_step N m =
     (case mpc m of
        Waiting \<Rightarrow>
          (let pattern = SM_TRANSITION OR SM_ON_PRESS; flags = EVENT_FLAG_WAIT_MODE_OR OR EVENT_FLAG_AUTOCLEAR;
               bits = evbits m
           in if \<not> check_pattern bits pattern flags then None
              else Some (m\<lparr>evbits := clear_pattern bits pattern flags,
                mpc := (if bits AND SM_TRANSITION \<noteq> 0 then Perform
                        else if bits AND SM_ON_PRESS \<noteq> 0 then Key_press else Waiting)\<rparr>))
      | Perform \<Rightarrow> Some (perform_state_transition m)
      | Swap s \<Rightarrow> Some (m\<lparr>state := Some s, next_state := None, mpc := Enter s\<rparr>)
      | Enter s \<Rightarrow> Some (after_handler m (on_enter N s (app_state m)))
      | Set_next s reset \<Rightarrow> Some (statemachine_transition m s reset)
      | Raise reset \<Rightarrow> Some (m\<lparr>evbits := evbits m OR SM_TRANSITION, mpc := (if reset then Reset_keys else Waiting)\<rparr>)
      | Key_press \<Rightarrow>
          (case state m of
             None \<Rightarrow> Some (m\<lparr>mpc := Reset_keys\<rparr>)
           | Some s \<Rightarrow> Some (after_handler m (on_key_press N s (app_state m) (on_press_keys m))))
      | Reset_keys \<Rightarrow> Some (m\<lparr>on_press_keys := 0, mpc := Waiting\<rparr>)
      | Assert_failed \<Rightarrow> None
      | Handler_failed \<Rightarrow> None)"

text \<open>One step of the \<^verbatim>\<open>on_press\<close> thread; \<open>keys\<close> is what \<^verbatim>\<open>gamepad_read\<close> delivers.\<close>

definition on_press :: "('w, 'fil) machine \<Rightarrow> u32 \<Rightarrow> ('w, 'fil) machine" where
  "on_press m keys =
     (case opc m of
        Reading \<Rightarrow> m\<lparr>opc := Storing keys\<rparr>
      | Storing k \<Rightarrow> m\<lparr>on_press_keys := k, opc := Reporting\<rparr>
      | Reporting \<Rightarrow> m\<lparr>evbits := evbits m OR SM_ON_PRESS, opc := Reading\<rparr>)"

inductive sm_step :: "('w, 'fil, 'h) app_env \<Rightarrow> ('w, 'fil) machine \<Rightarrow> ('w, 'fil) machine \<Rightarrow> bool" for N where
  main: "main_step N m = Some m' \<Longrightarrow> sm_step N m m'"
| press: "sm_step N m (on_press m keys)"

inductive sm_reach :: "('w, 'fil, 'h) app_env \<Rightarrow> ('w, 'fil) machine \<Rightarrow> ('w, 'fil) machine \<Rightarrow> bool" for N m0 where
  start: "sm_reach N m0 m0"
| step: "sm_reach N m0 m \<Longrightarrow> sm_step N m m' \<Longrightarrow> sm_reach N m0 m'"

lemma sm_reach_trans: "sm_reach N b c \<Longrightarrow> sm_reach N a b \<Longrightarrow> sm_reach N a c"
  by (induction rule: sm_reach.induct) (auto intro: sm_reach.step)

section \<open>The assertions hold\<close>

text \<open>
  A transition is pending exactly while \<open>next_state\<close> is set, and the main thread does not run a
  handler while one is pending.
\<close>

definition sm_inv :: "('w, 'fil) machine \<Rightarrow> bool" where
  "sm_inv m \<longleftrightarrow>
     (case mpc m of
        Waiting \<Rightarrow> next_state m \<noteq> None \<longleftrightarrow> bit (evbits m) 0
      | Reset_keys \<Rightarrow> next_state m \<noteq> None \<longleftrightarrow> bit (evbits m) 0
      | Perform \<Rightarrow> next_state m \<noteq> None \<and> \<not> bit (evbits m) 0
      | Swap s \<Rightarrow> next_state m = Some s \<and> \<not> bit (evbits m) 0
      | Raise _ \<Rightarrow> next_state m \<noteq> None \<and> \<not> bit (evbits m) 0
      | Enter s \<Rightarrow> next_state m = None \<and> \<not> bit (evbits m) 0 \<and> state m = Some s
      | Set_next _ _ \<Rightarrow> next_state m = None \<and> \<not> bit (evbits m) 0
      | Key_press \<Rightarrow> next_state m = None \<and> \<not> bit (evbits m) 0
      | Assert_failed \<Rightarrow> False
      | Handler_failed \<Rightarrow> True)"

lemma and_one_bit: "(b :: u32) AND 1 \<noteq> 0 \<longleftrightarrow> bit b 0"
  by (auto simp: and_one_eq mod2_eq_if bit_0)

lemma evbits_simps [simp]:
  "bit ((b :: u32) OR 1) 0" "bit ((b :: u32) OR 2) 0 = bit b 0"
  "\<not> bit (clear_pattern b 3 f) 0"
  by (simp_all add: bit_simps clear_pattern_def)

lemma sm_init_inv: "sm_inv (statemachine_init a s)"
  by (simp add: sm_inv_def statemachine_init_def)

lemma after_handler_inv:
  "next_state m = None \<Longrightarrow> \<not> bit (evbits m) 0 \<Longrightarrow> sm_inv (after_handler m r)"
  by (auto simp: sm_inv_def after_handler_def split: option.splits prod.splits)

lemma main_step_inv:
  assumes "main_step N m = Some m'" "sm_inv m"
  shows "sm_inv m'"
proof (cases "mpc m")
  case Waiting
  then show ?thesis using assms
    by (auto simp: main_step_def sm_inv_def Let_def and_one_bit split: if_splits)
next
  case (Enter s)
  then have n: "next_state m = None" "\<not> bit (evbits m) 0" using assms(2) by (simp_all add: sm_inv_def)
  then show ?thesis using assms(1) Enter after_handler_inv [OF n] by (auto simp: main_step_def)
next
  case Key_press
  then have n: "next_state m = None" "\<not> bit (evbits m) 0" using assms(2) by (simp_all add: sm_inv_def)
  then show ?thesis using assms(1) Key_press after_handler_inv [OF n]
    by (cases "state m") (auto simp: main_step_def sm_inv_def)
qed (use assms in \<open>auto simp: main_step_def sm_inv_def perform_state_transition_def statemachine_transition_def
    split: option.splits if_splits\<close>)

lemma on_press_inv: "sm_inv m \<Longrightarrow> sm_inv (on_press m keys)"
  by (auto simp: sm_inv_def on_press_def split: press_pc.splits main_pc.splits)

lemma sm_reach_inv: "sm_reach N m0 m \<Longrightarrow> sm_inv m0 \<Longrightarrow> sm_inv m"
  by (induction rule: sm_reach.induct) (auto elim!: sm_step.cases intro: main_step_inv on_press_inv)

section \<open>Nothing is written before the updater is verified\<close>

text \<open>
  The updater on the card hashes to the expected digest, and its archive opens. Both speak
  about the environment only: they do not depend on what the program has done.
\<close>

definition updater_authentic :: "('w, 'fil, 'h) app_env \<Rightarrow> bool" where
  "updater_authentic N \<longleftrightarrow> (\<exists>buffer digest buffer'.
     file_sha1_calc (hash_lib N) (card N) (get_updater_path (psp_model (penv N))) buffer = Some (FILE_SHA_RES_OK, digest, buffer') \<and>
     take 20 digest = get_updater_sha1 (psp_model (penv N)))"

definition archive_opens :: "('w, 'fil, 'h) app_env \<Rightarrow> bool" where
  "archive_opens N \<longleftrightarrow> (\<exists>st st'.
     psar_open (penv N) (card N) (stack_header N) st (get_updater_path (psp_model (penv N))) = Some (PSAR_RESULT_OK, st'))"

text \<open>
  \<open>clearance N s\<close>: what must have been established before state \<open>s\<close> may be entered.
\<close>

definition clearance :: "('w, 'fil, 'h) app_env \<Rightarrow> State \<Rightarrow> bool" where
  "clearance N s \<longleftrightarrow>
     (g_process_psar_state \<le> s \<and> s \<noteq> g_error_state \<longrightarrow> updater_authentic N) \<and>
     (g_partition_flash_state \<le> s \<and> s \<noteq> g_error_state \<longrightarrow> archive_opens N)"

definition verified :: "('w, 'fil, 'h) app_env \<Rightarrow> bool" where
  "verified N \<longleftrightarrow> updater_authentic N \<and> archive_opens N"

text \<open>The identity and the path are set by the initial state and never change afterwards.\<close>

definition path_set :: "('w, 'fil, 'h) app_env \<Rightarrow> State \<Rightarrow> ('w, 'fil) app \<Rightarrow> bool" where
  "path_set N s a \<longleftrightarrow> (s = g_init_state \<or> s = g_error_state \<or>
     (identity a = Some (psp_model (penv N)) \<and> updater_path a = Some (get_updater_path (psp_model (penv N)))))"

lemma transition_error_path:
  "transition_error N a msg = Some (a', t) \<Longrightarrow> identity a' = identity a \<and> updater_path a' = updater_path a"
  by (auto simp: transition_error_def split: if_splits)

lemma format_flashes_path:
  "format_flashes N a fs = Some (a', t) \<Longrightarrow> identity a' = identity a \<and> updater_path a' = updater_path a"
  by (induction N a fs rule: format_flashes.induct)
     (auto simp: Let_def split: prod.splits if_splits dest: transition_error_path)

lemma on_enter_path:
  assumes "on_enter N s a = Some (a', t)" "path_set N s a" "s \<noteq> g_error_state"
  shows "identity a' = Some (psp_model (penv N)) \<and> updater_path a' = Some (get_updater_path (psp_model (penv N)))"
  using assms
  by (cases s)
     (auto simp: handler_defs path_set_def Let_def bind_eq_Some_conv
       split: prod.splits if_splits dest: transition_error_path format_flashes_path)

lemma get_updater_sha1_length: "length (get_updater_sha1 m) = 20"
  by (simp add: get_updater_sha1_def s_psp_661_update_def s_psp_go_661_update_def)

lemma check_updater_target:
  assumes "check_updater_on_enter N a = Some (a', Some t)" "t \<noteq> g_error_state" "path_set N g_check_updater_state a"
  shows "updater_authentic N"
proof -
  let ?m = "psp_model (penv N)"
  have p: "identity a = Some ?m" "updater_path a = Some (get_updater_path ?m)"
    using assms(3) by (simp_all add: path_set_def)
  obtain hash_res digest b bad where h: "file_sha1_calc (hash_lib N) (card N) (get_updater_path ?m) (wb1 (ph a)) = Some (hash_res, digest, b)"
      and bad: "(if hash_res \<noteq> FILE_SHA_RES_OK then Some True
        else map_option (\<lambda>c. c \<noteq> 0) (memcmp digest (get_updater_sha1 ?m) 20)) = Some bad" "\<not> bad"
    using assms(1,2) p by (auto simp: check_updater_on_enter_def Let_def bind_eq_Some_conv
        dest: transition_error_Some split: if_splits)
  then have ok: "hash_res = FILE_SHA_RES_OK" "memcmp digest (get_updater_sha1 ?m) 20 = Some 0"
    by (auto split: if_splits)
  have "20 \<le> length digest" using ok(2) by (rule memcmp_readable)
  then have "take 20 digest = get_updater_sha1 ?m"
    using ok(2) memcmp_eq_iff [of 20 digest "get_updater_sha1 ?m"] by (simp add: get_updater_sha1_length)
  then show ?thesis using h ok(1) by (auto simp: updater_authentic_def)
qed

lemma process_psar_target:
  assumes "process_psar_on_enter N a = Some (a', Some t)" "t \<noteq> g_error_state" "path_set N g_process_psar_state a"
  shows "archive_opens N"
  using assms by (fastforce simp: process_psar_on_enter_def path_set_def archive_opens_def psar_init_def Let_def
      bind_eq_Some_conv dest: transition_error_Some split: if_splits)

lemma on_enter_world:
  assumes "on_enter N s a = Some (a', t)" "s < g_partition_flash_state \<or> s = g_error_state" "s \<noteq> g_mount_ms_state"
  shows "world a' = world a"
  using assms
  by (cases s)
     (auto simp: handler_defs less_State_def Let_def bind_eq_Some_conv
       split: prod.splits if_splits option.splits dest: transition_error_Some)

lemma mount_ms_world:
  "mount_ms_on_enter N a = Some (a', t) \<Longrightarrow> world a' = snd (f_mount (dev N) (world a) (cstr (lit ''ms:'')))"
  by (auto simp: mount_ms_on_enter_def Let_def split: prod.splits if_splits dest: transition_error_Some)

lemma clearance_late: "clearance N s \<Longrightarrow> g_partition_flash_state \<le> s \<Longrightarrow> s \<noteq> g_error_state \<Longrightarrow> verified N"
  by (auto simp: clearance_def verified_def less_eq_State_def)

lemma on_enter_clearance:
  assumes e: "on_enter N s a = Some (a', Some t)" and c: "clearance N s" "path_set N s a"
  shows "clearance N t"
proof (cases "t = g_error_state")
  case True
  then show ?thesis by (simp add: clearance_def)
next
  case False
  then have n: "next_stage s = Some t" using on_enter_target [OF e] by simp
  show ?thesis
  proof (cases s)
    case g_check_updater_state
    then show ?thesis using check_updater_target [OF _ False] e c(2) n by (auto simp: clearance_def less_eq_State_def)
  next
    case g_process_psar_state
    then show ?thesis using process_psar_target [OF _ False] e c n by (auto simp: clearance_def less_eq_State_def)
  qed (use n c in \<open>auto simp: clearance_def less_eq_State_def\<close>)
qed

text \<open>Mounting the memory card leaves the observed part of the devices alone.\<close>

definition card_mount_keeps :: "('w, 'fil, 'h) app_env \<Rightarrow> ('w \<Rightarrow> 'f) \<Rightarrow> bool" where
  "card_mount_keeps N flash \<longleftrightarrow> (\<forall>w. flash (snd (f_mount (dev N) w (cstr (lit ''ms:'')))) = flash w)"

lemma on_enter_flash:
  assumes e: "on_enter N s a = Some (a', t)" and c: "clearance N s"
    and ms: "card_mount_keeps N flash"
  shows "flash (world a') = flash (world a) \<or> verified N"
proof (cases "s < g_partition_flash_state \<or> s = g_error_state")
  case True
  show ?thesis
  proof (cases "s = g_mount_ms_state")
    case m: True
    then show ?thesis using mount_ms_world [of N a a' t] e ms by (simp add: card_mount_keeps_def)
  next
    case False
    then show ?thesis using on_enter_world [OF e True] by simp
  qed
next
  case False
  then show ?thesis using clearance_late [OF c] by (auto simp: not_less)
qed

text \<open>The states the machine is in or about to enter.\<close>

definition targets :: "('w, 'fil) machine \<Rightarrow> State set" where
  "targets m = {s. state m = Some s \<or> next_state m = Some s \<or> mpc m = Swap s \<or> mpc m = Enter s \<or> (\<exists>b. mpc m = Set_next s b)}"

definition flash_inv :: "('w, 'fil, 'h) app_env \<Rightarrow> ('w \<Rightarrow> 'f) \<Rightarrow> 'f \<Rightarrow> ('w, 'fil) machine \<Rightarrow> bool" where
  "flash_inv N flash f0 m \<longleftrightarrow> (flash (world (app_state m)) = f0 \<or> verified N) \<and>
     (\<forall>s \<in> targets m. clearance N s \<and> path_set N s (app_state m))"

lemma after_enter_flash_inv:
  assumes inv: "flash_inv N flash f0 m" and pc: "mpc m = Enter s" "state m = Some s" "next_state m = None"
    and ms: "card_mount_keeps N flash"
  shows "flash_inv N flash f0 (after_handler m (on_enter N s (app_state m)))"
proof -
  have s: "clearance N s" "path_set N s (app_state m)" using inv pc by (auto simp: flash_inv_def targets_def)
  show ?thesis
  proof (cases "on_enter N s (app_state m)")
    case None
    then show ?thesis using inv pc by (auto simp: after_handler_def flash_inv_def targets_def)
  next
    case (Some r)
    obtain a' t where r: "r = (a', t)" by fastforce
    note e = Some [unfolded r]
    have p: "path_set N u a'" if "u = g_error_state \<or> s \<noteq> g_error_state" for u
      using on_enter_path [OF e s(2)] that by (auto simp: path_set_def)
    have ps: "path_set N s a'" using p [of s] by (cases "s = g_error_state") auto
    have pt: "clearance N u \<and> path_set N u a'" if "t = Some u" for u
      using on_enter_clearance [OF e [unfolded that] s] p [of u] on_enter_target [OF e [unfolded that]] by (cases s) auto
    show ?thesis
      using inv on_enter_flash [OF e s(1) ms] ps pt s(1) pc e
      by (auto simp: after_handler_def flash_inv_def targets_def split: option.splits)
  qed
qed

lemma main_step_flash_inv:
  assumes st: "main_step N m = Some m'" and inv: "flash_inv N flash f0 m" and si: "sm_inv m"
    and ms: "card_mount_keeps N flash"
  shows "flash_inv N flash f0 m'"
proof (cases "mpc m")
  case (Enter s)
  then show ?thesis using after_enter_flash_inv [OF inv Enter _ _ ms] st si by (auto simp: main_step_def sm_inv_def)
next
  case Key_press
  show ?thesis
  proof (cases "state m")
    case None
    then show ?thesis using Key_press st inv by (auto simp: main_step_def flash_inv_def targets_def)
  next
    case (Some s)
    let ?r = "on_key_press N s (app_state m) (on_press_keys m)"
    have m': "m' = after_handler m ?r" using Key_press Some st by (simp add: main_step_def)
    have s: "clearance N s" "path_set N s (app_state m)" using inv Some by (auto simp: flash_inv_def targets_def)
    consider a' where "?r = Some (a', None)" "a' = app_state m"
      | a' where "s = g_finish_state" "?r = Some (a', None)" "identity a' = identity (app_state m)" "updater_path a' = updater_path (app_state m)"
      | "s = g_menu_state" "?r = Some (app_state m, Some g_mount_ms_state)"
      by (cases s; cases "IS_KEY_PRESSED (on_press_keys m) (SYSCON_CTRL_CROSS N)")
         (auto simp: menu_on_key_press_def finish_on_key_press_def)
    then show ?thesis
    proof cases
      case 1
      then show ?thesis using m' inv Key_press by (auto simp: after_handler_def flash_inv_def targets_def)
    next
      case 2
      then have "verified N" using clearance_late [OF s(1)] by (simp add: less_eq_State_def)
      then show ?thesis using m' inv Key_press 2
        by (auto simp: after_handler_def flash_inv_def targets_def path_set_def)
    next
      case 3
      then show ?thesis using m' inv Key_press s
        by (auto simp: after_handler_def flash_inv_def targets_def path_set_def clearance_def less_eq_State_def)
    qed
  qed
qed (use st inv in \<open>auto simp: main_step_def flash_inv_def targets_def perform_state_transition_def
    statemachine_transition_def Let_def split: option.splits if_splits\<close>)

lemma on_press_flash_inv: "flash_inv N flash f0 m \<Longrightarrow> flash_inv N flash f0 (on_press m keys)"
  by (auto simp: flash_inv_def targets_def on_press_def split: press_pc.splits)

lemma sm_reach_flash_inv:
  assumes "sm_reach N m0 m" "sm_inv m0" "flash_inv N flash f0 m0"
    and ms: "card_mount_keeps N flash"
  shows "flash_inv N flash f0 m"
  using assms(1,2,3)
proof (induction rule: sm_reach.induct)
  case start
  then show ?case by simp
next
  case (step m m')
  have "sm_inv m" using sm_reach_inv [OF step.hyps(1) step.prems(1)] .
  with step show ?case by (auto elim!: sm_step.cases intro: main_step_flash_inv [OF _ _ _ ms] on_press_flash_inv)
qed

end
