(* ===== verification/Sync_Inv.thy ===== *)
theory Sync_Inv
  imports Sync
begin

text \<open>
  A mutex shared by any number of threads, as a transition system. Beside the kernel and the
  mutex the state has two ghost lists: \<open>inside\<close>, the threads whose acquire returned and that
  have not released yet, and \<open>pending\<close>, the threads taken off the mutex's wait queue that have
  not run since. A thread of \<open>pending\<close> is inside its acquire call, so the next thing it does
  is the second half of that call.
\<close>

record mutex_sys =
  mk :: kernel
  mm :: mutex_t
  inside :: "tid list"
  pending :: "tid list"

abbreviation mcur :: "mutex_sys \<Rightarrow> tid" where "mcur s \<equiv> current_thread (mk s)"
abbreviation mwaiting :: "mutex_sys \<Rightarrow> tid list" where "mwaiting s \<equiv> waiting (mk s) (m_wait (mm s))"

text \<open>
  \<open>elsewhere\<close> is any step of the kernel that does not concern the mutex: it may schedule
  threads in any order. With \<open>timeouts\<close> the waiters may have a time limit.
\<close>

inductive mutex_step :: "bool \<Rightarrow> mutex_sys \<Rightarrow> mutex_sys \<Rightarrow> bool" for timeouts where
  acquire_now: "mcur s \<notin> set (pending s) \<Longrightarrow> mcur s \<notin> set (inside s) \<Longrightarrow> mcur s \<noteq> idle_thread \<Longrightarrow>
    (timeouts \<or> tmo = INFINITE_TIME) \<Longrightarrow>
    mutex_acquire_timeout (mk s) (mm s) tmo = Some (Returned st m' K') \<Longrightarrow>
    mutex_step timeouts s (s\<lparr>mk := K', mm := m', inside := (if st = NO_ERROR then mcur s # inside s else inside s)\<rparr>)"
| acquire_wait: "mcur s \<notin> set (pending s) \<Longrightarrow> mcur s \<notin> set (inside s) \<Longrightarrow> mcur s \<noteq> idle_thread \<Longrightarrow>
    (timeouts \<or> tmo = INFINITE_TIME) \<Longrightarrow>
    mutex_acquire_timeout (mk s) (mm s) tmo = Some (Blocked m' K') \<Longrightarrow>
    mutex_step timeouts s (s\<lparr>mk := K', mm := m'\<rparr>)"
| acquire_resume: "mcur s \<in> set (pending s) \<Longrightarrow>
    mutex_acquire_resume (mk s) (mm s) = (st, m') \<Longrightarrow>
    mutex_step timeouts s (s\<lparr>mm := m', pending := remove1 (mcur s) (pending s),
      inside := (if st = NO_ERROR then mcur s # inside s else inside s)\<rparr>)"
| release: "mcur s \<notin> set (pending s) \<Longrightarrow> mcur s \<in> set (inside s) \<Longrightarrow>
    mutex_release (mk s) (mm s) = Some (st, m', K') \<Longrightarrow>
    mutex_step timeouts s (s\<lparr>mk := K', mm := m', inside := remove1 (mcur s) (inside s),
      pending := pending s @ take (length (mwaiting s) - length (waiting K' (m_wait (mm s)))) (mwaiting s)\<rparr>)"
| time_out: "timeouts \<Longrightarrow> t \<in> set (mwaiting s) \<Longrightarrow>
    wait_queue_timeout_handler (mk s) t = Some (r, K') \<Longrightarrow>
    mutex_step timeouts s (s\<lparr>mk := K', pending := pending s @ [t]\<rparr>)"
| elsewhere: "kernel_wf K' \<Longrightarrow> waiting K' (m_wait (mm s)) = mwaiting s \<Longrightarrow>
    wq_magic (wait_queues K' (m_wait (mm s))) \<Longrightarrow>
    (\<And>t. t \<in> set (pending s) \<Longrightarrow> wait_queue_block_ret (threads K' t) = wait_queue_block_ret (threads (mk s) t)) \<Longrightarrow>
    mutex_step timeouts s (s\<lparr>mk := K'\<rparr>)"

inductive mutex_reach :: "bool \<Rightarrow> mutex_sys \<Rightarrow> mutex_sys \<Rightarrow> bool" for timeouts s0 where
  init: "mutex_reach timeouts s0 s0"
| step: "mutex_reach timeouts s0 s \<Longrightarrow> mutex_step timeouts s s' \<Longrightarrow> mutex_reach timeouts s0 s'"

definition mutex_start :: "mutex_sys \<Rightarrow> bool" where
  "mutex_start s \<longleftrightarrow> kernel_wf (mk s) \<and> mwaiting s = [] \<and> wq_magic (wait_queues (mk s) (m_wait (mm s))) \<and>
     m_magic (mm s) \<and> holder (mm s) = None \<and> m_count (mm s) = 0 \<and> inside s = [] \<and> pending s = []"

text \<open>Without time limits: the count is exact and ownership is handed over, never dropped.\<close>

definition mutex_inv :: "mutex_sys \<Rightarrow> bool" where
  "mutex_inv s \<longleftrightarrow> kernel_wf (mk s) \<and> wq_magic (wait_queues (mk s) (m_wait (mm s))) \<and> m_magic (mm s) \<and>
     m_count (mm s) = int (length (inside s) + length (pending s) + length (mwaiting s)) \<and>
     length (inside s) + length (pending s) \<le> 1 \<and>
     (mwaiting s \<noteq> [] \<longrightarrow> inside s \<noteq> [] \<or> pending s \<noteq> []) \<and>
     holder (mm s) = (case inside s of [] \<Rightarrow> None | t # _ \<Rightarrow> Some t) \<and>
     (\<forall>t \<in> set (pending s). wait_queue_block_ret (threads (mk s) t) = NO_ERROR) \<and>
     idle_thread \<notin> set (pending s) \<and> idle_thread \<notin> set (inside s)"

lemma mutex_start_inv: "mutex_start s \<Longrightarrow> mutex_inv s"
  by (simp add: mutex_start_def mutex_inv_def)

lemma mutex_acquire_inv:
  assumes inv: "mutex_inv s" and c: "mcur s \<notin> set (pending s)" "mcur s \<notin> set (inside s)" "mcur s \<noteq> idle_thread"
  shows "mutex_acquire_timeout (mk s) (mm s) INFINITE_TIME = Some (Returned st m' K') \<Longrightarrow>
      st = NO_ERROR \<and> mutex_inv (s\<lparr>mk := K', mm := m', inside := mcur s # inside s\<rparr>)"
    and "mutex_acquire_timeout (mk s) (mm s) INFINITE_TIME = Some (Blocked m' K') \<Longrightarrow>
      mutex_inv (s\<lparr>mk := K', mm := m'\<rparr>)"
proof -
  have i: "kernel_wf (mk s)" "wq_magic (wait_queues (mk s) (m_wait (mm s)))" "m_magic (mm s)"
      "m_count (mm s) = int (length (inside s) + length (pending s) + length (mwaiting s))"
      "mwaiting s \<noteq> [] \<longrightarrow> inside s \<noteq> [] \<or> pending s \<noteq> []"
    using inv by (simp_all add: mutex_inv_def)
  obtain K1 where b: "wait_queue_block (mk s) (m_wait (mm s)) INFINITE_TIME = Some (Inr K1)" "kernel_wf K1"
      "waiting K1 (m_wait (mm s)) = mwaiting s @ [mcur s]" "wq_magic (wait_queues K1 (m_wait (mm s)))"
      "\<forall>t. t \<noteq> mcur s \<longrightarrow> wait_queue_block_ret (threads K1 t) = wait_queue_block_ret (threads (mk s) t)"
    using wait_queue_block_wf [OF i(1,2) c(3), of INFINITE_TIME] by blast
  show "st = NO_ERROR \<and> mutex_inv (s\<lparr>mk := K', mm := m', inside := mcur s # inside s\<rparr>)"
    if "mutex_acquire_timeout (mk s) (mm s) INFINITE_TIME = Some (Returned st m' K')"
  proof -
    have "m_count (mm s) \<le> 0" "st = NO_ERROR" "K' = mk s"
        "m' = (mm s)\<lparr>m_count := m_count (mm s) + 1, holder := Some (mcur s)\<rparr>"
      using that b(1) by (auto simp: mutex_acquire_timeout_def Let_def split: if_splits)
    moreover from this(1) have "length (inside s) = 0 \<and> length (pending s) = 0 \<and> length (mwaiting s) = 0"
      using i(4) by linarith
    ultimately show ?thesis using inv c(3) by (auto simp: mutex_inv_def)
  qed
  show "mutex_inv (s\<lparr>mk := K', mm := m'\<rparr>)"
    if "mutex_acquire_timeout (mk s) (mm s) INFINITE_TIME = Some (Blocked m' K')"
  proof -
    have "m_count (mm s) \<ge> 1" "K' = K1" "m' = (mm s)\<lparr>m_count := m_count (mm s) + 1\<rparr>"
      using that b(1) by (auto simp: mutex_acquire_timeout_def Let_def split: if_splits)
    moreover from this(1) have "inside s \<noteq> [] \<or> pending s \<noteq> []" using i(4,5) by auto
    moreover have "wait_queue_block_ret (threads K1 t) = NO_ERROR" if "t \<in> set (pending s)" for t
      using b(5) c(1) that inv by (metis mutex_inv_def)
    ultimately show ?thesis using inv b(2-4) by (simp add: mutex_inv_def)
  qed
qed

lemma mutex_release_inv:
  assumes inv: "mutex_inv s" and c: "mcur s \<in> set (inside s)"
  shows "\<exists>K' m'. mutex_release (mk s) (mm s) = Some (NO_ERROR, m', K') \<and>
    mutex_inv (s\<lparr>mk := K', mm := m', inside := remove1 (mcur s) (inside s),
      pending := pending s @ take (length (mwaiting s) - length (waiting K' (m_wait (mm s)))) (mwaiting s)\<rparr>)"
proof -
  have "length (inside s) + length (pending s) \<le> 1" using inv by (simp add: mutex_inv_def)
  then have i: "inside s = [mcur s]" "pending s = []" using c by (cases "inside s"; auto)+
  have h: "holder (mm s) = Some (mcur s)" "m_count (mm s) = 1 + int (length (mwaiting s))" "m_magic (mm s)"
      "kernel_wf (mk s)" "wq_magic (wait_queues (mk s) (m_wait (mm s)))" "mcur s \<noteq> idle_thread"
    using inv i by (auto simp: mutex_inv_def)
  show ?thesis
  proof (cases "mwaiting s")
    case Nil
    then show ?thesis using i h inv by (simp add: mutex_release_def mutex_inv_def Let_def)
  next
    case (Cons t ts)
    obtain n K' where K': "wait_queue_wake_one (mk s) (m_wait (mm s)) True NO_ERROR = Some (n, K')" "kernel_wf K'"
        "waiting K' (m_wait (mm s)) = tl (mwaiting s)" "wq_magic (wait_queues K' (m_wait (mm s)))"
        "\<forall>u. wait_queue_block_ret (threads K' u) =
          (if mwaiting s \<noteq> [] \<and> u = hd (mwaiting s) then NO_ERROR else wait_queue_block_ret (threads (mk s) u))"
      using wait_queue_wake_one_wf [OF h(4,5), of True NO_ERROR] h(6) by blast
    have "t \<noteq> idle_thread" using core_in_queue(5) [OF kernel_wfD(1) [OF h(4)], of t "m_wait (mm s)"] Cons by simp
    then show ?thesis using Cons i h K' by (simp add: mutex_release_def mutex_inv_def Let_def)
  qed
qed

lemma mutex_step_inv:
  assumes "mutex_step False s s'" and inv: "mutex_inv s"
  shows "mutex_inv s'"
  using assms(1)
proof cases
  case (acquire_now tmo st m' K')
  then show ?thesis using mutex_acquire_inv(1) [OF inv acquire_now(2-4), of st m' K'] by auto
next
  case (acquire_wait tmo m' K')
  then show ?thesis using mutex_acquire_inv(2) [OF inv acquire_wait(2-4), of m' K'] by auto
next
  case (acquire_resume st m')
  have "length (inside s) + length (pending s) \<le> 1" using inv by (simp add: mutex_inv_def)
  then have p: "pending s = [mcur s]" "inside s = []" using acquire_resume(2)
    by (cases "pending s"; auto)+
  then have "wait_queue_block_result (mk s) = NO_ERROR"
    using inv by (simp add: mutex_inv_def wait_queue_block_result_def)
  then show ?thesis using acquire_resume p inv
    by (auto simp: mutex_acquire_resume_def mutex_inv_def Let_def)
next
  case (release st m' K')
  then show ?thesis using mutex_release_inv [OF inv release(3)] by auto
next
  case (time_out t r K')
  then show ?thesis by simp
next
  case (elsewhere K')
  then show ?thesis using inv by (simp add: mutex_inv_def)
qed

lemma mutex_reach_inv: "mutex_reach False s0 s \<Longrightarrow> mutex_start s0 \<Longrightarrow> mutex_inv s"
  by (induction rule: mutex_reach.induct) (auto intro: mutex_start_inv mutex_step_inv)

section \<open>Time limits lose the mutex\<close>

text \<open>
  With a time limit the waiter leaves the queue when the timer fires, but takes itself off the
  count only when it next runs. A release in between finds nobody to wake and a later acquire
  still sees a non-zero count. In a \<open>stuck\<close> state nobody owns the mutex, nobody is about to,
  and nobody ever will.
\<close>

definition stuck :: "mutex_sys \<Rightarrow> bool" where
  "stuck s \<longleftrightarrow> kernel_wf (mk s) \<and> wq_magic (wait_queues (mk s) (m_wait (mm s))) \<and> m_magic (mm s) \<and>
     1 \<le> m_count (mm s) \<and> inside s = [] \<and> pending s = [] \<and> holder (mm s) = None"

lemma stuck_step:
  assumes "mutex_step False s s'" "stuck s"
  shows "stuck s'"
  using assms(1)
proof cases
  case (acquire_now tmo st m' K')
  then show ?thesis
    using assms(2) wait_queue_block_wf [of "mk s" "m_wait (mm s)" tmo]
    by (auto simp: stuck_def mutex_acquire_timeout_def Let_def split: if_splits)
next
  case (acquire_wait tmo m' K')
  then show ?thesis
    using assms(2) wait_queue_block_wf [of "mk s" "m_wait (mm s)" tmo]
    by (auto simp: stuck_def mutex_acquire_timeout_def Let_def split: if_splits)
qed (use assms(2) in \<open>simp_all add: stuck_def\<close>)

lemma stuck_forever: "mutex_reach False s0 s \<Longrightarrow> stuck s0 \<Longrightarrow> stuck s"
  by (induction rule: mutex_reach.induct) (auto intro: stuck_step)

text \<open>Kernels with threads 2, 3 and 4: one runs, those of \<open>bs\<close> wait on queue 7, the rest are ready.\<close>

definition user_thread :: "thread_state \<Rightarrow> status_t \<Rightarrow> thread_t" where
  "user_thread st ret = \<lparr>t_magic = True, queued = (st = THREAD_READY \<or> st = THREAD_BLOCKED), priority = 16,
     t_state = st, remaining_quantum = 5, flag_detached = True, flag_real_time = False, flag_idle = False,
     blocking_wait_queue = (if st = THREAD_BLOCKED then Some 7 else None), wait_queue_block_ret = ret,
     retcode = 0, retcode_wait_queue = 0\<rparr>"

definition three_threads :: "tid \<Rightarrow> tid list \<Rightarrow> tid list \<Rightarrow> status_t \<Rightarrow> kernel" where
  "three_threads c rs bs ret2 = \<lparr>
     threads = (\<lambda>t. if t = 0 then boot_thread\<lparr>t_state := THREAD_READY\<rparr>
       else if t = c then user_thread THREAD_RUNNING (if t = 2 then ret2 else NO_ERROR)
       else if t \<in> set bs then user_thread THREAD_BLOCKED NO_ERROR
       else if t \<in> set rs then user_thread THREAD_READY (if t = 2 then ret2 else NO_ERROR)
       else (user_thread THREAD_DEATH NO_ERROR)\<lparr>t_magic := False\<rparr>),
     run_queue = (\<lambda>p. if p = 16 then rs else []), run_queue_bitmap = (if rs = [] then 0 else 0x10000),
     wait_queues = (\<lambda>w. if w = 7 then \<lparr>wq_magic = True, wq_list = bs, wq_count = int (length bs)\<rparr>
       else \<lparr>wq_magic = (w = 0), wq_list = [], wq_count = 0\<rparr>),
     current_thread = c, thread_list = [4, 3, 2, 0]\<rparr>"

lemma three_threads_wf:
  assumes "c \<noteq> 0" "0 \<notin> set rs" "0 \<notin> set bs" "distinct (c # rs @ bs)"
  shows "kernel_wf (three_threads c rs bs ret2)"
proof -
  have b: "bit (0x10000 :: u32) p = (p = 16)" for p
  proof -
    have "n < 32 \<Longrightarrow> bit (2 ^ n :: u32) p = (p = n)" for n by (auto simp: bit_simps)
    from this [of 16] show ?thesis by simp
  qed
  let ?K = "three_threads c rs bs ret2"
  have "runq_ok {} ?K"
    using assms b by (auto simp: runq_ok_def three_threads_def user_thread_def idle_thread_def)
  moreover have "waitq_ok {} ?K"
    using assms by (auto simp: waitq_ok_def three_threads_def user_thread_def idle_thread_def)
  moreover have "placed ?K t" for t
    using assms by (auto simp: placed_def three_threads_def user_thread_def idle_thread_def boot_thread_def)
  moreover have "thread_ok t (threads ?K t)" for t
    using assms by (auto simp: thread_ok_def three_threads_def user_thread_def idle_thread_def boot_thread_def)
  moreover have "t_state (threads ?K t) = THREAD_RUNNING \<longleftrightarrow> t = current_thread ?K" for t
    using assms by (auto simp: three_threads_def user_thread_def boot_thread_def)
  ultimately show ?thesis by (simp add: kernel_wf_def core_def)
qed

lemma three_threads_sel:
  "current_thread (three_threads c rs bs r) = c" "waiting (three_threads c rs bs r) 7 = bs"
  "wq_magic (wait_queues (three_threads c rs bs r) 7)"
  "wait_queue_block_ret (threads (three_threads 2 rs bs r) 2) = r"
  "c \<noteq> 2 \<Longrightarrow> 2 \<notin> set bs \<Longrightarrow> 2 \<in> set rs \<Longrightarrow> wait_queue_block_ret (threads (three_threads c rs bs r) 2) = r"
  by (simp_all add: three_threads_def user_thread_def)

lemma mutex_reach_elsewhere:
  assumes "mutex_reach b s0 s" "kernel_wf K'" "waiting K' (m_wait (mm s)) = mwaiting s"
    "wq_magic (wait_queues K' (m_wait (mm s)))"
    "\<And>t. t \<in> set (pending s) \<Longrightarrow> wait_queue_block_ret (threads K' t) = wait_queue_block_ret (threads (mk s) t)"
  shows "mutex_reach b s0 (s\<lparr>mk := K'\<rparr>)"
  using mutex_reach.step [OF assms(1) mutex_step.elsewhere [OF assms(2-5)]] .

definition lost_mutex :: "int \<Rightarrow> tid option \<Rightarrow> mutex_t" where
  "lost_mutex n h = \<lparr>m_magic = True, holder = h, m_count = n, m_wait = 7\<rparr>"

lemma mutex_timeout_run:
  defines "s0 \<equiv> \<lparr>mk = three_threads 4 [2, 3] [] NO_ERROR, mm = lost_mutex 0 None, inside = [], pending = []\<rparr>"
  shows "mutex_start s0"
    and "mutex_reach True s0 \<lparr>mk = three_threads 2 [4] [3] ERR_TIMED_OUT, mm = lost_mutex 1 None, inside = [], pending = []\<rparr>"
proof -
  note sel = three_threads_sel and wf = three_threads_wf
  show "mutex_start s0" by (simp add: s0_def mutex_start_def lost_mutex_def sel wf)
  let ?s = "\<lambda>K n h ins pen. \<lparr>mk = K, mm = lost_mutex n h, inside = ins, pending = pen\<rparr>"
  txt \<open>thread 4 acquires\<close>
  have "mutex_acquire_timeout (mk s0) (mm s0) INFINITE_TIME = Some (Returned NO_ERROR (lost_mutex 1 (Some 4)) (mk s0))"
    by (simp add: s0_def mutex_acquire_timeout_def lost_mutex_def sel Let_def)
  from mutex_step.acquire_now [OF _ _ _ _ this, of True]
  have "mutex_step True s0 (?s (mk s0) 1 (Some 4) [4] [])" by (simp add: s0_def sel idle_thread_def)
  from mutex_reach.step [OF mutex_reach.init this]
  have "mutex_reach True s0 (?s (mk s0) 1 (Some 4) [4] [])" .
  from mutex_reach_elsewhere [OF this, of "three_threads 2 [4, 3] [] NO_ERROR"]
  have r1: "mutex_reach True s0 (?s (three_threads 2 [4, 3] [] NO_ERROR) 1 (Some 4) [4] [])"
    by (simp add: s0_def lost_mutex_def sel wf)
  txt \<open>thread 2 waits with a time limit\<close>
  let ?Kb = "three_threads 2 [4, 3] [] NO_ERROR"
  obtain K1 where K1: "wait_queue_block ?Kb 7 (Millis 10) = Some (Inr K1)" "waiting K1 7 = [2]"
    using wait_queue_block_wf [of ?Kb 7 "Millis 10"] by (auto simp: sel wf idle_thread_def)
  have "mutex_acquire_timeout ?Kb (lost_mutex 1 (Some 4)) (Millis 10) = Some (Blocked (lost_mutex 2 (Some 4)) K1)"
    using K1 by (simp add: mutex_acquire_timeout_def lost_mutex_def sel Let_def)
  then have "mutex_step True (?s ?Kb 1 (Some 4) [4] []) (?s K1 2 (Some 4) [4] [])"
    using mutex_step.acquire_wait [of "?s ?Kb 1 (Some 4) [4] []" True "Millis 10" "lost_mutex 2 (Some 4)" K1]
    by (simp add: sel idle_thread_def)
  from mutex_reach_elsewhere [OF mutex_reach.step [OF r1 this], of "three_threads 4 [3] [2] NO_ERROR"]
  have r2: "mutex_reach True s0 (?s (three_threads 4 [3] [2] NO_ERROR) 2 (Some 4) [4] [])"
    using K1(2) by (simp add: lost_mutex_def sel wf)
  txt \<open>the timer of thread 2 fires, thread 4 still runs\<close>
  let ?Kc = "three_threads 4 [3] [2] NO_ERROR"
  have wc: "kernel_wf ?Kc" by (simp add: wf)
  have m2: "t_magic (threads ?Kc 2)" "t_state (threads ?Kc 2) = THREAD_BLOCKED"
    by (simp_all add: three_threads_def user_thread_def)
  obtain K2 w where K2: "thread_unblock_from_wait_queue ?Kc 2 ERR_TIMED_OUT = Some (NO_ERROR, K2)" "kernel_wf K2"
      "2 \<in> set (waiting ?Kc w)" "wakes ?Kc w {2} ERR_TIMED_OUT K2"
    using thread_unblock_from_wait_queue_wf [OF wc m2(1), of ERR_TIMED_OUT] m2(2) by auto
  have w1: "w = 7" using K2(3) by (auto simp: three_threads_def split: if_splits)
  note ws = wakes_sel [OF K2(4) [unfolded w1]]
  have K2': "waiting K2 7 = []" "wq_magic (wait_queues K2 7)" "current_thread K2 = 4"
      "wait_queue_block_ret (threads K2 2) = ERR_TIMED_OUT"
    using ws by (simp_all add: sel)
  have "wait_queue_timeout_handler ?Kc 2 = Some (INT_RESCHEDULE, K2)"
    using K2(1) by (simp add: wait_queue_timeout_handler_def)
  then have "mutex_step True (?s ?Kc 2 (Some 4) [4] []) (?s K2 2 (Some 4) [4] [2])"
    using mutex_step.time_out [of True 2 "?s ?Kc 2 (Some 4) [4] []" INT_RESCHEDULE K2]
    by (simp add: sel lost_mutex_def)
  from mutex_reach.step [OF r2 this] have r3: "mutex_reach True s0 (?s K2 2 (Some 4) [4] [2])" .
  txt \<open>thread 4 releases: the count is not zero but nobody waits\<close>
  have "wait_queue_wake_one K2 7 True NO_ERROR = Some (0, K2)"
    using K2' by (simp add: wait_queue_wake_one_def)
  then have "mutex_release K2 (lost_mutex 2 (Some 4)) = Some (NO_ERROR, lost_mutex 1 None, K2)"
    using K2' by (simp add: mutex_release_def lost_mutex_def Let_def)
  then have "mutex_step True (?s K2 2 (Some 4) [4] [2]) (?s K2 1 None [] [2])"
    using mutex_step.release [of "?s K2 2 (Some 4) [4] [2]" NO_ERROR "lost_mutex 1 None" K2 True] K2'
    by (simp add: lost_mutex_def)
  from mutex_reach_elsewhere [OF mutex_reach.step [OF r3 this], of "three_threads 3 [4, 2] [] ERR_TIMED_OUT"]
  have r4: "mutex_reach True s0 (?s (three_threads 3 [4, 2] [] ERR_TIMED_OUT) 1 None [] [2])"
    using K2' by (simp add: lost_mutex_def sel wf)
  txt \<open>thread 3 waits, without a limit, for a mutex nobody owns\<close>
  let ?Kd = "three_threads 3 [4, 2] [] ERR_TIMED_OUT"
  obtain K3 where K3: "wait_queue_block ?Kd 7 INFINITE_TIME = Some (Inr K3)" "waiting K3 7 = [3]"
      "wait_queue_block_ret (threads K3 2) = ERR_TIMED_OUT"
    using wait_queue_block_wf [of ?Kd 7 INFINITE_TIME] by (auto simp: sel wf idle_thread_def)
  have "mutex_acquire_timeout ?Kd (lost_mutex 1 None) INFINITE_TIME = Some (Blocked (lost_mutex 2 None) K3)"
    using K3 by (simp add: mutex_acquire_timeout_def lost_mutex_def sel Let_def)
  then have "mutex_step True (?s ?Kd 1 None [] [2]) (?s K3 2 None [] [2])"
    using mutex_step.acquire_wait [of "?s ?Kd 1 None [] [2]" True INFINITE_TIME "lost_mutex 2 None" K3]
    by (simp add: sel idle_thread_def)
  from mutex_reach_elsewhere [OF mutex_reach.step [OF r4 this], of "three_threads 2 [4] [3] ERR_TIMED_OUT"]
  have r5: "mutex_reach True s0 (?s (three_threads 2 [4] [3] ERR_TIMED_OUT) 2 None [] [2])"
    using K3(2,3) by (simp add: lost_mutex_def sel wf)
  txt \<open>thread 2 runs at last and gives up\<close>
  have "mutex_acquire_resume (three_threads 2 [4] [3] ERR_TIMED_OUT) (lost_mutex 2 None) = (ERR_TIMED_OUT, lost_mutex 1 None)"
    by (simp add: mutex_acquire_resume_def wait_queue_block_result_def lost_mutex_def sel)
  then have "mutex_step True (?s (three_threads 2 [4] [3] ERR_TIMED_OUT) 2 None [] [2])
      (?s (three_threads 2 [4] [3] ERR_TIMED_OUT) 1 None [] [])"
    using mutex_step.acquire_resume [of "?s (three_threads 2 [4] [3] ERR_TIMED_OUT) 2 None [] [2]" ERR_TIMED_OUT "lost_mutex 1 None" True]
    by (simp add: sel)
  from mutex_reach.step [OF r5 this]
  show "mutex_reach True s0 (?s (three_threads 2 [4] [3] ERR_TIMED_OUT) 1 None [] [])" .
qed

end
