(* ===== verification/State_Runs.thy ===== *)
theory State_Runs
  imports State_Machine Sync_Inv
begin

text \<open>
  Whole runs of the flasher: the chain of states a key press starts, where it ends, that the
  error state is final, what the hash check computes, and what the partition step leaves on
  the flash.
\<close>

section \<open>The chain of states\<close>

text \<open>Entering \<open>s\<close> and every state its handlers ask for, until a handler asks for none.\<close>

function run_states :: "('w, 'fil, 'h) app_env \<Rightarrow> State \<Rightarrow> ('w, 'fil) app \<Rightarrow> (('w, 'fil) app \<times> State) option" where
  "run_states N s a =
     (case on_enter N s a of
        None \<Rightarrow> None
      | Some (a', None) \<Rightarrow> Some (a', s)
      | Some (a', Some t) \<Rightarrow> run_states N t a')"
  by pat_completeness auto
termination
proof (relation "measure (\<lambda>(N, s, a). 11 - stage s)", goal_cases)
  case 1
  then show ?case by simp
next
  case (2 N s a r a' o' t)
  then have "s < t" using on_enter_forward [of N s a a' t] by simp
  then show ?case using stage_le [of t] by (simp add: less_State_def)
qed

declare run_states.simps [simp del]

lemma on_enter_rests:
  assumes "on_enter N s a = Some (a', None)"
  shows "s = g_menu_state \<or> s = g_finish_state \<or> s = g_error_state"
proof -
  have "format_flashes N b fs \<noteq> Some (a', None)" for b fs
    by (induction N b fs rule: format_flashes.induct)
       (auto simp: Let_def split: prod.splits if_splits dest: transition_error_Some)
  then show ?thesis using assms
    by (cases s) (auto simp: handler_defs Let_def bind_eq_Some_conv
      split: prod.splits if_splits dest: transition_error_Some)
qed

lemma run_states_end:
  "run_states N s a = Some (a', t) \<Longrightarrow> g_mount_ms_state \<le> s \<Longrightarrow> t = g_finish_state \<or> t = g_error_state"
proof (induction N s a rule: run_states.induct)
  case (1 N s a)
  obtain b u where e: "on_enter N s a = Some (b, u)"
    using "1.prems"(1) by (subst (asm) run_states.simps) (auto split: option.splits)
  show ?case
  proof (cases u)
    case None
    then have "t = s" using "1.prems"(1) e by (simp add: run_states.simps)
    then show ?thesis using on_enter_rests [OF e [unfolded None]] "1.prems"(2) by (auto simp: less_eq_State_def)
  next
    case (Some v)
    have "g_mount_ms_state \<le> v" using on_enter_forward [OF e [unfolded Some]] "1.prems"(2) by simp
    moreover have "run_states N v b = Some (a', t)"
      using "1.prems"(1) e Some by (subst (asm) run_states.simps) simp
    ultimately show ?thesis using "1.IH" [OF e refl Some] by simp
  qed
qed

section \<open>The machine performs the chain\<close>

lemma main_reach: "sm_reach N m0 m \<Longrightarrow> main_step N m = Some m' \<Longrightarrow> sm_reach N m0 m'"
  by (rule sm_reach.step) (auto intro: sm_step.main)

text \<open>From the end of a handler that asked for \<open>t\<close> to the entry of \<open>t\<close>.\<close>

lemma transition_reach:
  assumes "mpc m = Set_next t True" "next_state m = None" "evbits m = 0"
  shows "sm_reach N m (m\<lparr>state := Some t, mpc := Enter t, on_press_keys := 0\<rparr>)"
proof -
  let ?m1 = "m\<lparr>next_state := Some t, mpc := Raise True\<rparr>"
  let ?m2 = "?m1\<lparr>evbits := 1, mpc := Reset_keys\<rparr>" and ?m3 = "?m1\<lparr>evbits := 1, mpc := Waiting, on_press_keys := 0\<rparr>"
  let ?m4 = "?m3\<lparr>evbits := 0, mpc := Perform\<rparr>" and ?m5 = "?m3\<lparr>evbits := 0, mpc := Swap t\<rparr>"
  have "main_step N m = Some ?m1" using assms by (simp add: main_step_def statemachine_transition_def)
  note r = main_reach [OF sm_reach.start this]
  have "main_step N ?m1 = Some ?m2" using assms by (simp add: main_step_def)
  note r = main_reach [OF r this]
  have "main_step N ?m2 = Some ?m3" by (simp add: main_step_def)
  note r = main_reach [OF r this]
  have "main_step N ?m3 = Some ?m4" by (simp add: main_step_def check_pattern_def clear_pattern_def Let_def)
  note r = main_reach [OF r this]
  have "main_step N ?m4 = Some ?m5" by (simp add: main_step_def perform_state_transition_def)
  note r = main_reach [OF r this]
  have "main_step N ?m5 = Some (?m5\<lparr>state := Some t, next_state := None, mpc := Enter t\<rparr>)" by (simp add: main_step_def)
  note r = main_reach [OF r this]
  have "?m5\<lparr>state := Some t, next_state := None, mpc := Enter t\<rparr> = m\<lparr>state := Some t, mpc := Enter t, on_press_keys := 0\<rparr>"
    using assms by simp
  with r show ?thesis by simp
qed

lemma run_states_reach:
  "run_states N s a = Some (a', t) \<Longrightarrow> app_state m = a \<Longrightarrow> mpc m = Enter s \<Longrightarrow> state m = Some s \<Longrightarrow>
   next_state m = None \<Longrightarrow> evbits m = 0 \<Longrightarrow>
   \<exists>m'. sm_reach N m m' \<and> mpc m' = Waiting \<and> state m' = Some t \<and> app_state m' = a' \<and> next_state m' = None \<and> evbits m' = 0"
proof (induction N s a arbitrary: m rule: run_states.induct)
  case (1 N s a)
  obtain b u where e: "on_enter N s a = Some (b, u)"
    using "1.prems"(1) by (subst (asm) run_states.simps) (auto split: option.splits)
  let ?m1 = "after_handler m (Some (b, u))"
  have "main_step N m = Some ?m1" using "1.prems" e by (simp add: main_step_def)
  note r1 = main_reach [OF sm_reach.start this]
  show ?case
  proof (cases u)
    case None
    have "main_step N ?m1 = Some (?m1\<lparr>on_press_keys := 0, mpc := Waiting\<rparr>)"
      using None by (simp add: main_step_def after_handler_def)
    note r2 = main_reach [OF r1 this]
    have "t = s" "a' = b" using "1.prems"(1) e None by (simp_all add: run_states.simps)
    then show ?thesis using r2 "1.prems"
      by (intro exI [of _ "?m1\<lparr>on_press_keys := 0, mpc := Waiting\<rparr>"]) (simp add: after_handler_def)
  next
    case (Some v)
    let ?m2 = "?m1\<lparr>state := Some v, mpc := Enter v, on_press_keys := 0\<rparr>"
    have "sm_reach N ?m1 ?m2" using Some "1.prems" by (intro transition_reach) (simp_all add: after_handler_def)
    from sm_reach_trans [OF this r1] have r2: "sm_reach N m ?m2" .
    have "run_states N v b = Some (a', t)"
      using "1.prems"(1) e Some by (subst (asm) run_states.simps) simp
    then obtain m' where "sm_reach N ?m2 m'" "mpc m' = Waiting" "state m' = Some t" "app_state m' = a'"
        "next_state m' = None" "evbits m' = 0"
      using "1.IH" [OF e refl Some, of ?m2] "1.prems" by (auto simp: after_handler_def)
    then show ?thesis using sm_reach_trans r2 by blast
  qed
qed

section \<open>The error state is final\<close>

definition failed_at :: "('w, 'fil) app \<Rightarrow> ('w, 'fil) machine \<Rightarrow> bool" where
  "failed_at a m \<longleftrightarrow> state m = Some g_error_state \<and> next_state m = None \<and> app_state m = a \<and> \<not> bit (evbits m) 0 \<and>
     mpc m \<in> {Waiting, Key_press, Reset_keys}"

lemma failed_step: "sm_step N m m' \<Longrightarrow> failed_at a m \<Longrightarrow> failed_at a m'"
  by (erule sm_step.cases)
     (auto simp: failed_at_def main_step_def after_handler_def on_press_def and_one_bit Let_def
       split: press_pc.splits if_splits)

lemma failed_forever: "sm_reach N m0 m \<Longrightarrow> failed_at a m0 \<Longrightarrow> failed_at a m"
  by (induction rule: sm_reach.induct) (auto intro: failed_step)

section \<open>The hash check\<close>

text \<open>
  \<open>reads_as F rest\<close>: the file object delivers the bytes \<open>rest\<close> in order and in full.
  \<open>digest_of H D\<close>: the streaming interface computes the digest \<open>D\<close> of everything fed to it.
\<close>

definition reads_as :: "'fil fat_ops \<Rightarrow> ('fil \<Rightarrow> bytes) \<Rightarrow> bool" where
  "reads_as F rest \<longleftrightarrow> (\<forall>fp n. n \<le> length (rest fp) \<longrightarrow>
     (\<exists>fp'. f_read F fp n = (FR_OK, take n (rest fp), fp') \<and> rest fp' = drop n (rest fp)))"

definition digest_of :: "'h sha1_ops \<Rightarrow> (bytes \<Rightarrow> bytes) \<Rightarrow> bool" where
  "digest_of H D \<longleftrightarrow> (\<forall>bss. sha1_finish H (foldl (sha1_update H) (sha1_starts H) bss) = D (concat bss))"

lemma sha1_loop_whole:
  assumes "reads_as F rest"
  shows "buffer \<noteq> [] \<Longrightarrow> length (rest fp0) = remaining \<Longrightarrow>
    \<exists>fp1 buffer' bss. sha1_loop H F fp0 buffer remaining ctx =
      Some (FILE_SHA_RES_OK, fp1, buffer', foldl (sha1_update H) ctx bss) \<and> concat bss = rest fp0"
proof (induction remaining arbitrary: fp0 buffer ctx rule: less_induct)
  case (less remaining)
  show ?case
  proof (cases "remaining = 0")
    case True
    then show ?thesis using less.prems(2) by (intro exI [of _ fp0] exI [of _ buffer] exI [of _ "[]"]) (simp add: sha1_loop.simps)
  next
    case False
    define copylen where "copylen = min (length buffer) remaining"
    have c: "0 < copylen" "copylen \<le> length (rest fp0)" "copylen \<le> length buffer"
      using less.prems False by (auto simp: copylen_def)
    obtain fp1 where r: "f_read F fp0 copylen = (FR_OK, take copylen (rest fp0), fp1)" "rest fp1 = drop copylen (rest fp0)"
      using assms c(2) unfolding reads_as_def by blast
    let ?b = "read_into buffer (take copylen (rest fp0))"
    have b: "take copylen ?b = take copylen (rest fp0)" "?b \<noteq> []"
      using c less.prems(1) length_read_into [of "take copylen (rest fp0)" buffer] by (auto simp: read_into_def)
    have "remaining - copylen < remaining" "length (rest fp1) = remaining - copylen"
      using c False r(2) less.prems(2) by auto
    from less.IH [OF this(1) b(2) this(2), of "sha1_update H ctx (take copylen ?b)"]
    obtain fp2 buffer' bss where l: "sha1_loop H F fp1 ?b (remaining - copylen) (sha1_update H ctx (take copylen ?b)) =
        Some (FILE_SHA_RES_OK, fp2, buffer', foldl (sha1_update H) (sha1_update H ctx (take copylen ?b)) bss)"
        "concat bss = rest fp1" by blast
    have "sha1_loop H F fp0 buffer remaining ctx =
        Some (FILE_SHA_RES_OK, fp2, buffer', foldl (sha1_update H) ctx (take copylen ?b # bss))"
      using False less.prems(1) r(1) l(1) by (subst sha1_loop.simps) (simp add: copylen_def [symmetric] Let_def)
    moreover have "concat (take copylen ?b # bss) = rest fp0" using b(1) l(2) r(2) by simp
    ultimately show ?thesis by blast
  qed
qed

lemma file_sha1_whole:
  assumes "reads_as F rest" "digest_of H D" "f_open F path = (FR_OK, fp0)" "buffer \<noteq> []"
    and "unat (f_size F fp0) = length (rest fp0)" "\<And>fp. f_close F fp = FR_OK"
  shows "\<exists>buffer'. file_sha1_calc H F path buffer = Some (FILE_SHA_RES_OK, D (rest fp0), buffer')"
proof -
  obtain fp1 buffer' bss where "sha1_loop H F fp0 buffer (length (rest fp0)) (sha1_starts H) =
      Some (FILE_SHA_RES_OK, fp1, buffer', foldl (sha1_update H) (sha1_starts H) bss)" "concat bss = rest fp0"
    using sha1_loop_whole [where ctx = "sha1_starts H", OF assms(1,4) refl] by blast
  then show ?thesis using assms(2,3,5,6) by (auto simp: file_sha1_calc_def digest_of_def)
qed

section \<open>Partitioning and directories\<close>

lemma partition_sizes_fit:
  "fdisk_fits (map unat [0xC000 :: u32, 0x2000, 0x800, 0x780])"
  "fdisk_fits (map unat [0x14800 :: u32, 0x2800, 0x2000, 0x4900])"
  by (simp_all add: fdisk_fits_def)

lemma mkdir_retry_spec:
  "mkdir_retry D p n r w = (r', w') \<Longrightarrow> 0 < n \<Longrightarrow>
   \<exists>k w0. k < n \<and> w0 = ((\<lambda>v. snd (f_mkdir D v p)) ^^ k) w \<and> f_mkdir D w0 p = (r', w') \<and>
     (\<forall>j < k. fst (f_mkdir D (((\<lambda>v. snd (f_mkdir D v p)) ^^ j) w) p) \<noteq> FR_OK) \<and> (r' \<noteq> FR_OK \<longrightarrow> k = n - 1)"
proof (induction n arbitrary: r w)
  case 0
  then show ?case by simp
next
  case (Suc n)
  obtain r1 w1 where m: "f_mkdir D w p = (r1, w1)" by fastforce
  show ?case
  proof (cases "r1 = FR_OK \<or> n = 0")
    case True
    then show ?thesis using Suc.prems m by (intro exI [of _ 0] exI [of _ w]) (auto split: if_splits)
  next
    case False
    then obtain k where k: "k < n" "f_mkdir D (((\<lambda>v. snd (f_mkdir D v p)) ^^ k) w1) p = (r', w')"
        "\<forall>j < k. fst (f_mkdir D (((\<lambda>v. snd (f_mkdir D v p)) ^^ j) w1) p) \<noteq> FR_OK" "r' \<noteq> FR_OK \<longrightarrow> k = n - 1"
      using Suc.IH [of r1 w1] Suc.prems(1) m by auto
    have pw: "((\<lambda>v. snd (f_mkdir D v p)) ^^ Suc j) w = ((\<lambda>v. snd (f_mkdir D v p)) ^^ j) w1" for j
      using m by (simp add: funpow_Suc_right del: funpow.simps)
    have "fst (f_mkdir D (((\<lambda>v. snd (f_mkdir D v p)) ^^ j) w) p) \<noteq> FR_OK" if "j < Suc k" for j
      using that k(3) pw [of "j - 1"] m False by (cases j) auto
    then show ?thesis using k pw [of k] False
      by (intro exI [of _ "Suc k"] exI [of _ "((\<lambda>v. snd (f_mkdir D v p)) ^^ Suc k) w"]) auto
  qed
qed

section \<open>The directory list\<close>

lemma read_directory_Some:
  assumes "read_directory E dirs p = Some (r, dirs')"
  shows "r = 0 \<and> dirs' = dirs @ [take (the (strlen p) + 1) p]"
  using assms by (auto simp: read_directory_def strdup_def mem_read_def bind_eq_Some_conv split: if_splits)

lemma read_directories_list:
  "read_each_directory (read_directory E) st dirs ts = Some (res, dirs') \<Longrightarrow>
   res = PSAR_RESULT_OK \<and> dirs' = dirs @ map (\<lambda>p. take (the (strlen p) + 1) p) (directory_paths st ts)"
proof (induction ts arbitrary: dirs)
  case Nil
  then show ?case by (simp add: directory_paths_def)
next
  case (Cons t ts)
  show ?case
  proof (cases "is_entry_a_file (psar_list st ! te_entry t)")
    case True
    then show ?thesis using Cons by (simp add: directory_paths_def split: if_splits)
  next
    case False
    then obtain r d1 where r: "read_directory E dirs (drop (te_path t) (table_text st)) = Some (r, d1)"
      using Cons.prems by (auto simp: bind_eq_Some_conv split: if_splits)
    note R = read_directory_Some [OF r]
    then have "read_each_directory (read_directory E) st d1 ts = Some (res, dirs')"
      using Cons.prems False r by (simp split: if_splits)
    from Cons.IH [OF this] R False show ?thesis by (simp add: directory_paths_def)
  qed
qed

end
