(* ===== verification/Psar_Example.thy ===== *)
theory Psar_Example
  imports Psar_Open
begin

text \<open>
  A smallest archive that \<^verbatim>\<open>psar_open\<close> accepts, on a first-generation model: the archive
  header, the metadata block naming firmware 6.61, one entry \<^verbatim>\<open>00001\<close> and its data, which is
  the path table with the line \<^verbatim>\<open>00001,flash0:/a\<close>. The KIRK engine of the example passes
  payloads through, the file is a script of reads. It shows that the hypotheses of the
  properties about \<^verbatim>\<open>psar_open\<close> can hold.
\<close>

section \<open>An engine that passes payloads through\<close>

definition plain_kirk :: kirk_engine where
  "plain_kirk = \<lparr>kirk1_op = (\<lambda>b. (0, drop 0x110 b)), kirk5_op = (\<lambda>b. (0, b)), kirk7_op = (\<lambda>b. (0, b)),
     kirk58_hdr = (\<lambda>a b c d e. replicate 0x14 0), kirk47_hdr = (\<lambda>a b c d e. replicate 0x14 0)\<rparr>"

lemma plain_kirk_ok: "kirk_ok plain_kirk"
  by (simp add: kirk_ok_def plain_kirk_def)

lemma plain_kirk7:
  assumes "length k0 = KIRK_WINDOW" "length src \<le> 0x3EC"
  obtains out km where "kirk7_decrypt plain_kirk k0 src kid = Some (0, Some out, km)" "length out = length src"
    "length km = KIRK_WINDOW"
proof -
  have "\<exists>r. kirk7_decrypt plain_kirk k0 src kid = Some r \<and> kirk_outcome (length src) KIRK_WINDOW r"
    by (rule kirk7_decrypt_outcome [OF plain_kirk_ok assms(1)])
  moreover have "fst (the (kirk7_decrypt plain_kirk k0 src kid)) = 0"
    using assms by (simp add: kirk7_decrypt_def plain_kirk_def mem_write_def mem_read_def Let_def)
  ultimately show thesis using that by (auto simp: kirk_outcome_def split: option.splits)
qed

lemma prx8_plain:
  assumes w: "length k0 = KIRK_WINDOW" and i: "0x150 \<le> length img" and s: "0x90 \<le> length (seed mt)"
  obtains img' km where "prx8_decrypt plain_kirk k0 img mt = Some (PRX_DECRYPT_RESULT_OK, img', km)"
    "length img' = length img" "length km = KIRK_WINDOW" "take (length img - 0x150) img' = drop 0x150 img"
proof -
  let ?rh = "take 0x80 (drop 0xD0 img) @ take 0x50 (drop 0x80 img) @ take 0x80 img"
  have rh: "mem_read img 0xD0 0x80 = Some (take 0x80 (drop 0xD0 img))"
    "mem_read img 0x80 0x50 = Some (take 0x50 (drop 0x80 img))"
    "mem_read img 0x00 0x80 = Some (take 0x80 img)" and lrh: "length ?rh = 0x150"
    using i by (simp_all add: mem_read_def)
  obtain sd where sd: "mem_read (seed mt) 0 0x90 = Some sd" "length sd = 0x90"
    using s by (simp add: mem_read_def)
  obtain b0 m1 m2 where b: "mem_read ?rh 0x40 0x70 = Some b0" "mem_read ?rh 0xB0 0x20 = Some m1"
      "mem_read ?rh 0xD0 0x80 = Some m2" "length b0 = 0x70" "length m1 = 0x20" "length m2 = 0x80"
    using lrh by (simp only: mem_read_def) simp
  obtain xb k1 where x: "kirk7_decrypt plain_kirk k0 sd (keyid mt) = Some (0, Some xb, k1)" "length xb = 0x90" "length k1 = KIRK_WINDOW"
    using plain_kirk7 [OF w, of sd "keyid mt"] sd(2) by auto
  obtain b1 where b1: "xor_at b0 xb 0x14 = Some b1" "length b1 = 0x70"
    using xor_at_Some [of "0x14" b0 xb] x b by auto
  obtain b2 k2 where f: "kirk7_decrypt plain_kirk k1 b1 (keyid mt) = Some (0, Some b2, k2)" "length b2 = 0x70" "length k2 = KIRK_WINDOW"
    using plain_kirk7 [OF x(3), of b1 "keyid mt"] b1(2) by auto
  obtain kb where kb: "xor_at b2 xb 0x20 = Some kb" "length kb = 0x70"
    using xor_at_Some [of "0x20" b2 xb] x f by auto
  have eq: "prx8_decrypt plain_kirk k0 img mt = prx8_finish plain_kirk k2 img kb m1 m2"
    using rh sd x b b1 f kb by (simp add: prx8_decrypt_def)
  have "0x40 + length kb \<le> length img" using i kb by simp
  then obtain i1 where i1: "mem_write img 0x40 kb = Some i1" "length i1 = length img" by (rule mem_write_obtain)
  have "0xB0 + length m1 \<le> length i1" using i i1 b by simp
  then obtain i2 where i2: "mem_write i1 0xB0 m1 = Some i2" "length i2 = length i1" by (rule mem_write_obtain)
  have "0xD0 + length m2 \<le> length i2" using i i1 i2 b by simp
  then obtain i3 where i3': "mem_write i2 0xD0 m2 = Some i3" "length i3 = length i2" by (rule mem_write_obtain)
  have i3: "mem_write i2 0xD0 m2 = Some i3" "length i3 = length img" using i1 i2 i3' by simp_all
  let ?n = "length img - 0x150"
  have d: "mem_read i3 0x150 ?n = mem_read img 0x150 ?n"
    using mem_write_read_other [OF i1(1), of "0x150" ?n] mem_write_read_other [OF i2(1), of "0x150" ?n]
      mem_write_read_other [OF i3(1), of "0x150" ?n] kb b by simp
  then have d3: "drop 0x150 i3 = drop 0x150 img" using i i3(2) by (simp add: mem_read_def)
  have "mem_write i3 0 (drop 0x150 i3) = Some (drop 0x150 img @ drop ?n i3)"
    using i i3(2) d3 by (simp add: mem_write_def)
  then have "prx8_finish plain_kirk k2 img kb m1 m2 = Some (PRX_DECRYPT_RESULT_OK, drop 0x150 img @ drop ?n i3, k2)"
    using i1 i2 i3 by (simp add: prx8_finish_def plain_kirk_def)
  then show thesis by (intro that [where img' = "drop 0x150 img @ drop ?n i3" and km = k2]) (use eq f i i3 in simp_all)
qed

section \<open>Blocks\<close>

text \<open>A block in the clear: a header with the size and the tag of type 8, then the payload.\<close>

definition blk :: "u32 \<Rightarrow> bytes \<Rightarrow> bytes" where
  "blk n p = replicate 0xB0 0 @ to_le32 n @ replicate 0x1C 0 @ to_le32 0x0E000000 @ replicate 0x7C 0 @ p"

lemma length_blk [simp]: "length (blk n p) = 0x150 + length p"
  by (simp add: blk_def)

lemma blk_fields: "read_u32 (blk n p) 0xB0 = Some n" "read_u32 (blk n p) 0xD0 = Some 0x0E000000" "drop 0x150 (blk n p) = p"
  by (simp_all add: blk_def read_u32_def mem_read_def le32_to_le32)

lemma read_u32_append: "off + 4 \<le> length a \<Longrightarrow> read_u32 (a @ b) off = read_u32 a off"
  by (simp add: read_u32_def mem_read_def)

lemma prx_decrypt_blk:
  assumes "length k0 = KIRK_WINDOW"
  obtains img' km where "prx_decrypt plain_kirk k0 (blk n p @ r) = Some (PRX_DECRYPT_RESULT_OK, n, img', km)"
    "length img' = length (blk n p @ r)" "length km = KIRK_WINDOW" "take (length p) img' = p"
proof -
  let ?img = "blk n p @ r" and ?mt = "hd g_prx_metatypes"
  have s: "0x90 \<le> length (seed ?mt)" by (simp add: g_prx_metatypes_def g_0x0E000000_seed_def)
  have h: "mem_read ?img 0 0x150 = Some (take 0x150 ?img)" by (simp add: mem_read_def)
  have u: "read_u32 (take 0x150 ?img) 0xB0 = Some n" "read_u32 (take 0x150 ?img) 0xD0 = Some 0x0E000000"
    by (simp_all only: read_u32_take) (simp_all add: read_u32_append blk_fields)
  obtain img' km where d: "prx8_decrypt plain_kirk k0 ?img ?mt = Some (PRX_DECRYPT_RESULT_OK, img', km)"
      "length img' = length ?img" "length km = KIRK_WINDOW" "take (length ?img - 0x150) img' = drop 0x150 ?img"
    by (rule prx8_plain [OF assms _ s, of ?img]) simp_all
  have "prx_dispatch plain_kirk k0 ?img 0x0E000000 g_prx_metatypes = prx8_decrypt plain_kirk k0 ?img ?mt"
    by (simp add: g_prx_metatypes_def)
  then have e: "prx_decrypt plain_kirk k0 ?img = Some (PRX_DECRYPT_RESULT_OK, n, img', km)"
    using h u d(1) by (simp only: prx_decrypt_def bind.bind_lunit) simp
  have "take (length p) img' = take (length p) (take (length ?img - 0x150) img')" by simp
  also have "\<dots> = p" unfolding d(4) by (simp add: blk_fields)
  finally show thesis by (intro that [OF e d(2,3)])
qed

lemma read_block:
  assumes "psar_version st = 1" "f_read F (fp st) (0x150 + length p) = (FR_OK, blk n p, fp1)"
    "0x150 + length p \<le> length (wb1 st)" "length (kmem st) = KIRK_WINDOW"
  obtains b km where "read_next_block_wb1 plain_kirk F st (0x150 + length p) =
      Some (PSAR_RESULT_OK, n, st\<lparr>fp := fp1, wb1 := b, kmem := km\<rparr>)"
    "length b = length (wb1 st)" "length km = KIRK_WINDOW" "take (length p) b = p"
proof -
  have w: "mem_write (wb1 st) 0 (blk n p) = Some (blk n p @ drop (0x150 + length p) (wb1 st))"
    using assms(3) by (simp add: mem_write_def)
  obtain b km where d: "prx_decrypt plain_kirk (kmem st) (blk n p @ drop (0x150 + length p) (wb1 st)) =
      Some (PRX_DECRYPT_RESULT_OK, n, b, km)" "length b = length (blk n p @ drop (0x150 + length p) (wb1 st))"
      "length km = KIRK_WINDOW" "take (length p) b = p"
    using prx_decrypt_blk [OF assms(4)] by metis
  show thesis
    by (rule that [where b = b and km = km])
       (use assms w d in \<open>simp_all add: read_next_block_wb1_def decrypt_block_in_wb1_def Let_def\<close>)
qed

section \<open>The archive\<close>

definition example_lines :: "(bytes \<times> bytes) list" where
  "example_lines = [(lit ''00001'', lit ''flash0:/a'')]"

definition example_md :: bytes where
  "example_md = replicate 8 0 @ to_le32 2 @ to_le32 0 @ 44 # lit ''6.61'' @ replicate 251 0"

definition example_payload :: bytes where
  "example_payload = blk 18 (table_txt example_lines @ [0])"

definition example_fh :: bytes where
  "example_fh = replicate 4 0 @ lit ''00001'' @ replicate 251 0 @ to_le32 690 @ to_le32 354 @ [0, 0, 1, 0]"

definition example_script :: "nat \<Rightarrow> bytes" where
  "example_script k =
     (if k = 0 then to_le32 PSAR_MAGIC @ to_le32 1 @ replicate 8 0
      else if k = 1 then blk 0x110 example_md
      else if k = 2 then blk 0x110 example_fh
      else if k = 3 then blk 354 example_payload else [])"

definition example_card :: "nat fat_ops" where
  "example_card = \<lparr>f_open = (\<lambda>path. (FR_OK, 0)), f_read = (\<lambda>k n. (FR_OK, take n (example_script k), k + 1)),
     f_lseek = (\<lambda>k off. (FR_OK, unat off)), f_tell = (\<lambda>k. of_nat k), f_size = (\<lambda>k. 0), f_close = (\<lambda>k. FR_OK)\<rparr>"

definition example_env :: psar_env where
  "example_env = \<lparr>kirk = plain_kirk, malloc_ok = (\<lambda>n. True), tinfl = (\<lambda>cap b. (True, take cap b)),
     des_cbc_dec = (\<lambda>k iv b. b), psp_model = PSP_MODEL_01G\<rparr>"

definition example_entry :: PsarEntry where
  "example_entry = \<lparr>ent_filename = drop 4 example_fh, ent_size = 690, ent_expanded_size = 354, ent_is_file = 1,
     ent_signcheck = 0, ent_file_offset = 3\<rparr>"

lemma example_env_ok: "psar_env_ok example_env"
  by (simp add: psar_env_ok_def example_env_def plain_kirk_ok)

lemma example_card_ok: "fat_ok example_card"
  by (simp add: fat_ok_def example_card_def)

lemma lit_simps [simp]: "lit [] = []" "lit (c # cs) = of_char c # lit cs"
  by (simp_all add: lit_def)

lemma example_lengths [simp]: "length example_md = 0x110" "length example_fh = 0x110" "length example_payload = 354"
  by (simp_all add: example_md_def example_fh_def example_payload_def example_lines_def)

lemma example_header:
  "length hdr0 = 16 \<Longrightarrow> get_header example_card 0 hdr0 = Some (PSAR_RESULT_OK, 1, to_le32 PSAR_MAGIC @ to_le32 1 @ replicate 8 0)"
  by (subst get_header_psar [where d = "to_le32 PSAR_MAGIC @ to_le32 1 @ replicate 8 0" and ?fp1.0 = 1])
     (simp_all add: example_card_def example_script_def read_into_def read_u32_def mem_read_def le32_to_le32 Let_def)

lemma example_md_fields: "read_u32 example_md 8 = Some 2" "read_u32 example_md 12 = Some 0"
  by (simp_all add: example_md_def read_u32_def mem_read_def le32_to_le32)

lemma example_parse: "take 0x110 b = example_fh \<Longrightarrow> 0x110 \<le> length b \<Longrightarrow> parse_entry b 3 = Some example_entry"
  by (simp add: parse_entry_def mem_read_def example_entry_def)
     (simp add: example_fh_def read_u32_def mem_read_def le32_to_le32)

lemma example_reads:
  "f_read example_card 1 (0x150 + length example_md) = (FR_OK, blk 0x110 example_md, 2)"
  "f_read example_card 2 (0x150 + length example_fh) = (FR_OK, blk 0x110 example_fh, 3)"
  "f_read example_card 3 (0x150 + length example_payload) = (FR_OK, blk 354 example_payload, 4)"
  by (simp_all add: example_card_def example_script_def)

lemma example_seeks: "f_lseek example_card k off = (FR_OK, unat off)" "f_tell example_card k = of_nat k"
    "f_open example_card path = (FR_OK, 0)" "f_close example_card k = FR_OK"
  by (simp_all add: example_card_def)

text \<open>Work buffers that hold the largest block.\<close>

definition example_buffers :: "nat psar_state \<Rightarrow> bool" where
  "example_buffers st \<longleftrightarrow> 690 \<le> length (wb1 st) \<and> 690 \<le> length (wb2 st) \<and> length (kmem st) = KIRK_WINDOW"

lemma example_populate:
  assumes v: "psar_version st = 1" "fp st = 2" and b: "example_buffers st"
  obtains st' where "populate_list plain_kirk example_card st 1 1 [] = Some (PSAR_RESULT_OK, [example_entry], st')"
    "psar_frame st st'"
proof -
  obtain b1 km where r: "read_next_block_wb1 plain_kirk example_card st (0x150 + 0x110) =
      Some (PSAR_RESULT_OK, 0x110, st\<lparr>fp := 3, wb1 := b1, kmem := km\<rparr>)"
      "length b1 = length (wb1 st)" "length km = KIRK_WINDOW" "take 0x110 b1 = example_fh"
    by (rule read_block [of st example_card example_fh "0x110" 3])
       (use v b example_reads(2) in \<open>simp_all add: example_buffers_def\<close>)
  let ?st1 = "st\<lparr>fp := 3, wb1 := b1, kmem := km\<rparr>"
  let ?st2 = "?st1\<lparr>fp := 693\<rparr>"
  have p: "parse_entry b1 3 = Some example_entry" using example_parse [OF r(4)] r(2) b by (simp add: example_buffers_def)
  have s: "unat (ent_size example_entry) = 690" "unat (ent_expanded_size example_entry) = 354" "ent_size example_entry = 690"
    by (simp_all add: example_entry_def)
  have "populate_list plain_kirk example_card st 1 (Suc 0) [] = Some (PSAR_RESULT_OK, [example_entry], ?st2)"
    using r p s b by (simp add: example_seeks example_buffers_def)
  moreover have "psar_frame st ?st2" using r b by (simp add: psar_frame_def example_buffers_def)
  ultimately show thesis using that by simp
qed

lemma example_entry_list:
  assumes v: "psar_version st = 1" "fp st = 2" and b: "example_buffers st"
  obtains st' where "read_entry_list example_env example_card st example_md 2 0 =
      Some (PSAR_RESULT_OK, st'\<lparr>psar_list := [example_entry], metadata := example_md\<rparr>)" "psar_frame st st'"
proof -
  obtain st' where p: "populate_list plain_kirk example_card st 1 1 [] = Some (PSAR_RESULT_OK, [example_entry], st')"
      "psar_frame st st'"
    by (rule example_populate [OF v b])
  have "st\<lparr>fp := 2\<rparr> = st" using v(2) by (cases st) simp
  then have "populate_list plain_kirk example_card (st\<lparr>fp := 2\<rparr>) 1 1 [] = Some (PSAR_RESULT_OK, [example_entry], st')"
    using p(1) by (simp only:)
  then have "read_entry_list example_env example_card st example_md 2 0 =
      Some (PSAR_RESULT_OK, st'\<lparr>psar_list := [example_entry], metadata := example_md\<rparr>)"
    using v(2) by (simp add: read_entry_list_def example_seeks example_env_def psar_list_bytes_def Let_def
        del: populate_list.simps)
  then show thesis using that p(2) by blast
qed

lemma example_contents:
  assumes h: "length hdr0 = 16" and f: "fp st = 0" and b: "example_buffers st"
  obtains st' where "read_psar_contents_list example_env example_card hdr0 st = Some (PSAR_RESULT_OK, st')"
    "example_buffers st'" "psar_version st' = 1" "psar_list st' = [example_entry]" "metadata st' = example_md"
proof -
  let ?hdr = "to_le32 PSAR_MAGIC @ to_le32 1 @ replicate 8 0 :: bytes" and ?st2 = "st\<lparr>fp := 1, psar_version := 1\<rparr>"
  have ver: "read_u32 ?hdr 4 = Some 1" by (simp add: read_u32_def mem_read_def le32_to_le32)
  obtain b1 km where r: "read_next_block_wb1 plain_kirk example_card ?st2 (0x150 + 0x110) =
      Some (PSAR_RESULT_OK, 0x110, ?st2\<lparr>fp := 2, wb1 := b1, kmem := km\<rparr>)"
      "length b1 = length (wb1 st)" "length km = KIRK_WINDOW" "take 0x110 b1 = example_md"
    by (rule read_block [of ?st2 example_card example_md "0x110" 2])
       (use b example_reads(1) in \<open>simp_all add: example_buffers_def\<close>)
  let ?st3 = "?st2\<lparr>fp := 2, wb1 := b1, kmem := km\<rparr>"
  have md: "mem_read b1 0 0x110 = Some example_md" using r(2,4) b by (simp add: mem_read_def example_buffers_def)
  have v3: "psar_version ?st3 = 1" "fp ?st3 = 2" by simp_all
  have b3: "example_buffers ?st3" using b r by (simp add: example_buffers_def)
  obtain st' where p1: "read_entry_list example_env example_card ?st3 example_md 2 0 =
      Some (PSAR_RESULT_OK, st'\<lparr>psar_list := [example_entry], metadata := example_md\<rparr>)" and p: "psar_frame ?st3 st'"
    by (rule example_entry_list [OF v3 b3])
  have "read_psar_contents_list example_env example_card hdr0 st =
      Some (PSAR_RESULT_OK, st'\<lparr>psar_list := [example_entry], metadata := example_md\<rparr>)"
    using example_header [OF h] f ver r(1) md example_md_fields p1
    by (simp add: read_psar_contents_list_def example_env_def Let_def)
  moreover have "example_buffers st'" using psar_frame_lengths [OF p] b3 by (simp add: example_buffers_def)
  moreover have "psar_version st' = 1" using psar_frame_lengths [OF p] by simp
  ultimately show thesis using that [of "st'\<lparr>psar_list := [example_entry], metadata := example_md\<rparr>"]
    by (simp add: example_buffers_def)
qed

lemma example_entry_name: "ent_filename example_entry = lit ''00001'' @ 0 # replicate 250 0 @ to_le32 690 @ to_le32 354 @ [0, 0, 1, 0]"
  by (simp add: example_entry_def example_fh_def) (simp add: numeral_eq_Suc)

lemma example_name: "ent_name example_entry = lit ''00001''" "terminated example_entry"
  by (simp_all add: ent_name_def terminated_def example_entry_name)

lemma example_read_entry:
  assumes v: "psar_version st = 1" and b: "example_buffers st"
  obtains st' r where "read_file_by_entry example_env example_card st example_entry = Some (PSAR_RESULT_OK, 354, st')"
    "psar_frame st st'" "wb2 st' = example_payload @ r"
proof -
  let ?st1 = "st\<lparr>fp := 3\<rparr>"
  obtain b1 km where r: "read_next_block_wb1 plain_kirk example_card ?st1 (0x150 + 354) =
      Some (PSAR_RESULT_OK, 354, ?st1\<lparr>fp := 4, wb1 := b1, kmem := km\<rparr>)"
      "length b1 = length (wb1 st)" "length km = KIRK_WINDOW" "take 354 b1 = example_payload"
    by (rule read_block [of ?st1 example_card example_payload 354 4])
       (use v b example_reads(3) in \<open>simp_all add: example_buffers_def\<close>)
  let ?st2 = "?st1\<lparr>fp := 4, wb1 := b1, kmem := km\<rparr>" and ?r = "drop 354 (wb2 st)"
  have src: "mem_read b1 0 354 = Some example_payload" using r(2,4) b by (simp add: mem_read_def example_buffers_def)
  have w: "mem_write (wb2 st) 0 example_payload = Some (example_payload @ ?r)" using b by (simp add: mem_write_def example_buffers_def)
  have e: "is_entry_a_file example_entry" "ent_file_offset example_entry = 3" "ent_size example_entry = 690"
      "ent_expanded_size example_entry = 354"
    by (simp_all add: is_entry_a_file_def example_entry_def)
  have "read_file_by_entry example_env example_card st example_entry =
      Some (PSAR_RESULT_OK, 354, ?st2\<lparr>wb2 := example_payload @ ?r\<rparr>)"
    using r(1) src w e by (simp add: read_file_by_entry_def example_seeks example_env_def Let_def)
  moreover have "psar_frame st (?st2\<lparr>wb2 := example_payload @ ?r\<rparr>)"
    using r b by (simp add: psar_frame_def example_buffers_def)
  ultimately show thesis using that by simp
qed

lemma example_read_table:
  assumes v: "psar_version st = 1" and b: "example_buffers st" and l: "psar_list st = [example_entry]"
  obtains st' r where "read_file_by_name example_env example_card st (cstr (lit ''00001'')) = Some (PSAR_RESULT_OK, 354, st')"
    "psar_frame st st'" "wb2 st' = example_payload @ r"
proof -
  have lk: "lookup_entry_by_name [example_entry] (cstr (lit ''00001'')) 0 = Some (Some 0)"
    using strcmp_eq_iff [of "lit ''00001''" "lit ''00001''" "replicate 250 0 @ to_le32 690 @ to_le32 354 @ [0, 0, 1, 0]" "[]"]
    by (simp add: example_entry_name)
  obtain st' r where r: "read_file_by_entry example_env example_card st example_entry = Some (PSAR_RESULT_OK, 354, st')"
      "psar_frame st st'" "wb2 st' = example_payload @ r"
    by (rule example_read_entry [OF v b])
  then have "read_file_by_name example_env example_card st (cstr (lit ''00001'')) = Some (PSAR_RESULT_OK, 354, st')"
    using lk l by (simp only: read_file_by_name_def) simp
  then show thesis using r(2,3) by (rule that)
qed

lemma example_is_661: "strrchr (drop 16 example_md) 44 = Some (Some 0)"
    "memcmp (drop 1 (drop 16 example_md)) (cstr firmware_661) 4 = Some 0"
proof -
  let ?s = "44 # lit ''6.61''"
  have d: "drop 16 example_md = ?s @ 0 # replicate 250 0"
    by (simp add: example_md_def) (simp add: numeral_eq_Suc)
  show "strrchr (drop 16 example_md) 44 = Some (Some 0)"
    unfolding d by (subst strrchr_cstr) simp_all
  show "memcmp (drop 1 (drop 16 example_md)) (cstr firmware_661) 4 = Some 0"
    unfolding d by (subst memcmp_eq_iff) (simp_all add: firmware_661_def)
qed

lemma example_build:
  assumes "psar_list st = [example_entry]" "take 18 b = table_txt example_lines @ [0]" "18 \<le> length b"
  shows "build_table_entry_list example_env st b = Some (PSAR_RESULT_OK,
    st\<lparr>table_text := parsed_txt example_lines @ [0], table_list := entries_at [example_entry] 0 example_lines\<rparr>)"
proof -
  have "b = table_txt example_lines @ 0 # drop 18 b" using assms(2) append_take_drop_id [of 18 b] by simp
  then show ?thesis
    using build_table_entry_list_txt [of st example_lines example_env "drop 18 b"] assms(1)
    by (simp add: example_lines_def example_name example_env_def)
qed

lemma example_opens:
  assumes h: "length hdr0 = 16" and b: "example_buffers st"
  obtains st' where "psar_open example_env example_card hdr0 st path = Some (PSAR_RESULT_OK, st')"
    "example_buffers st'" "psar_version st' = 1" "psar_list st' = [example_entry]"
    "table_text st' = parsed_txt example_lines @ [0]" "table_list st' = entries_at [example_entry] 0 example_lines"
proof -
  have b0: "example_buffers (st\<lparr>fp := 0\<rparr>)" using b by (simp add: example_buffers_def)
  obtain st1 where c: "read_psar_contents_list example_env example_card hdr0 (st\<lparr>fp := 0\<rparr>) = Some (PSAR_RESULT_OK, st1)"
      "example_buffers st1" "psar_version st1 = 1" "psar_list st1 = [example_entry]" "metadata st1 = example_md"
    by (rule example_contents [OF h _ b0]) simp_all
  let ?st2 = "st1\<lparr>table_version := 4\<rparr>"
  have v2: "psar_version ?st2 = 1" "example_buffers ?st2" "psar_list ?st2 = [example_entry]"
    using c by (simp_all add: example_buffers_def)
  obtain st3 r where f: "read_file_by_name example_env example_card ?st2 (cstr (lit ''00001'')) = Some (PSAR_RESULT_OK, 354, st3)"
      "psar_frame ?st2 st3" "wb2 st3 = example_payload @ r"
    by (rule example_read_table [OF v2])
  note l3 = psar_frame_lengths [OF f(2)]
  have k3: "length (kmem st3) = KIRK_WINDOW" using l3 v2(2) by (simp add: example_buffers_def)
  obtain b4 km where d: "prx_decrypt plain_kirk (kmem st3) (example_payload @ r) = Some (PRX_DECRYPT_RESULT_OK, 18, b4, km)"
      "length b4 = length (example_payload @ r)" "length km = KIRK_WINDOW" "take (length (table_txt example_lines @ [0])) b4 = table_txt example_lines @ [0]"
    unfolding example_payload_def by (rule prx_decrypt_blk [OF k3])
  have t18: "length (table_txt example_lines @ [0]) = 18" by (simp add: example_lines_def)
  have dt: "decrypt_table example_env (kmem st3) (wb2 st3) 354 4 = Some (0, b4, km)"
    using d f(3) by (simp add: decrypt_table_def get_table_keys_def table_keys_def mem_read_def mem_write_def example_env_def)
  let ?st4 = "st3\<lparr>wb2 := b4, kmem := km\<rparr>"
  have bt: "build_table_entry_list example_env ?st4 b4 = Some (PSAR_RESULT_OK,
      ?st4\<lparr>table_text := parsed_txt example_lines @ [0], table_list := entries_at [example_entry] 0 example_lines\<rparr>)"
    by (rule example_build) (use l3 v2 d t18 in simp_all)
  have tv: "table_version st3 = 4" using l3 by simp
  have m: "get_table_name_for_model (psp_model example_env) = Some ''00001''" by (simp add: example_env_def)
  have st: "self_test_ipl_decryption example_env example_card s = Some (PSAR_RESULT_OK, s)" for s :: "nat psar_state"
    by (simp add: self_test_ipl_decryption_def example_env_def)
  let ?st5 = "?st4\<lparr>table_text := parsed_txt example_lines @ [0], table_list := entries_at [example_entry] 0 example_lines\<rparr>"
  have "psar_open example_env example_card hdr0 st path = Some (PSAR_RESULT_OK, ?st5)"
    using c(1,5) example_is_661 m f(1) dt bt tv st
    by (simp add: psar_open_def example_seeks Let_def del: entries_at.simps)
  moreover have "example_buffers ?st5" using l3 v2(2) d(2,3) f(3) by (simp add: example_buffers_def)
  ultimately show thesis using that [of ?st5] l3 v2 by simp
qed

end
