(* ===== verification/Flasher_Example.thy ===== *)
theory Flasher_Example
  imports State_Runs Psar_Example
begin

text \<open>
  A complete environment for the flasher, built on the archive of \<open>Psar_Example\<close>: flash
  sectors, NAND blocks and files are kept in a record, every driver call succeeds, and the
  hash library returns the expected digest. With it the run from the menu ends in the finish
  state; the properties about runs are instantiated here.
\<close>

record flash_dev =
  sectors :: "u32 \<Rightarrow> bytes"
  blocks :: "nat \<Rightarrow> nand_block"
  files :: "(bytes \<times> bytes) list"

definition blank :: flash_dev where
  "blank = \<lparr>sectors = (\<lambda>_. []), blocks = (\<lambda>_. ([], [])), files = []\<rparr>"

definition example_lflash :: "flash_dev lflash_ops" where
  "example_lflash = \<lparr>lflash_get_size = (\<lambda>_. 0xFFE0), lflash_write_sector = (\<lambda>d q b. (0, d\<lparr>sectors := (sectors d)(q := b)\<rparr>)),
     lflash_sync = (\<lambda>d. d), lflash_sector = sectors\<rparr>"

definition example_nand :: "flash_dev nand_ops" where
  "example_nand = \<lparr>emcsm_erase_block = (\<lambda>d p. (0, d)), emcsm_is_bad_block = (\<lambda>d p. 0),
     emcsm_write_block_with_verify = (\<lambda>d p b s. (0, d\<lparr>blocks := (blocks d)(p := (b, s))\<rparr>)), nand_page_data = blocks\<rparr>"

definition example_dev :: "(flash_dev, nat) dev_ops" where
  "example_dev = \<lparr>f_mount = (\<lambda>w p. (FR_OK, w)), f_mkfs = (\<lambda>w p opt b. (FR_OK, b, w)), f_mkdir = (\<lambda>w p. (FR_OK, w)),
     f_create = (\<lambda>w p. (FR_OK, 0, w\<lparr>files := (p, []) # files w\<rparr>)),
     f_write = (\<lambda>w fd b. (FR_OK, length b, fd, w\<lparr>files := (case files w of [] \<Rightarrow> [] | (p, _) # fs \<Rightarrow> (p, b) # fs)\<rparr>)),
     f_close_written = (\<lambda>w fd. (FR_OK, w)), nand = example_nand, lflash = example_lflash,
     emcsm_disable_write_protect = (\<lambda>w. w), emcsm_set_scramble_0 = (\<lambda>w. w), syscon_reset_device = (\<lambda>w. w)\<rparr>"

definition example_sha1 :: "unit sha1_ops" where
  "example_sha1 = \<lparr>sha1_starts = (), sha1_update = (\<lambda>c b. c), sha1_finish = (\<lambda>c. s_psp_661_update)\<rparr>"

definition example_app :: "(flash_dev, nat, unit) app_env" where
  "example_app = \<lparr>penv = example_env, card = example_card, dev = example_dev, hash_lib = example_sha1,
     memalign = (\<lambda>k al len. Some (replicate len 0)), calloc_ok = True, strdup_ok = True, fil0 = 0,
     stack_header = replicate 16 0, SYSCON_CTRL_CROSS = 0x4000, identity_text = ''''\<rparr>"

definition example_start :: "(flash_dev, nat) app" where
  "example_start = \<lparr>identity = None, updater_path = None, directories = [],
     ph = snd (psar_init 0 [] [] (replicate KIRK_WINDOW 0)), world = blank, console = [], g_why = None\<rparr>"

lemma example_app_sel [simp]:
  "penv example_app = example_env" "card example_app = example_card" "dev example_app = example_dev"
  "hash_lib example_app = example_sha1" "calloc_ok example_app" "fil0 example_app = 0"
  "stack_header example_app = replicate 16 0" "psp_model example_env = PSP_MODEL_01G"
  by (simp_all add: example_app_def example_env_def)

section \<open>Each state succeeds\<close>

lemma example_check:
  assumes "identity a = Some PSP_MODEL_01G" "updater_path a = Some p"
  shows "\<exists>a'. check_updater_on_enter example_app a = Some (a', Some g_process_psar_state) \<and> ph a' = ph a \<and>
    world a' = world a \<and> identity a' = identity a \<and> updater_path a' = updater_path a"
proof -
  have "file_sha1_calc example_sha1 example_card p b = Some (FILE_SHA_RES_OK, s_psp_661_update, b)" for b
    by (simp add: file_sha1_calc_def example_card_def sha1_loop.simps example_sha1_def)
  moreover have "memcmp s_psp_661_update s_psp_661_update 20 = Some 0"
    by (subst memcmp_eq_iff) (simp_all add: s_psp_661_update_def)
  ultimately show ?thesis using assms by (simp add: check_updater_on_enter_def get_updater_sha1_def Let_def)
qed

lemma example_table: "entries_at [example_entry] 0 example_lines = [\<lparr>te_name = 0, te_path = 6, te_entry = 0\<rparr>]"
  by (simp add: example_lines_def example_name)

lemma example_process:
  assumes "updater_path a = Some p" "690 \<le> length (wb1 (ph a))" "690 \<le> length (wb2 (ph a))" "length (kmem (ph a)) = KIRK_WINDOW"
  shows "\<exists>a'. process_psar_on_enter example_app a = Some (a', Some g_partition_flash_state) \<and> directories a' = [] \<and>
    example_buffers (ph a') \<and> psar_version (ph a') = 1 \<and> psar_list (ph a') = [example_entry] \<and>
    table_text (ph a') = parsed_txt example_lines @ [0] \<and>
    table_list (ph a') = [\<lparr>te_name = 0, te_path = 6, te_entry = 0\<rparr>] \<and> world a' = world a \<and> identity a' = identity a"
proof -
  obtain st0 where st0: "psar_init (0 :: nat) (wb1 (ph a)) (wb2 (ph a)) (kmem (ph a)) = (PSAR_RESULT_OK, st0)"
    by (simp add: psar_init_def)
  then have b: "example_buffers st0" using assms by (auto simp: psar_init_def example_buffers_def)
  obtain st where st: "psar_open example_env example_card (replicate 16 0) st0 p = Some (PSAR_RESULT_OK, st)"
    "example_buffers st" "psar_version st = 1" "psar_list st = [example_entry]"
    "table_text st = parsed_txt example_lines @ [0]" "table_list st = entries_at [example_entry] 0 example_lines"
    by (rule example_opens [where ?hdr0.0 = "replicate 16 0" and path = p, OF _ b]) simp_all
  have f: "is_entry_a_file example_entry" by (simp add: is_entry_a_file_def example_entry_def)
  have d: "psar_read_each_directory (read_directory example_env) st [] = Some (PSAR_RESULT_OK, [])"
    using st(4,6) f example_table by (simp add: psar_read_each_directory_def)
  have "qsort strcmp_qsort_wrapper [] = []" by (simp add: qsort.simps insertion_sort_def)
  then show ?thesis using assms(1) st0 st d example_table
    by (simp add: process_psar_on_enter_def Let_def)
qed

lemma example_partition:
  assumes "identity a = Some PSP_MODEL_01G"
  shows "\<exists>w. partition_flash_on_enter example_app a = Some (primary_puts FG_COLOUR ''ok\<newline>''
    ((primary_puts FG_COLOUR ''partitioning flash... '' a)\<lparr>world := w\<rparr>), Some g_format_flash_state)"
proof -
  have "\<exists>d'. fdisk example_lflash True (world a) 0xC000 0x2000 0x800 0x780 = Some (FDISK_RESULT_OK, d')"
    by (rule fdisk_succeeds [OF partition_sizes_fit(1)]) (simp add: example_lflash_def)
  then show ?thesis using assms
    by (auto simp: partition_flash_on_enter_def partition_flash_def example_dev_def Let_def)
qed

lemma example_flash:
  assumes b: "example_buffers (ph a)" "psar_version (ph a) = 1" "psar_list (ph a) = [example_entry]"
    "table_text (ph a) = parsed_txt example_lines @ [0]" "table_list (ph a) = [\<lparr>te_name = 0, te_path = 6, te_entry = 0\<rparr>]"
  shows "\<exists>a'. flash_files_on_enter example_app a = Some (a', Some g_finish_state) \<and> files (world a') =
    (drop 6 (parsed_txt example_lines @ [0]), example_payload) # files (world a)"
proof -
  let ?a = "primary_puts FG_COLOUR ''flashing files... '' a"
  have "take 4 (drop 6 (parsed_txt example_lines @ [0])) \<noteq> take 4 (cstr ipl_prefix)"
    by (simp add: example_lines_def ipl_prefix_def)
  then have "memcmp (drop 6 (parsed_txt example_lines @ [0])) (cstr ipl_prefix) 4 \<noteq> Some 0"
    by (subst memcmp_eq_iff) (simp_all add: example_lines_def ipl_prefix_def)
  moreover obtain c where "memcmp (drop 6 (parsed_txt example_lines @ [0])) (cstr ipl_prefix) 4 = Some c"
    using memcmp_returns [of 4 "drop 6 (parsed_txt example_lines @ [0])" "cstr ipl_prefix"]
    by (auto simp: example_lines_def ipl_prefix_def)
  ultimately have ipl: "is_ipl_path (drop 6 (parsed_txt example_lines @ [0])) = Some False" by (simp add: is_ipl_path_def)
  obtain st r where rf: "read_file_by_entry example_env example_card (ph a) example_entry = Some (PSAR_RESULT_OK, 354, st)"
      and f: "psar_frame (ph a) st" "wb2 st = example_payload @ r"
    by (rule example_read_entry [OF b(2,1)])
  have fl: "is_entry_a_file example_entry" "ent_signcheck example_entry = 0"
    by (simp_all add: is_entry_a_file_def example_entry_def)
  let ?w = "(world a)\<lparr>files := (drop 6 (parsed_txt example_lines @ [0]), example_payload) # files (world a)\<rparr>"
  have cb: "on_read_psar_file example_env example_dev (world a) (kmem st) (drop 6 (parsed_txt example_lines @ [0])) (example_payload @ r) 354
      (file_properties False example_entry) = Some (0, ?w, kmem st, example_payload @ r)"
    using fl by (simp add: on_read_psar_file_def flash_file_def file_properties_def example_dev_def mem_read_def Let_def)
  have "st\<lparr>kmem := kmem st, wb2 := wb2 st\<rparr> = st" by simp
  have "psar_read_each_file example_env example_card (on_read_psar_file example_env example_dev) (ph a) (world a) =
      Some (PSAR_RESULT_OK, st\<lparr>kmem := kmem st, wb2 := example_payload @ r\<rparr>, ?w)"
    using b ipl rf fl cb f(2) by (simp add: psar_read_each_file_def Let_def)
  then show ?thesis by (simp add: flash_files_on_enter_def Let_def)
qed

section \<open>The whole run\<close>

lemma example_format:
  "\<exists>a'. format_flashes example_app a fs = Some (a', Some g_mount_flash_state) \<and> ph a' = ph a \<and> world a' = world a \<and>
    directories a' = directories a"
proof (induction fs arbitrary: a)
  case Nil
  then show ?case by simp
next
  case (Cons f fs)
  let ?a = "primary_puts FG_COLOUR ''ok\<newline>'' (primary_puts FG_COLOUR (''formatting '' @ f @ ''... '') a)"
  have "format_flashes example_app a (f # fs) = format_flashes example_app ?a fs"
    by (simp add: format_flash_def example_dev_def Let_def primary_puts_def)
  then show ?case using Cons.IH [of ?a] by simp
qed

lemma example_run:
  assumes "identity a = Some PSP_MODEL_01G" "updater_path a = Some p"
    "690 \<le> length (wb1 (ph a))" "690 \<le> length (wb2 (ph a))" "length (kmem (ph a)) = KIRK_WINDOW"
  shows "\<exists>a'. run_states example_app g_mount_ms_state a = Some (a', g_finish_state) \<and>
    (drop 6 (parsed_txt example_lines @ [0]), example_payload) \<in> set (files (world a'))"
proof -
  let ?a1 = "primary_puts FG_COLOUR ''ok\<newline>'' (primary_puts FG_COLOUR ''mounting memory card... '' a)"
  have 1: "on_enter example_app g_mount_ms_state a = Some (?a1, Some g_check_updater_state)"
    by (simp add: mount_ms_on_enter_def example_dev_def Let_def primary_puts_def)
  obtain a2 where 2: "on_enter example_app g_check_updater_state ?a1 = Some (a2, Some g_process_psar_state)" "ph a2 = ph a"
      "identity a2 = identity a" "updater_path a2 = updater_path a"
    using example_check [of ?a1 p] assms by auto
  obtain a3 where 3: "on_enter example_app g_process_psar_state a2 = Some (a3, Some g_partition_flash_state)" "directories a3 = []"
      "example_buffers (ph a3)" "psar_version (ph a3) = 1" "psar_list (ph a3) = [example_entry]"
      "table_text (ph a3) = parsed_txt example_lines @ [0]"
      "table_list (ph a3) = [\<lparr>te_name = 0, te_path = 6, te_entry = 0\<rparr>]" "identity a3 = identity a"
    using example_process [of a2 p] assms 2 by auto
  obtain w4 where 4: "on_enter example_app g_partition_flash_state a3 = Some (primary_puts FG_COLOUR ''ok\<newline>''
      ((primary_puts FG_COLOUR ''partitioning flash... '' a3)\<lparr>world := w4\<rparr>), Some g_format_flash_state)"
    using example_partition [of a3] 3(8) assms(1) by auto
  let ?a4 = "primary_puts FG_COLOUR ''ok\<newline>'' ((primary_puts FG_COLOUR ''partitioning flash... '' a3)\<lparr>world := w4\<rparr>)"
  obtain a5 where 5: "on_enter example_app g_format_flash_state ?a4 = Some (a5, Some g_mount_flash_state)" "ph a5 = ph a3"
      "directories a5 = []"
    using example_format [of ?a4 flashes] 3(2) by (auto simp: format_flash_on_enter_def)
  obtain a6 where 6: "on_enter example_app g_mount_flash_state a5 = Some (a6, Some g_create_directories_state)" "ph a6 = ph a3"
      "directories a6 = []"
    using 5 by (simp add: mount_flash_on_enter_def example_dev_def Let_def)
  obtain a7 where 7: "on_enter example_app g_create_directories_state a6 = Some (a7, Some g_flash_files_state)" "ph a7 = ph a3"
    using 6 by (simp add: create_directories_on_enter_def Let_def)
  obtain a8 where 8: "on_enter example_app g_flash_files_state a7 = Some (a8, Some g_finish_state)"
      "(drop 6 (parsed_txt example_lines @ [0]), example_payload) \<in> set (files (world a8))"
    using example_flash [of a7] 3 7(2) by auto
  have 9: "on_enter example_app g_finish_state a8 = Some (primary_puts FG_COLOUR_SUCCESS ''\<newline>Done. Press X to reboot.\<newline>'' a8, None)"
    by (simp add: finish_on_enter_def)
  have "run_states example_app g_mount_ms_state a = Some (primary_puts FG_COLOUR_SUCCESS ''\<newline>Done. Press X to reboot.\<newline>'' a8, g_finish_state)"
    by (subst run_states.simps, simp only: 1 option.case prod.case, subst run_states.simps, simp only: 2(1) option.case prod.case,
        subst run_states.simps, simp only: 3(1) option.case prod.case, subst run_states.simps, simp only: 4 option.case prod.case,
        subst run_states.simps, simp only: 5(1) option.case prod.case, subst run_states.simps, simp only: 6(1) option.case prod.case,
        subst run_states.simps, simp only: 7(1) option.case prod.case, subst run_states.simps, simp only: 8(1) option.case prod.case,
        subst run_states.simps, simp only: 9 option.case prod.case)
  then show ?thesis using 8(2) by auto
qed

text \<open>The machine as it enters the first working state after X was pressed in the menu.\<close>

definition example_menu :: "(flash_dev, nat) machine" where
  "example_menu = (statemachine_init (example_start\<lparr>identity := Some PSP_MODEL_01G, updater_path := Some (cstr (lit ''ms:/661.PBP'')),
     ph := snd (psar_init 0 (replicate 690 0) (replicate 690 0) (replicate KIRK_WINDOW 0))\<rparr>) g_init_state)
     \<lparr>mpc := Enter g_mount_ms_state, state := Some g_mount_ms_state\<rparr>"

end
