(* ===== verification/Gamepad.thy ===== *)
theory Gamepad
  imports Sync_Inv
begin

text \<open>
  external/lib/gamepad/gamepad.c and external/lib/vsync/vsync.c: the thread that samples the
  keys once per frame and wakes the readers, and the vertical-sync wait it sleeps on. Key
  samples are active low: a pressed key is a zero bit. The set of keys the program looks at
  (\<^verbatim>\<open>KEY_MASK\<close>) is made of constants of the SDK and is a parameter.
\<close>

datatype GamepadTrigger = GAMEPAD_TRIGGER_ON_PRESS | GAMEPAD_TRIGGER_ON_RELEASE | GAMEPAD_TRIGGER_ON_HOLD

record GamepadContext =
  gp_keys :: u32
  prev_keys :: u32
  gamepad_mutex :: mutex_t
  gp_press_keys :: u32
  gp_release_keys :: u32
  gp_hold_keys :: u32
  wait_on_press :: wqid
  wait_on_release :: wqid
  wait_on_hold :: wqid

definition TO_KEYS :: "u32 \<Rightarrow> u32 \<Rightarrow> u32" where
  "TO_KEYS key_mask x = NOT x AND key_mask"

section \<open>Polling\<close>

text \<open>\<open>w\<close> are the addresses of the four queues, the mutex's first.\<close>

definition gamepad_poll_init :: "kernel \<Rightarrow> GamepadContext \<Rightarrow> GamepadContext \<times> kernel" where
  "gamepad_poll_init K g =
     (let (m, K1) = mutex_init K (m_wait (gamepad_mutex g));
          K2 = wait_queue_init K1 (wait_on_press g);
          K3 = wait_queue_init K2 (wait_on_release g);
          K4 = wait_queue_init K3 (wait_on_hold g)
      in (g\<lparr>gamepad_mutex := m, gp_keys := NOT 0, prev_keys := NOT 0\<rparr>, K4))"

definition gamepad_sample :: "u32 \<Rightarrow> GamepadContext \<Rightarrow> u32 \<Rightarrow> GamepadContext" where
  "gamepad_sample key_mask g keys = g\<lparr>gp_keys := keys,
     gp_press_keys := TO_KEYS key_mask (keys OR NOT (prev_keys g)),
     gp_release_keys := TO_KEYS key_mask (NOT keys OR prev_keys g),
     gp_hold_keys := TO_KEYS key_mask (keys OR prev_keys g),
     prev_keys := keys\<rparr>"

definition wake_readers :: "kernel \<Rightarrow> u32 \<Rightarrow> wqid \<Rightarrow> kernel option" where
  "wake_readers K keys w =
     (if keys \<noteq> 0 then do { (_, K') \<leftarrow> wait_queue_wake_all K w False NO_ERROR; Some K' } else Some K)"

text \<open>The section of \<^verbatim>\<open>gamepad_poll\<close> under the mutex: one sample.\<close>

definition gamepad_publish :: "kernel \<Rightarrow> u32 \<Rightarrow> GamepadContext \<Rightarrow> u32 \<Rightarrow> (GamepadContext \<times> kernel) option" where
  "gamepad_publish K key_mask g keys =
     (let g1 = gamepad_sample key_mask g keys in do {
        K1 \<leftarrow> wake_readers K (gp_press_keys g1) (wait_on_press g1);
        K2 \<leftarrow> wake_readers K1 (gp_release_keys g1) (wait_on_release g1);
        K3 \<leftarrow> wake_readers K2 (gp_hold_keys g1) (wait_on_hold g1);
        Some (g1, K3)
      })"

text \<open>
  One turn of the loop up to \<^verbatim>\<open>vsync_wait\<close>; \<open>sample\<close> is the result of
  \<^verbatim>\<open>syscon_get_digital_key\<close>, \<open>None\<close> when it failed.
\<close>

definition gamepad_poll :: "kernel \<Rightarrow> u32 \<Rightarrow> GamepadContext \<Rightarrow> u32 option \<Rightarrow> GamepadContext waitable option" where
  "gamepad_poll K key_mask g sample =
     (case sample of
        None \<Rightarrow> Some (Returned NO_ERROR g K)
      | Some keys \<Rightarrow> do {
          r \<leftarrow> mutex_acquire_timeout K (gamepad_mutex g) INFINITE_TIME;
          (case r of
             Blocked m K1 \<Rightarrow> Some (Blocked (g\<lparr>gamepad_mutex := m\<rparr>) K1)
           | Returned _ m K1 \<Rightarrow> do {
               (g1, K2) \<leftarrow> gamepad_publish K1 key_mask (g\<lparr>gamepad_mutex := m\<rparr>) keys;
               (_, m', K3) \<leftarrow> mutex_release K2 (gamepad_mutex g1);
               Some (Returned NO_ERROR (g1\<lparr>gamepad_mutex := m'\<rparr>) K3)
             })
        })"

section \<open>Reading\<close>

fun trigger_queue :: "GamepadContext \<Rightarrow> GamepadTrigger \<Rightarrow> wqid" where
  "trigger_queue g GAMEPAD_TRIGGER_ON_PRESS = wait_on_press g"
| "trigger_queue g GAMEPAD_TRIGGER_ON_RELEASE = wait_on_release g"
| "trigger_queue g GAMEPAD_TRIGGER_ON_HOLD = wait_on_hold g"

fun trigger_keys :: "GamepadContext \<Rightarrow> GamepadTrigger \<Rightarrow> u32" where
  "trigger_keys g GAMEPAD_TRIGGER_ON_PRESS = gp_press_keys g"
| "trigger_keys g GAMEPAD_TRIGGER_ON_RELEASE = gp_release_keys g"
| "trigger_keys g GAMEPAD_TRIGGER_ON_HOLD = gp_hold_keys g"

text \<open>
  \<^verbatim>\<open>gamepad_read\<close> up to the wait, and what it does when its thread runs again: an error is
  returned, otherwise the keys are read under the mutex (which may wait as well).
\<close>

definition gamepad_read :: "kernel \<Rightarrow> GamepadContext \<Rightarrow> GamepadTrigger \<Rightarrow> (status_t + kernel) option" where
  "gamepad_read K g trigger = wait_queue_block K (trigger_queue g trigger) INFINITE_TIME"

definition gamepad_read_resume :: "kernel \<Rightarrow> GamepadContext \<Rightarrow> GamepadTrigger \<Rightarrow> (u32 option \<times> GamepadContext waitable) option" where
  "gamepad_read_resume K g trigger =
     (let status = wait_queue_block_result K in
      if status \<noteq> NO_ERROR then Some (None, Returned status g K)
      else do {
        r \<leftarrow> mutex_acquire_timeout K (gamepad_mutex g) INFINITE_TIME;
        (case r of
           Blocked m K1 \<Rightarrow> Some (None, Blocked (g\<lparr>gamepad_mutex := m\<rparr>) K1)
         | Returned _ m K1 \<Rightarrow> do {
             (_, m', K2) \<leftarrow> mutex_release K1 m;
             Some (Some (trigger_keys g trigger), Returned NO_ERROR (g\<lparr>gamepad_mutex := m'\<rparr>) K2)
           })
      })"

section \<open>Vertical sync\<close>

datatype IrqHandleStatus = IRQ_HANDLE_NO_RESCHEDULE | IRQ_HANDLE_RESCHEDULE

definition vsync_wait :: "kernel \<Rightarrow> wqid \<Rightarrow> (status_t + kernel) option" where
  "vsync_wait K g_vsync_queue = wait_queue_block K g_vsync_queue INFINITE_TIME"

definition vsync_interrupt :: "kernel \<Rightarrow> wqid \<Rightarrow> (IrqHandleStatus \<times> kernel) option" where
  "vsync_interrupt K g_vsync_queue = do {
     (num_waiting, K') \<leftarrow> wait_queue_wake_all K g_vsync_queue False NO_ERROR;
     Some (if num_waiting \<noteq> 0 then IRQ_HANDLE_RESCHEDULE else IRQ_HANDLE_NO_RESCHEDULE, K')
   }"

definition vsync_init_hook :: "kernel \<Rightarrow> wqid \<Rightarrow> kernel" where
  "vsync_init_hook K g_vsync_queue = wait_queue_init K g_vsync_queue"

section \<open>What a sample reports\<close>

text \<open>\<open>down keys k\<close>: key \<open>k\<close> is pressed in the sample.\<close>

definition down :: "u32 \<Rightarrow> nat \<Rightarrow> bool" where
  "down keys k \<longleftrightarrow> k < 32 \<and> \<not> bit keys k"

lemma gamepad_sample_bits:
  "bit (gp_press_keys (gamepad_sample M g keys)) k \<longleftrightarrow> bit M k \<and> down keys k \<and> \<not> down (prev_keys g) k"
  "bit (gp_release_keys (gamepad_sample M g keys)) k \<longleftrightarrow> bit M k \<and> \<not> down keys k \<and> down (prev_keys g) k"
  "bit (gp_hold_keys (gamepad_sample M g keys)) k \<longleftrightarrow> bit M k \<and> down keys k \<and> down (prev_keys g) k"
  by (auto simp: gamepad_sample_def TO_KEYS_def down_def bit_simps dest: bit_imp_le_length)

text \<open>Over any run of samples presses and releases of a key alternate.\<close>

fun samples :: "u32 \<Rightarrow> GamepadContext \<Rightarrow> u32 list \<Rightarrow> GamepadContext list" where
  "samples M g [] = []"
| "samples M g (k # ks) = (let g1 = gamepad_sample M g k in g1 # samples M g1 ks)"

lemma samples_balance:
  assumes "bit M k"
  shows "int (length (filter (\<lambda>g. bit (gp_press_keys g) k) (samples M g ks))) -
     int (length (filter (\<lambda>g. bit (gp_release_keys g) k) (samples M g ks))) =
     of_bool (down (last (prev_keys g # ks)) k) - of_bool (down (prev_keys g) k)"
proof (induction ks arbitrary: g)
  case Nil
  then show ?case by simp
next
  case (Cons s ks)
  let ?g = "gamepad_sample M g s"
  have p: "prev_keys ?g = s" by (simp add: gamepad_sample_def)
  have l: "last (prev_keys g # s # ks) = last (prev_keys ?g # ks)" using p by (cases ks) simp_all
  show ?case using Cons.IH [of ?g] assms
    unfolding l by (auto simp: Let_def gamepad_sample_bits p)
qed

section \<open>Waking the readers\<close>

lemma wake_readers_wf:
  assumes "kernel_wf K" "wq_magic (wait_queues K w)"
  shows "\<exists>K'. wake_readers K keys w = Some K' \<and> kernel_wf K' \<and> current_thread K' = current_thread K \<and>
    (\<forall>v. wq_magic (wait_queues K' v) = wq_magic (wait_queues K v)) \<and>
    (\<forall>v. v \<noteq> w \<longrightarrow> waiting K' v = waiting K v) \<and>
    waiting K' w = (if keys \<noteq> 0 then [] else waiting K w) \<and>
    (\<forall>t. t_state (threads K' t) = (if keys \<noteq> 0 \<and> t \<in> set (waiting K w) then THREAD_READY else t_state (threads K t)) \<and>
      wait_queue_block_ret (threads K' t) = (if keys \<noteq> 0 \<and> t \<in> set (waiting K w) then NO_ERROR else wait_queue_block_ret (threads K t)))"
proof (cases "keys = 0")
  case True
  then show ?thesis using assms by (simp add: wake_readers_def)
next
  case False
  obtain K' where K': "wait_queue_wake_all K w False NO_ERROR = Some (int (length (waiting K w)), K')" "kernel_wf K'"
      "wakes K w (set (waiting K w)) NO_ERROR K'"
    using wait_queue_wake_all_wf [OF assms, of NO_ERROR] by blast
  have "waiting K' w = []" using wakes_sel(6) [OF K'(3)] by simp
  then show ?thesis using False K' wakes_sel [OF K'(3)] by (simp add: wake_readers_def)
qed

text \<open>
  Publishing a sample never fails, and afterwards the queue of every trigger that fired is
  empty and all of its threads are ready.
\<close>

lemma gamepad_publish_wakes:
  assumes wf: "kernel_wf K" and q: "\<And>tr. wq_magic (wait_queues K (trigger_queue g tr))"
    and d: "distinct [wait_on_press g, wait_on_release g, wait_on_hold g]"
  shows "\<exists>K'. gamepad_publish K M g keys = Some (gamepad_sample M g keys, K') \<and> kernel_wf K' \<and>
    (\<forall>tr. waiting K' (trigger_queue g tr) =
      (if trigger_keys (gamepad_sample M g keys) tr \<noteq> 0 then [] else waiting K (trigger_queue g tr))) \<and>
    (\<forall>tr. \<forall>t \<in> set (waiting K (trigger_queue g tr)).
      trigger_keys (gamepad_sample M g keys) tr \<noteq> 0 \<longrightarrow> t_state (threads K' t) = THREAD_READY)"
proof -
  let ?g = "gamepad_sample M g keys"
  have s [simp]: "wait_on_press ?g = wait_on_press g" "wait_on_release ?g = wait_on_release g" "wait_on_hold ?g = wait_on_hold g"
    by (simp_all add: gamepad_sample_def)
  note q3 = q [of GAMEPAD_TRIGGER_ON_PRESS] q [of GAMEPAD_TRIGGER_ON_RELEASE] q [of GAMEPAD_TRIGGER_ON_HOLD]
  obtain K1 where k1: "wake_readers K (gp_press_keys ?g) (wait_on_press g) = Some K1" "kernel_wf K1"
      "\<forall>v. wq_magic (wait_queues K1 v) = wq_magic (wait_queues K v)"
      "\<forall>v. v \<noteq> wait_on_press g \<longrightarrow> waiting K1 v = waiting K v"
      "waiting K1 (wait_on_press g) = (if gp_press_keys ?g \<noteq> 0 then [] else waiting K (wait_on_press g))"
      "\<forall>t. t_state (threads K1 t) = (if gp_press_keys ?g \<noteq> 0 \<and> t \<in> set (waiting K (wait_on_press g)) then THREAD_READY else t_state (threads K t))"
    using wake_readers_wf [OF wf, of "wait_on_press g" "gp_press_keys ?g"] q3(1) by auto
  obtain K2 where k2: "wake_readers K1 (gp_release_keys ?g) (wait_on_release g) = Some K2" "kernel_wf K2"
      "\<forall>v. wq_magic (wait_queues K2 v) = wq_magic (wait_queues K1 v)"
      "\<forall>v. v \<noteq> wait_on_release g \<longrightarrow> waiting K2 v = waiting K1 v"
      "waiting K2 (wait_on_release g) = (if gp_release_keys ?g \<noteq> 0 then [] else waiting K1 (wait_on_release g))"
      "\<forall>t. t_state (threads K2 t) = (if gp_release_keys ?g \<noteq> 0 \<and> t \<in> set (waiting K1 (wait_on_release g)) then THREAD_READY else t_state (threads K1 t))"
    using wake_readers_wf [OF k1(2), of "wait_on_release g" "gp_release_keys ?g"] q3(2) k1(3) by auto
  obtain K3 where k3: "wake_readers K2 (gp_hold_keys ?g) (wait_on_hold g) = Some K3" "kernel_wf K3"
      "\<forall>v. v \<noteq> wait_on_hold g \<longrightarrow> waiting K3 v = waiting K2 v"
      "waiting K3 (wait_on_hold g) = (if gp_hold_keys ?g \<noteq> 0 then [] else waiting K2 (wait_on_hold g))"
      "\<forall>t. t_state (threads K3 t) = (if gp_hold_keys ?g \<noteq> 0 \<and> t \<in> set (waiting K2 (wait_on_hold g)) then THREAD_READY else t_state (threads K2 t))"
    using wake_readers_wf [OF k2(2), of "wait_on_hold g" "gp_hold_keys ?g"] q3(3) k1(3) k2(3) by auto
  have p: "gamepad_publish K M g keys = Some (?g, K3)" using k1(1) k2(1) k3(1) by (simp add: gamepad_publish_def Let_def)
  have w: "waiting K3 (trigger_queue g tr) = (if trigger_keys ?g tr \<noteq> 0 then [] else waiting K (trigger_queue g tr))" for tr
    using k1(4,5) k2(4,5) k3(3,4) d by (cases tr) auto
  have r: "t_state (threads K3 t) = THREAD_READY" if "t \<in> set (waiting K (trigger_queue g tr))" "trigger_keys ?g tr \<noteq> 0" for t tr
    using k1(4,6) k2(4,6) k3(5) d that by (cases tr) auto
  show ?thesis using p k3(2) w r by blast
qed

lemma vsync_interrupt_wakes:
  assumes "kernel_wf K" "wq_magic (wait_queues K w)"
  shows "\<exists>K'. vsync_interrupt K w = Some (if waiting K w = [] then IRQ_HANDLE_NO_RESCHEDULE else IRQ_HANDLE_RESCHEDULE, K') \<and>
    kernel_wf K' \<and> waiting K' w = [] \<and> (\<forall>t \<in> set (waiting K w). t_state (threads K' t) = THREAD_READY)"
proof -
  obtain K' where K': "wait_queue_wake_all K w False NO_ERROR = Some (int (length (waiting K w)), K')" "kernel_wf K'"
      "wakes K w (set (waiting K w)) NO_ERROR K'"
    using wait_queue_wake_all_wf [OF assms, of NO_ERROR] by blast
  then show ?thesis using wakes_sel(1,6) [OF K'(3)] by (simp add: vsync_interrupt_def)
qed

text \<open>A pad with no key down whose readers wait on the queues 7, 8 and 9.\<close>

definition example_pad :: GamepadContext where
  "example_pad = \<lparr>gp_keys = NOT 0, prev_keys = NOT 0, gamepad_mutex = lost_mutex 0 None, gp_press_keys = 0,
     gp_release_keys = 0, gp_hold_keys = 0, wait_on_press = 7, wait_on_release = 8, wait_on_hold = 9\<rparr>"

end
