(* ===== verification/Timer.thy ===== *)
theory Timer
  imports Thread_Ops
begin

text \<open>
  kernel/timer.c: software timers, kept in a queue ordered by the time they are due and
  dispatched from the periodic tick (\<^verbatim>\<open>PLATFORM_HAS_DYNAMIC_TIMER\<close> is off for this target).
  Times are 32-bit milliseconds that wrap; they are compared by the sign of their difference.

  A callback and its argument are one value of type \<open>'cb\<close>, \<open>None\<close> being NULL; \<open>client\<close> is the
  state callbacks work on. The function that runs a callback is an argument of the tick, so
  that callbacks may set and cancel timers, as the interface allows. Below it is instantiated
  with the two callbacks of thread.c, which gives sleeping and blocking with their timers.
\<close>

type_synonym tmid = nat

record 'cb timer_t =
  tm_magic :: bool
  tm_in_list :: bool
  scheduled_time :: u32
  periodic_time :: u32
  tm_callback :: "'cb option"

record ('cb, 'k) timers =
  timer_obj :: "tmid \<Rightarrow> 'cb timer_t"
  timer_queue :: "tmid list"
  client :: 'k

abbreviation sched :: "('cb, 'k) timers \<Rightarrow> tmid \<Rightarrow> u32" where
  "sched S t \<equiv> scheduled_time (timer_obj S t)"

definition upd_timer :: "('cb, 'k) timers \<Rightarrow> tmid \<Rightarrow> ('cb timer_t \<Rightarrow> 'cb timer_t) \<Rightarrow> ('cb, 'k) timers" where
  "upd_timer S t f = S\<lparr>timer_obj := (timer_obj S)(t := f (timer_obj S t))\<rparr>"

definition TIME_GT :: "u32 \<Rightarrow> u32 \<Rightarrow> bool" where
  "TIME_GT a b \<longleftrightarrow> sint (a - b) > 0"

definition TIME_LT :: "u32 \<Rightarrow> u32 \<Rightarrow> bool" where
  "TIME_LT a b \<longleftrightarrow> sint (a - b) < 0"

section \<open>Operations\<close>

definition timer_init :: "('cb, 'k) timers \<Rightarrow> ('cb, 'k) timers" where
  "timer_init S = S\<lparr>timer_queue := []\<rparr>"

definition timer_initialize :: "('cb, 'k) timers \<Rightarrow> tmid \<Rightarrow> ('cb, 'k) timers" where
  "timer_initialize S t = upd_timer S t (\<lambda>_. \<lparr>tm_magic = True, tm_in_list = False, scheduled_time = 0,
     periodic_time = 0, tm_callback = None\<rparr>)"

fun queue_before :: "(tmid \<Rightarrow> u32) \<Rightarrow> tmid \<Rightarrow> tmid list \<Rightarrow> tmid list" where
  "queue_before s t [] = [t]"
| "queue_before s t (entry # es) =
     (if TIME_GT (s entry) (s t) then t # entry # es else entry # queue_before s t es)"

definition insert_timer_in_queue :: "('cb, 'k) timers \<Rightarrow> tmid \<Rightarrow> ('cb, 'k) timers" where
  "insert_timer_in_queue S t =
     (upd_timer S t (\<lambda>tm. tm\<lparr>tm_in_list := True\<rparr>))\<lparr>timer_queue := queue_before (sched S) t (timer_queue S)\<rparr>"

text \<open>\<open>now\<close> is what \<^verbatim>\<open>current_time\<close> returns. \<open>None\<close> is the panic for a timer already set.\<close>

definition timer_set :: "('cb, 'k) timers \<Rightarrow> u32 \<Rightarrow> tmid \<Rightarrow> u32 \<Rightarrow> u32 \<Rightarrow> 'cb \<Rightarrow> ('cb, 'k) timers option" where
  "timer_set S now t delay period cb =
     (if \<not> tm_magic (timer_obj S t) then None
      else if tm_in_list (timer_obj S t) then None
      else Some (insert_timer_in_queue (upd_timer S t (\<lambda>tm. tm\<lparr>scheduled_time := now + delay,
             periodic_time := period, tm_callback := Some cb\<rparr>)) t))"

definition timer_set_oneshot :: "('cb, 'k) timers \<Rightarrow> u32 \<Rightarrow> tmid \<Rightarrow> u32 \<Rightarrow> 'cb \<Rightarrow> ('cb, 'k) timers option" where
  "timer_set_oneshot S now t delay cb = timer_set S now t (if delay = 0 then 1 else delay) 0 cb"

definition timer_set_periodic :: "('cb, 'k) timers \<Rightarrow> u32 \<Rightarrow> tmid \<Rightarrow> u32 \<Rightarrow> 'cb \<Rightarrow> ('cb, 'k) timers option" where
  "timer_set_periodic S now t period cb =
     (let p = (if period = 0 then 1 else period) in timer_set S now t p p cb)"

definition timer_cancel :: "('cb, 'k) timers \<Rightarrow> tmid \<Rightarrow> ('cb, 'k) timers option" where
  "timer_cancel S t =
     (if \<not> tm_magic (timer_obj S t) then None
      else
        (let S1 = (if tm_in_list (timer_obj S t) then S\<lparr>timer_queue := remove1 t (timer_queue S)\<rparr> else S)
         in Some (upd_timer S1 t (\<lambda>tm. tm\<lparr>tm_in_list := False, periodic_time := 0, tm_callback := None\<rparr>))))"

definition requeue_periodic :: "('cb, 'k) timers \<Rightarrow> u32 \<Rightarrow> bool \<Rightarrow> tmid \<Rightarrow> ('cb, 'k) timers" where
  "requeue_periodic S now periodic t =
     (let tm = timer_obj S t in
      if periodic \<and> \<not> tm_in_list tm \<and> periodic_time tm > 0 then
        (let s1 = scheduled_time tm + periodic_time tm;
             s2 = (if TIME_LT s1 now then now + periodic_time tm else s1)
         in insert_timer_in_queue (upd_timer S t (\<lambda>tm. tm\<lparr>scheduled_time := s2\<rparr>)) t)
      else S)"

text \<open>
  The loop of \<^verbatim>\<open>timer_tick\<close>. It runs as long as callbacks leave due timers at the head of
  the queue, so it is a partial function; \<open>None\<close> also covers a failed assertion and a call of
  a NULL callback.
\<close>

type_synonym ('cb, 'k) dispatch = "'cb \<Rightarrow> tmid \<Rightarrow> u32 \<Rightarrow> ('cb, 'k) timers \<Rightarrow> (handler_return \<times> ('cb, 'k) timers) option"

partial_function (option) tick_loop :: "('cb, 'k) dispatch \<Rightarrow> u32 \<Rightarrow> handler_return \<Rightarrow> ('cb, 'k) timers \<Rightarrow> (handler_return \<times> ('cb, 'k) timers) option" where
  "tick_loop run now ret S =
     (case timer_queue S of
        [] \<Rightarrow> Some (ret, S)
      | t # ts \<Rightarrow>
          if TIME_LT now (sched S t) then Some (ret, S)
          else if \<not> tm_magic (timer_obj S t) then None
          else
            (let S1 = upd_timer (S\<lparr>timer_queue := ts\<rparr>) t (\<lambda>tm. tm\<lparr>tm_in_list := False\<rparr>);
                 periodic = (periodic_time (timer_obj S1 t) > 0)
             in case tm_callback (timer_obj S1 t) of
                  None \<Rightarrow> None
                | Some cb \<Rightarrow>
                    (case run cb t now S1 of
                       None \<Rightarrow> None
                     | Some (r, S2) \<Rightarrow>
                         tick_loop run now (if r = INT_RESCHEDULE then INT_RESCHEDULE else ret)
                           (requeue_periodic S2 now periodic t))))"

definition timer_tick :: "('cb, 'k) dispatch \<Rightarrow> ('k \<Rightarrow> handler_return \<times> 'k) \<Rightarrow> u32 \<Rightarrow> ('cb, 'k) timers \<Rightarrow>
    (handler_return \<times> ('cb, 'k) timers) option" where
  "timer_tick run thread_tick now S = do {
     (ret, S1) \<leftarrow> tick_loop run now INT_NO_RESCHEDULE S;
     let (r, k) = thread_tick (client S1);
     Some (if r = INT_RESCHEDULE then INT_RESCHEDULE else ret, S1\<lparr>client := k\<rparr>)
   }"

section \<open>Comparing times\<close>

text \<open>
  Comparison by difference is an order only among times less than \<open>2\<^sup>3\<^sup>1\<close> apart. \<open>ahead b x\<close>
  is how far \<open>x\<close> lies ahead of a base \<open>b\<close>; a window holds all times less than \<open>2\<^sup>3\<^sup>1\<close> ahead.
\<close>

definition ahead :: "u32 \<Rightarrow> u32 \<Rightarrow> nat" where
  "ahead b x = unat (x - b)"

definition in_window :: "u32 \<Rightarrow> u32 \<Rightarrow> bool" where
  "in_window b x \<longleftrightarrow> ahead b x < 2 ^ 31"

lemma sint_diff_window:
  fixes p q :: u32
  assumes "unat p < 2 ^ 31" "unat q < 2 ^ 31"
  shows "sint (p - q) = int (unat p) - int (unat q)"
proof -
  have s: "sint x = int (unat x)" if "unat x < 2 ^ 31" for x :: u32
  proof -
    have u: "int (unat x) = uint x" by simp
    have "int (unat x) < int (2 ^ 31)" using that by (simp only: of_nat_less_iff)
    then have "uint x < 2 ^ 31" by simp
    moreover have "- (2 ^ 31) \<le> uint x" by (rule order_trans [OF _ uint_ge_0]) simp
    ultimately have "signed_take_bit 31 (uint x) = uint x" by (intro signed_take_bit_int_eq_self)
    then show ?thesis unfolding u by (simp add: sint_uint)
  qed
  have "int (unat p) < int (2 ^ 31)" "int (unat q) < int (2 ^ 31)" using assms by (simp_all only: of_nat_less_iff)
  then have "int (unat p) < 2147483648" "int (unat q) < 2147483648" by simp_all
  moreover have "0 \<le> int (unat p)" "0 \<le> int (unat q)" by simp_all
  ultimately have "- 2147483648 \<le> sint p - sint q" "sint p - sint q < 2147483648"
    unfolding s [OF assms(1)] s [OF assms(2)] by linarith+
  then have r: "- (2 ^ 31) \<le> sint p - sint q" "sint p - sint q < 2 ^ 31" by simp_all
  have "sint (p - q) = signed_take_bit 31 (sint p - sint q)" by (simp add: sint_word_ariths)
  also have "\<dots> = sint p - sint q" using r by (rule signed_take_bit_int_eq_self)
  finally have "sint (p - q) = sint p - sint q" .
  then show ?thesis using s assms by simp
qed

lemma time_window:
  assumes "in_window b x" "in_window b y"
  shows "TIME_GT x y \<longleftrightarrow> ahead b y < ahead b x" "TIME_LT x y \<longleftrightarrow> ahead b x < ahead b y"
proof -
  have "sint (x - y) = int (ahead b x) - int (ahead b y)"
    using sint_diff_window [of "x - b" "y - b"] assms by (simp add: in_window_def ahead_def)
  then show "TIME_GT x y \<longleftrightarrow> ahead b y < ahead b x" "TIME_LT x y \<longleftrightarrow> ahead b x < ahead b y"
    by (simp_all add: TIME_GT_def TIME_LT_def)
qed

section \<open>The queue\<close>

definition timers_wf :: "('cb, 'k) timers \<Rightarrow> bool" where
  "timers_wf S \<longleftrightarrow> distinct (timer_queue S) \<and> (\<forall>t. tm_in_list (timer_obj S t) \<longleftrightarrow> t \<in> set (timer_queue S)) \<and>
     (\<forall>t \<in> set (timer_queue S). tm_magic (timer_obj S t) \<and> tm_callback (timer_obj S t) \<noteq> None)"

definition timers_sorted :: "u32 \<Rightarrow> ('cb, 'k) timers \<Rightarrow> bool" where
  "timers_sorted b S \<longleftrightarrow> (\<forall>t \<in> set (timer_queue S). in_window b (sched S t)) \<and>
     sorted (map (\<lambda>t. ahead b (sched S t)) (timer_queue S))"

lemma upd_timer_sel [simp]:
  "timer_obj (upd_timer S t f) = (timer_obj S)(t := f (timer_obj S t))"
  "timer_queue (upd_timer S t f) = timer_queue S" "client (upd_timer S t f) = client S"
  by (simp_all add: upd_timer_def)

lemma set_queue_before [simp]: "set (queue_before s t es) = insert t (set es)"
  by (induction es) auto

lemma distinct_queue_before [simp]: "distinct (queue_before s t es) \<longleftrightarrow> t \<notin> set es \<and> distinct es"
  by (induction es) auto

lemma queue_before_split:
  assumes "\<forall>e \<in> set es. in_window b (s e)" "in_window b (s t)"
  shows "queue_before s t es = takeWhile (\<lambda>e. ahead b (s e) \<le> ahead b (s t)) es @
    t # dropWhile (\<lambda>e. ahead b (s e) \<le> ahead b (s t)) es"
  using assms(1) by (induction es) (auto simp: time_window [OF _ assms(2)])

lemma sorted_queue_before:
  assumes "\<forall>e \<in> set es. in_window b (s e)" "in_window b (s t)" "sorted (map (\<lambda>e. ahead b (s e)) es)"
  shows "sorted (map (\<lambda>e. ahead b (s e)) (queue_before s t es))"
  using assms(1,3) by (induction es) (auto simp: time_window [OF _ assms(2)])

lemma timer_set_spec:
  assumes wf: "timers_wf S" and srt: "timers_sorted b S" and t: "tm_magic (timer_obj S t)" "\<not> tm_in_list (timer_obj S t)"
    and w: "in_window b (now + delay)"
  shows "\<exists>S'. timer_set S now t delay period cb = Some S' \<and> timers_wf S' \<and> timers_sorted b S' \<and> sched S' t = now + delay \<and>
    timer_queue S' = takeWhile (\<lambda>e. ahead b (sched S e) \<le> ahead b (now + delay)) (timer_queue S) @
      t # dropWhile (\<lambda>e. ahead b (sched S e) \<le> ahead b (now + delay)) (timer_queue S)"
proof -
  let ?S1 = "upd_timer S t (\<lambda>tm. tm\<lparr>scheduled_time := now + delay, periodic_time := period, tm_callback := Some cb\<rparr>)"
  let ?S' = "insert_timer_in_queue ?S1 t"
  have nq: "t \<notin> set (timer_queue S)" using wf t(2) by (simp add: timers_wf_def)
  then have s: "sched ?S1 e = sched S e" if "e \<in> set (timer_queue S)" for e using that by auto
  have st: "sched ?S1 t = now + delay" by simp
  have win: "\<forall>e \<in> set (timer_queue S). in_window b (sched ?S1 e)" "in_window b (sched ?S1 t)"
    using srt w s by (auto simp: timers_sorted_def)
  have q: "timer_queue ?S' = queue_before (sched ?S1) t (timer_queue S)" by (simp add: insert_timer_in_queue_def)
  have set_q: "set (timer_queue ?S') = insert t (set (timer_queue S))"
    by (simp add: q)
  have d: "distinct (timer_queue ?S')" using nq wf by (simp add: q timers_wf_def)
  have "sorted (map (\<lambda>e. ahead b (sched ?S1 e)) (timer_queue S))"
    using srt s by (simp add: timers_sorted_def cong: map_cong)
  note sq = sorted_queue_before [OF win this]
  have e: "sched ?S' x = sched ?S1 x" for x by (simp add: insert_timer_in_queue_def)
  have "timers_sorted b ?S'" unfolding timers_sorted_def e set_q unfolding q using sq win by blast
  moreover have "timers_wf ?S'"
    using wf t d set_q by (auto simp: timers_wf_def insert_timer_in_queue_def)
  moreover have "timer_queue ?S' = takeWhile (\<lambda>e. ahead b (sched S e) \<le> ahead b (now + delay)) (timer_queue S) @
      t # dropWhile (\<lambda>e. ahead b (sched S e) \<le> ahead b (now + delay)) (timer_queue S)"
    unfolding q queue_before_split [OF win] st using s
    by (simp cong: takeWhile_cong dropWhile_cong)
  ultimately show ?thesis using t by (simp add: timer_set_def insert_timer_in_queue_def)
qed

lemma timer_cancel_spec:
  assumes wf: "timers_wf S" and srt: "timers_sorted b S" and t: "tm_magic (timer_obj S t)"
  shows "\<exists>S'. timer_cancel S t = Some S' \<and> timers_wf S' \<and> timers_sorted b S' \<and> timer_queue S' = remove1 t (timer_queue S)"
proof -
  let ?q = "filter (\<lambda>x. x \<noteq> t) (timer_queue S)"
  let ?S' = "upd_timer (S\<lparr>timer_queue := ?q\<rparr>) t (\<lambda>tm. tm\<lparr>tm_in_list := False, periodic_time := 0, tm_callback := None\<rparr>)"
  have r: "remove1 t (timer_queue S) = ?q"
    using wf by (auto simp: timers_wf_def distinct_remove1_removeAll removeAll_filter_not_eq intro: filter_cong)
  have "t \<notin> set (timer_queue S) \<Longrightarrow> ?q = timer_queue S" by (metis (mono_tags, lifting) filter_True)
  then have c: "timer_cancel S t = Some ?S'"
    using t r wf by (auto simp: timer_cancel_def timers_wf_def upd_timer_def Let_def)
  have e: "sched ?S' x = sched S x" for x by simp
  have "timers_sorted b ?S'"
    unfolding timers_sorted_def e using srt by (auto simp: timers_sorted_def intro!: sorted_filter)
  moreover have "timers_wf ?S'" using wf by (auto simp: timers_wf_def)
  ultimately show ?thesis using c r by simp
qed

section \<open>The tick\<close>

text \<open>
  The timers a tick at \<open>now\<close> dispatches, and the timers afterwards. In a sorted queue they are
  exactly the ones that are due.
\<close>

definition due_timers :: "u32 \<Rightarrow> ('cb, 'k) timers \<Rightarrow> tmid list" where
  "due_timers now S = takeWhile (\<lambda>t. \<not> TIME_LT now (sched S t)) (timer_queue S)"

definition dequeued :: "('cb, 'k) timers \<Rightarrow> tmid list \<Rightarrow> ('cb, 'k) timers" where
  "dequeued S ts = S\<lparr>timer_queue := filter (\<lambda>t. t \<notin> set ts) (timer_queue S),
     timer_obj := (\<lambda>t. if t \<in> set ts then (timer_obj S t)\<lparr>tm_in_list := False\<rparr> else timer_obj S t)\<rparr>"

lemma dequeued_Cons:
  assumes "timer_queue S = t # ts" "t \<notin> set ts" "set D \<subseteq> set ts"
  shows "(dequeued ((upd_timer (S\<lparr>timer_queue := ts\<rparr>) t (\<lambda>tm. tm\<lparr>tm_in_list := False\<rparr>))\<lparr>client := k\<rparr>) D)\<lparr>client := k'\<rparr> =
    (dequeued S (t # D))\<lparr>client := k'\<rparr>"
proof (rule timers.equality)
  show "timer_queue ((dequeued ((upd_timer (S\<lparr>timer_queue := ts\<rparr>) t (\<lambda>tm. tm\<lparr>tm_in_list := False\<rparr>))\<lparr>client := k\<rparr>) D)\<lparr>client := k'\<rparr>) =
      timer_queue ((dequeued S (t # D))\<lparr>client := k'\<rparr>)"
    using assms by (auto simp: dequeued_def intro!: filter_cong)
qed (use assms in \<open>auto simp: dequeued_def fun_eq_iff\<close>)

lemma sorted_takeWhile_filter:
  "sorted (map f xs) \<Longrightarrow> takeWhile (\<lambda>x. f x \<le> (n :: nat)) xs = filter (\<lambda>x. f x \<le> n) xs"
proof (induction xs)
  case Nil
  then show ?case by simp
next
  case (Cons x xs)
  show ?case
  proof (cases "f x \<le> n")
    case True
    then show ?thesis using Cons by simp
  next
    case False
    then have "\<forall>y \<in> set xs. \<not> f y \<le> n" using Cons.prems by fastforce
    then show ?thesis using False by (simp add: filter_empty_conv)
  qed
qed

lemma due_timers_sorted:
  assumes "timers_sorted b S" "in_window b now"
  shows "due_timers now S = filter (\<lambda>t. ahead b (sched S t) \<le> ahead b now) (timer_queue S)"
proof -
  have "due_timers now S = takeWhile (\<lambda>t. ahead b (sched S t) \<le> ahead b now) (timer_queue S)"
    unfolding due_timers_def
    by (rule takeWhile_cong) (use assms in \<open>auto simp: timers_sorted_def time_window [OF assms(2)]\<close>)
  then show ?thesis
    using sorted_takeWhile_filter [of "\<lambda>t. ahead b (sched S t)"] assms(1) by (simp add: timers_sorted_def)
qed

text \<open>Callbacks that leave the timers alone, as those of the kernel do.\<close>

locale quiet_callbacks =
  fixes run :: "('cb, 'k) dispatch" and handler :: "'cb \<Rightarrow> 'k \<Rightarrow> (handler_return \<times> 'k) option"
  assumes run_law: "run cb t now S = map_option (\<lambda>(r, k). (r, S\<lparr>client := k\<rparr>)) (handler cb (client S))"
begin

fun fire :: "'cb list \<Rightarrow> handler_return \<Rightarrow> 'k \<Rightarrow> (handler_return \<times> 'k) option" where
  "fire [] ret k = Some (ret, k)"
| "fire (cb # cbs) ret k =
     do { (r, k1) \<leftarrow> handler cb k; fire cbs (if r = INT_RESCHEDULE then INT_RESCHEDULE else ret) k1 }"

lemma tick_loop_fires:
  assumes "timers_wf S" "\<forall>t \<in> set (timer_queue S). periodic_time (timer_obj S t) = 0"
  shows "tick_loop run now ret S =
    map_option (\<lambda>(r, k). (r, (dequeued S (due_timers now S))\<lparr>client := k\<rparr>))
      (fire (map (\<lambda>t. the (tm_callback (timer_obj S t))) (due_timers now S)) ret (client S))"
  using assms
proof (induction "timer_queue S" arbitrary: S ret)
  case Nil
  then have "timer_queue S = []" by simp
  then show ?case by (subst tick_loop.simps) (simp add: due_timers_def dequeued_def)
next
  case (Cons t ts)
  note q = Cons.hyps(2) [symmetric]
  show ?case
  proof (cases "TIME_LT now (sched S t)")
    case True
    then show ?thesis using q by (subst tick_loop.simps) (simp add: due_timers_def dequeued_def)
  next
    case False
    let ?S1 = "upd_timer (S\<lparr>timer_queue := ts\<rparr>) t (\<lambda>tm. tm\<lparr>tm_in_list := False\<rparr>)"
    obtain cb where cb: "tm_callback (timer_obj S t) = Some cb" and m: "tm_magic (timer_obj S t)"
      using Cons.prems(1) q by (auto simp: timers_wf_def)
    have nt: "t \<notin> set ts" "distinct ts" using Cons.prems(1) q by (auto simp: timers_wf_def)
    have p: "periodic_time (timer_obj S t) = 0" using Cons.prems(2) q by simp
    have due: "due_timers now S = t # due_timers now ?S1" 
      using False q nt by (auto simp: due_timers_def intro: takeWhile_cong)
    have dsub: "set (due_timers now ?S1) \<subseteq> set ts" by (auto simp: due_timers_def dest: set_takeWhileD)
    show ?thesis
    proof (cases "handler cb (client S)")
      case None
      then show ?thesis using q False m cb due by (subst tick_loop.simps) (simp add: run_law)
    next
      case (Some rk)
      obtain r k where rk: "rk = (r, k)" by fastforce
      let ?S2 = "?S1\<lparr>client := k\<rparr>" and ?ret = "if r = INT_RESCHEDULE then INT_RESCHEDULE else ret"
      have step: "tick_loop run now ret S = tick_loop run now ?ret ?S2"
        using q False m cb Some rk p by (subst tick_loop.simps) (simp add: run_law requeue_periodic_def)
      have "timers_wf ?S2" using Cons.prems(1) q nt by (auto simp: timers_wf_def)
      moreover have "\<forall>t \<in> set (timer_queue ?S2). periodic_time (timer_obj ?S2 t) = 0" using Cons.prems(2) q by auto
      ultimately have ih: "tick_loop run now ?ret ?S2 =
          map_option (\<lambda>(r, k). (r, (dequeued ?S2 (due_timers now ?S2))\<lparr>client := k\<rparr>))
            (fire (map (\<lambda>t. the (tm_callback (timer_obj ?S2 t))) (due_timers now ?S2)) ?ret (client ?S2))"
        by (intro Cons.hyps(1)) simp_all
      have d2: "due_timers now ?S2 = due_timers now ?S1" by (simp add: due_timers_def)
      have dq: "(dequeued ?S2 (due_timers now ?S1))\<lparr>client := k'\<rparr> = (dequeued S (due_timers now S))\<lparr>client := k'\<rparr>" for k'
        unfolding due using dequeued_Cons [OF q nt(1) dsub] .
      have cbs: "map (\<lambda>t. the (tm_callback (timer_obj ?S2 t))) (due_timers now ?S1) =
          map (\<lambda>t. the (tm_callback (timer_obj S t))) (due_timers now ?S1)"
        by (rule map_cong) auto
      have c2: "client ?S2 = k" by simp
      show ?thesis
        unfolding step ih d2 dq cbs c2 unfolding due using Some rk cb by simp
    qed
  qed
qed

end

section \<open>The kernel's timers\<close>

text \<open>
  The callbacks thread.c installs, with the thread they are for, and the two calls that
  install them. Each works on a timer \<open>t\<close> on the caller's stack.
\<close>

datatype kernel_callback = Sleep_callback tid | Timeout_callback tid

fun kernel_handler :: "kernel_callback \<Rightarrow> kernel \<Rightarrow> (handler_return \<times> kernel) option" where
  "kernel_handler (Sleep_callback u) K = thread_sleep_handler K u"
| "kernel_handler (Timeout_callback u) K = wait_queue_timeout_handler K u"

definition run_callback :: "(kernel_callback, kernel) dispatch" where
  "run_callback cb t now S = do { (r, K) \<leftarrow> kernel_handler cb (client S); Some (r, S\<lparr>client := K\<rparr>) }"

definition kernel_tick :: "u32 \<Rightarrow> (kernel_callback, kernel) timers \<Rightarrow> (handler_return \<times> (kernel_callback, kernel) timers) option" where
  "kernel_tick now S = timer_tick run_callback thread_timer_tick now S"

definition thread_sleep_timed :: "(kernel_callback, kernel) timers \<Rightarrow> u32 \<Rightarrow> tmid \<Rightarrow> u32 \<Rightarrow> (kernel_callback, kernel) timers option" where
  "thread_sleep_timed S now t delay = do {
     S1 \<leftarrow> timer_set_oneshot (timer_initialize S t) now t delay (Sleep_callback (current_thread (client S)));
     K \<leftarrow> thread_sleep (client S1);
     Some (S1\<lparr>client := K\<rparr>)
   }"

definition wait_queue_block_timed :: "(kernel_callback, kernel) timers \<Rightarrow> u32 \<Rightarrow> tmid \<Rightarrow> wqid \<Rightarrow> lk_time \<Rightarrow>
    (status_t + (kernel_callback, kernel) timers) option" where
  "wait_queue_block_timed S now t w timeout = do {
     r \<leftarrow> wait_queue_block (client S) w timeout;
     (case r of
        Inl st \<Rightarrow> Some (Inl st)
      | Inr K \<Rightarrow> do {
          S1 \<leftarrow> (case timeout of
                 INFINITE_TIME \<Rightarrow> Some S
               | Millis d \<Rightarrow> timer_set_oneshot (timer_initialize S t) now t d (Timeout_callback (current_thread (client S))));
          Some (Inr (S1\<lparr>client := K\<rparr>))
        })
   }"

text \<open>The rest of \<^verbatim>\<open>wait_queue_block\<close>, when the thread runs again.\<close>

definition wait_queue_block_timed_end :: "(kernel_callback, kernel) timers \<Rightarrow> tmid \<Rightarrow> lk_time \<Rightarrow> (status_t \<times> (kernel_callback, kernel) timers) option" where
  "wait_queue_block_timed_end S t timeout = do {
     S1 \<leftarrow> (case timeout of INFINITE_TIME \<Rightarrow> Some S | Millis d \<Rightarrow> timer_cancel S t);
     Some (wait_queue_block_result (client S), S1)
   }"

interpretation kernel_timers: quiet_callbacks run_callback kernel_handler
  by unfold_locales (simp add: run_callback_def map_option_case split: option.split bind_split)

text \<open>
  What links the timers and the kernel: a queued sleep timer belongs to a thread that sleeps,
  and to no other queued timer.
\<close>

definition sleeper :: "(kernel_callback, kernel) timers \<Rightarrow> tmid \<Rightarrow> tid \<Rightarrow> bool" where
  "sleeper S t u \<longleftrightarrow> t \<in> set (timer_queue S) \<and> tm_callback (timer_obj S t) = Some (Sleep_callback u)"

definition timers_linked :: "(kernel_callback, kernel) timers \<Rightarrow> bool" where
  "timers_linked S \<longleftrightarrow> timers_wf S \<and> kernel_wf (client S) \<and>
     (\<forall>t \<in> set (timer_queue S). periodic_time (timer_obj S t) = 0) \<and>
     (\<forall>t u. sleeper S t u \<longrightarrow> t_state (threads (client S) u) = THREAD_SLEEPING) \<and>
     (\<forall>t1 t2 u. sleeper S t1 u \<and> sleeper S t2 u \<longrightarrow> t1 = t2) \<and>
     (\<forall>t \<in> set (timer_queue S). \<forall>u. tm_callback (timer_obj S t) = Some (Timeout_callback u) \<longrightarrow> t_magic (threads (client S) u))"

text \<open>The threads a list of callbacks makes ready.\<close>

definition woken :: "kernel \<Rightarrow> kernel_callback set \<Rightarrow> tid set" where
  "woken K cbs = {u. Sleep_callback u \<in> cbs} \<union> {u. Timeout_callback u \<in> cbs \<and> t_state (threads K u) = THREAD_BLOCKED}"

lemma kernel_handler_step:
  assumes "kernel_wf K" "\<And>u. cb = Sleep_callback u \<Longrightarrow> t_state (threads K u) = THREAD_SLEEPING"
    "\<And>u. cb = Timeout_callback u \<Longrightarrow> t_magic (threads K u)"
  shows "\<exists>r K'. kernel_handler cb K = Some (r, K') \<and> kernel_wf K' \<and> readies K (woken K {cb}) K'"
proof (cases cb)
  case (Sleep_callback u)
  then have s: "t_state (threads K u) = THREAD_SLEEPING" using assms(2) by simp
  then have "t_magic (threads K u)" using kernel_wfD(5) [OF assms(1), of u] by (auto simp: thread_ok_def)
  moreover have "woken K {cb} = {u}" using Sleep_callback by (auto simp: woken_def)
  ultimately show ?thesis using thread_sleep_handler_wf [OF assms(1) _ s] Sleep_callback by auto
next
  case (Timeout_callback u)
  then have "woken K {cb} = (if t_state (threads K u) = THREAD_BLOCKED then {u} else {})" by (auto simp: woken_def)
  then show ?thesis using wait_queue_timeout_handler_wf [OF assms(1), of u] assms(3) Timeout_callback by auto
qed

lemma fire_kernel:
  assumes "kernel_wf K" "\<And>u. Sleep_callback u \<in> set cbs \<Longrightarrow> t_state (threads K u) = THREAD_SLEEPING"
    "\<And>u. Timeout_callback u \<in> set cbs \<Longrightarrow> t_magic (threads K u)"
    "distinct (filter (\<lambda>c. \<exists>u. c = Sleep_callback u) cbs)"
  shows "\<exists>r K'. kernel_timers.fire cbs ret K = Some (r, K') \<and> kernel_wf K' \<and> readies K (woken K (set cbs)) K'"
  using assms
proof (induction cbs arbitrary: K ret)
  case Nil
  then show ?case by (simp add: readies_def woken_def)
next
  case (Cons cb cbs)
  obtain r K1 where K1: "kernel_handler cb K = Some (r, K1)" "kernel_wf K1" "readies K (woken K {cb}) K1"
    using kernel_handler_step [of K cb] Cons.prems(1-3) by auto
  note st = K1(3) [unfolded readies_def woken_def]
  have ns: "cb = Sleep_callback u \<Longrightarrow> Sleep_callback u \<notin> set cbs" for u using Cons.prems(4) by auto
  have s1: "t_state (threads K1 u) = THREAD_SLEEPING" if "Sleep_callback u \<in> set cbs" for u
    using st Cons.prems(2) [of u] ns [of u] that by auto
  have "\<exists>r' K'. kernel_timers.fire cbs (if r = INT_RESCHEDULE then INT_RESCHEDULE else ret) K1 = Some (r', K') \<and>
      kernel_wf K' \<and> readies K1 (woken K1 (set cbs)) K'"
    by (rule Cons.IH [OF K1(2) s1]) (use Cons.prems(3,4) st in \<open>auto split: if_splits\<close>)
  then obtain r' K' where K': "kernel_timers.fire cbs (if r = INT_RESCHEDULE then INT_RESCHEDULE else ret) K1 = Some (r', K')"
      "kernel_wf K'" "readies K1 (woken K1 (set cbs)) K'" by blast
  have "readies K (woken K (set (cb # cbs))) K'"
    using K'(3) st by (auto simp: readies_def woken_def split: if_splits)
  then show ?case using K1(1) K'(1,2) by simp
qed

lemma thread_timer_tick_states:
  "t_state (threads (snd (thread_timer_tick K)) t) = t_state (threads K t)"
  "t_magic (threads (snd (thread_timer_tick K)) t) = t_magic (threads K t)"
  by (simp_all add: thread_timer_tick_def Let_def)

lemma kernel_tick_wakes:
  assumes l: "timers_linked S" and srt: "timers_sorted b S" "in_window b now"
  shows "\<exists>ret S'. kernel_tick now S = Some (ret, S') \<and> timers_linked S' \<and> timers_sorted b S' \<and>
    timer_queue S' = filter (\<lambda>t. ahead b now < ahead b (sched S t)) (timer_queue S) \<and>
    (\<forall>t u. sleeper S t u \<longrightarrow> t_state (threads (client S') u) =
       (if ahead b (sched S t) \<le> ahead b now then THREAD_READY else THREAD_SLEEPING))"
proof -
  define D where "D = due_timers now S"
  define c where "c t = the (tm_callback (timer_obj S t))" for t
  have wf: "timers_wf S" "kernel_wf (client S)" "\<forall>t \<in> set (timer_queue S). periodic_time (timer_obj S t) = 0"
    using l by (simp_all add: timers_linked_def)
  have d: "D = filter (\<lambda>t. ahead b (sched S t) \<le> ahead b now) (timer_queue S)"
    unfolding D_def by (rule due_timers_sorted [OF srt])
  have sub: "t \<in> set (timer_queue S)" if "t \<in> set D" for t using that by (simp add: d)
  have cb: "tm_callback (timer_obj S t) = Some (c t)" if "t \<in> set (timer_queue S)" for t
    using wf(1) that by (auto simp: timers_wf_def c_def)
  have slp: "sleeper S t u \<longleftrightarrow> c t = Sleep_callback u" if "t \<in> set (timer_queue S)" for t u
    using cb [OF that] that by (simp add: sleeper_def)
  have lk: "sleeper S t u \<Longrightarrow> t_state (threads (client S) u) = THREAD_SLEEPING"
      "sleeper S t u \<Longrightarrow> sleeper S t' u \<Longrightarrow> t = t'" for t t' u
    using l unfolding timers_linked_def by blast+
  have lk3: "t_magic (threads (client S) u)" if "t \<in> set (timer_queue S)" "c t = Timeout_callback u" for t u
    using l cb [OF that(1)] that unfolding timers_linked_def by simp
  have dist: "distinct (filter (\<lambda>c. \<exists>u. c = Sleep_callback u) (map c D))"
  proof -
    have "inj_on c {t \<in> set D. \<exists>u. c t = Sleep_callback u}"
      by (rule inj_onI) (use slp lk(2) sub in fastforce)
    then show ?thesis using wf(1) by (simp add: filter_map distinct_map comp_def d timers_wf_def Collect_conj_eq)
  qed
  have "\<exists>r K. kernel_timers.fire (map c D) INT_NO_RESCHEDULE (client S) = Some (r, K) \<and> kernel_wf K \<and>
      readies (client S) (woken (client S) (set (map c D))) K"
  proof (rule fire_kernel [OF wf(2) _ _ dist])
    show "t_state (threads (client S) u) = THREAD_SLEEPING" if m: "Sleep_callback u \<in> set (map c D)" for u
    proof -
      obtain t where "t \<in> set D" "c t = Sleep_callback u" using m by auto
      then show ?thesis using lk(1) slp sub by blast
    qed
    show "t_magic (threads (client S) u)" if m: "Timeout_callback u \<in> set (map c D)" for u
    proof -
      obtain t where "t \<in> set D" "c t = Timeout_callback u" using m by auto
      then show ?thesis using lk3 sub by blast
    qed
  qed
  then obtain r K where f: "kernel_timers.fire (map c D) INT_NO_RESCHEDULE (client S) = Some (r, K)" "kernel_wf K"
      "readies (client S) (woken (client S) (set (map c D))) K" by blast
  obtain r2 K2 where k2: "thread_timer_tick K = (r2, K2)" by fastforce
  have "tick_loop run_callback now INT_NO_RESCHEDULE S = Some (r, (dequeued S D)\<lparr>client := K\<rparr>)"
    using kernel_timers.tick_loop_fires [OF wf(1,3), of now INT_NO_RESCHEDULE] f(1) unfolding D_def c_def by simp
  then have tick: "kernel_tick now S = Some (if r2 = INT_RESCHEDULE then INT_RESCHEDULE else r, (dequeued S D)\<lparr>client := K2\<rparr>)"
    using k2 by (simp add: kernel_tick_def timer_tick_def)
  let ?S' = "(dequeued S D)\<lparr>client := K2\<rparr>"
  have q: "timer_queue ?S' = filter (\<lambda>t. ahead b now < ahead b (sched S t)) (timer_queue S)"
    by (auto simp: dequeued_def d intro!: filter_cong)
  have o: "sched ?S' t = sched S t" "periodic_time (timer_obj ?S' t) = periodic_time (timer_obj S t)"
      "tm_callback (timer_obj ?S' t) = tm_callback (timer_obj S t)" "tm_magic (timer_obj ?S' t) = tm_magic (timer_obj S t)"
      "tm_in_list (timer_obj ?S' t) = (tm_in_list (timer_obj S t) \<and> t \<notin> set D)" for t
    by (auto simp: dequeued_def)
  have q': "t \<in> set (timer_queue ?S') \<longleftrightarrow> t \<in> set (timer_queue S) \<and> t \<notin> set D" for t by (auto simp: dequeued_def)
  have "timers_sorted b ?S'"
    unfolding timers_sorted_def o(1) q using srt(1) by (auto simp: timers_sorted_def intro!: sorted_filter)
  have "timers_wf ?S'"
    unfolding timers_wf_def o q' using wf(1) by (auto simp: q timers_wf_def)
  have K2: "kernel_wf K2" "t_state (threads K2 u) = t_state (threads K u)" "t_magic (threads K2 u) = t_magic (threads K u)" for u
    using thread_timer_tick_wf [OF f(2)] thread_timer_tick_states [of K u] k2 by simp_all
  have due: "t_state (threads K2 u) = (if t \<in> set D then THREAD_READY else THREAD_SLEEPING)" if s: "sleeper S t u" for t u
  proof -
    have ct: "c t = Sleep_callback u" using s slp [of t u] by (simp add: sleeper_def)
    have "t \<in> set D" if w: "u \<in> woken (client S) (set (map c D))"
    proof -
      have "Sleep_callback u \<in> c ` set D" using w lk(1) [OF s] by (simp add: woken_def)
      then obtain t' where t': "t' \<in> set D" "Sleep_callback u = c t'" by (rule imageE) 
      then have "sleeper S t' u" using slp [OF sub [OF t'(1)], of u] by simp
      then show ?thesis using lk(2) [OF s] t'(1) by simp
    qed
    moreover have "u \<in> woken (client S) (set (map c D))" if "t \<in> set D"
      using that ct [symmetric] by (simp add: woken_def)
    ultimately show ?thesis using f(3) lk(1) [OF s] K2(2) [of u] unfolding readies_def by auto
  qed
  have sl': "sleeper ?S' t u \<longleftrightarrow> sleeper S t u \<and> t \<notin> set D" for t u
    unfolding sleeper_def o(3) q' by blast
  have "timers_linked ?S'"
    unfolding timers_linked_def sl'
  proof (intro conjI allI impI ballI)
    show "t_state (threads (client ?S') u) = THREAD_SLEEPING" if "sleeper S t u \<and> t \<notin> set D" for t u
      using due [of t u] that by simp
    show "t1 = t2" if "(sleeper S t1 u \<and> t1 \<notin> set D) \<and> sleeper S t2 u \<and> t2 \<notin> set D" for t1 t2 u
      using lk(2) that by blast
    show "t_magic (threads (client ?S') u)" if "t \<in> set (timer_queue ?S')" "tm_callback (timer_obj ?S' t) = Some (Timeout_callback u)" for t u
      using that cb [of t] lk3 [of t u] f(3) K2(3) [of u] unfolding q' o(3) readies_def by auto
  qed (use \<open>timers_wf ?S'\<close> K2(1) wf(3) o(2) q' in simp_all)
  then show ?thesis using tick q \<open>timers_sorted b ?S'\<close> due d by (auto simp: sleeper_def)
qed

section \<open>Sleeping\<close>

lemma thread_sleep_states:
  assumes wf: "kernel_wf K" and ni: "current_thread K \<noteq> idle_thread"
  obtains K' where "thread_sleep K = Some K'" "kernel_wf K'" "t_state (threads K' (current_thread K)) = THREAD_SLEEPING"
    "\<And>u. t_state (threads K u) = THREAD_SLEEPING \<Longrightarrow> t_state (threads K' u) = THREAD_SLEEPING"
    "\<And>u. t_magic (threads K u) \<Longrightarrow> t_magic (threads K' u)"
proof -
  let ?c = "current_thread K"
  let ?K2 = "upd_thread K ?c (\<lambda>th. th\<lparr>t_state := THREAD_SLEEPING\<rparr>)"
  note e = thread_sleep_switch(1) [OF wf ni] and sw = thread_sleep_switch(2) [OF wf ni]
  obtain K' where K': "thread_resched ?K2 = Some K'" "kernel_wf K'" "is_top ?K2 (current_thread K')"
      "\<And>t. t \<noteq> current_thread K' \<Longrightarrow> threads K' t = (threads ?K2 t)\<lparr>queued := queued (threads K' t)\<rparr>"
    by (rule thread_resched_wf [OF sw]) (rule that; assumption)
  have c: "core {} ?K2" using sw by (simp add: switchable_def)
  have nc: "t_state (threads ?K2 (current_thread K')) \<noteq> THREAD_SLEEPING"
    using is_top_ready [OF c K'(3)] by auto
  have st: "t_state (threads K' u) = THREAD_SLEEPING" if "t_state (threads ?K2 u) = THREAD_SLEEPING" for u
  proof -
    have "u \<noteq> current_thread K'" using nc that by auto
    then obtain q where "threads K' u = (threads ?K2 u)\<lparr>queued := q\<rparr>" using K'(4) by blast
    then show ?thesis using that by simp
  qed
  have mg: "t_magic (threads K' u)" if "t_magic (threads K u)" for u
  proof (cases "u = current_thread K'")
    case True
    then show ?thesis using kernel_wfD(5) [OF K'(2), of u] kernel_wfD(6) [OF K'(2)] by (simp add: thread_ok_def)
  next
    case False
    then obtain q where "threads K' u = (threads ?K2 u)\<lparr>queued := q\<rparr>" using K'(4) by blast
    then show ?thesis using that by auto
  qed
  show thesis by (rule that [of K']) (use e K' st mg in auto)
qed

lemma thread_sleep_timed_spec:
  assumes l: "timers_linked S" and srt: "timers_sorted b S" and ni: "current_thread (client S) \<noteq> idle_thread"
    and t: "t \<notin> set (timer_queue S)" and d: "d = (if delay = 0 then 1 else delay)" "in_window b (now + d)"
  shows "\<exists>S'. thread_sleep_timed S now t delay = Some S' \<and> timers_linked S' \<and> timers_sorted b S' \<and>
    sleeper S' t (current_thread (client S)) \<and> sched S' t = now + d"
proof -
  let ?c = "current_thread (client S)" and ?S0 = "timer_initialize S t"
  note sl = l [unfolded timers_linked_def]
  have S0: "timers_wf ?S0" "timers_sorted b ?S0" "tm_magic (timer_obj ?S0 t)" "\<not> tm_in_list (timer_obj ?S0 t)"
  proof -
    have m: "map (\<lambda>x. ahead b (sched ?S0 x)) (timer_queue S) = map (\<lambda>x. ahead b (sched S x)) (timer_queue S)"
      by (rule map_cong) (use t in \<open>auto simp: timer_initialize_def\<close>)
    have q: "timer_queue ?S0 = timer_queue S" by (simp add: timer_initialize_def)
    have "in_window b (sched ?S0 x)" if "x \<in> set (timer_queue S)" for x
      using srt t that by (auto simp: timers_sorted_def timer_initialize_def)
    then show "timers_sorted b ?S0" using srt unfolding timers_sorted_def q m by blast
    show "timers_wf ?S0" using sl t by (auto simp: timer_initialize_def timers_wf_def)
  qed (simp_all add: timer_initialize_def)
  obtain S1 where S1: "timer_set ?S0 now t d 0 (Sleep_callback ?c) = Some S1" "timers_wf S1" "timers_sorted b S1" "sched S1 t = now + d"
    using timer_set_spec [OF S0 d(2)] by blast
  have o: "set (timer_queue S1) = insert t (set (timer_queue S))" "client S1 = client S"
      "x \<noteq> t \<Longrightarrow> timer_obj S1 x = timer_obj S x" "periodic_time (timer_obj S1 t) = 0"
      "tm_callback (timer_obj S1 t) = Some (Sleep_callback ?c)" for x
    using S1(1) S0(3,4) by (auto simp: timer_set_def insert_timer_in_queue_def timer_initialize_def)
  have s1: "sleeper S1 x u \<longleftrightarrow> (x = t \<and> u = ?c) \<or> sleeper S x u" for x u
    unfolding sleeper_def o(1) using o(3) [of x] o(5) t by (cases "x = t") auto
  obtain K' where K': "thread_sleep (client S) = Some K'" "kernel_wf K'" "t_state (threads K' ?c) = THREAD_SLEEPING"
      "\<And>u. t_state (threads (client S) u) = THREAD_SLEEPING \<Longrightarrow> t_state (threads K' u) = THREAD_SLEEPING"
      "\<And>u. t_magic (threads (client S) u) \<Longrightarrow> t_magic (threads K' u)"
    using thread_sleep_states [of "client S"] sl ni by blast
  let ?S' = "S1\<lparr>client := K'\<rparr>"
  have run: "thread_sleep_timed S now t delay = Some ?S'"
    using S1(1) K'(1) o(2) d(1) by (simp add: thread_sleep_timed_def timer_set_oneshot_def)
  have eq: "sleeper ?S' = sleeper S1" by (simp add: sleeper_def fun_eq_iff)
  have nc: "\<not> sleeper S x ?c" for x using sl kernel_wfD(6) [of "client S"] by auto
  have "timers_linked ?S'"
    unfolding timers_linked_def eq s1
  proof (intro conjI allI impI ballI)
    show "t1 = t2" if "((t1 = t \<and> u = ?c) \<or> sleeper S t1 u) \<and> ((t2 = t \<and> u = ?c) \<or> sleeper S t2 u)" for t1 t2 u
      using that nc sl by blast
    show "t_state (threads (client ?S') u) = THREAD_SLEEPING" if "(x = t \<and> u = ?c) \<or> sleeper S x u" for x u
      using that K'(3,4) sl by auto
    show "t_magic (threads (client ?S') u)" if "x \<in> set (timer_queue ?S')" "tm_callback (timer_obj ?S' x) = Some (Timeout_callback u)" for x u
      using that o(1) o(3) [of x] o(5) sl K'(5) [of u] by (cases "x = t") auto
    show "periodic_time (timer_obj ?S' x) = 0" if "x \<in> set (timer_queue ?S')" for x
      using that o(1) o(3) [of x] o(4) sl by (cases "x = t") auto
  qed (use S1(2) K'(2) in \<open>simp_all add: timers_wf_def\<close>)
  moreover have "timers_sorted b ?S'" using S1(3) by (simp add: timers_sorted_def)
  moreover have "sleeper ?S' t ?c" by (simp add: eq s1)
  ultimately show ?thesis using run S1(4) by simp
qed

text \<open>No timer is set.\<close>

definition example_timers :: "kernel \<Rightarrow> (kernel_callback, kernel) timers" where
  "example_timers K = \<lparr>timer_obj = (\<lambda>_. \<lparr>tm_magic = True, tm_in_list = False, scheduled_time = 0,
     periodic_time = 0, tm_callback = None\<rparr>), timer_queue = [], client = K\<rparr>"

end
