(* ===== verification/Gfx.thy ===== *)
theory Gfx
  imports Prelude
begin

text \<open>
  lib/gfx/gfx.c and lib/gfx.h: drawing on a surface, the memory of a display with a line
  length (\<^verbatim>\<open>stride\<close>) that may exceed the visible width.

  The memory behind \<^verbatim>\<open>ptr\<close> is the list of its pixels, each as wide as the format asks for;
  a pixel pointer is an index into it, an integer because the backward copy can step below
  the start, and an access outside the list is \<open>None\<close>. Coordinates are 32-bit and their
  arithmetic wraps. The three drawing pointers of a surface are always set together to the
  8, 16 or 32-bit routines, so one field names the set. Writing back the cache and the
  display's flush routine have no effect on the pixels: both leave an entry in a trace.
\<close>

section \<open>Colours\<close>

definition ARGB8888_to_Luma :: "u32 \<Rightarrow> u32" where
  "ARGB8888_to_Luma c =
     (let blue = (c AND 0xFF) * 74;
          green = (drop_bit 8 c AND 0xFF) * 732;
          red = (drop_bit 16 c AND 0xFF) * 218;
          intensity = red + blue + green
      in drop_bit 10 intensity AND 0xFF)"

definition ARGB8888_to_RGB565 :: "u32 \<Rightarrow> u32" where
  "ARGB8888_to_RGB565 c =
     (drop_bit 3 c AND 0x1F) OR push_bit 5 (drop_bit 10 c AND 0x3F) OR push_bit 11 (drop_bit 19 c AND 0x1F)"

definition ARGB8888_to_RGB332 :: "u32 \<Rightarrow> u32" where
  "ARGB8888_to_RGB332 c =
     (drop_bit 6 c AND 0x3) OR push_bit 2 (drop_bit 13 c AND 0x7) OR push_bit 5 (drop_bit 21 c AND 0x7)"

definition ARGB8888_to_RGB2220 :: "u32 \<Rightarrow> u32" where
  "ARGB8888_to_RGB2220 c =
     push_bit 2 (drop_bit 6 c AND 0x3) OR push_bit 4 (drop_bit 14 c AND 0x3) OR push_bit 6 (drop_bit 22 c AND 0x3)"

definition ARGB8888_to_ABGR8888 :: "u32 \<Rightarrow> u32" where
  "ARGB8888_to_ABGR8888 c =
     (c AND 0xFF00FF00) OR drop_bit 16 (c AND 0xFF0000) OR push_bit 16 (c AND 0xFF)"

definition alpha32_add_ignore_destalpha :: "u32 \<Rightarrow> u32 \<Rightarrow> u32" where
  "alpha32_add_ignore_destalpha dest src =
     (let srca = drop_bit 24 src AND 0xFF in
      if srca = 0 then dest
      else if srca = 255 then src
      else
        (let a = srca + 1;
             ainv = 255 - a;
             mix = (\<lambda>k. ((drop_bit k src AND 0xFF) * a) div 256 + ((drop_bit k dest AND 0xFF) * ainv) div 256)
         in push_bit 24 a OR push_bit 16 (mix 16) OR push_bit 8 (mix 8) OR mix 0))"

section \<open>Surfaces\<close>

datatype gfx_format = GFX_FORMAT_NONE | GFX_FORMAT_RGB_565 | GFX_FORMAT_RGB_332
  | GFX_FORMAT_RGB_2220 | GFX_FORMAT_ARGB_8888 | GFX_FORMAT_RGB_x888 | GFX_FORMAT_MONO
  | GFX_FORMAT_ABGR_8888 | GFX_FORMAT_MAX

datatype pixel_ops = Pixel8 | Pixel16 | Pixel32

record gfx_surface =
  ptr :: "u32 list"
  free_on_destroy :: bool
  g_format :: gfx_format
  g_width :: u32
  g_height :: u32
  g_stride :: u32
  pixelsize :: u32
  g_len :: u32
  g_alpha :: u32
  translate_color :: "(u32 \<Rightarrow> u32) option"
  g_ops :: pixel_ops
  g_flush :: bool
  cleaned :: "(u32 \<times> u32) list"
  presented :: "(u32 \<times> u32) list"

definition peek :: "u32 list \<Rightarrow> int \<Rightarrow> u32 option" where
  "peek px p = (if 0 \<le> p \<and> p < int (length px) then Some (px ! nat p) else None)"

definition poke :: "u32 list \<Rightarrow> int \<Rightarrow> u32 \<Rightarrow> u32 list option" where
  "poke px p v = (if 0 \<le> p \<and> p < int (length px) then Some (px[nat p := v]) else None)"

text \<open>\<^verbatim>\<open>&ptr[x + y * surface->stride]\<close>, the index computed in unsigned arithmetic.\<close>

definition pixel_at :: "gfx_surface \<Rightarrow> u32 \<Rightarrow> u32 \<Rightarrow> int" where
  "pixel_at s x y = uint (x + y * g_stride s)"

text \<open>
  The value a pixel routine stores: the narrow formats flatten the colour and cut it to the
  pixel's width (calling a null pointer when there is no translation, which is \<open>None\<close>).
\<close>

definition flatten :: "gfx_surface \<Rightarrow> u32 \<Rightarrow> u32 option" where
  "flatten s c =
     (case g_ops s of
        Pixel8 \<Rightarrow> map_option (\<lambda>f. take_bit 8 (f c)) (translate_color s)
      | Pixel16 \<Rightarrow> map_option (\<lambda>f. take_bit 16 (f c)) (translate_color s)
      | Pixel32 \<Rightarrow> Some (case translate_color s of None \<Rightarrow> c | Some f \<Rightarrow> f c))"

definition putpixel :: "gfx_surface \<Rightarrow> u32 \<Rightarrow> u32 \<Rightarrow> u32 \<Rightarrow> gfx_surface option" where
  "putpixel s x y c = do {
     v \<leftarrow> flatten s c;
     px \<leftarrow> poke (ptr s) (pixel_at s x y) v;
     Some (s\<lparr>ptr := px\<rparr>)
   }"

definition gfx_putpixel :: "gfx_surface \<Rightarrow> u32 \<Rightarrow> u32 \<Rightarrow> u32 \<Rightarrow> gfx_surface option" where
  "gfx_putpixel s x y c =
     (if x \<ge> g_width s then Some s
      else if y \<ge> g_height s then Some s
      else putpixel s x y c)"

section \<open>Rectangles\<close>

text \<open>The two nested loops of \<^verbatim>\<open>fillrect8\<close>, \<^verbatim>\<open>fillrect16\<close> and \<^verbatim>\<open>fillrect32\<close>.\<close>

primrec fill_row :: "u32 \<Rightarrow> u32 list \<Rightarrow> int \<Rightarrow> nat \<Rightarrow> (u32 list \<times> int) option" where
  "fill_row v px dest 0 = Some (px, dest)"
| "fill_row v px dest (Suc n) = do { px' \<leftarrow> poke px dest v; fill_row v px' (dest + 1) n }"

primrec fill_rows :: "u32 \<Rightarrow> nat \<Rightarrow> int \<Rightarrow> u32 list \<Rightarrow> int \<Rightarrow> nat \<Rightarrow> u32 list option" where
  "fill_rows v w diff px dest 0 = Some px"
| "fill_rows v w diff px dest (Suc h) =
     do { (px', dest') \<leftarrow> fill_row v px dest w; fill_rows v w diff px' (dest' + diff) h }"

text \<open>The 32-bit fill stores the colour as it comes, without translating it.\<close>

definition fillrect :: "gfx_surface \<Rightarrow> u32 \<Rightarrow> u32 \<Rightarrow> u32 \<Rightarrow> u32 \<Rightarrow> u32 \<Rightarrow> gfx_surface option" where
  "fillrect s x y width height c = do {
     v \<leftarrow> (if g_ops s = Pixel32 then Some c else flatten s c);
     px \<leftarrow> fill_rows v (unat width) (uint (g_stride s - width)) (ptr s) (pixel_at s x y) (unat height);
     Some (s\<lparr>ptr := px\<rparr>)
   }"

definition gfx_fillrect :: "gfx_surface \<Rightarrow> u32 \<Rightarrow> u32 \<Rightarrow> u32 \<Rightarrow> u32 \<Rightarrow> u32 \<Rightarrow> gfx_surface option" where
  "gfx_fillrect s x y width height c =
     (if x \<ge> g_width s then Some s
      else if y \<ge> g_height s then Some s
      else if width = 0 \<or> height = 0 then Some s
      else
        (let w = (if x + width > g_width s then g_width s - x else width);
             h = (if y + height > g_height s then g_height s - y else height)
         in fillrect s x y w h c))"

definition gfx_clear :: "gfx_surface \<Rightarrow> u32 \<Rightarrow> gfx_surface option" where
  "gfx_clear s c = do {
     s' \<leftarrow> fillrect s 0 0 (g_width s) (g_height s) c;
     Some (if g_flush s' then s'\<lparr>presented := presented s' @ [(0, g_height s' - 1)]\<rparr> else s')
   }"

text \<open>
  The loops of the copy routines: \<open>d\<close> is 1 in the forward and -1 in the backward loop.
\<close>

primrec copy_row :: "int \<Rightarrow> u32 list \<Rightarrow> int \<Rightarrow> int \<Rightarrow> nat \<Rightarrow> (u32 list \<times> int \<times> int) option" where
  "copy_row d px src dest 0 = Some (px, src, dest)"
| "copy_row d px src dest (Suc n) =
     do { v \<leftarrow> peek px src; px' \<leftarrow> poke px dest v; copy_row d px' (src + d) (dest + d) n }"

primrec copy_rows :: "int \<Rightarrow> nat \<Rightarrow> int \<Rightarrow> u32 list \<Rightarrow> int \<Rightarrow> int \<Rightarrow> nat \<Rightarrow> u32 list option" where
  "copy_rows d w diff px src dest 0 = Some px"
| "copy_rows d w diff px src dest (Suc h) =
     do { (px', src', dest') \<leftarrow> copy_row d px src dest w;
          copy_rows d w diff px' (src' + d * diff) (dest' + d * diff) h }"

definition copyrect :: "gfx_surface \<Rightarrow> u32 \<Rightarrow> u32 \<Rightarrow> u32 \<Rightarrow> u32 \<Rightarrow> u32 \<Rightarrow> u32 \<Rightarrow> gfx_surface option" where
  "copyrect s x y width height x2 y2 =
     (let src = pixel_at s x y;
          dest = pixel_at s x2 y2;
          diff = uint (g_stride s - width)
      in do {
        px \<leftarrow> (if dest < src then copy_rows 1 (unat width) diff (ptr s) src dest (unat height)
              else
                (let skip = uint (height * g_stride s + width)
                 in copy_rows (- 1) (unat width) diff (ptr s) (src + skip) (dest + skip) (unat height)));
        Some (s\<lparr>ptr := px\<rparr>)
      })"

definition gfx_copyrect :: "gfx_surface \<Rightarrow> u32 \<Rightarrow> u32 \<Rightarrow> u32 \<Rightarrow> u32 \<Rightarrow> u32 \<Rightarrow> u32 \<Rightarrow> gfx_surface option" where
  "gfx_copyrect s x y width height x2 y2 =
     (if x \<ge> g_width s then Some s
      else if x2 \<ge> g_width s then Some s
      else if y \<ge> g_height s then Some s
      else if y2 \<ge> g_height s then Some s
      else if width = 0 \<or> height = 0 then Some s
      else
        (let w1 = (if x + width > g_width s then g_width s - x else width);
             w = (if x2 + w1 > g_width s then g_width s - x2 else w1);
             h1 = (if y + height > g_height s then g_height s - y else height);
             h = (if y2 + h1 > g_height s then g_height s - y2 else h1)
         in copyrect s x y w h x2 y2))"

section \<open>Lines\<close>

text \<open>
  The two loops of \<^verbatim>\<open>gfx_line\<close> differ only in which coordinate always steps: \<open>p\<close> steps by
  \<open>sp\<close> every time and \<open>q\<close> by \<open>sq\<close> when the error term \<open>e\<close> carries. \<open>put\<close> draws at \<open>p\<close> and \<open>q\<close>, after
  the step, so the first point is not drawn.
\<close>

primrec line_loop :: "(u32 \<Rightarrow> u32 \<Rightarrow> gfx_surface \<Rightarrow> gfx_surface option) \<Rightarrow> u32 \<Rightarrow> u32 \<Rightarrow> u32 \<Rightarrow> u32 \<Rightarrow>
    u32 \<Rightarrow> u32 \<Rightarrow> u32 \<Rightarrow> nat \<Rightarrow> gfx_surface \<Rightarrow> gfx_surface option" where
  "line_loop put dp dq sp sq e p q 0 s = Some s"
| "line_loop put dp dq sp sq e p q (Suc n) s =
     (let e1 = e + dq;
          (e2, q') = (if e1 \<ge> dp then (e1 - dp, q + sq) else (e1, q));
          p' = p + sp
      in do { s' \<leftarrow> put p' q' s; line_loop put dp dq sp sq e2 p' q' n s' })"

text \<open>\<^verbatim>\<open>int dx = x2 - x1\<close>: its sign and its absolute value, both back in unsigned words.\<close>

definition step_sign :: "u32 \<Rightarrow> u32" where
  "step_sign d = (if 0 < sint d then 1 else if sint d < 0 then - 1 else 0)"

definition step_abs :: "u32 \<Rightarrow> u32" where
  "step_abs d = (if 0 < sint d then d else - d)"

definition gfx_line :: "gfx_surface \<Rightarrow> u32 \<Rightarrow> u32 \<Rightarrow> u32 \<Rightarrow> u32 \<Rightarrow> u32 \<Rightarrow> gfx_surface option" where
  "gfx_line s x1 y1 x2 y2 c =
     (if x1 \<ge> g_width s then Some s
      else if x2 \<ge> g_width s then Some s
      else if y1 \<ge> g_height s then Some s
      else if y2 \<ge> g_height s then Some s
      else
        (let sdx = step_sign (x2 - x1);
             sdy = step_sign (y2 - y1);
             dxabs = step_abs (x2 - x1);
             dyabs = step_abs (y2 - y1);
             x = drop_bit 1 dyabs;
             y = drop_bit 1 dxabs
         in if dxabs \<ge> dyabs then line_loop (\<lambda>px py s. putpixel s px py c) dxabs dyabs sdx sdy y x1 y1 (unat dxabs) s
            else line_loop (\<lambda>py px s. putpixel s px py c) dyabs dxabs sdy sdx x y1 x1 (unat dyabs) s))"

section \<open>Blending\<close>

text \<open>The loops of \<^verbatim>\<open>gfx_surface_blend\<close>; \<open>f\<close> computes the new pixel from the old one and the source.\<close>

primrec blend_row :: "(u32 \<Rightarrow> u32 \<Rightarrow> u32) \<Rightarrow> u32 list \<Rightarrow> u32 list \<Rightarrow> int \<Rightarrow> int \<Rightarrow> nat \<Rightarrow> (u32 list \<times> int \<times> int) option" where
  "blend_row f spx px src dest 0 = Some (px, src, dest)"
| "blend_row f spx px src dest (Suc n) =
     do { v \<leftarrow> peek spx src; old \<leftarrow> peek px dest; px' \<leftarrow> poke px dest (f old v);
          blend_row f spx px' (src + 1) (dest + 1) n }"

primrec blend_rows :: "(u32 \<Rightarrow> u32 \<Rightarrow> u32) \<Rightarrow> nat \<Rightarrow> int \<Rightarrow> int \<Rightarrow> u32 list \<Rightarrow> u32 list \<Rightarrow> int \<Rightarrow> int \<Rightarrow> nat \<Rightarrow> u32 list option" where
  "blend_rows f w sdiff ddiff spx px src dest 0 = Some px"
| "blend_rows f w sdiff ddiff spx px src dest (Suc h) =
     do { (px', src', dest') \<leftarrow> blend_row f spx px src dest w;
          blend_rows f w sdiff ddiff spx px' (src' + sdiff) (dest' + ddiff) h }"

definition blend_op :: "gfx_format \<Rightarrow> gfx_format \<Rightarrow> (u32 \<Rightarrow> u32 \<Rightarrow> u32) option" where
  "blend_op source target =
     (if source = GFX_FORMAT_RGB_565 \<and> target = GFX_FORMAT_RGB_565 then Some (\<lambda>_ v. v)
      else if source = GFX_FORMAT_ARGB_8888 \<and> target = GFX_FORMAT_ARGB_8888 then Some alpha32_add_ignore_destalpha
      else if source = GFX_FORMAT_RGB_x888 \<and> target = GFX_FORMAT_RGB_x888 then Some (\<lambda>_ v. v)
      else if source = GFX_FORMAT_MONO \<and> target = GFX_FORMAT_MONO then Some (\<lambda>_ v. v)
      else None)"

definition gfx_surface_blend :: "gfx_surface \<Rightarrow> gfx_surface \<Rightarrow> u32 \<Rightarrow> u32 \<Rightarrow> gfx_surface option" where
  "gfx_surface_blend target source destx desty =
     (if g_format target \<noteq> g_format source then None
      else if destx \<ge> g_width target then Some target
      else if desty \<ge> g_height target then Some target
      else
        (let width = (if destx + g_width source > g_width target then g_width target - destx else g_width source);
             height = (if desty + g_height source > g_height target then g_height target - desty else g_height source)
         in do {
           f \<leftarrow> blend_op (g_format source) (g_format target);
           px \<leftarrow> blend_rows f (unat width) (uint (g_stride source - width)) (uint (g_stride target - width))
             (ptr source) (ptr target) 0 (pixel_at target destx desty) (unat height);
           Some (target\<lparr>ptr := px\<rparr>)
         }))"

section \<open>Flushing\<close>

definition gfx_flush :: "gfx_surface \<Rightarrow> gfx_surface" where
  "gfx_flush s =
     (let s1 = s\<lparr>cleaned := cleaned s @ [(0, g_len s)]\<rparr>
      in if g_flush s then s1\<lparr>presented := presented s @ [(0, g_height s - 1)]\<rparr> else s1)"

definition gfx_flush_rows :: "gfx_surface \<Rightarrow> u32 \<Rightarrow> u32 \<Rightarrow> gfx_surface" where
  "gfx_flush_rows s start0 end0 =
     (let (start, fin) = (if start0 > end0 then (end0, start0) else (start0, end0)) in
      if start \<ge> g_height s then s
      else
        (let fin' = (if fin \<ge> g_height s then g_height s - 1 else fin);
             runlen = g_stride s * pixelsize s;
             s1 = s\<lparr>cleaned := cleaned s @ [(start * runlen, (fin' - start + 1) * runlen)]\<rparr>
         in if g_flush s then s1\<lparr>presented := presented s @ [(start, fin')]\<rparr> else s1))"

section \<open>Creating surfaces\<close>

text \<open>The drawing routines, the colour translation and the pixel size of each format.\<close>

fun format_ops :: "gfx_format \<Rightarrow> ((u32 \<Rightarrow> u32) option \<times> pixel_ops \<times> u32) option" where
  "format_ops GFX_FORMAT_RGB_565 = Some (Some ARGB8888_to_RGB565, Pixel16, 2)"
| "format_ops GFX_FORMAT_RGB_x888 = Some (None, Pixel32, 4)"
| "format_ops GFX_FORMAT_ARGB_8888 = Some (None, Pixel32, 4)"
| "format_ops GFX_FORMAT_ABGR_8888 = Some (Some ARGB8888_to_ABGR8888, Pixel32, 4)"
| "format_ops GFX_FORMAT_MONO = Some (Some ARGB8888_to_Luma, Pixel8, 1)"
| "format_ops GFX_FORMAT_RGB_332 = Some (Some ARGB8888_to_RGB332, Pixel8, 1)"
| "format_ops GFX_FORMAT_RGB_2220 = Some (Some ARGB8888_to_RGB2220, Pixel8, 1)"
| "format_ops GFX_FORMAT_NONE = None"
| "format_ops GFX_FORMAT_MAX = None"

text \<open>
  \<open>p\<close> is the memory passed in, \<open>None\<close> for a null pointer; \<open>alloc n\<close> is what \<^verbatim>\<open>malloc\<close> gives
  for \<open>n\<close> bytes, as pixels. The result \<open>None\<close> stands for a failed assertion.
\<close>

definition gfx_create_surface :: "(u32 \<Rightarrow> u32 list option) \<Rightarrow> u32 list option \<Rightarrow> u32 \<Rightarrow> u32 \<Rightarrow> u32 \<Rightarrow> gfx_format \<Rightarrow> gfx_surface option" where
  "gfx_create_surface alloc p width height stride format =
     (if width = 0 \<or> height = 0 \<or> stride < width then None
      else do {
        (tr, ops, size) \<leftarrow> format_ops format;
        let len = height * stride * size;
        (px, owned) \<leftarrow> (case p of Some px \<Rightarrow> Some (px, False) | None \<Rightarrow> map_option (\<lambda>px. (px, True)) (alloc len));
        Some \<lparr>ptr = px, free_on_destroy = owned, g_format = format, g_width = width, g_height = height,
          g_stride = stride, pixelsize = size, g_len = len, g_alpha = 255, translate_color = tr,
          g_ops = ops, g_flush = False, cleaned = [], presented = []\<rparr>
      })"

datatype image_format = IMAGE_FORMAT_UNKNOWN | IMAGE_FORMAT_MONO_1 | IMAGE_FORMAT_MONO_8
  | IMAGE_FORMAT_RGB_x111 | IMAGE_FORMAT_RGB_332 | IMAGE_FORMAT_RGB_565 | IMAGE_FORMAT_RGB_2220
  | IMAGE_FORMAT_RGB_x888 | IMAGE_FORMAT_ARGB_8888 | IMAGE_FORMAT_ABGR_8888

datatype display_format = DISPLAY_FORMAT_UNKNOWN | DISPLAY_FORMAT_MONO_1 | DISPLAY_FORMAT_RGB_111
  | DISPLAY_FORMAT_RGB_565 | DISPLAY_FORMAT_RGB_x888 | DISPLAY_FORMAT_ARGB_8888 | DISPLAY_FORMAT_ABGR_8888

text \<open>A framebuffer with the fields of its image; \<open>fb_flush\<close> says whether there is a flush function.\<close>

record display_framebuffer =
  fb_format :: display_format
  i_format :: image_format
  i_pixels :: "u32 list"
  i_width :: u32
  i_height :: u32
  i_stride :: u32
  i_rowbytes :: u32
  fb_flush :: bool

fun image_to_gfx :: "image_format \<Rightarrow> gfx_format option" where
  "image_to_gfx IMAGE_FORMAT_RGB_565 = Some GFX_FORMAT_RGB_565"
| "image_to_gfx IMAGE_FORMAT_RGB_332 = Some GFX_FORMAT_RGB_332"
| "image_to_gfx IMAGE_FORMAT_RGB_2220 = Some GFX_FORMAT_RGB_2220"
| "image_to_gfx IMAGE_FORMAT_ARGB_8888 = Some GFX_FORMAT_ARGB_8888"
| "image_to_gfx IMAGE_FORMAT_RGB_x888 = Some GFX_FORMAT_RGB_x888"
| "image_to_gfx IMAGE_FORMAT_MONO_8 = Some GFX_FORMAT_MONO"
| "image_to_gfx IMAGE_FORMAT_ABGR_8888 = Some GFX_FORMAT_ABGR_8888"
| "image_to_gfx _ = None"

definition gfx_create_surface_from_display :: "(u32 \<Rightarrow> u32 list option) \<Rightarrow> display_framebuffer \<Rightarrow> gfx_surface option" where
  "gfx_create_surface_from_display alloc fb = do {
     format \<leftarrow> image_to_gfx (i_format fb);
     s \<leftarrow> gfx_create_surface alloc (Some (i_pixels fb)) (i_width fb) (i_height fb) (i_stride fb) format;
     Some (s\<lparr>g_flush := fb_flush fb\<rparr>)
   }"

section \<open>The loops on the pixel list\<close>

text \<open>\<open>in_rows st w h d i\<close>: index \<open>i\<close> lies in one of \<open>h\<close> runs of \<open>w\<close> pixels, \<open>st\<close> apart, from \<open>d\<close>.\<close>

definition in_rows :: "int \<Rightarrow> nat \<Rightarrow> nat \<Rightarrow> int \<Rightarrow> int \<Rightarrow> bool" where
  "in_rows st w h d i \<longleftrightarrow> (\<exists>k<h. d + int k * st \<le> i \<and> i < d + int k * st + int w)"

lemma in_rows_0 [simp]: "\<not> in_rows st w 0 d i"
  by (simp add: in_rows_def)

lemma in_rows_Suc: "in_rows st w (Suc h) d i \<longleftrightarrow> d \<le> i \<and> i < d + int w \<or> in_rows st w h (d + st) i"
proof -
  have "(\<exists>k<Suc h. d + int k * st \<le> i \<and> i < d + int k * st + int w) \<longleftrightarrow>
     (d \<le> i \<and> i < d + int w) \<or> (\<exists>k<h. d + int (Suc k) * st \<le> i \<and> i < d + int (Suc k) * st + int w)"
    by (subst Ex_less_Suc2) simp
  then show ?thesis by (simp add: in_rows_def algebra_simps)
qed

lemma in_rows_lower: "in_rows st w h d i \<Longrightarrow> 0 \<le> st \<Longrightarrow> d \<le> i"
  unfolding in_rows_def by (smt (verit) mult_nonneg_nonneg of_nat_0_le_iff)

lemma in_rows_upper: "in_rows st w h d i \<Longrightarrow> 0 \<le> st \<Longrightarrow> i < d + int (h - 1) * st + int w"
proof -
  assume "in_rows st w h d i" "0 \<le> st"
  then obtain k where k: "k < h" "i < d + int k * st + int w" by (auto simp: in_rows_def)
  have "int k * st \<le> int (h - 1) * st" using k(1) \<open>0 \<le> st\<close> by (intro mult_right_mono) auto
  then show ?thesis using k(2) by linarith
qed

lemma rows_start:
  assumes "0 \<le> diff" "Suc h > 0 \<Longrightarrow> d + int (Suc h - 1) * (int w + diff) + int w \<le> n"
  shows "d + int w \<le> n"
proof -
  have "d + int h * (int w + diff) + int w \<le> n" using assms(2) by simp
  moreover have "0 \<le> int h * (int w + diff)" using assms(1) by simp
  ultimately show ?thesis by linarith
qed

lemma poke_Some: "0 \<le> p \<Longrightarrow> p < int (length px) \<Longrightarrow> poke px p v = Some (px[nat p := v])"
  by (simp add: poke_def)

lemma peek_Some: "0 \<le> p \<Longrightarrow> p < int (length px) \<Longrightarrow> peek px p = Some (px ! nat p)"
  by (simp add: peek_def)

lemma fill_row_spec:
  assumes "0 \<le> d" "d + int n \<le> int (length px)"
  shows "\<exists>px'. fill_row v px d n = Some (px', d + int n) \<and> length px' = length px \<and>
     (\<forall>i<length px. px' ! i = (if d \<le> int i \<and> int i < d + int n then v else px ! i))"
  using assms
proof (induction n arbitrary: px d)
  case (Suc n)
  let ?p = "px[nat d := v]"
  obtain px' where px': "fill_row v ?p (d + 1) n = Some (px', d + 1 + int n)" "length px' = length px"
    "\<forall>i<length px. px' ! i = (if d + 1 \<le> int i \<and> int i < d + 1 + int n then v else ?p ! i)"
    using Suc.IH [of "d + 1" ?p] Suc.prems by auto
  have "poke px d v = Some ?p" using Suc.prems by (simp add: poke_Some)
  moreover have "px' ! i = (if d \<le> int i \<and> int i < d + int (Suc n) then v else px ! i)" if "i < length px" for i
  proof (cases "int i = d")
    case True
    then have "i = nat d" by simp
    then show ?thesis using px'(3) that True by simp
  next
    case False
    then show ?thesis using px'(3) that Suc.prems(1) by (auto simp: nth_list_update nat_eq_iff)
  qed
  ultimately show ?case using px'(1,2) by (simp add: algebra_simps)
qed auto

lemma fill_rows_spec:
  assumes "0 \<le> d" "0 \<le> diff" "h > 0 \<Longrightarrow> d + int (h - 1) * (int w + diff) + int w \<le> int (length px)"
  shows "\<exists>px'. fill_rows v w diff px d h = Some px' \<and> length px' = length px \<and>
     (\<forall>i<length px. px' ! i = (if in_rows (int w + diff) w h d (int i) then v else px ! i))"
  using assms
proof (induction h arbitrary: px d)
  case (Suc h)
  let ?st = "int w + diff"
  have le: "d + int w \<le> int (length px)"
    using Suc.prems(2,3) by (rule rows_start)
  obtain p1 where p1: "fill_row v px d w = Some (p1, d + int w)" "length p1 = length px"
    "\<forall>i<length px. p1 ! i = (if d \<le> int i \<and> int i < d + int w then v else px ! i)"
    using fill_row_spec [OF Suc.prems(1) le] by blast
  have "h > 0 \<Longrightarrow> d + ?st + int (h - 1) * ?st + int w \<le> int (length p1)"
    using Suc.prems(3) p1(2) by (cases h) (simp_all add: algebra_simps)
  from Suc.IH [OF _ Suc.prems(2) this] Suc.prems(1,2)
  obtain p2 where p2: "fill_rows v w diff p1 (d + ?st) h = Some p2" "length p2 = length p1"
    "\<forall>i<length p1. p2 ! i = (if in_rows ?st w h (d + ?st) (int i) then v else p1 ! i)"
    by auto
  have "fill_rows v w diff px d (Suc h) = Some p2" using p1(1) p2(1) by (simp add: add.assoc)
  moreover have "p2 ! i = (if in_rows ?st w (Suc h) d (int i) then v else px ! i)" if "i < length px" for i
    using p1(2,3) p2(3) that by (auto simp: in_rows_Suc)
  ultimately show ?case using p1(2) p2(2) by auto
qed simp

text \<open>A forward copy to a lower address reads every pixel before it can have overwritten it.\<close>

lemma copy_row_forward:
  assumes "0 \<le> dest" "dest < src" "src + int n \<le> int (length px)"
  shows "\<exists>px'. copy_row 1 px src dest n = Some (px', src + int n, dest + int n) \<and> length px' = length px \<and>
     (\<forall>i<length px. px' ! i = (if dest \<le> int i \<and> int i < dest + int n then px ! nat (int i + (src - dest)) else px ! i))"
  using assms
proof (induction n arbitrary: px src dest)
  case (Suc n)
  let ?p = "px[nat dest := px ! nat src]"
  obtain px' where px': "copy_row 1 ?p (src + 1) (dest + 1) n = Some (px', src + 1 + int n, dest + 1 + int n)"
    "length px' = length px"
    "\<forall>i<length px. px' ! i = (if dest + 1 \<le> int i \<and> int i < dest + 1 + int n then ?p ! nat (int i + (src - dest)) else ?p ! i)"
    using Suc.IH [of "dest + 1" "src + 1" ?p] Suc.prems by auto
  have "px' ! i = (if dest \<le> int i \<and> int i < dest + int (Suc n) then px ! nat (int i + (src - dest)) else px ! i)"
    if "i < length px" for i
  proof (cases "int i = dest")
    case True
    then have "i = nat dest" by simp
    then show ?thesis using px'(3) that True Suc.prems by simp
  next
    case False
    then show ?thesis using px'(3) that Suc.prems by (auto simp: nth_list_update nat_eq_iff)
  qed
  then show ?case using px'(1,2) Suc.prems by (simp add: poke_Some peek_Some algebra_simps)
qed auto

lemma copy_rows_forward:
  assumes "0 \<le> dest" "dest < src" "0 \<le> diff" "h > 0 \<Longrightarrow> src + int (h - 1) * (int w + diff) + int w \<le> int (length px)"
  shows "\<exists>px'. copy_rows 1 w diff px src dest h = Some px' \<and> length px' = length px \<and>
     (\<forall>i<length px. px' ! i = (if in_rows (int w + diff) w h dest (int i) then px ! nat (int i + (src - dest)) else px ! i))"
  using assms
proof (induction h arbitrary: px src dest)
  case (Suc h)
  let ?st = "int w + diff"
  have le: "src + int w \<le> int (length px)"
    using Suc.prems(3,4) by (rule rows_start)
  obtain p1 where p1: "copy_row 1 px src dest w = Some (p1, src + int w, dest + int w)" "length p1 = length px"
    "\<forall>i<length px. p1 ! i = (if dest \<le> int i \<and> int i < dest + int w then px ! nat (int i + (src - dest)) else px ! i)"
    using copy_row_forward [OF Suc.prems(1,2) le] by blast
  have hi: "h > 0 \<Longrightarrow> src + ?st + int (h - 1) * ?st + int w \<le> int (length p1)"
    using Suc.prems(4) p1(2) by (cases h) (simp_all add: algebra_simps)
  from Suc.IH [OF _ _ Suc.prems(3) this, of "dest + ?st"] Suc.prems(1-3)
  obtain p2 where p2: "copy_rows 1 w diff p1 (src + ?st) (dest + ?st) h = Some p2" "length p2 = length p1"
    "\<forall>i<length p1. p2 ! i = (if in_rows ?st w h (dest + ?st) (int i) then p1 ! nat (int i + (src - dest)) else p1 ! i)"
    by auto
  have "copy_rows 1 w diff px src dest (Suc h) = Some p2" using p1(1) p2(1) by (simp add: add.assoc)
  moreover have "p2 ! i = (if in_rows ?st w (Suc h) dest (int i) then px ! nat (int i + (src - dest)) else px ! i)"
    if i: "i < length px" for i
  proof (cases "in_rows ?st w h (dest + ?st) (int i)")
    case True
    then have lo: "dest + ?st \<le> int i" and up: "int i < dest + ?st + int (h - 1) * ?st + int w"
      using Suc.prems(3) in_rows_lower [of ?st w h "dest + ?st" "int i"] in_rows_upper [of ?st w h "dest + ?st" "int i"] by auto
    have "h > 0" using True by (cases h) auto
    then have "int i + (src - dest) < int (length px)" using up hi p1(2) by linarith
    moreover have "dest + int w < int i + (src - dest)" "0 \<le> int i + (src - dest)" using lo Suc.prems(1-3) by auto
    ultimately have "p1 ! nat (int i + (src - dest)) = px ! nat (int i + (src - dest))"
      using p1(3) by (simp add: nat_less_iff)
    then show ?thesis using True i p1(2) p2(3) by (simp add: in_rows_Suc)
  next
    case False
    then show ?thesis using p1(2,3) p2(3) i by (auto simp: in_rows_Suc)
  qed
  ultimately show ?case using p1(2) p2(2) by auto
qed simp

text \<open>A backward copy to a higher address, with the runs given by their lowest addresses \<open>S\<close> and \<open>D\<close>.\<close>

lemma copy_row_backward:
  assumes "int n \<le> src + 1" "src \<le> dest" "dest < int (length px)"
  shows "\<exists>px'. copy_row (- 1) px src dest n = Some (px', src - int n, dest - int n) \<and> length px' = length px \<and>
     (\<forall>i<length px. px' ! i = (if dest - int n < int i \<and> int i \<le> dest then px ! nat (int i - (dest - src)) else px ! i))"
  using assms
proof (induction n arbitrary: px src dest)
  case (Suc n)
  let ?p = "px[nat dest := px ! nat src]"
  obtain px' where px': "copy_row (- 1) ?p (src - 1) (dest - 1) n = Some (px', src - 1 - int n, dest - 1 - int n)"
    "length px' = length px"
    "\<forall>i<length px. px' ! i = (if dest - 1 - int n < int i \<and> int i \<le> dest - 1 then ?p ! nat (int i - (dest - src)) else ?p ! i)"
    using Suc.IH [of "src - 1" "dest - 1" ?p] Suc.prems by auto
  have "px' ! i = (if dest - int (Suc n) < int i \<and> int i \<le> dest then px ! nat (int i - (dest - src)) else px ! i)"
    if "i < length px" for i
  proof (cases "int i = dest")
    case True
    then have "i = nat dest" by simp
    then show ?thesis using px'(3) that True Suc.prems by simp
  next
    case False
    then have "?p ! i = px ! i" using Suc.prems by (auto simp: nth_list_update nat_eq_iff)
    moreover have "?p ! nat (int i - (dest - src)) = px ! nat (int i - (dest - src))"
      if "dest - 1 - int n < int i" "int i \<le> dest - 1"
      using that Suc.prems by (intro nth_list_update_neq) auto
    ultimately show ?thesis using px'(3) that False by auto
  qed
  then show ?case using px'(1,2) Suc.prems by (simp add: poke_Some peek_Some algebra_simps)
qed auto

lemma in_rows_Suc_top:
  "in_rows st w (Suc h) d i \<longleftrightarrow> in_rows st w h d i \<or> d + int h * st \<le> i \<and> i < d + int h * st + int w"
  by (auto simp: in_rows_def less_Suc_eq)

lemma copy_rows_backward:
  assumes "0 \<le> S" "S \<le> D" "0 \<le> diff" "h > 0 \<Longrightarrow> D + int (h - 1) * (int w + diff) + int w \<le> int (length px)"
  shows "\<exists>px'. copy_rows (- 1) w diff px (S + (int h - 1) * (int w + diff) + int w - 1)
       (D + (int h - 1) * (int w + diff) + int w - 1) h = Some px' \<and> length px' = length px \<and>
     (\<forall>i<length px. px' ! i = (if in_rows (int w + diff) w h D (int i) then px ! nat (int i - (D - S)) else px ! i))"
  using assms
proof (induction h arbitrary: px)
  case (Suc h)
  let ?st = "int w + diff"
  let ?s = "S + int h * ?st + int w - 1" and ?d = "D + int h * ?st + int w - 1"
  have nn: "0 \<le> int h * ?st" using Suc.prems(3) by simp
  have top: "?d < int (length px)" using Suc.prems(4) by simp
  have "int w \<le> ?s + 1" "?s \<le> ?d" using nn Suc.prems(1,2) by auto
  from copy_row_backward [OF this top]
  obtain p1 where p1: "copy_row (- 1) px ?s ?d w = Some (p1, ?s - int w, ?d - int w)" "length p1 = length px"
    "\<forall>i<length px. p1 ! i = (if ?d - int w < int i \<and> int i \<le> ?d then px ! nat (int i - (?d - ?s)) else px ! i)"
    by blast
  have hi: "h > 0 \<Longrightarrow> D + int (h - 1) * ?st + int w \<le> int (length p1)"
    using top p1(2) Suc.prems(3) by (cases h) (auto simp: algebra_simps)
  from Suc.IH [OF Suc.prems(1-3) this]
  obtain p2 where p2: "copy_rows (- 1) w diff p1 (S + (int h - 1) * ?st + int w - 1) (D + (int h - 1) * ?st + int w - 1) h = Some p2"
    "length p2 = length p1"
    "\<forall>i<length p1. p2 ! i = (if in_rows ?st w h D (int i) then p1 ! nat (int i - (D - S)) else p1 ! i)"
    by blast
  have up_row: "?s - int w + - 1 * diff = S + (int h - 1) * ?st + int w - 1" "?d - int w + - 1 * diff = D + (int h - 1) * ?st + int w - 1"
    by (simp_all add: algebra_simps)
  have "int (Suc h) - 1 = int h" by simp
  moreover have "copy_rows (- 1) w diff px ?s ?d (Suc h) = Some p2"
    unfolding copy_rows.simps p1(1) bind.bind_lunit prod.case up_row p2(1) ..
  ultimately have "copy_rows (- 1) w diff px (S + (int (Suc h) - 1) * ?st + int w - 1) (D + (int (Suc h) - 1) * ?st + int w - 1) (Suc h) = Some p2"
    by (simp only:)
  moreover have "p2 ! i = (if in_rows ?st w (Suc h) D (int i) then px ! nat (int i - (D - S)) else px ! i)"
    if i: "i < length px" for i
  proof (cases "in_rows ?st w h D (int i)")
    case True
    then have lo: "D \<le> int i" and up: "int i < D + int (h - 1) * ?st + int w" and "h > 0"
      using Suc.prems(3) in_rows_lower [of ?st w h D "int i"] in_rows_upper [of ?st w h D "int i"]
      by (auto intro: gr0I)
    then have "int i - (D - S) < D + int h * ?st"
      using Suc.prems(2,3) by (cases h) (auto simp: algebra_simps)
    moreover have "0 \<le> int i - (D - S)" "nat (int i - (D - S)) < length px"
      using lo i Suc.prems(1,2) by (auto simp: nat_less_iff)
    ultimately have "p1 ! nat (int i - (D - S)) = px ! nat (int i - (D - S))"
      using p1(3) by simp
    then show ?thesis using True i p1(2) p2(3) by (simp add: in_rows_Suc_top)
  next
    case False
    have "?d - ?s = D - S" by simp
    then show ?thesis using False p1(2,3) p2(3) i by (auto simp: in_rows_Suc_top)
  qed
  ultimately show ?case using p1(2) p2(2) by auto
qed simp

section \<open>What an operation paints\<close>

text \<open>
  A surface whose memory holds all its lines. \<open>paints s R v s'\<close>: the pixel in column \<open>a\<close> of
  line \<open>b\<close> becomes \<open>v a b\<close> where \<open>R a b\<close>, and nothing else of the surface changed.
\<close>

definition surface_wf :: "gfx_surface \<Rightarrow> bool" where
  "surface_wf s \<longleftrightarrow> 0 < g_width s \<and> 0 < g_height s \<and> g_width s \<le> g_stride s \<and>
     unat (g_height s) * unat (g_stride s) \<le> length (ptr s) \<and>
     unat (g_height s) * unat (g_stride s) < 2 ^ 32 \<and> (g_ops s = Pixel32 \<or> translate_color s \<noteq> None)"

definition paints :: "gfx_surface \<Rightarrow> (nat \<Rightarrow> nat \<Rightarrow> bool) \<Rightarrow> (nat \<Rightarrow> nat \<Rightarrow> u32) \<Rightarrow> gfx_surface \<Rightarrow> bool" where
  "paints s R v s' \<longleftrightarrow> (\<exists>px. s' = s\<lparr>ptr := px\<rparr> \<and> length px = length (ptr s) \<and>
     (\<forall>i < length px. px ! i = (let a = i mod unat (g_stride s); b = i div unat (g_stride s)
        in if R a b then v a b else ptr s ! i)))"

definition pixel :: "gfx_surface \<Rightarrow> nat \<Rightarrow> nat \<Rightarrow> u32" where
  "pixel s a b = ptr s ! (a + b * unat (g_stride s))"

lemma paints_wf: "paints s R v s' \<Longrightarrow> surface_wf s \<Longrightarrow> surface_wf s'"
  by (auto simp: paints_def surface_wf_def)

lemma paints_frame:
  assumes "paints s R v s'"
  shows "g_width s' = g_width s" "g_height s' = g_height s" "g_stride s' = g_stride s" "g_ops s' = g_ops s"
    "translate_color s' = translate_color s" "length (ptr s') = length (ptr s)" "g_flush s' = g_flush s"
    "cleaned s' = cleaned s" "pixelsize s' = pixelsize s"
  using assms by (auto simp: paints_def)

lemma pixel_bound:
  assumes "surface_wf s" "a < unat (g_stride s)" "b < unat (g_height s)"
  shows "a + b * unat (g_stride s) < length (ptr s)"
proof -
  have "Suc b * unat (g_stride s) \<le> unat (g_height s) * unat (g_stride s)" using assms(3) by (intro mult_right_mono) auto
  then show ?thesis using assms(1,2) by (auto simp: surface_wf_def)
qed

lemma paints_pixel:
  assumes "paints s R v s'" "surface_wf s" "a < unat (g_stride s)" "b < unat (g_height s)"
  shows "pixel s' a b = (if R a b then v a b else pixel s a b)"
  using assms(1,3) pixel_bound [OF assms(2-4)] by (auto simp: paints_def pixel_def Let_def)

lemma paints_none: "(\<And>a b. \<not> R a b) \<Longrightarrow> paints s R v s"
  by (auto simp: paints_def intro!: exI [of _ "ptr s"])

lemma paints_trans:
  assumes "paints s R v s1" "paints s1 R' v' s2"
  shows "paints s (\<lambda>a b. R' a b \<or> R a b) (\<lambda>a b. if R' a b then v' a b else v a b) s2"
proof -
  obtain p1 where p1: "s1 = s\<lparr>ptr := p1\<rparr>" "length p1 = length (ptr s)"
    "\<forall>i < length p1. p1 ! i = (let a = i mod unat (g_stride s); b = i div unat (g_stride s) in if R a b then v a b else ptr s ! i)"
    using assms(1) by (auto simp: paints_def)
  obtain p2 where p2: "s2 = s1\<lparr>ptr := p2\<rparr>" "length p2 = length (ptr s1)"
    "\<forall>i < length p2. p2 ! i = (let a = i mod unat (g_stride s1); b = i div unat (g_stride s1) in if R' a b then v' a b else ptr s1 ! i)"
    using assms(2) unfolding paints_def by blast
  show ?thesis using p1 p2 by (auto simp: paints_def Let_def)
qed

lemma paints_cong:
  assumes "paints s R v s'" "\<And>a b. R a b = R' a b" "\<And>a b. R a b \<Longrightarrow> v a b = v' a b"
  shows "paints s R' v' s'"
  using assms unfolding paints_def by (auto simp: Let_def)

lemma in_rows_rect:
  assumes "x + w \<le> st" "0 < st"
  shows "in_rows (int st) w h (int (x + y * st)) (int i) \<longleftrightarrow>
     x \<le> i mod st \<and> i mod st < x + w \<and> y \<le> i div st \<and> i div st < y + h"
proof
  assume "in_rows (int st) w h (int (x + y * st)) (int i)"
  then obtain k where k: "k < h" "int (x + y * st) + int k * int st \<le> int i" "int i < int (x + y * st) + int k * int st + int w"
    by (auto simp: in_rows_def)
  have "int (x + y * st) + int k * int st = int (x + (y + k) * st)" by (simp add: algebra_simps)
  with k have k': "x + (y + k) * st \<le> i" "i < x + (y + k) * st + w" by linarith+
  define r where "r = i - (y + k) * st"
  have r: "i = r + (y + k) * st" "x \<le> r" "r < x + w" using k' by (auto simp: r_def)
  then have "r < st" using assms(1) by linarith
  then have "i mod st = r" "i div st = y + k" using r(1) by auto
  then show "x \<le> i mod st \<and> i mod st < x + w \<and> y \<le> i div st \<and> i div st < y + h" using r k(1) by auto
next
  assume a: "x \<le> i mod st \<and> i mod st < x + w \<and> y \<le> i div st \<and> i div st < y + h"
  define k where "k = i div st - y"
  have "i div st = y + k" "k < h" using a by (auto simp: k_def)
  then have "i = i mod st + (y + k) * st" using div_mult_mod_eq [of i st] by simp
  then have "int i = int (i mod st + (y + k) * st)" by (rule arg_cong)
  then have "int i = int (i mod st) + int (y * st) + int k * int st" by (simp only: of_nat_add of_nat_mult distrib_right add.assoc)
  moreover have "int x \<le> int (i mod st)" "int (i mod st) < int x + int w" using a by auto
  ultimately show "in_rows (int st) w h (int (x + y * st)) (int i)"
    using \<open>k < h\<close> by (auto simp: in_rows_def intro!: exI [of _ k])
qed

lemma pixel_at_nat:
  assumes "surface_wf s" "unat x < unat (g_stride s)" "unat y < unat (g_height s)"
  shows "pixel_at s x y = int (unat x + unat y * unat (g_stride s))"
proof -
  have "Suc (unat y) * unat (g_stride s) \<le> unat (g_height s) * unat (g_stride s)" using assms(3) by (intro mult_right_mono) auto
  then have lt: "unat x + unat y * unat (g_stride s) < 2 ^ 32" using assms(1,2) by (auto simp: surface_wf_def)
  have m: "unat (y * g_stride s) = unat y * unat (g_stride s)" using lt by (simp add: unat_mult_lem [THEN iffD1])
  have "unat (x + y * g_stride s) = unat x + unat y * unat (g_stride s)"
    using lt m by (simp add: unat_add_lem [THEN iffD1])
  then show ?thesis by (simp only: pixel_at_def uint_nat)
qed

lemma surface_wf_stride: "surface_wf s \<Longrightarrow> 0 < unat (g_stride s) \<and> unat (g_width s) \<le> unat (g_stride s)"
  by (auto simp: surface_wf_def word_le_nat_alt word_less_nat_alt)

definition stored :: "gfx_surface \<Rightarrow> u32 \<Rightarrow> u32" where
  "stored s c = the (flatten s c)"

lemma flatten_stored: "surface_wf s \<Longrightarrow> flatten s c = Some (stored s c)"
  by (auto simp: surface_wf_def stored_def flatten_def split: pixel_ops.splits)

lemma paints_stored: "paints s R v s' \<Longrightarrow> stored s' c = stored s c"
  by (auto simp: paints_def stored_def flatten_def split: pixel_ops.splits)

lemma putpixel_paints:
  assumes "surface_wf s" "unat x < unat (g_stride s)" "unat y < unat (g_height s)"
  shows "\<exists>s'. putpixel s x y c = Some s' \<and> paints s (\<lambda>a b. a = unat x \<and> b = unat y) (\<lambda>_ _. stored s c) s'"
proof -
  let ?st = "unat (g_stride s)" and ?i = "unat x + unat y * unat (g_stride s)"
  have lt: "?i < length (ptr s)" using assms by (rule pixel_bound)
  have "(i mod ?st = unat x \<and> i div ?st = unat y) \<longleftrightarrow> i = ?i" for i
  proof
    assume "i mod ?st = unat x \<and> i div ?st = unat y"
    then show "i = ?i" using div_mult_mod_eq [of i ?st] by (simp only: add.commute)
  qed (use assms(2) in simp)
  then have "paints s (\<lambda>a b. a = unat x \<and> b = unat y) (\<lambda>_ _. stored s c) (s\<lparr>ptr := (ptr s)[?i := stored s c]\<rparr>)"
    unfolding paints_def Let_def using lt
    by (intro exI [of _ "(ptr s)[?i := stored s c]"]) (simp only: nth_list_update length_list_update simp_thms eq_commute)
  moreover have "poke (ptr s) (pixel_at s x y) (stored s c) = Some ((ptr s)[?i := stored s c])"
    unfolding pixel_at_nat [OF assms] poke_def using lt by (simp only: nat_int of_nat_less_iff of_nat_0_le_iff simp_thms if_True)
  ultimately show ?thesis using assms(1) by (auto simp: putpixel_def flatten_stored)
qed

lemma gfx_putpixel_paints:
  assumes "surface_wf s"
  shows "\<exists>s'. gfx_putpixel s x y c = Some s' \<and>
     paints s (\<lambda>a b. a = unat x \<and> b = unat y \<and> a < unat (g_width s) \<and> b < unat (g_height s)) (\<lambda>_ _. stored s c) s'"
proof (cases "x < g_width s \<and> y < g_height s")
  case True
  then have "unat x < unat (g_width s)" "unat y < unat (g_height s)" by (simp_all add: word_less_nat_alt)
  moreover from this obtain s' where s': "putpixel s x y c = Some s'" "paints s (\<lambda>a b. a = unat x \<and> b = unat y) (\<lambda>_ _. stored s c) s'"
    using putpixel_paints [OF assms, of x y c] surface_wf_stride [OF assms] by auto
  moreover have "gfx_putpixel s x y c = putpixel s x y c" using True by (simp add: gfx_putpixel_def not_le [symmetric])
  ultimately show ?thesis by (intro exI [of _ s'] conjI paints_cong [OF s'(2)]) auto
next
  case False
  then show ?thesis
    by (intro exI [of _ s] conjI paints_none) (auto simp: gfx_putpixel_def word_less_nat_alt word_le_nat_alt)
qed

text \<open>The colour a fill stores: the 32-bit routine does not translate it.\<close>

definition fill_stored :: "gfx_surface \<Rightarrow> u32 \<Rightarrow> u32" where
  "fill_stored s c = (if g_ops s = Pixel32 then c else stored s c)"

lemma rect_fits:
  assumes "surface_wf s" "x + w \<le> unat (g_stride s)" "0 < h" "y + h \<le> unat (g_height s)"
  shows "int (x + y * unat (g_stride s)) + int (h - 1) * int (unat (g_stride s)) + int w \<le> int (length (ptr s))"
proof -
  have "(y + h) * unat (g_stride s) \<le> unat (g_height s) * unat (g_stride s)" using assms(4) by (intro mult_right_mono) auto
  moreover have "(y + h) * unat (g_stride s) = y * unat (g_stride s) + (h - 1) * unat (g_stride s) + unat (g_stride s)"
    using assms(3) by (cases h) (auto simp: algebra_simps)
  ultimately have "x + y * unat (g_stride s) + (h - 1) * unat (g_stride s) + w \<le> length (ptr s)"
    using assms(1,2) by (simp add: surface_wf_def)
  then show ?thesis unfolding of_nat_mult [symmetric] of_nat_add [symmetric] by (simp only: of_nat_le_iff)
qed

lemma row_gap:
  assumes "unat (x :: u32) + unat w \<le> unat st"
  shows "int (unat w) + uint (st - w) = int (unat st)"
proof -
  have "w \<le> st" using assms by (simp add: word_le_nat_alt)
  then have "unat (st - w) = unat st - unat w" by (rule unat_sub)
  then have "unat w + unat (st - w) = unat st" using \<open>w \<le> st\<close> by (simp only: word_le_nat_alt le_add_diff_inverse)
  then show ?thesis by (simp only: uint_nat of_nat_add [symmetric])
qed

lemma fillrect_paints:
  assumes "surface_wf s" "unat x < unat (g_stride s)" "unat y < unat (g_height s)"
    and "unat x + unat w \<le> unat (g_stride s)" "unat y + unat h \<le> unat (g_height s)"
  shows "\<exists>s'. fillrect s x y w h c = Some s' \<and>
     paints s (\<lambda>a b. unat x \<le> a \<and> a < unat x + unat w \<and> unat y \<le> b \<and> b < unat y + unat h) (\<lambda>_ _. fill_stored s c) s'"
proof -
  let ?st = "unat (g_stride s)" and ?d = "int (unat x + unat y * unat (g_stride s))"
  note gap = row_gap [OF assms(4)]
  have fits: "unat h > 0 \<Longrightarrow> ?d + int (unat h - 1) * (int (unat w) + uint (g_stride s - w)) + int (unat w) \<le> int (length (ptr s))"
    unfolding gap using rect_fits [OF assms(1,4) _ assms(5)] .
  obtain px where px: "fill_rows (fill_stored s c) (unat w) (uint (g_stride s - w)) (ptr s) ?d (unat h) = Some px"
    "length px = length (ptr s)"
    "\<forall>i<length (ptr s). px ! i = (if in_rows (int ?st) (unat w) (unat h) ?d (int i) then fill_stored s c else ptr s ! i)"
    using fill_rows_spec [OF of_nat_0_le_iff uint_ge_0 fits, of "fill_stored s c"] unfolding gap by blast
  have "0 < ?st" using surface_wf_stride [OF assms(1)] by simp
  note rect = in_rows_rect [OF assms(4) this, of "unat h" "unat y"]
  have "fillrect s x y w h c = Some (s\<lparr>ptr := px\<rparr>)"
    using px(1) flatten_stored [OF assms(1)] unfolding fillrect_def pixel_at_nat [OF assms(1-3)] fill_stored_def by auto
  moreover have "paints s (\<lambda>a b. unat x \<le> a \<and> a < unat x + unat w \<and> unat y \<le> b \<and> b < unat y + unat h) (\<lambda>_ _. fill_stored s c) (s\<lparr>ptr := px\<rparr>)"
    unfolding paints_def Let_def using px(2,3) rect by (intro exI [of _ px]) simp
  ultimately show ?thesis by blast
qed

text \<open>Clipping one side of a rectangle at \<open>W\<close>, when the sum does not wrap.\<close>

lemma unat_sum_small: "unat (x :: u32) + unat w < 2 ^ 32 \<Longrightarrow> unat (x + w) = unat x + unat w"
  by (simp add: unat_add_lem [THEN iffD1])

lemma clip_side:
  assumes "unat (x :: u32) < unat W" "unat x + unat w < 2 ^ 32"
  shows "unat (if x + w > W then W - x else w) = min (unat w) (unat W - unat x)"
proof -
  have "unat (W - x) = unat W - unat x" using assms(1) by (intro unat_sub) (simp add: word_le_nat_alt)
  then show ?thesis using assms(1) unat_sum_small [OF assms(2)] by (auto simp: word_less_nat_alt)
qed

lemma gfx_fillrect_paints:
  assumes "surface_wf s" "unat x + unat w < 2 ^ 32" "unat y + unat h < 2 ^ 32"
  shows "\<exists>s'. gfx_fillrect s x y w h c = Some s' \<and>
     paints s (\<lambda>a b. unat x \<le> a \<and> a < unat x + unat w \<and> a < unat (g_width s) \<and>
         unat y \<le> b \<and> b < unat y + unat h \<and> b < unat (g_height s)) (\<lambda>_ _. fill_stored s c) s'"
    (is "\<exists>s'. _ \<and> paints s ?R ?v s'")
proof (cases "x < g_width s \<and> y < g_height s \<and> w \<noteq> 0 \<and> h \<noteq> 0")
  case True
  let ?w = "if x + w > g_width s then g_width s - x else w" and ?h = "if y + h > g_height s then g_height s - y else h"
  have b: "unat x < unat (g_width s)" "unat y < unat (g_height s)" "unat (g_width s) \<le> unat (g_stride s)"
    using True surface_wf_stride [OF assms(1)] by (auto simp: word_less_nat_alt)
  note cw = clip_side [OF b(1) assms(2)] and ch = clip_side [OF b(2) assms(3)]
  have fits: "unat x < unat (g_stride s)" "unat x + unat ?w \<le> unat (g_stride s)" "unat y + unat ?h \<le> unat (g_height s)"
    unfolding cw ch using b by auto
  from fillrect_paints [OF assms(1) fits(1) b(2) fits(2,3), of c]
  obtain s' where s': "fillrect s x y ?w ?h c = Some s'"
    "paints s (\<lambda>a b. unat x \<le> a \<and> a < unat x + unat ?w \<and> unat y \<le> b \<and> b < unat y + unat ?h) ?v s'" by blast
  have "gfx_fillrect s x y w h c = Some s'"
    using True s'(1) by (simp add: gfx_fillrect_def not_le [symmetric] Let_def)
  moreover have "paints s ?R ?v s'" by (rule paints_cong [OF s'(2)]) (auto simp only: cw ch b min_def split: if_splits)
  ultimately show ?thesis by blast
next
  case False
  then show ?thesis
    by (intro exI [of _ s] conjI paints_none) (auto simp: gfx_fillrect_def word_less_nat_alt word_le_nat_alt)
qed

lemma unat_u32: "unat (x :: u32) < 2 ^ 32"
  using unsigned_less [of x, where ?'a = nat] by simp

lemma fill_row_None: "0 \<le> d \<Longrightarrow> d \<le> int (length px) \<Longrightarrow> int (length px) < d + int n \<Longrightarrow> fill_row v px d n = None"
proof (induction n arbitrary: px d)
  case (Suc n)
  then show ?case using Suc.IH [of "d + 1" "px[nat d := v]"] by (simp add: poke_def)
qed simp

lemma fill_row_nat_None: "d \<le> length px \<Longrightarrow> length px < d + n \<Longrightarrow> fill_row v px (int d) n = None"
  by (rule fill_row_None) auto

text \<open>A width for which \<^verbatim>\<open>x + width\<close> wraps is not clipped: the fill leaves the memory.\<close>

lemma gfx_fillrect_wraps:
  assumes "surface_wf s" "x < g_width s" "y < g_height s" "h \<noteq> 0" "2 ^ 32 \<le> unat x + unat w" "length (ptr s) < 2 ^ 32"
    and "unat y + unat h < 2 ^ 32"
  shows "gfx_fillrect s x y w h c = None"
proof -
  have b: "unat x < unat (g_width s)" "unat y < unat (g_height s)" "unat x < unat (g_stride s)"
    using assms(2,3) surface_wf_stride [OF assms(1)] by (auto simp: word_less_nat_alt)
  have "unat (x + w) = unat x + unat w - 2 ^ 32"
    using assms(5) unat_u32 [of x] unat_u32 [of w] by (simp add: unat_word_ariths mod_if)
  then have "unat (x + w) < unat x" using unat_u32 [of w] assms(5) by simp
  then have w: "\<not> x + w > g_width s" "w \<noteq> 0" using b(1) assms(5) unat_u32 [of x] by (auto simp: word_less_nat_alt)
  let ?h = "if y + h > g_height s then g_height s - y else h"
  have "unat ?h > 0" unfolding clip_side [OF b(2) assms(7)] using b(2) assms(4) by (simp add: unat_gt_0)
  then obtain n where n: "unat ?h = Suc n" using gr0_implies_Suc by blast
  have "fill_row v (ptr s) (pixel_at s x y) (unat w) = None" for v
    unfolding pixel_at_nat [OF assms(1) b(3,2)] using assms(5,6) pixel_bound [OF assms(1) b(3,2)] by (intro fill_row_nat_None) linarith+
  then show ?thesis
    using assms(2-4) w n by (simp add: gfx_fillrect_def fillrect_def not_le [symmetric] Let_def bind_eq_None_conv)
qed

lemma gfx_clear_paints:
  assumes "surface_wf s" "\<not> g_flush s"
  shows "\<exists>s'. gfx_clear s c = Some s' \<and>
     paints s (\<lambda>a b. a < unat (g_width s) \<and> b < unat (g_height s)) (\<lambda>_ _. fill_stored s c) s'"
proof -
  have b: "unat (0 :: u32) < unat (g_stride s)" "unat (0 :: u32) < unat (g_height s)"
    "unat (0 :: u32) + unat (g_width s) \<le> unat (g_stride s)" "unat (0 :: u32) + unat (g_height s) \<le> unat (g_height s)"
    using surface_wf_stride [OF assms(1)] assms(1) by (auto simp: surface_wf_def word_less_nat_alt)
  from fillrect_paints [OF assms(1) b, of c]
  obtain s' where s': "fillrect s 0 0 (g_width s) (g_height s) c = Some s'"
    "paints s (\<lambda>a b. a < unat (g_width s) \<and> b < unat (g_height s)) (\<lambda>_ _. fill_stored s c) s'" by auto
  then have "gfx_clear s c = Some s'" using assms(2) paints_frame(7) [OF s'(2)] by (simp add: gfx_clear_def)
  with s'(2) show ?thesis by blast
qed

section \<open>Copying rectangles\<close>

text \<open>\<open>rect_inside s x y w h\<close>: a rectangle with at least one pixel that lies on the visible surface.\<close>

definition rect_inside :: "gfx_surface \<Rightarrow> u32 \<Rightarrow> u32 \<Rightarrow> u32 \<Rightarrow> u32 \<Rightarrow> bool" where
  "rect_inside s x y w h \<longleftrightarrow> 0 < w \<and> 0 < h \<and> unat x + unat w \<le> unat (g_width s) \<and> unat y + unat h \<le> unat (g_height s)"

lemma rect_inside_bounds:
  assumes "surface_wf s" "rect_inside s x y w h"
  shows "unat x < unat (g_stride s)" "unat y < unat (g_height s)" "unat x + unat w \<le> unat (g_stride s)"
    "unat y + unat h \<le> unat (g_height s)" "0 < unat w" "0 < unat h"
proof -
  have "0 < unat w" "0 < unat h" using assms(2) by (simp_all add: rect_inside_def word_less_nat_alt)
  then show "unat x < unat (g_stride s)" "unat y < unat (g_height s)" "unat x + unat w \<le> unat (g_stride s)"
    "unat y + unat h \<le> unat (g_height s)" "0 < unat w" "0 < unat h"
    using assms(2) surface_wf_stride [OF assms(1)] by (auto simp: rect_inside_def)
qed

lemma no_clip: "unat (x :: u32) + unat w \<le> unat W \<Longrightarrow> \<not> x + w > W"
  using unat_u32 [of W] unat_sum_small [of x w] by (simp add: word_less_nat_alt)

lemma gfx_copyrect_inside:
  assumes "rect_inside s x y w h" "rect_inside s x2 y2 w h"
  shows "gfx_copyrect s x y w h x2 y2 = copyrect s x y w h x2 y2"
proof -
  have "\<not> x + w > g_width s" "\<not> x2 + w > g_width s" "\<not> y + h > g_height s" "\<not> y2 + h > g_height s"
    using assms by (simp_all add: rect_inside_def no_clip)
  moreover have "\<not> x \<ge> g_width s" "\<not> x2 \<ge> g_width s" "\<not> y \<ge> g_height s" "\<not> y2 \<ge> g_height s" "w \<noteq> 0" "h \<noteq> 0"
    using assms by (auto simp: rect_inside_def word_le_nat_alt word_less_nat_alt)
  ultimately show ?thesis by (simp add: gfx_copyrect_def)
qed

lemma shifted_index:
  assumes "0 < st" "x2 \<le> i mod st" "y2 \<le> i div st"
  shows "int i + (int (x + y * st) - int (x2 + y2 * st)) = int ((i mod st + x - x2) + (i div st + y - y2) * st)"
proof -
  obtain a b where ab: "i mod st = x2 + a" "i div st = y2 + b"
    using assms(2,3) by (auto simp: le_iff_add)
  then have i: "i = (x2 + a) + (y2 + b) * st" using div_mult_mod_eq [of i st] by simp
  show ?thesis unfolding ab by (subst i) (simp add: algebra_simps)
qed

lemma copyrect_up:
  assumes wf: "surface_wf s" and src: "rect_inside s x y w h" and dest: "rect_inside s x2 y2 w h"
    and before: "unat x2 + unat y2 * unat (g_stride s) < unat x + unat y * unat (g_stride s)"
  shows "\<exists>s'. gfx_copyrect s x y w h x2 y2 = Some s' \<and>
     paints s (\<lambda>a b. unat x2 \<le> a \<and> a < unat x2 + unat w \<and> unat y2 \<le> b \<and> b < unat y2 + unat h)
       (\<lambda>a b. pixel s (a + unat x - unat x2) (b + unat y - unat y2)) s'" (is "\<exists>s'. _ \<and> paints s ?R ?v s'")
proof -
  let ?st = "unat (g_stride s)" and ?s = "int (unat x + unat y * unat (g_stride s))" and ?d = "int (unat x2 + unat y2 * unat (g_stride s))"
  note bs = rect_inside_bounds [OF wf src] and bd = rect_inside_bounds [OF wf dest]
  note gap = row_gap [OF bs(3)]
  have fits: "unat h > 0 \<Longrightarrow> ?s + int (unat h - 1) * (int (unat w) + uint (g_stride s - w)) + int (unat w) \<le> int (length (ptr s))"
    unfolding gap using rect_fits [OF wf bs(3) _ bs(4)] .
  have lt: "?d < ?s" using before by (simp only: of_nat_less_iff)
  obtain px where px: "copy_rows 1 (unat w) (uint (g_stride s - w)) (ptr s) ?s ?d (unat h) = Some px" "length px = length (ptr s)"
    "\<forall>i<length (ptr s). px ! i = (if in_rows (int ?st) (unat w) (unat h) ?d (int i) then ptr s ! nat (int i + (?s - ?d)) else ptr s ! i)"
    using copy_rows_forward [OF of_nat_0_le_iff lt uint_ge_0 fits] unfolding gap by blast
  have st: "0 < ?st" using bs(1) by simp
  note rect = in_rows_rect [OF bd(3) st, of "unat h" "unat y2"]
  have "ptr s ! nat (int i + (?s - ?d)) = ?v (i mod ?st) (i div ?st)" if "?R (i mod ?st) (i div ?st)" for i
    unfolding pixel_def by (subst shifted_index [OF st]) (use that in \<open>simp_all only: nat_int\<close>)
  then have "paints s ?R ?v (s\<lparr>ptr := px\<rparr>)"
    unfolding paints_def Let_def using px(2,3) rect by (intro exI [of _ px]) simp
  moreover have "gfx_copyrect s x y w h x2 y2 = Some (s\<lparr>ptr := px\<rparr>)"
    using px(1) lt unfolding gfx_copyrect_inside [OF src dest] copyrect_def pixel_at_nat [OF wf bs(1,2)] pixel_at_nat [OF wf bd(1,2)] Let_def
    by (simp only: if_True bind.bind_lunit)
  ultimately show ?thesis by blast
qed

text \<open>
  To the same or a higher address the copy starts one line and one pixel past the end, so it
  moves the rectangle that lies one line below and one pixel to the right of the one meant.
\<close>

lemma skip_nat:
  assumes "unat h * unat (g_stride s) + unat w < 2 ^ 32"
  shows "uint (h * g_stride s + w) = int (unat h * unat (g_stride s) + unat w)"
proof -
  have "unat h * unat (g_stride s) < 2 ^ 32" using assms by linarith
  then have m: "unat (h * g_stride s) = unat h * unat (g_stride s)" by (simp add: unat_mult_lem [THEN iffD1])
  then have "unat (h * g_stride s + w) = unat h * unat (g_stride s) + unat w" using assms unat_sum_small [of "h * g_stride s" w] by simp
  then show ?thesis by (simp only: uint_nat)
qed

lemma copyrect_down:
  assumes wf: "surface_wf s" and src: "rect_inside s x y w h" and dest: "rect_inside s x2 y2 w h"
    and after: "unat x + unat y * unat (g_stride s) \<le> unat x2 + unat y2 * unat (g_stride s)"
    and room: "unat x2 + unat w < unat (g_stride s)" "unat y2 + unat h < unat (g_height s)"
  shows "\<exists>s'. gfx_copyrect s x y w h x2 y2 = Some s' \<and>
     paints s (\<lambda>a b. unat x2 + 1 \<le> a \<and> a < unat x2 + 1 + unat w \<and> unat y2 + 1 \<le> b \<and> b < unat y2 + 1 + unat h)
       (\<lambda>a b. pixel s (a + unat x - unat x2) (b + unat y - unat y2)) s'" (is "\<exists>s'. _ \<and> paints s ?R ?v s'")
proof -
  let ?st = "unat (g_stride s)" and ?s = "int (unat x + unat y * unat (g_stride s))" and ?d = "int (unat x2 + unat y2 * unat (g_stride s))"
  let ?S = "int (unat x + 1 + (unat y + 1) * ?st)" and ?D = "int (unat x2 + 1 + (unat y2 + 1) * ?st)"
  note bs = rect_inside_bounds [OF wf src] and bd = rect_inside_bounds [OF wf dest]
  note gap = row_gap [OF bs(3)]
  have right: "unat x2 + 1 + unat w \<le> ?st" and low: "unat y2 + 1 + unat h \<le> unat (g_height s)" using room by simp_all
  have fits: "unat h > 0 \<Longrightarrow> ?D + int (unat h - 1) * (int (unat w) + uint (g_stride s - w)) + int (unat w) \<le> int (length (ptr s))"
    unfolding gap using rect_fits [OF wf right _ low] .
  have le: "?S \<le> ?D" unfolding of_nat_le_iff using after by (simp add: algebra_simps)
  have "(unat h + 1) * ?st \<le> unat (g_height s) * ?st" using room(2) by (intro mult_right_mono) auto
  then have "unat h * ?st + unat w < 2 ^ 32" using wf bs(3) by (simp add: surface_wf_def)
  note skip = skip_nat [OF this]
  have ptrs: "?s + int (unat h * ?st + unat w) = ?S + (int (unat h) - 1) * int ?st + int (unat w) - 1"
    "?d + int (unat h * ?st + unat w) = ?D + (int (unat h) - 1) * int ?st + int (unat w) - 1"
    by (simp_all add: algebra_simps)
  obtain px where px: "copy_rows (- 1) (unat w) (uint (g_stride s - w)) (ptr s) (?s + int (unat h * ?st + unat w)) (?d + int (unat h * ?st + unat w)) (unat h) = Some px"
    "length px = length (ptr s)"
    "\<forall>i<length (ptr s). px ! i = (if in_rows (int ?st) (unat w) (unat h) ?D (int i) then ptr s ! nat (int i - (?D - ?S)) else ptr s ! i)"
    using copy_rows_backward [OF of_nat_0_le_iff le uint_ge_0 fits] unfolding gap ptrs by blast
  have st: "0 < ?st" using bs(1) by simp
  note rect = in_rows_rect [OF right st, of "unat h" "unat y2 + 1"]
  have "ptr s ! nat (int i - (?D - ?S)) = ?v (i mod ?st) (i div ?st)" if "?R (i mod ?st) (i div ?st)" for i
  proof -
    have "int i - (?D - ?S) = int i + (?s - ?d)" by (simp add: algebra_simps)
    then show ?thesis unfolding pixel_def by (simp only:) (subst shifted_index [OF st], use that in \<open>simp_all only: nat_int\<close>, simp_all)
  qed
  then have "paints s ?R ?v (s\<lparr>ptr := px\<rparr>)"
    unfolding paints_def Let_def using px(2,3) rect by (intro exI [of _ px]) simp
  moreover have "\<not> ?d < ?s" using after by (simp only: of_nat_less_iff not_less)
  then have "gfx_copyrect s x y w h x2 y2 = Some (s\<lparr>ptr := px\<rparr>)"
    using px(1) unfolding gfx_copyrect_inside [OF src dest] copyrect_def pixel_at_nat [OF wf bs(1,2)] pixel_at_nat [OF wf bd(1,2)] Let_def skip
    by (simp only: if_False bind.bind_lunit)
  ultimately show ?thesis by blast
qed

text \<open>When the rectangle reaches the last line of the memory, its first access is out of bounds.\<close>

lemma copyrect_last_line:
  assumes wf: "surface_wf s" and src: "rect_inside s x y w h" and dest: "rect_inside s x2 y2 w h"
    and after: "unat x + unat y * unat (g_stride s) \<le> unat x2 + unat y2 * unat (g_stride s)"
    and last: "unat y2 + unat h = unat (g_height s)" "length (ptr s) = unat (g_height s) * unat (g_stride s)"
    and nowrap: "unat h * unat (g_stride s) + unat w < 2 ^ 32"
  shows "gfx_copyrect s x y w h x2 y2 = None"
proof -
  let ?st = "unat (g_stride s)" and ?d = "int (unat x2 + unat y2 * unat (g_stride s))"
  note bs = rect_inside_bounds [OF wf src] and bd = rect_inside_bounds [OF wf dest] and skip = skip_nat [OF nowrap]
  obtain m n where mn: "unat w = Suc m" "unat h = Suc n" using bs(5,6) gr0_implies_Suc by metis
  have "length (ptr s) \<le> unat x2 + unat y2 * ?st + (unat h * ?st + unat w)"
    unfolding last(2) last(1) [symmetric] by (simp add: algebra_simps)
  then have "\<not> ?d + int (unat h * ?st + unat w) < int (length (ptr s))"
    unfolding of_nat_add [symmetric] by (simp only: of_nat_less_iff not_less)
  then have poke: "poke (ptr s) (?d + int (unat h * ?st + unat w)) v = None" for v by (simp only: poke_def simp_thms if_False)
  have none: "copy_rows (- 1) (unat w) diff (ptr s) a (?d + int (unat h * ?st + unat w)) (unat h) = None" for diff a
    using poke unfolding mn by (simp add: bind_eq_None_conv)
  have "\<not> ?d < int (unat x + unat y * ?st)" using after by (simp only: of_nat_less_iff not_less)
  then show ?thesis
    unfolding gfx_copyrect_inside [OF src dest] copyrect_def pixel_at_nat [OF wf bs(1,2)] pixel_at_nat [OF wf bd(1,2)] Let_def skip
    by (simp only: if_False none bind.bind_lzero)
qed

section \<open>Creation and flushing\<close>

lemma format_ops_translate: "format_ops f = Some (tr, ops, sz) \<Longrightarrow> ops = Pixel32 \<or> tr \<noteq> None"
  by (cases f) auto

lemma gfx_create_surface_wf:
  assumes "gfx_create_surface alloc p width height stride format = Some s"
    and "unat height * unat stride < 2 ^ 32" "unat height * unat stride \<le> length (ptr s)"
  shows "surface_wf s \<and> g_width s = width \<and> g_height s = height \<and> g_stride s = stride \<and> \<not> g_flush s"
proof -
  from assms(1) obtain tr ops sz where f: "format_ops format = Some (tr, ops, sz)"
    and "width \<noteq> 0" "height \<noteq> 0" "width \<le> stride" "g_width s = width" "g_height s = height" "g_stride s = stride"
    "g_ops s = ops" "translate_color s = tr" "\<not> g_flush s"
    by (auto simp: gfx_create_surface_def bind_eq_Some_conv Let_def not_less split: if_splits option.splits)
  then show ?thesis using assms(2,3) format_ops_translate [OF f] by (auto simp: surface_wf_def word_neq_0_conv)
qed

section \<open>Where a line goes\<close>

text \<open>The minor coordinate after \<open>j\<close> steps, and the point the loop is at.\<close>

definition line_at :: "nat \<Rightarrow> nat \<Rightarrow> u32 \<Rightarrow> u32 \<Rightarrow> nat \<Rightarrow> u32 \<Rightarrow> u32 \<Rightarrow> nat \<Rightarrow> u32 \<times> u32" where
  "line_at dp dq sp sq e p q j = (p + of_nat j * sp, q + of_nat ((e + j * dq) div dp) * sq)"

lemma line_at_step:
  assumes "0 < dp" "e < dp" "dq \<le> dp"
  shows "line_at dp dq sp sq e p q (Suc j) =
     line_at dp dq sp sq ((e + dq) mod dp) (p + sp) (q + of_nat ((e + dq) div dp) * sq) j"
proof -
  have "e + Suc j * dq = ((e + dq) mod dp + j * dq) + ((e + dq) div dp) * dp"
    using div_mult_mod_eq [of "e + dq" dp] by simp
  then have "(e + Suc j * dq) div dp = (((e + dq) mod dp + j * dq) + ((e + dq) div dp) * dp) div dp" by (rule arg_cong)
  also have "\<dots> = (e + dq) div dp + ((e + dq) mod dp + j * dq) div dp" using assms(1) by (simp only: div_mult_self1 neq0_conv)
  finally show ?thesis unfolding line_at_def by (simp add: algebra_simps)
qed

lemma error_step:
  assumes "unat (e :: u32) < unat dp" "unat dq \<le> unat dp" "unat dp < 2 ^ 31"
  shows "(if e + dq \<ge> dp then (e + dq - dp, q + sq) else (e + dq, q)) = (e', q') \<Longrightarrow>
     unat e' = (unat e + unat dq) mod unat dp \<and> q' = q + of_nat ((unat e + unat dq) div unat dp) * sq"
proof -
  assume st: "(if e + dq \<ge> dp then (e + dq - dp, q + sq) else (e + dq, q)) = (e', q')"
  have sum: "unat (e + dq) = unat e + unat dq" using assms by (intro unat_sum_small) simp
  show ?thesis
  proof (cases "e + dq \<ge> dp")
    case True
    then have ge: "unat dp \<le> unat e + unat dq" using sum by (simp add: word_le_nat_alt)
    have "unat (e + dq - dp) = unat e + unat dq - unat dp" using True sum by (simp add: unat_sub)
    moreover have "(unat e + unat dq) div unat dp = 1" "(unat e + unat dq) mod unat dp = unat e + unat dq - unat dp"
      using ge assms(1,2) by (simp_all add: div_nat_eqI le_mod_geq)
    ultimately show ?thesis using st True by auto
  next
    case False
    then have "unat e + unat dq < unat dp" using sum by (simp add: word_le_nat_alt)
    then show ?thesis using st False sum by auto
  qed
qed

text \<open>\<open>put\<close> paints one pixel wherever the point lies on the surface.\<close>

definition draws_point :: "(u32 \<Rightarrow> u32 \<Rightarrow> gfx_surface \<Rightarrow> gfx_surface option) \<Rightarrow> (u32 \<Rightarrow> u32 \<Rightarrow> nat \<times> nat) \<Rightarrow> u32 \<Rightarrow> bool" where
  "draws_point put pos c \<longleftrightarrow>
     (\<forall>s p q. surface_wf s \<and> fst (pos p q) < unat (g_width s) \<and> snd (pos p q) < unat (g_height s) \<longrightarrow>
        (\<exists>s'. put p q s = Some s' \<and> paints s (\<lambda>a b. (a, b) = pos p q) (\<lambda>_ _. stored s c) s'))"

lemma ex_from_one: "(\<exists>j. 1 \<le> j \<and> j \<le> Suc n \<and> P j) \<longleftrightarrow> P 1 \<or> (\<exists>j. 1 \<le> j \<and> j \<le> n \<and> P (Suc j))"
proof
  assume "\<exists>j. 1 \<le> j \<and> j \<le> Suc n \<and> P j"
  then obtain j where j: "1 \<le> j" "j \<le> Suc n" "P j" by blast
  then obtain i where "j = Suc i" by (cases j) auto
  then show "P 1 \<or> (\<exists>j. 1 \<le> j \<and> j \<le> n \<and> P (Suc j))" using j by (cases i) auto
qed auto

lemma line_loop_paints:
  assumes put: "draws_point put pos c" and wf: "surface_wf s"
    and e: "0 < n \<Longrightarrow> unat e < unat dp" and d: "unat dq \<le> unat dp" "unat dp < 2 ^ 31"
    and on: "\<And>j. 1 \<le> j \<Longrightarrow> j \<le> n \<Longrightarrow>
      (case line_at (unat dp) (unat dq) sp sq (unat e) p q j of (p', q') \<Rightarrow>
         fst (pos p' q') < unat (g_width s) \<and> snd (pos p' q') < unat (g_height s))"
  shows "\<exists>s'. line_loop put dp dq sp sq e p q n s = Some s' \<and>
     paints s (\<lambda>a b. \<exists>j. 1 \<le> j \<and> j \<le> n \<and>
       (a, b) = (case line_at (unat dp) (unat dq) sp sq (unat e) p q j of (p', q') \<Rightarrow> pos p' q')) (\<lambda>_ _. stored s c) s'"
  using wf e on
proof (induction n arbitrary: s e p q)
  case 0
  then show ?case by (auto intro: paints_none)
next
  case (Suc n)
  obtain e2 q' where st: "(if e + dq \<ge> dp then (e + dq - dp, q + sq) else (e + dq, q)) = (e2, q')" by fastforce
  have lt: "unat e < unat dp" using Suc.prems(2) by simp
  note es = error_step [OF lt d st]
  let ?at = "\<lambda>j. line_at (unat dp) (unat dq) sp sq (unat e) p q j"
  have step: "?at (Suc j) = line_at (unat dp) (unat dq) sp sq (unat e2) (p + sp) q' j" for j
    using line_at_step [of "unat dp" "unat e" "unat dq"] lt d es by simp
  have "?at 1 = (p + sp, q')" using step [of 0] lt es by (simp add: line_at_def)
  with Suc.prems(3) [of 1] have "fst (pos (p + sp) q') < unat (g_width s)" "snd (pos (p + sp) q') < unat (g_height s)" by auto
  then obtain s1 where s1: "put (p + sp) q' s = Some s1" "paints s (\<lambda>a b. (a, b) = pos (p + sp) q') (\<lambda>_ _. stored s c) s1"
    using put Suc.prems(1) unfolding draws_point_def by blast
  note fr = paints_frame [OF s1(2)]
  have "unat e2 < unat dp" using es lt by simp
  moreover have "case line_at (unat dp) (unat dq) sp sq (unat e2) (p + sp) q' j of (p', q') \<Rightarrow>
      fst (pos p' q') < unat (g_width s1) \<and> snd (pos p' q') < unat (g_height s1)" if "1 \<le> j" "j \<le> n" for j
    using Suc.prems(3) [of "Suc j"] that step fr by simp
  ultimately obtain s2 where s2: "line_loop put dp dq sp sq e2 (p + sp) q' n s1 = Some s2"
    "paints s1 (\<lambda>a b. \<exists>j. 1 \<le> j \<and> j \<le> n \<and> (a, b) = (case ?at (Suc j) of (p', q') \<Rightarrow> pos p' q')) (\<lambda>_ _. stored s1 c) s2"
    using Suc.IH [of s1 e2 "p + sp" q'] paints_wf [OF s1(2) Suc.prems(1)] unfolding step by blast
  have "line_loop put dp dq sp sq e p q (Suc n) s = Some s2" using st s1(1) s2(1) by simp
  moreover have "paints s (\<lambda>a b. \<exists>j. 1 \<le> j \<and> j \<le> Suc n \<and> (a, b) = (case ?at j of (p', q') \<Rightarrow> pos p' q')) (\<lambda>_ _. stored s c) s2"
    by (rule paints_cong [OF paints_trans [OF s1(2) s2(2)]])
       (auto simp: ex_from_one \<open>?at 1 = (p + sp, q')\<close> paints_stored [OF s1(2)] simp del: One_nat_def)
  ultimately show ?case by blast
qed

text \<open>From \<open>p\<close> towards \<open>q\<close> in steps of one, and the distance between them.\<close>

definition towards :: "nat \<Rightarrow> nat \<Rightarrow> nat \<Rightarrow> nat" where
  "towards p q j = (if p \<le> q then p + j else p - j)"

definition dist :: "nat \<Rightarrow> nat \<Rightarrow> nat" where
  "dist p q = (if p \<le> q then q - p else p - q)"

lemma towards_between: "j \<le> dist p q \<Longrightarrow> p < n \<Longrightarrow> q < n \<Longrightarrow> towards p q j < n"
  by (auto simp: towards_def dist_def split: if_splits)

lemma towards_end [simp]: "towards p q (dist p q) = q"
  by (auto simp: towards_def dist_def)

lemma sint_diff:
  assumes "unat (p :: u32) < 2 ^ 31" "unat q < 2 ^ 31"
  shows "sint (q - p) = int (unat q) - int (unat p)"
proof -
  have "q - p = word_of_int (int (unat q) - int (unat p))" by simp
  then have "sint (q - p) = signed_take_bit 31 (int (unat q) - int (unat p))"
    by (simp only: signed_of_int) simp
  also have "\<dots> = int (unat q) - int (unat p)" using assms by (intro signed_take_bit_int_eq_self) (simp_all del: of_nat_unat)
  finally show ?thesis .
qed

lemma step_towards:
  assumes "unat (p :: u32) < 2 ^ 31" "unat q < 2 ^ 31"
  shows "unat (step_abs (q - p)) = dist (unat p) (unat q)"
    and "j \<le> dist (unat p) (unat q) \<Longrightarrow> unat (p + of_nat j * step_sign (q - p)) = towards (unat p) (unat q) j"
proof -
  note sd = sint_diff [OF assms]
  have sub: "unat (a - b) = unat a - unat b" if "unat b \<le> unat a" for a b :: u32
    using that by (intro unat_sub) (simp add: word_le_nat_alt)
  show "unat (step_abs (q - p)) = dist (unat p) (unat q)"
    using sd sub by (auto simp: step_abs_def dist_def simp del: of_nat_unat)
  assume j: "j \<le> dist (unat p) (unat q)"
  have small: "j < 2 ^ 31" "unat (of_nat j :: u32) = j"
    using j assms by (auto simp: dist_def unat_of_nat take_bit_nat_eq_self split: if_splits)
  show "unat (p + of_nat j * step_sign (q - p)) = towards (unat p) (unat q) j"
  proof (cases "unat p < unat q")
    case True
    then have "unat (p + of_nat j) = unat p + j" using j assms small by (subst unat_sum_small) (auto simp: dist_def)
    then show ?thesis using True sd by (simp add: step_sign_def towards_def del: of_nat_unat)
  next
    case False
    show ?thesis
    proof (cases "unat p = unat q")
      case True
      then show ?thesis using j by (simp add: step_sign_def towards_def dist_def)
    next
      case ne: False
      then have "unat (p - of_nat j) = unat p - j" using sub [of "of_nat j" p] j small False by (auto simp: dist_def)
      then show ?thesis using False ne sd by (simp add: step_sign_def towards_def del: of_nat_unat)
    qed
  qed
qed

text \<open>The points of a line, in the order they are drawn; point 0 is the start.\<close>

definition line_point :: "nat \<Rightarrow> nat \<Rightarrow> nat \<Rightarrow> nat \<Rightarrow> nat \<Rightarrow> nat \<times> nat" where
  "line_point x1 y1 x2 y2 j =
     (let dx = dist x1 x2; dy = dist y1 y2 in
      if dx \<ge> dy then (towards x1 x2 j, towards y1 y2 ((dx div 2 + j * dy) div dx))
      else (towards x1 x2 ((dy div 2 + j * dx) div dy), towards y1 y2 j))"

lemma minor_steps:
  assumes "0 < (a :: nat)" "j \<le> a"
  shows "(a div 2 + j * b) div a \<le> b" "(a div 2 + a * b) div a = b"
proof -
  have "j * b \<le> a * b" using assms(2) by simp
  moreover have "a div 2 < a" using assms(1) by simp
  ultimately have "a div 2 + j * b < a * Suc b" by (simp only: mult_Suc_right)
  then show "(a div 2 + j * b) div a \<le> b" using assms(1) by (simp only: div_less_iff_less_mult mult.commute less_Suc_eq_le [symmetric])
  show "(a div 2 + a * b) div a = b" using \<open>a div 2 < a\<close> by simp
qed

lemma line_point_end:
  "dist x1 x2 \<noteq> 0 \<or> dist y1 y2 \<noteq> 0 \<Longrightarrow> line_point x1 y1 x2 y2 (max (dist x1 x2) (dist y1 y2)) = (x2, y2)"
  by (auto simp: line_point_def Let_def minor_steps(2) max_def)

lemma line_point_start:
  assumes "1 \<le> j" "j \<le> max (dist x1 x2) (dist y1 y2)"
  shows "(x1, y1) \<noteq> line_point x1 y1 x2 y2 j"
proof -
  have step: "p = towards p q j \<longleftrightarrow> False" if "j \<le> dist p q" for p q
    using assms(1) that by (auto simp: towards_def dist_def split: if_splits)
  show ?thesis
  proof (cases "dist x1 x2 \<ge> dist y1 y2")
    case True
    then show ?thesis using assms(2) step [of x1 x2] by (simp add: line_point_def Let_def)
  next
    case False
    then show ?thesis using assms(2) step [of y1 y2] by (simp add: line_point_def Let_def)
  qed
qed

lemma line_axis:
  assumes wf: "surface_wf s" and put: "draws_point put (\<lambda>p q. P (unat p) (unat q)) c"
    and small: "unat p1 < 2 ^ 31" "unat p2 < 2 ^ 31" "unat q1 < 2 ^ 31" "unat q2 < 2 ^ 31"
    and major: "dist (unat q1) (unat q2) \<le> dist (unat p1) (unat p2)"
    and on: "\<And>j k. j \<le> dist (unat p1) (unat p2) \<Longrightarrow> k \<le> dist (unat q1) (unat q2) \<Longrightarrow>
      fst (P (towards (unat p1) (unat p2) j) (towards (unat q1) (unat q2) k)) < unat (g_width s) \<and>
      snd (P (towards (unat p1) (unat p2) j) (towards (unat q1) (unat q2) k)) < unat (g_height s)"
  shows "\<exists>s'. line_loop put (step_abs (p2 - p1)) (step_abs (q2 - q1)) (step_sign (p2 - p1)) (step_sign (q2 - q1))
       (drop_bit 1 (step_abs (p2 - p1))) p1 q1 (unat (step_abs (p2 - p1))) s = Some s' \<and>
     paints s (\<lambda>a b. \<exists>j. 1 \<le> j \<and> j \<le> dist (unat p1) (unat p2) \<and>
       (a, b) = P (towards (unat p1) (unat p2) j) (towards (unat q1) (unat q2)
         ((dist (unat p1) (unat p2) div 2 + j * dist (unat q1) (unat q2)) div dist (unat p1) (unat p2)))) (\<lambda>_ _. stored s c) s'"
proof -
  let ?dp = "dist (unat p1) (unat p2)" and ?dq = "dist (unat q1) (unat q2)"
  let ?k = "\<lambda>j. (?dp div 2 + j * ?dq) div ?dp"
  let ?at = "\<lambda>j. line_at (unat (step_abs (p2 - p1))) (unat (step_abs (q2 - q1))) (step_sign (p2 - p1)) (step_sign (q2 - q1))
    (unat (drop_bit 1 (step_abs (p2 - p1)))) p1 q1 j"
  note tp = step_towards [OF small(1,2)] and tq = step_towards [OF small(3,4)]
  have half: "unat (drop_bit 1 (step_abs (p2 - p1))) = ?dp div 2" by (simp add: drop_bit_Suc unat_div tp(1))
  have d31: "?dp < 2 ^ 31" using small by (auto simp: dist_def)
  have at: "(case ?at j of (p, q) \<Rightarrow> P (unat p) (unat q)) = P (towards (unat p1) (unat p2) j) (towards (unat q1) (unat q2) (?k j))"
    and k: "?k j \<le> ?dq" if "1 \<le> j" "j \<le> ?dp" for j
  proof -
    show k: "?k j \<le> ?dq" using that by (intro minor_steps(1)) auto
    show "(case ?at j of (p, q) \<Rightarrow> P (unat p) (unat q)) = P (towards (unat p1) (unat p2) j) (towards (unat q1) (unat q2) (?k j))"
      by (simp only: line_at_def half tp(1) tq(1) prod.case tp(2) [OF that(2)] tq(2) [OF k])
  qed
  have on': "case ?at j of (p, q) \<Rightarrow> fst (P (unat p) (unat q)) < unat (g_width s) \<and> snd (P (unat p) (unat q)) < unat (g_height s)"
    if "1 \<le> j" "j \<le> unat (step_abs (p2 - p1))" for j
    using at [of j] on [of j "?k j"] k [of j] that by (auto simp: tp(1) split: prod.splits)
  have "0 < unat (step_abs (p2 - p1)) \<Longrightarrow> unat (drop_bit 1 (step_abs (p2 - p1))) < unat (step_abs (p2 - p1))"
    using half by (simp add: tp(1))
  from line_loop_paints [OF put wf this _ _ on'] major d31
  obtain s' where s': "line_loop put (step_abs (p2 - p1)) (step_abs (q2 - q1)) (step_sign (p2 - p1)) (step_sign (q2 - q1))
       (drop_bit 1 (step_abs (p2 - p1))) p1 q1 (unat (step_abs (p2 - p1))) s = Some s'"
    "paints s (\<lambda>a b. \<exists>j. 1 \<le> j \<and> j \<le> ?dp \<and> (a, b) = (case ?at j of (p, q) \<Rightarrow> P (unat p) (unat q))) (\<lambda>_ _. stored s c) s'"
    unfolding tp(1) tq(1) by auto
  have "(\<exists>j. 1 \<le> j \<and> j \<le> ?dp \<and> (a, b) = (case ?at j of (p, q) \<Rightarrow> P (unat p) (unat q))) \<longleftrightarrow>
      (\<exists>j. 1 \<le> j \<and> j \<le> ?dp \<and> (a, b) = P (towards (unat p1) (unat p2) j) (towards (unat q1) (unat q2) (?k j)))" for a b
    by (intro ex_cong1 conj_cong refl) (simp only: at)
  then show ?thesis using s' by (simp only:) blast
qed

lemma gfx_line_paints:
  assumes wf: "surface_wf s" and sz: "unat (g_width s) \<le> 2 ^ 31" "unat (g_height s) \<le> 2 ^ 31"
    and on: "unat x1 < unat (g_width s)" "unat x2 < unat (g_width s)" "unat y1 < unat (g_height s)" "unat y2 < unat (g_height s)"
  shows "\<exists>s'. gfx_line s x1 y1 x2 y2 c = Some s' \<and>
     paints s (\<lambda>a b. \<exists>j. 1 \<le> j \<and> j \<le> max (dist (unat x1) (unat x2)) (dist (unat y1) (unat y2)) \<and>
       (a, b) = line_point (unat x1) (unat y1) (unat x2) (unat y2) j) (\<lambda>_ _. stored s c) s'"
proof -
  let ?dx = "dist (unat x1) (unat x2)" and ?dy = "dist (unat y1) (unat y2)"
  have small: "unat x1 < 2 ^ 31" "unat x2 < 2 ^ 31" "unat y1 < 2 ^ 31" "unat y2 < 2 ^ 31" using on sz by linarith+
  note bnd = towards_between [OF _ on(1,2)] and bnd' = towards_between [OF _ on(3,4)]
  have wd: "unat (g_width s) \<le> unat (g_stride s)" if "surface_wf s" for s using surface_wf_stride [OF that] by simp
  have guards: "\<not> x1 \<ge> g_width s" "\<not> x2 \<ge> g_width s" "\<not> y1 \<ge> g_height s" "\<not> y2 \<ge> g_height s" using on by (simp_all add: word_le_nat_alt)
  have side: "step_abs (x2 - x1) \<ge> step_abs (y2 - y1) \<longleftrightarrow> ?dx \<ge> ?dy"
    using step_towards(1) [OF small(1,2)] step_towards(1) [OF small(3,4)] by (simp add: word_le_nat_alt)
  show ?thesis
  proof (cases "?dx \<ge> ?dy")
    case True
    have "draws_point (\<lambda>px py s. putpixel s px py c) (\<lambda>p q. (unat p, unat q)) c"
      unfolding draws_point_def using putpixel_paints wd by fastforce
    from line_axis [OF wf this small True] True guards side bnd bnd' show ?thesis
      by (simp add: gfx_line_def Let_def line_point_def)
  next
    case False
    have "draws_point (\<lambda>py px s. putpixel s px py c) (\<lambda>q p. (unat p, unat q)) c"
      unfolding draws_point_def using putpixel_paints wd by fastforce
    from line_axis [OF wf this small(3,4,1,2)] False guards side bnd bnd' show ?thesis
      by (simp add: gfx_line_def Let_def line_point_def)
  qed
qed

end
