(* ===== verification/Font.thy ===== *)
theory Font
  imports Gfx
begin

text \<open>
  lib/font/font.c with the glyphs of font.h: 128 characters of 12 lines, 6 pixels to a line,
  the leftmost pixel in the lowest bit. A character is drawn over what is there: only the set
  bits of its glyph are painted.
\<close>

abbreviation FONT_X :: nat where "FONT_X \<equiv> 6"
abbreviation FONT_Y :: nat where "FONT_Y \<equiv> 12"

definition FONT :: "u8 list" where
  "FONT = [
   0x00, 0x00, 0x00, 0x00, 0x00, 0x00, 0x00, 0x00, 0x00, 0x00, 0x00, 0x00,
   0x00, 0x00, 0x00, 0x00, 0x00, 0x00, 0x00, 0x00, 0x00, 0x00, 0x00, 0x00,
   0x00, 0x00, 0x00, 0x00, 0x00, 0x00, 0x00, 0x00, 0x00, 0x00, 0x00, 0x00,
   0x00, 0x00, 0x00, 0x00, 0x00, 0x00, 0x00, 0x00, 0x00, 0x00, 0x00, 0x00,
   0x00, 0x00, 0x00, 0x00, 0x00, 0x00, 0x00, 0x00, 0x00, 0x00, 0x00, 0x00,
   0x00, 0x00, 0x00, 0x00, 0x00, 0x00, 0x00, 0x00, 0x00, 0x00, 0x00, 0x00,
   0x00, 0x00, 0x00, 0x00, 0x00, 0x00, 0x00, 0x00, 0x00, 0x00, 0x00, 0x00,
   0x00, 0x00, 0x00, 0x00, 0x00, 0x00, 0x00, 0x00, 0x00, 0x00, 0x00, 0x00,
   0x00, 0x00, 0x00, 0x00, 0x00, 0x00, 0x00, 0x00, 0x00, 0x00, 0x00, 0x00,
   0x00, 0x00, 0x00, 0x00, 0x00, 0x00, 0x00, 0x00, 0x00, 0x00, 0x00, 0x00,
   0x00, 0x00, 0x00, 0x00, 0x00, 0x00, 0x00, 0x00, 0x00, 0x00, 0x00, 0x00,
   0x00, 0x00, 0x00, 0x00, 0x00, 0x00, 0x00, 0x00, 0x00, 0x00, 0x00, 0x00,
   0x00, 0x00, 0x00, 0x00, 0x00, 0x00, 0x00, 0x00, 0x00, 0x00, 0x00, 0x00,
   0x00, 0x00, 0x00, 0x00, 0x00, 0x00, 0x00, 0x00, 0x00, 0x00, 0x00, 0x00,
   0x00, 0x00, 0x00, 0x00, 0x00, 0x00, 0x00, 0x00, 0x00, 0x00, 0x00, 0x00,
   0x00, 0x00, 0x00, 0x00, 0x00, 0x00, 0x00, 0x00, 0x00, 0x00, 0x00, 0x00,
   0x00, 0x00, 0x00, 0x00, 0x00, 0x00, 0x00, 0x00, 0x00, 0x00, 0x00, 0x00,
   0x00, 0x00, 0x00, 0x00, 0x00, 0x00, 0x00, 0x00, 0x00, 0x00, 0x00, 0x00,
   0x00, 0x00, 0x00, 0x00, 0x00, 0x00, 0x00, 0x00, 0x00, 0x00, 0x00, 0x00,
   0x00, 0x00, 0x00, 0x00, 0x00, 0x00, 0x00, 0x00, 0x00, 0x00, 0x00, 0x00,
   0x00, 0x00, 0x00, 0x00, 0x00, 0x00, 0x00, 0x00, 0x00, 0x00, 0x00, 0x00,
   0x00, 0x00, 0x00, 0x00, 0x00, 0x00, 0x00, 0x00, 0x00, 0x00, 0x00, 0x00,
   0x00, 0x00, 0x00, 0x00, 0x00, 0x00, 0x00, 0x00, 0x00, 0x00, 0x00, 0x00,
   0x00, 0x00, 0x00, 0x00, 0x00, 0x00, 0x00, 0x00, 0x00, 0x00, 0x00, 0x00,
   0x00, 0x00, 0x00, 0x00, 0x00, 0x00, 0x00, 0x00, 0x00, 0x00, 0x00, 0x00,
   0x00, 0x00, 0x00, 0x00, 0x00, 0x00, 0x00, 0x00, 0x00, 0x00, 0x00, 0x00,
   0x00, 0x00, 0x00, 0x00, 0x00, 0x00, 0x00, 0x00, 0x00, 0x00, 0x00, 0x00,
   0x00, 0x00, 0x00, 0x00, 0x00, 0x00, 0x00, 0x00, 0x00, 0x00, 0x00, 0x00,
   0x00, 0x00, 0x00, 0x00, 0x00, 0x00, 0x00, 0x00, 0x00, 0x00, 0x00, 0x00,
   0x00, 0x00, 0x00, 0x00, 0x00, 0x00, 0x00, 0x00, 0x00, 0x00, 0x00, 0x00,
   0x00, 0x00, 0x00, 0x00, 0x00, 0x00, 0x00, 0x00, 0x00, 0x00, 0x00, 0x00,
   0x00, 0x00, 0x00, 0x00, 0x00, 0x00, 0x00, 0x00, 0x00, 0x00, 0x00, 0x00,
   0x00, 0x00, 0x00, 0x00, 0x00, 0x00, 0x00, 0x00, 0x00, 0x00, 0x00, 0x00,
   0x00, 0x08, 0x08, 0x08, 0x08, 0x08, 0x08, 0x00, 0x08, 0x00, 0x00, 0x00,
   0x00, 0x14, 0x14, 0x14, 0x00, 0x00, 0x00, 0x00, 0x00, 0x00, 0x00, 0x00,
   0x00, 0x00, 0x14, 0x14, 0x3E, 0x14, 0x3E, 0x14, 0x14, 0x00, 0x00, 0x00,
   0x00, 0x00, 0x08, 0x3C, 0x0A, 0x1C, 0x28, 0x1E, 0x08, 0x00, 0x00, 0x00,
   0x00, 0x00, 0x06, 0x26, 0x10, 0x08, 0x04, 0x32, 0x30, 0x00, 0x00, 0x00,
   0x00, 0x00, 0x1C, 0x02, 0x02, 0x04, 0x2A, 0x12, 0x2C, 0x00, 0x00, 0x00,
   0x00, 0x18, 0x08, 0x04, 0x00, 0x00, 0x00, 0x00, 0x00, 0x00, 0x00, 0x00,
   0x20, 0x10, 0x10, 0x08, 0x08, 0x08, 0x08, 0x08, 0x10, 0x10, 0x20, 0x00,
   0x02, 0x04, 0x04, 0x08, 0x08, 0x08, 0x08, 0x08, 0x04, 0x04, 0x02, 0x00,
   0x00, 0x00, 0x00, 0x08, 0x2A, 0x1C, 0x2A, 0x08, 0x00, 0x00, 0x00, 0x00,
   0x00, 0x00, 0x00, 0x08, 0x08, 0x3E, 0x08, 0x08, 0x00, 0x00, 0x00, 0x00,
   0x00, 0x00, 0x00, 0x00, 0x00, 0x00, 0x00, 0x18, 0x18, 0x08, 0x04, 0x00,
   0x00, 0x00, 0x00, 0x00, 0x00, 0x3E, 0x00, 0x00, 0x00, 0x00, 0x00, 0x00,
   0x00, 0x00, 0x00, 0x00, 0x00, 0x00, 0x00, 0x18, 0x18, 0x00, 0x00, 0x00,
   0x20, 0x20, 0x10, 0x10, 0x08, 0x08, 0x04, 0x04, 0x02, 0x02, 0x00, 0x00,
   0x00, 0x1C, 0x22, 0x32, 0x2A, 0x26, 0x22, 0x22, 0x1C, 0x00, 0x00, 0x00,
   0x00, 0x08, 0x0C, 0x08, 0x08, 0x08, 0x08, 0x08, 0x08, 0x00, 0x00, 0x00,
   0x00, 0x1C, 0x22, 0x20, 0x10, 0x08, 0x04, 0x02, 0x3E, 0x00, 0x00, 0x00,
   0x00, 0x1C, 0x22, 0x20, 0x18, 0x20, 0x20, 0x22, 0x1C, 0x00, 0x00, 0x00,
   0x00, 0x10, 0x18, 0x18, 0x14, 0x14, 0x3E, 0x10, 0x38, 0x00, 0x00, 0x00,
   0x00, 0x3E, 0x02, 0x02, 0x1E, 0x20, 0x20, 0x22, 0x1C, 0x00, 0x00, 0x00,
   0x00, 0x18, 0x04, 0x02, 0x1E, 0x22, 0x22, 0x22, 0x1C, 0x00, 0x00, 0x00,
   0x00, 0x3E, 0x22, 0x20, 0x20, 0x10, 0x10, 0x08, 0x08, 0x00, 0x00, 0x00,
   0x00, 0x1C, 0x22, 0x22, 0x1C, 0x22, 0x22, 0x22, 0x1C, 0x00, 0x00, 0x00,
   0x00, 0x1C, 0x22, 0x22, 0x22, 0x3C, 0x20, 0x10, 0x0C, 0x00, 0x00, 0x00,
   0x00, 0x00, 0x00, 0x18, 0x18, 0x00, 0x00, 0x18, 0x18, 0x00, 0x00, 0x00,
   0x00, 0x00, 0x00, 0x18, 0x18, 0x00, 0x00, 0x18, 0x18, 0x08, 0x04, 0x00,
   0x00, 0x00, 0x00, 0x30, 0x0C, 0x03, 0x0C, 0x30, 0x00, 0x00, 0x00, 0x00,
   0x00, 0x00, 0x00, 0x00, 0x3E, 0x00, 0x3E, 0x00, 0x00, 0x00, 0x00, 0x00,
   0x00, 0x00, 0x00, 0x03, 0x0C, 0x30, 0x0C, 0x03, 0x00, 0x00, 0x00, 0x00,
   0x00, 0x1C, 0x22, 0x20, 0x10, 0x08, 0x08, 0x00, 0x08, 0x00, 0x00, 0x00,
   0x00, 0x00, 0x1C, 0x22, 0x3A, 0x3A, 0x1A, 0x02, 0x1C, 0x00, 0x00, 0x00,
   0x00, 0x00, 0x08, 0x14, 0x22, 0x22, 0x3E, 0x22, 0x22, 0x00, 0x00, 0x00,
   0x00, 0x00, 0x1E, 0x22, 0x22, 0x1E, 0x22, 0x22, 0x1E, 0x00, 0x00, 0x00,
   0x00, 0x00, 0x1C, 0x22, 0x02, 0x02, 0x02, 0x22, 0x1C, 0x00, 0x00, 0x00,
   0x00, 0x00, 0x0E, 0x12, 0x22, 0x22, 0x22, 0x12, 0x0E, 0x00, 0x00, 0x00,
   0x00, 0x00, 0x3E, 0x02, 0x02, 0x1E, 0x02, 0x02, 0x3E, 0x00, 0x00, 0x00,
   0x00, 0x00, 0x3E, 0x02, 0x02, 0x1E, 0x02, 0x02, 0x02, 0x00, 0x00, 0x00,
   0x00, 0x00, 0x1C, 0x22, 0x02, 0x32, 0x22, 0x22, 0x3C, 0x00, 0x00, 0x00,
   0x00, 0x00, 0x22, 0x22, 0x22, 0x3E, 0x22, 0x22, 0x22, 0x00, 0x00, 0x00,
   0x00, 0x00, 0x3E, 0x08, 0x08, 0x08, 0x08, 0x08, 0x3E, 0x00, 0x00, 0x00,
   0x00, 0x00, 0x38, 0x20, 0x20, 0x20, 0x22, 0x22, 0x1C, 0x00, 0x00, 0x00,
   0x00, 0x00, 0x22, 0x12, 0x0A, 0x06, 0x0A, 0x12, 0x22, 0x00, 0x00, 0x00,
   0x00, 0x00, 0x02, 0x02, 0x02, 0x02, 0x02, 0x02, 0x3E, 0x00, 0x00, 0x00,
   0x00, 0x00, 0x22, 0x36, 0x2A, 0x2A, 0x22, 0x22, 0x22, 0x00, 0x00, 0x00,
   0x00, 0x00, 0x22, 0x26, 0x26, 0x2A, 0x32, 0x32, 0x22, 0x00, 0x00, 0x00,
   0x00, 0x00, 0x1C, 0x22, 0x22, 0x22, 0x22, 0x22, 0x1C, 0x00, 0x00, 0x00,
   0x00, 0x00, 0x1E, 0x22, 0x22, 0x1E, 0x02, 0x02, 0x02, 0x00, 0x00, 0x00,
   0x00, 0x00, 0x1C, 0x22, 0x22, 0x22, 0x22, 0x22, 0x1C, 0x30, 0x00, 0x00,
   0x00, 0x00, 0x1E, 0x22, 0x22, 0x1E, 0x0A, 0x12, 0x22, 0x00, 0x00, 0x00,
   0x00, 0x00, 0x1C, 0x22, 0x02, 0x1C, 0x20, 0x22, 0x1C, 0x00, 0x00, 0x00,
   0x00, 0x00, 0x3E, 0x08, 0x08, 0x08, 0x08, 0x08, 0x08, 0x00, 0x00, 0x00,
   0x00, 0x00, 0x22, 0x22, 0x22, 0x22, 0x22, 0x22, 0x1C, 0x00, 0x00, 0x00,
   0x00, 0x00, 0x22, 0x22, 0x22, 0x14, 0x14, 0x08, 0x08, 0x00, 0x00, 0x00,
   0x00, 0x00, 0x22, 0x22, 0x22, 0x2A, 0x2A, 0x36, 0x22, 0x00, 0x00, 0x00,
   0x00, 0x00, 0x22, 0x22, 0x14, 0x08, 0x14, 0x22, 0x22, 0x00, 0x00, 0x00,
   0x00, 0x00, 0x22, 0x22, 0x14, 0x08, 0x08, 0x08, 0x08, 0x00, 0x00, 0x00,
   0x00, 0x00, 0x3E, 0x20, 0x10, 0x08, 0x04, 0x02, 0x3E, 0x00, 0x00, 0x00,
   0x38, 0x08, 0x08, 0x08, 0x08, 0x08, 0x08, 0x08, 0x08, 0x08, 0x38, 0x00,
   0x02, 0x02, 0x04, 0x04, 0x08, 0x08, 0x10, 0x10, 0x20, 0x20, 0x00, 0x00,
   0x0E, 0x08, 0x08, 0x08, 0x08, 0x08, 0x08, 0x08, 0x08, 0x08, 0x0E, 0x00,
   0x00, 0x08, 0x14, 0x22, 0x00, 0x00, 0x00, 0x00, 0x00, 0x00, 0x00, 0x00,
   0x00, 0x00, 0x00, 0x00, 0x00, 0x00, 0x00, 0x00, 0x00, 0x3F, 0x00, 0x00,
   0x00, 0x0C, 0x08, 0x10, 0x00, 0x00, 0x00, 0x00, 0x00, 0x00, 0x00, 0x00,
   0x00, 0x00, 0x00, 0x00, 0x3C, 0x22, 0x22, 0x32, 0x2C, 0x00, 0x00, 0x00,
   0x00, 0x02, 0x02, 0x02, 0x1E, 0x22, 0x22, 0x22, 0x1E, 0x00, 0x00, 0x00,
   0x00, 0x00, 0x00, 0x00, 0x3C, 0x02, 0x02, 0x02, 0x3C, 0x00, 0x00, 0x00,
   0x00, 0x20, 0x20, 0x20, 0x3C, 0x22, 0x22, 0x22, 0x3C, 0x00, 0x00, 0x00,
   0x00, 0x00, 0x00, 0x00, 0x1C, 0x22, 0x3E, 0x02, 0x1C, 0x00, 0x00, 0x00,
   0x00, 0x38, 0x04, 0x04, 0x1E, 0x04, 0x04, 0x04, 0x04, 0x00, 0x00, 0x00,
   0x00, 0x00, 0x00, 0x00, 0x3C, 0x22, 0x22, 0x22, 0x3C, 0x20, 0x20, 0x1C,
   0x00, 0x02, 0x02, 0x02, 0x1E, 0x22, 0x22, 0x22, 0x22, 0x00, 0x00, 0x00,
   0x00, 0x08, 0x08, 0x00, 0x0C, 0x08, 0x08, 0x08, 0x1C, 0x00, 0x00, 0x00,
   0x00, 0x10, 0x10, 0x00, 0x1C, 0x10, 0x10, 0x10, 0x10, 0x10, 0x10, 0x0E,
   0x00, 0x02, 0x02, 0x02, 0x12, 0x0A, 0x06, 0x0A, 0x12, 0x00, 0x00, 0x00,
   0x00, 0x0C, 0x08, 0x08, 0x08, 0x08, 0x08, 0x08, 0x1C, 0x00, 0x00, 0x00,
   0x00, 0x00, 0x00, 0x00, 0x16, 0x2A, 0x2A, 0x2A, 0x22, 0x00, 0x00, 0x00,
   0x00, 0x00, 0x00, 0x00, 0x1A, 0x26, 0x22, 0x22, 0x22, 0x00, 0x00, 0x00,
   0x00, 0x00, 0x00, 0x00, 0x1C, 0x22, 0x22, 0x22, 0x1C, 0x00, 0x00, 0x00,
   0x00, 0x00, 0x00, 0x00, 0x1E, 0x22, 0x22, 0x22, 0x1E, 0x02, 0x02, 0x02,
   0x00, 0x00, 0x00, 0x00, 0x3C, 0x22, 0x22, 0x22, 0x3C, 0x20, 0x20, 0x20,
   0x00, 0x00, 0x00, 0x00, 0x1A, 0x06, 0x02, 0x02, 0x02, 0x00, 0x00, 0x00,
   0x00, 0x00, 0x00, 0x00, 0x3C, 0x02, 0x1C, 0x20, 0x1E, 0x00, 0x00, 0x00,
   0x00, 0x08, 0x08, 0x08, 0x3E, 0x08, 0x08, 0x08, 0x30, 0x00, 0x00, 0x00,
   0x00, 0x00, 0x00, 0x00, 0x22, 0x22, 0x22, 0x32, 0x2C, 0x00, 0x00, 0x00,
   0x00, 0x00, 0x00, 0x00, 0x36, 0x14, 0x14, 0x08, 0x08, 0x00, 0x00, 0x00,
   0x00, 0x00, 0x00, 0x00, 0x22, 0x2A, 0x2A, 0x2A, 0x14, 0x00, 0x00, 0x00,
   0x00, 0x00, 0x00, 0x00, 0x22, 0x14, 0x08, 0x14, 0x22, 0x00, 0x00, 0x00,
   0x00, 0x00, 0x00, 0x00, 0x22, 0x22, 0x22, 0x22, 0x3C, 0x20, 0x20, 0x1C,
   0x00, 0x00, 0x00, 0x00, 0x3E, 0x10, 0x08, 0x04, 0x3E, 0x00, 0x00, 0x00,
   0x20, 0x10, 0x10, 0x10, 0x10, 0x08, 0x10, 0x10, 0x10, 0x10, 0x20, 0x00,
   0x08, 0x08, 0x08, 0x08, 0x08, 0x08, 0x08, 0x08, 0x08, 0x08, 0x08, 0x00,
   0x02, 0x04, 0x04, 0x04, 0x04, 0x08, 0x04, 0x04, 0x04, 0x04, 0x02, 0x00,
   0x00, 0x04, 0x2A, 0x10, 0x00, 0x00, 0x00, 0x00, 0x00, 0x00, 0x00, 0x00,
   0x00, 0x00, 0x00, 0x08, 0x08, 0x14, 0x14, 0x22, 0x3E, 0x00, 0x00, 0x00]"

lemma length_FONT: "length FONT = 1536"
  by (simp add: FONT_def)

text \<open>The inner loop on one line of the glyph, and the outer loop on its lines.\<close>

primrec font_row :: "u32 \<Rightarrow> u32 \<Rightarrow> u32 \<Rightarrow> u8 \<Rightarrow> nat \<Rightarrow> gfx_surface \<Rightarrow> gfx_surface option" where
  "font_row c x y line 0 s = Some s"
| "font_row c x y line (Suc n) s = do {
     s' \<leftarrow> (if line AND 1 \<noteq> 0 then gfx_putpixel s x y c else Some s);
     font_row c (x + 1) y (drop_bit 1 line) n s'
   }"

primrec font_rows :: "u32 \<Rightarrow> nat \<Rightarrow> u32 \<Rightarrow> u32 \<Rightarrow> nat \<Rightarrow> gfx_surface \<Rightarrow> gfx_surface option" where
  "font_rows c idx x y 0 s = Some s"
| "font_rows c idx x y (Suc n) s =
     (if idx < length FONT then do {
        s' \<leftarrow> font_row c x y (FONT ! idx) FONT_X s;
        font_rows c (idx + 1) x (y + 1) n s'
      } else None)"

definition font_draw_char :: "gfx_surface \<Rightarrow> u8 \<Rightarrow> u32 \<Rightarrow> u32 \<Rightarrow> u32 \<Rightarrow> gfx_surface option" where
  "font_draw_char s ch x y c = do {
     s' \<leftarrow> font_rows c (unat ch * FONT_Y) x y FONT_Y s;
     Some (gfx_flush_rows s' y (y + of_nat FONT_Y))
   }"

section \<open>What a character paints\<close>

definition glyph :: "u8 \<Rightarrow> nat \<Rightarrow> nat \<Rightarrow> bool" where
  "glyph ch a b \<longleftrightarrow> a < FONT_X \<and> b < FONT_Y \<and> bit (FONT ! (unat ch * FONT_Y + b)) a"

lemma unat_Suc_small: "unat (x :: u32) + Suc n \<le> 2 ^ 32 \<Longrightarrow> 0 < n \<Longrightarrow> unat (x + 1) = unat x + 1"
  by (subst unat_sum_small) auto

lemma font_row_paints:
  assumes "surface_wf s" "unat x + n \<le> 2 ^ 32"
  shows "\<exists>s'. font_row c x y line n s = Some s' \<and>
     paints s (\<lambda>a b. unat x \<le> a \<and> a < unat x + n \<and> bit line (a - unat x) \<and> b = unat y \<and>
       a < unat (g_width s) \<and> b < unat (g_height s)) (\<lambda>_ _. stored s c) s'"
  using assms
proof (induction n arbitrary: s x line)
  case 0
  then show ?case by (auto intro: paints_none)
next
  case (Suc n)
  have odd: "(line AND 1 \<noteq> 0) = bit line 0" by (simp add: bit_0 and_one_eq even_iff_mod_2_eq_zero odd_iff_mod_2_eq_one)
  obtain s1 where s1: "(if line AND 1 \<noteq> 0 then gfx_putpixel s x y c else Some s) = Some s1"
    "paints s (\<lambda>a b. a = unat x \<and> bit line 0 \<and> b = unat y \<and> a < unat (g_width s) \<and> b < unat (g_height s)) (\<lambda>_ _. stored s c) s1"
  proof (cases "bit line 0")
    case True
    obtain s' where s': "gfx_putpixel s x y c = Some s'"
      "paints s (\<lambda>a b. a = unat x \<and> b = unat y \<and> a < unat (g_width s) \<and> b < unat (g_height s)) (\<lambda>_ _. stored s c) s'"
      using gfx_putpixel_paints [OF Suc.prems(1)] by blast
    then show ?thesis using odd True by (intro that [of s'] paints_cong [OF s'(2)]) auto
  next
    case False
    then show ?thesis using odd by (intro that [of s] paints_none) auto
  qed
  note fr = paints_frame [OF s1(2)] and wf1 = paints_wf [OF s1(2) Suc.prems(1)]
  show ?case
  proof (cases "n = 0")
    case True
    then show ?thesis using s1(1) by (intro exI [of _ s1] conjI paints_cong [OF s1(2)]) auto
  next
    case False
    then have x1: "unat (x + 1) = unat x + 1" using Suc.prems(2) by (intro unat_Suc_small) auto
    then obtain s2 where s2: "font_row c (x + 1) y (drop_bit 1 line) n s1 = Some s2"
      "paints s1 (\<lambda>a b. unat x + 1 \<le> a \<and> a < unat x + 1 + n \<and> bit (drop_bit 1 line) (a - (unat x + 1)) \<and> b = unat y \<and>
         a < unat (g_width s) \<and> b < unat (g_height s)) (\<lambda>_ _. stored s c) s2"
      using Suc.IH [OF wf1, of "x + 1" "drop_bit 1 line"] Suc.prems(2) fr paints_stored [OF s1(2)] by auto
    have sh: "bit (drop_bit 1 line) (a - (unat x + 1)) = bit line (a - unat x)" if "unat x + 1 \<le> a" for a
      using that by (simp add: bit_drop_bit_eq Suc_diff_Suc Suc_le_lessD)
    have "paints s (\<lambda>a b. unat x \<le> a \<and> a < unat x + Suc n \<and> bit line (a - unat x) \<and> b = unat y \<and>
        a < unat (g_width s) \<and> b < unat (g_height s)) (\<lambda>_ _. stored s c) s2"
    proof (rule paints_cong [OF paints_trans [OF s1(2) s2(2)]], goal_cases)
      case (1 a b)
      show ?case by (cases "a = unat x") (use sh [of a] in auto)
    qed simp
    then show ?thesis using s1(1) s2(1) by auto
  qed
qed

lemma font_rows_paints:
  assumes "surface_wf s" "unat x + FONT_X \<le> 2 ^ 32" "unat y + n \<le> 2 ^ 32" "idx + n \<le> length FONT"
  shows "\<exists>s'. font_rows c idx x y n s = Some s' \<and>
     paints s (\<lambda>a b. unat x \<le> a \<and> a < unat x + FONT_X \<and> unat y \<le> b \<and> b < unat y + n \<and>
       bit (FONT ! (idx + (b - unat y))) (a - unat x) \<and> a < unat (g_width s) \<and> b < unat (g_height s)) (\<lambda>_ _. stored s c) s'"
  using assms
proof (induction n arbitrary: s y idx)
  case 0
  then show ?case by (auto intro: paints_none)
next
  case (Suc n)
  obtain s1 where s1: "font_row c x y (FONT ! idx) FONT_X s = Some s1"
    "paints s (\<lambda>a b. unat x \<le> a \<and> a < unat x + FONT_X \<and> bit (FONT ! idx) (a - unat x) \<and> b = unat y \<and>
       a < unat (g_width s) \<and> b < unat (g_height s)) (\<lambda>_ _. stored s c) s1"
    using font_row_paints [OF Suc.prems(1,2)] by blast
  note fr = paints_frame [OF s1(2)] and wf1 = paints_wf [OF s1(2) Suc.prems(1)]
  show ?case
  proof (cases "n = 0")
    case True
    then show ?thesis using s1(1) Suc.prems(4) by (intro exI [of _ s1] conjI paints_cong [OF s1(2)]) (auto simp del: font_row.simps)
  next
    case False
    then have y1: "unat (y + 1) = unat y + 1" using Suc.prems(3) by (intro unat_Suc_small) auto
    then obtain s2 where s2: "font_rows c (idx + 1) x (y + 1) n s1 = Some s2"
      "paints s1 (\<lambda>a b. unat x \<le> a \<and> a < unat x + FONT_X \<and> unat y + 1 \<le> b \<and> b < unat y + 1 + n \<and>
         bit (FONT ! (idx + 1 + (b - (unat y + 1)))) (a - unat x) \<and> a < unat (g_width s) \<and> b < unat (g_height s)) (\<lambda>_ _. stored s c) s2"
      using Suc.IH [OF wf1 Suc.prems(2), of "y + 1" "idx + 1"] Suc.prems(3,4) fr paints_stored [OF s1(2)] by auto
    have sh: "idx + 1 + (b - (unat y + 1)) = idx + (b - unat y)" if "unat y + 1 \<le> b" for b using that by simp
    have "paints s (\<lambda>a b. unat x \<le> a \<and> a < unat x + FONT_X \<and> unat y \<le> b \<and> b < unat y + Suc n \<and>
        bit (FONT ! (idx + (b - unat y))) (a - unat x) \<and> a < unat (g_width s) \<and> b < unat (g_height s)) (\<lambda>_ _. stored s c) s2"
    proof (rule paints_cong [OF paints_trans [OF s1(2) s2(2)]], goal_cases)
      case (1 a b)
      show ?case by (cases "b = unat y") (use sh [of b] in auto)
    qed simp
    then show ?thesis using s1(1) s2(1) Suc.prems(4) by (auto simp del: font_row.simps)
  qed
qed

text \<open>Flushing changes only the traces.\<close>

lemma gfx_flush_rows_same:
  "ptr (gfx_flush_rows s a b) = ptr s" "g_width (gfx_flush_rows s a b) = g_width s"
  "g_height (gfx_flush_rows s a b) = g_height s" "g_stride (gfx_flush_rows s a b) = g_stride s"
  "g_ops (gfx_flush_rows s a b) = g_ops s" "translate_color (gfx_flush_rows s a b) = translate_color s"
  "g_flush (gfx_flush_rows s a b) = g_flush s"
  by (simp_all add: gfx_flush_rows_def Let_def split: prod.splits)

lemma gfx_flush_rows_wf [simp]: "surface_wf (gfx_flush_rows s a b) = surface_wf s"
  by (simp add: surface_wf_def gfx_flush_rows_same)

lemma gfx_flush_rows_pixel [simp]: "pixel (gfx_flush_rows s a b) = pixel s"
  by (simp add: pixel_def gfx_flush_rows_same fun_eq_iff)

lemma gfx_flush_rows_stored [simp]: "stored (gfx_flush_rows s a b) = stored s"
  by (rule ext) (simp add: stored_def flatten_def gfx_flush_rows_same split: pixel_ops.splits)

lemma font_draw_char_paints:
  assumes "surface_wf s" "unat x + FONT_X \<le> unat (g_width s)" "unat y + FONT_Y \<le> unat (g_height s)" "unat ch < 128"
  shows "\<exists>s'. font_draw_char s ch x y c = Some (gfx_flush_rows s' y (y + of_nat FONT_Y)) \<and>
     paints s (\<lambda>a b. unat x \<le> a \<and> unat y \<le> b \<and> glyph ch (a - unat x) (b - unat y)) (\<lambda>_ _. stored s c) s'"
proof -
  have "unat x + FONT_X \<le> 2 ^ 32" "unat y + FONT_Y \<le> 2 ^ 32" using assms(2,3) unat_u32 [of "g_width s"] unat_u32 [of "g_height s"] by linarith+
  moreover have "unat ch * FONT_Y + FONT_Y \<le> length FONT" using assms(4) by (simp add: length_FONT)
  ultimately obtain s' where s': "font_rows c (unat ch * FONT_Y) x y FONT_Y s = Some s'"
    "paints s (\<lambda>a b. unat x \<le> a \<and> a < unat x + FONT_X \<and> unat y \<le> b \<and> b < unat y + FONT_Y \<and>
       bit (FONT ! (unat ch * FONT_Y + (b - unat y))) (a - unat x) \<and> a < unat (g_width s) \<and> b < unat (g_height s)) (\<lambda>_ _. stored s c) s'"
    using font_rows_paints [OF assms(1)] by blast
  have "font_draw_char s ch x y c = Some (gfx_flush_rows s' y (y + of_nat FONT_Y))"
    using s'(1) by (simp add: font_draw_char_def)
  then show ?thesis using assms(2,3) by (intro exI [of _ s'] conjI paints_cong [OF s'(2)]) (auto simp: glyph_def)
qed

text \<open>The table ends at character 127: any other character is read from behind it.\<close>

lemma font_draw_char_None:
  assumes "128 \<le> unat ch"
  shows "font_draw_char s ch x y c = None"
proof -
  have "font_rows c (unat ch * FONT_Y) x y FONT_Y s = None" using assms by (simp add: length_FONT numeral_eq_Suc)
  then show ?thesis by (simp add: font_draw_char_def)
qed

end
