(* ===== verification/Terminal.thy ===== *)
theory Terminal
  imports Prelude
begin

text \<open>
  What text output promises, independent of pixels: a grid of cells, each blank or holding a
  character in a colour, and a cursor. A character at the end of a line, or a newline, moves
  to the next line, the first one after the last, and clears it.

  The locale \<open>text_display\<close> is the contract of a device that can draw a character into a blank
  cell and clear a line; inside it, typing on the device is shown to keep the device and the
  grid in step.
\<close>

type_synonym cell = "(u8 \<times> u32) option"

record terminal =
  grid :: "nat \<Rightarrow> nat \<Rightarrow> cell"
  t_row :: nat
  t_col :: nat

definition blank_terminal :: terminal where
  "blank_terminal = \<lparr>grid = (\<lambda>_ _. None), t_row = 0, t_col = 0\<rparr>"

definition next_row :: "nat \<Rightarrow> nat \<Rightarrow> nat" where
  "next_row R r = (if Suc r < R then Suc r else 0)"

definition term_newline :: "nat \<Rightarrow> terminal \<Rightarrow> terminal" where
  "term_newline R T = T\<lparr>t_col := 0, t_row := next_row R (t_row T), grid := (grid T)(next_row R (t_row T) := (\<lambda>_. None))\<rparr>"

definition term_draw :: "u32 \<Rightarrow> u8 \<Rightarrow> terminal \<Rightarrow> terminal" where
  "term_draw fg ch T = T\<lparr>grid := (grid T)(t_row T := (grid T (t_row T))(t_col T := Some (ch, fg))), t_col := t_col T + 1\<rparr>"

definition term_put :: "nat \<Rightarrow> nat \<Rightarrow> u32 \<Rightarrow> u8 \<Rightarrow> terminal \<Rightarrow> terminal" where
  "term_put C R fg ch T =
     (if t_col T \<ge> C \<or> ch = 10 then (if ch = 10 then term_newline R T else term_draw fg ch (term_newline R T))
      else term_draw fg ch T)"

definition term_puts :: "nat \<Rightarrow> nat \<Rightarrow> u32 \<Rightarrow> bytes \<Rightarrow> terminal \<Rightarrow> terminal" where
  "term_puts C R fg str T = fold (term_put C R fg) str T"

text \<open>The same on a device: \<open>blit\<close> draws a character into a cell, \<open>clear\<close> empties a line.\<close>

definition type_char :: "(u8 \<Rightarrow> u32 \<Rightarrow> nat \<Rightarrow> nat \<Rightarrow> 's \<Rightarrow> 's option) \<Rightarrow> (nat \<Rightarrow> 's \<Rightarrow> 's option) \<Rightarrow> nat \<Rightarrow> nat \<Rightarrow>
    u32 \<Rightarrow> u8 \<Rightarrow> 's \<times> nat \<times> nat \<Rightarrow> ('s \<times> nat \<times> nat) option" where
  "type_char blit clear C R fg ch st =
     (case st of (s, r, c) \<Rightarrow>
        if c \<ge> C \<or> ch = 10 then do {
          s1 \<leftarrow> clear (next_row R r) s;
          if ch = 10 then Some (s1, next_row R r, 0)
          else do { s2 \<leftarrow> blit ch fg (next_row R r) 0 s1; Some (s2, next_row R r, 1) }
        }
        else do { s1 \<leftarrow> blit ch fg r c s; Some (s1, r, c + 1) })"

locale text_display =
  fixes ok :: "'s \<Rightarrow> bool"
    and cols rows :: nat
    and looks :: "'s \<Rightarrow> nat \<Rightarrow> nat \<Rightarrow> cell \<Rightarrow> bool"
    and same :: "'s \<Rightarrow> 's \<Rightarrow> bool"
    and blit :: "u8 \<Rightarrow> u32 \<Rightarrow> nat \<Rightarrow> nat \<Rightarrow> 's \<Rightarrow> 's option"
    and clear :: "nat \<Rightarrow> 's \<Rightarrow> 's option"
  assumes size: "ok s \<Longrightarrow> 0 < cols \<and> 0 < rows"
    and same_refl: "same s s"
    and same_trans: "same s1 s2 \<Longrightarrow> same s2 s3 \<Longrightarrow> same s1 s3"
    and blit_cell: "ok s \<Longrightarrow> r < rows \<Longrightarrow> c < cols \<Longrightarrow> unat ch < 128 \<Longrightarrow> looks s r c None \<Longrightarrow>
      \<exists>s'. blit ch fg r c s = Some s' \<and> ok s' \<and> same s s' \<and> looks s' r c (Some (ch, fg)) \<and>
        (\<forall>r' c' v. r' < rows \<and> c' < cols \<and> (r', c') \<noteq> (r, c) \<and> looks s r' c' v \<longrightarrow> looks s' r' c' v)"
    and clear_cells: "ok s \<Longrightarrow> r < rows \<Longrightarrow>
      \<exists>s'. clear r s = Some s' \<and> ok s' \<and> same s s' \<and> (\<forall>c < cols. looks s' r c None) \<and>
        (\<forall>r' c' v. r' < rows \<and> c' < cols \<and> r' \<noteq> r \<and> looks s r' c' v \<longrightarrow> looks s' r' c' v)"
begin

definition displays :: "'s \<Rightarrow> terminal \<Rightarrow> bool" where
  "displays s T \<longleftrightarrow> ok s \<and> t_row T < rows \<and> t_col T \<le> cols \<and> (\<forall>c \<ge> t_col T. grid T (t_row T) c = None) \<and>
     (\<forall>r < rows. \<forall>c < cols. looks s r c (grid T r c))"

lemma next_row_bound: "ok s \<Longrightarrow> next_row rows r < rows"
  using size by (simp add: next_row_def)

lemma newline_displays:
  assumes "displays s T"
  shows "\<exists>s'. clear (next_row rows (t_row T)) s = Some s' \<and> same s s' \<and> displays s' (term_newline rows T)"
proof -
  have ok: "ok s" using assms by (simp add: displays_def)
  obtain s' where s': "clear (next_row rows (t_row T)) s = Some s'" "ok s'" "same s s'"
    "\<forall>c < cols. looks s' (next_row rows (t_row T)) c None"
    "\<forall>r' c' v. r' < rows \<and> c' < cols \<and> r' \<noteq> next_row rows (t_row T) \<and> looks s r' c' v \<longrightarrow> looks s' r' c' v"
    using clear_cells [OF ok next_row_bound [OF ok]] by blast
  then show ?thesis using assms next_row_bound [OF ok] by (auto simp: displays_def term_newline_def)
qed

lemma draw_displays:
  assumes "displays s T" "t_col T < cols" "unat ch < 128"
  shows "\<exists>s'. blit ch fg (t_row T) (t_col T) s = Some s' \<and> same s s' \<and> displays s' (term_draw fg ch T)"
proof -
  have ok: "ok s" "t_row T < rows" "looks s (t_row T) (t_col T) None" using assms by (simp_all add: displays_def)
      (metis order_refl)
  obtain s' where s': "blit ch fg (t_row T) (t_col T) s = Some s'" "ok s'" "same s s'" "looks s' (t_row T) (t_col T) (Some (ch, fg))"
    "\<forall>r' c' v. r' < rows \<and> c' < cols \<and> (r', c') \<noteq> (t_row T, t_col T) \<and> looks s r' c' v \<longrightarrow> looks s' r' c' v"
    using blit_cell [OF ok(1,2) assms(2,3) ok(3)] by blast
  then show ?thesis using assms by (auto simp: displays_def term_draw_def)
qed

theorem type_char_displays:
  assumes "displays s T" "unat ch < 128"
  shows "\<exists>s'. type_char blit clear cols rows fg ch (s, t_row T, t_col T) =
       Some (s', t_row (term_put cols rows fg ch T), t_col (term_put cols rows fg ch T)) \<and>
     same s s' \<and> displays s' (term_put cols rows fg ch T)"
proof (cases "t_col T \<ge> cols \<or> ch = 10")
  case True
  obtain s1 where s1: "clear (next_row rows (t_row T)) s = Some s1" "same s s1" "displays s1 (term_newline rows T)"
    using newline_displays [OF assms(1)] by blast
  show ?thesis
  proof (cases "ch = 10")
    case True
    then show ?thesis using s1 by (auto simp: type_char_def term_put_def term_newline_def)
  next
    case False
    have "t_col (term_newline rows T) < cols" using size assms(1) by (auto simp: displays_def term_newline_def)
    from draw_displays [OF s1(3) this assms(2)] obtain s2 where "blit ch fg (next_row rows (t_row T)) 0 s1 = Some s2"
      "same s1 s2" "displays s2 (term_draw fg ch (term_newline rows T))" by (auto simp: term_newline_def)
    then show ?thesis using True False s1 same_trans [OF s1(2)]
      by (auto simp: type_char_def term_put_def term_newline_def term_draw_def)
  qed
next
  case False
  then obtain s1 where "blit ch fg (t_row T) (t_col T) s = Some s1" "same s s1" "displays s1 (term_draw fg ch T)"
    using draw_displays [OF assms(1) _ assms(2)] by auto
  then show ?thesis using False by (auto simp: type_char_def term_put_def term_draw_def)
qed

end

end
