(* ===== verification/Screen.thy ===== *)
theory Screen
  imports Font Terminal Cstring Sync_Inv
begin

text \<open>
  Text output: app/aiseirigh/screen.c and textraster.c, and the framebuffers of
  platform/psp-allegrex/display.c. A screen is a surface with a text cursor, shared under a
  mutex. The text wraps at the right edge and starts again at the top after the last line.

  The string passed in is the object it points into, from the pointer on. The loop reads a
  character before it compares the index with the length, so a string that is not
  terminated is read one byte past its length: past the end of the object this is \<open>None\<close>.
\<close>

record Screen =
  surface :: gfx_surface
  scr_mutex :: mutex_t
  cursor_x :: u32
  cursor_y :: u32

definition screen_init :: "kernel \<Rightarrow> wqid \<Rightarrow> gfx_surface \<Rightarrow> Screen \<times> kernel" where
  "screen_init K w s =
     (let (m, K') = mutex_init K w
      in (\<lparr>surface = s, scr_mutex = m, cursor_x = 0, cursor_y = 0\<rparr>, K'))"

definition screen_fill :: "Screen \<Rightarrow> u32 \<Rightarrow> Screen option" where
  "screen_fill scr colour = do {
     s \<leftarrow> gfx_clear (surface scr) colour;
     Some (scr\<lparr>surface := s, cursor_x := 0, cursor_y := 0\<rparr>)
   }"

definition screen_set_pixel :: "Screen \<Rightarrow> u32 \<Rightarrow> u32 \<Rightarrow> u32 \<Rightarrow> Screen option" where
  "screen_set_pixel scr x y colour = do {
     s \<leftarrow> gfx_putpixel (surface scr) x y colour;
     Some (scr\<lparr>surface := s\<rparr>)
   }"

definition needs_x_wrap :: "Screen \<Rightarrow> u32 \<Rightarrow> bool" where
  "needs_x_wrap scr x \<longleftrightarrow> x + of_nat FONT_X > g_width (surface scr)"

definition needs_y_wrap :: "Screen \<Rightarrow> u32 \<Rightarrow> bool" where
  "needs_y_wrap scr y \<longleftrightarrow> y + of_nat FONT_Y > g_height (surface scr)"

definition blit_character :: "Screen \<Rightarrow> u8 \<Rightarrow> u32 \<Rightarrow> u32 \<Rightarrow> u32 \<Rightarrow> u32 \<Rightarrow> Screen option" where
  "blit_character scr ch x y fg_colour bg_colour = do {
     s \<leftarrow> font_draw_char (surface scr) ch x y fg_colour;
     Some (scr\<lparr>surface := s\<rparr>)
   }"

text \<open>The two loops of \<^verbatim>\<open>clear_line\<close>, from the column and the line given.\<close>

primrec clear_row :: "u32 \<Rightarrow> u32 \<Rightarrow> u32 \<Rightarrow> nat \<Rightarrow> Screen \<Rightarrow> Screen option" where
  "clear_row colour x y 0 scr = Some scr"
| "clear_row colour x y (Suc n) scr =
     do { scr' \<leftarrow> screen_set_pixel scr x y colour; clear_row colour (x + 1) y n scr' }"

primrec clear_rows :: "u32 \<Rightarrow> u32 \<Rightarrow> u32 \<Rightarrow> nat \<Rightarrow> Screen \<Rightarrow> Screen option" where
  "clear_rows colour x y 0 scr = Some scr"
| "clear_rows colour x y (Suc n) scr =
     do { scr' \<leftarrow> clear_row colour x y (unat (g_width (surface scr))) scr; clear_rows colour x (y + 1) n scr' }"

definition clear_line :: "Screen \<Rightarrow> u32 \<Rightarrow> Screen option" where
  "clear_line scr colour = clear_rows colour (cursor_x scr) (cursor_y scr) FONT_Y scr"

text \<open>One turn of the loop of \<^verbatim>\<open>text_rasterise_string\<close>, and the loop.\<close>

definition rasterise_char :: "u32 \<Rightarrow> u32 \<Rightarrow> u8 \<Rightarrow> Screen \<Rightarrow> Screen option" where
  "rasterise_char fg_colour bg_colour ch scr =
     (let blit = (\<lambda>scr. do {
            scr' \<leftarrow> blit_character scr ch (cursor_x scr) (cursor_y scr) fg_colour bg_colour;
            Some (scr'\<lparr>cursor_x := cursor_x scr' + of_nat FONT_X\<rparr>) })
      in if needs_x_wrap scr (cursor_x scr) \<or> ch = 10 then do {
           let scr1 = scr\<lparr>cursor_x := 0, cursor_y := cursor_y scr + of_nat FONT_Y\<rparr>;
           let scr2 = (if needs_y_wrap scr1 (cursor_y scr1) then scr1\<lparr>cursor_y := 0\<rparr> else scr1);
           scr3 \<leftarrow> clear_line scr2 bg_colour;
           if ch = 10 then Some scr3 else blit scr3
         }
         else blit scr)"

fun rasterise_loop :: "u32 \<Rightarrow> u32 \<Rightarrow> bytes \<Rightarrow> nat \<Rightarrow> Screen \<Rightarrow> Screen option" where
  "rasterise_loop fg_colour bg_colour [] len scr = None"
| "rasterise_loop fg_colour bg_colour (ch # str) len scr =
     (if ch = 0 \<or> len = 0 then Some scr
      else do {
        scr' \<leftarrow> rasterise_char fg_colour bg_colour ch scr;
        rasterise_loop fg_colour bg_colour str (len - 1) scr'
      })"

definition text_rasterise_string :: "kernel \<Rightarrow> Screen \<Rightarrow> u32 \<Rightarrow> u32 \<Rightarrow> bytes \<Rightarrow> u32 \<Rightarrow> Screen waitable option" where
  "text_rasterise_string K scr fg_colour bg_colour str len = do {
     r \<leftarrow> mutex_acquire_timeout K (scr_mutex scr) INFINITE_TIME;
     (case r of
        Blocked m K1 \<Rightarrow> Some (Blocked (scr\<lparr>scr_mutex := m\<rparr>) K1)
      | Returned _ m K1 \<Rightarrow> do {
          scr1 \<leftarrow> rasterise_loop fg_colour bg_colour str (unat len) (scr\<lparr>scr_mutex := m\<rparr>);
          (_, m', K2) \<leftarrow> mutex_release K1 (scr_mutex scr1);
          Some (Returned NO_ERROR (scr1\<lparr>scr_mutex := m'\<rparr>) K2)
        })
   }"

section \<open>The framebuffers of the display\<close>

abbreviation DISP_WIDTH :: u32 where "DISP_WIDTH \<equiv> 480"
abbreviation DISP_HEIGHT :: u32 where "DISP_HEIGHT \<equiv> 272"
abbreviation DISP_STRIDE :: u32 where "DISP_STRIDE \<equiv> 512"

text \<open>\<^verbatim>\<open>FRAMEBUFFER_SIZE\<close> in pixels: the stride times the width, which is more than is shown.\<close>

definition framebuffer_pixels :: nat where
  "framebuffer_pixels = unat DISP_STRIDE * unat DISP_WIDTH"

definition get_framebuffer :: "u32 list \<Rightarrow> display_framebuffer" where
  "get_framebuffer mem = \<lparr>fb_format = DISPLAY_FORMAT_ABGR_8888, i_format = IMAGE_FORMAT_ABGR_8888, i_pixels = mem,
     i_width = DISP_WIDTH, i_height = DISP_HEIGHT, i_stride = DISP_STRIDE, i_rowbytes = DISP_WIDTH * 4, fb_flush = False\<rparr>"

text \<open>The statics of display.c: the memory of the two framebuffers, the active one, and the one the controller shows.\<close>

datatype framebuffer = G_FRAMEBUFFER1 | G_FRAMEBUFFER2

record display =
  fb_mem :: "framebuffer \<Rightarrow> u32 list"
  g_active_framebuffer :: framebuffer
  hw_framebuffer :: framebuffer

record display_info =
  info_format :: display_format
  info_width :: u32
  info_height :: u32

definition set_active_framebuffer :: "display \<Rightarrow> framebuffer \<Rightarrow> display" where
  "set_active_framebuffer d fb = d\<lparr>g_active_framebuffer := fb, hw_framebuffer := fb\<rparr>"

definition init_display_framebuffer :: "display \<Rightarrow> display" where
  "init_display_framebuffer d =
     (let d1 = d\<lparr>fb_mem := (\<lambda>fb. replicate framebuffer_pixels 0 @ drop framebuffer_pixels (fb_mem d fb)), g_active_framebuffer := G_FRAMEBUFFER1\<rparr>
      in d1\<lparr>hw_framebuffer := g_active_framebuffer d1\<rparr>)"

text \<open>\<open>fbs\<close> is the array passed in, \<open>num_fbs\<close> the number behind the pointer; \<open>None\<close> is a null pointer.\<close>

definition get_all_framebuffers :: "display \<Rightarrow> display_framebuffer list option \<Rightarrow> nat option \<Rightarrow> display_framebuffer list option \<times> nat option" where
  "get_all_framebuffers d fbs num_fbs =
     (case num_fbs of
        None \<Rightarrow> (fbs, None)
      | Some n \<Rightarrow>
          (case fbs of
             None \<Rightarrow> (None, Some 2)
           | Some fs \<Rightarrow>
               (if n = 0 then Some fs
                else if n = 1 then Some (fs[0 := get_framebuffer (fb_mem d G_FRAMEBUFFER1)])
                else Some (fs[0 := get_framebuffer (fb_mem d G_FRAMEBUFFER1), 1 := get_framebuffer (fb_mem d G_FRAMEBUFFER2)]), Some n)))"

definition display_get_framebuffer :: "display \<Rightarrow> status_t \<times> display_framebuffer" where
  "display_get_framebuffer d = (NO_ERROR, get_framebuffer (fb_mem d (g_active_framebuffer d)))"

definition display_get_info :: "status_t \<times> display_info" where
  "display_get_info = (NO_ERROR, \<lparr>info_format = DISPLAY_FORMAT_ABGR_8888, info_width = DISP_WIDTH, info_height = DISP_HEIGHT\<rparr>)"

text \<open>
  \<^verbatim>\<open>setup_screens\<close> of main.c: a surface on each framebuffer, cleared, and a screen on each.
  \<open>fbs0\<close> is the array \<^verbatim>\<open>malloc\<close> gives for the framebuffers, \<open>None\<close> when it gives none; a result
  \<open>None\<close> is a failed assertion.
\<close>

definition get_display_surfaces :: "(u32 \<Rightarrow> u32 list option) \<Rightarrow> display_framebuffer list option \<Rightarrow> display \<Rightarrow> gfx_surface list option" where
  "get_display_surfaces alloc fbs0 d =
     (let (_, num_fbs) = get_all_framebuffers d None (Some 0) in
      if num_fbs \<noteq> Some 2 then None
      else do {
        mem \<leftarrow> fbs0;
        let (fbs, num_fbs') = get_all_framebuffers d (Some mem) num_fbs;
        if num_fbs' \<noteq> Some 2 then None
        else those (map (gfx_create_surface_from_display alloc) (the fbs))
      })"

definition setup_screens :: "(u32 \<Rightarrow> u32 list option) \<Rightarrow> display_framebuffer list option \<Rightarrow> kernel \<Rightarrow> wqid \<Rightarrow> wqid \<Rightarrow> display \<Rightarrow> (Screen \<times> Screen \<times> kernel) option" where
  "setup_screens alloc fbs0 K w1 w2 d = do {
     surfaces \<leftarrow> get_display_surfaces alloc fbs0 d;
     cleared \<leftarrow> those (map (\<lambda>s. gfx_clear s 0) surfaces);
     let (screen1, K1) = screen_init K w1 (cleared ! 0);
     let (screen2, K2) = screen_init K1 w2 (cleared ! 1);
     Some (screen1, screen2, K2)
   }"

section \<open>Drawing stays on the visible screen\<close>

definition visible_only :: "gfx_surface \<Rightarrow> gfx_surface \<Rightarrow> bool" where
  "visible_only s s' \<longleftrightarrow> g_width s' = g_width s \<and> g_height s' = g_height s \<and> g_stride s' = g_stride s \<and>
     g_ops s' = g_ops s \<and> translate_color s' = translate_color s \<and> g_flush s' = g_flush s \<and> length (ptr s') = length (ptr s) \<and>
     (\<forall>i < length (ptr s). i mod unat (g_stride s) \<ge> unat (g_width s) \<or> i div unat (g_stride s) \<ge> unat (g_height s) \<longrightarrow>
        ptr s' ! i = ptr s ! i)"

definition screen_same :: "Screen \<Rightarrow> Screen \<Rightarrow> bool" where
  "screen_same scr scr' \<longleftrightarrow> scr_mutex scr' = scr_mutex scr \<and> visible_only (surface scr) (surface scr')"

lemma visible_only_refl [simp]: "visible_only s s"
  by (simp add: visible_only_def)

lemma visible_only_trans: "visible_only s1 s2 \<Longrightarrow> visible_only s2 s3 \<Longrightarrow> visible_only s1 s3"
  by (auto simp: visible_only_def)

lemma visible_only_stored: "visible_only s s' \<Longrightarrow> stored s' = stored s"
  by (rule ext) (auto simp: visible_only_def stored_def flatten_def split: pixel_ops.splits)

lemma visible_only_wf: "visible_only s s' \<Longrightarrow> surface_wf s' = surface_wf s"
  by (auto simp: visible_only_def surface_wf_def)

lemma visible_only_flush [simp]: "visible_only s (gfx_flush_rows s' a b) = visible_only s s'"
  by (auto simp: visible_only_def gfx_flush_rows_same)

lemma paints_visible_only:
  assumes "paints s R v s'" "\<And>a b. R a b \<Longrightarrow> a < unat (g_width s) \<and> b < unat (g_height s)"
  shows "visible_only s s'"
proof -
  obtain px where px: "s' = s\<lparr>ptr := px\<rparr>" "length px = length (ptr s)"
    "\<forall>i < length px. px ! i = (let a = i mod unat (g_stride s); b = i div unat (g_stride s) in if R a b then v a b else ptr s ! i)"
    using assms(1) by (auto simp: paints_def)
  then show ?thesis using assms(2) by (fastforce simp: visible_only_def Let_def)
qed

lemma clear_row_paints:
  assumes "surface_wf (surface scr)" "unat x + n \<le> 2 ^ 32"
  shows "\<exists>s. clear_row c x y n scr = Some (scr\<lparr>surface := s\<rparr>) \<and>
     paints (surface scr) (\<lambda>a b. unat x \<le> a \<and> a < unat x + n \<and> b = unat y \<and>
       a < unat (g_width (surface scr)) \<and> b < unat (g_height (surface scr))) (\<lambda>_ _. stored (surface scr) c) s"
  using assms
proof (induction n arbitrary: scr x)
  case 0
  then show ?case by (auto intro!: exI [of _ "surface scr"] paints_none)
next
  case (Suc n)
  let ?s = "surface scr"
  obtain s1 where s1: "gfx_putpixel ?s x y c = Some s1"
    "paints ?s (\<lambda>a b. a = unat x \<and> b = unat y \<and> a < unat (g_width ?s) \<and> b < unat (g_height ?s)) (\<lambda>_ _. stored ?s c) s1"
    using gfx_putpixel_paints [OF Suc.prems(1)] by blast
  note fr = paints_frame [OF s1(2)] and wf1 = paints_wf [OF s1(2) Suc.prems(1)]
  show ?case
  proof (cases "n = 0")
    case True
    then show ?thesis using s1(1) by (intro exI [of _ s1] conjI paints_cong [OF s1(2)]) (auto simp: screen_set_pixel_def)
  next
    case False
    then have x1: "unat (x + 1) = unat x + 1" using Suc.prems(2) by (intro unat_Suc_small) auto
    then obtain s2 where s2: "clear_row c (x + 1) y n (scr\<lparr>surface := s1\<rparr>) = Some (scr\<lparr>surface := s2\<rparr>)"
      "paints s1 (\<lambda>a b. unat x + 1 \<le> a \<and> a < unat x + 1 + n \<and> b = unat y \<and> a < unat (g_width ?s) \<and> b < unat (g_height ?s)) (\<lambda>_ _. stored ?s c) s2"
      using Suc.IH [of "scr\<lparr>surface := s1\<rparr>" "x + 1"] wf1 Suc.prems(2) fr paints_stored [OF s1(2)] by auto
    have "paints ?s (\<lambda>a b. unat x \<le> a \<and> a < unat x + Suc n \<and> b = unat y \<and> a < unat (g_width ?s) \<and> b < unat (g_height ?s)) (\<lambda>_ _. stored ?s c) s2"
      by (rule paints_cong [OF paints_trans [OF s1(2) s2(2)]]) auto
    then show ?thesis using s1(1) s2(1) by (auto simp: screen_set_pixel_def)
  qed
qed

lemma clear_rows_paints:
  assumes "surface_wf (surface scr)" "unat y + n \<le> 2 ^ 32"
  shows "\<exists>s. clear_rows c 0 y n scr = Some (scr\<lparr>surface := s\<rparr>) \<and>
     paints (surface scr) (\<lambda>a b. unat y \<le> b \<and> b < unat y + n \<and>
       a < unat (g_width (surface scr)) \<and> b < unat (g_height (surface scr))) (\<lambda>_ _. stored (surface scr) c) s"
  using assms
proof (induction n arbitrary: scr y)
  case 0
  then show ?case by (auto intro!: exI [of _ "surface scr"] paints_none)
next
  case (Suc n)
  let ?s = "surface scr"
  have "unat (0 :: u32) + unat (g_width ?s) \<le> 2 ^ 32" using unat_u32 [of "g_width ?s"] by simp
  from clear_row_paints [OF Suc.prems(1) this, of c y] obtain s1
    where s1: "clear_row c 0 y (unat (g_width ?s)) scr = Some (scr\<lparr>surface := s1\<rparr>)"
      and p1: "paints ?s (\<lambda>a b. unat (0 :: u32) \<le> a \<and> a < unat (0 :: u32) + unat (g_width ?s) \<and> b = unat y \<and>
        a < unat (g_width ?s) \<and> b < unat (g_height ?s)) (\<lambda>_ _. stored ?s c) s1"
    by blast
  have s1: "clear_row c 0 y (unat (g_width ?s)) scr = Some (scr\<lparr>surface := s1\<rparr>)"
    "paints ?s (\<lambda>a b. b = unat y \<and> a < unat (g_width ?s) \<and> b < unat (g_height ?s)) (\<lambda>_ _. stored ?s c) s1"
    using s1 by (auto intro: paints_cong [OF p1])
  note fr = paints_frame [OF s1(2)] and wf1 = paints_wf [OF s1(2) Suc.prems(1)]
  show ?case
  proof (cases "n = 0")
    case True
    then show ?thesis using s1(1) by (intro exI [of _ s1] conjI paints_cong [OF s1(2)]) auto
  next
    case False
    then have y1: "unat (y + 1) = unat y + 1" using Suc.prems(2) by (intro unat_Suc_small) auto
    then obtain s2 where s2: "clear_rows c 0 (y + 1) n (scr\<lparr>surface := s1\<rparr>) = Some (scr\<lparr>surface := s2\<rparr>)"
      "paints s1 (\<lambda>a b. unat y + 1 \<le> b \<and> b < unat y + 1 + n \<and> a < unat (g_width ?s) \<and> b < unat (g_height ?s)) (\<lambda>_ _. stored ?s c) s2"
      using Suc.IH [of "scr\<lparr>surface := s1\<rparr>" "y + 1"] wf1 Suc.prems(2) fr paints_stored [OF s1(2)] by auto
    have "paints ?s (\<lambda>a b. unat y \<le> b \<and> b < unat y + Suc n \<and> a < unat (g_width ?s) \<and> b < unat (g_height ?s)) (\<lambda>_ _. stored ?s c) s2"
      by (rule paints_cong [OF paints_trans [OF s1(2) s2(2)]]) auto
    then show ?thesis using s1(1) s2(1) by auto
  qed
qed

section \<open>The screen as a text display\<close>

definition screen_ok :: "nat \<Rightarrow> nat \<Rightarrow> Screen \<Rightarrow> bool" where
  "screen_ok W H scr \<longleftrightarrow> surface_wf (surface scr) \<and> unat (g_width (surface scr)) = W \<and> unat (g_height (surface scr)) = H \<and>
     FONT_X \<le> W \<and> FONT_Y \<le> H \<and> W < 2 ^ 31 \<and> H < 2 ^ 31"

definition cell_pixel :: "(u32 \<Rightarrow> u32) \<Rightarrow> u32 \<Rightarrow> cell \<Rightarrow> nat \<Rightarrow> nat \<Rightarrow> u32" where
  "cell_pixel st bg v a b =
     (case v of None \<Rightarrow> st bg | Some (ch, fg) \<Rightarrow> if glyph ch a b then st fg else st bg)"

definition cell_looks :: "u32 \<Rightarrow> Screen \<Rightarrow> nat \<Rightarrow> nat \<Rightarrow> cell \<Rightarrow> bool" where
  "cell_looks bg scr r c v \<longleftrightarrow> (\<forall>a < FONT_X. \<forall>b < FONT_Y.
     pixel (surface scr) (FONT_X * c + a) (FONT_Y * r + b) = cell_pixel (stored (surface scr)) bg v a b)"

abbreviation screen_blit :: "u32 \<Rightarrow> u8 \<Rightarrow> u32 \<Rightarrow> nat \<Rightarrow> nat \<Rightarrow> Screen \<Rightarrow> Screen option" where
  "screen_blit bg ch fg r c scr \<equiv> blit_character scr ch (of_nat (FONT_X * c)) (of_nat (FONT_Y * r)) fg bg"

abbreviation screen_clear :: "u32 \<Rightarrow> nat \<Rightarrow> Screen \<Rightarrow> Screen option" where
  "screen_clear bg r scr \<equiv> clear_rows bg 0 (of_nat (FONT_Y * r)) FONT_Y scr"

lemma cell_bounds:
  assumes "screen_ok W H scr" "r < H div FONT_Y" "c < W div FONT_X"
  shows "FONT_X * c + FONT_X \<le> W" "FONT_Y * r + FONT_Y \<le> H"
    "unat (of_nat (FONT_X * c) :: u32) = FONT_X * c" "unat (of_nat (FONT_Y * r) :: u32) = FONT_Y * r"
    "W \<le> unat (g_stride (surface scr))"
proof -
  show b: "FONT_X * c + FONT_X \<le> W" "FONT_Y * r + FONT_Y \<le> H" using assms(2,3) by (simp_all add: less_eq_div_iff_mult_less_eq [symmetric] algebra_simps)
  have "W < 2 ^ 32" "H < 2 ^ 32" using assms(1) unat_u32 by (auto simp: screen_ok_def)
  then show "unat (of_nat (FONT_X * c) :: u32) = FONT_X * c" "unat (of_nat (FONT_Y * r) :: u32) = FONT_Y * r"
    using b by (intro unat_of_nat_small32; linarith)+
  show "W \<le> unat (g_stride (surface scr))" using assms(1) surface_wf_stride by (auto simp: screen_ok_def)
qed

lemma paints_cell:
  assumes "screen_ok W H scr" "paints (surface scr) R v s" "r < H div FONT_Y" "c < W div FONT_X" "a < FONT_X" "b < FONT_Y"
  shows "pixel s (FONT_X * c + a) (FONT_Y * r + b) =
     (if R (FONT_X * c + a) (FONT_Y * r + b) then v (FONT_X * c + a) (FONT_Y * r + b)
      else pixel (surface scr) (FONT_X * c + a) (FONT_Y * r + b))"
  using cell_bounds [OF assms(1,3,4)] assms(1,5,6)
  by (intro paints_pixel [OF assms(2)]) (auto simp: screen_ok_def)

lemma paints_screen:
  assumes "screen_ok W H scr" "paints (surface scr) R v s" "\<And>a b. R a b \<Longrightarrow> a < W \<and> b < H"
  shows "screen_ok W H (scr\<lparr>surface := s\<rparr>)" "screen_same scr (scr\<lparr>surface := s\<rparr>)"
proof -
  have vo: "visible_only (surface scr) s" using assms(1,3) by (intro paints_visible_only [OF assms(2)]) (auto simp: screen_ok_def)
  show "screen_same scr (scr\<lparr>surface := s\<rparr>)" using vo by (simp add: screen_same_def)
  show "screen_ok W H (scr\<lparr>surface := s\<rparr>)" using assms(1) vo visible_only_wf [OF vo] by (auto simp: screen_ok_def visible_only_def)
qed

lemma screen_blit_cell:
  assumes ok: "screen_ok W H scr" "r < H div FONT_Y" "c < W div FONT_X" and ch: "unat ch < 128" and blank: "cell_looks bg scr r c None"
  shows "\<exists>scr'. screen_blit bg ch fg r c scr = Some scr' \<and> screen_ok W H scr' \<and> screen_same scr scr' \<and>
     cell_looks bg scr' r c (Some (ch, fg)) \<and>
     (\<forall>r' c' v. r' < H div FONT_Y \<and> c' < W div FONT_X \<and> (r', c') \<noteq> (r, c) \<and> cell_looks bg scr r' c' v \<longrightarrow> cell_looks bg scr' r' c' v)"
proof -
  let ?s = "surface scr" and ?x = "of_nat (FONT_X * c) :: u32" and ?y = "of_nat (FONT_Y * r) :: u32"
  let ?R = "\<lambda>a b. FONT_X * c \<le> a \<and> FONT_Y * r \<le> b \<and> glyph ch (a - FONT_X * c) (b - FONT_Y * r)"
  note cb = cell_bounds [OF ok]
  have "surface_wf ?s" "unat ?x + FONT_X \<le> unat (g_width ?s)" "unat ?y + FONT_Y \<le> unat (g_height ?s)"
    using ok(1) cb unfolding cb(3,4) by (auto simp: screen_ok_def)
  from font_draw_char_paints [OF this ch, of fg] obtain s
    where s: "font_draw_char ?s ch ?x ?y fg = Some (gfx_flush_rows s ?y (?y + of_nat FONT_Y))"
      "paints ?s ?R (\<lambda>_ _. stored ?s fg) s" unfolding cb(3,4) by blast
  define s' where "s' = gfx_flush_rows s ?y (?y + of_nat FONT_Y)"
  have in_cell: "?R (FONT_X * c' + a) (FONT_Y * r' + b) \<longleftrightarrow> r' = r \<and> c' = c \<and> glyph ch a b" if "a < FONT_X" "b < FONT_Y" for r' c' a b
  proof -
    have "c' = c" if "FONT_X * c \<le> FONT_X * c' + a" "FONT_X * c' + a - FONT_X * c < FONT_X" using that \<open>a < FONT_X\<close> by linarith
    moreover have "r' = r" if "FONT_Y * r \<le> FONT_Y * r' + b" "FONT_Y * r' + b - FONT_Y * r < FONT_Y" using that \<open>b < FONT_Y\<close> by linarith
    ultimately show ?thesis by (auto simp: glyph_def)
  qed
  have vis: "a < W \<and> b < H" if "?R a b" for a b using that cb(1,2) by (auto simp: glyph_def)
  note ps = paints_screen [OF ok(1) s(2) vis] and st = visible_only_stored [of ?s s]
  have vo: "visible_only ?s s" using ps(2) by (simp add: screen_same_def)
  have px: "pixel s' (FONT_X * c' + a) (FONT_Y * r' + b) =
      (if r' = r \<and> c' = c \<and> glyph ch a b then stored ?s fg else pixel ?s (FONT_X * c' + a) (FONT_Y * r' + b))"
    if "r' < H div FONT_Y" "c' < W div FONT_X" "a < FONT_X" "b < FONT_Y" for r' c' a b
    using paints_cell [OF ok(1) s(2) that] in_cell [OF that(3,4), of c' r'] by (simp add: s'_def)
  have st': "stored s' = stored ?s" using st [OF vo] by (simp add: s'_def)
  have "screen_blit bg ch fg r c scr = Some (scr\<lparr>surface := s'\<rparr>)" using s(1) by (simp add: blit_character_def s'_def)
  moreover have "screen_ok W H (scr\<lparr>surface := s'\<rparr>)" "screen_same scr (scr\<lparr>surface := s'\<rparr>)"
    using ps by (simp_all add: s'_def screen_ok_def screen_same_def gfx_flush_rows_same)
  moreover have "cell_looks bg (scr\<lparr>surface := s'\<rparr>) r c (Some (ch, fg))"
    using blank px [OF ok(2,3)] by (auto simp: cell_looks_def st' cell_pixel_def)
  moreover have "cell_looks bg (scr\<lparr>surface := s'\<rparr>) r' c' v"
    if "r' < H div FONT_Y" "c' < W div FONT_X" "(r', c') \<noteq> (r, c)" "cell_looks bg scr r' c' v" for r' c' v
    using that(3,4) px [OF that(1,2)] by (auto simp: cell_looks_def st')
  ultimately show ?thesis by blast
qed

lemma screen_clear_cells:
  assumes ok: "screen_ok W H scr" "r < H div FONT_Y"
  shows "\<exists>scr'. screen_clear bg r scr = Some scr' \<and> screen_ok W H scr' \<and> screen_same scr scr' \<and>
     (\<forall>c < W div FONT_X. cell_looks bg scr' r c None) \<and>
     (\<forall>r' c' v. r' < H div FONT_Y \<and> c' < W div FONT_X \<and> r' \<noteq> r \<and> cell_looks bg scr r' c' v \<longrightarrow> cell_looks bg scr' r' c' v)"
proof -
  let ?s = "surface scr" and ?y = "of_nat (FONT_Y * r) :: u32"
  let ?R = "\<lambda>a b. FONT_Y * r \<le> b \<and> b < FONT_Y * r + FONT_Y \<and> a < unat (g_width ?s) \<and> b < unat (g_height ?s)"
  have c0: "0 < W div FONT_X" using ok(1) by (auto simp: screen_ok_def div_greater_zero_iff)
  note cb = cell_bounds [OF ok c0]
  have "surface_wf ?s" "unat ?y + FONT_Y \<le> 2 ^ 32" using ok(1) cb(2) unat_u32 [of "g_height ?s"] unfolding cb(4) by (auto simp: screen_ok_def)
  from clear_rows_paints [OF this] obtain s where s: "screen_clear bg r scr = Some (scr\<lparr>surface := s\<rparr>)"
    "paints ?s ?R (\<lambda>_ _. stored ?s bg) s" unfolding cb(4) by blast
  have vis: "a < W \<and> b < H" if "?R a b" for a b using that ok(1) by (auto simp: screen_ok_def)
  note ps = paints_screen [OF ok(1) s(2) vis]
  have st: "stored s = stored ?s" using ps(2) visible_only_stored by (simp add: screen_same_def)
  have px: "pixel s (FONT_X * c' + a) (FONT_Y * r' + b) = (if r' = r then stored ?s bg else pixel ?s (FONT_X * c' + a) (FONT_Y * r' + b))"
    if "r' < H div FONT_Y" "c' < W div FONT_X" "a < FONT_X" "b < FONT_Y" for r' c' a b
  proof -
    have "?R (FONT_X * c' + a) (FONT_Y * r' + b) \<longleftrightarrow> r' = r"
      using cell_bounds [OF ok(1) that(1,2)] that(3,4) ok(1) by (auto simp: screen_ok_def)
    then show ?thesis using paints_cell [OF ok(1) s(2) that] by simp
  qed
  have "cell_looks bg (scr\<lparr>surface := s\<rparr>) r c None" if "c < W div FONT_X" for c
    using px [OF ok(2) that] by (auto simp: cell_looks_def st cell_pixel_def)
  moreover have "cell_looks bg (scr\<lparr>surface := s\<rparr>) r' c' v"
    if "r' < H div FONT_Y" "c' < W div FONT_X" "r' \<noteq> r" "cell_looks bg scr r' c' v" for r' c' v
    using that(3,4) px [OF that(1,2)] by (auto simp: cell_looks_def st)
  ultimately show ?thesis using s(1) ps by blast
qed

interpretation lcd: text_display "screen_ok W H" "W div FONT_X" "H div FONT_Y" "cell_looks bg" screen_same "screen_blit bg" "screen_clear bg"
  for W H :: nat and bg :: u32
proof
  show "0 < W div FONT_X \<and> 0 < H div FONT_Y" if "screen_ok W H scr" for scr
    using that by (auto simp: screen_ok_def div_greater_zero_iff)
  show "screen_same scr scr" for scr by (simp add: screen_same_def)
  show "screen_same s1 s3" if "screen_same s1 s2" "screen_same s2 s3" for s1 s2 s3
    using that visible_only_trans by (auto simp: screen_same_def)
qed (rule screen_blit_cell screen_clear_cells; assumption)+

section \<open>Printing\<close>

text \<open>The cursor of the screen does not matter to drawing and clearing.\<close>

abbreviation at_cursor :: "u32 \<Rightarrow> u32 \<Rightarrow> Screen \<Rightarrow> Screen" where
  "at_cursor x y scr \<equiv> scr\<lparr>cursor_x := x, cursor_y := y\<rparr>"

lemma screen_set_pixel_cursor: "screen_set_pixel (at_cursor u v scr) x y c = map_option (at_cursor u v) (screen_set_pixel scr x y c)"
  by (cases "gfx_putpixel (surface scr) x y c") (simp_all add: screen_set_pixel_def)

lemma clear_row_cursor: "clear_row c x y n (at_cursor u v scr) = map_option (at_cursor u v) (clear_row c x y n scr)"
proof (induction n arbitrary: x scr)
  case (Suc n)
  then show ?case by (cases "screen_set_pixel scr x y c") (simp_all add: screen_set_pixel_cursor)
qed simp

lemma clear_rows_cursor: "clear_rows c x y n (at_cursor u v scr) = map_option (at_cursor u v) (clear_rows c x y n scr)"
proof (induction n arbitrary: y scr)
  case (Suc n)
  then show ?case by (cases "clear_row c x y (unat (g_width (surface scr))) scr") (simp_all add: clear_row_cursor)
qed simp

lemma blit_character_cursor: "blit_character (at_cursor u v scr) ch x y fg bg = map_option (at_cursor u v) (blit_character scr ch x y fg bg)"
  by (cases "font_draw_char (surface scr) ch x y fg") (simp_all add: blit_character_def)

definition screen_at :: "nat \<Rightarrow> nat \<Rightarrow> Screen \<Rightarrow> Screen" where
  "screen_at r c scr = at_cursor (of_nat (FONT_X * c)) (of_nat (FONT_Y * r)) scr"

lemma wrap_tests:
  assumes "screen_ok W H scr" "c \<le> W div FONT_X" "r < H div FONT_Y"
  shows "needs_x_wrap scr (of_nat (FONT_X * c)) \<longleftrightarrow> W div FONT_X \<le> c"
    and "needs_y_wrap scr (of_nat (FONT_Y * r) + of_nat FONT_Y) \<longleftrightarrow> \<not> Suc r < H div FONT_Y"
proof -
  have sz: "unat (g_width (surface scr)) = W" "unat (g_height (surface scr)) = H" "W < 2 ^ 31" "H < 2 ^ 31"
    using assms(1) by (simp_all add: screen_ok_def)
  have c: "FONT_X * c \<le> W" and r: "FONT_Y * r + FONT_Y \<le> H"
    using assms(2,3) by (simp_all add: less_eq_div_iff_mult_less_eq [symmetric] algebra_simps)
  have x: "(of_nat (FONT_X * c) + of_nat FONT_X :: u32) = of_nat (FONT_X * c + FONT_X)" by simp
  have y: "(of_nat (FONT_Y * r) + of_nat FONT_Y + of_nat FONT_Y :: u32) = of_nat (FONT_Y * r + FONT_Y + FONT_Y)" by simp
  have ux: "unat (of_nat (FONT_X * c + FONT_X) :: u32) = FONT_X * c + FONT_X" using c sz(3) by (intro unat_of_nat_small32) simp
  have uy: "unat (of_nat (FONT_Y * r + FONT_Y + FONT_Y) :: u32) = FONT_Y * r + FONT_Y + FONT_Y" using r sz(4) by (intro unat_of_nat_small32) simp
  have "needs_x_wrap scr (of_nat (FONT_X * c)) \<longleftrightarrow> W < FONT_X * c + FONT_X"
    unfolding needs_x_wrap_def x word_less_nat_alt ux sz(1) ..
  also have "\<dots> \<longleftrightarrow> W div FONT_X \<le> c" by linarith
  finally show "needs_x_wrap scr (of_nat (FONT_X * c)) \<longleftrightarrow> W div FONT_X \<le> c" .
  have "needs_y_wrap scr (of_nat (FONT_Y * r) + of_nat FONT_Y) \<longleftrightarrow> H < FONT_Y * r + FONT_Y + FONT_Y"
    unfolding needs_y_wrap_def y word_less_nat_alt uy sz(2) ..
  also have "\<dots> \<longleftrightarrow> \<not> Suc r < H div FONT_Y" by linarith
  finally show "needs_y_wrap scr (of_nat (FONT_Y * r) + of_nat FONT_Y) \<longleftrightarrow> \<not> Suc r < H div FONT_Y" .
qed

lemma rasterise_char_types:
  assumes "screen_ok W H scr" "c \<le> W div FONT_X" "r < H div FONT_Y"
    and "type_char (screen_blit bg) (screen_clear bg) (W div FONT_X) (H div FONT_Y) fg ch (scr, r, c) = Some (scr', r', c')"
  shows "rasterise_char fg bg ch (screen_at r c scr) = Some (screen_at r' c' scr')"
proof -
  let ?R = "H div FONT_Y" and ?r = "next_row (H div FONT_Y) r"
  have ok: "screen_ok W H (at_cursor u v scr)" for u v using assms(1) by (simp add: screen_ok_def)
  note wr = wrap_tests [OF ok assms(2,3)]
  have row: "(if needs_y_wrap scr1 (cursor_y scr1) then scr1\<lparr>cursor_y := 0\<rparr> else scr1) = screen_at ?r 0 scr"
    if "scr1 = at_cursor 0 (of_nat (FONT_Y * r) + of_nat FONT_Y) scr" for scr1
    using wr(2) that by (auto simp: screen_at_def next_row_def algebra_simps)
  have blit: "(do { s \<leftarrow> blit_character (screen_at r1 c1 s1) ch (cursor_x (screen_at r1 c1 s1)) (cursor_y (screen_at r1 c1 s1)) fg bg;
      Some (s\<lparr>cursor_x := cursor_x s + of_nat FONT_X\<rparr>) }) = map_option (screen_at r1 (Suc c1)) (screen_blit bg ch fg r1 c1 s1)" for r1 c1 s1
    by (cases "screen_blit bg ch fg r1 c1 s1") (simp_all add: screen_at_def blit_character_cursor algebra_simps)
  have clear: "clear_line (screen_at ?r 0 scr) bg = map_option (screen_at ?r 0) (screen_clear bg ?r scr)"
    unfolding clear_line_def screen_at_def by (simp add: clear_rows_cursor)
  have cur: "cursor_x (screen_at r c scr) = of_nat (FONT_X * c)"
    "(screen_at r c scr)\<lparr>cursor_x := 0, cursor_y := cursor_y (screen_at r c scr) + of_nat FONT_Y\<rparr> =
       at_cursor 0 (of_nat (FONT_Y * r) + of_nat FONT_Y) scr" by (simp_all add: screen_at_def)
  have x: "needs_x_wrap (screen_at r c scr) (of_nat (FONT_X * c)) \<longleftrightarrow> W div FONT_X \<le> c"
    using wr(1) unfolding screen_at_def .
  show ?thesis
  proof (cases "W div FONT_X \<le> c \<or> ch = 10")
    case True
    have "rasterise_char fg bg ch (screen_at r c scr) = do {
        s \<leftarrow> map_option (screen_at ?r 0) (screen_clear bg ?r scr);
        if ch = 10 then Some s else do {
          s' \<leftarrow> blit_character s ch (cursor_x s) (cursor_y s) fg bg; Some (s'\<lparr>cursor_x := cursor_x s' + of_nat FONT_X\<rparr>) } }"
      using True unfolding rasterise_char_def Let_def cur(1) x cur(2) row [OF refl] clear by (simp only: if_True)
    moreover obtain s1 where s1: "screen_clear bg ?r scr = Some s1"
      and rest: "if ch = 10 then scr' = s1 \<and> r' = ?r \<and> c' = 0 else screen_blit bg ch fg ?r 0 s1 = Some scr' \<and> r' = ?r \<and> c' = Suc 0"
      using assms(4) True by (auto simp: type_char_def bind_eq_Some_conv split: if_splits)
    ultimately have "rasterise_char fg bg ch (screen_at r c scr) =
        (if ch = 10 then Some (screen_at ?r 0 s1) else map_option (screen_at ?r (Suc 0)) (screen_blit bg ch fg ?r 0 s1))"
      by (simp only: option.map bind.bind_lunit blit)
    then show ?thesis using rest by (simp split: if_splits)
  next
    case False
    then have "rasterise_char fg bg ch (screen_at r c scr) = map_option (screen_at r (Suc c)) (screen_blit bg ch fg r c scr)"
      unfolding rasterise_char_def Let_def cur(1) x blit [symmetric] by (simp add: cur(1))
    then show ?thesis using False assms(4) by (auto simp: type_char_def bind_eq_Some_conv)
  qed
qed

text \<open>\<open>screen_shows bg W H scr T\<close>: the pixels of the screen are the cells of \<open>T\<close>, on background \<open>bg\<close>.\<close>

definition screen_shows :: "u32 \<Rightarrow> nat \<Rightarrow> nat \<Rightarrow> Screen \<Rightarrow> terminal \<Rightarrow> bool" where
  "screen_shows bg W H scr T \<longleftrightarrow> screen_ok W H scr \<and>
     t_row T < H div FONT_Y \<and> t_col T \<le> W div FONT_X \<and> (\<forall>c \<ge> t_col T. grid T (t_row T) c = None) \<and>
     cursor_x scr = of_nat (FONT_X * t_col T) \<and> cursor_y scr = of_nat (FONT_Y * t_row T) \<and>
     (\<forall>r < H div FONT_Y. \<forall>c < W div FONT_X. cell_looks bg scr r c (grid T r c))"

lemma screen_at_same:
  "screen_ok W H (screen_at r c scr) = screen_ok W H scr" "cell_looks bg (screen_at r c scr) = cell_looks bg scr"
  "screen_same scr0 (screen_at r c scr) = screen_same scr0 scr"
  by (simp_all add: screen_at_def screen_ok_def cell_looks_def screen_same_def fun_eq_iff)

lemma screen_shows_at:
  "lcd.displays W H bg scr T \<Longrightarrow> screen_shows bg W H (screen_at (t_row T) (t_col T) scr) T"
  by (simp add: lcd.displays_def screen_shows_def screen_at_same) (simp add: screen_at_def)

lemma screen_shows_displays:
  "screen_shows bg W H scr T \<Longrightarrow> lcd.displays W H bg scr T \<and> screen_at (t_row T) (t_col T) scr = scr"
  by (simp add: lcd.displays_def screen_shows_def screen_at_def)

lemma rasterise_char_shows:
  assumes "screen_shows bg W H scr T" "unat ch < 128"
  shows "\<exists>scr'. rasterise_char fg bg ch scr = Some scr' \<and> screen_same scr scr' \<and>
     screen_shows bg W H scr' (term_put (W div FONT_X) (H div FONT_Y) fg ch T)"
proof -
  let ?T = "term_put (W div FONT_X) (H div FONT_Y) fg ch T"
  have d: "lcd.displays W H bg scr T" and at: "screen_at (t_row T) (t_col T) scr = scr" using screen_shows_displays [OF assms(1)] by auto
  obtain scr' where t: "type_char (screen_blit bg) (screen_clear bg) (W div FONT_X) (H div FONT_Y) fg ch (scr, t_row T, t_col T) =
      Some (scr', t_row ?T, t_col ?T)" "screen_same scr scr'" "lcd.displays W H bg scr' ?T"
    using lcd.type_char_displays [OF d assms(2)] by blast
  have "rasterise_char fg bg ch scr = Some (screen_at (t_row ?T) (t_col ?T) scr')"
    using rasterise_char_types [OF _ _ _ t(1)] d unfolding at by (simp add: lcd.displays_def)
  then show ?thesis using t(2) screen_shows_at [OF t(3)] by (auto simp: screen_at_same)
qed

text \<open>The text the loop prints: up to the length given, and to the terminator.\<close>

definition printed :: "bytes \<Rightarrow> nat \<Rightarrow> bytes" where
  "printed str len = take len (takeWhile (\<lambda>ch. ch \<noteq> 0) str)"

lemma rasterise_loop_shows:
  assumes "screen_shows bg W H scr T" "\<forall>ch \<in> set (printed str len). unat ch < 128" "length (printed str len) < length str"
  shows "\<exists>scr'. rasterise_loop fg bg str len scr = Some scr' \<and> screen_same scr scr' \<and>
     screen_shows bg W H scr' (term_puts (W div FONT_X) (H div FONT_Y) fg (printed str len) T)"
  using assms
proof (induction str arbitrary: len scr T)
  case (Cons ch str)
  show ?case
  proof (cases "ch = 0 \<or> len = 0")
    case True
    then have "printed (ch # str) len = []" by (auto simp: printed_def)
    then show ?thesis using True Cons.prems(1) by (auto simp: term_puts_def screen_same_def)
  next
    case False
    then have p: "printed (ch # str) len = ch # printed str (len - 1)" by (cases len) (auto simp: printed_def)
    have "unat ch < 128" using Cons.prems(2) p by simp
    from rasterise_char_shows [OF Cons.prems(1) this] obtain scr1
      where s1: "rasterise_char fg bg ch scr = Some scr1" "screen_same scr scr1"
        "screen_shows bg W H scr1 (term_put (W div FONT_X) (H div FONT_Y) fg ch T)" by blast
    from Cons.IH [OF s1(3), of "len - 1"] Cons.prems(2,3) p obtain scr2
      where "rasterise_loop fg bg str (len - 1) scr1 = Some scr2" "screen_same scr1 scr2"
        "screen_shows bg W H scr2 (term_puts (W div FONT_X) (H div FONT_Y) fg (printed str (len - 1)) (term_put (W div FONT_X) (H div FONT_Y) fg ch T))"
      by auto
    then show ?thesis using False p s1 lcd.same_trans [OF s1(2)] by (auto simp: term_puts_def)
  qed
qed simp

text \<open>A string of exactly \<open>len\<close> bytes without a terminator is read past its end.\<close>

lemma rasterise_loop_overread:
  assumes "screen_shows bg W H scr T" "0 \<notin> set str" "length str \<le> len" "\<forall>ch \<in> set str. unat ch < 128"
  shows "rasterise_loop fg bg str len scr = None"
  using assms
proof (induction str arbitrary: len scr T)
  case (Cons ch str)
  have "unat ch < 128" using Cons.prems(4) by simp
  from rasterise_char_shows [OF Cons.prems(1) this] obtain scr1 where "rasterise_char fg bg ch scr = Some scr1"
    "screen_shows bg W H scr1 (term_put (W div FONT_X) (H div FONT_Y) fg ch T)" by blast
  then show ?case using Cons.IH [of scr1 _ "len - 1"] Cons.prems by auto
qed simp

text \<open>Filling the screen with a colour that is stored alike by a fill and by a pixel.\<close>

lemma screen_fill_shows:
  assumes "screen_ok W H scr" "\<not> g_flush (surface scr)" "fill_stored (surface scr) bg = stored (surface scr) bg"
  shows "\<exists>scr'. screen_fill scr bg = Some scr' \<and> screen_same scr scr' \<and> screen_shows bg W H scr' blank_terminal"
proof -
  let ?s = "surface scr"
  have wf: "surface_wf ?s" using assms(1) by (simp add: screen_ok_def)
  obtain s where s: "gfx_clear ?s bg = Some s" "paints ?s (\<lambda>a b. a < unat (g_width ?s) \<and> b < unat (g_height ?s)) (\<lambda>_ _. stored ?s bg) s"
    using gfx_clear_paints [OF wf assms(2), of bg] assms(3) by auto
  note ps = paints_screen [OF assms(1) s(2)]
  have st: "stored s = stored ?s" using ps(2) assms(1) visible_only_stored by (simp add: screen_same_def screen_ok_def)
  have "cell_looks bg (scr\<lparr>surface := s\<rparr>) r c None" if "r < H div FONT_Y" "c < W div FONT_X" for r c
    using paints_cell [OF assms(1) s(2) that] cell_bounds [OF assms(1) that] assms(1)
    by (auto simp: cell_looks_def st cell_pixel_def screen_ok_def)
  moreover have "screen_ok W H (scr\<lparr>surface := s\<rparr>)" "screen_same scr (scr\<lparr>surface := s\<rparr>)" using ps assms(1) by (auto simp: screen_ok_def)
  ultimately have "lcd.displays W H bg (scr\<lparr>surface := s\<rparr>) blank_terminal"
    using lcd.size [of W H "scr\<lparr>surface := s\<rparr>"] by (simp add: lcd.displays_def blank_terminal_def)
  from screen_shows_at [OF this] have "screen_shows bg W H (scr\<lparr>surface := s, cursor_x := 0, cursor_y := 0\<rparr>) blank_terminal"
    by (simp add: screen_at_def blank_terminal_def)
  moreover have "screen_same scr (scr\<lparr>surface := s, cursor_x := 0, cursor_y := 0\<rparr>)" using ps assms(1) by (auto simp: screen_ok_def screen_same_def)
  ultimately show ?thesis using s(1) by (auto simp: screen_fill_def)
qed

section \<open>Under the mutex\<close>

definition mutex_free :: "mutex_t \<Rightarrow> bool" where
  "mutex_free m \<longleftrightarrow> m_magic m \<and> holder m = None \<and> m_count m = 0"

lemma screen_shows_mutex [simp]: "screen_shows bg W H (scr\<lparr>scr_mutex := m\<rparr>) T = screen_shows bg W H scr T"
  by (simp add: screen_shows_def screen_ok_def cell_looks_def)

lemma text_rasterise_string_shows:
  assumes "mutex_free (scr_mutex scr)" "screen_shows bg W H scr T"
    and "\<forall>ch \<in> set (printed str (unat len)). unat ch < 128" "length (printed str (unat len)) < length str"
  shows "\<exists>scr'. text_rasterise_string K scr fg bg str len = Some (Returned NO_ERROR scr' K) \<and> screen_same scr scr' \<and>
     screen_shows bg W H scr' (term_puts (W div FONT_X) (H div FONT_Y) fg (printed str (unat len)) T)"
proof -
  let ?T = "term_puts (W div FONT_X) (H div FONT_Y) fg (printed str (unat len)) T"
  define m where "m = (scr_mutex scr)\<lparr>m_count := 1, holder := Some (current_thread K)\<rparr>"
  have acq: "mutex_acquire_timeout K (scr_mutex scr) INFINITE_TIME = Some (Returned NO_ERROR m K)"
    using assms(1) by (simp add: mutex_free_def mutex_acquire_timeout_def m_def Let_def)
  have rel: "mutex_release K m = Some (NO_ERROR, scr_mutex scr, K)"
    using assms(1) by (cases "scr_mutex scr") (simp add: mutex_free_def mutex_release_def m_def)
  have "screen_shows bg W H (scr\<lparr>scr_mutex := m\<rparr>) T" using assms(2) by simp
  from rasterise_loop_shows [OF this assms(3,4)] obtain scr1
    where s1: "rasterise_loop fg bg str (unat len) (scr\<lparr>scr_mutex := m\<rparr>) = Some scr1" "screen_same (scr\<lparr>scr_mutex := m\<rparr>) scr1"
      "screen_shows bg W H scr1 ?T" by blast
  have "scr_mutex scr1 = m" using s1(2) by (simp add: screen_same_def)
  then have "text_rasterise_string K scr fg bg str len = Some (Returned NO_ERROR (scr1\<lparr>scr_mutex := scr_mutex scr\<rparr>) K)"
    using acq rel s1(1) by (simp add: text_rasterise_string_def)
  moreover have "screen_same scr (scr1\<lparr>scr_mutex := scr_mutex scr\<rparr>)" using s1(2) by (simp add: screen_same_def)
  ultimately show ?thesis using s1(3) by auto
qed

text \<open>The two screens as the program starts: blank, 80 columns by 22 lines.\<close>

lemma get_framebuffer_surface:
  assumes "framebuffer_pixels \<le> length fb"
  shows "\<exists>s. gfx_create_surface_from_display alloc (get_framebuffer fb) = Some s \<and> surface_wf s \<and> \<not> g_flush s \<and>
     unat (g_width s) = 480 \<and> unat (g_height s) = 272 \<and> unat (g_stride s) = 512 \<and> ptr s = fb \<and>
     fill_stored s 0 = stored s 0"
proof -
  have "272 * 512 \<le> length fb" using assms by (simp add: framebuffer_pixels_def)
  then show ?thesis
    by (simp add: gfx_create_surface_from_display_def gfx_create_surface_def get_framebuffer_def surface_wf_def Let_def
        fill_stored_def stored_def flatten_def ARGB8888_to_ABGR8888_def)
qed

text \<open>A surface that is not flushed, and on which a fill and a pixel store the same background.\<close>

definition clearable :: "u32 \<Rightarrow> gfx_surface \<Rightarrow> bool" where
  "clearable bg s \<longleftrightarrow> \<not> g_flush s \<and> fill_stored s bg = stored s bg"

lemma visible_only_clearable: "visible_only s s' \<Longrightarrow> clearable bg s' = clearable bg s"
  using visible_only_stored [of s s'] by (simp add: clearable_def fill_stored_def) (simp add: visible_only_def)

lemma cleared_screen_shows:
  assumes "surface_wf s" "\<not> g_flush s" "unat (g_width s) = 480" "unat (g_height s) = 272" "fill_stored s 0 = stored s 0"
  shows "\<exists>s'. gfx_clear s 0 = Some s' \<and> clearable 0 s' \<and>
     screen_shows 0 480 272 \<lparr>surface = s', scr_mutex = m, cursor_x = 0, cursor_y = 0\<rparr> blank_terminal"
proof -
  let ?scr = "\<lparr>surface = s, scr_mutex = m, cursor_x = 0, cursor_y = 0\<rparr>"
  have "screen_ok 480 272 ?scr" using assms by (simp add: screen_ok_def)
  from screen_fill_shows [OF this, of 0] assms(2,5) obtain scr' where "screen_fill ?scr 0 = Some scr'" "screen_same ?scr scr'"
    "screen_shows 0 480 272 scr' blank_terminal" by auto
  moreover have "clearable 0 (surface scr')"
    using visible_only_clearable [of s "surface scr'" 0] calculation(2) assms(2,5) by (simp add: screen_same_def clearable_def)
  ultimately show ?thesis by (cases scr') (auto simp: screen_fill_def bind_eq_Some_conv screen_same_def)
qed

definition display_ok :: "display \<Rightarrow> bool" where
  "display_ok d \<longleftrightarrow> (\<forall>fb. framebuffer_pixels \<le> length (fb_mem d fb))"

lemma get_display_surfaces_fbs:
  "length fbs0 = 2 \<Longrightarrow> get_display_surfaces alloc (Some fbs0) d =
     those [gfx_create_surface_from_display alloc (get_framebuffer (fb_mem d G_FRAMEBUFFER1)),
       gfx_create_surface_from_display alloc (get_framebuffer (fb_mem d G_FRAMEBUFFER2))]"
  by (auto simp: get_display_surfaces_def get_all_framebuffers_def numeral_2_eq_2 length_Suc_conv)

lemma setup_screens_shows:
  assumes "display_ok d" "length fbs0 = 2"
  shows "\<exists>p q K'. setup_screens alloc (Some fbs0) K w1 w2 d = Some (p, q, K') \<and>
     screen_shows 0 480 272 p blank_terminal \<and> screen_shows 0 480 272 q blank_terminal \<and>
     mutex_free (scr_mutex p) \<and> mutex_free (scr_mutex q) \<and> clearable 0 (surface p) \<and> clearable 0 (surface q)"
proof -
  have mem: "framebuffer_pixels \<le> length (fb_mem d fb)" for fb using assms(1) by (simp add: display_ok_def)
  obtain s1 s2 where s: "gfx_create_surface_from_display alloc (get_framebuffer (fb_mem d G_FRAMEBUFFER1)) = Some s1"
      "gfx_create_surface_from_display alloc (get_framebuffer (fb_mem d G_FRAMEBUFFER2)) = Some s2"
    and w: "surface_wf s1" "\<not> g_flush s1" "unat (g_width s1) = 480" "unat (g_height s1) = 272" "fill_stored s1 0 = stored s1 0"
      "surface_wf s2" "\<not> g_flush s2" "unat (g_width s2) = 480" "unat (g_height s2) = 272" "fill_stored s2 0 = stored s2 0"
    using get_framebuffer_surface [OF mem, of alloc G_FRAMEBUFFER1] get_framebuffer_surface [OF mem, of alloc G_FRAMEBUFFER2] by blast
  define m1 m2 where "m1 = fst (mutex_init K w1)" and "m2 = fst (mutex_init (snd (mutex_init K w1)) w2)"
  obtain s1' where s1': "gfx_clear s1 0 = Some s1'" "clearable 0 s1'" "screen_shows 0 480 272 \<lparr>surface = s1', scr_mutex = m1, cursor_x = 0, cursor_y = 0\<rparr> blank_terminal"
    using cleared_screen_shows [OF w(1-5)] by blast
  obtain s2' where s2': "gfx_clear s2 0 = Some s2'" "clearable 0 s2'" "screen_shows 0 480 272 \<lparr>surface = s2', scr_mutex = m2, cursor_x = 0, cursor_y = 0\<rparr> blank_terminal"
    using cleared_screen_shows [OF w(6-10)] by blast
  have "mutex_free m1" "mutex_free m2" by (simp_all add: m1_def m2_def mutex_init_def mutex_free_def)
  moreover have "setup_screens alloc (Some fbs0) K w1 w2 d = Some (\<lparr>surface = s1', scr_mutex = m1, cursor_x = 0, cursor_y = 0\<rparr>,
      \<lparr>surface = s2', scr_mutex = m2, cursor_x = 0, cursor_y = 0\<rparr>, snd (mutex_init (snd (mutex_init K w1)) w2))"
    using s s1'(1) s2'(1) by (simp add: setup_screens_def get_display_surfaces_fbs [OF assms(2)] screen_init_def m1_def m2_def mutex_init_def)
  ultimately show ?thesis using s1'(2,3) s2'(2,3) by auto
qed

end
