(* ===== verification/Console.thy ===== *)
theory Console
  imports State_Machine Screen
begin

text \<open>
  app/aiseirigh/primaryscreen.c on the screen of textraster.c, and debug_surface_print of
  main.c. The states of the flasher keep the list of what they printed since the last clear
  (the field \<open>console\<close> of \<open>States\<close>); here every such list is followed to the pixels.
\<close>

definition COLOUR_RGB :: "u32 \<Rightarrow> u32 \<Rightarrow> u32 \<Rightarrow> u32" where
  "COLOUR_RGB r g b = (b AND 0xFF) OR push_bit 8 (g AND 0xFF) OR push_bit 16 (r AND 0xFF)"

definition BG_COLOUR :: u32 where
  "BG_COLOUR = COLOUR_RGB 0 0 0"

definition FG_COLOUR_DBG :: u32 where
  "FG_COLOUR_DBG = COLOUR_RGB 0 230 0"

fun colour_value :: "Colour \<Rightarrow> u32" where
  "colour_value FG_COLOUR = COLOUR_RGB 241 143 1"
| "colour_value FG_COLOUR_ERR = COLOUR_RGB 255 0 0"
| "colour_value FG_COLOUR_SUCCESS = COLOUR_RGB 0 255 0"

text \<open>The part of \<^verbatim>\<open>primary_puts\<close> that draws; its \<^verbatim>\<open>puts\<close> goes to the other screen.\<close>

definition primary_puts_screen :: "kernel \<Rightarrow> Screen option \<Rightarrow> Colour \<Rightarrow> bytes \<Rightarrow> Screen waitable option" where
  "primary_puts_screen K g_screen colour msg = do {
     scr \<leftarrow> g_screen;
     len \<leftarrow> strlen msg;
     text_rasterise_string K scr (colour_value colour) BG_COLOUR msg (of_nat len)
   }"

definition primary_clear_screen :: "Screen option \<Rightarrow> Screen option" where
  "primary_clear_screen g_screen = do { scr \<leftarrow> g_screen; screen_fill scr BG_COLOUR }"

definition debug_surface_print :: "kernel \<Rightarrow> Screen \<Rightarrow> bytes \<Rightarrow> u32 \<Rightarrow> Screen waitable option" where
  "debug_surface_print K context str len = text_rasterise_string K context FG_COLOUR_DBG BG_COLOUR str len"

text \<open>The calls of \<^verbatim>\<open>primary_puts\<close> for a list of messages, one after the other.\<close>

fun print_calls :: "kernel \<Rightarrow> (Colour \<times> string) list \<Rightarrow> Screen \<Rightarrow> Screen option" where
  "print_calls K [] scr = Some scr"
| "print_calls K ((c, msg) # ms) scr =
     (case primary_puts_screen K (Some scr) c (cstr (lit msg)) of
        Some (Returned _ scr' K') \<Rightarrow> print_calls K' ms scr'
      | _ \<Rightarrow> None)"

text \<open>What a reader should see: the messages typed on the terminal.\<close>

definition console_text :: "nat \<Rightarrow> nat \<Rightarrow> (Colour \<times> string) list \<Rightarrow> terminal \<Rightarrow> terminal" where
  "console_text C R ms T = fold (\<lambda>(c, msg). term_puts C R (colour_value c) (lit msg)) ms T"

definition ascii_text :: "string \<Rightarrow> bool" where
  "ascii_text msg \<longleftrightarrow> list_all (\<lambda>ch. 0 < (of_char ch :: nat) \<and> (of_char ch :: nat) < 128) msg"

lemma unat_of_char: "unat (of_char ch :: u8) = of_char ch"
proof -
  have "(of_char ch :: nat) < 2 ^ 8" using nat_of_char_less_256 [of ch] by simp
  then have "unat (of_nat (of_char ch) :: u8) = of_char ch" by (simp add: unat_of_nat take_bit_nat_eq_self)
  then show ?thesis by (simp only: of_nat_of_char)
qed

lemma ascii_lit:
  assumes "ascii_text msg" "ch \<in> set (lit msg)"
  shows "ch \<noteq> 0" "unat ch < 128"
proof -
  obtain k where k: "k \<in> set msg" "ch = of_char k" using assms(2) by (auto simp: lit_def)
  then have "0 < (of_char k :: nat)" "(of_char k :: nat) < 128" using assms(1) by (auto simp: ascii_text_def list_all_iff)
  then show "ch \<noteq> 0" "unat ch < 128" using unat_of_char [of k] k(2) by auto
qed

lemma BG_COLOUR_0 [simp]: "BG_COLOUR = 0"
  by (simp add: BG_COLOUR_def COLOUR_RGB_def)

lemma printed_cstr:
  assumes "ascii_text msg"
  shows "printed (cstr (lit msg)) (length (lit msg)) = lit msg"
proof -
  have "takeWhile (\<lambda>ch. ch \<noteq> 0) (cstr (lit msg)) = lit msg" using ascii_lit(1) [OF assms] by simp
  then show ?thesis by (simp add: printed_def)
qed

lemma primary_puts_shows:
  assumes "mutex_free (scr_mutex scr)" "screen_shows BG_COLOUR W H scr T" "ascii_text msg" "length msg < 2 ^ 32"
  shows "\<exists>scr'. primary_puts_screen K (Some scr) c (cstr (lit msg)) = Some (Returned NO_ERROR scr' K) \<and> screen_same scr scr' \<and>
     screen_shows BG_COLOUR W H scr' (term_puts (W div FONT_X) (H div FONT_Y) (colour_value c) (lit msg) T)"
proof -
  have len: "unat (of_nat (length (lit msg)) :: u32) = length (lit msg)"
    using assms(4) by (intro unat_of_nat_small32) (simp add: lit_def)
  have "nonul (lit msg)" using ascii_lit(1) [OF assms(3)] unfolding nonul_def by blast
  then have sl: "strlen (cstr (lit msg)) = Some (length (lit msg))" by simp
  define n :: u32 where "n = of_nat (length (lit msg))"
  have pr: "printed (cstr (lit msg)) (unat n) = lit msg" unfolding n_def len by (rule printed_cstr [OF assms(3)])
  have "\<forall>ch \<in> set (printed (cstr (lit msg)) (unat n)). unat ch < 128" unfolding pr using ascii_lit(2) [OF assms(3)] by simp
  moreover have "length (printed (cstr (lit msg)) (unat n)) < length (cstr (lit msg))" unfolding pr by simp
  ultimately obtain scr' where "text_rasterise_string K scr (colour_value c) BG_COLOUR (cstr (lit msg)) n = Some (Returned NO_ERROR scr' K)"
    "screen_same scr scr'" "screen_shows BG_COLOUR W H scr' (term_puts (W div FONT_X) (H div FONT_Y) (colour_value c) (lit msg) T)"
    using text_rasterise_string_shows [OF assms(1,2), of "cstr (lit msg)" n K "colour_value c"] unfolding pr by blast
  then show ?thesis by (auto simp: primary_puts_screen_def sl n_def)
qed

lemma print_calls_shows:
  assumes "mutex_free (scr_mutex scr)" "screen_shows BG_COLOUR W H scr T" "\<forall>(c, msg) \<in> set ms. ascii_text msg \<and> length msg < 2 ^ 32"
  shows "\<exists>scr'. print_calls K ms scr = Some scr' \<and> screen_same scr scr' \<and>
     screen_shows BG_COLOUR W H scr' (console_text (W div FONT_X) (H div FONT_Y) ms T)"
  using assms
proof (induction ms arbitrary: scr T)
  case Nil
  then show ?case by (auto simp: console_text_def screen_same_def)
next
  case (Cons m ms)
  obtain c msg where m: "m = (c, msg)" by force
  obtain scr1 where s1: "primary_puts_screen K (Some scr) c (cstr (lit msg)) = Some (Returned NO_ERROR scr1 K)" "screen_same scr scr1"
    "screen_shows BG_COLOUR W H scr1 (term_puts (W div FONT_X) (H div FONT_Y) (colour_value c) (lit msg) T)"
    using primary_puts_shows [OF Cons.prems(1,2), of msg K c] Cons.prems(3) m by auto
  have "mutex_free (scr_mutex scr1)" using s1(2) Cons.prems(1) by (simp add: screen_same_def)
  from Cons.IH [OF this s1(3)] Cons.prems(3) obtain scr2 where "print_calls K ms scr1 = Some scr2" "screen_same scr1 scr2"
    "screen_shows BG_COLOUR W H scr2 (console_text (W div FONT_X) (H div FONT_Y) ms (term_puts (W div FONT_X) (H div FONT_Y) (colour_value c) (lit msg) T))"
    by auto
  then show ?case using s1(1) lcd.same_trans [OF s1(2)] by (auto simp: m console_text_def)
qed

text \<open>After a clear the messages start on a blank screen, whatever was printed before.\<close>

lemma primary_clear_shows:
  assumes "screen_shows BG_COLOUR W H scr T" "clearable BG_COLOUR (surface scr)"
  shows "\<exists>scr'. primary_clear_screen (Some scr) = Some scr' \<and> screen_same scr scr' \<and> screen_shows BG_COLOUR W H scr' blank_terminal"
  using screen_fill_shows [of W H scr BG_COLOUR] assms by (simp add: screen_shows_def clearable_def primary_clear_screen_def)

lemma clear_print_shows:
  assumes "mutex_free (scr_mutex scr)" "screen_shows BG_COLOUR W H scr T" "clearable BG_COLOUR (surface scr)"
    and "\<forall>(c, msg) \<in> set old \<union> set ms. ascii_text msg \<and> length msg < 2 ^ 32"
  shows "\<exists>scr1 scr2 scr3. print_calls K old scr = Some scr1 \<and> primary_clear_screen (Some scr1) = Some scr2 \<and>
     print_calls K ms scr2 = Some scr3 \<and> screen_same scr scr3 \<and>
     screen_shows BG_COLOUR W H scr3 (console_text (W div FONT_X) (H div FONT_Y) ms blank_terminal)"
proof -
  obtain scr1 where s1: "print_calls K old scr = Some scr1" "screen_same scr scr1"
    "screen_shows BG_COLOUR W H scr1 (console_text (W div FONT_X) (H div FONT_Y) old T)"
    using print_calls_shows [OF assms(1,2), of old K] assms(4) by auto
  have "clearable BG_COLOUR (surface scr1)"
    using s1(2) assms(3) visible_only_clearable [of "surface scr" "surface scr1"] by (simp add: screen_same_def)
  from primary_clear_shows [OF s1(3) this] obtain scr2 where s2: "primary_clear_screen (Some scr1) = Some scr2" "screen_same scr1 scr2"
    "screen_shows BG_COLOUR W H scr2 blank_terminal" by blast
  have "mutex_free (scr_mutex scr2)" using s1(2) s2(2) assms(1) by (simp add: screen_same_def)
  from print_calls_shows [OF this s2(3), of ms K] assms(4) obtain scr3 where "print_calls K ms scr2 = Some scr3" "screen_same scr2 scr3"
    "screen_shows BG_COLOUR W H scr3 (console_text (W div FONT_X) (H div FONT_Y) ms blank_terminal)" by auto
  then show ?thesis using s1(1) s2(1) lcd.same_trans [OF s1(2) lcd.same_trans [OF s2(2)]] by blast
qed

section \<open>What the flasher prints\<close>

text \<open>Everything on the console, and the pending error message, is 7-bit text.\<close>

definition text_ok :: "('w, 'fil) app \<Rightarrow> bool" where
  "text_ok a \<longleftrightarrow> list_all (\<lambda>(c, msg). ascii_text msg) (console a) \<and> (\<forall>msg. g_why a = Some msg \<longrightarrow> ascii_text msg) \<and>
     (\<forall>p. updater_path a = Some p \<longrightarrow> (\<exists>m. p = get_updater_path m))"

lemma ascii_append [simp]: "ascii_text (x @ y) \<longleftrightarrow> ascii_text x \<and> ascii_text y"
  by (simp add: ascii_text_def)

lemma ascii_Cons: "ascii_text (ch # x) \<longleftrightarrow> 0 < (of_char ch :: nat) \<and> (of_char ch :: nat) < 128 \<and> ascii_text x"
  by (simp add: ascii_text_def)

lemma ascii_Nil: "ascii_text []"
  by (simp add: ascii_text_def)

lemma ascii_digits: "ascii_text (digits n)"
proof (induction n rule: digits.induct)
  case (1 n)
  have "n mod 10 < 80" using mod_less_divisor [of 10 n] by linarith
  then show ?case using 1 by (subst digits.simps) (simp add: ascii_Cons ascii_Nil)
qed

lemma ascii_decimal [simp]: "ascii_text (decimal i)"
  by (simp add: decimal_def ascii_digits ascii_Cons)

lemma ascii_ff_result [simp]: "ascii_text (ff_result_to_str r)"
  by (cases r) (simp_all add: ascii_Cons ascii_Nil)

lemma ascii_path: "ascii_text (map (\<lambda>c. char_of (unat c)) (butlast (get_updater_path m)))"
  by (simp add: get_updater_path_def lit_def ascii_Cons ascii_Nil)

lemma text_ok_puts: "text_ok (primary_puts c msg a) \<longleftrightarrow> text_ok a \<and> ascii_text msg"
  by (auto simp: text_ok_def primary_puts_def)

lemma transition_error_text:
  "transition_error N a msg = Some (a', t) \<Longrightarrow> text_ok a \<Longrightarrow> ascii_text msg \<Longrightarrow> text_ok a'"
  by (auto simp: transition_error_def text_ok_def split: if_splits)

lemmas text_simps = text_ok_puts ascii_Cons ascii_Nil Let_def bind_eq_Some_conv

lemma text_ok_frame [simp]:
  "text_ok (a\<lparr>world := w\<rparr>) = text_ok a" "text_ok (a\<lparr>ph := h\<rparr>) = text_ok a" "text_ok (a\<lparr>directories := d\<rparr>) = text_ok a"
  "text_ok (a\<lparr>identity := i\<rparr>) = text_ok a"
  by (simp_all add: text_ok_def)

lemma format_flashes_text:
  "format_flashes N a fs = Some (a', t) \<Longrightarrow> text_ok a \<Longrightarrow> \<forall>f \<in> set fs. ascii_text f \<Longrightarrow> text_ok a'"
  by (induction N a fs rule: format_flashes.induct)
     (auto simp: text_simps split: prod.splits if_splits dest: transition_error_text)

lemma on_enter_text:
  assumes "on_enter N s a = Some (a', t)" "text_ok a" "ascii_text (identity_text N)"
  shows "text_ok a'"
proof (cases s)
  case g_init_state
  then show ?thesis using assms by (auto simp: init_on_enter_def text_simps text_ok_def)
next
  case g_menu_state
  have "text_ok (primary_clear a)" using assms(2) by (simp add: text_ok_def primary_clear_def)
  then show ?thesis using g_menu_state assms by (auto simp: menu_on_enter_def text_simps)
next
  case g_check_updater_state
  then obtain path where p: "updater_path a = Some path" using assms(1) by (auto simp: check_updater_on_enter_def text_simps primary_puts_def)
  then have "ascii_text (map (\<lambda>c. char_of (unat c)) (butlast path))" using assms(2) ascii_path by (auto simp: text_ok_def)
  then show ?thesis using g_check_updater_state assms(1,2) p
    by (auto simp: check_updater_on_enter_def text_simps split: if_splits dest!: transition_error_text)
next
  case g_format_flash_state
  have "\<forall>f \<in> set flashes. ascii_text f" by (simp add: flashes_def ascii_Cons ascii_Nil)
  then show ?thesis using g_format_flash_state assms(1,2) format_flashes_text [of N a flashes] by (auto simp: format_flash_on_enter_def)
next
  case g_error_state
  then show ?thesis using assms by (auto simp: error_on_enter_def text_simps split: option.splits) (auto simp: text_ok_def primary_puts_def)
qed (use assms in \<open>auto simp: handler_defs text_simps split: prod.splits if_splits dest!: transition_error_text\<close>)

lemma on_key_press_text: "on_key_press N s a keys = Some (a', t) \<Longrightarrow> text_ok a \<Longrightarrow> text_ok a'"
  by (cases s) (auto simp: menu_on_key_press_def finish_on_key_press_def split: if_splits)

lemma after_handler_text:
  "text_ok (app_state m) \<Longrightarrow> (\<And>a t. r = Some (a, t) \<Longrightarrow> text_ok a) \<Longrightarrow> text_ok (app_state (after_handler m r))"
  by (auto simp: after_handler_def split: option.splits prod.splits)

lemma main_step_text:
  assumes "main_step N m = Some m'" "text_ok (app_state m)" "ascii_text (identity_text N)"
  shows "text_ok (app_state m')"
proof (cases "mpc m")
  case (Enter s)
  have "text_ok (app_state (after_handler m (on_enter N s (app_state m))))"
    by (rule after_handler_text [OF assms(2)]) (rule on_enter_text [OF _ assms(2,3)])
  then show ?thesis using assms(1) Enter by (simp add: main_step_def)
next
  case Key_press
  have "text_ok (app_state (after_handler m (on_key_press N s (app_state m) (on_press_keys m))))" for s
    by (rule after_handler_text [OF assms(2)]) (rule on_key_press_text [OF _ assms(2)])
  then show ?thesis using assms(1,2) Key_press by (auto simp: main_step_def split: option.splits)
qed (use assms in \<open>auto simp: main_step_def perform_state_transition_def statemachine_transition_def Let_def split: option.splits if_splits\<close>)

lemma sm_reach_text:
  "sm_reach N m0 m \<Longrightarrow> text_ok (app_state m0) \<Longrightarrow> ascii_text (identity_text N) \<Longrightarrow> text_ok (app_state m)"
proof (induction rule: sm_reach.induct)
  case (step m m')
  from step.hyps(2) show ?case
    by cases (use step in \<open>auto intro: main_step_text simp: on_press_def split: press_pc.splits\<close>)
qed

section \<open>Which screen is shown\<close>

text \<open>
  \<^verbatim>\<open>display_selection_thread\<close> of main.c: the loop as a step for each result of
  \<^verbatim>\<open>gamepad_read\<close>. The screens are told apart by the framebuffer their surface is on.
\<close>

definition screen_display :: "display \<Rightarrow> framebuffer \<Rightarrow> display" where
  "screen_display d fb = set_active_framebuffer d fb"

definition display_select_start :: "framebuffer list \<Rightarrow> display \<Rightarrow> nat \<times> display" where
  "display_select_start screens d = (let cur_screen = 0 in (cur_screen, screen_display d (screens ! cur_screen)))"

definition display_select_step :: "u32 \<Rightarrow> framebuffer list \<Rightarrow> status_t \<times> u32 \<Rightarrow> nat \<times> display \<Rightarrow> nat \<times> display" where
  "display_select_step SYSCON_CTRL_LTRIGGER screens rd st =
     (let (status, keys) = rd; (cur_screen, d) = st in
      if status \<noteq> NO_ERROR then (cur_screen, d)
      else if IS_KEY_PRESSED keys SYSCON_CTRL_LTRIGGER then
        (let cur' = (cur_screen + 1) mod 2 in (cur', screen_display d (screens ! cur')))
      else (cur_screen, d))"

definition trigger_presses :: "u32 \<Rightarrow> (status_t \<times> u32) list \<Rightarrow> nat" where
  "trigger_presses l rds = length (filter (\<lambda>(status, keys). status = NO_ERROR \<and> IS_KEY_PRESSED keys l) rds)"

lemma trigger_presses_Nil: "trigger_presses l [] = 0"
  by (simp add: trigger_presses_def)

lemma trigger_presses_Cons:
  "trigger_presses l (rd # rds) = (if fst rd = NO_ERROR \<and> IS_KEY_PRESSED (snd rd) l then 1 else 0) + trigger_presses l rds"
  by (auto simp: trigger_presses_def split: prod.splits)

text \<open>The screen shown is the primary one exactly after an even number of presses of the left trigger.\<close>

lemma display_select_parity:
  assumes "k < 2" "hw_framebuffer d = screens ! k" "fold (display_select_step l screens) rds (k, d) = (k', d')"
  shows "k' = (k + trigger_presses l rds) mod 2 \<and> hw_framebuffer d' = screens ! k'"
  using assms
proof (induction rds arbitrary: k d)
  case Nil
  then show ?case by (simp add: trigger_presses_Nil)
next
  case (Cons rd rds)
  obtain k1 d1 where s1: "display_select_step l screens rd (k, d) = (k1, d1)" by force
  then have k1: "k1 = (if fst rd = NO_ERROR \<and> IS_KEY_PRESSED (snd rd) l then (k + 1) mod 2 else k)" "hw_framebuffer d1 = screens ! k1"
    using Cons.prems(2) by (auto simp: display_select_step_def screen_display_def set_active_framebuffer_def Let_def split: if_splits prod.splits)
  have "k1 < 2" using k1(1) Cons.prems(1) by auto
  from Cons.IH [OF this k1(2)] Cons.prems(3) s1 k1(1) show ?case
    by (auto simp: trigger_presses_Cons mod_simps)
qed

end
