(* ===== verification/Drawing.thy ===== *)
theory Drawing
  imports Font
begin

text \<open>
  Whole sequences of drawing calls. \<open>draws\<close> is one call of the graphics or font library on a
  surface, with any arguments; whatever the arguments, a call that returns keeps the shape of
  the surface. Blending, the one call that reads a second surface, is followed to the pixels.
\<close>

section \<open>Any sequence of calls\<close>

inductive draws :: "gfx_surface \<Rightarrow> gfx_surface \<Rightarrow> bool" where
  pixel: "gfx_putpixel s x y c = Some s' \<Longrightarrow> draws s s'"
| fill: "gfx_fillrect s x y w h c = Some s' \<Longrightarrow> draws s s'"
| clear: "gfx_clear s c = Some s' \<Longrightarrow> draws s s'"
| copy: "gfx_copyrect s x y w h x2 y2 = Some s' \<Longrightarrow> draws s s'"
| line: "gfx_line s x1 y1 x2 y2 c = Some s' \<Longrightarrow> draws s s'"
| blend: "gfx_surface_blend s source x y = Some s' \<Longrightarrow> draws s s'"
| char: "font_draw_char s ch x y c = Some s' \<Longrightarrow> draws s s'"
| flush: "draws s (gfx_flush s)"
| flush_rows: "draws s (gfx_flush_rows s y1 y2)"

text \<open>Two surfaces that differ at most in the value of their pixels and in what was flushed.\<close>

definition same_shape :: "gfx_surface \<Rightarrow> gfx_surface \<Rightarrow> bool" where
  "same_shape s s' \<longleftrightarrow> length (ptr s') = length (ptr s) \<and>
     s'\<lparr>ptr := [], cleaned := [], presented := []\<rparr> = s\<lparr>ptr := [], cleaned := [], presented := []\<rparr>"

lemma same_shape_sel:
  assumes "same_shape s s'"
  shows "g_width s' = g_width s" "g_height s' = g_height s" "g_stride s' = g_stride s" "g_ops s' = g_ops s"
    "translate_color s' = translate_color s" "g_format s' = g_format s" "length (ptr s') = length (ptr s)"
  using assms by (cases s; cases s'; simp add: same_shape_def)+

lemma same_shape_refl [simp]: "same_shape s s"
  by (simp add: same_shape_def)

lemma same_shape_trans: "same_shape s1 s2 \<Longrightarrow> same_shape s2 s3 \<Longrightarrow> same_shape s1 s3"
  by (simp add: same_shape_def)

lemma same_shape_wf: "same_shape s s' \<Longrightarrow> surface_wf s' = surface_wf s"
  using same_shape_sel [of s s'] by (simp add: surface_wf_def)

lemma same_shape_ptr: "length px = length (ptr s) \<Longrightarrow> same_shape s (s\<lparr>ptr := px\<rparr>)"
  by (simp add: same_shape_def)

lemma poke_length: "poke px p v = Some px' \<Longrightarrow> length px' = length px"
  by (auto simp: poke_def split: if_splits)

lemma fill_row_length: "fill_row v px d n = Some (px', d') \<Longrightarrow> length px' = length px"
  by (induction n arbitrary: px d) (auto simp: bind_eq_Some_conv dest: poke_length)

lemma fill_rows_length: "fill_rows v w diff px d h = Some px' \<Longrightarrow> length px' = length px"
  by (induction h arbitrary: px d) (auto simp: bind_eq_Some_conv dest: fill_row_length)

lemma copy_row_length: "copy_row e px sr d n = Some (px', sr', d') \<Longrightarrow> length px' = length px"
  by (induction n arbitrary: px sr d) (auto simp: bind_eq_Some_conv dest: poke_length)

lemma copy_rows_length: "copy_rows e w diff px sr d h = Some px' \<Longrightarrow> length px' = length px"
  by (induction h arbitrary: px sr d) (auto simp: bind_eq_Some_conv dest: copy_row_length)

lemma blend_row_length: "blend_row f spx px sr d n = Some (px', sr', d') \<Longrightarrow> length px' = length px"
  by (induction n arbitrary: px sr d) (auto simp: bind_eq_Some_conv dest: poke_length)

lemma blend_rows_length: "blend_rows f w sdiff ddiff spx px sr d h = Some px' \<Longrightarrow> length px' = length px"
  by (induction h arbitrary: px sr d) (auto simp: bind_eq_Some_conv dest: blend_row_length)

lemma putpixel_shape: "putpixel s x y c = Some s' \<Longrightarrow> same_shape s s'"
  by (auto simp: putpixel_def bind_eq_Some_conv intro: same_shape_ptr dest: poke_length)

lemma gfx_putpixel_shape: "gfx_putpixel s x y c = Some s' \<Longrightarrow> same_shape s s'"
  by (auto simp: gfx_putpixel_def split: if_splits intro: putpixel_shape)

lemma fillrect_shape: "fillrect s x y w h c = Some s' \<Longrightarrow> same_shape s s'"
  by (auto simp: fillrect_def bind_eq_Some_conv intro: same_shape_ptr dest: fill_rows_length)

lemma copyrect_shape: "copyrect s x y w h x2 y2 = Some s' \<Longrightarrow> same_shape s s'"
  by (auto simp: copyrect_def bind_eq_Some_conv Let_def split: if_splits intro!: same_shape_ptr dest!: copy_rows_length)

text \<open>The early returns leave the surface as it is.\<close>

lemma guard_shape:
  "(if b then Some s else r) = Some s' \<Longrightarrow> (r = Some s' \<Longrightarrow> same_shape s s') \<Longrightarrow> same_shape s s'"
  "(if b then None else r) = Some s' \<Longrightarrow> (r = Some s' \<Longrightarrow> same_shape s s') \<Longrightarrow> same_shape s s'"
  by (simp_all split: if_splits)

lemma line_loop_shape:
  assumes "\<And>p q s s'. put p q s = Some s' \<Longrightarrow> same_shape s s'"
  shows "line_loop put dp dq sp sq e p q n s = Some s' \<Longrightarrow> same_shape s s'"
  by (induction n arbitrary: e p q s)
     (auto simp: bind_eq_Some_conv Let_def split: if_splits intro: same_shape_trans dest: assms)

lemma font_row_shape: "font_row c x y l n s = Some s' \<Longrightarrow> same_shape s s'"
  by (induction n arbitrary: x l s)
     (auto simp: bind_eq_Some_conv split: if_splits intro: same_shape_trans dest: gfx_putpixel_shape)

lemma font_rows_shape: "font_rows c idx x y n s = Some s' \<Longrightarrow> same_shape s s'"
  by (induction n arbitrary: idx y s)
     (auto simp: bind_eq_Some_conv simp del: font_row.simps split: if_splits intro: same_shape_trans dest: font_row_shape)

lemma gfx_flush_rows_shape: "same_shape s (gfx_flush_rows s a b)"
  by (simp add: gfx_flush_rows_def same_shape_def Let_def split: prod.splits)

lemma draws_shape:
  assumes "draws s s'"
  shows "same_shape s s'"
  using assms
proof cases
  case pixel
  then show ?thesis by (rule gfx_putpixel_shape)
next
  case fill
  then show ?thesis unfolding gfx_fillrect_def Let_def by (elim guard_shape fillrect_shape)
next
  case (clear c)
  then obtain s1 where s1: "fillrect s 0 0 (g_width s) (g_height s) c = Some s1"
    "s' = (if g_flush s1 then s1\<lparr>presented := presented s1 @ [(0, g_height s1 - 1)]\<rparr> else s1)"
    unfolding gfx_clear_def bind_eq_Some_conv option.inject by blast
  have "same_shape s1 s'" unfolding s1(2) by (simp add: same_shape_def)
  with fillrect_shape [OF s1(1)] show ?thesis by (rule same_shape_trans)
next
  case copy
  then show ?thesis unfolding gfx_copyrect_def Let_def by (elim guard_shape copyrect_shape)
next
  case line
  have "same_shape s s'" if "(if b then line_loop (\<lambda>px py s. putpixel s px py c) dp dq sp sq e p q n s
      else line_loop (\<lambda>py px s. putpixel s px py c) dp' dq' sp' sq' e' p' q' n' s) = Some s'"
    for b c dp dq sp sq e p q n dp' dq' sp' sq' e' p' q' n'
    using that by (cases b) (auto elim!: line_loop_shape [rotated] intro: putpixel_shape)
  from line this show ?thesis unfolding gfx_line_def Let_def by (elim guard_shape)
next
  case blend
  then show ?thesis unfolding gfx_surface_blend_def Let_def
    by (elim guard_shape) (auto simp: bind_eq_Some_conv intro: same_shape_ptr dest: blend_rows_length)
next
  case (char ch x y c)
  then obtain s1 where s1: "font_rows c (unat ch * FONT_Y) x y FONT_Y s = Some s1" "s' = gfx_flush_rows s1 y (y + of_nat FONT_Y)"
    unfolding font_draw_char_def bind_eq_Some_conv option.inject by blast
  show ?thesis unfolding s1(2) using font_rows_shape [OF s1(1)] gfx_flush_rows_shape by (rule same_shape_trans)
next
  case flush
  then show ?thesis by (simp add: gfx_flush_def same_shape_def Let_def)
next
  case flush_rows
  then show ?thesis by (simp add: gfx_flush_rows_shape)
qed

lemma all_draws_shape: "draws\<^sup>*\<^sup>* s s' \<Longrightarrow> same_shape s s'"
  by (induction rule: rtranclp_induct) (auto intro: same_shape_trans draws_shape)

section \<open>Blending\<close>

text \<open>
  The loops keep a source and a target index; row \<open>j\<close> of the target starts \<open>j\<close> strides behind its
  first one, and so does the source with its own stride.
\<close>

lemma blend_row_spec:
  assumes "0 \<le> src" "src + int n \<le> int (length spx)" "0 \<le> dest" "dest + int n \<le> int (length px)"
  shows "\<exists>px'. blend_row f spx px src dest n = Some (px', src + int n, dest + int n) \<and> length px' = length px \<and>
     (\<forall>i < length px. px' ! i =
        (if dest \<le> int i \<and> int i < dest + int n then f (px ! i) (spx ! nat (src + (int i - dest))) else px ! i))"
  using assms
proof (induction n arbitrary: px src dest)
  case (Suc n)
  let ?px = "px[nat dest := f (px ! nat dest) (spx ! nat src)]"
  have mem: "peek spx src = Some (spx ! nat src)" "peek px dest = Some (px ! nat dest)"
    "poke px dest (f (px ! nat dest) (spx ! nat src)) = Some ?px"
    using Suc.prems by (simp_all add: peek_Some poke_Some)
  have "0 \<le> src + 1" "src + 1 + int n \<le> int (length spx)" "0 \<le> dest + 1" "dest + 1 + int n \<le> int (length ?px)" using Suc.prems by simp_all
  from Suc.IH [OF this] obtain px' where px': "blend_row f spx ?px (src + 1) (dest + 1) n = Some (px', src + 1 + int n, dest + 1 + int n)"
    "length px' = length ?px" "\<forall>i < length ?px. px' ! i =
       (if dest + 1 \<le> int i \<and> int i < dest + 1 + int n then f (?px ! i) (spx ! nat (src + 1 + (int i - (dest + 1)))) else ?px ! i)" by blast
  have "px' ! i = (if dest \<le> int i \<and> int i < dest + int (Suc n) then f (px ! i) (spx ! nat (src + (int i - dest))) else px ! i)"
    if "i < length px" for i
  proof (cases "int i = dest")
    case True
    then have "i = nat dest" by simp
    then show ?thesis using px'(3) that True by simp
  next
    case False
    then have "i \<noteq> nat dest" using Suc.prems(3) by auto
    moreover have "src + 1 + (int i - (dest + 1)) = src + (int i - dest)" by simp
    ultimately show ?thesis using px'(3) that False by auto
  qed
  then show ?case using mem px'(1,2) by (simp add: add.assoc)
qed auto

lemma blend_rows_spec:
  assumes "0 \<le> src" "0 \<le> sdiff" "h > 0 \<Longrightarrow> src + int (h - 1) * (int w + sdiff) + int w \<le> int (length spx)"
    and "0 \<le> dest" "0 \<le> ddiff" "h > 0 \<Longrightarrow> dest + int (h - 1) * (int w + ddiff) + int w \<le> int (length px)"
  shows "\<exists>px'. blend_rows f w sdiff ddiff spx px src dest h = Some px' \<and> length px' = length px \<and>
     (\<forall>k < h. \<forall>j < w. px' ! nat (dest + int k * (int w + ddiff) + int j) =
        f (px ! nat (dest + int k * (int w + ddiff) + int j)) (spx ! nat (src + int k * (int w + sdiff) + int j))) \<and>
     (\<forall>i < length px. \<not> in_rows (int w + ddiff) w h dest (int i) \<longrightarrow> px' ! i = px ! i)"
  using assms
proof (induction h arbitrary: px src dest)
  case (Suc h)
  let ?st = "int w + ddiff" and ?sst = "int w + sdiff"
  have le: "src + int w \<le> int (length spx)" "dest + int w \<le> int (length px)"
    using rows_start [OF Suc.prems(2,3)] rows_start [OF Suc.prems(5,6)] by simp_all
  obtain p1 where p1: "blend_row f spx px src dest w = Some (p1, src + int w, dest + int w)" "length p1 = length px"
    "\<forall>i < length px. p1 ! i = (if dest \<le> int i \<and> int i < dest + int w then f (px ! i) (spx ! nat (src + (int i - dest))) else px ! i)"
    using blend_row_spec [OF Suc.prems(1) le(1) Suc.prems(4) le(2)] by blast
  have "h > 0 \<Longrightarrow> src + ?sst + int (h - 1) * ?sst + int w \<le> int (length spx)"
    "h > 0 \<Longrightarrow> dest + ?st + int (h - 1) * ?st + int w \<le> int (length p1)"
    using Suc.prems(3,6) p1(2) by (cases h; simp add: algebra_simps)+
  moreover have "0 \<le> src + ?sst" "0 \<le> dest + ?st" using Suc.prems by simp_all
  ultimately obtain p2 where p2: "blend_rows f w sdiff ddiff spx p1 (src + ?sst) (dest + ?st) h = Some p2" "length p2 = length p1"
    "\<forall>k < h. \<forall>j < w. p2 ! nat (dest + ?st + int k * ?st + int j) =
       f (p1 ! nat (dest + ?st + int k * ?st + int j)) (spx ! nat (src + ?sst + int k * ?sst + int j))"
    "\<forall>i < length p1. \<not> in_rows ?st w h (dest + ?st) (int i) \<longrightarrow> p2 ! i = p1 ! i"
    using Suc.IH [of "src + ?sst" "dest + ?st" p1] Suc.prems(2,5) by blast
  have run: "blend_rows f w sdiff ddiff spx px src dest (Suc h) = Some p2" using p1(1) p2(1) by (simp add: add.assoc)
  have first: "p2 ! nat (dest + int j) = f (px ! nat (dest + int j)) (spx ! nat (src + int j))" if "j < w" for j
  proof -
    have "\<not> in_rows ?st w h (dest + ?st) (dest + int j)"
      using in_rows_lower [of ?st w h "dest + ?st" "dest + int j"] that Suc.prems(5) by auto
    moreover have "nat (dest + int j) < length px" "int (nat (dest + int j)) = dest + int j" using that le(2) Suc.prems(4) by linarith+
    ultimately show ?thesis using p1(2,3) p2(4) that by simp
  qed
  have later: "p2 ! nat (dest + int (Suc k) * ?st + int j) =
      f (px ! nat (dest + int (Suc k) * ?st + int j)) (spx ! nat (src + int (Suc k) * ?sst + int j))" if "k < h" "j < w" for k j
  proof -
    let ?i = "dest + ?st + int k * ?st + int j"
    have e: "dest + int (Suc k) * ?st + int j = ?i" "src + int (Suc k) * ?sst + int j = src + ?sst + int k * ?sst + int j"
      by (simp_all add: algebra_simps)
    have "in_rows ?st w (Suc h) dest ?i" using that by (auto simp: in_rows_def e(1) [symmetric] intro!: exI [of _ "Suc k"])
    from in_rows_upper [OF this] Suc.prems(5,6) have "?i < int (length px)" by simp
    moreover have "0 \<le> int k * ?st" using Suc.prems(5) by simp
    then have "dest + int w \<le> ?i" using Suc.prems(5) by linarith
    ultimately have "p1 ! nat ?i = px ! nat ?i" using p1(3) Suc.prems(4) by (auto simp: nat_less_iff)
    then show ?thesis unfolding e using p2(3) that by simp
  qed
  have rows: "p2 ! nat (dest + int k * ?st + int j) = f (px ! nat (dest + int k * ?st + int j)) (spx ! nat (src + int k * ?sst + int j))"
    if "k < Suc h" "j < w" for k j
    using first [OF that(2)] later [OF _ that(2)] that(1) by (cases k) simp_all
  have "p2 ! i = px ! i" if "i < length px" "\<not> in_rows ?st w (Suc h) dest (int i)" for i
    using p1(2,3) p2(4) that by (auto simp: in_rows_Suc)
  then show ?case using run rows p1(2) p2(2) by auto
qed simp

text \<open>The rectangle copied by the loops, for a width and height that fit both surfaces.\<close>

lemma blend_rect_paints:
  assumes t: "surface_wf t" and so: "surface_wf so"
    and x: "unat x < unat (g_stride t)" "unat x + unat w \<le> unat (g_stride t)" and y: "unat y < unat (g_height t)" "unat y + unat h \<le> unat (g_height t)"
    and w: "unat w \<le> unat (g_stride so)" and h: "unat h \<le> unat (g_height so)"
  shows "\<exists>px. blend_rows f (unat w) (uint (g_stride so - w)) (uint (g_stride t - w)) (ptr so) (ptr t) 0 (pixel_at t x y) (unat h) = Some px \<and>
     paints t (\<lambda>a b. unat x \<le> a \<and> a < unat x + unat w \<and> unat y \<le> b \<and> b < unat y + unat h)
       (\<lambda>a b. f (pixel t a b) (pixel so (a - unat x) (b - unat y))) (t\<lparr>ptr := px\<rparr>)"
proof -
  let ?st = "unat (g_stride t)" and ?sst = "unat (g_stride so)" and ?d = "int (unat x + unat y * unat (g_stride t))"
  note gap = row_gap [OF x(2)] and sgap = row_gap [of 0 w "g_stride so", simplified, OF w]
  have "unat h > 0 \<Longrightarrow> ?d + int (unat h - 1) * (int (unat w) + uint (g_stride t - w)) + int (unat w) \<le> int (length (ptr t))"
    unfolding gap using rect_fits [OF t x(2) _ y(2)] .
  moreover have "unat h > 0 \<Longrightarrow> 0 + int (unat h - 1) * (int (unat w) + uint (g_stride so - w)) + int (unat w) \<le> int (length (ptr so))"
    using rect_fits [OF so, of 0 "unat w" "unat h" 0] w h sgap by simp
  ultimately obtain px where px: "blend_rows f (unat w) (uint (g_stride so - w)) (uint (g_stride t - w)) (ptr so) (ptr t) 0 ?d (unat h) = Some px"
    "length px = length (ptr t)"
    "\<forall>k < unat h. \<forall>j < unat w. px ! nat (?d + int k * int ?st + int j) = f (ptr t ! nat (?d + int k * int ?st + int j)) (ptr so ! nat (0 + int k * int ?sst + int j))"
    "\<forall>i < length (ptr t). \<not> in_rows (int ?st) (unat w) (unat h) ?d (int i) \<longrightarrow> px ! i = ptr t ! i"
    using blend_rows_spec [of 0 "uint (g_stride so - w)" "unat h" "unat w" "ptr so" ?d "uint (g_stride t - w)" "ptr t" f] gap sgap by auto
  have rect: "in_rows (int ?st) (unat w) (unat h) ?d (int i) \<longleftrightarrow>
      unat x \<le> i mod ?st \<and> i mod ?st < unat x + unat w \<and> unat y \<le> i div ?st \<and> i div ?st < unat y + unat h" for i
    using surface_wf_stride [OF t] by (intro in_rows_rect [OF x(2)]) simp
  have val: "px ! i = f (pixel t (i mod ?st) (i div ?st)) (pixel so (i mod ?st - unat x) (i div ?st - unat y))"
    if "unat x \<le> i mod ?st" "i mod ?st < unat x + unat w" "unat y \<le> i div ?st" "i div ?st < unat y + unat h" for i
  proof -
    define j k where "j = i mod ?st - unat x" and "k = i div ?st - unat y"
    have jk: "i mod ?st = unat x + j" "i div ?st = unat y + k" "j < unat w" "k < unat h" using that by (auto simp: j_def k_def)
    have i: "i = unat x + j + (unat y + k) * ?st" using div_mult_mod_eq [of i ?st] jk(1,2) by simp
    have ix: "nat (?d + int k * int ?st + int j) = unat x + unat y * ?st + k * ?st + j" "nat (0 + int k * int ?sst + int j) = 0 + k * ?sst + j"
      by (simp_all only: of_nat_0 [symmetric] of_nat_mult [symmetric] of_nat_add [symmetric] nat_int)
    have ii: "unat x + unat y * ?st + k * ?st + j = i" unfolding i by (simp add: algebra_simps)
    have "px ! i = f (ptr t ! i) (ptr so ! (0 + k * ?sst + j))"
      using px(3) [rule_format, OF jk(4,3)] unfolding ix ii .
    then show ?thesis unfolding pixel_def jk(1,2) i [symmetric] by (simp add: add.commute)
  qed
  have "paints t (\<lambda>a b. unat x \<le> a \<and> a < unat x + unat w \<and> unat y \<le> b \<and> b < unat y + unat h)
       (\<lambda>a b. f (pixel t a b) (pixel so (a - unat x) (b - unat y))) (t\<lparr>ptr := px\<rparr>)"
    unfolding paints_def Let_def using px(2,4) val rect by (intro exI [of _ px]) auto
  then show ?thesis using px(1) unfolding pixel_at_nat [OF t x(1) y(1)] by blast
qed

lemma gfx_surface_blend_paints:
  assumes t: "surface_wf t" and so: "surface_wf so" and fmt: "g_format t = g_format so" "blend_op (g_format so) (g_format t) = Some f"
    and small: "unat x + unat (g_width so) < 2 ^ 32" "unat y + unat (g_height so) < 2 ^ 32"
  shows "\<exists>t'. gfx_surface_blend t so x y = Some t' \<and>
     paints t (\<lambda>a b. unat x \<le> a \<and> a < unat x + unat (g_width so) \<and> a < unat (g_width t) \<and>
         unat y \<le> b \<and> b < unat y + unat (g_height so) \<and> b < unat (g_height t))
       (\<lambda>a b. f (pixel t a b) (pixel so (a - unat x) (b - unat y))) t'"
proof (cases "x < g_width t \<and> y < g_height t")
  case False
  then have "gfx_surface_blend t so x y = Some t" using fmt by (auto simp: gfx_surface_blend_def not_less)
  moreover have "\<not> (unat x < unat (g_width t) \<and> unat y < unat (g_height t))" using False by (simp add: word_less_nat_alt)
  ultimately show ?thesis by (intro exI [of _ t] conjI paints_none) auto
next
  case True
  let ?w = "if x + g_width so > g_width t then g_width t - x else g_width so"
  let ?h = "if y + g_height so > g_height t then g_height t - y else g_height so"
  have b: "unat x < unat (g_width t)" "unat y < unat (g_height t)" using True by (simp_all add: word_less_nat_alt)
  note cw = clip_side [OF b(1) small(1)] and ch = clip_side [OF b(2) small(2)]
  have st: "unat (g_width t) \<le> unat (g_stride t)" "unat (g_width so) \<le> unat (g_stride so)"
    using surface_wf_stride [OF t] surface_wf_stride [OF so] by simp_all
  have fits: "unat x < unat (g_stride t)" "unat x + unat ?w \<le> unat (g_stride t)" "unat y + unat ?h \<le> unat (g_height t)"
    "unat ?w \<le> unat (g_stride so)" "unat ?h \<le> unat (g_height so)"
    unfolding cw ch using b st by linarith+
  obtain px where px: "blend_rows f (unat ?w) (uint (g_stride so - ?w)) (uint (g_stride t - ?w)) (ptr so) (ptr t) 0 (pixel_at t x y) (unat ?h) = Some px"
    "paints t (\<lambda>a b. unat x \<le> a \<and> a < unat x + unat ?w \<and> unat y \<le> b \<and> b < unat y + unat ?h)
       (\<lambda>a b. f (pixel t a b) (pixel so (a - unat x) (b - unat y))) (t\<lparr>ptr := px\<rparr>)"
    using blend_rect_paints [OF t so fits(1,2) b(2) fits(3-5)] by blast
  have "gfx_surface_blend t so x y = Some (t\<lparr>ptr := px\<rparr>)"
    using True fmt px(1) unfolding gfx_surface_blend_def Let_def by (auto simp: not_le)
  then show ?thesis using b by (intro exI [of _ "t\<lparr>ptr := px\<rparr>"] conjI paints_cong [OF px(2)]) (auto simp: cw ch)
qed

section \<open>A small surface\<close>

text \<open>Eight by eight pixels of 32 bits, numbered, used to try the theorems on.\<close>

definition small_surface :: gfx_surface where
  "small_surface = the (gfx_create_surface (\<lambda>_. None) (Some (map of_nat [0..<64])) 8 8 8 GFX_FORMAT_RGB_x888)"

lemma small_surface_sel [simp]:
  "ptr small_surface = map of_nat [0..<64]" "g_width small_surface = 8" "g_height small_surface = 8" "g_stride small_surface = 8"
  "g_format small_surface = GFX_FORMAT_RGB_x888" "g_ops small_surface = Pixel32" "translate_color small_surface = None"
  by (simp_all add: small_surface_def gfx_create_surface_def)

lemma small_surface_wf [simp]: "surface_wf small_surface"
  by (simp add: surface_wf_def)

lemma small_surface_pixel: "a < 8 \<Longrightarrow> b < 8 \<Longrightarrow> pixel small_surface a b = of_nat (a + b * 8)"
  by (simp add: pixel_def)

end
