(* ===== verification/Pow2.thy ===== *)
theory Pow2
  imports Thread
begin

text \<open>lk/pow2.h: sizes that are powers of two, kept as their logarithm.\<close>

definition ispow2 :: "u32 \<Rightarrow> bool" where
  "ispow2 val \<longleftrightarrow> (val - 1) AND val = 0"

definition log2_uint :: "u32 \<Rightarrow> u32" where
  "log2_uint val = (case top_bit val of None \<Rightarrow> 0 | Some n \<Rightarrow> of_nat n)"

definition valpow2 :: "u32 \<Rightarrow> u32" where
  "valpow2 valp2 = push_bit (unat valp2) 1"

definition modpow2 :: "u32 \<Rightarrow> u32 \<Rightarrow> u32" where
  "modpow2 val modp2 = val AND (push_bit (unat modp2) 1 - 1)"

lemma bit_high_iff: "unat (x :: u32) < 2 ^ Suc k \<Longrightarrow> bit x k \<longleftrightarrow> 2 ^ k \<le> unat x"
proof -
  assume lt: "unat x < 2 ^ Suc k"
  have "bit x k = bit (unat x) k" by (auto simp: bit_unsigned_iff dest: bit_imp_le_length)
  then have "bit x k = odd (unat x div 2 ^ k)" by (simp only: bit_iff_odd)
  moreover have "unat x div 2 ^ k < 2" using lt by (simp add: less_mult_imp_div_less)
  moreover have "unat x div 2 ^ k = 0 \<longleftrightarrow> unat x < 2 ^ k" by (simp add: div_eq_0_iff)
  ultimately show ?thesis by (cases "unat x div 2 ^ k") auto
qed

lemma pow2_log2:
  assumes "len \<noteq> 0" "ispow2 len"
  shows "unat len = 2 ^ unat (log2_uint len) \<and> unat (log2_uint len) < 32"
proof -
  have "top_bit len \<noteq> None"
  proof
    assume none: "top_bit len = None"
    have "\<not> bit len n" if "n < 32" for n
      using find_top_None [of len 32 n] none that by (simp add: top_bit_def)
    then have "len = 0" by (intro bit_word_eqI) simp
    then show False using assms(1) by simp
  qed
  then obtain k where k: "top_bit len = Some k" by auto
  then have kb: "bit len k" "k < 32" "\<And>q. k < q \<Longrightarrow> q < 32 \<Longrightarrow> \<not> bit len q"
    using find_top_Some [of len 32 k] by (auto simp: top_bit_def)
  have "len = take_bit (Suc k) len" using kb(3) by (intro bit_word_eqI) (auto simp: bit_simps less_Suc_eq_le not_le intro: leI)
  then have "unat len = take_bit (Suc k) (unat len)" by (metis unsigned_take_bit_eq)
  then have lt: "unat len < 2 ^ Suc k" by (metis take_bit_nat_less_exp)
  have ge: "2 ^ k \<le> unat len" using bit_high_iff [OF lt] kb(1) by simp
  have "unat len = 2 ^ k"
  proof (rule ccontr)
    assume ne: "unat len \<noteq> 2 ^ k"
    have m: "unat (len - 1) = unat len - 1" using assms(1) by (rule unat_minus_one)
    then have "2 ^ k \<le> unat (len - 1)" "unat (len - 1) < 2 ^ Suc k" using ne ge lt by linarith+
    then have "bit (len - 1) k" using bit_high_iff by blast
    then have "bit ((len - 1) AND len) k" using kb(1) by (simp add: bit_and_iff)
    then show False using assms(2) by (simp add: ispow2_def)
  qed
  moreover have "unat (log2_uint len) = k" using k kb(2) by (simp add: log2_uint_def)
  ultimately show ?thesis using kb(2) by simp
qed

lemma pow2_exists: "(x :: u32) \<noteq> 0 \<Longrightarrow> (x - 1) AND x = 0 \<Longrightarrow> \<exists>k < 32. unat x = 2 ^ k"
  using pow2_log2 [of x] by (auto simp: ispow2_def)

lemma unat_valpow2: "unat p < 32 \<Longrightarrow> unat (valpow2 p) = 2 ^ unat p"
proof -
  assume "unat p < 32"
  then have "(2 :: nat) ^ unat p < 2 ^ 32" by (intro power_strict_increasing) simp_all
  then have "unat (of_nat (2 ^ unat p) :: u32) = 2 ^ unat p" by (rule unat_of_nat_small32)
  then show ?thesis by (simp add: valpow2_def)
qed

lemma unat_modpow2: "unat p < 32 \<Longrightarrow> unat (modpow2 v p) = unat v mod 2 ^ unat p"
proof -
  assume p: "unat p < 32"
  have "modpow2 v p = take_bit (unat p) v"
    by (rule bit_word_eqI) (auto simp: modpow2_def bit_simps mask_eq_exp_minus_1 [symmetric] )
  then have "unat (modpow2 v p) = take_bit (unat p) (unat v)" by (simp only: unsigned_take_bit_eq)
  then show ?thesis by (simp only: take_bit_eq_mod)
qed

section \<open>The elements of a ring\<close>

text \<open>\<open>ring buf t n\<close>: the \<open>n\<close> elements from index \<open>t\<close> on, around the end of the buffer.\<close>

definition ring :: "'a list \<Rightarrow> nat \<Rightarrow> nat \<Rightarrow> 'a list" where
  "ring buf t n = map (\<lambda>i. buf ! ((t + i) mod length buf)) [0..<n]"

lemma length_ring [simp]: "length (ring buf t n) = n"
  by (simp add: ring_def)

lemma ring_nth: "i < n \<Longrightarrow> ring buf t n ! i = buf ! ((t + i) mod length buf)"
  by (simp add: ring_def)

lemma ring_read:
  assumes "k \<le> n" "t + k \<le> length buf"
  shows "take k (drop t buf) = take k (ring buf t n)"
  using assms by (intro nth_equalityI) (auto simp: ring_nth)

lemma ring_drop: "k \<le> n \<Longrightarrow> ring buf ((t + k) mod length buf) (n - k) = drop k (ring buf t n)"
  by (intro nth_equalityI) (auto simp: ring_nth mod_add_left_eq add.assoc)

lemma ring_write:
  assumes "mem_write buf ((t + n) mod length buf) data = Some buf'" "n + length data \<le> length buf"
    and fits: "(t + n) mod length buf + length data \<le> length buf"
  shows "ring buf' t (n + length data) = ring buf t n @ data"
proof (rule nth_equalityI)
  let ?S = "length buf" and ?h = "(t + n) mod length buf"
  have len: "length buf' = ?S" using mem_write_length [OF assms(1)] .
  fix i assume "i < length (ring buf' t (n + length data))"
  then have i: "i < n + length data" by simp
  have S: "0 < ?S" using i assms(2) by linarith
  have lt: "(t + i) mod ?S < ?S" using S by simp
  have val: "buf' ! ((t + i) mod ?S) = (if ?h \<le> (t + i) mod ?S \<and> (t + i) mod ?S < ?h + length data
      then data ! ((t + i) mod ?S - ?h) else buf ! ((t + i) mod ?S))"
    using mem_write_nth [OF assms(1) lt] .
  show "ring buf' t (n + length data) ! i = (ring buf t n @ data) ! i"
  proof (cases "i < n")
    case True
    have "\<not> (?h \<le> (t + i) mod ?S \<and> (t + i) mod ?S < ?h + length data)"
    proof
      assume a: "?h \<le> (t + i) mod ?S \<and> (t + i) mod ?S < ?h + length data"
      define j where "j = (t + i) mod ?S - ?h"
      have j: "j < length data" "?h + j = (t + i) mod ?S" using a by (auto simp: j_def)
      then have "(t + n + j) mod ?S = (t + i) mod ?S" by (metis mod_add_left_eq mod_mod_trivial)
      moreover have "t + i \<le> t + n + j" using True by simp
      ultimately have "?S dvd (t + n + j) - (t + i)" by (simp only: mod_eq_dvd_iff_nat)
      moreover have "0 < (t + n + j) - (t + i)" "(t + n + j) - (t + i) < ?S" using True j(1) assms(2) by linarith+
      ultimately show False using nat_dvd_not_less by blast
    qed
    then show ?thesis using True val i len by (auto simp: ring_nth nth_append)
  next
    case False
    define j where "j = i - n"
    have j: "i = n + j" "j < length data" using False i by (auto simp: j_def)
    have "(t + i) mod ?S = (?h + j) mod ?S" by (simp add: j(1) mod_add_left_eq add.assoc)
    also have "\<dots> = ?h + j" using fits j(2) by simp
    finally show ?thesis using val i j len by (simp add: ring_nth nth_append)
  qed
qed simp

end
