(* ===== verification/Cbuf.thy ===== *)
theory Cbuf
  imports Sync_Inv Pow2
begin

text \<open>
  lib/cbuf/cbuf.c and lib/cbuf.h: the circular byte buffer of the console. The size is a power
  of two; one byte is kept free, so that equal pointers mean empty. An event is signalled as
  long as there is data, and readers wait for it.

  \<open>None\<close> is a failed assertion, an access outside the buffer, or a retry that never ends.
\<close>

section \<open>The buffer\<close>

record cbuf_t =
  cb_head :: u32
  cb_tail :: u32
  len_pow2 :: u32
  cb_buf :: bytes
  cb_event :: event_t

definition INC_POINTER :: "cbuf_t \<Rightarrow> u32 \<Rightarrow> u32 \<Rightarrow> u32" where
  "INC_POINTER c p inc = modpow2 (p + inc) (len_pow2 c)"

definition cbuf_initialize_etc :: "kernel \<Rightarrow> wqid \<Rightarrow> u32 \<Rightarrow> bytes \<Rightarrow> (cbuf_t \<times> kernel) option" where
  "cbuf_initialize_etc K w len buf =
     (if len = 0 \<or> \<not> ispow2 len then None
      else
        (let (e, K') = event_init K w False False
         in Some (\<lparr>cb_head = 0, cb_tail = 0, len_pow2 = log2_uint len, cb_buf = buf, cb_event = e\<rparr>, K')))"

definition cbuf_space_avail :: "cbuf_t \<Rightarrow> u32" where
  "cbuf_space_avail c =
     (let consumed = modpow2 (cb_head c - cb_tail c) (len_pow2 c)
      in valpow2 (len_pow2 c) - consumed - 1)"

definition cbuf_space_used :: "cbuf_t \<Rightarrow> u32" where
  "cbuf_space_used c = modpow2 (cb_head c - cb_tail c) (len_pow2 c)"

definition cbuf_size :: "cbuf_t \<Rightarrow> u32" where
  "cbuf_size c = push_bit (unat (len_pow2 c)) 1"

section \<open>Writing\<close>

definition write_len :: "cbuf_t \<Rightarrow> nat \<Rightarrow> nat" where
  "write_len c rest =
     (if cb_head c \<ge> cb_tail c then
        (if cb_tail c = 0 then min (unat (valpow2 (len_pow2 c) - cb_head c - 1)) rest
         else min (unat (valpow2 (len_pow2 c) - cb_head c)) rest)
      else min (unat (cb_tail c - cb_head c - 1)) rest)"

text \<open>\<open>src = None\<close> is the null pointer, for which zeros are written. \<open>len\<close> and \<open>pos\<close> are sizes.\<close>

function write_loop :: "bytes option \<Rightarrow> nat \<Rightarrow> nat \<Rightarrow> cbuf_t \<Rightarrow> (cbuf_t \<times> nat) option" where
  "write_loop src len pos c =
     (if pos < len \<and> cbuf_space_avail c > 0 then
        (let n = write_len c (len - pos) in
         if n = 0 then Some (c, pos)
         else do {
           data \<leftarrow> (case src of None \<Rightarrow> Some (replicate n 0) | Some b \<Rightarrow> mem_read b pos n);
           buf' \<leftarrow> mem_write (cb_buf c) (unat (cb_head c)) data;
           write_loop src len (pos + n) (c\<lparr>cb_buf := buf', cb_head := INC_POINTER c (cb_head c) (of_nat n)\<rparr>)
         })
      else Some (c, pos))"
  by pat_completeness auto
termination
  by (relation "measure (\<lambda>(src, len, pos, c). len - pos)") auto

declare write_loop.simps [simp del]

definition cbuf_write :: "kernel \<Rightarrow> cbuf_t \<Rightarrow> bytes option \<Rightarrow> nat \<Rightarrow> bool \<Rightarrow> (nat \<times> cbuf_t \<times> kernel) option" where
  "cbuf_write K c src len canreschedule =
     (if \<not> len < unat (valpow2 (len_pow2 c)) then None
      else do {
        (c1, pos) \<leftarrow> write_loop src len 0 c;
        (c2, K1) \<leftarrow> (if cb_head c1 \<noteq> cb_tail c1
                   then do { (_, e, K1) \<leftarrow> event_signal K (cb_event c1) False; Some (c1\<lparr>cb_event := e\<rparr>, K1) }
                   else Some (c1, K));
        K2 \<leftarrow> (if canreschedule then thread_preempt K1 else Some K1);
        Some (pos, c2, K2)
      })"

definition cbuf_write_char :: "kernel \<Rightarrow> cbuf_t \<Rightarrow> u8 \<Rightarrow> bool \<Rightarrow> (nat \<times> cbuf_t \<times> kernel) option" where
  "cbuf_write_char K c ch canreschedule =
     (if cbuf_space_avail c > 0 then do {
        buf' \<leftarrow> mem_write (cb_buf c) (unat (cb_head c)) [ch];
        let c1 = c\<lparr>cb_buf := buf', cb_head := INC_POINTER c (cb_head c) 1\<rparr>;
        (c2, K1) \<leftarrow> (if cb_head c1 \<noteq> cb_tail c1
                   then do { (_, e, K1) \<leftarrow> event_signal K (cb_event c1) canreschedule; Some (c1\<lparr>cb_event := e\<rparr>, K1) }
                   else Some (c1, K));
        Some (1, c2, K1)
      }
      else Some (0, c, K))"

section \<open>Reading\<close>

definition read_len :: "cbuf_t \<Rightarrow> nat \<Rightarrow> nat" where
  "read_len c rest =
     (if cb_head c > cb_tail c then min (unat (cb_head c - cb_tail c)) rest
      else min (unat (valpow2 (len_pow2 c) - cb_tail c)) rest)"

text \<open>
  The loop of \<^verbatim>\<open>cbuf_read\<close>. \<open>out\<close> is what has been copied to the destination, \<open>pos\<close> bytes; with a
  null destination the bytes are skipped and the caller does not look at it. A chunk of
  length 0 would make the loop run for ever.
\<close>

function read_loop :: "nat \<Rightarrow> bytes \<Rightarrow> cbuf_t \<Rightarrow> (cbuf_t \<times> bytes) option" where
  "read_loop buflen out c =
     (if length out < buflen \<and> cb_tail c \<noteq> cb_head c then
        (let n = read_len c (buflen - length out) in
         if n = 0 then None
         else
           (case mem_read (cb_buf c) (unat (cb_tail c)) n of
              None \<Rightarrow> None
            | Some data \<Rightarrow>
                if length data = n then read_loop buflen (out @ data) (c\<lparr>cb_tail := INC_POINTER c (cb_tail c) (of_nat n)\<rparr>)
                else None))
      else Some (c, out))"
  by pat_completeness auto
termination
  by (relation "measure (\<lambda>(buflen, out, c). buflen - length out)") auto

declare read_loop.simps [simp del]

text \<open>The section of \<^verbatim>\<open>cbuf_read\<close> under the lock.\<close>

definition cbuf_read_locked :: "cbuf_t \<Rightarrow> nat \<Rightarrow> (bytes \<times> cbuf_t) option" where
  "cbuf_read_locked c buflen =
     (if cb_tail c \<noteq> cb_head c then do {
        (c1, out) \<leftarrow> read_loop buflen [] c;
        if cb_tail c1 = cb_head c1 then
          (if out = [] then None
           else do { (_, e) \<leftarrow> event_unsignal (cb_event c1); Some (out, c1\<lparr>cb_event := e\<rparr>) })
        else Some (out, c1)
      }
      else Some ([], c))"

text \<open>
  The whole call, up to the point where the thread is switched out, and what it does when it
  runs again. Both start over when they waited and still found nothing.
\<close>

partial_function (option) cbuf_read :: "kernel \<Rightarrow> cbuf_t \<Rightarrow> nat \<Rightarrow> bool \<Rightarrow> (bytes \<times> cbuf_t) waitable option" where
  "cbuf_read K c buflen block =
     (if block then do {
        r \<leftarrow> event_wait_timeout K (cb_event c) INFINITE_TIME;
        (case r of
           Blocked e K1 \<Rightarrow> Some (Blocked ([], c\<lparr>cb_event := e\<rparr>) K1)
         | Returned _ e K1 \<Rightarrow> do {
             (out, c1) \<leftarrow> cbuf_read_locked (c\<lparr>cb_event := e\<rparr>) buflen;
             if out = [] then cbuf_read K1 c1 buflen block else Some (Returned NO_ERROR (out, c1) K1)
           })
      }
      else do { (out, c1) \<leftarrow> cbuf_read_locked c buflen; Some (Returned NO_ERROR (out, c1) K) })"

definition cbuf_read_resume :: "kernel \<Rightarrow> cbuf_t \<Rightarrow> nat \<Rightarrow> (bytes \<times> cbuf_t) waitable option" where
  "cbuf_read_resume K c buflen = do {
     (out, c1) \<leftarrow> cbuf_read_locked c buflen;
     if out = [] then cbuf_read K c1 buflen True else Some (Returned NO_ERROR (out, c1) K)
   }"

definition cbuf_reset :: "kernel \<Rightarrow> cbuf_t \<Rightarrow> (bytes \<times> cbuf_t) waitable option" where
  "cbuf_reset K c = cbuf_read K c (unat (cbuf_size c)) False"

definition cbuf_read_char_locked :: "cbuf_t \<Rightarrow> (bytes \<times> cbuf_t) option" where
  "cbuf_read_char_locked c =
     (if cb_tail c \<noteq> cb_head c then do {
        ch \<leftarrow> mem_read (cb_buf c) (unat (cb_tail c)) 1;
        let c1 = c\<lparr>cb_tail := INC_POINTER c (cb_tail c) 1\<rparr>;
        c2 \<leftarrow> (if cb_tail c1 = cb_head c1 then do { (_, e) \<leftarrow> event_unsignal (cb_event c1); Some (c1\<lparr>cb_event := e\<rparr>) } else Some c1);
        Some (ch, c2)
      }
      else Some ([], c))"

partial_function (option) cbuf_read_char :: "kernel \<Rightarrow> cbuf_t \<Rightarrow> bool \<Rightarrow> (bytes \<times> cbuf_t) waitable option" where
  "cbuf_read_char K c block =
     (if block then do {
        r \<leftarrow> event_wait_timeout K (cb_event c) INFINITE_TIME;
        (case r of
           Blocked e K1 \<Rightarrow> Some (Blocked ([], c\<lparr>cb_event := e\<rparr>) K1)
         | Returned _ e K1 \<Rightarrow> do {
             (out, c1) \<leftarrow> cbuf_read_char_locked (c\<lparr>cb_event := e\<rparr>);
             if out = [] then cbuf_read_char K1 c1 block else Some (Returned NO_ERROR (out, c1) K1)
           })
      }
      else do { (out, c1) \<leftarrow> cbuf_read_char_locked c; Some (Returned NO_ERROR (out, c1) K) })"

text \<open>
  \<^verbatim>\<open>cbuf_peek\<close>: the two regions, each as its offset in the buffer (\<open>None\<close> for a null base) and its
  length.
\<close>

definition cbuf_peek :: "cbuf_t \<Rightarrow> (u32 \<times> (u32 option \<times> u32) \<times> (u32 option \<times> u32)) option" where
  "cbuf_peek c =
     (let ret = cbuf_space_used c; sz = cbuf_size c in
      if \<not> cb_tail c < sz \<or> \<not> ret \<le> sz then None
      else
        (let base0 = (if ret \<noteq> 0 then Some (cb_tail c) else None) in
         if ret + cb_tail c > sz then
           Some (ret, (base0, sz - cb_tail c), (Some 0, ret - (sz - cb_tail c)))
         else Some (ret, (base0, ret), (None, 0))))"

section \<open>Pointers and sizes\<close>

definition used :: "cbuf_t \<Rightarrow> nat" where
  "used c = (if unat (cb_tail c) \<le> unat (cb_head c) then unat (cb_head c) - unat (cb_tail c)
     else unat (cb_head c) + length (cb_buf c) - unat (cb_tail c))"

definition contents :: "cbuf_t \<Rightarrow> bytes" where
  "contents c = ring (cb_buf c) (unat (cb_tail c)) (used c)"

definition cbuf_ok :: "cbuf_t \<Rightarrow> bool" where
  "cbuf_ok c \<longleftrightarrow> unat (len_pow2 c) < 32 \<and> length (cb_buf c) = 2 ^ unat (len_pow2 c) \<and>
     unat (cb_head c) < length (cb_buf c) \<and> unat (cb_tail c) < length (cb_buf c)"

lemma unat_INC_POINTER:
  assumes "cbuf_ok c" "n < 2 ^ 32"
  shows "unat (INC_POINTER c p (of_nat n)) = (unat p + n) mod length (cb_buf c)"
proof -
  have l: "unat (len_pow2 c) < 32" "length (cb_buf c) = 2 ^ unat (len_pow2 c)" using assms(1) by (simp_all add: cbuf_ok_def)
  have "unat (p + of_nat n) = (unat p + n) mod 2 ^ 32" using assms(2) by (simp add: unat_word_ariths)
  moreover have "(2 :: nat) ^ unat (len_pow2 c) dvd 2 ^ 32" using l(1) by (intro le_imp_power_dvd) simp
  ultimately show ?thesis using l by (simp add: INC_POINTER_def unat_modpow2 mod_mod_cancel)
qed

lemma used_mod: "cbuf_ok c \<Longrightarrow> unat (modpow2 (cb_head c - cb_tail c) (len_pow2 c)) = used c"
proof -
  assume ok: "cbuf_ok c"
  let ?h = "unat (cb_head c)" and ?t = "unat (cb_tail c)" and ?S = "length (cb_buf c)"
  have S: "?S = 2 ^ unat (len_pow2 c)" "unat (len_pow2 c) < 32" "?h < ?S" "?t < ?S" using ok by (simp_all add: cbuf_ok_def)
  have dvd: "?S dvd 2 ^ 32" unfolding S(1) using S(2) by (intro le_imp_power_dvd) simp
  show ?thesis
  proof (cases "?t \<le> ?h")
    case True
    then have "unat (cb_head c - cb_tail c) = ?h - ?t" by (simp add: unat_sub_if')
    then show ?thesis using S True by (simp add: unat_modpow2 used_def)
  next
    case False
    then have sub: "unat (cb_head c - cb_tail c) = ?h + 2 ^ 32 - ?t" by (simp add: unat_sub_if')
    obtain q where q: "2 ^ 32 = ?S * q" using dvd by (rule dvdE)
    then obtain r where "q = Suc r" by (cases q) auto
    then have "?h + 2 ^ 32 - ?t = (?h + ?S - ?t) + ?S * r" using q False S(4) by simp
    then have "(?h + 2 ^ 32 - ?t) mod ?S = ?h + ?S - ?t" using False S(3,4) by (simp only: mod_mult_self2) simp
    then show ?thesis using S sub False by (simp add: unat_modpow2 used_def)
  qed
qed

lemma cbuf_okD:
  assumes "cbuf_ok c"
  shows "unat (valpow2 (len_pow2 c)) = length (cb_buf c)" "unat (cb_head c) < length (cb_buf c)"
    "unat (cb_tail c) < length (cb_buf c)" "used c < length (cb_buf c)" "length (cb_buf c) \<le> 2 ^ 31"
    "unat (cb_head c) = (unat (cb_tail c) + used c) mod length (cb_buf c)"
proof -
  show ht: "unat (cb_head c) < length (cb_buf c)" "unat (cb_tail c) < length (cb_buf c)" using assms by (simp_all add: cbuf_ok_def)
  show "unat (valpow2 (len_pow2 c)) = length (cb_buf c)" using assms by (simp add: cbuf_ok_def unat_valpow2)
  show "used c < length (cb_buf c)" using ht by (auto simp: used_def)
  have "(2 :: nat) ^ unat (len_pow2 c) \<le> 2 ^ 31" using assms by (intro power_increasing) (simp_all add: cbuf_ok_def)
  then show "length (cb_buf c) \<le> 2 ^ 31" using assms by (simp add: cbuf_ok_def)
  show "unat (cb_head c) = (unat (cb_tail c) + used c) mod length (cb_buf c)" using ht by (auto simp: used_def)
qed

lemma cbuf_space_used_nat: "cbuf_ok c \<Longrightarrow> unat (cbuf_space_used c) = used c"
  by (simp add: cbuf_space_used_def used_mod)

lemma cbuf_space_avail_nat:
  assumes "cbuf_ok c"
  shows "unat (cbuf_space_avail c) = length (cb_buf c) - 1 - used c"
proof -
  let ?v = "valpow2 (len_pow2 c)" and ?u = "modpow2 (cb_head c - cb_tail c) (len_pow2 c)"
  have "unat (?v - ?u) = length (cb_buf c) - used c"
    using cbuf_okD(1,4) [OF assms] used_mod [OF assms] by (simp add: unat_sub_if')
  moreover have "unat (?v - ?u - 1) = unat (?v - ?u) - 1" using calculation cbuf_okD(4) [OF assms] by (simp add: unat_sub_if')
  ultimately show ?thesis by (simp add: cbuf_space_avail_def)
qed

text \<open>Moving the head \<open>n\<close> bytes on, or the tail, when there is room or data for it.\<close>

lemma used_put:
  assumes "cbuf_ok c" "used c + n < length (cb_buf c)" "length buf' = length (cb_buf c)"
  shows "cbuf_ok (c\<lparr>cb_buf := buf', cb_head := INC_POINTER c (cb_head c) (of_nat n)\<rparr>)"
    "used (c\<lparr>cb_buf := buf', cb_head := INC_POINTER c (cb_head c) (of_nat n)\<rparr>) = used c + n"
proof -
  note d = cbuf_okD [OF assms(1)]
  have n: "n < 2 ^ 32" using assms(2) d(5) by simp
  note inc = unat_INC_POINTER [OF assms(1) n, of "cb_head c"]
  have hd: "(unat (cb_head c) + n) mod length (cb_buf c) = (unat (cb_tail c) + (used c + n)) mod length (cb_buf c)"
    unfolding d(6) by (simp add: mod_add_left_eq add.assoc)
  show "cbuf_ok (c\<lparr>cb_buf := buf', cb_head := INC_POINTER c (cb_head c) (of_nat n)\<rparr>)"
    using assms d inc by (auto simp: cbuf_ok_def)
  have "(unat (cb_tail c) + (used c + n)) mod length (cb_buf c) =
      (if unat (cb_tail c) + (used c + n) < length (cb_buf c) then unat (cb_tail c) + (used c + n)
       else unat (cb_tail c) + (used c + n) - length (cb_buf c))"
    using assms(2) d(3) by (auto simp: mod_if)
  then show "used (c\<lparr>cb_buf := buf', cb_head := INC_POINTER c (cb_head c) (of_nat n)\<rparr>) = used c + n"
    using inc hd assms(2,3) d(3) by (auto simp: used_def [of "c\<lparr>cb_buf := buf', cb_head := INC_POINTER c (cb_head c) (of_nat n)\<rparr>"])
qed

lemma used_get:
  assumes "cbuf_ok c" "n \<le> used c"
  shows "cbuf_ok (c\<lparr>cb_tail := INC_POINTER c (cb_tail c) (of_nat n)\<rparr>)"
    "used (c\<lparr>cb_tail := INC_POINTER c (cb_tail c) (of_nat n)\<rparr>) = used c - n"
    "unat (INC_POINTER c (cb_tail c) (of_nat n)) = (unat (cb_tail c) + n) mod length (cb_buf c)"
proof -
  note d = cbuf_okD [OF assms(1)]
  have n: "n < 2 ^ 32" using assms(2) d(4,5) by simp
  show inc: "unat (INC_POINTER c (cb_tail c) (of_nat n)) = (unat (cb_tail c) + n) mod length (cb_buf c)"
    by (rule unat_INC_POINTER [OF assms(1) n])
  show "cbuf_ok (c\<lparr>cb_tail := INC_POINTER c (cb_tail c) (of_nat n)\<rparr>)" using assms d inc by (auto simp: cbuf_ok_def)
  have tl: "(unat (cb_tail c) + n) mod length (cb_buf c) =
      (if unat (cb_tail c) + n < length (cb_buf c) then unat (cb_tail c) + n else unat (cb_tail c) + n - length (cb_buf c))"
    using assms(2) d(3,4) by (auto simp: mod_if)
  have hd: "unat (cb_head c) = (if unat (cb_tail c) + used c < length (cb_buf c) then unat (cb_tail c) + used c
      else unat (cb_tail c) + used c - length (cb_buf c))"
    using d(2,3) by (auto simp: used_def)
  show "used (c\<lparr>cb_tail := INC_POINTER c (cb_tail c) (of_nat n)\<rparr>) = used c - n"
    using inc tl hd assms(2) d(3,4)
    by (simp add: used_def [of "c\<lparr>cb_tail := INC_POINTER c (cb_tail c) (of_nat n)\<rparr>"] split: if_splits)
qed

section \<open>The loops move whole prefixes\<close>

lemma write_len_room:
  assumes "cbuf_ok c" "0 < rest" "used c + 1 < length (cb_buf c)"
  shows "0 < write_len c rest" "write_len c rest \<le> rest" "used c + write_len c rest < length (cb_buf c)"
    "unat (cb_head c) + write_len c rest \<le> length (cb_buf c)"
proof -
  let ?h = "unat (cb_head c)" and ?t = "unat (cb_tail c)" and ?S = "length (cb_buf c)"
  note d = cbuf_okD [OF assms(1)]
  have v: "unat (valpow2 (len_pow2 c) - cb_head c) = ?S - ?h" using d(1,2) by (simp add: unat_sub_if')
  have v1: "unat (valpow2 (len_pow2 c) - cb_head c - 1) = ?S - ?h - 1" using v d(2) by (simp add: unat_sub_if')
  have w: "unat (cb_tail c - cb_head c - 1) = ?t - ?h - 1" if "?h < ?t"
    using that by (simp add: unat_sub_if')
  have wl: "write_len c rest = min (if ?t \<le> ?h then (if ?t = 0 then ?S - ?h - 1 else ?S - ?h) else ?t - ?h - 1) rest"
    using v v1 w by (auto simp: write_len_def word_le_nat_alt unat_eq_0)
  show "0 < write_len c rest" "write_len c rest \<le> rest" "used c + write_len c rest < length (cb_buf c)"
    "?h + write_len c rest \<le> length (cb_buf c)"
    using wl assms(2,3) d(2,3) by (auto simp: used_def split: if_splits)
qed

definition src_data :: "bytes option \<Rightarrow> nat \<Rightarrow> bytes" where
  "src_data src len = (case src of None \<Rightarrow> replicate len 0 | Some b \<Rightarrow> b)"

lemma write_loop_appends:
  assumes "cbuf_ok c" "pos \<le> len" "len \<le> length (src_data src len)"
  shows "\<exists>c' k. write_loop src len pos c = Some (c', pos + k) \<and> k = min (len - pos) (length (cb_buf c) - 1 - used c) \<and>
     cbuf_ok c' \<and> contents c' = contents c @ take k (drop pos (src_data src len)) \<and>
     c' = c\<lparr>cb_buf := cb_buf c', cb_head := cb_head c'\<rparr> \<and> length (cb_buf c') = length (cb_buf c)"
  using assms
proof (induction src len pos c rule: write_loop.induct)
  case (1 src len pos c)
  note d = cbuf_okD [OF "1.prems"(1)]
  have av: "cbuf_space_avail c > 0 \<longleftrightarrow> used c + 1 < length (cb_buf c)"
    using cbuf_space_avail_nat [OF "1.prems"(1)] d(4) by (auto simp: word_less_nat_alt)
  show ?case
  proof (cases "pos < len \<and> used c + 1 < length (cb_buf c)")
    case False
    then show ?thesis using av "1.prems" d(4) by (subst write_loop.simps) (auto intro!: exI [of _ c])
  next
    case True
    define n where "n = write_len c (len - pos)"
    have n: "0 < n" "n \<le> len - pos" "used c + n < length (cb_buf c)" "unat (cb_head c) + n \<le> length (cb_buf c)"
      using write_len_room [OF "1.prems"(1), of "len - pos"] True by (auto simp: n_def)
    let ?data = "take n (drop pos (src_data src len))"
    have data: "(case src of None \<Rightarrow> Some (replicate n 0) | Some b \<Rightarrow> mem_read b pos n) = Some ?data" "length ?data = n"
      using n(2) True "1.prems"(3) by (auto simp: src_data_def mem_read_def min_def split: option.splits)
    obtain buf' where buf': "mem_write (cb_buf c) (unat (cb_head c)) ?data = Some buf'" "length buf' = length (cb_buf c)"
      using mem_write_obtain [of "unat (cb_head c)" ?data "cb_buf c"] n(4) data(2) by auto
    let ?c = "c\<lparr>cb_buf := buf', cb_head := INC_POINTER c (cb_head c) (of_nat n)\<rparr>"
    note put = used_put [OF "1.prems"(1) n(3) buf'(2)]
    have ring: "contents ?c = contents c @ ?data"
      using ring_write [of "cb_buf c" "unat (cb_tail c)" "used c" ?data buf'] buf'(1) n(3,4) d(6) data(2) put(2)
      by (simp add: contents_def)
    have "pos + n \<le> len" using n(2) True by auto
    from "1.IH" [OF _ n_def _ data(1) buf'(1) put(1) this "1.prems"(3)] True av n(1)
    obtain c' k where c': "write_loop src len (pos + n) ?c = Some (c', pos + n + k)" "k = min (len - (pos + n)) (length (cb_buf ?c) - 1 - used ?c)"
      "cbuf_ok c'" "contents c' = contents ?c @ take k (drop (pos + n) (src_data src len))"
      "c' = ?c\<lparr>cb_buf := cb_buf c', cb_head := cb_head c'\<rparr>" "length (cb_buf c') = length (cb_buf ?c)" by auto
    have "write_loop src len pos c = Some (c', pos + (n + k))"
      using True av n(1) data(1) buf'(1) c'(1) by (subst write_loop.simps) (simp add: Let_def n_def [symmetric] add.assoc)
    moreover have "n + k = min (len - pos) (length (cb_buf c) - 1 - used c)" using c'(2) put(2) buf'(2) n(2,3) by (auto simp: min_def)
    moreover have "contents c' = contents c @ take (n + k) (drop pos (src_data src len))"
      using c'(4) ring by (simp add: take_add add.commute [of n pos])
    ultimately show ?thesis using c'(3,5,6) buf'(2) by (intro exI [of _ c'] exI [of _ "n + k"]) auto
  qed
qed

lemma used_zero_iff: "cbuf_ok c \<Longrightarrow> used c = 0 \<longleftrightarrow> cb_tail c = cb_head c"
  by (auto simp: used_def cbuf_ok_def word_unat_eq_iff split: if_splits)

lemma read_len_data:
  assumes "cbuf_ok c" "0 < rest" "cb_tail c \<noteq> cb_head c"
  shows "0 < read_len c rest" "read_len c rest \<le> rest" "read_len c rest \<le> used c"
    "unat (cb_tail c) + read_len c rest \<le> length (cb_buf c)"
proof -
  let ?h = "unat (cb_head c)" and ?t = "unat (cb_tail c)" and ?S = "length (cb_buf c)"
  note d = cbuf_okD [OF assms(1)]
  have ne: "?t \<noteq> ?h" using assms(3) by (simp add: word_unat_eq_iff)
  have "unat (valpow2 (len_pow2 c) - cb_tail c) = ?S - ?t" using d(1,3) by (simp add: unat_sub_if')
  moreover have "unat (cb_head c - cb_tail c) = ?h - ?t" if "?t < ?h" using that by (simp add: unat_sub_if')
  ultimately have rl: "read_len c rest = min (if ?t < ?h then ?h - ?t else ?S - ?t) rest"
    by (auto simp: read_len_def word_less_nat_alt)
  show "0 < read_len c rest" "read_len c rest \<le> rest" "read_len c rest \<le> used c" "?t + read_len c rest \<le> ?S"
    using rl assms(2) ne d(2,3) by (auto simp: used_def split: if_splits)
qed

lemma read_loop_takes:
  assumes "cbuf_ok c" "length out \<le> buflen"
  shows "\<exists>c' k. read_loop buflen out c = Some (c', out @ take k (contents c)) \<and> k = min (buflen - length out) (used c) \<and>
     cbuf_ok c' \<and> contents c' = drop k (contents c) \<and> c' = c\<lparr>cb_tail := cb_tail c'\<rparr>"
  using assms
proof (induction buflen out c rule: read_loop.induct)
  case (1 buflen out c)
  note d = cbuf_okD [OF "1.prems"(1)]
  show ?case
  proof (cases "length out < buflen \<and> cb_tail c \<noteq> cb_head c")
    case False
    then show ?thesis using "1.prems" used_zero_iff [OF "1.prems"(1)]
      by (subst read_loop.simps) (auto intro!: exI [of _ c])
  next
    case True
    define n where "n = read_len c (buflen - length out)"
    have n: "0 < n" "n \<le> buflen - length out" "n \<le> used c" "unat (cb_tail c) + n \<le> length (cb_buf c)"
      using read_len_data [OF "1.prems"(1), of "buflen - length out"] True by (auto simp: n_def)
    let ?data = "take n (drop (unat (cb_tail c)) (cb_buf c))" and ?c = "c\<lparr>cb_tail := INC_POINTER c (cb_tail c) (of_nat n)\<rparr>"
    have data: "mem_read (cb_buf c) (unat (cb_tail c)) n = Some ?data" "length ?data = n" using n(4) by (simp_all add: mem_read_def)
    note get = used_get [OF "1.prems"(1) n(3)]
    have td: "?data = take n (contents c)" unfolding contents_def using n(3,4) by (rule ring_read)
    have dr: "contents ?c = drop n (contents c)"
      unfolding contents_def using ring_drop [OF n(3), of "cb_buf c" "unat (cb_tail c)"] get(2,3) by simp
    have "length (out @ ?data) \<le> buflen" using n(2) conjunct1 [OF True] unfolding length_append data(2) by linarith
    from "1.IH" [OF _ n_def _ data(1) data(2) get(1) this] True n(1)
    obtain c' k where c': "read_loop buflen (out @ ?data) ?c = Some (c', (out @ ?data) @ take k (contents ?c))"
      "k = min (buflen - length (out @ ?data)) (used ?c)" "cbuf_ok c'" "contents c' = drop k (contents ?c)" "c' = ?c\<lparr>cb_tail := cb_tail c'\<rparr>"
      by auto
    have "read_loop buflen out c = Some (c', out @ take (n + k) (contents c))"
      using True n(1) data c'(1) td dr by (subst read_loop.simps) (simp add: Let_def n_def [symmetric] take_add)
    moreover have "n + k = min (buflen - length out) (used c)" using c'(2) n(2,3) unfolding length_append data(2) get(2) by (auto simp: min_def)
    moreover have "contents c' = drop (n + k) (contents c)" using c'(4) dr by (simp add: add.commute [of n k])
    ultimately show ?thesis using c'(3,5) by (intro exI [of _ c'] exI [of _ "n + k"]) auto
  qed
qed

section \<open>The calls\<close>

text \<open>Between calls the event is signalled exactly when there is data.\<close>

definition cbuf_inv :: "cbuf_t \<Rightarrow> kernel \<Rightarrow> bool" where
  "cbuf_inv c K \<longleftrightarrow> cbuf_ok c \<and> e_magic (cb_event c) \<and> \<not> autounsignal (cb_event c) \<and>
     (signaled (cb_event c) \<longleftrightarrow> contents c \<noteq> []) \<and> kernel_wf K \<and> wq_magic (wait_queues K (e_wait (cb_event c)))"

definition cbuf_capacity :: "cbuf_t \<Rightarrow> nat" where
  "cbuf_capacity c = length (cb_buf c) - 1"

lemma contents_Nil_iff: "cbuf_ok c \<Longrightarrow> contents c = [] \<longleftrightarrow> cb_tail c = cb_head c"
  using used_zero_iff by (auto simp: contents_def ring_def)

lemma length_contents: "length (contents c) = used c"
  by (simp add: contents_def)

lemma contents_event [simp]: "contents (c\<lparr>cb_event := e\<rparr>) = contents c" "cbuf_ok (c\<lparr>cb_event := e\<rparr>) = cbuf_ok c"
  "cbuf_capacity (c\<lparr>cb_event := e\<rparr>) = cbuf_capacity c"
  by (simp_all add: contents_def used_def cbuf_ok_def cbuf_capacity_def)

lemma event_signal_ok:
  assumes "kernel_wf K" "wq_magic (wait_queues K (e_wait e))" "e_magic e" "\<not> autounsignal e"
  shows "\<exists>K'. event_signal K e False = Some (NO_ERROR, e\<lparr>signaled := True\<rparr>, K') \<and> kernel_wf K' \<and>
     wq_magic (wait_queues K' (e_wait e)) \<and>
     (\<not> signaled e \<longrightarrow> wakes K (e_wait e) (set (waiting K (e_wait e))) NO_ERROR K')"
proof (cases "signaled e")
  case True
  then show ?thesis using assms by (cases e) (simp add: event_signal_def)
next
  case False
  obtain K' where "wait_queue_wake_all K (e_wait e) False NO_ERROR = Some (int (length (waiting K (e_wait e))), K')" "kernel_wf K'"
    "wakes K (e_wait e) (set (waiting K (e_wait e))) NO_ERROR K'"
    using wait_queue_wake_all_wf [OF assms(1,2)] by blast
  then show ?thesis using assms False by (auto simp: event_signal_def wakes_def)
qed

lemma cbuf_write_appends:
  assumes inv: "cbuf_inv c K" and len: "length data \<le> cbuf_capacity c"
  shows "\<exists>c' K'. cbuf_write K c (Some data) (length data) False = Some (min (length data) (cbuf_capacity c - length (contents c)), c', K') \<and>
     cbuf_inv c' K' \<and> cbuf_capacity c' = cbuf_capacity c \<and>
     contents c' = contents c @ take (cbuf_capacity c - length (contents c)) data"
proof -
  have ok: "cbuf_ok c" using inv by (simp add: cbuf_inv_def)
  note d = cbuf_okD [OF ok]
  define k where "k = min (length data) (cbuf_capacity c - length (contents c))"
  have sz: "length data < unat (valpow2 (len_pow2 c))" using len d(1,4) by (simp add: cbuf_capacity_def)
  obtain c1 where c1: "write_loop (Some data) (length data) 0 c = Some (c1, k)" "cbuf_ok c1"
    "contents c1 = contents c @ take k data" "c1 = c\<lparr>cb_buf := cb_buf c1, cb_head := cb_head c1\<rparr>" "length (cb_buf c1) = length (cb_buf c)"
    using write_loop_appends [OF ok, of 0 "length data" "Some data"] by (auto simp: src_data_def k_def cbuf_capacity_def length_contents)
  have ev: "cb_event c1 = cb_event c" by (subst c1(4)) simp
  have cap: "cbuf_capacity c1 = cbuf_capacity c" using c1(5) by (simp add: cbuf_capacity_def)
  have app: "contents c1 = contents c @ take (cbuf_capacity c - length (contents c)) data" using c1(3) by (simp add: k_def min_def)
  show ?thesis
  proof (cases "contents c1 = []")
    case True
    then have "cb_head c1 = cb_tail c1" using contents_Nil_iff [OF c1(2)] by simp
    then have "cbuf_write K c (Some data) (length data) False = Some (k, c1, K)" using sz c1(1) by (simp add: cbuf_write_def)
    moreover have "cbuf_inv c1 K" using inv c1(2,3) True ev by (simp add: cbuf_inv_def)
    ultimately show ?thesis using cap app k_def by blast
  next
    case False
    then have ne: "cb_head c1 \<noteq> cb_tail c1" using contents_Nil_iff [OF c1(2)] by auto
    obtain K' where K': "event_signal K (cb_event c1) False = Some (NO_ERROR, (cb_event c1)\<lparr>signaled := True\<rparr>, K')" "kernel_wf K'"
      "wq_magic (wait_queues K' (e_wait (cb_event c1)))"
      using event_signal_ok [of K "cb_event c1"] inv ev by (auto simp: cbuf_inv_def)
    let ?c = "c1\<lparr>cb_event := (cb_event c1)\<lparr>signaled := True\<rparr>\<rparr>"
    have "cbuf_write K c (Some data) (length data) False = Some (k, ?c, K')" using sz c1(1) ne K'(1) by (simp add: cbuf_write_def)
    moreover have "cbuf_inv ?c K'" using inv c1(2) False ev K' by (simp add: cbuf_inv_def)
    ultimately show ?thesis using cap app unfolding k_def by (intro exI [of _ ?c] exI [of _ K']) simp
  qed
qed

lemma cbuf_read_locked_takes:
  assumes inv: "cbuf_inv c K" and n: "0 < n \<or> contents c = []"
  shows "\<exists>c'. cbuf_read_locked c n = Some (take n (contents c), c') \<and> cbuf_inv c' K \<and>
     cbuf_capacity c' = cbuf_capacity c \<and> contents c' = drop n (contents c)"
proof (cases "contents c = []")
  case True
  then have "cbuf_read_locked c n = Some ([], c)" using inv contents_Nil_iff [of c] by (simp add: cbuf_read_locked_def cbuf_inv_def)
  then show ?thesis using inv True by simp
next
  case False
  have ok: "cbuf_ok c" using inv by (simp add: cbuf_inv_def)
  obtain c1 k where c1: "read_loop n [] c = Some (c1, take k (contents c))" "k = min n (used c)" "cbuf_ok c1" "contents c1 = drop k (contents c)"
    "c1 = c\<lparr>cb_tail := cb_tail c1\<rparr>"
    using read_loop_takes [OF ok, of "[]" n] by auto
  have tk: "take k (contents c) = take n (contents c)" "drop k (contents c) = drop n (contents c)"
    using c1(2) by (simp_all add: length_contents [symmetric] min_def)
  have ev: "cb_event c1 = cb_event c" "cbuf_capacity c1 = cbuf_capacity c" by (subst c1(5), simp add: cbuf_capacity_def)+
  have ne: "cb_tail c \<noteq> cb_head c" "take n (contents c) \<noteq> []" using False n contents_Nil_iff [OF ok] by auto
  show ?thesis
  proof (cases "contents c1 = []")
    case True
    then have "cbuf_read_locked c n = Some (take n (contents c), c1\<lparr>cb_event := (cb_event c)\<lparr>signaled := False\<rparr>\<rparr>)"
      using ne c1(1) tk ev inv contents_Nil_iff [OF c1(3)] by (simp add: cbuf_read_locked_def event_unsignal_def cbuf_inv_def)
    moreover have "cbuf_inv (c1\<lparr>cb_event := (cb_event c)\<lparr>signaled := False\<rparr>\<rparr>) K" using inv True c1(3) by (simp add: cbuf_inv_def)
    ultimately show ?thesis using ev(2) c1(4) tk by auto
  next
    case ne1: False
    then have "cbuf_read_locked c n = Some (take n (contents c), c1)"
      using ne c1(1) tk contents_Nil_iff [OF c1(3)] by (simp add: cbuf_read_locked_def)
    moreover have "cbuf_inv c1 K" using inv ne1 False c1(3) ev by (simp add: cbuf_inv_def)
    ultimately show ?thesis using ev(2) c1(4) tk by auto
  qed
qed

section \<open>Waiting for data\<close>

lemma cbuf_read_nonblocking:
  assumes "cbuf_inv c K" "0 < n \<or> contents c = []"
  shows "\<exists>c'. cbuf_read K c n False = Some (Returned NO_ERROR (take n (contents c), c') K) \<and> cbuf_inv c' K \<and>
     cbuf_capacity c' = cbuf_capacity c \<and> contents c' = drop n (contents c)"
  using cbuf_read_locked_takes [OF assms] by (subst cbuf_read.simps) auto

lemma cbuf_read_blocking_data:
  assumes "cbuf_inv c K" "contents c \<noteq> []" "0 < n"
  shows "\<exists>c'. cbuf_read K c n True = Some (Returned NO_ERROR (take n (contents c), c') K) \<and> cbuf_inv c' K \<and>
     contents c' = drop n (contents c)"
proof -
  have "event_wait_timeout K (cb_event c) INFINITE_TIME = Some (Returned NO_ERROR (cb_event c) K)"
    using assms(1,2) by (simp add: event_wait_timeout_def cbuf_inv_def)
  moreover obtain c' where "cbuf_read_locked c n = Some (take n (contents c), c')" "cbuf_inv c' K" "contents c' = drop n (contents c)"
    using cbuf_read_locked_takes [OF assms(1)] assms(3) by blast
  ultimately show ?thesis using assms(2,3) by (subst cbuf_read.simps) simp
qed

lemma cbuf_read_blocking_empty:
  assumes "cbuf_inv c K" "contents c = []" "current_thread K \<noteq> idle_thread"
  shows "\<exists>K'. cbuf_read K c n True = Some (Blocked ([], c) K') \<and> kernel_wf K' \<and>
     waiting K' (e_wait (cb_event c)) = waiting K (e_wait (cb_event c)) @ [current_thread K]"
proof -
  let ?w = "e_wait (cb_event c)"
  obtain K' where K': "wait_queue_block K ?w INFINITE_TIME = Some (Inr K')" "kernel_wf K'" "waiting K' ?w = waiting K ?w @ [current_thread K]"
    using wait_queue_block_wf [of K ?w INFINITE_TIME] assms by (auto simp: cbuf_inv_def)
  then have "event_wait_timeout K (cb_event c) INFINITE_TIME = Some (Blocked (cb_event c) K')"
    using assms(1,2) by (simp add: event_wait_timeout_def cbuf_inv_def)
  then show ?thesis using K' by (subst cbuf_read.simps) simp
qed

text \<open>Asking for no byte at all, with permission to wait, retries for ever once there is data.\<close>

lemma cbuf_read_zero_diverges:
  assumes inv: "cbuf_inv c K" "contents c \<noteq> []"
  shows "cbuf_read K c 0 True = None"
proof -
  have ok: "cbuf_ok c" using inv by (simp add: cbuf_inv_def)
  have w: "event_wait_timeout K (cb_event c) INFINITE_TIME = Some (Returned NO_ERROR (cb_event c) K)"
    using inv by (simp add: event_wait_timeout_def cbuf_inv_def)
  have l: "cbuf_read_locked c 0 = Some ([], c)"
    using inv(2) contents_Nil_iff [OF ok] read_loop.simps [of 0 "[]" c] by (simp add: cbuf_read_locked_def)
  have "False" if ret: "cbuf_read K c 0 True = Some r" for r
  proof -
    have "K = K \<and> c = c \<and> 0 = (0 :: nat) \<and> True \<longrightarrow> False"
    proof (rule cbuf_read.raw_induct [where P = "\<lambda>K' c' n b r. K' = K \<and> c' = c \<and> n = 0 \<and> b \<longrightarrow> False", OF _ ret], rule impI, goal_cases)
      case (1 f K' c' n b r)
      then have "f K c 0 True = Some r" using w l by (simp add: bind_eq_Some_conv)
      then show False using 1(1) by blast
    qed
    then show False by simp
  qed
  then show ?thesis by (cases "cbuf_read K c 0 True") auto
qed

section \<open>First in, first out\<close>

text \<open>
  The contract of a bounded byte queue. Inside it: whatever the order of writes and reads, what
  was accepted so far is what was delivered followed by what is still inside.
\<close>

datatype fifo_op = Put bytes | Get nat

fun op_ok :: "nat \<Rightarrow> fifo_op \<Rightarrow> bool" where
  "op_ok cap (Put data) \<longleftrightarrow> length data \<le> cap"
| "op_ok cap (Get n) \<longleftrightarrow> 0 < n"

text \<open>The bytes accepted and the bytes delivered by a sequence of operations.\<close>

fun fifo_run :: "(bytes \<Rightarrow> 's \<Rightarrow> (nat \<times> 's) option) \<Rightarrow> (nat \<Rightarrow> 's \<Rightarrow> (bytes \<times> 's) option) \<Rightarrow> fifo_op list \<Rightarrow> 's \<Rightarrow> (bytes \<times> bytes \<times> 's) option" where
  "fifo_run put get [] s = Some ([], [], s)"
| "fifo_run put get (Put data # ops) s = do {
     (n, s1) \<leftarrow> put data s; (a, d, s2) \<leftarrow> fifo_run put get ops s1; Some (take n data @ a, d, s2) }"
| "fifo_run put get (Get n # ops) s = do {
     (out, s1) \<leftarrow> get n s; (a, d, s2) \<leftarrow> fifo_run put get ops s1; Some (a, out @ d, s2) }"

locale byte_fifo =
  fixes inv :: "'s \<Rightarrow> bool" and cap :: "'s \<Rightarrow> nat" and held :: "'s \<Rightarrow> bytes"
    and put :: "bytes \<Rightarrow> 's \<Rightarrow> (nat \<times> 's) option" and get :: "nat \<Rightarrow> 's \<Rightarrow> (bytes \<times> 's) option"
  assumes put_law: "inv s \<Longrightarrow> length data \<le> cap s \<Longrightarrow>
      \<exists>s'. put data s = Some (min (length data) (cap s - length (held s)), s') \<and> inv s' \<and> cap s' = cap s \<and>
        held s' = held s @ take (cap s - length (held s)) data"
    and get_law: "inv s \<Longrightarrow> 0 < n \<Longrightarrow>
      \<exists>s'. get n s = Some (take n (held s), s') \<and> inv s' \<and> cap s' = cap s \<and> held s' = drop n (held s)"
begin

theorem run_fifo:
  assumes "inv s" "\<forall>op \<in> set ops. op_ok (cap s) op"
  shows "\<exists>a d s'. fifo_run put get ops s = Some (a, d, s') \<and> inv s' \<and> held s @ a = d @ held s'"
  using assms
proof (induction ops arbitrary: s)
  case (Cons op ops)
  show ?case
  proof (cases op)
    case (Put data)
    let ?n = "min (length data) (cap s - length (held s))"
    obtain s1 where s1: "put data s = Some (?n, s1)" "inv s1" "cap s1 = cap s" "held s1 = held s @ take (cap s - length (held s)) data"
      using put_law [OF Cons.prems(1), of data] Cons.prems(2) Put by auto
    from Cons.IH [OF s1(2)] Cons.prems(2) s1(3) obtain a d s2 where "fifo_run put get ops s1 = Some (a, d, s2)" "inv s2" "held s1 @ a = d @ held s2" by auto
    moreover have "take ?n data = take (cap s - length (held s)) data" by (simp add: min_def)
    ultimately show ?thesis using s1(1,4) Put by (intro exI [of _ "take ?n data @ a"] exI [of _ d] exI [of _ s2]) simp
  next
    case (Get n)
    obtain s1 where s1: "get n s = Some (take n (held s), s1)" "inv s1" "cap s1 = cap s" "held s1 = drop n (held s)"
      using get_law [OF Cons.prems(1), of n] Cons.prems(2) Get by auto
    from Cons.IH [OF s1(2)] Cons.prems(2) s1(3) obtain a d s2 where r: "fifo_run put get ops s1 = Some (a, d, s2)" "inv s2" "held s1 @ a = d @ held s2" by auto
    have "held s @ a = take n (held s) @ held s1 @ a" using s1(4) by simp
    then show ?thesis using s1(1) r Get by (intro exI [of _ a] exI [of _ "take n (held s) @ d"] exI [of _ s2]) simp
  qed
qed simp

end

text \<open>The buffer with its kernel as such a queue.\<close>

definition cbuf_put :: "bytes \<Rightarrow> cbuf_t \<times> kernel \<Rightarrow> (nat \<times> cbuf_t \<times> kernel) option" where
  "cbuf_put data s = cbuf_write (snd s) (fst s) (Some data) (length data) False"

definition cbuf_get :: "nat \<Rightarrow> cbuf_t \<times> kernel \<Rightarrow> (bytes \<times> cbuf_t \<times> kernel) option" where
  "cbuf_get n s = (case cbuf_read (snd s) (fst s) n False of Some (Returned _ (out, c) K) \<Rightarrow> Some (out, c, K) | _ \<Rightarrow> None)"

interpretation cbuf_queue: byte_fifo "\<lambda>(c, K). cbuf_inv c K" "\<lambda>(c, K). cbuf_capacity c" "\<lambda>(c, K). contents c" cbuf_put cbuf_get
proof
  fix s and data :: bytes assume "case s of (c, K) \<Rightarrow> cbuf_inv c K" "length data \<le> (case s of (c, K) \<Rightarrow> cbuf_capacity c)"
  then show "\<exists>s'. cbuf_put data s = Some (min (length data) ((case s of (c, K) \<Rightarrow> cbuf_capacity c) - length (case s of (c, K) \<Rightarrow> contents c)), s') \<and>
      (case s' of (c, K) \<Rightarrow> cbuf_inv c K) \<and> (case s' of (c, K) \<Rightarrow> cbuf_capacity c) = (case s of (c, K) \<Rightarrow> cbuf_capacity c) \<and>
      (case s' of (c, K) \<Rightarrow> contents c) = (case s of (c, K) \<Rightarrow> contents c) @ take ((case s of (c, K) \<Rightarrow> cbuf_capacity c) - length (case s of (c, K) \<Rightarrow> contents c)) data"
    using cbuf_write_appends [of "fst s" "snd s" data] by (auto simp: cbuf_put_def)
next
  fix s and n :: nat assume "case s of (c, K) \<Rightarrow> cbuf_inv c K" "0 < n"
  then show "\<exists>s'. cbuf_get n s = Some (take n (case s of (c, K) \<Rightarrow> contents c), s') \<and> (case s' of (c, K) \<Rightarrow> cbuf_inv c K) \<and>
      (case s' of (c, K) \<Rightarrow> cbuf_capacity c) = (case s of (c, K) \<Rightarrow> cbuf_capacity c) \<and>
      (case s' of (c, K) \<Rightarrow> contents c) = drop n (case s of (c, K) \<Rightarrow> contents c)"
    using cbuf_read_nonblocking [of "fst s" "snd s" n] by (auto simp: cbuf_get_def)
qed

section \<open>Creation, single characters, and looking ahead\<close>

lemma cbuf_initialize_inv:
  assumes "kernel_wf K" "waiting K w = []" "len \<noteq> 0" "ispow2 len" "length buf = unat len"
  shows "\<exists>c K'. cbuf_initialize_etc K w len buf = Some (c, K') \<and> cbuf_inv c K' \<and> contents c = [] \<and>
     cbuf_capacity c = unat len - 1"
proof -
  let ?e = "\<lparr>e_magic = True, signaled = False, autounsignal = False, e_wait = w\<rparr>"
  let ?c = "\<lparr>cb_head = 0, cb_tail = 0, len_pow2 = log2_uint len, cb_buf = buf, cb_event = ?e\<rparr>"
  note p = pow2_log2 [OF assms(3,4)]
  have "cbuf_ok ?c" using p assms(3,5) by (simp add: cbuf_ok_def)
  moreover have "contents ?c = []" by (simp add: contents_def used_def ring_def)
  moreover have "wq_magic (wait_queues (wait_queue_init K w) w)" by (simp add: wait_queue_init_def)
  ultimately show ?thesis using assms(3-5) wait_queue_init_wf [OF assms(1,2)]
    by (simp add: cbuf_initialize_etc_def event_init_def cbuf_inv_def cbuf_capacity_def)
qed

lemma cbuf_write_char_appends:
  assumes inv: "cbuf_inv c K"
  shows "\<exists>c' K'. cbuf_write_char K c ch False = Some (if length (contents c) < cbuf_capacity c then 1 else 0, c', K') \<and>
     cbuf_inv c' K' \<and> contents c' = contents c @ (if length (contents c) < cbuf_capacity c then [ch] else [])"
proof -
  have ok: "cbuf_ok c" using inv by (simp add: cbuf_inv_def)
  note d = cbuf_okD [OF ok]
  have av: "cbuf_space_avail c > 0 \<longleftrightarrow> length (contents c) < cbuf_capacity c"
    using cbuf_space_avail_nat [OF ok] d(4) by (auto simp: word_less_nat_alt length_contents cbuf_capacity_def)
  show ?thesis
  proof (cases "length (contents c) < cbuf_capacity c")
    case False
    then show ?thesis using inv av by (auto simp: cbuf_write_char_def)
  next
    case True
    let ?b = "(cb_buf c)[unat (cb_head c) := ch]"
    let ?c = "c\<lparr>cb_buf := ?b, cb_head := INC_POINTER c (cb_head c) (of_nat 1)\<rparr>"
    have room: "used c + 1 < length (cb_buf c)" using True by (simp add: length_contents cbuf_capacity_def)
    have w: "mem_write (cb_buf c) (unat (cb_head c)) [ch] = Some ?b" using d(2) by (rule mem_write_single)
    note put = used_put [OF ok room, of ?b, simplified length_list_update, OF refl]
    have ct: "contents ?c = contents c @ [ch]"
      using ring_write [of "cb_buf c" "unat (cb_tail c)" "used c" "[ch]" ?b] w room d(2,6) put(2) by (simp add: contents_def)
    have ne: "cb_head ?c \<noteq> cb_tail ?c" using contents_Nil_iff [OF put(1)] ct by auto
    obtain K' where K': "event_signal K (cb_event c) False = Some (NO_ERROR, (cb_event c)\<lparr>signaled := True\<rparr>, K')" "kernel_wf K'"
      "wq_magic (wait_queues K' (e_wait (cb_event c)))"
      using event_signal_ok [of K "cb_event c"] inv by (auto simp: cbuf_inv_def)
    have "cbuf_write_char K c ch False = Some (1, ?c\<lparr>cb_event := (cb_event c)\<lparr>signaled := True\<rparr>\<rparr>, K')"
      using True av w ne K'(1) by (simp add: cbuf_write_char_def)
    moreover have "cbuf_inv (?c\<lparr>cb_event := (cb_event c)\<lparr>signaled := True\<rparr>\<rparr>) K'"
      using inv put(1) ct K'(2,3) by (simp add: cbuf_inv_def)
    ultimately show ?thesis using True ct by auto
  qed
qed

text \<open>The regions \<^verbatim>\<open>cbuf_peek\<close> reports hold exactly the contents.\<close>

definition region :: "bytes \<Rightarrow> u32 option \<times> u32 \<Rightarrow> bytes" where
  "region buf r = (case r of (None, n) \<Rightarrow> [] | (Some b, n) \<Rightarrow> take (unat n) (drop (unat b) buf))"

lemma cbuf_peek_contents:
  assumes "cbuf_ok c"
  shows "\<exists>r1 r2. cbuf_peek c = Some (of_nat (length (contents c)), r1, r2) \<and> region (cb_buf c) r1 @ region (cb_buf c) r2 = contents c"
proof -
  let ?t = "unat (cb_tail c)" and ?S = "length (cb_buf c)"
  note d = cbuf_okD [OF assms]
  have u: "unat (cbuf_space_used c) = used c" by (rule cbuf_space_used_nat [OF assms])
  have ret: "cbuf_space_used c = of_nat (length (contents c))" unfolding length_contents u [symmetric] by simp
  have sz: "unat (cbuf_size c) = ?S" using d(1) by (simp add: cbuf_size_def valpow2_def)
  have as1: "cb_tail c < cbuf_size c" "cbuf_space_used c \<le> cbuf_size c" using d(3,4) u sz by (simp_all add: word_less_nat_alt word_le_nat_alt)
  have sum: "unat (cbuf_space_used c + cb_tail c) = used c + ?t"
    using u d(3-5) by (subst unat_add_lem [THEN iffD1]) auto
  have rest: "unat (cbuf_size c - cb_tail c) = ?S - ?t" using sz d(3) by (simp add: unat_sub_if')
  show ?thesis
  proof (cases "used c + ?t > ?S")
    case True
    have rest2: "unat (cbuf_space_used c - (cbuf_size c - cb_tail c)) = used c - (?S - ?t)" using True u rest by (simp add: unat_sub_if')
    have le: "?S - ?t \<le> used c" using True by simp
    have "take (?S - ?t) (drop ?t (cb_buf c)) = take (?S - ?t) (contents c)"
      unfolding contents_def using le d(3) by (intro ring_read) auto
    moreover have "take (used c - (?S - ?t)) (cb_buf c) = drop (?S - ?t) (contents c)"
      using ring_drop [OF le, of "cb_buf c" ?t] ring_read [of "used c - (?S - ?t)" "used c - (?S - ?t)" 0 "cb_buf c"] d(3,4)
      by (simp add: contents_def)
    moreover have "cbuf_peek c = Some (cbuf_space_used c, (Some (cb_tail c), cbuf_size c - cb_tail c), (Some 0, cbuf_space_used c - (cbuf_size c - cb_tail c)))"
      using as1 sum True sz u by (auto simp: cbuf_peek_def Let_def word_less_nat_alt)
    ultimately show ?thesis using rest rest2 by (simp add: region_def ret)
  next
    case False
    have "take (used c) (drop ?t (cb_buf c)) = contents c"
      using ring_read [of "used c" "used c" ?t "cb_buf c"] False by (simp add: contents_def)
    moreover have "cbuf_peek c = Some (cbuf_space_used c, (if cbuf_space_used c \<noteq> 0 then Some (cb_tail c) else None, cbuf_space_used c), (None, 0))"
      using as1 sum False sz by (simp add: cbuf_peek_def Let_def word_less_nat_alt)
    moreover have "cbuf_space_used c = 0 \<Longrightarrow> contents c = []" using u by (simp add: contents_def ring_def)
    ultimately show ?thesis using u by (auto simp: region_def ret)
  qed
qed

lemma cbuf_read_char_locked_takes:
  assumes inv: "cbuf_inv c K"
  shows "\<exists>c'. cbuf_read_char_locked c = Some (take 1 (contents c), c') \<and> cbuf_inv c' K \<and> contents c' = drop 1 (contents c)"
proof (cases "contents c = []")
  case True
  then show ?thesis using inv contents_Nil_iff [of c] by (auto simp: cbuf_read_char_locked_def cbuf_inv_def)
next
  case False
  have ok: "cbuf_ok c" using inv by (simp add: cbuf_inv_def)
  note d = cbuf_okD [OF ok]
  let ?c = "c\<lparr>cb_tail := INC_POINTER c (cb_tail c) (of_nat 1)\<rparr>"
  have one: "1 \<le> used c" using False length_contents [of c] by (cases "contents c") auto
  note get = used_get [OF ok one]
  have ch: "mem_read (cb_buf c) (unat (cb_tail c)) 1 = Some (take 1 (contents c))"
    unfolding contents_def using ring_read [OF one, of "unat (cb_tail c)" "cb_buf c"] d(3) by (simp add: mem_read_def)
  have ct: "contents ?c = drop 1 (contents c)"
    unfolding contents_def using ring_drop [OF one, of "cb_buf c" "unat (cb_tail c)"] get(2,3) by simp
  have ne: "cb_tail c \<noteq> cb_head c" using contents_Nil_iff [OF ok] False by simp
  show ?thesis
  proof (cases "contents ?c = []")
    case True
    then have "cbuf_read_char_locked c = Some (take 1 (contents c), ?c\<lparr>cb_event := (cb_event c)\<lparr>signaled := False\<rparr>\<rparr>)"
      using ne ch inv contents_Nil_iff [OF get(1)] by (simp add: cbuf_read_char_locked_def event_unsignal_def cbuf_inv_def)
    moreover have "cbuf_inv (?c\<lparr>cb_event := (cb_event c)\<lparr>signaled := False\<rparr>\<rparr>) K" using inv True get(1) by (simp add: cbuf_inv_def)
    ultimately show ?thesis using ct by auto
  next
    case ne1: False
    then have "cbuf_read_char_locked c = Some (take 1 (contents c), ?c)"
      using ne ch contents_Nil_iff [OF get(1)] by (simp add: cbuf_read_char_locked_def)
    moreover have "cbuf_inv ?c K" using inv ne1 False get(1) by (simp add: cbuf_inv_def)
    ultimately show ?thesis using ct by auto
  qed
qed

end
