(* ===== verification/Pages.thy ===== *)
theory Pages
  imports Prelude
begin

text \<open>
  kernel/novm/novm.c and lib/heap/page_alloc.c: the page allocator of a target without virtual
  memory. The target has one arena, set up at boot from the end of the kernel to the end of
  memory, with a byte for every page. Each call runs under the mutex of the arena and leaves
  the mutex as it found it, so it appears as one step.

  \<open>None\<close> as the result of an address is the null pointer; an access outside the map is
  \<open>None\<close> of the whole call.
\<close>

section \<open>Rounding\<close>

definition ROUNDUP :: "u32 \<Rightarrow> u32 \<Rightarrow> u32" where
  "ROUNDUP a b = (a + (b - 1)) AND NOT (b - 1)"

definition ROUNDDOWN :: "u32 \<Rightarrow> u32 \<Rightarrow> u32" where
  "ROUNDDOWN a b = a AND NOT (b - 1)"

abbreviation PAGE_SIZE :: u32 where "PAGE_SIZE \<equiv> 4096"
abbreviation PAGE_SIZE_SHIFT :: nat where "PAGE_SIZE_SHIFT \<equiv> 12"

lemma and_not_low: "(x :: u32) AND NOT (2 ^ k - 1) = push_bit k (drop_bit k x)"
  by (rule bit_word_eqI) (auto simp: bit_simps mask_eq_exp_minus_1 [symmetric])

lemma unat_ROUNDDOWN: "k < 32 \<Longrightarrow> unat (ROUNDDOWN a (2 ^ k)) = unat a div 2 ^ k * 2 ^ k"
proof -
  have "unat (push_bit k (drop_bit k a)) = take_bit 32 (push_bit k (drop_bit k (unat a)))"
    using take_bit_nat_eq_self [OF unsigned_less [of a]] by (simp add: unsigned_push_bit_eq unsigned_drop_bit_eq)
  also have "\<dots> = take_bit 32 (unat a div 2 ^ k * 2 ^ k)" by (simp only: push_bit_eq_mult drop_bit_eq_div)
  also have "\<dots> = unat a div 2 ^ k * 2 ^ k"
  proof (rule take_bit_nat_eq_self)
    have "unat a div 2 ^ k * 2 ^ k \<le> unat a" by simp
    moreover have "unat a < 2 ^ 32" using unsigned_less [of a] by simp
    ultimately show "unat a div 2 ^ k * 2 ^ k < 2 ^ 32" by (rule le_less_trans)
  qed
  finally show ?thesis by (simp only: ROUNDDOWN_def and_not_low)
qed

lemma unat_ROUNDUP:
  assumes "k < 32" "unat a + 2 ^ k \<le> 2 ^ 32"
  shows "unat (ROUNDUP a (2 ^ k)) = (unat a + (2 ^ k - 1)) div 2 ^ k * 2 ^ k"
proof -
  have "(2 :: nat) ^ k < 2 ^ 32" using assms(1) by (intro power_strict_increasing) simp_all
  then have "unat (2 ^ k :: u32) = 2 ^ k" using unat_of_nat_small32 [of "2 ^ k"] by simp
  then have "unat (2 ^ k - 1 :: u32) = 2 ^ k - 1" by (subst unat_minus_one) (auto simp: unat_eq_zero [symmetric])
  then have "unat (a + (2 ^ k - 1)) = unat a + (2 ^ k - 1)" using assms(2) by (subst unat_add_lem [THEN iffD1]) auto
  then show ?thesis using unat_ROUNDDOWN [OF assms(1), of "a + (2 ^ k - 1)"] by (simp add: ROUNDUP_def ROUNDDOWN_def)
qed

lemma unat_drop_12: "unat (drop_bit 12 (x :: u32)) = unat x div 4096"
proof -
  have "unat (drop_bit 12 x) = drop_bit 12 (take_bit 32 (unat x))" by (simp only: unsigned_drop_bit_eq) simp
  also have "take_bit 32 (unat x) = unat x" by (rule take_bit_nat_eq_self) (use unsigned_less [of x] in simp)
  finally show ?thesis by (simp only: drop_bit_eq_div) simp
qed

section \<open>The arena\<close>

record novm_arena =
  n_pages :: u32
  n_map :: bytes
  n_base :: u32
  n_size :: u32
  unaligned_area :: "u32 option"
  unaligned_size :: u32

definition in_arena :: "novm_arena \<Rightarrow> u32 \<Rightarrow> bool" where
  "in_arena n p = (if n_size n = 0 then False else p \<ge> n_base n \<and> p < n_base n + n_size n)"

text \<open>
  Setting up the arena; \<open>default_map\<close> is the map passed in, \<open>None\<close> for a null pointer, and a map
  placed at the start of the arena itself otherwise. The space left in front of the first page is
  compared as a signed difference of pointers in the second case, as an unsigned one in the first.
\<close>

function grab_map :: "u32 \<Rightarrow> u32 \<Rightarrow> u32 \<Rightarrow> u32 \<Rightarrow> u32 \<times> u32 \<times> u32" where
  "grab_map arena_start start sz map_size =
     (if start - arena_start < map_size then grab_map arena_start (start + PAGE_SIZE) (sz - PAGE_SIZE) (map_size - 1)
      else (start, sz, map_size))"
  by pat_completeness auto
termination
proof (relation "measure (\<lambda>(a, s, z, m). unat m)", simp, goal_cases)
  case (1 a s z m)
  then have "m \<noteq> 0" by auto
  then have "0 < unat m" by (simp add: unat_gt_0)
  then show ?case using \<open>m \<noteq> 0\<close> by (simp add: unat_minus_one)
qed

declare grab_map.simps [simp del]

abbreviation MINIMUM_USEFUL_UNALIGNED_SIZE :: u32 where "MINIMUM_USEFUL_UNALIGNED_SIZE \<equiv> 64"

definition novm_init_helper :: "novm_arena \<Rightarrow> u32 \<Rightarrow> u32 \<Rightarrow> bytes option \<Rightarrow> u32 \<Rightarrow> novm_arena" where
  "novm_init_helper n arena_start arena_size default_map default_map_size =
     (let start = ROUNDUP arena_start PAGE_SIZE;
          sz = ROUNDDOWN (arena_start + arena_size) PAGE_SIZE - start;
          map_size = drop_bit PAGE_SIZE_SHIFT sz;
          own_map = (default_map = None \<or> default_map_size < map_size);
          (start1, sz1, map_size1) = (if own_map then grab_map arena_start start sz map_size else (start, sz, map_size));
          area = (if own_map then arena_start + ROUNDUP map_size1 4 else arena_start);
          map = (if own_map then [] else the default_map);
          useful = (if own_map then sint (start1 - area) \<ge> 64 else start1 - area \<ge> MINIMUM_USEFUL_UNALIGNED_SIZE);
          n1 = (if useful
                then n\<lparr>unaligned_area := Some area, unaligned_size := start1 - area\<rparr> else n)
      in n1\<lparr>n_map := replicate (unat map_size1) 0 @ drop (unat map_size1) map, n_pages := map_size1, n_base := start1, n_size := sz1\<rparr>)"

definition empty_arena :: novm_arena where
  "empty_arena = \<lparr>n_pages = 0, n_map = [], n_base = 0, n_size = 0, unaligned_area = None, unaligned_size = 0\<rparr>"

text \<open>The default arena of the target: 32 megabytes at \<open>0x88000000\<close>, from the end of the kernel \<open>mem_start\<close> on.\<close>

definition novm_init :: "u32 \<Rightarrow> novm_arena" where
  "novm_init mem_start =
     novm_init_helper empty_arena mem_start (0x88000000 + 0x02000000 - mem_start) (Some (replicate 0x2000 0)) 0x2000"

section \<open>Allocating and freeing\<close>

text \<open>The inner loop: the offset of the first page in use, if any.\<close>

primrec first_used :: "bytes \<Rightarrow> nat \<Rightarrow> nat \<Rightarrow> nat option" where
  "first_used m i 0 = None"
| "first_used m i (Suc k) = (if m ! i \<noteq> 0 then Some 0 else map_option Suc (first_used m (Suc i) k))"

function scan_pages :: "bytes \<Rightarrow> nat \<Rightarrow> nat \<Rightarrow> nat \<Rightarrow> nat option" where
  "scan_pages m npages pages i =
     (if i \<le> npages - pages then
        (case first_used m i pages of None \<Rightarrow> Some i | Some j \<Rightarrow> scan_pages m npages pages (i + j + 1))
      else None)"
  by pat_completeness auto
termination
  by (relation "measure (\<lambda>(m, npages, pages, i). Suc npages - i)") auto

declare scan_pages.simps [simp del]

definition novm_alloc_helper :: "novm_arena \<Rightarrow> u32 \<Rightarrow> u32 option \<times> novm_arena" where
  "novm_alloc_helper n pages =
     (if pages = 0 \<or> pages > n_pages n then (None, n)
      else
        (case scan_pages (n_map n) (unat (n_pages n)) (unat pages) 0 of
           None \<Rightarrow> (None, n)
         | Some i \<Rightarrow> (Some (n_base n + push_bit PAGE_SIZE_SHIFT (of_nat i)),
             n\<lparr>n_map := take i (n_map n) @ replicate (unat pages) 1 @ drop (i + unat pages) (n_map n)\<rparr>)))"

definition novm_alloc_pages :: "novm_arena \<Rightarrow> u32 \<Rightarrow> u32 \<Rightarrow> u32 option \<times> novm_arena" where
  "novm_alloc_pages n pages arena_bitmap =
     (if arena_bitmap AND 1 \<noteq> 0 then novm_alloc_helper n pages else (None, n))"

definition novm_alloc_unaligned :: "novm_arena \<Rightarrow> u32 option \<times> u32 \<times> novm_arena" where
  "novm_alloc_unaligned n =
     (case unaligned_area n of
        Some area \<Rightarrow> (Some area, unaligned_size n, n\<lparr>unaligned_area := None, unaligned_size := 0\<rparr>)
      | None \<Rightarrow> (let (p, n') = novm_alloc_pages n 1 (- 1) in (p, PAGE_SIZE, n')))"

definition novm_free_pages :: "novm_arena \<Rightarrow> u32 \<Rightarrow> u32 \<Rightarrow> novm_arena option" where
  "novm_free_pages n address pages =
     (if \<not> in_arena n address then Some n
      else do {
        let index = unat (drop_bit PAGE_SIZE_SHIFT (address - n_base n));
        m \<leftarrow> mem_write (n_map n) index (replicate (unat pages) 0);
        Some (n\<lparr>n_map := m\<rparr>)
      })"

definition novm_alloc_specific_pages :: "novm_arena \<Rightarrow> u32 \<Rightarrow> u32 \<Rightarrow> (status_t \<times> novm_arena) option" where
  "novm_alloc_specific_pages n address pages =
     (if \<not> in_arena n address then Some (ERR_NOT_FOUND, n)
      else do {
        let index = unat (drop_bit PAGE_SIZE_SHIFT (address - n_base n));
        let inside = min (unat pages) (length (n_map n) - index);
        if first_used (n_map n) index inside \<noteq> None then Some (ERR_NO_MEMORY, n)
        else do { m \<leftarrow> mem_write (n_map n) index (replicate (unat pages) 1); Some (NO_ERROR, n\<lparr>n_map := m\<rparr>) }
      })"

text \<open>lib/heap/page_alloc.c without the kernel's virtual memory.\<close>

definition page_alloc :: "novm_arena \<Rightarrow> u32 \<Rightarrow> u32 option \<times> novm_arena" where
  "page_alloc n pages = novm_alloc_pages n pages (- 1)"

definition page_free :: "novm_arena \<Rightarrow> u32 \<Rightarrow> u32 \<Rightarrow> novm_arena option" where
  "page_free n p pages = novm_free_pages n p pages"

definition page_first_alloc :: "novm_arena \<Rightarrow> u32 option \<times> u32 \<times> novm_arena" where
  "page_first_alloc n = novm_alloc_unaligned n"

section \<open>The search\<close>

definition free_run :: "bytes \<Rightarrow> nat \<Rightarrow> nat \<Rightarrow> bool" where
  "free_run m k i \<longleftrightarrow> (\<forall>j < k. m ! (i + j) = 0)"

lemma free_run_0 [simp]: "free_run m 0 i"
  by (simp add: free_run_def)

lemma free_run_Suc: "free_run m (Suc k) i \<longleftrightarrow> m ! i = 0 \<and> free_run m k (Suc i)"
proof -
  have "free_run m (Suc k) i \<longleftrightarrow> m ! (i + 0) = 0 \<and> (\<forall>j < k. m ! (i + Suc j) = 0)"
    unfolding free_run_def by (subst All_less_Suc2) simp
  then show ?thesis by (simp add: free_run_def)
qed

lemma first_used_None: "first_used m i k = None \<longleftrightarrow> free_run m k i"
  by (induction k arbitrary: i) (auto simp: free_run_Suc)

lemma first_used_Some: "first_used m i k = Some j \<Longrightarrow> j < k \<and> m ! (i + j) \<noteq> 0"
  by (induction k arbitrary: i j) (fastforce split: if_splits)+

text \<open>
  The search skips behind the page in use that it met, and still finds the first free run: every
  start that is skipped would have had that page in its run.
\<close>

lemma find_upt_skip:
  assumes "i \<le> k" "\<And>x. i \<le> x \<Longrightarrow> x < k \<Longrightarrow> \<not> P x"
  shows "find P [i..<n] = find P [k..<n]"
  using assms
proof (induction "k - i" arbitrary: i)
  case (Suc d)
  then have "find P [Suc i..<n] = find P [k..<n]" by auto
  moreover have "find P [i..<n] = find P [Suc i..<n]"
    using Suc.hyps(2) Suc.prems(2) [of i] by (cases "i < n") (auto simp: upt_conv_Cons)
  ultimately show ?case by simp
qed simp

lemma scan_pages_first:
  assumes "pages \<le> npages"
  shows "scan_pages m npages pages i = find (free_run m pages) [i..<Suc (npages - pages)]"
  using assms
proof (induction m npages pages i rule: scan_pages.induct)
  case (1 m npages pages i)
  show ?case
  proof (cases "i \<le> npages - pages")
    case True
    show ?thesis
    proof (cases "first_used m i pages")
      case None
      then have "free_run m pages i" by (simp only: first_used_None)
      moreover have "[i..<Suc (npages - pages)] = i # [Suc i..<Suc (npages - pages)]" using True by (intro upt_conv_Cons) simp
      ultimately show ?thesis using True None by (subst scan_pages.simps) (simp del: upt_Suc)
    next
      case (Some j)
      have j: "j < pages" "m ! (i + j) \<noteq> 0" using first_used_Some [OF Some] by simp_all
      have "\<not> free_run m pages x" if "i \<le> x" "x < i + j + 1" for x
      proof
        assume "free_run m pages x"
        then have "m ! (x + (i + j - x)) = 0" using that j(1) unfolding free_run_def by (elim allE [of _ "i + j - x"]) simp
        then show False using j(2) that by simp
      qed
      then have "find (free_run m pages) [i..<Suc (npages - pages)] = find (free_run m pages) [i + j + 1..<Suc (npages - pages)]"
        by (intro find_upt_skip) simp_all
      then show ?thesis using 1 True Some by (subst scan_pages.simps) simp
    qed
  next
    case False
    then show ?thesis by (subst scan_pages.simps) simp
  qed
qed

section \<open>Which bytes are taken\<close>

definition arena_ok :: "novm_arena \<Rightarrow> bool" where
  "arena_ok n \<longleftrightarrow> unat (n_pages n) \<le> length (n_map n) \<and> 4096 dvd unat (n_base n) \<and> 0 < unat (n_base n) \<and>
     unat (n_size n) = unat (n_pages n) * 4096 \<and> unat (n_base n) + unat (n_pages n) * 4096 < 2 ^ 32"

definition arena_taken :: "novm_arena \<Rightarrow> nat set" where
  "arena_taken n = {x. unat (n_base n) \<le> x \<and> (x - unat (n_base n)) div 4096 < unat (n_pages n) \<and>
     n_map n ! ((x - unat (n_base n)) div 4096) \<noteq> 0}"

definition arena_range :: "novm_arena \<Rightarrow> nat set" where
  "arena_range n = {unat (n_base n)..<unat (n_base n) + unat (n_pages n) * 4096}"

definition page_run :: "u32 \<Rightarrow> u32 \<Rightarrow> nat set" where
  "page_run p k = {unat p..<unat p + unat k * 4096}"

lemma page_range:
  "b + i * 4096 \<le> x \<and> x < b + i * 4096 + k * 4096 \<longleftrightarrow> b \<le> x \<and> i \<le> (x - b) div 4096 \<and> (x - b) div 4096 < i + (k :: nat)"
proof (cases "b \<le> x")
  case True
  define d where "d = x - b"
  have x: "x = b + d" using True by (simp add: d_def)
  have "i * 4096 \<le> d \<longleftrightarrow> i \<le> d div 4096" by (simp add: less_eq_div_iff_mult_less_eq)
  moreover have "d < (i + k) * 4096 \<longleftrightarrow> d div 4096 < i + k" by (simp add: div_less_iff_less_mult)
  ultimately show ?thesis unfolding x by (simp add: algebra_simps)
next
  case False
  then show ?thesis by simp
qed

lemma unat_page_address:
  assumes "arena_ok n" "i < unat (n_pages n)"
  shows "unat (n_base n + push_bit PAGE_SIZE_SHIFT (of_nat i)) = unat (n_base n) + i * 4096"
proof -
  have lt: "unat (n_base n) + i * 4096 < 2 ^ 32"
    using assms by (auto simp: arena_ok_def intro: less_trans [of _ "unat (n_base n) + unat (n_pages n) * 4096"])
  have "push_bit PAGE_SIZE_SHIFT (of_nat i :: u32) = of_nat (i * 4096)" by (simp add: push_bit_eq_mult)
  moreover have "unat (of_nat (i * 4096) :: u32) = i * 4096" using lt by (intro unat_of_nat_small32) simp
  ultimately show ?thesis using lt by (simp only:) (subst unat_add_lem [THEN iffD1], simp_all)
qed

lemma mark_nth:
  assumes "i + k \<le> length m" "x < length m"
  shows "(take i m @ replicate k v @ drop (i + k) m) ! x = (if i \<le> x \<and> x < i + k then v else m ! x)"
  using assms by (auto simp: nth_append min_def)

text \<open>The contract of the page allocator: it hands out page runs nobody has, and marks exactly them.\<close>

lemma novm_alloc_helper_Some:
  assumes ok: "arena_ok n" and al: "novm_alloc_helper n pages = (Some p, n')"
  shows "arena_ok n' \<and> 4096 dvd unat p \<and> 0 < pages \<and> unat (n_base n) \<le> unat p \<and>
    unat p + unat pages * 4096 \<le> unat (n_base n) + unat (n_pages n) * 4096 \<and>
    {unat p..<unat p + unat pages * 4096} \<inter> arena_taken n = {} \<and>
    arena_taken n' = arena_taken n \<union> {unat p..<unat p + unat pages * 4096} \<and>
    n' = n\<lparr>n_map := n_map n'\<rparr> \<and> length (n_map n') = length (n_map n)"
proof -
  let ?N = "unat (n_pages n)" and ?k = "unat pages" and ?b = "unat (n_base n)"
  have pg: "pages \<noteq> 0" "\<not> pages > n_pages n" using al by (auto simp: novm_alloc_helper_def split: if_splits)
  have le: "?k \<le> ?N" "0 < ?k" using pg by (simp_all add: word_less_nat_alt unat_gt_0)
  obtain i where i: "scan_pages (n_map n) ?N ?k 0 = Some i" "p = n_base n + push_bit PAGE_SIZE_SHIFT (of_nat i)"
    "n' = n\<lparr>n_map := take i (n_map n) @ replicate ?k 1 @ drop (i + ?k) (n_map n)\<rparr>"
    using al pg by (auto simp: novm_alloc_helper_def split: option.splits)
  have "find (free_run (n_map n) ?k) [0..<Suc (?N - ?k)] = Some i" using i(1) scan_pages_first [OF le(1)] by simp
  then have run: "free_run (n_map n) ?k i" "i < Suc (?N - ?k)" by (auto simp: find_Some_iff simp del: upt_Suc)
  have fits: "i + ?k \<le> ?N" "i < ?N" using run(2) le by linarith+
  have map: "?N \<le> length (n_map n)" using ok by (simp add: arena_ok_def)
  have p: "unat p = ?b + i * 4096" using unat_page_address [OF ok fits(2)] i(2) by simp
  have nth: "n_map n' ! x = (if i \<le> x \<and> x < i + ?k then 1 else n_map n ! x)" if "x < ?N" for x
    using mark_nth [of i ?k "n_map n" x 1] fits map that i(3) by simp
  have len: "length (n_map n') = length (n_map n)" using i(3) fits map by simp
  have same: "n_base n' = n_base n" "n_pages n' = n_pages n" using i(3) by simp_all
  have reg: "x \<in> {unat p..<unat p + ?k * 4096} \<longleftrightarrow> ?b \<le> x \<and> i \<le> (x - ?b) div 4096 \<and> (x - ?b) div 4096 < i + ?k" for x
    using page_range [of ?b i x ?k] by (simp add: p)
  have free: "n_map n ! y = 0" if "i \<le> y" "y < i + ?k" for y
    using run(1) that unfolding free_run_def by (metis le_add_diff_inverse nat_add_left_cancel_less)
  have "{unat p..<unat p + ?k * 4096} \<inter> arena_taken n = {}"
    using reg free unfolding arena_taken_def by blast
  moreover have "arena_taken n' = arena_taken n \<union> {unat p..<unat p + ?k * 4096}"
  proof (rule set_eqI)
    fix x
    show "x \<in> arena_taken n' \<longleftrightarrow> x \<in> arena_taken n \<union> {unat p..<unat p + ?k * 4096}"
    proof (cases "?b \<le> x \<and> (x - ?b) div 4096 < ?N")
      case True
      then show ?thesis unfolding Un_iff reg using nth [of "(x - ?b) div 4096"] same by (simp add: arena_taken_def) blast
    next
      case False
      then show ?thesis unfolding Un_iff reg using fits(1) same by (auto simp: arena_taken_def)
    qed
  qed
  moreover have "arena_ok n'" using ok i(3) len by (simp add: arena_ok_def)
  moreover have "4096 dvd unat p" using ok p by (simp add: arena_ok_def)
  moreover have "unat p + ?k * 4096 \<le> ?b + ?N * 4096" using p fits(1) mult_le_mono1 [of "i + ?k" ?N 4096] by (simp add: algebra_simps)
  ultimately show ?thesis using i(3) pg(1) len p by (simp add: word_neq_0_conv)
qed

lemma novm_alloc_helper_None:
  assumes "novm_alloc_helper n pages = (None, n')"
  shows "n' = n \<and> (pages = 0 \<or> pages > n_pages n \<or> (\<forall>i. i + unat pages \<le> unat (n_pages n) \<longrightarrow> \<not> free_run (n_map n) (unat pages) i))"
proof (cases "pages = 0 \<or> pages > n_pages n")
  case False
  then have le: "unat pages \<le> unat (n_pages n)" by (simp add: word_less_nat_alt)
  have "scan_pages (n_map n) (unat (n_pages n)) (unat pages) 0 = None \<and> n' = n"
    using assms False by (auto simp: novm_alloc_helper_def split: option.splits)
  then have "\<not> (\<exists>x. x \<in> set [0..<Suc (unat (n_pages n) - unat pages)] \<and> free_run (n_map n) (unat pages) x)" "n' = n"
    by (simp_all add: scan_pages_first [OF le] find_None_iff)
  then show ?thesis using le by (auto simp del: upt_Suc)
qed (use assms in \<open>auto simp: novm_alloc_helper_def\<close>)

lemma novm_free_pages_taken:
  assumes ok: "arena_ok n" and p: "unat p = unat (n_base n) + i * 4096" and i: "i + unat pages \<le> unat (n_pages n)" "0 < pages"
  shows "\<exists>n'. novm_free_pages n p pages = Some n' \<and> arena_ok n' \<and> n' = n\<lparr>n_map := n_map n'\<rparr> \<and>
    arena_taken n' = arena_taken n - {unat p..<unat p + unat pages * 4096}"
proof -
  let ?N = "unat (n_pages n)" and ?k = "unat pages" and ?b = "unat (n_base n)"
  have map: "?N \<le> length (n_map n)" using ok by (simp add: arena_ok_def)
  have k: "0 < ?k" using i(2) by (simp add: word_less_nat_alt)
  have lt: "i * 4096 < ?N * 4096" using i(1) k by simp
  have sub: "unat (p - n_base n) = i * 4096" using p by (subst unat_sub) (simp_all add: word_le_nat_alt)
  have sum: "unat (n_base n + n_size n) = ?b + ?N * 4096" using ok by (subst unat_add_lem [THEN iffD1]) (simp_all add: arena_ok_def)
  have "n_size n \<noteq> 0" using ok lt by (auto simp: arena_ok_def)
  then have ina: "in_arena n p" using p sum lt by (simp add: in_arena_def word_le_nat_alt word_less_nat_alt)
  have idx: "unat (drop_bit PAGE_SIZE_SHIFT (p - n_base n)) = i" using sub by (simp only: unat_drop_12)
  define m' where "m' = take i (n_map n) @ replicate ?k 0 @ drop (i + ?k) (n_map n)"
  have w: "mem_write (n_map n) i (replicate ?k 0) = Some m'" using i(1) map by (simp add: mem_write_def m'_def)
  have nth: "m' ! x = (if i \<le> x \<and> x < i + ?k then 0 else n_map n ! x)" if "x < ?N" for x
    using mark_nth [of i ?k "n_map n" x 0] i(1) map that by (simp add: m'_def)
  have len: "length m' = length (n_map n)" using mem_write_length [OF w] .
  have "arena_taken (n\<lparr>n_map := m'\<rparr>) = arena_taken n - {unat p..<unat p + ?k * 4096}"
  proof (rule set_eqI)
    fix x
    have "x \<in> {unat p..<unat p + ?k * 4096} \<longleftrightarrow> ?b \<le> x \<and> i \<le> (x - ?b) div 4096 \<and> (x - ?b) div 4096 < i + ?k"
      using page_range [of ?b i x ?k] p by simp
    then show "x \<in> arena_taken (n\<lparr>n_map := m'\<rparr>) \<longleftrightarrow> x \<in> arena_taken n - {unat p..<unat p + ?k * 4096}"
      using nth [of "(x - ?b) div 4096"] by (auto simp: arena_taken_def)
  qed
  moreover have "arena_ok (n\<lparr>n_map := m'\<rparr>)" using ok len by (simp add: arena_ok_def)
  moreover have "novm_free_pages n p pages = Some (n\<lparr>n_map := m'\<rparr>)" using ina idx w by (simp add: novm_free_pages_def)
  ultimately show ?thesis by auto
qed

section \<open>The contract of a page allocator\<close>

text \<open>
  What a user of pages relies on: \<open>range\<close> are the bytes of the source, \<open>taken\<close> those handed out so far. Inside the locale: two
  allocations never overlap, however many lie between them.
\<close>

locale page_source =
  fixes inv :: "'s \<Rightarrow> bool" and range :: "'s \<Rightarrow> nat set" and taken :: "'s \<Rightarrow> nat set" and alloc :: "'s \<Rightarrow> u32 \<Rightarrow> u32 option \<times> 's"
  assumes alloc_law: "inv s \<Longrightarrow> alloc s pages = (Some p, s') \<Longrightarrow>
      inv s' \<and> 4096 dvd unat p \<and> 0 < unat p \<and> 0 < pages \<and> unat p + unat pages * 4096 < 2 ^ 32 \<and>
      page_run p pages \<subseteq> range s \<and> range s' = range s \<and>
      page_run p pages \<inter> taken s = {} \<and> taken s' = taken s \<union> page_run p pages"
    and alloc_none: "alloc s pages = (None, s') \<Longrightarrow> s' = s"
begin

fun alloc_many :: "'s \<Rightarrow> u32 list \<Rightarrow> (u32 \<times> u32) list \<times> 's" where
  "alloc_many s [] = ([], s)"
| "alloc_many s (k # ks) =
     (case alloc s k of
        (None, s') \<Rightarrow> alloc_many s' ks
      | (Some p, s') \<Rightarrow> (let (ps, s'') = alloc_many s' ks in ((p, k) # ps, s'')))"

lemma alloc_many_disjoint:
  assumes "inv s" "alloc_many s ks = (ps, s')"
  shows "inv s' \<and> taken s \<subseteq> taken s' \<and> (\<forall>(p, k) \<in> set ps. page_run p k \<inter> taken s = {}) \<and>
    sorted_wrt (\<lambda>(p, k) (q, l). page_run p k \<inter> page_run q l = {}) ps"
  using assms
proof (induction ks arbitrary: s ps)
  case (Cons k ks)
  show ?case
  proof (cases "alloc s k")
    case (Pair r s1)
    show ?thesis
    proof (cases r)
      case None
      then show ?thesis using Cons.IH [of s ps] Cons.prems Pair alloc_none [of s k s1] by auto
    next
      case (Some p)
      note law = alloc_law [OF Cons.prems(1), of k p s1]
      have law': "inv s1" "page_run p k \<inter> taken s = {}" "taken s1 = taken s \<union> page_run p k"
        using law Pair Some by simp_all
      obtain ps1 where ps1: "alloc_many s1 ks = (ps1, s')" "ps = (p, k) # ps1"
        using Cons.prems(2) Pair Some by (auto split: prod.splits)
      note ih = Cons.IH [OF law'(1) ps1(1)]
      have "page_run q l \<inter> (taken s \<union> page_run p k) = {}" if "(q, l) \<in> set ps1" for q l
        using ih that unfolding law'(3) by blast
      then have apart: "page_run q l \<inter> taken s = {}" "page_run p k \<inter> page_run q l = {}"
        if "(q, l) \<in> set ps1" for q l using that by blast+
      have "inv s'" "taken s \<subseteq> taken s'" using ih law'(3) by blast+
      moreover have "\<forall>(q, l) \<in> set ps. page_run q l \<inter> taken s = {}"
        using apart(1) law'(2) unfolding ps1(2) by auto
      moreover have "sorted_wrt (\<lambda>(p, k) (q, l). page_run p k \<inter> page_run q l = {}) ps"
        unfolding ps1(2) sorted_wrt.simps using ih apart(2) by auto
      ultimately show ?thesis by (intro conjI)
    qed
  qed
qed auto

end

lemma page_alloc_same:
  assumes "arena_ok s" "page_alloc s pages = (Some p, s')"
  shows "s' = s\<lparr>n_map := n_map s'\<rparr>"
proof -
  have "novm_alloc_helper s pages = (Some p, s')" using assms(2) by (simp add: page_alloc_def novm_alloc_pages_def)
  from novm_alloc_helper_Some [OF assms(1) this] show ?thesis by blast
qed

interpretation novm: page_source arena_ok arena_range arena_taken page_alloc
proof
  fix s pages p s' assume a: "arena_ok s" "page_alloc s pages = (Some p, s')"
  then have "novm_alloc_helper s pages = (Some p, s')" by (simp add: page_alloc_def novm_alloc_pages_def)
  note h = novm_alloc_helper_Some [OF a(1) this]
  have "n_base s' = n_base s \<and> n_pages s' = n_pages s" by (subst (1 2) page_alloc_same [OF a]) simp
  with h a(1) show "arena_ok s' \<and> 4096 dvd unat p \<and> 0 < unat p \<and> 0 < pages \<and> unat p + unat pages * 4096 < 2 ^ 32 \<and>
      page_run p pages \<subseteq> arena_range s \<and> arena_range s' = arena_range s \<and>
      page_run p pages \<inter> arena_taken s = {} \<and> arena_taken s' = arena_taken s \<union> page_run p pages"
    unfolding page_run_def arena_range_def by (simp add: arena_ok_def)
next
  fix s pages s' assume "page_alloc s pages = (None, s')"
  then show "s' = s" using novm_alloc_helper_None [of s pages s'] by (simp add: page_alloc_def novm_alloc_pages_def)
qed

section \<open>The arena at boot\<close>

lemma novm_init_ok:
  assumes "0x88000000 \<le> unat mem_start" "unat mem_start + 4096 \<le> 0x8A000000"
  shows "arena_ok (novm_init mem_start) \<and> arena_taken (novm_init mem_start) = {} \<and>
    unat (n_base (novm_init mem_start)) = (unat mem_start + 4095) div 4096 * 4096 \<and>
    unat (n_base (novm_init mem_start)) + unat (n_pages (novm_init mem_start)) * 4096 = 0x8A000000 \<and>
    unaligned_area (novm_init mem_start) = (if n_base (novm_init mem_start) - mem_start \<ge> 64 then Some mem_start else None) \<and>
    (n_base (novm_init mem_start) - mem_start \<ge> 64 \<longrightarrow> unaligned_size (novm_init mem_start) = n_base (novm_init mem_start) - mem_start)"
proof -
  let ?s = "ROUNDUP mem_start PAGE_SIZE" and ?e = "0x8A000000 :: u32"
  have s: "unat ?s = (unat mem_start + 4095) div 4096 * 4096" using unat_ROUNDUP [of 12 mem_start] assms by simp
  have e: "ROUNDDOWN (mem_start + (0x88000000 + 0x02000000 - mem_start)) PAGE_SIZE = ?e" by (simp add: ROUNDDOWN_def)
  have le: "unat ?s \<le> 0x8A000000" "0x88000000 \<le> unat ?s" unfolding s using assms by (auto simp: less_mult_imp_div_less)
  define sz where "sz = ?e - ?s"
  have sz: "unat sz = 0x8A000000 - unat ?s" unfolding sz_def using le by (subst unat_sub) (simp_all add: word_le_nat_alt)
  obtain q where q: "unat ?s = q * 4096" using s by simp
  have "unat (drop_bit PAGE_SIZE_SHIFT sz) = unat sz div 4096" by (rule unat_drop_12)
  also have "\<dots> = 0x8A000 - q" unfolding sz q by (simp add: diff_mult_distrib)
  finally have pages: "unat (drop_bit PAGE_SIZE_SHIFT sz) = 0x8A000 - q" .
  have qb: "0x88000 \<le> q" "q \<le> 0x8A000" using le q by simp_all
  then have own: "\<not> 0x2000 < drop_bit PAGE_SIZE_SHIFT sz" using pages by (simp add: word_less_nat_alt)
  have init: "n_pages (novm_init mem_start) = drop_bit PAGE_SIZE_SHIFT sz" "n_base (novm_init mem_start) = ?s"
    "n_size (novm_init mem_start) = sz" "n_map (novm_init mem_start) = replicate 0x2000 0"
    "unaligned_area (novm_init mem_start) = (if ?s - mem_start \<ge> 64 then Some mem_start else None)"
    "?s - mem_start \<ge> 64 \<Longrightarrow> unaligned_size (novm_init mem_start) = ?s - mem_start"
    using own e pages qb unfolding novm_init_def novm_init_helper_def Let_def sz_def [symmetric]
    by (auto simp: sz_def [symmetric] empty_arena_def replicate_add [symmetric] split: prod.splits if_splits)
  have "arena_ok (novm_init mem_start)"
    unfolding arena_ok_def init pages sz q using qb by (simp add: diff_mult_distrib)
  moreover have "arena_taken (novm_init mem_start) = {}"
    unfolding arena_taken_def init pages using qb by auto
  moreover have "unat ?s + (0x8A000 - q) * 4096 = 0x8A000000" unfolding q using qb by (simp add: diff_mult_distrib)
  ultimately show ?thesis using init(5,6) unfolding init(1-4) pages s by simp
qed

end
