(* ===== verification/Miniheap.thy ===== *)
theory Miniheap
  imports Pages
begin

text \<open>
  lib/heap/miniheap/miniheap.c and the calls of lib/heap/heap_wrapper.c: the heap behind
  \<^verbatim>\<open>malloc\<close>. Free memory is a list of chunks in the order of their addresses; a chunk and the
  header of an allocation lie in the memory itself. Here a chunk is its address and its length,
  the free list is the list of its chunks, and \<open>headers\<close> holds the header at each address where
  \<^verbatim>\<open>miniheap_alloc\<close> wrote one.

  Every call runs its sections under the mutex of the heap, which it leaves as it was. \<open>None\<close> as
  the result of a call is a failed assertion or memory that is not what the call takes it for.
\<close>

type_synonym free_heap_chunk = "u32 \<times> u32"

record alloc_struct_begin =
  as_ptr :: u32
  as_size :: u32

record heap =
  h_base :: u32
  h_len :: u32
  remaining :: u32
  low_watermark :: u32
  free_list :: "free_heap_chunk list"
  free_list_addr :: u32
  headers :: "u32 \<rightharpoonup> alloc_struct_begin"

text \<open>Both structures are twelve bytes long: two list pointers and the length, or magic, base and size.\<close>

abbreviation chunk_bytes :: u32 where "chunk_bytes \<equiv> 12"
abbreviation header_bytes :: u32 where "header_bytes \<equiv> 12"

section \<open>The free list\<close>

definition heap_create_free_chunk :: "u32 \<Rightarrow> u32 \<Rightarrow> free_heap_chunk option" where
  "heap_create_free_chunk ptr len = (if len mod 4 \<noteq> 0 \<or> len < chunk_bytes then None else Some (ptr, len))"

text \<open>
  Merging with the chunk before, and with the chunk after. When the walk ran off the end of
  the list, \<^verbatim>\<open>next_chunk\<close> is not null but the address of the list head, and a chunk that ends just
  there would be merged with the head.
\<close>

definition merge_prev :: "free_heap_chunk list \<Rightarrow> free_heap_chunk \<Rightarrow> free_heap_chunk list \<times> free_heap_chunk" where
  "merge_prev before chunk =
     (if before \<noteq> [] \<and> fst (last before) + snd (last before) = fst chunk
      then (butlast before, (fst (last before), snd (last before) + snd chunk))
      else (before, chunk))"

definition merge_next :: "u32 \<Rightarrow> free_heap_chunk \<Rightarrow> free_heap_chunk list \<Rightarrow> (free_heap_chunk \<times> free_heap_chunk list) option" where
  "merge_next head chunk after =
     (case after of
        [] \<Rightarrow> if fst chunk + snd chunk = head then None else Some (chunk, [])
      | next_chunk # rest \<Rightarrow>
          if fst chunk + snd chunk = fst next_chunk then Some ((fst chunk, snd chunk + snd next_chunk), rest)
          else Some (chunk, after))"

definition heap_insert_free_chunk :: "heap \<Rightarrow> free_heap_chunk \<Rightarrow> (u32 \<times> heap) option" where
  "heap_insert_free_chunk h chunk =
     (let chunk_end = fst chunk + snd chunk;
          h1 = h\<lparr>remaining := remaining h + snd chunk\<rparr>;
          before = takeWhile (\<lambda>next_chunk. \<not> fst chunk < fst next_chunk) (free_list h);
          after = dropWhile (\<lambda>next_chunk. \<not> fst chunk < fst next_chunk) (free_list h)
      in if after \<noteq> [] \<and> \<not> chunk_end \<le> fst (hd after) then None
         else do {
           let (before1, chunk1) = merge_prev before chunk;
           (chunk2, after1) \<leftarrow> merge_next (free_list_addr h) chunk1 after;
           Some (fst chunk2, h1\<lparr>free_list := before1 @ chunk2 # after1\<rparr>)
         })"

section \<open>Allocating\<close>

text \<open>The size a request needs, and the alignment used for it. All sums are in unsigned words.\<close>

definition request_size :: "u32 \<Rightarrow> u32 \<Rightarrow> u32" where
  "request_size sz alignment =
     (let s1 = sz + header_bytes;
          s2 = (if s1 < chunk_bytes then chunk_bytes else s1);
          s3 = ROUNDUP s2 4
      in if alignment > 0 then s3 + (if alignment < 16 then 16 else alignment) else s3)"

definition request_alignment :: "u32 \<Rightarrow> u32" where
  "request_alignment alignment = (if alignment > 0 \<and> alignment < 16 then 16 else alignment)"

text \<open>
  The walk through the free list: the first chunk that is large enough is taken out, and split when
  what is left can be a chunk. The result is the chunk and the list that remains.
\<close>

fun take_chunk :: "u32 \<Rightarrow> free_heap_chunk list \<Rightarrow> (free_heap_chunk \<times> free_heap_chunk list) option option" where
  "take_chunk sz [] = Some None"
| "take_chunk sz ((ptr, len) # fl) =
     (if len mod 4 \<noteq> 0 then None
      else if len \<ge> sz then
        (if len > sz + chunk_bytes then do {
           newchunk \<leftarrow> heap_create_free_chunk (ptr + sz) (len - sz);
           Some (Some ((ptr, len - (len - sz)), newchunk # fl))
         }
         else Some (Some ((ptr, len), fl)))
      else map_option (map_option (\<lambda>(c, fl'). (c, (ptr, len) # fl'))) (take_chunk sz fl))"

definition aligned_ptr :: "u32 \<Rightarrow> u32 \<Rightarrow> u32" where
  "aligned_ptr chunk alignment =
     (if alignment > 0 then ROUNDUP (chunk + header_bytes) alignment else chunk + header_bytes)"

definition alloc_locked :: "heap \<Rightarrow> u32 \<Rightarrow> u32 \<Rightarrow> (u32 option \<times> heap) option" where
  "alloc_locked h sz alignment = do {
     r \<leftarrow> take_chunk sz (free_list h);
     (case r of
        None \<Rightarrow> Some (None, h)
      | Some ((chunk, len), fl) \<Rightarrow>
          (let ptr = aligned_ptr chunk alignment;
               left = remaining h - len
           in Some (Some ptr, h\<lparr>free_list := fl, headers := (headers h)(ptr - header_bytes \<mapsto> \<lparr>as_ptr = chunk, as_size = len\<rparr>),
                remaining := left, low_watermark := (if left < low_watermark h then left else low_watermark h)\<rparr>)))
   }"

text \<open>The result is a size as a signed number, or \<^verbatim>\<open>ERR_NO_MEMORY\<close>, which is \<open>-5\<close>.\<close>

definition heap_grow :: "heap \<Rightarrow> novm_arena \<Rightarrow> u32 \<Rightarrow> (int \<times> heap \<times> novm_arena) option" where
  "heap_grow h n sz0 =
     (let sz = ROUNDUP sz0 PAGE_SIZE in
      case page_alloc n (sz div PAGE_SIZE) of
        (None, n') \<Rightarrow> Some (- 5, h, n')
      | (Some ptr, n') \<Rightarrow> do {
          chunk \<leftarrow> heap_create_free_chunk ptr sz;
          (_, h1) \<leftarrow> heap_insert_free_chunk h chunk;
          let h2 = (if ptr < h_base h1 \<or> h_base h1 = 0 then h1\<lparr>h_base := ptr\<rparr> else h1);
          let endptr = ptr + sz;
          let h3 = (if endptr > h_base h2 + h_len h2 then h2\<lparr>h_len := endptr - h_base h2\<rparr> else h2);
          Some (sint sz, h3, n')
        })"

definition miniheap_alloc :: "heap \<Rightarrow> novm_arena \<Rightarrow> u32 \<Rightarrow> u32 \<Rightarrow> (u32 option \<times> heap \<times> novm_arena) option" where
  "miniheap_alloc h n sz alignment0 =
     (if alignment0 AND (alignment0 - 1) \<noteq> 0 then Some (None, h, n)
      else
        (let size1 = request_size sz alignment0; alignment = request_alignment alignment0 in do {
           (ptr, h1) \<leftarrow> alloc_locked h size1 alignment;
           (case ptr of
              Some p \<Rightarrow> Some (Some p, h1, n)
            | None \<Rightarrow> do {
                (err, h2, n2) \<leftarrow> heap_grow h1 n size1;
                if err \<ge> 0 then do { (ptr', h3) \<leftarrow> alloc_locked h2 size1 alignment; Some (ptr', h3, n2) }
                else Some (None, h2, n2)
              })
         }))"

section \<open>Freeing\<close>

text \<open>
  The header is looked up in front of the pointer; the memory of a freed block, its header
  included, is a free chunk again.
\<close>

definition miniheap_free :: "heap \<Rightarrow> u32 \<Rightarrow> heap option" where
  "miniheap_free h ptr =
     (if ptr = 0 then Some h
      else do {
        as \<leftarrow> headers h (ptr - header_bytes);
        chunk \<leftarrow> heap_create_free_chunk (as_ptr as) (as_size as);
        (_, h1) \<leftarrow> heap_insert_free_chunk (h\<lparr>headers := (headers h)(ptr - header_bytes := None)\<rparr>) chunk;
        Some h1
      })"

text \<open>
  Reallocation copies \<open>size\<close> bytes from the old block, whatever its size; reading behind the end of
  the old block is \<open>None\<close>.
\<close>

definition miniheap_realloc :: "heap \<Rightarrow> novm_arena \<Rightarrow> u32 \<Rightarrow> u32 \<Rightarrow> (u32 option \<times> heap \<times> novm_arena) option" where
  "miniheap_realloc h n ptr sz =
     (if ptr = 0 then miniheap_alloc h n sz 0
      else if sz = 0 then do { h1 \<leftarrow> miniheap_free h ptr; Some (None, h1, n) }
      else do {
        (p, h1, n1) \<leftarrow> miniheap_alloc h n sz 0;
        (case p of
           None \<Rightarrow> Some (None, h1, n1)
         | Some q \<Rightarrow> do {
             as \<leftarrow> headers h1 (ptr - header_bytes);
             if unat ptr + unat sz > unat (as_ptr as) + unat (as_size as) then None
             else do { h2 \<leftarrow> miniheap_free h1 ptr; Some (Some q, h2, n1) }
           })
      })"

section \<open>Giving pages back\<close>

text \<open>
  The pages inside a free chunk that can be given back, between \<open>start_page\<close> and \<open>end_page\<close>: what is
  left in front and behind must hold a chunk, or a page less is taken at that side.
\<close>

lemma page_further: "d < chunk_bytes \<Longrightarrow> \<not> d + PAGE_SIZE < chunk_bytes"
proof -
  assume "d < chunk_bytes"
  then have "unat d < 12" by (simp add: word_less_nat_alt)
  then have "unat (d + PAGE_SIZE) = unat d + 4096" by (subst unat_add_lem [THEN iffD1]) simp_all
  then show ?thesis by (simp add: word_less_nat_alt)
qed

function trim_window :: "u32 \<Rightarrow> u32 \<Rightarrow> u32 \<Rightarrow> u32 \<Rightarrow> (u32 \<times> u32) option" where
  "trim_window start fin start_page end_page =
     (if \<not> end_page > start_page then None
      else if start_page = start \<and> end_page = fin then Some (start_page, end_page)
      else if start_page \<noteq> start \<and> start_page - start < chunk_bytes then trim_window start fin (start_page + PAGE_SIZE) end_page
      else if end_page < fin \<and> fin - end_page < chunk_bytes then trim_window start fin start_page (end_page - PAGE_SIZE)
      else Some (start_page, end_page))"
  by pat_completeness auto
termination
proof (relation "measure (\<lambda>(start, fin, sp, ep). (if sp - start < chunk_bytes then 1 else 0) + (if fin - ep < chunk_bytes then 1 else 0))", simp, goal_cases)
  case (1 start fin sp ep)
  have "\<not> sp + PAGE_SIZE - start < chunk_bytes" using page_further [of "sp - start"] 1 by (simp add: algebra_simps)
  then show ?case using 1 by simp
next
  case (2 start fin sp ep)
  have "\<not> fin - (ep - PAGE_SIZE) < chunk_bytes" using page_further [of "fin - ep"] 2 by (simp add: algebra_simps)
  then show ?case using 2 by simp
qed

declare trim_window.simps [simp del]

text \<open>One turn of the loop of \<^verbatim>\<open>miniheap_trim\<close>: what the chunk is replaced by, and the pages given back.\<close>

definition trim_chunk :: "free_heap_chunk \<Rightarrow> (free_heap_chunk list \<times> (u32 \<times> u32) option) option" where
  "trim_chunk chunk =
     (let start = fst chunk;
          fin = start + snd chunk;
          start_page = ROUNDUP start PAGE_SIZE;
          end_page = ROUNDDOWN fin PAGE_SIZE
      in if \<not> fin > start \<or> \<not> end_page \<le> fin \<or> \<not> start_page \<ge> start then None
         else (case trim_window start fin start_page end_page of
            None \<Rightarrow> Some ([chunk], None)
          | Some (sp, ep) \<Rightarrow>
              if sp = start \<and> ep = fin then Some ([], Some (sp, ep))
              else do {
                behind \<leftarrow> (if ep < fin then map_option (\<lambda>c. [c]) (heap_create_free_chunk ep (fin - ep)) else Some []);
                let len1 = (if ep < fin then snd chunk - (fin - ep) else snd chunk);
                if sp = start then Some (behind, Some (sp, ep))
                else Some ((start, len1 - (ep - sp)) # behind, Some (sp, ep))
              }))"

fun trim_loop :: "free_heap_chunk list \<Rightarrow> heap \<Rightarrow> novm_arena \<Rightarrow> (free_heap_chunk list \<times> heap \<times> novm_arena) option" where
  "trim_loop [] h n = Some ([], h, n)"
| "trim_loop (chunk # fl) h n = do {
     (kept, pages) \<leftarrow> trim_chunk chunk;
     (case pages of
        None \<Rightarrow> do { (fl', h', n') \<leftarrow> trim_loop fl h n; Some (kept @ fl', h', n') }
      | Some (sp, ep) \<Rightarrow> do {
          n1 \<leftarrow> page_free n sp ((ep - sp) div PAGE_SIZE);
          (fl', h', n') \<leftarrow> trim_loop fl (h\<lparr>remaining := remaining h - (ep - sp)\<rparr>) n1;
          Some (kept @ fl', h', n')
        })
   }"

definition miniheap_trim :: "heap \<Rightarrow> novm_arena \<Rightarrow> (heap \<times> novm_arena) option" where
  "miniheap_trim h n = do {
     (fl, h1, n1) \<leftarrow> trim_loop (free_list h) h n;
     Some (h1\<lparr>free_list := fl\<rparr>, n1)
   }"

section \<open>Statistics and set-up\<close>

record miniheap_stats =
  heap_start :: u32
  heap_len :: u32
  heap_free :: u32
  heap_max_chunk :: u32
  heap_low_watermark :: u32

definition miniheap_get_stats :: "heap \<Rightarrow> miniheap_stats" where
  "miniheap_get_stats h = \<lparr>heap_start = h_base h, heap_len = h_len h,
     heap_free = foldl (\<lambda>sum c. sum + snd c) 0 (free_list h),
     heap_max_chunk = foldl (\<lambda>m c. if snd c > m then snd c else m) 0 (free_list h),
     heap_low_watermark = low_watermark h\<rparr>"

definition miniheap_init :: "u32 \<Rightarrow> u32 \<Rightarrow> u32 \<Rightarrow> heap option" where
  "miniheap_init head ptr0 len0 =
     (let aligned = ROUNDUP ptr0 4;
          unaligned = (ptr0 mod 4 > 0)
      in if unaligned \<and> \<not> aligned - ptr0 < len0 then None
         else
           (let len = (if unaligned then len0 - (aligned - ptr0) else len0);
                ptr = (if unaligned then aligned else ptr0);
                h = \<lparr>h_base = ptr, h_len = len, remaining = 0, low_watermark = 0, free_list = [], free_list_addr = head, headers = Map.empty\<rparr>
            in if len > 0 then do {
                 chunk \<leftarrow> heap_create_free_chunk ptr len;
                 (_, h1) \<leftarrow> heap_insert_free_chunk h chunk;
                 Some h1
               }
               else Some h))"

section \<open>The C interface\<close>

text \<open>heap_wrapper.c: a list of blocks to be freed later, and the calls of stdlib.h.\<close>

record heap_sys =
  theheap :: heap
  arena :: novm_arena
  delayed_free_list :: "u32 list"

primrec free_nodes :: "u32 list \<Rightarrow> heap \<Rightarrow> heap option" where
  "free_nodes [] h = Some h"
| "free_nodes (node # nodes) h = do { h1 \<leftarrow> miniheap_free h node; free_nodes nodes h1 }"

definition heap_free_delayed_list :: "heap_sys \<Rightarrow> heap_sys option" where
  "heap_free_delayed_list s = do {
     h \<leftarrow> free_nodes (rev (delayed_free_list s)) (theheap s);
     Some (s\<lparr>theheap := h, delayed_free_list := []\<rparr>)
   }"

definition settle_delayed :: "heap_sys \<Rightarrow> heap_sys option" where
  "settle_delayed s = (if delayed_free_list s \<noteq> [] then heap_free_delayed_list s else Some s)"

definition memalign :: "heap_sys \<Rightarrow> u32 \<Rightarrow> u32 \<Rightarrow> (u32 option \<times> heap_sys) option" where
  "memalign s boundary sz = do {
     s1 \<leftarrow> settle_delayed s;
     (p, h, n) \<leftarrow> miniheap_alloc (theheap s1) (arena s1) sz boundary;
     Some (p, s1\<lparr>theheap := h, arena := n\<rparr>)
   }"

definition malloc :: "heap_sys \<Rightarrow> u32 \<Rightarrow> (u32 option \<times> heap_sys) option" where
  "malloc s sz = do {
     s1 \<leftarrow> settle_delayed s;
     (p, h, n) \<leftarrow> miniheap_alloc (theheap s1) (arena s1) sz 0;
     Some (p, s1\<lparr>theheap := h, arena := n\<rparr>)
   }"

definition calloc :: "heap_sys \<Rightarrow> u32 \<Rightarrow> u32 \<Rightarrow> (u32 option \<times> heap_sys) option" where
  "calloc s num sz = do {
     s1 \<leftarrow> settle_delayed s;
     let realsize = num * sz;
     (p, h, n) \<leftarrow> miniheap_alloc (theheap s1) (arena s1) realsize 0;
     Some (p, s1\<lparr>theheap := h, arena := n\<rparr>)
   }"

definition realloc :: "heap_sys \<Rightarrow> u32 \<Rightarrow> u32 \<Rightarrow> (u32 option \<times> heap_sys) option" where
  "realloc s ptr sz = do {
     s1 \<leftarrow> settle_delayed s;
     (p, h, n) \<leftarrow> miniheap_realloc (theheap s1) (arena s1) ptr sz;
     Some (p, s1\<lparr>theheap := h, arena := n\<rparr>)
   }"

definition free :: "heap_sys \<Rightarrow> u32 \<Rightarrow> heap_sys option" where
  "free s ptr = do { h \<leftarrow> miniheap_free (theheap s) ptr; Some (s\<lparr>theheap := h\<rparr>) }"

text \<open>The list node is written into the block itself; a block with no room for its eight bytes is \<open>None\<close>.\<close>

definition heap_delayed_free :: "heap_sys \<Rightarrow> u32 \<Rightarrow> heap_sys option" where
  "heap_delayed_free s ptr = do {
     as \<leftarrow> headers (theheap s) (ptr - header_bytes);
     if unat ptr + 8 > unat (as_ptr as) + unat (as_size as) then None
     else Some (s\<lparr>delayed_free_list := ptr # delayed_free_list s\<rparr>)
   }"

definition heap_trim :: "heap_sys \<Rightarrow> heap_sys option" where
  "heap_trim s = do {
     s1 \<leftarrow> settle_delayed s;
     (h, n) \<leftarrow> miniheap_trim (theheap s1) (arena s1);
     Some (s1\<lparr>theheap := h, arena := n\<rparr>)
   }"

definition heap_init :: "u32 \<Rightarrow> novm_arena \<Rightarrow> heap_sys option" where
  "heap_init head n =
     (let (ptr, len, n') = page_first_alloc n in do {
        h \<leftarrow> miniheap_init head (case ptr of None \<Rightarrow> 0 | Some p \<Rightarrow> p) len;
        Some \<lparr>theheap = h, arena = n', delayed_free_list = []\<rparr>
      })"

end
