(* ===== verification/Free_List.thy ===== *)
theory Free_List
  imports Miniheap Pow2
begin

text \<open>
  The free list of the heap. A list of chunks stands for the set of its bytes. The free list is
  in order, with gaps between the chunks, so it is the only such list for its bytes; allocating
  takes the bytes of a block out of it, and freeing puts them back.
\<close>

section \<open>Chunks and bytes\<close>

definition bytes_of :: "free_heap_chunk \<Rightarrow> nat set" where
  "bytes_of c = {unat (fst c)..<unat (fst c) + unat (snd c)}"

definition all_bytes :: "free_heap_chunk list \<Rightarrow> nat set" where
  "all_bytes fl = (\<Union>c \<in> set fl. bytes_of c)"

definition chunk_ok :: "free_heap_chunk \<Rightarrow> bool" where
  "chunk_ok c \<longleftrightarrow> 4 dvd unat (fst c) \<and> 4 dvd unat (snd c) \<and> 12 \<le> unat (snd c) \<and> 12 \<le> unat (fst c) \<and>
     unat (fst c) + unat (snd c) < 2 ^ 32"

text \<open>At least one byte lies between the bytes of \<open>X\<close> and those of \<open>Y\<close>.\<close>

definition gap :: "nat set \<Rightarrow> nat set \<Rightarrow> bool" where
  "gap X Y \<longleftrightarrow> (\<forall>x \<in> X. \<forall>y \<in> Y. x + 1 < y)"

fun list_ok :: "free_heap_chunk list \<Rightarrow> bool" where
  "list_ok [] \<longleftrightarrow> True"
| "list_ok (c # fl) \<longleftrightarrow> chunk_ok c \<and> gap (bytes_of c) (all_bytes fl) \<and> list_ok fl"

lemma all_bytes_simps [simp]:
  "all_bytes [] = {}" "all_bytes (c # fl) = bytes_of c \<union> all_bytes fl" "all_bytes (xs @ ys) = all_bytes xs \<union> all_bytes ys"
  by (auto simp: all_bytes_def)

lemma gap_simps [simp]:
  "gap {} Y" "gap X {}" "gap (X \<union> X') Y \<longleftrightarrow> gap X Y \<and> gap X' Y" "gap X (Y \<union> Y') \<longleftrightarrow> gap X Y \<and> gap X Y'"
  by (auto simp: gap_def)

lemma list_ok_append [simp]: "list_ok (xs @ ys) \<longleftrightarrow> list_ok xs \<and> list_ok ys \<and> gap (all_bytes xs) (all_bytes ys)"
  by (induction xs) auto

lemma list_ok_chunk: "list_ok fl \<Longrightarrow> c \<in> set fl \<Longrightarrow> chunk_ok c"
  by (induction fl) auto

lemma chunk_end: "chunk_ok c \<Longrightarrow> unat (fst c + snd c) = unat (fst c) + unat (snd c)"
  by (subst unat_add_lem [THEN iffD1]) (simp_all add: chunk_ok_def)

lemma chunk_start_in: "chunk_ok c \<Longrightarrow> unat (fst c) \<in> bytes_of c"
  by (simp add: chunk_ok_def bytes_of_def)

lemma chunk_last_in: "chunk_ok c \<Longrightarrow> unat (fst c) + unat (snd c) - 1 \<in> bytes_of c"
  by (auto simp: chunk_ok_def bytes_of_def)

lemma gap_chunk_right: "chunk_ok c \<Longrightarrow> gap X (bytes_of c) \<longleftrightarrow> (\<forall>x \<in> X. x + 1 < unat (fst c))"
  using chunk_start_in [of c] by (force simp: gap_def bytes_of_def)

lemma gap_chunk_left:
  assumes "chunk_ok c"
  shows "gap (bytes_of c) Y \<longleftrightarrow> (\<forall>y \<in> Y. unat (fst c) + unat (snd c) < y)"
proof
  assume g: "gap (bytes_of c) Y"
  show "\<forall>y \<in> Y. unat (fst c) + unat (snd c) < y"
  proof
    fix y assume "y \<in> Y"
    then have "unat (fst c) + unat (snd c) - 1 + 1 < y" using g chunk_last_in [OF assms] by (simp add: gap_def)
    then show "unat (fst c) + unat (snd c) < y" using assms by (simp add: chunk_ok_def)
  qed
qed (force simp: gap_def bytes_of_def)

lemma finite_bytes [simp]: "finite (bytes_of c)" "finite (all_bytes fl)"
  by (simp_all add: bytes_of_def all_bytes_def)

lemma card_bytes [simp]: "card (bytes_of c) = unat (snd c)"
  by (simp add: bytes_of_def)

lemma gap_disjoint: "gap X Y \<Longrightarrow> X \<inter> Y = {}"
  by (force simp: gap_def)

lemma all_bytes_bound: "list_ok fl \<Longrightarrow> x \<in> all_bytes fl \<Longrightarrow> 0 < x \<and> x + 1 < 2 ^ 32"
  using list_ok_chunk by (force simp: all_bytes_def bytes_of_def chunk_ok_def)

section \<open>The list is determined by its bytes\<close>

lemma list_ok_head:
  assumes "list_ok (c # fl)"
  shows "\<forall>x \<in> all_bytes (c # fl). unat (fst c) \<le> x" "unat (fst c) + unat (snd c) \<notin> all_bytes (c # fl)"
proof -
  have ok: "chunk_ok c" "\<forall>y \<in> all_bytes fl. unat (fst c) + unat (snd c) < y" using assms gap_chunk_left [of c "all_bytes fl"] by simp_all
  then show "\<forall>x \<in> all_bytes (c # fl). unat (fst c) \<le> x" by (auto simp: bytes_of_def)
  show "unat (fst c) + unat (snd c) \<notin> all_bytes (c # fl)" using ok(2) by (auto simp: bytes_of_def)
qed

lemma list_ok_unique: "list_ok fl \<Longrightarrow> list_ok fl' \<Longrightarrow> all_bytes fl = all_bytes fl' \<Longrightarrow> fl = fl'"
proof (induction fl arbitrary: fl')
  case Nil
  then show ?case using chunk_start_in by (cases fl') auto
next
  case (Cons c fl)
  have "fl' \<noteq> []" using Cons.prems chunk_start_in [of c] by auto
  then obtain d gl where fl': "fl' = d # gl" by (cases fl') auto
  note c = list_ok_head [OF Cons.prems(1)]
  have d: "\<forall>x \<in> all_bytes (c # fl). unat (fst d) \<le> x" "unat (fst d) + unat (snd d) \<notin> all_bytes (c # fl)"
    using list_ok_head [of d gl] Cons.prems(2,3) unfolding fl' by simp_all
  have okc: "chunk_ok c" and okd: "chunk_ok d" using Cons.prems fl' by simp_all
  have inc: "bytes_of c \<subseteq> all_bytes (c # fl)" and ind: "bytes_of d \<subseteq> all_bytes (c # fl)" using Cons.prems(3) unfolding fl' by auto
  have start: "unat (fst c) = unat (fst d)"
    using c(1) d(1) chunk_start_in [OF okc] chunk_start_in [OF okd] inc ind by (meson le_antisym subsetD)
  have "unat (snd c) = unat (snd d)"
  proof (rule ccontr)
    assume "unat (snd c) \<noteq> unat (snd d)"
    then have "unat (fst c) + unat (snd c) \<in> bytes_of d \<or> unat (fst d) + unat (snd d) \<in> bytes_of c"
      using start by (auto simp: bytes_of_def)
    then show False using c(2) d(2) inc ind by blast
  qed
  with start have cd: "c = d" by (simp add: prod_eq_iff word_unat_eq_iff)
  have "bytes_of c \<inter> all_bytes fl = {}" "bytes_of c \<inter> all_bytes gl = {}" using Cons.prems(1,2) gap_disjoint unfolding fl' cd by auto
  then have "all_bytes fl = all_bytes gl" using Cons.prems(3) unfolding fl' cd by auto
  then show ?case using Cons.IH [of gl] Cons.prems(1,2) unfolding fl' cd by simp
qed

section \<open>Putting a chunk back\<close>

lemma merge_prev_ok:
  assumes fl: "list_ok before" and c: "chunk_ok c" and below: "\<forall>x \<in> all_bytes before. x < unat (fst c)"
    and m: "merge_prev before c = (before1, c1)"
  shows "list_ok (before1 @ [c1]) \<and> all_bytes (before1 @ [c1]) = all_bytes before \<union> bytes_of c \<and>
    unat (fst c1) + unat (snd c1) = unat (fst c) + unat (snd c)"
proof (cases "before \<noteq> [] \<and> fst (last before) + snd (last before) = fst c")
  case False
  have "gap (all_bytes before) (bytes_of c)"
  proof (cases before rule: rev_cases)
    case (snoc b d)
    have okd: "chunk_ok d" "gap (all_bytes b) (bytes_of d)" using fl snoc by simp_all
    have "unat (fst d) + unat (snd d) \<noteq> unat (fst c)" using False snoc chunk_end [OF okd(1)] by (metis last_snoc snoc_eq_iff_butlast word_unat_eq_iff)
    moreover have "unat (fst d) + unat (snd d) - 1 < unat (fst c)" using below chunk_last_in [OF okd(1)] snoc by simp
    ultimately have lt: "unat (fst d) + unat (snd d) < unat (fst c)" by linarith
    have "x + 1 < unat (fst c)" if "x \<in> all_bytes b \<or> x \<in> bytes_of d" for x
      using that okd lt gap_chunk_right [OF okd(1), of "all_bytes b"] by (auto simp: bytes_of_def)
    then show ?thesis using gap_chunk_right [OF c] snoc by auto
  qed simp
  then show ?thesis using False m fl c by (auto simp: merge_prev_def)
next
  case True
  then obtain b d where bd: "before = b @ [d]" by (cases before rule: rev_cases) auto
  have okd: "chunk_ok d" "gap (all_bytes b) (bytes_of d)" "list_ok b" using fl bd by simp_all
  have "unat (fst d + snd d) = unat (fst c)" using True bd by simp
  then have e: "unat (fst d) + unat (snd d) = unat (fst c)" using chunk_end [OF okd(1)] by simp
  have c1: "before1 = b" "c1 = (fst d, snd d + snd c)" using m True bd by (auto simp: merge_prev_def)
  have sum: "unat (snd d + snd c) = unat (snd d) + unat (snd c)"
    using e c by (subst unat_add_lem [THEN iffD1]) (simp_all add: chunk_ok_def)
  have ok1: "chunk_ok c1" using okd(1) c e sum unfolding c1 by (auto simp: chunk_ok_def)
  have "bytes_of c1 = bytes_of d \<union> bytes_of c" using e sum unfolding c1 by (auto simp: bytes_of_def)
  moreover have "gap (all_bytes b) (bytes_of c1)" using okd(2) gap_chunk_right [OF okd(1)] gap_chunk_right [OF ok1] unfolding c1 by simp
  ultimately show ?thesis using ok1 okd(3) bd e sum unfolding c1 by auto
qed

lemma merge_next_ok:
  assumes c: "chunk_ok c" and fl: "list_ok after" and above: "\<forall>y \<in> all_bytes after. unat (fst c) + unat (snd c) \<le> y"
    and head: "unat head < unat (fst c)"
  shows "\<exists>c2 after1. merge_next head c after = Some (c2, after1) \<and> list_ok (c2 # after1) \<and>
    all_bytes (c2 # after1) = bytes_of c \<union> all_bytes after \<and> fst c2 = fst c"
proof (cases after)
  case Nil
  have "fst c + snd c \<noteq> head" using chunk_end [OF c] head by auto
  then show ?thesis using Nil c by (simp add: merge_next_def)
next
  case (Cons d rest)
  have okd: "chunk_ok d" "gap (bytes_of d) (all_bytes rest)" "list_ok rest" using fl Cons by simp_all
  have le: "unat (fst c) + unat (snd c) \<le> unat (fst d)" using above chunk_start_in [OF okd(1)] Cons by simp
  show ?thesis
  proof (cases "fst c + snd c = fst d")
    case True
    then have e: "unat (fst c) + unat (snd c) = unat (fst d)" using chunk_end [OF c] by simp
    let ?c2 = "(fst c, snd c + snd d)"
    have sum: "unat (snd c + snd d) = unat (snd c) + unat (snd d)"
      using e okd(1) by (subst unat_add_lem [THEN iffD1]) (simp_all add: chunk_ok_def)
    have ok2: "chunk_ok ?c2" using c okd(1) e sum by (auto simp: chunk_ok_def)
    have "bytes_of ?c2 = bytes_of c \<union> bytes_of d" using e sum by (auto simp: bytes_of_def)
    moreover have "gap (bytes_of ?c2) (all_bytes rest)" using okd(2) gap_chunk_left [OF okd(1)] gap_chunk_left [OF ok2] e sum by auto
    ultimately show ?thesis using True Cons ok2 okd(3) by (auto simp: merge_next_def)
  next
    case False
    then have "unat (fst c) + unat (snd c) \<noteq> unat (fst d)" using chunk_end [OF c] by (metis word_unat_eq_iff)
    with le have lt: "unat (fst c) + unat (snd c) < unat (fst d)" by simp
    have "gap (bytes_of c) (all_bytes after)"
      using gap_chunk_left [OF c] gap_chunk_left [OF okd(1), of "all_bytes rest"] okd(2) lt Cons by (auto simp: bytes_of_def)
    then show ?thesis using False Cons c fl by (simp add: merge_next_def)
  qed
qed

text \<open>The walk stops between the chunks below and those above.\<close>

lemma insert_position:
  assumes fl: "list_ok fl" and c: "chunk_ok c" and apart: "bytes_of c \<inter> all_bytes fl = {}"
  defines "before \<equiv> takeWhile (\<lambda>d. \<not> fst c < fst d) fl" and "after \<equiv> dropWhile (\<lambda>d. \<not> fst c < fst d) fl"
  shows "\<forall>x \<in> all_bytes before. x < unat (fst c)" "\<forall>y \<in> all_bytes after. unat (fst c) + unat (snd c) \<le> y"
proof -
  have split: "fl = before @ after" by (simp add: before_def after_def)
  have ok: "list_ok after" using fl unfolding split by simp
  have "x < unat (fst c)" if x: "x \<in> all_bytes before" for x
  proof -
    obtain d where d: "d \<in> set before" "x \<in> bytes_of d" using x by (auto simp: all_bytes_def)
    have "\<not> fst c < fst d" using d(1) set_takeWhileD unfolding before_def by fastforce
    then have "unat (fst d) \<le> unat (fst c)" by (simp add: word_less_nat_alt)
    moreover have "unat (fst c) \<notin> bytes_of d" using chunk_start_in [OF c] apart d(1) unfolding split by (auto simp: all_bytes_def)
    ultimately show ?thesis using d(2) by (auto simp: bytes_of_def)
  qed
  then show "\<forall>x \<in> all_bytes before. x < unat (fst c)" by blast
  have "unat (fst c) + unat (snd c) \<le> y" if y: "y \<in> all_bytes after" for y
  proof (cases after)
    case (Cons d rest)
    have okd: "chunk_ok d" "gap (bytes_of d) (all_bytes rest)" using ok Cons by simp_all
    have "fst c < fst d" using hd_dropWhile [of "\<lambda>d. \<not> fst c < fst d" fl] Cons unfolding after_def by simp
    then have "unat (fst c) < unat (fst d)" by (simp add: word_less_nat_alt)
    moreover have "unat (fst d) \<notin> bytes_of c" using chunk_start_in [OF okd(1)] apart Cons unfolding split by auto
    ultimately have "unat (fst c) + unat (snd c) \<le> unat (fst d)" by (auto simp: bytes_of_def)
    then show ?thesis using y Cons okd gap_chunk_left [OF okd(1), of "all_bytes rest"] by (auto simp: bytes_of_def)
  qed (use y in simp)
  then show "\<forall>y \<in> all_bytes after. unat (fst c) + unat (snd c) \<le> y" by blast
qed

lemma heap_insert_ok:
  assumes fl: "list_ok (free_list h)" and c: "chunk_ok c" and apart: "bytes_of c \<inter> all_bytes (free_list h) = {}"
    and head: "\<forall>x \<in> bytes_of c \<union> all_bytes (free_list h). unat (free_list_addr h) < x"
  shows "\<exists>p fl'. heap_insert_free_chunk h c = Some (p, h\<lparr>remaining := remaining h + snd c, free_list := fl'\<rparr>) \<and>
    list_ok fl' \<and> all_bytes fl' = all_bytes (free_list h) \<union> bytes_of c"
proof -
  let ?P = "\<lambda>d :: free_heap_chunk. \<not> fst c < fst d"
  define before after where "before = takeWhile ?P (free_list h)" and "after = dropWhile ?P (free_list h)"
  have split: "free_list h = before @ after" by (simp add: before_def after_def)
  have ok: "list_ok before" "list_ok after" "gap (all_bytes before) (all_bytes after)" using fl unfolding split by simp_all
  have below: "x < unat (fst c)" if "x \<in> all_bytes before" for x
    using insert_position(1) [OF fl c apart] that unfolding before_def by blast
  have above: "unat (fst c) + unat (snd c) \<le> y" if "y \<in> all_bytes after" for y
    using insert_position(2) [OF fl c apart] that unfolding after_def by blast
  have asrt: "after \<noteq> [] \<Longrightarrow> fst c + snd c \<le> fst (hd after)"
    using above chunk_start_in [OF list_ok_chunk [OF ok(2)]] chunk_end [OF c] by (cases after) (simp_all add: word_le_nat_alt)
  obtain before1 c1 where m: "merge_prev before c = (before1, c1)" by (meson surj_pair)
  note p = merge_prev_ok [OF ok(1) c _ m]
  have p': "list_ok (before1 @ [c1])" "all_bytes (before1 @ [c1]) = all_bytes before \<union> bytes_of c"
    "unat (fst c1) + unat (snd c1) = unat (fst c) + unat (snd c)" using p below by simp_all
  have ok1: "chunk_ok c1" using p'(1) by simp
  have "unat (fst c1) \<in> all_bytes before \<union> bytes_of c" using chunk_start_in [OF ok1] p'(2) by auto
  then have h1: "unat (free_list_addr h) < unat (fst c1)" using head unfolding split by auto
  obtain c2 after1 where n: "merge_next (free_list_addr h) c1 after = Some (c2, after1)" "list_ok (c2 # after1)"
    "all_bytes (c2 # after1) = bytes_of c1 \<union> all_bytes after" "fst c2 = fst c1"
    using merge_next_ok [OF ok1 ok(2) _ h1] above p'(3) by auto
  have "gap (all_bytes before1) (all_bytes after)"
  proof -
    have "all_bytes before1 \<subseteq> all_bytes before \<union> bytes_of c" using p'(2) by auto
    moreover have "x + 1 < unat (fst c1)" if "x \<in> all_bytes before1" for x using p'(1) that gap_chunk_right [OF ok1] by simp
    moreover have "unat (fst c1) < y" if "y \<in> all_bytes after" for y using above [OF that] p'(3) ok1 by (simp add: chunk_ok_def)
    ultimately show ?thesis by (force simp: gap_def)
  qed
  then have "list_ok (before1 @ c2 # after1)" using p'(1) n(2,3) by simp
  moreover have "all_bytes (before1 @ c2 # after1) = all_bytes (free_list h) \<union> bytes_of c"
    using p'(2) n(3) unfolding split by auto
  moreover have "heap_insert_free_chunk h c = Some (fst c2, h\<lparr>remaining := remaining h + snd c, free_list := before1 @ c2 # after1\<rparr>)"
    using asrt m n(1) unfolding heap_insert_free_chunk_def Let_def before_def [symmetric] after_def [symmetric] by auto
  ultimately show ?thesis by blast
qed

section \<open>Taking a chunk out\<close>

lemma split_chunk_ok:
  assumes c: "chunk_ok (ptr, len)" and sz: "4 dvd unat sz" "12 \<le> unat sz" "len \<ge> sz" "len > sz + chunk_bytes"
  shows "chunk_ok (ptr, sz)" "chunk_ok (ptr + sz, len - sz)" "bytes_of (ptr, len) = bytes_of (ptr, sz) \<union> bytes_of (ptr + sz, len - sz)"
    "bytes_of (ptr, sz) \<inter> bytes_of (ptr + sz, len - sz) = {}" "heap_create_free_chunk (ptr + sz) (len - sz) = Some (ptr + sz, len - sz)"
proof -
  have le: "unat sz \<le> unat len" using sz(3) by (simp add: word_le_nat_alt)
  have "unat sz + 12 < 2 ^ 32" using le c by (simp add: chunk_ok_def)
  then have "unat (sz + chunk_bytes) = unat sz + 12" by (subst unat_add_lem [THEN iffD1]) simp_all
  then have gt: "unat sz + 12 < unat len" using sz(4) by (simp add: word_less_nat_alt)
  have rest: "unat (len - sz) = unat len - unat sz" using sz(3) by (rule unat_sub)
  have addr: "unat (ptr + sz) = unat ptr + unat sz" using le c by (subst unat_add_lem [THEN iffD1]) (simp_all add: chunk_ok_def)
  show "chunk_ok (ptr, sz)" "chunk_ok (ptr + sz, len - sz)" using c sz(1,2) gt rest addr by (auto simp: chunk_ok_def)
  then show "heap_create_free_chunk (ptr + sz) (len - sz) = Some (ptr + sz, len - sz)"
    by (auto simp: heap_create_free_chunk_def chunk_ok_def word_unat_eq_iff unat_mod word_less_nat_alt)
  show "bytes_of (ptr, len) = bytes_of (ptr, sz) \<union> bytes_of (ptr + sz, len - sz)" "bytes_of (ptr, sz) \<inter> bytes_of (ptr + sz, len - sz) = {}"
    using le rest addr by (auto simp: bytes_of_def)
qed

lemma take_chunk_ok:
  assumes "list_ok fl" "4 dvd unat sz" "12 \<le> unat sz"
  shows "\<exists>r. take_chunk sz fl = Some r \<and>
    (case r of
       None \<Rightarrow> \<forall>c \<in> set fl. snd c < sz
     | Some (c, fl') \<Rightarrow> chunk_ok c \<and> sz \<le> snd c \<and> list_ok fl' \<and> bytes_of c \<inter> all_bytes fl' = {} \<and> all_bytes fl = bytes_of c \<union> all_bytes fl')"
  using assms(1)
proof (induction fl)
  case Nil
  then show ?case by simp
next
  case (Cons d fl)
  obtain ptr len where d: "d = (ptr, len)" by force
  have okd: "chunk_ok (ptr, len)" "gap (bytes_of (ptr, len)) (all_bytes fl)" "list_ok fl" using Cons.prems d by simp_all
  have m4: "len mod 4 = 0" using okd(1) by (simp add: chunk_ok_def word_unat_eq_iff unat_mod)
  show ?case
  proof (cases "len \<ge> sz")
    case True
    show ?thesis
    proof (cases "len > sz + chunk_bytes")
      case True
      note sp = split_chunk_ok [OF okd(1) assms(2,3) \<open>len \<ge> sz\<close> True]
      have "gap (bytes_of (ptr + sz, len - sz)) (all_bytes fl)" using okd(2) unfolding sp(3) by simp
      moreover have "bytes_of (ptr, sz) \<inter> all_bytes fl = {}" using gap_disjoint [OF okd(2)] unfolding sp(3) by auto
      moreover have "take_chunk sz (d # fl) = Some (Some ((ptr, sz), (ptr + sz, len - sz) # fl))" using m4 True \<open>len \<ge> sz\<close> sp(5) unfolding d by simp
      ultimately show ?thesis using sp(1-4) okd(3) unfolding d by auto
    next
      case False
      then show ?thesis using True m4 okd gap_disjoint [OF okd(2)] unfolding d by auto
    qed
  next
    case False
    obtain r where r: "take_chunk sz fl = Some r" "case r of None \<Rightarrow> \<forall>c \<in> set fl. snd c < sz
       | Some (c, fl') \<Rightarrow> chunk_ok c \<and> sz \<le> snd c \<and> list_ok fl' \<and> bytes_of c \<inter> all_bytes fl' = {} \<and> all_bytes fl = bytes_of c \<union> all_bytes fl'"
      using Cons.IH okd(3) by blast
    show ?thesis
    proof (cases r)
      case None
      then show ?thesis using r False m4 unfolding d by (auto simp: not_le)
    next
      case (Some cf)
      obtain c fl' where cf: "cf = (c, fl')" by (meson surj_pair)
      have g: "gap (bytes_of (ptr, len)) (bytes_of c \<union> all_bytes fl')" using okd(2) r(2) Some cf by simp
      then have "bytes_of c \<inter> bytes_of (ptr, len) = {}" using gap_disjoint [of "bytes_of (ptr, len)" "bytes_of c"] by auto
      moreover have "take_chunk sz (d # fl) = Some (Some (c, (ptr, len) # fl'))" using r(1) Some cf False m4 unfolding d by simp
      ultimately show ?thesis using g r(2) Some cf okd(1) unfolding d by auto
    qed
  qed
qed

section \<open>Sizes and alignments\<close>

text \<open>The alignment is zero or a power of two, and the sums that make up the size do not wrap around.\<close>

definition request_fits :: "u32 \<Rightarrow> u32 \<Rightarrow> bool" where
  "request_fits sz alignment \<longleftrightarrow> alignment AND (alignment - 1) = 0 \<and> unat sz + 15 + unat (request_alignment alignment) < 2 ^ 32"

lemma request_alignment_pow2:
  assumes "alignment AND (alignment - 1) = 0"
  shows "request_alignment alignment = 0 \<or> (\<exists>k. 4 \<le> k \<and> k < 32 \<and> request_alignment alignment = 2 ^ k)"
proof (cases "alignment = 0")
  case False
  then obtain k where k: "k < 32" "unat alignment = 2 ^ k" using pow2_exists [of alignment] assms by (auto simp: and.commute)
  show ?thesis
  proof (cases "alignment < 16")
    case True
    then have "request_alignment alignment = 2 ^ 4" using False by (simp add: request_alignment_def word_neq_0_conv)
    then show ?thesis by (intro disjI2 exI [of _ 4]) simp
  next
    case ge: False
    have "4 \<le> k"
    proof (rule ccontr)
      assume "\<not> 4 \<le> k"
      then have "(2 :: nat) ^ k < 2 ^ 4" by (intro power_strict_increasing) simp_all
      then show False using ge k(2) by (simp add: word_less_nat_alt)
    qed
    moreover have "alignment = 2 ^ k"
    proof -
      have "(2 :: nat) ^ k < 2 ^ 32" using k(1) by (intro power_strict_increasing) simp_all
      then have "unat (of_nat (2 ^ k) :: u32) = 2 ^ k" by (rule unat_of_nat_small32)
      then show ?thesis using k(2) by (simp add: word_unat_eq_iff)
    qed
    ultimately show ?thesis using ge k(1) by (auto simp: request_alignment_def)
  qed
qed (simp add: request_alignment_def)

lemma unat_pow2: "k < 32 \<Longrightarrow> unat (2 ^ k :: u32) = 2 ^ k"
proof -
  assume "k < 32"
  then have "(2 :: nat) ^ k < 2 ^ 32" by (intro power_strict_increasing) simp_all
  then have "unat (of_nat (2 ^ k) :: u32) = 2 ^ k" by (rule unat_of_nat_small32)
  then show ?thesis by simp
qed

lemma round_up_bounds: "0 < (m :: nat) \<Longrightarrow> x \<le> (x + (m - 1)) div m * m \<and> (x + (m - 1)) div m * m \<le> x + (m - 1)"
proof -
  assume m: "0 < m"
  have "(x + (m - 1)) div m * m + (x + (m - 1)) mod m = x + (m - 1)" by (rule div_mult_mod_eq)
  moreover have "(x + (m - 1)) mod m < m" using m by simp
  ultimately show ?thesis by linarith
qed

lemma request_size_nat:
  assumes "request_fits sz alignment"
  shows "4 dvd unat (request_size sz alignment) \<and> 12 \<le> unat (request_size sz alignment) \<and>
    unat sz + 12 + unat (request_alignment alignment) \<le> unat (request_size sz alignment) \<and>
    unat (request_size sz alignment) \<le> unat sz + 15 + unat (request_alignment alignment)"
proof -
  have lt: "unat sz + 15 + unat (request_alignment alignment) < 2 ^ 32" using assms by (simp add: request_fits_def)
  have s1: "unat (sz + header_bytes) = unat sz + 12" using lt by (subst unat_add_lem [THEN iffD1]) simp_all
  then have s2: "\<not> sz + header_bytes < chunk_bytes" by (simp add: word_less_nat_alt)
  have s3: "unat (ROUNDUP (sz + header_bytes) 4) = (unat sz + 12 + 3) div 4 * 4" using unat_ROUNDUP [of 2 "sz + header_bytes"] s1 lt by simp
  have b: "unat sz + 12 \<le> (unat sz + 12 + 3) div 4 * 4" "(unat sz + 12 + 3) div 4 * 4 \<le> unat sz + 15"
    using round_up_bounds [of 4 "unat sz + 12"] by simp_all
  have rs: "request_size sz alignment = ROUNDUP (sz + header_bytes) 4 + request_alignment alignment"
    using s2 by (auto simp: request_size_def request_alignment_def Let_def not_less)
  have sum: "unat (request_size sz alignment) = (unat sz + 12 + 3) div 4 * 4 + unat (request_alignment alignment)"
    unfolding rs using s3 b lt by (subst unat_add_lem [THEN iffD1]) simp_all
  have "4 dvd unat (request_alignment alignment)"
  proof -
    consider "request_alignment alignment = 0" | k where "4 \<le> k" "k < 32" "request_alignment alignment = 2 ^ k"
      using request_alignment_pow2 assms by (auto simp: request_fits_def)
    then show ?thesis
    proof cases
      case (2 k)
      have "(2 :: nat) ^ 2 dvd 2 ^ k" using 2(1) by (intro le_imp_power_dvd) simp
      then show ?thesis using 2 unat_pow2 by simp
    qed simp
  qed
  then show ?thesis unfolding sum using b by simp
qed

lemma aligned_ptr_nat:
  assumes fits: "request_fits sz alignment0" and c: "chunk_ok (chunk, len)" and le: "request_size sz alignment0 \<le> len"
  defines "alignment \<equiv> request_alignment alignment0"
  shows "unat chunk + 12 \<le> unat (aligned_ptr chunk alignment) \<and> unat (aligned_ptr chunk alignment) + unat sz \<le> unat chunk + unat len \<and>
    (alignment \<noteq> 0 \<longrightarrow> unat alignment dvd unat (aligned_ptr chunk alignment))"
proof -
  have l: "unat sz + 12 + unat alignment \<le> unat len" using request_size_nat [OF fits] le by (simp add: word_le_nat_alt alignment_def)
  have c12: "unat (chunk + header_bytes) = unat chunk + 12" using c by (subst unat_add_lem [THEN iffD1]) (simp_all add: chunk_ok_def)
  show ?thesis
  proof (cases "alignment = 0")
    case True
    then show ?thesis using l c12 by (simp add: aligned_ptr_def)
  next
    case False
    then obtain k where k: "k < 32" "alignment = 2 ^ k"
      using request_alignment_pow2 [of alignment0] fits by (auto simp: request_fits_def alignment_def)
    have uk: "unat alignment = 2 ^ k" using k unat_pow2 by simp
    have room: "unat (chunk + header_bytes) + 2 ^ k \<le> 2 ^ 32" using c l c12 uk by (simp add: chunk_ok_def)
    have "alignment > 0" using False by (simp add: word_neq_0_conv)
    then have "aligned_ptr chunk alignment = ROUNDUP (chunk + header_bytes) (2 ^ k)" unfolding aligned_ptr_def using k(2) by (simp only: if_True)
    then have p: "unat (aligned_ptr chunk alignment) = (unat chunk + 12 + (2 ^ k - 1)) div 2 ^ k * 2 ^ k"
      using unat_ROUNDUP [OF k(1) room] unfolding c12 by (simp only:)
    have "unat chunk + 12 \<le> unat (aligned_ptr chunk alignment) \<and> unat (aligned_ptr chunk alignment) \<le> unat chunk + 12 + (2 ^ k - 1)"
      unfolding p by (rule round_up_bounds) simp
    moreover have "unat alignment dvd unat (aligned_ptr chunk alignment)" unfolding uk p by simp
    ultimately show ?thesis using l uk by auto
  qed
qed

end
