(* ===== verification/Miniheap_Inv.thy ===== *)
theory Miniheap_Inv
  imports Free_List
begin

text \<open>
  Correctness of the heap: an invariant of the free list, the blocks handed out and the pages
  behind them, kept by every call of the C interface from start-up on.
\<close>

section \<open>The invariant\<close>

text \<open>
  The header at address \<open>a\<close> describes a block that holds the header; blocks overlap neither each
  other nor free memory, and \<open>pool\<close> are the bytes of both. The list head lies below the pool.
\<close>

definition block_of :: "alloc_struct_begin \<Rightarrow> free_heap_chunk" where
  "block_of b = (as_ptr b, as_size b)"

definition live_bytes :: "(u32 \<rightharpoonup> alloc_struct_begin) \<Rightarrow> nat set" where
  "live_bytes m = (\<Union>b \<in> ran m. bytes_of (block_of b))"

definition header_ok :: "u32 \<Rightarrow> alloc_struct_begin \<Rightarrow> bool" where
  "header_ok a b \<longleftrightarrow> chunk_ok (block_of b) \<and> unat (as_ptr b) \<le> unat a \<and> unat a + 12 \<le> unat (as_ptr b) + unat (as_size b)"

definition headers_ok :: "(u32 \<rightharpoonup> alloc_struct_begin) \<Rightarrow> bool" where
  "headers_ok m \<longleftrightarrow> (\<forall>a b. m a = Some b \<longrightarrow> header_ok a b) \<and>
     (\<forall>a b a' b'. m a = Some b \<longrightarrow> m a' = Some b' \<longrightarrow> a \<noteq> a' \<longrightarrow> bytes_of (block_of b) \<inter> bytes_of (block_of b') = {})"

definition heap_inv :: "heap \<Rightarrow> nat set \<Rightarrow> bool" where
  "heap_inv h pool \<longleftrightarrow> list_ok (free_list h) \<and> headers_ok (headers h) \<and>
     all_bytes (free_list h) \<inter> live_bytes (headers h) = {} \<and> pool = all_bytes (free_list h) \<union> live_bytes (headers h) \<and>
     (\<forall>x \<in> pool. unat (free_list_addr h) < x) \<and> unat (remaining h) = card (all_bytes (free_list h))"

lemma live_bytes_upd:
  assumes "m a = None"
  shows "live_bytes (m(a \<mapsto> b)) = live_bytes m \<union> bytes_of (block_of b)"
  using assms by (auto simp: live_bytes_def)

lemma live_bytes_block: "m a = Some b \<Longrightarrow> bytes_of (block_of b) \<subseteq> live_bytes m"
  by (auto simp: live_bytes_def ran_def)

lemma headers_ok_apart:
  "headers_ok m \<Longrightarrow> m a = Some b \<Longrightarrow> m a' = Some b' \<Longrightarrow> a \<noteq> a' \<Longrightarrow> bytes_of (block_of b) \<inter> bytes_of (block_of b') = {}"
  unfolding headers_ok_def by blast

lemma live_bytes_remove:
  assumes "headers_ok m" "m a = Some b"
  shows "live_bytes m = live_bytes (m(a := None)) \<union> bytes_of (block_of b)" "live_bytes (m(a := None)) \<inter> bytes_of (block_of b) = {}"
proof -
  have "m = (m(a := None))(a \<mapsto> b)" using assms(2) by auto
  then show "live_bytes m = live_bytes (m(a := None)) \<union> bytes_of (block_of b)" using live_bytes_upd [of "m(a := None)" a b] by simp
  show "live_bytes (m(a := None)) \<inter> bytes_of (block_of b) = {}"
    using headers_ok_apart [OF assms] unfolding live_bytes_def by (fastforce simp: ran_def split: if_splits)
qed

lemma headers_ok_remove: "headers_ok m \<Longrightarrow> headers_ok (m(a := None))"
  by (auto simp: headers_ok_def)

lemma headers_ok_insert:
  assumes "headers_ok m" "header_ok a b" "bytes_of (block_of b) \<inter> live_bytes m = {}"
  shows "headers_ok (m(a \<mapsto> b)) \<and> m a = None"
proof -
  have apart: "bytes_of (block_of b) \<inter> bytes_of (block_of b') = {}" if "m a' = Some b'" for a' b'
    using assms(3) live_bytes_block [of m a' b'] that by blast
  have "m a = None"
  proof (rule ccontr)
    assume "m a \<noteq> None"
    then obtain b' where b': "m a = Some b'" by auto
    then have "header_ok a b'" using assms(1) by (simp add: headers_ok_def)
    then have "unat a \<in> bytes_of (block_of b')" "unat a \<in> bytes_of (block_of b)" using assms(2) by (auto simp: header_ok_def bytes_of_def block_of_def)
    then show False using apart [OF b'] by blast
  qed
  then show ?thesis using assms(1,2) apart by (auto simp: headers_ok_def split: if_splits)
qed

lemma heap_inv_card: "heap_inv h pool \<Longrightarrow> card pool < 2 ^ 32"
proof -
  assume inv: "heap_inv h pool"
  have "x < 2 ^ 32" if "x \<in> live_bytes (headers h)" for x
    using that inv by (fastforce simp: heap_inv_def live_bytes_def headers_ok_def header_ok_def chunk_ok_def bytes_of_def ran_def)
  moreover have "x < 2 ^ 32" if "x \<in> all_bytes (free_list h)" for x
    using that inv all_bytes_bound [of "free_list h" x] by (simp add: heap_inv_def)
  moreover have "\<forall>x \<in> pool. 0 < x" using inv by (auto simp: heap_inv_def)
  ultimately have "pool \<subseteq> {0<..<2 ^ 32}" using inv by (auto simp: heap_inv_def)
  then have "card pool \<le> card {0<..<(2 :: nat) ^ 32}" by (rule card_mono [rotated]) simp
  then show ?thesis by simp
qed

text \<open>Memory that is neither free nor in a block joins the pool.\<close>

lemma insert_inv:
  assumes inv: "heap_inv h pool" and c: "chunk_ok c" and apart: "bytes_of c \<inter> pool = {}"
    and head: "\<forall>x \<in> bytes_of c. unat (free_list_addr h) < x"
  shows "\<exists>p fl'. heap_insert_free_chunk h c = Some (p, h\<lparr>remaining := remaining h + snd c, free_list := fl'\<rparr>) \<and>
    heap_inv (h\<lparr>remaining := remaining h + snd c, free_list := fl'\<rparr>) (pool \<union> bytes_of c) \<and>
    all_bytes fl' = all_bytes (free_list h) \<union> bytes_of c"
proof -
  have d: "bytes_of c \<inter> all_bytes (free_list h) = {}" "bytes_of c \<inter> live_bytes (headers h) = {}" using inv apart by (auto simp: heap_inv_def)
  have fl: "list_ok (free_list h)" "\<forall>x \<in> bytes_of c \<union> all_bytes (free_list h). unat (free_list_addr h) < x"
    using inv head by (auto simp: heap_inv_def)
  obtain p fl' where r: "heap_insert_free_chunk h c = Some (p, h\<lparr>remaining := remaining h + snd c, free_list := fl'\<rparr>)"
    "list_ok fl'" "all_bytes fl' = all_bytes (free_list h) \<union> bytes_of c"
    using heap_insert_ok [OF fl(1) c d(1) fl(2)] by blast
  have card: "card (all_bytes fl') = unat (remaining h) + unat (snd c)"
    unfolding r(3) using inv d(1) by (subst card_Un_disjoint) (auto simp: heap_inv_def)
  have "all_bytes fl' \<subseteq> {0<..<2 ^ 32}" using all_bytes_bound [OF r(2)] by fastforce
  then have "card (all_bytes fl') \<le> card {0<..<(2 :: nat) ^ 32}" by (rule card_mono [rotated]) simp
  then have "unat (remaining h + snd c) = card (all_bytes fl')" unfolding card by (subst unat_add_lem [THEN iffD1]) simp_all
  then have "heap_inv (h\<lparr>remaining := remaining h + snd c, free_list := fl'\<rparr>) (pool \<union> bytes_of c)"
    using r inv head d(2) by (auto simp: heap_inv_def)
  then show ?thesis using r by blast
qed

lemma create_chunk_ok: "chunk_ok (p, l) \<Longrightarrow> heap_create_free_chunk p l = Some (p, l)"
  by (auto simp: heap_create_free_chunk_def chunk_ok_def word_unat_eq_iff unat_mod word_less_nat_alt)

section \<open>One allocation and one free\<close>

text \<open>What a caller gets: the requested bytes lie in the block behind its header, aligned as asked for.\<close>

definition payload_ok :: "u32 \<Rightarrow> u32 \<Rightarrow> u32 \<Rightarrow> alloc_struct_begin \<Rightarrow> bool" where
  "payload_ok p sz alignment b \<longleftrightarrow> unat (as_ptr b) + 12 \<le> unat p \<and> unat p + unat sz \<le> unat (as_ptr b) + unat (as_size b) \<and>
     (request_alignment alignment \<noteq> 0 \<longrightarrow> unat (request_alignment alignment) dvd unat p)"

text \<open>The heap after an allocation: one more block, over the same pool.\<close>

definition block_added :: "heap \<Rightarrow> heap \<Rightarrow> u32 \<Rightarrow> u32 \<Rightarrow> u32 \<Rightarrow> bool" where
  "block_added h h' p sz alignment \<longleftrightarrow> free_list_addr h' = free_list_addr h \<and> headers h (p - header_bytes) = None \<and> p \<noteq> 0 \<and>
     (\<exists>b. headers h' = (headers h)(p - header_bytes \<mapsto> b) \<and> payload_ok p sz alignment b)"

lemma unat_back_12: "12 \<le> unat p \<Longrightarrow> unat (p - header_bytes) = unat p - 12"
  by (subst unat_sub) (simp_all add: word_le_nat_alt)

lemma alloc_locked_inv:
  assumes inv: "heap_inv h pool" and fits: "request_fits sz alignment"
  obtains (full) "alloc_locked h (request_size sz alignment) (request_alignment alignment) = Some (None, h)"
      "\<forall>c \<in> set (free_list h). snd c < request_size sz alignment"
    | (block) p h' where "alloc_locked h (request_size sz alignment) (request_alignment alignment) = Some (Some p, h')"
      "heap_inv h' pool" "block_added h h' p sz alignment"
      "h' = h\<lparr>free_list := free_list h', headers := headers h', remaining := remaining h', low_watermark := low_watermark h'\<rparr>"
      "low_watermark h = 0 \<Longrightarrow> low_watermark h' = 0"
proof -
  let ?sz = "request_size sz alignment" and ?al = "request_alignment alignment"
  have ok: "list_ok (free_list h)" "headers_ok (headers h)" using inv by (simp_all add: heap_inv_def)
  obtain r where r: "take_chunk ?sz (free_list h) = Some r" "case r of
       None \<Rightarrow> \<forall>c \<in> set (free_list h). snd c < ?sz
     | Some (c, fl') \<Rightarrow> chunk_ok c \<and> ?sz \<le> snd c \<and> list_ok fl' \<and> bytes_of c \<inter> all_bytes fl' = {} \<and> all_bytes (free_list h) = bytes_of c \<union> all_bytes fl'"
    using take_chunk_ok [OF ok(1), of ?sz] request_size_nat [OF fits] by auto
  show thesis
  proof (cases r)
    case None
    then show thesis using full r by (simp add: alloc_locked_def)
  next
    case (Some cf)
    obtain chunk len fl' where cf: "cf = ((chunk, len), fl')" by (metis surj_pair)
    let ?p = "aligned_ptr chunk ?al" and ?b = "\<lparr>as_ptr = chunk, as_size = len\<rparr>" and ?left = "remaining h - len"
    have c: "chunk_ok (chunk, len)" "?sz \<le> len" "list_ok fl'" "bytes_of (chunk, len) \<inter> all_bytes fl' = {}"
      "all_bytes (free_list h) = bytes_of (chunk, len) \<union> all_bytes fl'" using r(2) Some cf by simp_all
    have pay: "payload_ok ?p sz alignment ?b" using aligned_ptr_nat [OF fits c(1,2)] by (simp add: payload_ok_def)
    have "header_ok (?p - header_bytes) ?b"
      using pay c(1) unat_back_12 [of ?p] by (auto simp: header_ok_def payload_ok_def block_of_def)
    moreover have live: "bytes_of (block_of ?b) \<inter> live_bytes (headers h) = {}" using inv c(5) by (auto simp: heap_inv_def block_of_def)
    ultimately have hd: "headers_ok ((headers h)(?p - header_bytes \<mapsto> ?b))" "headers h (?p - header_bytes) = None"
      using headers_ok_insert [OF ok(2)] by blast+
    have rem: "unat (remaining h) = unat len + card (all_bytes fl')"
      using inv c(4,5) card_Un_disjoint [of "bytes_of (chunk, len)" "all_bytes fl'"] by (simp add: heap_inv_def)
    then have "unat ?left = card (all_bytes fl')" by (subst unat_sub) (simp_all add: word_le_nat_alt)
    moreover define h' where "h' = h\<lparr>free_list := fl', headers := (headers h)(?p - header_bytes \<mapsto> ?b), remaining := ?left,
      low_watermark := (if ?left < low_watermark h then ?left else low_watermark h)\<rparr>"
    ultimately have "heap_inv h' pool"
      using inv c(3,4,5) hd live_bytes_upd [of "headers h" "?p - header_bytes" ?b] live by (auto simp: heap_inv_def block_of_def)
    moreover have "block_added h h' ?p sz alignment" using hd(2) pay by (auto simp: block_added_def h'_def payload_ok_def)
    moreover have "h' = h\<lparr>free_list := free_list h', headers := headers h', remaining := remaining h', low_watermark := low_watermark h'\<rparr>"
      "low_watermark h = 0 \<Longrightarrow> low_watermark h' = 0" by (simp_all add: h'_def)
    moreover have "alloc_locked h ?sz ?al = Some (Some ?p, h')" using r(1) Some cf by (simp add: alloc_locked_def Let_def h'_def)
    ultimately show thesis using block by blast
  qed
qed

lemma miniheap_free_inv:
  assumes inv: "heap_inv h pool" and b: "headers h (ptr - header_bytes) = Some b" and nz: "ptr \<noteq> 0"
  shows "\<exists>h'. miniheap_free h ptr = Some h' \<and> heap_inv h' pool \<and> free_list_addr h' = free_list_addr h \<and>
    headers h' = (headers h)(ptr - header_bytes := None) \<and>
    h' = h\<lparr>free_list := free_list h', headers := headers h', remaining := remaining h'\<rparr>"
proof -
  let ?h = "h\<lparr>headers := (headers h)(ptr - header_bytes := None)\<rparr>" and ?c = "block_of b"
  have ok: "headers_ok (headers h)" using inv by (simp add: heap_inv_def)
  then have c: "chunk_ok ?c" using b by (simp add: headers_ok_def header_ok_def)
  note rm = live_bytes_remove [OF ok b]
  have inv': "heap_inv ?h (pool - bytes_of ?c)"
    using inv rm headers_ok_remove [OF ok] by (auto simp: heap_inv_def)
  have sub: "bytes_of ?c \<subseteq> pool" using rm(1) inv by (auto simp: heap_inv_def)
  then have head: "\<forall>x \<in> bytes_of ?c. unat (free_list_addr ?h) < x" using inv by (auto simp: heap_inv_def)
  obtain p fl' where r: "heap_insert_free_chunk ?h ?c = Some (p, ?h\<lparr>remaining := remaining h + snd ?c, free_list := fl'\<rparr>)"
    "heap_inv (?h\<lparr>remaining := remaining h + snd ?c, free_list := fl'\<rparr>) (pool - bytes_of ?c \<union> bytes_of ?c)"
    using insert_inv [OF inv' c _ head] by auto
  have "miniheap_free h ptr = Some (?h\<lparr>remaining := remaining h + snd ?c, free_list := fl'\<rparr>)"
    using nz b r(1) create_chunk_ok [of "as_ptr b" "as_size b"] c by (simp add: miniheap_free_def block_of_def)
  moreover have "pool - bytes_of ?c \<union> bytes_of ?c = pool" using sub by blast
  ultimately show ?thesis using r(2) by simp
qed

section \<open>Growing\<close>

text \<open>
  The heap over its pages: the pool is every page of the arena that is taken and a region \<open>boot\<close>, the
  rest of the page in front of the arena. The list head lies below both, the last page of
  the address space above, and the arena is smaller than two gigabytes.
\<close>

definition heap_ok :: "nat set \<Rightarrow> heap \<Rightarrow> novm_arena \<Rightarrow> bool" where
  "heap_ok boot h n \<longleftrightarrow> arena_ok n \<and> heap_inv h (boot \<union> arena_taken n) \<and> low_watermark h = 0 \<and>
     (\<forall>x \<in> boot. x < unat (n_base n) \<and> unat (n_base n) < x + 4096) \<and> unat (free_list_addr h) < unat (n_base n) \<and>
     unat (n_base n) + unat (n_pages n) * 4096 + 4096 \<le> 2 ^ 32 \<and> unat (n_pages n) * 4096 < 2 ^ 31"

lemma heap_ok_boot: "heap_ok boot h n \<Longrightarrow> boot \<inter> arena_range n = {}"
  by (fastforce simp: heap_ok_def arena_range_def)

lemma heap_ok_head: "heap_ok boot h n \<Longrightarrow> x \<in> arena_range n \<Longrightarrow> unat (free_list_addr h) < x"
  by (auto simp: heap_ok_def arena_range_def)

lemma range_in_chunk:
  assumes "list_ok fl" "{a..<a + k} \<subseteq> all_bytes fl" "0 < k"
  shows "\<exists>c \<in> set fl. {a..<a + k} \<subseteq> bytes_of c"
  using assms
proof (induction fl)
  case (Cons c fl)
  note hd = Cons.prems(1) [simplified]
  have g: "\<forall>y \<in> all_bytes fl. unat (fst c) + unat (snd c) < y" using hd gap_chunk_left by blast
  show ?case
  proof (cases "a \<in> bytes_of c")
    case True
    have "a + k \<le> unat (fst c) + unat (snd c)"
    proof (rule ccontr)
      assume "\<not> a + k \<le> unat (fst c) + unat (snd c)"
      then have "unat (fst c) + unat (snd c) \<in> {a..<a + k}" using True by (auto simp: bytes_of_def)
      then show False using list_ok_head(2) [OF Cons.prems(1)] Cons.prems(2) by blast
    qed
    then show ?thesis using True by (intro bexI [of _ c]) (auto simp: bytes_of_def)
  next
    case False
    have "a \<in> {a..<a + k}" using Cons.prems(3) by simp
    then have "a \<in> bytes_of c \<union> all_bytes fl" using Cons.prems(2) by (metis all_bytes_simps(2) subsetD)
    then have "a \<in> all_bytes fl" using False by simp
    then have "{a..<a + k} \<inter> bytes_of c = {}" using g by (fastforce simp: bytes_of_def)
    then have "{a..<a + k} \<subseteq> all_bytes fl" using Cons.prems(2) by auto
    then show ?thesis using Cons.IH hd Cons.prems(3) by auto
  qed
qed simp

lemma page_wrap: "\<not> x + 4096 \<le> 2 ^ 32 \<Longrightarrow> x < 2 ^ 32 \<Longrightarrow> \<exists>d :: nat. x + 4095 = d + 2 ^ 32 \<and> d < 4096"
  by (intro exI [of _ "x + 4095 - 2 ^ 32"]) simp

lemma round_page:
  "ROUNDUP sz PAGE_SIZE = 0 \<or> unat sz \<le> unat (ROUNDUP sz PAGE_SIZE)"
  "unat (ROUNDUP sz PAGE_SIZE div PAGE_SIZE) * 4096 = unat (ROUNDUP sz PAGE_SIZE)"
proof -
  let ?r = "ROUNDUP sz PAGE_SIZE"
  have r: "unat ?r = unat (sz + 4095) div 4096 * 4096"
    using unat_ROUNDDOWN [of 12 "sz + 4095"] by (simp add: ROUNDUP_def ROUNDDOWN_def)
  show "unat (?r div PAGE_SIZE) * 4096 = unat ?r" by (simp add: unat_div r)
  show "?r = 0 \<or> unat sz \<le> unat ?r"
  proof (cases "unat sz + 4096 \<le> 2 ^ 32")
    case True
    then show ?thesis using unat_ROUNDUP [of 12 sz] round_up_bounds [of 4096 "unat sz"] by simp
  next
    case False
    have lt: "unat sz < 2 ^ 32" using unsigned_less [of sz] by simp
    have "unat (sz + 4095) = (unat sz + 4095) mod 2 ^ 32" by (simp add: unat_word_ariths)
    moreover obtain d where d: "unat sz + 4095 = d + 2 ^ 32" "d < 4096" using False lt by (metis page_wrap)
    ultimately have "unat (sz + 4095) = d" by (simp only: mod_add_self2) simp
    then have "unat (sz + 4095) < 4096" using d(2) by simp
    then have "unat ?r = 0" using r by simp
    then show ?thesis by (simp add: unat_eq_0)
  qed
qed

lemma sint_low: "unat (x :: u32) < 2 ^ 31 \<Longrightarrow> 0 \<le> sint x"
proof -
  assume "unat x < 2 ^ 31"
  then have "\<not> bit x 31" using bit_high_iff [of x 31] unsigned_less [of x] by simp
  then show ?thesis using bit_last_iff [of x] by simp
qed

text \<open>The pages of a growth make up one chunk.\<close>

lemma grown_chunk:
  assumes aok: "arena_ok n" and pa: "page_alloc n (ROUNDUP sz PAGE_SIZE div PAGE_SIZE) = (Some p, n')"
  shows "chunk_ok (p, ROUNDUP sz PAGE_SIZE)" "page_run p (ROUNDUP sz PAGE_SIZE div PAGE_SIZE) = bytes_of (p, ROUNDUP sz PAGE_SIZE)"
    "unat sz \<le> unat (ROUNDUP sz PAGE_SIZE)" "4096 \<le> unat (ROUNDUP sz PAGE_SIZE)" "unat (ROUNDUP sz PAGE_SIZE) \<le> unat (n_pages n) * 4096"
proof -
  let ?sz = "ROUNDUP sz PAGE_SIZE"
  let ?k = "?sz div PAGE_SIZE"
  note law = novm.alloc_law [OF aok pa]
  have len: "unat ?k * 4096 = unat ?sz" by (rule round_page(2))
  have "unat ?k \<noteq> 0" using law by (auto simp: word_less_nat_alt)
  then show big: "4096 \<le> unat ?sz" unfolding len [symmetric] by simp
  have "?sz \<noteq> 0" using law by auto
  then show "unat sz \<le> unat ?sz" using round_page(1) [of sz] by blast
  have "4096 \<le> unat p" using law by (auto dest: dvd_imp_le)
  moreover have "(4 :: nat) dvd unat p" using law dvd_trans [of 4 4096 "unat p"] by simp
  moreover have "(4 :: nat) dvd unat ?sz" unfolding len [symmetric] by simp
  ultimately show "chunk_ok (p, ?sz)" using law big len by (simp add: chunk_ok_def)
  show "page_run p ?k = bytes_of (p, ?sz)" by (simp only: page_run_def bytes_of_def len fst_conv snd_conv)
  have "card (page_run p ?k) \<le> card (arena_range n)" using law by (intro card_mono) (auto simp: arena_range_def)
  then show "unat ?sz \<le> unat (n_pages n) * 4096" using len by (simp add: page_run_def arena_range_def)
qed

lemma heap_grow_inv:
  assumes ok: "heap_ok boot h n"
  obtains (failed) "heap_grow h n sz = Some (- 5, h, n)" "page_alloc n (ROUNDUP sz PAGE_SIZE div PAGE_SIZE) = (None, n)"
    | (grown) e h' n' where "heap_grow h n sz = Some (e, h', n')" "0 \<le> e" "heap_ok boot h' n'" "headers h' = headers h"
      "free_list_addr h' = free_list_addr h" "\<exists>c \<in> set (free_list h'). sz \<le> snd c" "arena_taken n \<noteq> arena_taken n'"
proof -
  let ?sz = "ROUNDUP sz PAGE_SIZE"
  let ?k = "?sz div PAGE_SIZE"
  obtain r n' where pa: "page_alloc n ?k = (r, n')" by (meson surj_pair)
  show thesis
  proof (cases r)
    case None
    then have "n' = n" using novm.alloc_none pa by blast
    then show thesis using failed None pa by (simp add: heap_grow_def Let_def)
  next
    case (Some p)
    have aok: "arena_ok n" and inv: "heap_inv h (boot \<union> arena_taken n)" using ok by (simp_all add: heap_ok_def)
    have pa': "page_alloc n ?k = (Some p, n')" using pa Some by simp
    note law = novm.alloc_law [OF aok pa']
    note c = grown_chunk(1) [OF aok pa'] and run = grown_chunk(2) [OF aok pa'] and big = grown_chunk(3-5) [OF aok pa']
    have "bytes_of (p, ?sz) \<inter> (boot \<union> arena_taken n) = {}" using law heap_ok_boot [OF ok] unfolding run by blast
    moreover have "\<forall>x \<in> bytes_of (p, ?sz). unat (free_list_addr h) < x" using law heap_ok_head [OF ok] unfolding run by blast
    ultimately obtain q fl' where ins: "heap_insert_free_chunk h (p, ?sz) = Some (q, h\<lparr>remaining := remaining h + ?sz, free_list := fl'\<rparr>)"
      "heap_inv (h\<lparr>remaining := remaining h + ?sz, free_list := fl'\<rparr>) (boot \<union> arena_taken n \<union> bytes_of (p, ?sz))"
      "all_bytes fl' = all_bytes (free_list h) \<union> bytes_of (p, ?sz)"
      using insert_inv [OF inv c] by auto
    let ?h1 = "h\<lparr>remaining := remaining h + ?sz, free_list := fl'\<rparr>"
    obtain h' where g: "heap_grow h n sz = Some (sint ?sz, h', n')" "free_list h' = fl'" "headers h' = headers h"
      "free_list_addr h' = free_list_addr h" "remaining h' = remaining ?h1" "low_watermark h' = low_watermark h"
      using pa' create_chunk_ok [OF c] ins(1) by (auto simp: heap_grow_def Let_def)
    have "boot \<union> arena_taken n \<union> bytes_of (p, ?sz) = boot \<union> arena_taken n'" using law run by auto
    then have "heap_inv h' (boot \<union> arena_taken n')" using ins(2) g by (simp add: heap_inv_def)
    moreover have "n_pages n' = n_pages n \<and> n_base n' = n_base n" by (subst (1 2) page_alloc_same [OF aok pa']) simp
    ultimately have ok': "heap_ok boot h' n'" using ok law g(4,6) by (simp add: heap_ok_def)
    have "unat ?sz < 2 ^ 31" using ok big(3) by (simp add: heap_ok_def)
    then have "0 \<le> sint ?sz" by (rule sint_low)
    moreover have "\<exists>d \<in> set fl'. sz \<le> snd d"
    proof -
      have "{unat p..<unat p + unat ?sz} \<subseteq> all_bytes fl'" using ins(3) by (auto simp: bytes_of_def)
      then obtain d where d: "d \<in> set fl'" "{unat p..<unat p + unat ?sz} \<subseteq> bytes_of d"
        using range_in_chunk [of fl' "unat p" "unat ?sz"] ins(2) big(2) by (auto simp: heap_inv_def)
      then have "unat ?sz \<le> unat (snd d)" using card_mono [OF finite_bytes(1) d(2)] by simp
      then have "sz \<le> snd d" using big(1) by (simp add: word_le_nat_alt)
      then show ?thesis using d(1) by blast
    qed
    moreover have "arena_taken n \<noteq> arena_taken n'" using law chunk_start_in [OF c] unfolding run by blast
    ultimately show thesis using grown [OF g(1) _ ok' g(3,4)] g(2) by blast
  qed
qed

section \<open>Allocation\<close>

lemma block_added_trans: "headers h1 = headers h \<Longrightarrow> free_list_addr h1 = free_list_addr h \<Longrightarrow> block_added h1 h' p sz al \<Longrightarrow> block_added h h' p sz al"
  by (simp add: block_added_def)

lemma miniheap_alloc_inv:
  assumes ok: "heap_ok boot h n" and fits: "request_fits sz al"
  obtains (none) "miniheap_alloc h n sz al = Some (None, h, n)" "\<forall>c \<in> set (free_list h). snd c < request_size sz al"
      "page_alloc n (ROUNDUP (request_size sz al) PAGE_SIZE div PAGE_SIZE) = (None, n)"
    | (block) p h' n' where "miniheap_alloc h n sz al = Some (Some p, h', n')" "heap_ok boot h' n'" "block_added h h' p sz al"
      "n' = n \<Longrightarrow> h' = h\<lparr>free_list := free_list h', headers := headers h', remaining := remaining h'\<rparr>"
proof -
  let ?sz = "request_size sz al" and ?al = "request_alignment al"
  have pow: "al AND (al - 1) = 0" using fits by (simp add: request_fits_def)
  have inv: "heap_inv h (boot \<union> arena_taken n)" "low_watermark h = 0" using ok by (simp_all add: heap_ok_def)
  show thesis
  proof (cases rule: alloc_locked_inv [OF inv(1) fits])
    case (2 p h')
    have lw: "low_watermark h' = 0" using 2 inv(2) by simp
    have "miniheap_alloc h n sz al = Some (Some p, h', n)" using 2(1) pow by (simp add: miniheap_alloc_def Let_def)
    moreover have "heap_ok boot h' n" using ok 2(2,3) lw by (simp add: heap_ok_def block_added_def)
    moreover have "h' = h\<lparr>free_list := free_list h', headers := headers h', remaining := remaining h'\<rparr>"
      by (subst 2(4)) (simp add: lw inv(2) [symmetric])
    ultimately show thesis using block 2(3) by blast
  next
    case 1
    show thesis
    proof (cases rule: heap_grow_inv [OF ok, of ?sz])
      case failed: 1
      then show thesis using none 1 pow by (simp add: miniheap_alloc_def Let_def)
    next
      case grown: (2 e h1 n1)
      have inv1: "heap_inv h1 (boot \<union> arena_taken n1)" "low_watermark h1 = 0" using grown(3) by (simp_all add: heap_ok_def)
      show thesis
      proof (cases rule: alloc_locked_inv [OF inv1(1) fits])
        case again: 1
        then show thesis using grown(6) by fastforce
      next
        case (2 p h')
        have "miniheap_alloc h n sz al = Some (Some p, h', n1)" using 1(1) grown(1,2) 2(1) pow by (simp add: miniheap_alloc_def Let_def)
        moreover have "heap_ok boot h' n1" using grown(3) 2(2,3,5) inv1(2) by (simp add: heap_ok_def block_added_def)
        moreover have "block_added h h' p sz al" using block_added_trans [OF grown(4,5) 2(3)] .
        ultimately show thesis using block grown(7) by blast
      qed
    qed
  qed
qed

end
