(* ===== verification/Heap_Trim.thy ===== *)
theory Heap_Trim
  imports Miniheap_Inv
begin

text \<open>
  Giving pages back to the page allocator: \<^verbatim>\<open>miniheap_trim\<close> returns whole pages of free memory and
  nothing else, and what is left of every chunk is still a chunk.
\<close>

section \<open>The pages of one chunk\<close>

text \<open>Aligned bounds within the chunk, and a result that leaves room for a chunk on both sides.\<close>

lemma trim_window_ok:
  assumes "trim_window start fin sp ep = Some (sp', ep')" "4096 dvd unat sp" "4096 dvd unat ep" "unat start \<le> unat sp" "unat ep \<le> unat fin"
  shows "4096 dvd unat sp' \<and> 4096 dvd unat ep' \<and> unat start \<le> unat sp' \<and> unat ep' \<le> unat fin \<and> unat sp' < unat ep' \<and>
    (unat sp' = unat start \<or> unat start + 12 \<le> unat sp') \<and> (unat ep' = unat fin \<or> unat ep' + 12 \<le> unat fin)"
  using assms
proof (induction start fin sp ep rule: trim_window.induct)
  case (1 start fin sp ep)
  have lt: "unat sp < unat ep" using 1(3) by (subst (asm) trim_window.simps) (auto simp: word_less_nat_alt split: if_splits)
  then have gt: "ep > sp" by (simp add: word_less_nat_alt)
  have step: "unat sp + 4096 \<le> unat ep"
  proof -
    obtain i j where ij: "unat sp = i * 4096" "unat ep = j * 4096" using 1(4,5) by (metis dvdE mult.commute)
    then have "i < j" using lt by simp
    then have "(i + 1) * 4096 \<le> j * 4096" by (intro mult_le_mono1) simp
    then show ?thesis using ij by simp
  qed
  have small: "unat ep < 2 ^ 32" using unsigned_less [of ep] by simp
  have up: "unat (sp + PAGE_SIZE) = unat sp + 4096" using step small by (subst unat_add_lem [THEN iffD1]) simp_all
  have down: "unat (ep - PAGE_SIZE) = unat ep - 4096" using step by (subst unat_sub) (simp_all add: word_le_nat_alt)
  have d1: "unat (sp - start) = unat sp - unat start" using 1(6) by (subst unat_sub) (simp_all add: word_le_nat_alt)
  have d2: "unat (fin - ep) = unat fin - unat ep" using 1(7) by (subst unat_sub) (simp_all add: word_le_nat_alt)
  consider (all) "start = sp" "ep = fin" | (front) "sp \<noteq> start" "sp - start < chunk_bytes" |
    (rear) "\<not> (start = sp \<and> ep = fin)" "\<not> (sp \<noteq> start \<and> sp - start < chunk_bytes)" "ep < fin" "fin - ep < chunk_bytes" |
    (stop) "\<not> (start = sp \<and> ep = fin)" "\<not> (sp \<noteq> start \<and> sp - start < chunk_bytes)" "\<not> (ep < fin \<and> fin - ep < chunk_bytes)" by blast
  then show ?case
  proof cases
    case all
    then show ?thesis using 1 gt lt by (subst (asm) (3) trim_window.simps) simp
  next
    case front
    have "trim_window start fin (sp + PAGE_SIZE) ep = Some (sp', ep')" using 1(3) front gt by (subst (asm) trim_window.simps) auto
    moreover have "4096 dvd unat (sp + PAGE_SIZE)" "unat start \<le> unat (sp + PAGE_SIZE)" using 1(4,6) up by simp_all
    ultimately show ?thesis using 1(1) front gt 1(5,7) by auto
  next
    case rear
    have "trim_window start fin sp (ep - PAGE_SIZE) = Some (sp', ep')" using 1(3) rear gt by (subst (asm) trim_window.simps) auto
    moreover have "4096 dvd unat (ep - PAGE_SIZE)" "unat (ep - PAGE_SIZE) \<le> unat fin" using 1(5,7) step down by (auto intro: dvd_diff_nat)
    ultimately show ?thesis using 1(2) rear gt 1(4,6) by auto
  next
    case stop
    have "sp' = sp" "ep' = ep" using 1(3) stop gt by (subst (asm) trim_window.simps, auto split: if_splits)+
    moreover have "unat sp = unat start \<or> unat start + 12 \<le> unat sp" using stop(2) 1(6) d1 by (auto simp: word_less_nat_alt)
    moreover have "unat ep = unat fin \<or> unat ep + 12 \<le> unat fin" using stop(3) 1(7) d2 by (auto simp: word_less_nat_alt)
    ultimately show ?thesis using 1(4-7) lt by simp
  qed
qed


lemma trim_chunk_ok:
  assumes c: "chunk_ok c" and high: "unat (fst c) + unat (snd c) + 4096 \<le> 2 ^ 32"
  obtains (kept) "trim_chunk c = Some ([c], None)"
    | (pages) kept sp ep where "trim_chunk c = Some (kept, Some (sp, ep))" "list_ok kept" "4096 dvd unat sp" "4096 dvd unat ep"
      "unat sp < unat ep" "{unat sp..<unat ep} \<subseteq> bytes_of c" "all_bytes kept = bytes_of c - {unat sp..<unat ep}"
proof -
  obtain start len where cl: "c = (start, len)" by (meson surj_pair)
  define fin where "fin = start + len"
  have fin: "unat fin = unat start + unat len" using chunk_end [OF c] by (simp add: cl fin_def)
  have ok: "4 dvd unat start" "4 dvd unat len" "12 \<le> unat len" "12 \<le> unat start" "unat fin < 2 ^ 32" using c fin by (simp_all add: chunk_ok_def cl)
  let ?sp = "ROUNDUP start PAGE_SIZE" and ?ep = "ROUNDDOWN fin PAGE_SIZE"
  have sp: "unat ?sp = (unat start + 4095) div 4096 * 4096" using unat_ROUNDUP [of 12 start] high by (simp add: cl)
  have ep: "unat ?ep = unat fin div 4096 * 4096" using unat_ROUNDDOWN [of 12 fin] by simp
  have le: "unat start \<le> unat ?sp" "unat ?ep \<le> unat fin" using sp ep round_up_bounds [of 4096 "unat start"] by simp_all
  have asrt: "fin > start" "?ep \<le> fin" "?sp \<ge> start" using le fin ok(3) by (simp_all add: word_less_nat_alt word_le_nat_alt)
  show thesis
  proof (cases "trim_window start fin ?sp ?ep")
    case None
    then show thesis using kept asrt by (simp add: trim_chunk_def Let_def cl fin_def)
  next
    case (Some w)
    obtain sp ep where w: "w = (sp, ep)" by (meson surj_pair)
    note t = trim_window_ok [OF Some [unfolded w] _ _ le]
    have d: "4096 dvd unat sp" "4096 dvd unat ep" "unat start \<le> unat sp" "unat ep \<le> unat fin" "unat sp < unat ep"
      "unat sp = unat start \<or> unat start + 12 \<le> unat sp" "unat ep = unat fin \<or> unat ep + 12 \<le> unat fin"
      using t sp ep by simp_all
    have d4: "4 dvd unat sp" "4 dvd unat ep" "4 dvd unat fin" using d(1,2) dvd_trans [of "4 :: nat" 4096] ok(1,2) fin by auto
    have front_len: "unat (sp - start) = unat sp - unat start" using d(3) by (subst unat_sub) (simp_all add: word_le_nat_alt)
    have rear_len: "unat (fin - ep) = unat fin - unat ep" using d(4) by (subst unat_sub) (simp_all add: word_le_nat_alt)
    define front where "front = (if sp = start then [] else [(start, sp - start)])"
    define rear where "rear = (if ep < fin then [(ep, fin - ep)] else [])"
    have rc: "ep < fin \<Longrightarrow> chunk_ok (ep, fin - ep)" using d(5,7) d4 rear_len ok(4,5) d(3) by (auto simp: chunk_ok_def word_less_nat_alt)
    have fc: "sp \<noteq> start \<Longrightarrow> chunk_ok (start, sp - start)"
      using d(4,5,6) d4 front_len ok by (auto simp: chunk_ok_def word_unat_eq_iff)
    have fb: "all_bytes front = {unat start..<unat sp}" using d(3) front_len by (auto simp: front_def bytes_of_def)
    have "\<not> ep < fin \<Longrightarrow> unat ep = unat fin" using d(4) by (simp add: word_less_nat_alt)
    then have rb: "all_bytes rear = {unat ep..<unat fin}" using rear_len d(4) by (auto simp: rear_def bytes_of_def)
    have "list_ok (front @ rear)"
      using fc rc fb rb d(5) by (auto simp: front_def rear_def gap_def bytes_of_def front_len rear_len)
    moreover have "all_bytes (front @ rear) = bytes_of c - {unat sp..<unat ep}"
      using fb rb d(3,4,5) fin by (auto simp: bytes_of_def cl)
    moreover have "{unat sp..<unat ep} \<subseteq> bytes_of c" using d(3,4) fin by (auto simp: bytes_of_def cl)
    moreover have "trim_chunk c = Some (front @ rear, Some (sp, ep))"
    proof -
      have "\<not> ep < fin \<Longrightarrow> ep = fin" using d(4) by (simp add: word_less_nat_alt word_unat_eq_iff)
      moreover have "len - (fin - ep) - (ep - sp) = sp - start" "len - (fin - sp) = sp - start" by (simp_all add: fin_def)
      ultimately show ?thesis
        using Some w asrt create_chunk_ok [OF rc] by (auto simp: trim_chunk_def Let_def cl fin_def [symmetric] front_def rear_def)
    qed
    ultimately show thesis using pages d by blast
  qed
qed

section \<open>The whole list\<close>

lemma page_free_ok:
  assumes aok: "arena_ok n" and boot: "\<forall>x \<in> boot. x < unat (n_base n) \<and> unat (n_base n) < x + 4096"
    and al: "4096 dvd unat sp" "4096 dvd unat ep" "unat sp < unat ep"
    and sub: "{unat sp..<unat ep} \<subseteq> boot \<union> arena_taken n"
  shows "\<exists>n'. page_free n sp ((ep - sp) div PAGE_SIZE) = Some n' \<and> arena_ok n' \<and> n' = n\<lparr>n_map := n_map n'\<rparr> \<and>
    arena_taken n' = arena_taken n - {unat sp..<unat ep} \<and> {unat sp..<unat ep} \<inter> boot = {}"
proof -
  let ?b = "unat (n_base n)" and ?N = "unat (n_pages n)" and ?k = "(ep - sp) div PAGE_SIZE"
  obtain i j b where ij: "unat sp = i * 4096" "unat ep = j * 4096" "?b = b * 4096" using al aok by (metis arena_ok_def dvdE mult.commute)
  have lt: "i < j" using ij al(3) by simp
  have len: "unat ?k = j - i"
  proof -
    have "unat (ep - sp) = (j - i) * 4096" using al(3) ij by (subst unat_sub) (simp_all add: word_le_nat_alt diff_mult_distrib)
    then show ?thesis by (simp add: unat_div)
  qed
  have "unat sp \<notin> boot"
  proof
    assume "unat sp \<in> boot"
    then have "i * 4096 < b * 4096" "b * 4096 < i * 4096 + 4096" using boot ij by metis+
    then show False by simp
  qed
  moreover have "unat sp \<in> {unat sp..<unat ep}" using al(3) by simp
  ultimately have "unat sp \<in> arena_taken n" using sub by blast
  then have bi: "b \<le> i" using ij by (simp add: arena_taken_def)
  have "unat ep - 1 \<in> {unat sp..<unat ep}" using al(3) by auto
  moreover have "unat ep - 1 \<notin> boot" using boot bi lt ij by fastforce
  ultimately have "unat ep - 1 \<in> arena_taken n" using sub by blast
  then have "(j * 4096 - 1 - b * 4096) div 4096 < ?N" using ij by (simp add: arena_taken_def)
  then have "j * 4096 - 1 - b * 4096 < ?N * 4096" by (simp add: div_less_iff_less_mult)
  then have "j - b \<le> ?N" using lt bi by simp
  then have "i - b + unat ?k \<le> ?N" unfolding len using lt bi by simp
  moreover have "unat sp = ?b + (i - b) * 4096" using ij bi by (simp add: diff_mult_distrib)
  moreover have "0 < ?k" using len lt by (simp add: word_less_nat_alt)
  moreover have "unat sp + unat ?k * 4096 = unat ep" unfolding len using ij lt by (simp add: diff_mult_distrib)
  moreover have "{unat sp..<unat ep} \<inter> boot = {}" using boot bi ij by fastforce
  ultimately show ?thesis using novm_free_pages_taken [OF aok, of sp "i - b" ?k] by (simp add: page_free_def)
qed

lemma gap_mono: "gap X Y \<Longrightarrow> X' \<subseteq> X \<Longrightarrow> Y' \<subseteq> Y \<Longrightarrow> gap X' Y'"
  by (auto simp: gap_def)

text \<open>
  The list \<open>fl\<close> trimmed to \<open>fl'\<close>: the bytes that leave the list are exactly those that the arena
  has no longer marked and the counter of free bytes has lost.
\<close>

definition trimmed :: "nat set \<Rightarrow> free_heap_chunk list \<Rightarrow> heap \<Rightarrow> novm_arena \<Rightarrow> free_heap_chunk list \<Rightarrow> heap \<Rightarrow> novm_arena \<Rightarrow> bool" where
  "trimmed boot fl h n fl' h' n' \<longleftrightarrow> list_ok fl' \<and> all_bytes fl' \<subseteq> all_bytes fl \<and>
     arena_ok n' \<and> (\<exists>m. n' = n\<lparr>n_map := m\<rparr>) \<and> arena_taken n' = arena_taken n - (all_bytes fl - all_bytes fl') \<and>
     boot \<inter> (all_bytes fl - all_bytes fl') = {} \<and> (\<exists>k. h' = h\<lparr>remaining := k\<rparr>) \<and>
     unat (remaining h') + card (all_bytes fl) = unat (remaining h) + card (all_bytes fl')"

lemma trimmed_keep:
  assumes t: "trimmed boot fl h n fl' h' n'" and ok: "list_ok (c # fl)"
  shows "trimmed boot (c # fl) h n (c # fl') h' n'"
proof -
  have sub: "all_bytes fl' \<subseteq> all_bytes fl" using t by (simp add: trimmed_def)
  have g: "gap (bytes_of c) (all_bytes fl)" "gap (bytes_of c) (all_bytes fl')" using ok gap_mono [OF _ subset_refl sub] by simp_all
  note dj = gap_disjoint [OF g(1)] gap_disjoint [OF g(2)]
  have "all_bytes (c # fl) - all_bytes (c # fl') = all_bytes fl - all_bytes fl'" using dj by auto
  moreover have "card (all_bytes (c # fl)) = unat (snd c) + card (all_bytes fl)" "card (all_bytes (c # fl')) = unat (snd c) + card (all_bytes fl')"
    using dj by (simp_all add: card_Un_disjoint)
  moreover have "list_ok (c # fl')" "all_bytes (c # fl') \<subseteq> all_bytes (c # fl)" using t ok g(2) sub by (auto simp: trimmed_def)
  ultimately show ?thesis using t by (simp add: trimmed_def)
qed

lemma trimmed_pages:
  assumes t: "trimmed boot fl (h\<lparr>remaining := remaining h - (ep - sp)\<rparr>) n1 fl' h' n'" and ok: "list_ok (c # fl)" "list_ok kept"
    and n1: "n1 = n\<lparr>n_map := m1\<rparr>" "arena_taken n1 = arena_taken n - {unat sp..<unat ep}" "{unat sp..<unat ep} \<inter> boot = {}"
    and P: "unat sp < unat ep" "{unat sp..<unat ep} \<subseteq> bytes_of c" "all_bytes kept = bytes_of c - {unat sp..<unat ep}"
    and rem: "unat (ep - sp) \<le> unat (remaining h)"
  shows "trimmed boot (c # fl) h n (kept @ fl') h' n'"
proof -
  let ?P = "{unat sp..<unat ep}" and ?h1 = "h\<lparr>remaining := remaining h - (ep - sp)\<rparr>"
  have sub: "all_bytes fl' \<subseteq> all_bytes fl" using t by (simp add: trimmed_def)
  have g: "gap (bytes_of c) (all_bytes fl)" using ok(1) by simp
  note dj = gap_disjoint [OF g]
  have d: "unat (ep - sp) = unat ep - unat sp" using P(1) by (subst unat_sub) (simp_all add: word_le_nat_alt)
  have rem1: "unat (remaining ?h1) = unat (remaining h) - (unat ep - unat sp)" using rem unfolding d [symmetric] by (simp add: unat_sub word_le_nat_alt)
  have len: "unat ep - unat sp \<le> unat (snd c)" using card_mono [OF finite_bytes(1) P(2)] by simp
  have diff: "all_bytes (c # fl) - all_bytes (kept @ fl') = ?P \<union> (all_bytes fl - all_bytes fl')" using P(2,3) dj sub by auto
  have "card (all_bytes kept) = unat (snd c) - (unat ep - unat sp)" unfolding P(3) using P(2) by (subst card_Diff_subset) simp_all
  moreover have "card (all_bytes (kept @ fl')) = card (all_bytes kept) + card (all_bytes fl')"
    unfolding all_bytes_simps using P(3) dj sub by (intro card_Un_disjoint) (simp, simp, blast)
  moreover have "card (all_bytes (c # fl)) = unat (snd c) + card (all_bytes fl)" using dj by (simp add: card_Un_disjoint)
  moreover have "unat (remaining h') + card (all_bytes fl) = unat (remaining ?h1) + card (all_bytes fl')" using t by (simp add: trimmed_def)
  ultimately have "unat (remaining h') + card (all_bytes (c # fl)) = unat (remaining h) + card (all_bytes (kept @ fl'))"
    using rem1 rem len d by linarith
  moreover have "list_ok (kept @ fl')" using ok(2) t P(3) gap_mono [OF g _ sub, of "all_bytes kept"] by (auto simp: trimmed_def)
  moreover have "all_bytes (kept @ fl') \<subseteq> all_bytes (c # fl)" using P(3) sub by auto
  moreover have "arena_taken n' = arena_taken n - (all_bytes (c # fl) - all_bytes (kept @ fl'))"
    using t n1(2) unfolding diff by (auto simp: trimmed_def)
  moreover have "boot \<inter> (all_bytes (c # fl) - all_bytes (kept @ fl')) = {}" using t n1(3) unfolding diff by (auto simp: trimmed_def)
  ultimately show ?thesis using t n1(1) by (auto simp: trimmed_def)
qed

lemma trim_loop_ok:
  assumes "list_ok fl" "\<forall>c \<in> set fl. unat (fst c) + unat (snd c) + 4096 \<le> 2 ^ 32" "arena_ok n"
    "\<forall>x \<in> boot. x < unat (n_base n) \<and> unat (n_base n) < x + 4096" "all_bytes fl \<subseteq> boot \<union> arena_taken n"
    "card (all_bytes fl) \<le> unat (remaining h)"
  shows "\<exists>fl' h' n'. trim_loop fl h n = Some (fl', h', n') \<and> trimmed boot fl h n fl' h' n'"
  using assms
proof (induction fl arbitrary: h n)
  case Nil
  have "\<exists>m. n = n\<lparr>n_map := m\<rparr>" "\<exists>k. h = h\<lparr>remaining := k\<rparr>" by (rule exI [of _ "n_map n"], simp) (rule exI [of _ "remaining h"], simp)
  then show ?case using Nil by (simp add: trimmed_def)
next
  case (Cons c fl)
  have ok: "chunk_ok c" "list_ok fl" and dj: "bytes_of c \<inter> all_bytes fl = {}" using Cons.prems(1) gap_disjoint by auto
  have cardc: "card (all_bytes (c # fl)) = unat (snd c) + card (all_bytes fl)" using dj by (simp add: card_Un_disjoint)
  have high: "unat (fst c) + unat (snd c) + 4096 \<le> 2 ^ 32" "\<forall>c \<in> set fl. unat (fst c) + unat (snd c) + 4096 \<le> 2 ^ 32"
    using Cons.prems(2) by simp_all
  show ?case
  proof (cases rule: trim_chunk_ok [OF ok(1) high(1)])
    case 1
    have "all_bytes fl \<subseteq> boot \<union> arena_taken n" "card (all_bytes fl) \<le> unat (remaining h)" using Cons.prems(5,6) cardc by auto
    then obtain fl' h' n' where r: "trim_loop fl h n = Some (fl', h', n')" "trimmed boot fl h n fl' h' n'"
      using Cons.IH [OF ok(2) high(2) Cons.prems(3,4)] by blast
    moreover have "trim_loop (c # fl) h n = Some (c # fl', h', n')" using 1 r(1) by simp
    ultimately show ?thesis using trimmed_keep [OF r(2) Cons.prems(1)] by blast
  next
    case (2 kept sp ep)
    let ?P = "{unat sp..<unat ep}" and ?h1 = "h\<lparr>remaining := remaining h - (ep - sp)\<rparr>"
    have "?P \<subseteq> boot \<union> arena_taken n" using 2(6) Cons.prems(5) by auto
    then obtain n1 where n1: "page_free n sp ((ep - sp) div PAGE_SIZE) = Some n1" "arena_ok n1" "n1 = n\<lparr>n_map := n_map n1\<rparr>"
      "arena_taken n1 = arena_taken n - ?P" "?P \<inter> boot = {}" using page_free_ok [OF Cons.prems(3,4) 2(3,4,5)] by blast
    have nb: "n_base n1 = n_base n" by (subst n1(3)) simp
    have len: "unat ep - unat sp \<le> unat (snd c)" using card_mono [OF finite_bytes(1) 2(6)] by simp
    have d: "unat (ep - sp) = unat ep - unat sp" using 2(5) by (subst unat_sub) (simp_all add: word_le_nat_alt)
    have le: "unat (ep - sp) \<le> unat (remaining h)" using d len cardc Cons.prems(6) by simp
    then have "unat (remaining ?h1) = unat (remaining h) - (unat ep - unat sp)" unfolding d [symmetric] by (simp add: unat_sub word_le_nat_alt)
    then have "card (all_bytes fl) \<le> unat (remaining ?h1)" using len cardc Cons.prems(6) by linarith
    moreover have "all_bytes fl \<subseteq> boot \<union> arena_taken n1" using Cons.prems(5) dj 2(6) unfolding n1(4) by auto
    ultimately obtain fl' h' n' where r: "trim_loop fl ?h1 n1 = Some (fl', h', n')" "trimmed boot fl ?h1 n1 fl' h' n'"
      using Cons.IH [OF ok(2) high(2) n1(2)] Cons.prems(4) unfolding nb by blast
    moreover have "trim_loop (c # fl) h n = Some (kept @ fl', h', n')" using 2(1) n1(1) r(1) by simp
    ultimately show ?thesis using trimmed_pages [OF r(2) Cons.prems(1) 2(2) n1(3,4,5) 2(5,6,7) le] by blast
  qed
qed

lemma heap_ok_high:
  assumes ok: "heap_ok boot h n" and c: "c \<in> set (free_list h)"
  shows "unat (fst c) + unat (snd c) + 4096 \<le> 2 ^ 32"
proof -
  have inv: "heap_inv h (boot \<union> arena_taken n)" using ok by (simp add: heap_ok_def)
  then have "chunk_ok c" using c list_ok_chunk [of "free_list h" c] by (simp add: heap_inv_def)
  note last = chunk_last_in [OF this]
  have "bytes_of c \<subseteq> boot \<union> arena_taken n" using inv c by (auto simp: heap_inv_def all_bytes_def)
  moreover have "x < unat (n_base n) + unat (n_pages n) * 4096" if "x \<in> boot \<union> arena_taken n" for x
    using that ok by (auto simp: heap_ok_def arena_taken_def div_less_iff_less_mult)
  ultimately have "unat (fst c) + unat (snd c) - 1 < unat (n_base n) + unat (n_pages n) * 4096" using last by blast
  moreover have "unat (n_base n) + unat (n_pages n) * 4096 + 4096 \<le> 2 ^ 32" using ok by (simp add: heap_ok_def)
  ultimately show ?thesis by linarith
qed

lemma miniheap_trim_inv:
  assumes ok: "heap_ok boot h n"
  shows "\<exists>h' n'. miniheap_trim h n = Some (h', n') \<and> heap_ok boot h' n' \<and> headers h' = headers h \<and>
    arena_taken n' \<subseteq> arena_taken n \<and> all_bytes (free_list h') \<subseteq> all_bytes (free_list h)"
proof -
  let ?fl = "free_list h"
  have inv: "heap_inv h (boot \<union> arena_taken n)" and aok: "arena_ok n"
    and boot: "\<forall>x \<in> boot. x < unat (n_base n) \<and> unat (n_base n) < x + 4096" using ok by (simp_all add: heap_ok_def)
  have pre: "list_ok ?fl" "all_bytes ?fl \<subseteq> boot \<union> arena_taken n" "card (all_bytes ?fl) \<le> unat (remaining h)"
    using inv by (auto simp: heap_inv_def)
  obtain fl' h' n' where r: "trim_loop ?fl h n = Some (fl', h', n')" "trimmed boot ?fl h n fl' h' n'"
    using trim_loop_ok [OF pre(1) _ aok boot pre(2,3)] heap_ok_high [OF ok] by blast
  have t: "list_ok fl'" "all_bytes fl' \<subseteq> all_bytes ?fl" "arena_ok n'" "arena_taken n' = arena_taken n - (all_bytes ?fl - all_bytes fl')"
    "boot \<inter> (all_bytes ?fl - all_bytes fl') = {}" using r(2) by (simp_all add: trimmed_def)
  let ?h = "h'\<lparr>free_list := fl'\<rparr>"
  have same: "headers h' = headers h" "free_list_addr h' = free_list_addr h" "low_watermark h' = low_watermark h"
    "n_base n' = n_base n" "n_pages n' = n_pages n" using r(2) by (auto simp: trimmed_def)
  have rem: "unat (remaining h') = card (all_bytes fl')" using r(2) inv by (simp add: trimmed_def heap_inv_def)
  have "boot \<union> arena_taken n' = all_bytes fl' \<union> live_bytes (headers h)"
  proof -
    have "boot \<union> arena_taken n = all_bytes ?fl \<union> live_bytes (headers h)" "all_bytes ?fl \<inter> live_bytes (headers h) = {}"
      using inv by (auto simp: heap_inv_def)
    then show ?thesis unfolding t(4) using t(2,5) by blast
  qed
  then have "heap_inv ?h (boot \<union> arena_taken n')" using inv t(1,2) rem same by (auto simp: heap_inv_def)
  then have "heap_ok boot ?h n'" using ok t(3) same by (simp add: heap_ok_def)
  moreover have "miniheap_trim h n = Some (?h, n')" using r(1) by (simp add: miniheap_trim_def)
  ultimately show ?thesis using same(1) t(2,4) by auto
qed

end
