(* ===== verification/Malloc.thy ===== *)
theory Malloc
  imports Heap_Trim
begin

text \<open>
  The C interface of the heap as a whole: every sequence of allocations, frees, delayed frees and
  trims, from the start of the kernel on.
\<close>

section \<open>Calls\<close>

datatype heap_call =
  Malloc u32
| Memalign u32 u32
| Calloc u32 u32
| Realloc u32 u32
| Free u32
| Delayed_free u32
| Trim

definition heap_do :: "heap_sys \<Rightarrow> heap_call \<Rightarrow> (u32 option \<times> heap_sys) option" where
  "heap_do s c =
     (case c of
        Malloc sz \<Rightarrow> malloc s sz
      | Memalign boundary sz \<Rightarrow> memalign s boundary sz
      | Calloc num sz \<Rightarrow> calloc s num sz
      | Realloc ptr sz \<Rightarrow> realloc s ptr sz
      | Free ptr \<Rightarrow> map_option (Pair None) (free s ptr)
      | Delayed_free ptr \<Rightarrow> map_option (Pair None) (heap_delayed_free s ptr)
      | Trim \<Rightarrow> map_option (Pair None) (heap_trim s))"

text \<open>A pointer the caller may free, and the number of bytes it may use behind it.\<close>

definition in_use :: "heap_sys \<Rightarrow> u32 \<Rightarrow> bool" where
  "in_use s p \<longleftrightarrow> p \<noteq> 0 \<and> headers (theheap s) (p - header_bytes) \<noteq> None \<and> p \<notin> set (delayed_free_list s)"

definition room :: "heap_sys \<Rightarrow> u32 \<Rightarrow> nat" where
  "room s p = (case headers (theheap s) (p - header_bytes) of None \<Rightarrow> 0 | Some b \<Rightarrow> unat (as_ptr b) + unat (as_size b) - unat p)"

text \<open>
  What the calls ask of their caller: sizes that do not wrap around, pointers in use, room for the list node
  of a delayed free, and for a reallocation no more bytes than the old block has.
\<close>

definition call_ok :: "heap_sys \<Rightarrow> heap_call \<Rightarrow> bool" where
  "call_ok s c =
     (case c of
        Malloc sz \<Rightarrow> request_fits sz 0
      | Memalign boundary sz \<Rightarrow> boundary AND (boundary - 1) = 0 \<longrightarrow> request_fits sz boundary
      | Calloc num sz \<Rightarrow> request_fits (num * sz) 0
      | Realloc ptr sz \<Rightarrow>
          (if ptr = 0 then request_fits sz 0 else in_use s ptr \<and> (sz = 0 \<or> request_fits sz 0 \<and> unat sz \<le> room s ptr))
      | Free ptr \<Rightarrow> ptr = 0 \<or> in_use s ptr
      | Delayed_free ptr \<Rightarrow> in_use s ptr \<and> 8 \<le> room s ptr
      | Trim \<Rightarrow> True)"

definition sys_ok :: "nat set \<Rightarrow> heap_sys \<Rightarrow> bool" where
  "sys_ok boot s \<longleftrightarrow> heap_ok boot (theheap s) (arena s) \<and> distinct (delayed_free_list s) \<and>
     (\<forall>p \<in> set (delayed_free_list s). p \<noteq> 0 \<and> headers (theheap s) (p - header_bytes) \<noteq> None)"

text \<open>The alignment used is a multiple of the one asked for.\<close>

lemma request_alignment_dvd:
  assumes "al AND (al - 1) = 0" "al \<noteq> 0"
  shows "request_alignment al \<noteq> 0 \<and> unat al dvd unat (request_alignment al)"
proof (cases "al < 16")
  case True
  obtain k where k: "unat al = 2 ^ k" using pow2_exists [of al] assms by (auto simp: and.commute)
  have "(2 :: nat) ^ k < 2 ^ 4" using True k by (simp add: word_less_nat_alt)
  then have "k < 4" by (simp only: power_strict_increasing_iff one_less_numeral_iff semiring_norm)
  then have "(2 :: nat) ^ k dvd 2 ^ 4" by (intro le_imp_power_dvd) simp
  then show ?thesis using True assms(2) k by (simp add: request_alignment_def word_neq_0_conv)
qed (use assms in \<open>auto simp: request_alignment_def\<close>)

section \<open>Delayed frees\<close>

lemma free_nodes_inv:
  assumes "heap_ok boot h n" "distinct nodes" "\<forall>p \<in> set nodes. p \<noteq> 0 \<and> headers h (p - header_bytes) \<noteq> None"
  shows "\<exists>h'. free_nodes nodes h = Some h' \<and> heap_ok boot h' n \<and>
    headers h' = headers h |` (- (\<lambda>p. p - header_bytes) ` set nodes)"
  using assms
proof (induction nodes arbitrary: h)
  case (Cons p nodes)
  obtain b where b: "headers h (p - header_bytes) = Some b" "p \<noteq> 0" using Cons.prems(3) by auto
  have "heap_inv h (boot \<union> arena_taken n)" using Cons.prems(1) by (simp add: heap_ok_def)
  from miniheap_free_inv [OF this b] obtain h1 where h1: "miniheap_free h p = Some h1" "heap_inv h1 (boot \<union> arena_taken n)"
    "free_list_addr h1 = free_list_addr h" "headers h1 = (headers h)(p - header_bytes := None)"
    "h1 = h\<lparr>free_list := free_list h1, headers := headers h1, remaining := remaining h1\<rparr>" by blast
  have "low_watermark h1 = low_watermark h" by (subst h1(5)) simp
  then have ok1: "heap_ok boot h1 n" using Cons.prems(1) h1(2,3) by (simp add: heap_ok_def)
  have "q \<noteq> 0 \<and> headers h1 (q - header_bytes) \<noteq> None" if q: "q \<in> set nodes" for q
    using Cons.prems(2,3) q h1(4) by auto
  then obtain h' where r: "free_nodes nodes h1 = Some h'" "heap_ok boot h' n"
    "headers h' = headers h1 |` (- (\<lambda>p. p - header_bytes) ` set nodes)" using Cons.IH [OF ok1] Cons.prems(2) by auto
  have "headers h' = headers h |` (- (\<lambda>p. p - header_bytes) ` set (p # nodes))"
    unfolding r(3) h1(4) by (auto simp: restrict_map_def fun_eq_iff)
  then show ?case using h1(1) r(1,2) by simp
qed (auto simp: restrict_map_def)

lemma settle_delayed_inv:
  assumes "sys_ok boot s"
  shows "\<exists>s1. settle_delayed s = Some s1 \<and> sys_ok boot s1 \<and> delayed_free_list s1 = [] \<and> arena s1 = arena s \<and>
    headers (theheap s1) = headers (theheap s) |` (- (\<lambda>p. p - header_bytes) ` set (delayed_free_list s))"
proof (cases "delayed_free_list s = []")
  case True
  then show ?thesis using assms by (auto simp: settle_delayed_def restrict_map_def)
next
  case False
  obtain h where "free_nodes (rev (delayed_free_list s)) (theheap s) = Some h" "heap_ok boot h (arena s)"
    "headers h = headers (theheap s) |` (- (\<lambda>p. p - header_bytes) ` set (delayed_free_list s))"
    using free_nodes_inv [of boot "theheap s" "arena s" "rev (delayed_free_list s)"] assms by (auto simp: sys_ok_def)
  then show ?thesis using False by (simp add: settle_delayed_def heap_free_delayed_list_def sys_ok_def)
qed

lemma settled_in_use:
  assumes "in_use s p" "headers h = headers (theheap s) |` (- (\<lambda>p. p - header_bytes) ` set (delayed_free_list s))"
  shows "headers h (p - header_bytes) = headers (theheap s) (p - header_bytes)"
  using assms by (auto simp: in_use_def restrict_map_def)

section \<open>Every call keeps the invariant\<close>

lemma malloc_memalign: "malloc s sz = memalign s 0 sz" "calloc s num sz = memalign s 0 (num * sz)"
  by (simp_all add: malloc_def calloc_def memalign_def Let_def)

lemma memalign_inv:
  assumes ok: "sys_ok boot s" and fits: "request_fits sz al"
  obtains (none) s1 where "memalign s al sz = Some (None, s1)" "sys_ok boot s1" "settle_delayed s = Some s1"
      "\<forall>c \<in> set (free_list (theheap s1)). snd c < request_size sz al"
      "page_alloc (arena s1) (ROUNDUP (request_size sz al) PAGE_SIZE div PAGE_SIZE) = (None, arena s1)"
    | (block) p s1 s' where "memalign s al sz = Some (Some p, s')" "sys_ok boot s'" "settle_delayed s = Some s1" "sys_ok boot s1"
      "delayed_free_list s1 = []" "delayed_free_list s' = []" "block_added (theheap s1) (theheap s') p sz al"
      "arena s' = arena s1 \<Longrightarrow> s' = s1\<lparr>theheap := (theheap s1)\<lparr>free_list := free_list (theheap s'), headers := headers (theheap s'), remaining := remaining (theheap s')\<rparr>\<rparr>"
proof -
  obtain s1 where s1: "settle_delayed s = Some s1" "sys_ok boot s1" "delayed_free_list s1 = []" using settle_delayed_inv [OF ok] by blast
  have hok: "heap_ok boot (theheap s1) (arena s1)" using s1(2) by (simp add: sys_ok_def)
  show thesis
  proof (cases rule: miniheap_alloc_inv [OF hok fits])
    case 1
    then show thesis using none [of s1] s1 by (simp add: memalign_def)
  next
    case (2 p h' n')
    let ?s = "s1\<lparr>theheap := h', arena := n'\<rparr>"
    have "memalign s al sz = Some (Some p, ?s)" using s1(1) 2(1) by (simp add: memalign_def)
    moreover have "sys_ok boot ?s" using s1(3) 2(2) by (simp add: sys_ok_def)
    moreover have "?s = s1\<lparr>theheap := (theheap s1)\<lparr>free_list := free_list (theheap ?s), headers := headers (theheap ?s), remaining := remaining (theheap ?s)\<rparr>\<rparr>"
      if "arena ?s = arena s1" using 2(4) that by simp
    ultimately show thesis using block [of p ?s s1] s1 2(3) by simp
  qed
qed

lemma memalign_call:
  assumes "sys_ok boot s" "al AND (al - 1) = 0 \<longrightarrow> request_fits sz al"
  shows "\<exists>r s'. memalign s al sz = Some (r, s') \<and> sys_ok boot s'"
proof (cases "al AND (al - 1) = 0")
  case True
  then have "request_fits sz al" using assms(2) by simp
  then show ?thesis by (cases rule: memalign_inv [OF assms(1)]) blast+
next
  case False
  then show ?thesis using settle_delayed_inv [OF assms(1)] by (auto simp: memalign_def miniheap_alloc_def)
qed

lemma free_call:
  assumes ok: "sys_ok boot s" and p: "in_use s ptr"
  shows "\<exists>h'. miniheap_free (theheap s) ptr = Some h' \<and> sys_ok boot (s\<lparr>theheap := h'\<rparr>) \<and>
    headers h' = (headers (theheap s))(ptr - header_bytes := None) \<and>
    h' = (theheap s)\<lparr>free_list := free_list h', headers := headers h', remaining := remaining h'\<rparr>"
proof -
  obtain b where b: "headers (theheap s) (ptr - header_bytes) = Some b" "ptr \<noteq> 0" "ptr \<notin> set (delayed_free_list s)"
    using p by (auto simp: in_use_def)
  have hok: "heap_ok boot (theheap s) (arena s)" using ok by (simp add: sys_ok_def)
  then have "heap_inv (theheap s) (boot \<union> arena_taken (arena s))" by (simp add: heap_ok_def)
  from miniheap_free_inv [OF this b(1,2)] obtain h' where h': "miniheap_free (theheap s) ptr = Some h'"
    "heap_inv h' (boot \<union> arena_taken (arena s))" "free_list_addr h' = free_list_addr (theheap s)"
    "headers h' = (headers (theheap s))(ptr - header_bytes := None)"
    "h' = (theheap s)\<lparr>free_list := free_list h', headers := headers h', remaining := remaining h'\<rparr>" by blast
  have "low_watermark h' = low_watermark (theheap s)" by (subst h'(5)) simp
  then have "heap_ok boot h' (arena s)" using hok h'(2,3) by (simp add: heap_ok_def)
  then have "sys_ok boot (s\<lparr>theheap := h'\<rparr>)" using ok h'(4) b(3) by (auto simp: sys_ok_def)
  then show ?thesis using h' by blast
qed

lemma realloc_call:
  assumes ok: "sys_ok boot s" and p: "in_use s ptr" "sz = 0 \<or> request_fits sz 0 \<and> unat sz \<le> room s ptr"
  shows "\<exists>r s'. realloc s ptr sz = Some (r, s') \<and> sys_ok boot s'"
proof -
  obtain s1 where s1: "settle_delayed s = Some s1" "sys_ok boot s1" "delayed_free_list s1 = []"
    "headers (theheap s1) = headers (theheap s) |` (- (\<lambda>p. p - header_bytes) ` set (delayed_free_list s))"
    using settle_delayed_inv [OF ok] by blast
  have nz: "ptr \<noteq> 0" using p(1) by (simp add: in_use_def)
  have hd: "headers (theheap s1) (ptr - header_bytes) = headers (theheap s) (ptr - header_bytes)" by (rule settled_in_use [OF p(1) s1(4)])
  then obtain b where b: "headers (theheap s1) (ptr - header_bytes) = Some b" using p(1) by (auto simp: in_use_def)
  have use1: "in_use s1 ptr" using nz b s1(3) by (simp add: in_use_def)
  show ?thesis
  proof (cases "sz = 0")
    case True
    then show ?thesis using free_call [OF s1(2) use1] s1(1,2) nz by (auto simp: realloc_def miniheap_realloc_def sys_ok_def)
  next
    case False
    then have fits: "request_fits sz 0" and rm: "unat sz \<le> room s ptr" using p(2) by simp_all
    have hok: "heap_ok boot (theheap s1) (arena s1)" using s1(2) by (simp add: sys_ok_def)
    show ?thesis
    proof (cases rule: miniheap_alloc_inv [OF hok fits])
      case 1
      then show ?thesis using s1 nz False by (simp add: realloc_def miniheap_realloc_def)
    next
      case (2 q h' n')
      let ?s2 = "s1\<lparr>theheap := h', arena := n'\<rparr>"
      have b': "headers h' (ptr - header_bytes) = Some b" using 2(3) b by (auto simp: block_added_def)
      have "headers (theheap s) (ptr - header_bytes) = Some b" using hd b by simp
      then have "unat sz \<le> unat (as_ptr b) + unat (as_size b) - unat ptr" using rm by (simp add: room_def)
      moreover have "unat sz \<noteq> 0" using False by (simp add: unat_eq_0)
      ultimately have fit: "\<not> unat ptr + unat sz > unat (as_ptr b) + unat (as_size b)" by linarith
      have "sys_ok boot ?s2" "in_use ?s2 ptr" using 2(2) s1(3) b' nz by (simp_all add: sys_ok_def in_use_def)
      then obtain h2 where h2: "miniheap_free h' ptr = Some h2" "sys_ok boot (?s2\<lparr>theheap := h2\<rparr>)" using free_call [of boot ?s2 ptr] by auto
      have "realloc s ptr sz = Some (Some q, ?s2\<lparr>theheap := h2\<rparr>)"
        using s1(1) nz False 2(1) b' fit h2(1) by (simp add: realloc_def miniheap_realloc_def)
      then show ?thesis using h2(2) by blast
    qed
  qed
qed

lemma delayed_call:
  assumes ok: "sys_ok boot s" and p: "in_use s ptr" "8 \<le> room s ptr"
  shows "\<exists>s'. heap_delayed_free s ptr = Some s' \<and> sys_ok boot s'"
proof -
  obtain b where b: "headers (theheap s) (ptr - header_bytes) = Some b" "ptr \<noteq> 0" "ptr \<notin> set (delayed_free_list s)"
    using p(1) by (auto simp: in_use_def)
  have "\<not> unat ptr + 8 > unat (as_ptr b) + unat (as_size b)" using p(2) b(1) by (simp add: room_def)
  then have "heap_delayed_free s ptr = Some (s\<lparr>delayed_free_list := ptr # delayed_free_list s\<rparr>)" using b(1) by (simp add: heap_delayed_free_def)
  then show ?thesis using ok b by (auto simp: sys_ok_def)
qed

lemma trim_call:
  assumes ok: "sys_ok boot s"
  shows "\<exists>s'. heap_trim s = Some s' \<and> sys_ok boot s'"
proof -
  obtain s1 where s1: "settle_delayed s = Some s1" "sys_ok boot s1" "delayed_free_list s1 = []" using settle_delayed_inv [OF ok] by blast
  then have "heap_ok boot (theheap s1) (arena s1)" by (simp add: sys_ok_def)
  from miniheap_trim_inv [OF this] show ?thesis using s1 by (auto simp: heap_trim_def sys_ok_def)
qed

lemma heap_do_inv:
  assumes "sys_ok boot s" "call_ok s c"
  shows "\<exists>r s'. heap_do s c = Some (r, s') \<and> sys_ok boot s'"
proof (cases c)
  case (Realloc ptr sz)
  show ?thesis
  proof (cases "ptr = 0")
    case True
    then have "realloc s ptr sz = memalign s 0 sz" by (simp add: realloc_def miniheap_realloc_def memalign_def)
    then show ?thesis using memalign_call [OF assms(1), of 0 sz] assms(2) Realloc True by (simp add: heap_do_def call_ok_def)
  qed (use assms Realloc realloc_call in \<open>auto simp: heap_do_def call_ok_def\<close>)
next
  case (Free ptr)
  show ?thesis
  proof (cases "ptr = 0")
    case False
    then show ?thesis using assms Free free_call [OF assms(1), of ptr] by (auto simp: heap_do_def call_ok_def free_def)
  qed (use assms Free in \<open>auto simp: heap_do_def free_def miniheap_free_def\<close>)
next
  case (Delayed_free ptr)
  then show ?thesis using assms delayed_call by (fastforce simp: heap_do_def call_ok_def)
next
  case Trim
  then show ?thesis using trim_call [OF assms(1)] by (auto simp: heap_do_def)
qed (use assms memalign_call in \<open>simp_all add: heap_do_def call_ok_def malloc_memalign\<close>)

section \<open>Start-up\<close>

text \<open>The heap starts with the rest of the page behind the kernel, or with a page when that is too small.\<close>

definition boot_bytes :: "u32 \<Rightarrow> nat set" where
  "boot_bytes mem_start =
     (let base = (unat mem_start + 4095) div 4096 * 4096
      in if base - unat mem_start \<ge> 64 then {(unat mem_start + 3) div 4 * 4..<base} else {})"

definition boot_ok :: "u32 \<Rightarrow> u32 \<Rightarrow> bool" where
  "boot_ok head mem_start \<longleftrightarrow> 0x88000000 \<le> unat mem_start \<and> unat mem_start + 8192 \<le> 0x8A000000 \<and> unat head < unat mem_start"

lemma miniheap_init_ok:
  assumes c: "chunk_ok (p, len)" and head: "unat head < unat p"
    and p: "unat p = (unat ptr0 + 3) div 4 * 4" "unat ptr0 + unat len0 = unat p + unat len" "unat ptr0 + 4 \<le> 2 ^ 32"
  shows "\<exists>h. miniheap_init head ptr0 len0 = Some h \<and> heap_inv h (bytes_of (p, len)) \<and> headers h = Map.empty \<and>
    free_list_addr h = head \<and> low_watermark h = 0 \<and> free_list h = [(p, len)]"
proof -
  let ?h = "\<lparr>h_base = p, h_len = len, remaining = 0, low_watermark = 0, free_list = [], free_list_addr = head, headers = Map.empty\<rparr>"
  have inv: "heap_inv ?h {}" by (simp add: heap_inv_def headers_ok_def live_bytes_def)
  have ru: "ROUNDUP ptr0 4 = p" using unat_ROUNDUP [of 2 ptr0] p(1,3) by (simp add: word_unat_eq_iff)
  have le: "unat ptr0 \<le> unat p" using p(1) round_up_bounds [of 4 "unat ptr0"] by simp
  have d: "unat (p - ptr0) = unat p - unat ptr0" using le by (subst unat_sub) (simp_all add: word_le_nat_alt)
  have len: "12 \<le> unat len" using c by (simp add: chunk_ok_def)
  have lt: "p - ptr0 < len0" using p(2) d le len by (simp add: word_less_nat_alt)
  have "unat (len0 - (p - ptr0)) = unat len0 - unat (p - ptr0)" using lt by (intro unat_sub) (rule less_imp_le)
  then have l: "len0 - (p - ptr0) = len" using p(2) d le by (simp add: word_unat_eq_iff)
  have al: "ptr0 = p \<and> len0 = len" if "ptr0 mod 4 = 0"
  proof -
    have "unat (ptr0 mod 4) = 0" using that by (simp only: unsigned_0)
    then have "4 dvd unat ptr0" by (simp add: unat_mod dvd_eq_mod_eq_0)
    then have "unat p = unat ptr0" using p(1) by auto
    then show ?thesis using p(2) by (simp add: word_unat_eq_iff)
  qed
  have pos: "len > 0" using len by (simp add: word_less_nat_alt)
  have hd: "\<forall>x \<in> bytes_of (p, len). unat (free_list_addr ?h) < x" using head by (auto simp: bytes_of_def)
  obtain q fl' where i: "heap_insert_free_chunk ?h (p, len) = Some (q, ?h\<lparr>remaining := len, free_list := fl'\<rparr>)"
    "heap_inv (?h\<lparr>remaining := len, free_list := fl'\<rparr>) (bytes_of (p, len))" using insert_inv [OF inv c _ hd] by auto
  have "list_ok fl'" "all_bytes fl' = all_bytes [(p, len)]" using i(2) by (auto simp: heap_inv_def live_bytes_def)
  then have "fl' = [(p, len)]" using list_ok_unique [of fl' "[(p, len)]"] c by simp
  moreover have "miniheap_init head ptr0 len0 = Some (?h\<lparr>remaining := len, free_list := fl'\<rparr>)"
    using ru lt l al pos create_chunk_ok [OF c] i(1)
    by (cases "ptr0 mod 4 = 0") (simp_all add: miniheap_init_def Let_def word_neq_0_conv)
  ultimately show ?thesis using i(2) by simp
qed

lemma heap_init_area:
  assumes boot: "boot_ok head m" and big: "n_base (novm_init m) - m \<ge> 64"
  shows "\<exists>s. heap_init head (novm_init m) = Some s \<and> sys_ok (boot_bytes m) s \<and> headers (theheap s) = Map.empty \<and> delayed_free_list s = []"
proof -
  let ?n = "novm_init m" and ?p = "ROUNDUP m 4"
  let ?len = "n_base ?n - ?p"
  have m: "0x88000000 \<le> unat m" "unat m + 4096 \<le> 0x8A000000" "unat head < unat m" "unat m + 8192 \<le> 0x8A000000" using boot by (simp_all add: boot_ok_def)
  note init = novm_init_ok [OF m(1,2)]
  have base: "unat (n_base ?n) = (unat m + 4095) div 4096 * 4096" using init by simp
  have le: "unat m \<le> unat (n_base ?n)" "unat (n_base ?n) \<le> unat m + 4095" using round_up_bounds [of 4096 "unat m"] base by simp_all
  have gap: "unat (n_base ?n - m) = unat (n_base ?n) - unat m" using le by (subst unat_sub) (simp_all add: word_le_nat_alt)
  then have big': "unat m + 64 \<le> unat (n_base ?n)" using big by (simp add: word_le_nat_alt)
  have p: "unat ?p = (unat m + 3) div 4 * 4" using unat_ROUNDUP [of 2 m] m(2) by simp
  have pm: "unat m \<le> unat ?p" "unat ?p \<le> unat m + 3" using round_up_bounds [of 4 "unat m"] p by simp_all
  have len: "unat ?len = unat (n_base ?n) - unat ?p" using pm big' by (subst unat_sub) (simp_all add: word_le_nat_alt)
  have "4 dvd unat ?p" "4 dvd unat (n_base ?n)" using p base by simp_all
  then have c: "chunk_ok (?p, ?len)" using len pm big' m le by (auto simp: chunk_ok_def)
  have bb: "bytes_of (?p, ?len) = boot_bytes m" using len p pm big' base by (auto simp: bytes_of_def boot_bytes_def Let_def)
  obtain h where h: "miniheap_init head m (n_base ?n - m) = Some h" "heap_inv h (boot_bytes m)" "headers h = Map.empty"
    "free_list_addr h = head" "low_watermark h = 0"
    using miniheap_init_ok [OF c _ p, of head "n_base ?n - m"] m pm len gap big' unfolding bb by auto
  let ?n' = "?n\<lparr>unaligned_area := None, unaligned_size := 0\<rparr>"
  have "arena_taken ?n' = arena_taken ?n" "arena_ok ?n' = arena_ok ?n" by (simp_all add: arena_taken_def arena_ok_def)
  then have same: "arena_taken ?n' = {}" "arena_ok ?n'" using init by simp_all
  have "heap_ok (boot_bytes m) h ?n'"
    using same h m le big' init bb [symmetric] pm len by (auto simp: heap_ok_def bytes_of_def)
  moreover have "heap_init head ?n = Some \<lparr>theheap = h, arena = ?n', delayed_free_list = []\<rparr>"
    using init big h(1) by (simp add: heap_init_def page_first_alloc_def novm_alloc_unaligned_def)
  ultimately show ?thesis using h(3) by (simp add: sys_ok_def)
qed

lemma heap_init_page:
  assumes boot: "boot_ok head m" and small: "\<not> n_base (novm_init m) - m \<ge> 64"
  shows "\<exists>s. heap_init head (novm_init m) = Some s \<and> sys_ok (boot_bytes m) s \<and> headers (theheap s) = Map.empty \<and> delayed_free_list s = []"
proof -
  let ?n = "novm_init m"
  have m: "0x88000000 \<le> unat m" "unat m + 4096 \<le> 0x8A000000" "unat head < unat m" "unat m + 8192 \<le> 0x8A000000" using boot by (simp_all add: boot_ok_def)
  note init = novm_init_ok [OF m(1,2)]
  have aok: "arena_ok ?n" and none: "arena_taken ?n = {}" using init by simp_all
  have base: "unat (n_base ?n) = (unat m + 4095) div 4096 * 4096" using init by simp
  have le: "unat m \<le> unat (n_base ?n)" "unat (n_base ?n) \<le> unat m + 4095" using round_up_bounds [of 4096 "unat m"] base by simp_all
  have gap: "unat (n_base ?n - m) = unat (n_base ?n) - unat m" using le by (subst unat_sub) (simp_all add: word_le_nat_alt)
  have bb: "boot_bytes m = {}" using small gap base by (auto simp: boot_bytes_def Let_def word_le_nat_alt)
  have pages: "1 \<le> unat (n_pages ?n)" using init le m(4) by (cases "unat (n_pages ?n)") simp_all
  have "n_map ?n ! 0 = 0" using none pages unfolding arena_taken_def by (auto dest: spec [of _ "unat (n_base ?n)"])
  then have run: "free_run (n_map ?n) 1 0" by (simp add: free_run_def)
  obtain r n' where a: "page_alloc ?n 1 = (r, n')" by (meson surj_pair)
  have "r \<noteq> None"
  proof
    assume "r = None"
    then have "novm_alloc_helper ?n 1 = (None, n')" using a by (simp add: page_alloc_def novm_alloc_pages_def)
    from novm_alloc_helper_None [OF this] run pages show False by (auto simp: word_less_nat_alt)
  qed
  then obtain p where p: "page_alloc ?n 1 = (Some p, n')" using a by auto
  note law = novm.alloc_law [OF aok p]
  have run: "page_run p 1 = bytes_of (p, PAGE_SIZE)" by (simp add: page_run_def bytes_of_def)
  have pb: "unat (n_base ?n) \<le> unat p" using law by (auto simp: page_run_def arena_range_def)
  have p4: "4 dvd unat p" using law dvd_trans [of "4 :: nat" 4096] by auto
  then have c: "chunk_ok (p, PAGE_SIZE)" using law pb le m by (auto simp: chunk_ok_def)
  have "unat p = (unat p + 3) div 4 * 4" using p4 by auto
  then obtain h where h: "miniheap_init head p PAGE_SIZE = Some h" "heap_inv h (bytes_of (p, PAGE_SIZE))" "headers h = Map.empty"
    "free_list_addr h = head" "low_watermark h = 0"
    using miniheap_init_ok [OF c, of head p PAGE_SIZE] m pb le law by auto
  have "n_base n' = n_base ?n \<and> n_pages n' = n_pages ?n" by (subst (1 2) page_alloc_same [OF aok p]) simp
  then have "heap_ok (boot_bytes m) h n'" using h m le law none run init bb by (auto simp: heap_ok_def)
  moreover have "heap_init head ?n = Some \<lparr>theheap = h, arena = n', delayed_free_list = []\<rparr>"
    using init small h(1) p by (simp add: heap_init_def page_first_alloc_def novm_alloc_unaligned_def page_alloc_def)
  ultimately show ?thesis using h(3) by (simp add: sys_ok_def)
qed

section \<open>Reachable heaps\<close>

lemma heap_init_ok:
  "boot_ok head m \<Longrightarrow>
    \<exists>s. heap_init head (novm_init m) = Some s \<and> sys_ok (boot_bytes m) s \<and> headers (theheap s) = Map.empty \<and> delayed_free_list s = []"
  using heap_init_area heap_init_page by blast

inductive heap_reach :: "u32 \<Rightarrow> u32 \<Rightarrow> heap_sys \<Rightarrow> bool" for head mem_start where
  start: "heap_init head (novm_init mem_start) = Some s \<Longrightarrow> heap_reach head mem_start s"
| call: "heap_reach head mem_start s \<Longrightarrow> call_ok s c \<Longrightarrow> heap_do s c = Some (r, s') \<Longrightarrow> heap_reach head mem_start s'"

lemma heap_reach_ok:
  assumes "heap_reach head m s" "boot_ok head m"
  shows "sys_ok (boot_bytes m) s"
  using assms
proof (induction rule: heap_reach.induct)
  case (start s)
  then show ?case using heap_init_ok by fastforce
next
  case (call s c r s')
  then show ?case using heap_do_inv [of "boot_bytes m" s c] by auto
qed

text \<open>No call moves the arena.\<close>

definition same_arena :: "novm_arena \<Rightarrow> novm_arena \<Rightarrow> bool" where
  "same_arena n n' \<longleftrightarrow> n_base n' = n_base n \<and> n_pages n' = n_pages n"

lemma same_arena_refl [simp]: "same_arena n n"
  by (simp add: same_arena_def)

lemma same_arena_trans: "same_arena a b \<Longrightarrow> same_arena b c \<Longrightarrow> same_arena a c"
  by (simp add: same_arena_def)

lemma page_alloc_arena: "page_alloc n k = (r, n') \<Longrightarrow> same_arena n n'"
  by (auto simp: page_alloc_def novm_alloc_pages_def novm_alloc_helper_def same_arena_def split: if_splits option.splits)

lemma page_free_arena: "page_free n p k = Some n' \<Longrightarrow> same_arena n n'"
  by (auto simp: page_free_def novm_free_pages_def same_arena_def Let_def bind_eq_Some_conv split: if_splits)

lemma heap_grow_arena: "heap_grow h n sz = Some (e, h', n') \<Longrightarrow> same_arena n n'"
  using page_alloc_arena by (auto simp: heap_grow_def Let_def bind_eq_Some_conv split: prod.splits option.splits if_splits)

lemma miniheap_alloc_arena: "miniheap_alloc h n sz al = Some (r, h', n') \<Longrightarrow> same_arena n n'"
  using heap_grow_arena by (fastforce simp: miniheap_alloc_def Let_def bind_eq_Some_conv split: prod.splits option.splits if_splits)

lemma miniheap_realloc_arena: "miniheap_realloc h n p sz = Some (r, h', n') \<Longrightarrow> same_arena n n'"
  using miniheap_alloc_arena by (fastforce simp: miniheap_realloc_def bind_eq_Some_conv split: prod.splits option.splits if_splits)

lemma trim_loop_arena: "trim_loop fl h n = Some (fl', h', n') \<Longrightarrow> same_arena n n'"
proof (induction fl arbitrary: h n fl')
  case (Cons c fl)
  then show ?case
    by (auto simp: bind_eq_Some_conv split: prod.splits option.splits dest!: page_free_arena) (blast intro: same_arena_trans)
qed simp

lemma settle_delayed_arena: "settle_delayed s = Some s' \<Longrightarrow> arena s' = arena s"
  by (auto simp: settle_delayed_def heap_free_delayed_list_def bind_eq_Some_conv split: if_splits)

lemma memalign_arena: "memalign s al sz = Some (r, s') \<Longrightarrow> same_arena (arena s) (arena s')"
  using settle_delayed_arena miniheap_alloc_arena by (fastforce simp: memalign_def bind_eq_Some_conv split: prod.splits)

lemma heap_do_arena:
  assumes "heap_do s c = Some (r, s')"
  shows "same_arena (arena s) (arena s')"
proof (cases c)
  case (Realloc p sz)
  then show ?thesis using assms settle_delayed_arena miniheap_realloc_arena
    by (fastforce simp: heap_do_def realloc_def bind_eq_Some_conv split: prod.splits)
next
  case Trim
  then show ?thesis using assms settle_delayed_arena trim_loop_arena
    by (fastforce simp: heap_do_def heap_trim_def miniheap_trim_def bind_eq_Some_conv split: prod.splits)
qed (use assms memalign_arena in \<open>auto simp: heap_do_def malloc_memalign free_def heap_delayed_free_def bind_eq_Some_conv split: if_splits\<close>)

lemma heap_reach_arena:
  assumes "heap_reach head m s"
  shows "same_arena (novm_init m) (arena s)"
  using assms
proof (induction rule: heap_reach.induct)
  case (start s)
  then show ?case
    by (auto simp: heap_init_def page_first_alloc_def novm_alloc_unaligned_def bind_eq_Some_conv same_arena_def page_alloc_def [symmetric]
        split: option.splits prod.splits dest!: page_alloc_arena)
next
  case (call s c r s')
  then show ?case using heap_do_arena same_arena_trans by blast
qed

lemma heap_reach_memory:
  assumes r: "heap_reach head m s" and boot: "boot_ok head m"
  shows "boot_bytes m \<union> arena_taken (arena s) \<subseteq> {unat m..<0x8A000000}"
proof -
  have m: "0x88000000 \<le> unat m" "unat m + 4096 \<le> 0x8A000000" using boot by (simp_all add: boot_ok_def)
  note init = novm_init_ok [OF m]
  have same: "n_base (arena s) = n_base (novm_init m)" "n_pages (arena s) = n_pages (novm_init m)"
    using heap_reach_arena [OF r] by (simp_all add: same_arena_def)
  have base: "unat m \<le> unat (n_base (novm_init m))" using init round_up_bounds [of 4096 "unat m"] by simp
  have top: "unat (n_base (novm_init m)) \<le> 0x8A000000" using init by linarith
  have "arena_taken (arena s) \<subseteq> {unat m..<0x8A000000}"
  proof
    fix x assume "x \<in> arena_taken (arena s)"
    then have "unat (n_base (novm_init m)) \<le> x" "x < unat (n_base (novm_init m)) + unat (n_pages (novm_init m)) * 4096"
      unfolding arena_taken_def same by (auto simp: div_less_iff_less_mult)
    then show "x \<in> {unat m..<0x8A000000}" using base init by simp
  qed
  moreover have "unat m \<le> (unat m + 3) div 4 * 4" using round_up_bounds [of 4 "unat m"] by simp
  then have "boot_bytes m \<subseteq> {unat m..<0x8A000000}" using top init by (auto simp: boot_bytes_def Let_def)
  ultimately show ?thesis by blast
qed

section \<open>The free list is determined by the blocks\<close>

lemma heap_inv_unique:
  assumes "heap_inv h pool" "heap_inv h' pool" "headers h' = headers h"
  shows "free_list h' = free_list h \<and> remaining h' = remaining h"
proof -
  have "all_bytes (free_list h) = pool - live_bytes (headers h)" "all_bytes (free_list h') = pool - live_bytes (headers h)"
    using assms by (auto simp: heap_inv_def)
  then have "free_list h' = free_list h" using list_ok_unique [of "free_list h'" "free_list h"] assms(1,2) by (simp add: heap_inv_def)
  moreover from this have "unat (remaining h') = unat (remaining h)" using assms(1,2) by (simp add: heap_inv_def)
  ultimately show ?thesis by (simp add: word_unat_eq_iff)
qed

lemma malloc_free_same:
  assumes ok: "sys_ok boot s" "delayed_free_list s = []" and fits: "request_fits sz 0"
    and m: "malloc s sz = Some (Some p, s1)" "arena s1 = arena s"
  shows "free s1 p = Some s"
proof -
  have st: "settle_delayed s = Some s" using ok(2) by (simp add: settle_delayed_def)
  have inv: "heap_inv (theheap s) (boot \<union> arena_taken (arena s))" using ok(1) by (simp add: sys_ok_def heap_ok_def)
  show ?thesis
  proof (cases rule: memalign_inv [OF ok(1) fits])
    case 1
    then show ?thesis using m(1) by (simp add: malloc_memalign)
  next
    case (2 q t s')
    have q: "q = p" "s' = s1" "t = s" using 2(1,3) m(1) st by (simp_all add: malloc_memalign)
    have ba: "headers (theheap s) (p - header_bytes) = None" "p \<noteq> 0" "\<exists>b. headers (theheap s1) = (headers (theheap s))(p - header_bytes \<mapsto> b)"
      using 2(7) unfolding q by (auto simp: block_added_def)
    have s1: "s1 = s\<lparr>theheap := (theheap s)\<lparr>free_list := free_list (theheap s1), headers := headers (theheap s1), remaining := remaining (theheap s1)\<rparr>\<rparr>"
      using 2(8) m(2) unfolding q by simp
    have "in_use s1 p" using ba 2(6) unfolding q by (auto simp: in_use_def)
    from free_call [OF 2(2) [unfolded q] this] obtain h' where h': "miniheap_free (theheap s1) p = Some h'" "sys_ok boot (s1\<lparr>theheap := h'\<rparr>)"
      "headers h' = (headers (theheap s1))(p - header_bytes := None)"
      "h' = (theheap s1)\<lparr>free_list := free_list h', headers := headers h', remaining := remaining h'\<rparr>" by blast
    have hd: "headers h' = headers (theheap s)" unfolding h'(3) using ba by auto
    have "heap_inv h' (boot \<union> arena_taken (arena s))" using h'(2) m(2) by (simp add: sys_ok_def heap_ok_def)
    note u = heap_inv_unique [OF inv this hd]
    have "h' = theheap s" by (subst h'(4), subst s1) (simp add: u hd)
    then have "free s1 p = Some (s1\<lparr>theheap := theheap s\<rparr>)" using h'(1) by (simp add: free_def)
    moreover have "s1\<lparr>theheap := theheap s\<rparr> = s" by (subst s1) simp
    ultimately show ?thesis by simp
  qed
qed

section \<open>When there is no memory\<close>

lemma take_chunk_exists: "take_chunk sz fl = Some (Some r) \<Longrightarrow> \<exists>c \<in> set fl. sz \<le> snd c"
  by (induction sz fl arbitrary: r rule: take_chunk.induct) (auto split: if_splits)

lemma take_chunk_small:
  assumes "take_chunk sz fl = Some (Some ((p, l), fl'))" "sz \<le> sz + chunk_bytes"
  shows "l \<le> sz + chunk_bytes"
  using assms
  by (induction sz fl arbitrary: fl' rule: take_chunk.induct) (auto simp: bind_eq_Some_conv not_less split: if_splits prod.splits)

lemma page_alloc_None:
  assumes "arena_ok n"
  shows "fst (page_alloc n k) = None \<longleftrightarrow>
    k = 0 \<or> (\<forall>i. i + unat k \<le> unat (n_pages n) \<longrightarrow> \<not> free_run (n_map n) (unat k) i)"
proof -
  have h: "page_alloc n k = novm_alloc_helper n k" by (simp add: page_alloc_def novm_alloc_pages_def)
  show ?thesis
  proof (cases "k = 0 \<or> k > n_pages n")
    case True
    then show ?thesis by (auto simp: h novm_alloc_helper_def word_less_nat_alt)
  next
    case False
    then have le: "unat k \<le> unat (n_pages n)" by (simp add: word_less_nat_alt)
    have "fst (page_alloc n k) = None \<longleftrightarrow> scan_pages (n_map n) (unat (n_pages n)) (unat k) 0 = None"
      using False by (simp add: h novm_alloc_helper_def split: option.splits)
    also have "\<dots> \<longleftrightarrow> (\<forall>i. i < Suc (unat (n_pages n) - unat k) \<longrightarrow> \<not> free_run (n_map n) (unat k) i)"
      by (simp add: scan_pages_first [OF le] find_None_iff del: upt_Suc)
    also have "\<dots> \<longleftrightarrow> (\<forall>i. i + unat k \<le> unat (n_pages n) \<longrightarrow> \<not> free_run (n_map n) (unat k) i)"
      using le by (simp add: less_Suc_eq_le le_diff_conv2)
    finally show ?thesis using False by simp
  qed
qed

lemma malloc_None:
  assumes ok: "sys_ok boot s" "delayed_free_list s = []" and fits: "request_fits sz 0"
  shows "malloc s sz = Some (None, s) \<longleftrightarrow> (\<forall>c \<in> set (free_list (theheap s)). snd c < request_size sz 0) \<and>
    fst (page_alloc (arena s) (ROUNDUP (request_size sz 0) PAGE_SIZE div PAGE_SIZE)) = None"
    (is "_ \<longleftrightarrow> ?full \<and> ?nopages")
proof
  have st: "settle_delayed s = Some s" using ok(2) by (simp add: settle_delayed_def)
  {
    assume m: "malloc s sz = Some (None, s)"
    show "?full \<and> ?nopages"
    proof (cases rule: memalign_inv [OF ok(1) fits])
      case (1 s1)
      then show ?thesis using st by simp
    next
      case 2
      then show ?thesis using m by (simp add: malloc_memalign)
    qed
  }
  assume full: "?full \<and> ?nopages"
  have hok: "heap_ok boot (theheap s) (arena s)" using ok(1) by (simp add: sys_ok_def)
  then have inv: "heap_inv (theheap s) (boot \<union> arena_taken (arena s))" by (simp add: heap_ok_def)
  have a: "alloc_locked (theheap s) (request_size sz 0) 0 = Some (None, theheap s)"
  proof (cases rule: alloc_locked_inv [OF inv fits])
    case (2 p h')
    obtain r where "take_chunk (request_size sz 0) (free_list (theheap s)) = Some (Some r)"
      using 2(1) by (auto simp: alloc_locked_def bind_eq_Some_conv split: option.splits)
    then show ?thesis using full take_chunk_exists by fastforce
  qed (simp add: request_alignment_def)
  have "heap_grow (theheap s) (arena s) (request_size sz 0) = Some (- 5, theheap s, arena s)"
  proof (cases rule: heap_grow_inv [OF hok, of "request_size sz 0"])
    case (2 e h' n')
    then show ?thesis using full by (auto simp: heap_grow_def Let_def split: prod.splits dest: novm.alloc_none)
  qed
  then show "malloc s sz = Some (None, s)"
    using a st by (simp add: malloc_def miniheap_alloc_def request_alignment_def)
qed

section \<open>Sizes that wrap around\<close>

lemma request_size_0: "request_size 0 0 = 12"
  by (simp add: request_size_def ROUNDUP_def)

lemma request_size_wraps: "0xFFFFFFF4 \<le> unat sz \<Longrightarrow> request_size sz 0 = 12"
proof -
  assume ge: "0xFFFFFFF4 \<le> unat sz"
  have lt: "unat sz < 2 ^ 32" using unsigned_less [of sz] by simp
  have "sz = of_nat (unat sz)" by simp
  then have "sz + 12 = of_nat (unat sz + 12)" by (metis of_nat_add of_nat_numeral)
  moreover obtain d where d: "unat sz + 12 = d + 2 ^ 32" "d < 12" using ge lt by (intro that [of "unat sz + 12 - 2 ^ 32"]) simp_all
  moreover have "(of_nat (2 ^ 32) :: u32) = 0" by simp
  ultimately have "sz + 12 = of_nat d" by (simp only: of_nat_add add_0_right)
  moreover have "unat (of_nat d :: u32) = d" using d(2) by (intro unat_of_nat_small32) simp
  ultimately have "sz + header_bytes < chunk_bytes" using d(2) by (simp add: word_less_nat_alt)
  then show ?thesis by (simp add: request_size_def ROUNDUP_def)
qed

lemma request_size_zero:
  assumes "0xFFFFFFF1 \<le> unat sz" "unat sz < 0xFFFFFFF4"
  shows "request_size sz 0 = 0"
proof -
  have "unat sz = 0xFFFFFFF1 \<or> unat sz = 0xFFFFFFF2 \<or> unat sz = 0xFFFFFFF3" using assms by linarith
  then have "sz = 0xFFFFFFF1 \<or> sz = 0xFFFFFFF2 \<or> sz = 0xFFFFFFF3" by (simp add: word_unat_eq_iff)
  then show ?thesis by (auto simp: request_size_def ROUNDUP_def)
qed

lemma malloc_tiny:
  assumes ok: "sys_ok boot s" "delayed_free_list s = []" "free_list (theheap s) \<noteq> []" and sz: "request_size sz 0 = 12"
  shows "\<exists>p s'. malloc s sz = Some (Some p, s') \<and> in_use s' p \<and> room s' p \<le> 12"
proof -
  let ?fl = "free_list (theheap s)"
  have st: "settle_delayed s = Some s" using ok(2) by (simp add: settle_delayed_def)
  have fl: "list_ok ?fl" using ok(1) by (simp add: sys_ok_def heap_ok_def heap_inv_def)
  obtain r where r: "take_chunk 12 ?fl = Some r" "case r of None \<Rightarrow> \<forall>c \<in> set ?fl. snd c < 12
     | Some (c, fl') \<Rightarrow> chunk_ok c \<and> 12 \<le> snd c \<and> list_ok fl' \<and> bytes_of c \<inter> all_bytes fl' = {} \<and> all_bytes ?fl = bytes_of c \<union> all_bytes fl'"
    using take_chunk_ok [OF fl, of 12] by auto
  have "\<exists>c \<in> set ?fl. \<not> snd c < 12"
    using ok(3) list_ok_chunk [OF fl, of "hd ?fl"] by (intro bexI [of _ "hd ?fl"]) (simp_all add: chunk_ok_def word_less_nat_alt)
  then obtain c l fl' where cl: "r = Some ((c, l), fl')" using r(2) by (cases r) auto
  have c: "chunk_ok (c, l)" using r(2) cl by simp
  have l: "unat l \<le> 24" using take_chunk_small [of 12 ?fl c l fl'] r(1) cl by (simp add: word_le_nat_alt)
  have p: "unat (c + header_bytes) = unat c + 12" using c by (subst unat_add_lem [THEN iffD1]) (simp_all add: chunk_ok_def)
  then have "c + header_bytes \<noteq> 0" by (metis add_is_0 unsigned_0 zero_neq_numeral)
  moreover obtain h' where h': "alloc_locked (theheap s) 12 0 = Some (Some (c + header_bytes), h')" "headers h' c = Some \<lparr>as_ptr = c, as_size = l\<rparr>"
    using r(1) cl by (simp add: alloc_locked_def aligned_ptr_def Let_def)
  ultimately have "in_use (s\<lparr>theheap := h', arena := arena s\<rparr>) (c + header_bytes) \<and> room (s\<lparr>theheap := h', arena := arena s\<rparr>) (c + header_bytes) \<le> 12"
    using p l ok(2) by (simp add: in_use_def room_def)
  moreover have "malloc s sz = Some (Some (c + header_bytes), s\<lparr>theheap := h', arena := arena s\<rparr>)"
    using st h'(1) sz by (simp add: malloc_def miniheap_alloc_def request_alignment_def)
  ultimately show ?thesis by blast
qed

lemma malloc_free_chunk:
  assumes "delayed_free_list s = []" "free_list (theheap s) = (ptr, len) # fl" "chunk_ok (ptr, len)" "12 < unat len" "request_size sz 0 = 0"
  shows "\<exists>s'. malloc s sz = Some (Some (ptr + 12), s') \<and> free_list (theheap s') = free_list (theheap s)"
proof -
  have st: "settle_delayed s = Some s" using assms(1) by (simp add: settle_delayed_def)
  have "len mod 4 = 0" using assms(3) by (simp add: chunk_ok_def word_unat_eq_iff unat_mod)
  moreover have "len > 12" using assms(4) by (simp add: word_less_nat_alt)
  ultimately have "take_chunk 0 (free_list (theheap s)) = Some (Some ((ptr, 0), free_list (theheap s)))"
    using create_chunk_ok [OF assms(3)] assms(2) by simp
  then have "\<exists>h'. alloc_locked (theheap s) 0 0 = Some (Some (ptr + 12), h') \<and> free_list h' = free_list (theheap s)"
    by (simp add: alloc_locked_def aligned_ptr_def Let_def)
  then show ?thesis using st assms(5) by (auto simp: malloc_def miniheap_alloc_def request_alignment_def)
qed

section \<open>An example\<close>

text \<open>A kernel that ends 256 bytes before a page.\<close>

definition example_heap :: heap_sys where
  "example_heap = the (heap_init 0x88000000 (novm_init 0x88100F00))"

lemma example_boot: "boot_ok 0x88000000 0x88100F00"
  by (simp add: boot_ok_def)

lemma example_heap_reach: "heap_reach 0x88000000 0x88100F00 example_heap"
  using heap_init_ok [OF example_boot] by (auto simp: example_heap_def intro: heap_reach.start)

lemma example_heap_state:
  "delayed_free_list example_heap = []" "free_list (theheap example_heap) = [(0x88100F00, 0x100)]" "headers (theheap example_heap) = Map.empty"
proof -
  note init = novm_init_ok [of "0x88100F00"]
  have b: "n_base (novm_init 0x88100F00) = 0x88101000" using init by (simp add: word_unat_eq_iff)
  have u: "unaligned_area (novm_init 0x88100F00) = Some 0x88100F00" "unaligned_size (novm_init 0x88100F00) = 0x100" using init b by simp_all
  then have "heap_init 0x88000000 (novm_init 0x88100F00) =
    Some \<lparr>theheap = \<lparr>h_base = 0x88100F00, h_len = 0x100, remaining = 0x100, low_watermark = 0, free_list = [(0x88100F00, 0x100)],
      free_list_addr = 0x88000000, headers = Map.empty\<rparr>,
      arena = (novm_init 0x88100F00)\<lparr>unaligned_area := None, unaligned_size := 0\<rparr>, delayed_free_list = []\<rparr>"
    by (simp add: heap_init_def page_first_alloc_def novm_alloc_unaligned_def miniheap_init_def Let_def heap_create_free_chunk_def
        heap_insert_free_chunk_def merge_prev_def merge_next_def ROUNDUP_def)
  then show "delayed_free_list example_heap = []" "free_list (theheap example_heap) = [(0x88100F00, 0x100)]" "headers (theheap example_heap) = Map.empty"
    by (simp_all add: example_heap_def)
qed

end
