(* ===== verification/Printf.thy ===== *)
theory Printf
  imports Cstring
begin

text \<open>
  lib/libc/printf.c: the engine behind every formatted message. The format and the strings are
  lists of bytes up to and including their terminator, characters are their codes. The variable
  arguments are a list of values of the size the target passes them in: \<^verbatim>\<open>int\<close>, \<^verbatim>\<open>long\<close>,
  \<^verbatim>\<open>size_t\<close> and addresses are 32 bits wide, \<^verbatim>\<open>long long\<close> and \<^verbatim>\<open>double\<close> (by its bits) 64.

  \<open>None\<close> is an access outside a buffer, or an argument taken as something it is not.
\<close>

type_synonym u64 = "64 word"

datatype va_arg = Va_int u32 | Va_ll u64 | Va_str "bytes option" | Va_double u64

datatype fflag = LONGFLAG | LONGLONGFLAG | HALFFLAG | HALFHALFFLAG | SIZETFLAG | INTMAXFLAG | PTRDIFFFLAG
  | ALTFLAG | CAPSFLAG | SHOWSIGNFLAG | SIGNEDFLAG | LEFTFORMATFLAG | LEADZEROFLAG | BLANKPOSFLAG

section \<open>Numbers\<close>

text \<open>Both conversions fill the buffer from its end; the result is the buffer and the offset of the text in it.\<close>

function dec_loop :: "bytes \<Rightarrow> nat \<Rightarrow> u64 \<Rightarrow> (bytes \<times> nat \<times> u64) option" where
  "dec_loop buf pos n =
     (if n \<ge> 10 then
        (if pos = 0 then None
         else do { buf1 \<leftarrow> mem_write buf (pos - 1) [ucast (n mod 10) + 0x30]; dec_loop buf1 (pos - 1) (n div 10) })
      else Some (buf, pos, n))"
  by pat_completeness auto
termination
  by (relation "measure (\<lambda>(buf, pos, n). pos)") auto

declare dec_loop.simps [simp del]

definition longlong_to_string :: "bytes \<Rightarrow> u64 \<Rightarrow> nat \<Rightarrow> fflag set \<Rightarrow> (bytes \<times> nat \<times> u8) option" where
  "longlong_to_string buf n0 len flag =
     (let negative = (SIGNEDFLAG \<in> flag \<and> sint n0 < 0);
          n = (if negative then - n0 else n0)
      in if len < 2 then None
         else do {
           buf1 \<leftarrow> mem_write buf (len - 1) [0];
           (buf2, pos, n') \<leftarrow> dec_loop buf1 (len - 1) n;
           if pos = 0 then None
           else do {
             buf3 \<leftarrow> mem_write buf2 (pos - 1) [ucast n' + 0x30];
             let signchar = (if negative then 0x2D else if SHOWSIGNFLAG \<in> flag then 0x2B else if BLANKPOSFLAG \<in> flag then 0x20 else 0);
             Some (buf3, pos - 1, signchar)
           }
         })"

definition hextable :: bytes where
  "hextable = [0x30, 0x31, 0x32, 0x33, 0x34, 0x35, 0x36, 0x37, 0x38, 0x39, 0x61, 0x62, 0x63, 0x64, 0x65, 0x66]"

definition hextable_caps :: bytes where
  "hextable_caps = [0x30, 0x31, 0x32, 0x33, 0x34, 0x35, 0x36, 0x37, 0x38, 0x39, 0x41, 0x42, 0x43, 0x44, 0x45, 0x46]"

definition hex_table :: "fflag set \<Rightarrow> bytes" where
  "hex_table flag = (if CAPSFLAG \<in> flag then hextable_caps else hextable)"

function hex_loop :: "bytes \<Rightarrow> bytes \<Rightarrow> nat \<Rightarrow> u64 \<Rightarrow> (bytes \<times> nat) option" where
  "hex_loop table buf pos u =
     (if pos = 0 then None
      else do {
        buf1 \<leftarrow> mem_write buf (pos - 1) [table ! unat (u mod 16)];
        if u div 16 \<noteq> 0 then hex_loop table buf1 (pos - 1) (u div 16) else Some (buf1, pos - 1)
      })"
  by pat_completeness auto
termination
  by (relation "measure (\<lambda>(table, buf, pos, u). pos)") auto

declare hex_loop.simps [simp del]

definition longlong_to_hexstring :: "bytes \<Rightarrow> u64 \<Rightarrow> nat \<Rightarrow> fflag set \<Rightarrow> (bytes \<times> nat) option" where
  "longlong_to_hexstring buf u len flag =
     (if len = 0 then None
      else do { buf1 \<leftarrow> mem_write buf (len - 1) [0]; hex_loop (hex_table flag) buf1 (len - 1) u })"

section \<open>Floating point\<close>

text \<open>
  \<^verbatim>\<open>exponent_to_string\<close>, with the text it writes as result: the sign, and the digits from the right
  into the places reserved for them.
\<close>

function exp_digits :: "nat \<Rightarrow> bytes" where
  "exp_digits e = (if e div 10 \<noteq> 0 then exp_digits (e div 10) @ [of_nat (e mod 10) + 0x30] else [of_nat (e mod 10) + 0x30])"
  by pat_completeness auto
termination
  by (relation "measure id") auto

declare exp_digits.simps [simp del]

definition exponent_to_string :: "int \<Rightarrow> bytes" where
  "exponent_to_string exponent = (if exponent < 0 then 0x2D else 0x2B) # exp_digits (nat \<bar>exponent\<bar>)"

text \<open>
  A double is its 64 bits. The arithmetic on the fractional part is the one of IEEE: a result is rounded
  to 53 significant bits, to the even one between two that are equally near. Here numbers are
  multiples of \<open>2\<^sup>-\<^sup>1\<^sup>0\<^sup>4\<close>, the smallest part a double of the range handled here has.
\<close>

fun bit_len :: "nat \<Rightarrow> nat" where
  "bit_len n = (if n = 0 then 0 else Suc (bit_len (n div 2)))"

declare bit_len.simps [simp del]

definition round53 :: "nat \<Rightarrow> nat" where
  "round53 n =
     (let s = bit_len n - 53; q = n div 2 ^ s; r = 2 * (n mod 2 ^ s)
      in (if r > 2 ^ s \<or> r = 2 ^ s \<and> odd q then q + 1 else q) * 2 ^ s)"

definition frac_value :: "u64 \<Rightarrow> int \<Rightarrow> u64 \<Rightarrow> nat" where
  "frac_value fraction exponent_signed u =
     (let d = (unat fraction + 2 ^ 52) * 2 ^ nat (exponent_signed + 52);
          scaled = round53 ((d - unat u * 2 ^ 104) * 1000000)
      in round53 (scaled + 2 ^ 103) div 2 ^ 104)"

text \<open>\<^verbatim>\<open>OUTREV\<close> for some characters; the first component says that the start of the buffer was reached.\<close>

fun outrev :: "bytes \<Rightarrow> bytes \<Rightarrow> nat \<Rightarrow> (bool \<times> bytes \<times> nat) option" where
  "outrev [] buf pos = Some (False, buf, pos)"
| "outrev (c # cs) buf pos =
     (if pos = 0 then Some (True, buf, pos)
      else do { buf1 \<leftarrow> mem_write buf (pos - 1) [c]; outrev cs buf1 (pos - 1) })"

function frac_loop :: "bytes \<Rightarrow> nat \<Rightarrow> nat \<Rightarrow> bytes option" where
  "frac_loop buf i frac =
     (if frac \<noteq> 0 then
        (if i = 0 then None
         else do { buf1 \<leftarrow> mem_write buf (i - 1) [of_nat (frac mod 10) + 0x30]; frac_loop buf1 (i - 1) (frac div 10) })
      else Some buf)"
  by pat_completeness auto
termination
  by (relation "measure (\<lambda>(buf, i, frac). i)") auto

declare frac_loop.simps [simp del]

definition caps :: "fflag set \<Rightarrow> string \<Rightarrow> string \<Rightarrow> bytes" where
  "caps flag upper lower = lit (if CAPSFLAG \<in> flag then upper else lower)"

definition double_to_string :: "bytes \<Rightarrow> nat \<Rightarrow> u64 \<Rightarrow> fflag set \<Rightarrow> (bytes \<times> nat) option" where
  "double_to_string buf len d flag =
     (let exponent = drop_bit 52 d AND 0x7ff;
          fraction = d AND (push_bit 52 1 - 1);
          neg = bit d 63;
          sgn = (if neg then [0x2D] else []);
          exponent_signed = uint exponent - 1023;
          whole = (\<lambda>text. do { buf1 \<leftarrow> mem_write buf 0 (sgn @ text @ [0]); Some (buf1, 0) })
      in if exponent = 0x7ff then whole (if fraction = 0 then caps flag ''INF'' ''inf'' else caps flag ''NAN'' ''nan'')
         else if exponent = 0 then whole (if fraction = 0 then lit ''0.000000'' else caps flag ''DEN'' ''den'')
         else if exponent_signed < - 52 \<or> exponent_signed > 52 then whole (lit ''<range>'')
         else do {
           buf0 \<leftarrow> mem_write buf 0 sgn;
           (full, buf1, decimal_spot) \<leftarrow> outrev (0 # replicate 7 0x30) buf0 len;
           if full then Some (buf1, decimal_spot)
           else do {
             let u = (if exponent_signed \<ge> 0 then drop_bit (nat (52 - exponent_signed)) (fraction OR push_bit 52 1) else 0);
             (full2, buf2, pos) \<leftarrow> (if exponent_signed \<ge> 0
                then do { (b, p, _) \<leftarrow> longlong_to_string buf1 u (decimal_spot + 1) flag; Some (False, b, p) }
                else outrev [0x30] buf1 decimal_spot);
             if full2 then Some (buf2, pos)
             else do {
               buf3 \<leftarrow> mem_write buf2 decimal_spot [0x2E];
               buf4 \<leftarrow> frac_loop buf3 (decimal_spot + 6 + 1) (frac_value fraction exponent_signed u);
               (_, buf5, pos5) \<leftarrow> outrev sgn buf4 pos;
               Some (buf5, pos5)
             }
           }
         })"

text \<open>
  The digits of the fraction for \<^verbatim>\<open>%a\<close>, from the highest: zeros are counted and only written when another digit follows.
\<close>

fun hex_fraction :: "bytes \<Rightarrow> u64 \<Rightarrow> nat list \<Rightarrow> nat \<Rightarrow> bool \<Rightarrow> bytes" where
  "hex_fraction table fraction [] zero_count output_dot = []"
| "hex_fraction table fraction (i # is) zero_count output_dot =
     (let digit = drop_bit i fraction AND 0xf
      in if digit = 0 then hex_fraction table fraction is (zero_count + 1) output_dot
         else (if output_dot then [] else [0x2E]) @ replicate zero_count 0x30 @ table ! unat digit # hex_fraction table fraction is 0 True)"

definition double_to_hexstring :: "bytes \<Rightarrow> nat \<Rightarrow> u64 \<Rightarrow> fflag set \<Rightarrow> (bytes \<times> nat) option" where
  "double_to_hexstring buf len d flag =
     (let exponent = drop_bit 52 d AND 0x7ff;
          fraction = d AND (push_bit 52 1 - 1);
          sgn = (if bit d 63 then [0x2D] else []);
          text = (if exponent = 0x7ff then (if fraction = 0 then caps flag ''INF'' ''inf'' else caps flag ''NAN'' ''nan'')
             else if exponent = 0 then (if fraction = 0 then caps flag ''0X0P+0'' ''0x0p+0'' else caps flag ''DEN'' ''den'')
             else caps flag ''0X1'' ''0x1'' @
               hex_fraction (hex_table flag) fraction (map (\<lambda>k. 48 - 4 * k) [0..<13]) 0 False @
               caps flag ''P'' ''p'' @ exponent_to_string (uint exponent - 1023))
      in do { buf1 \<leftarrow> mem_write buf 0 (sgn @ text @ [0]); Some (buf1, 0) })"

section \<open>The engine\<close>

text \<open>
  Reading a format up to its conversion character: flags, width and length. A precision is read as if
  its point were not there. The terminator counts as a conversion character, which ends the engine.
\<close>

definition format_char :: "u8 \<Rightarrow> fflag set \<Rightarrow> u32 \<Rightarrow> (fflag set \<times> u32) option" where
  "format_char c flags format_num =
     (if 0x30 \<le> c \<and> c \<le> 0x39 then
        Some (if c = 0x30 \<and> format_num = 0 then insert LEADZEROFLAG flags else flags, format_num * 10 + ucast (c - 0x30))
      else if c = 0x2E then Some (flags, format_num)
      else if c = 0x2D then Some (insert LEFTFORMATFLAG flags, format_num)
      else if c = 0x2B then Some (insert SHOWSIGNFLAG flags, format_num)
      else if c = 0x20 then Some (insert BLANKPOSFLAG flags, format_num)
      else if c = 0x23 then Some (insert ALTFLAG flags, format_num)
      else if c = 0x6C then Some (insert LONGFLAG (if LONGFLAG \<in> flags then insert LONGLONGFLAG flags else flags), format_num)
      else if c = 0x68 then Some (insert HALFFLAG (if HALFFLAG \<in> flags then insert HALFHALFFLAG flags else flags), format_num)
      else if c = 0x7A then Some (insert SIZETFLAG flags, format_num)
      else if c = 0x6A then Some (insert INTMAXFLAG flags, format_num)
      else if c = 0x74 then Some (insert PTRDIFFFLAG flags, format_num)
      else None)"

fun next_format :: "bytes \<Rightarrow> fflag set \<Rightarrow> u32 \<Rightarrow> (u8 \<times> bytes \<times> fflag set \<times> u32) option" where
  "next_format [] flags format_num = None"
| "next_format (c # fmt) flags format_num =
     (case format_char c flags format_num of
        Some (flags1, num1) \<Rightarrow> next_format fmt flags1 num1
      | None \<Rightarrow> Some (c, fmt, flags, format_num))"

lemma next_format_shorter: "next_format fmt flags num = Some (c, rest, flags', num') \<Longrightarrow> length rest < length fmt"
  by (induction fmt arbitrary: flags num) (fastforce split: option.splits)+

text \<open>The arguments: a signed or an unsigned integer of the length the flags ask for, extended to 64 bits.\<close>

fun va_word :: "va_arg list \<Rightarrow> (u32 \<times> va_arg list) option" where
  "va_word (Va_int w # ap) = Some (w, ap)"
| "va_word _ = None"

fun va_longlong :: "va_arg list \<Rightarrow> (u64 \<times> va_arg list) option" where
  "va_longlong (Va_ll w # ap) = Some (w, ap)"
| "va_longlong _ = None"

definition signed_arg :: "fflag set \<Rightarrow> va_arg list \<Rightarrow> (u64 \<times> va_arg list) option" where
  "signed_arg flags ap =
     (if LONGLONGFLAG \<in> flags then va_longlong ap
      else if LONGFLAG \<in> flags then map_option (\<lambda>(w, ap). (scast w, ap)) (va_word ap)
      else if HALFHALFFLAG \<in> flags then map_option (\<lambda>(w, ap). (scast (ucast w :: 8 word), ap)) (va_word ap)
      else if HALFFLAG \<in> flags then map_option (\<lambda>(w, ap). (scast (ucast w :: 16 word), ap)) (va_word ap)
      else if SIZETFLAG \<in> flags then map_option (\<lambda>(w, ap). (scast w, ap)) (va_word ap)
      else if INTMAXFLAG \<in> flags then va_longlong ap
      else map_option (\<lambda>(w, ap). (scast w, ap)) (va_word ap))"

definition unsigned_arg :: "fflag set \<Rightarrow> va_arg list \<Rightarrow> (u64 \<times> va_arg list) option" where
  "unsigned_arg flags ap =
     (if LONGLONGFLAG \<in> flags then va_longlong ap
      else if LONGFLAG \<in> flags then map_option (\<lambda>(w, ap). (ucast w, ap)) (va_word ap)
      else if HALFHALFFLAG \<in> flags then map_option (\<lambda>(w, ap). (ucast (ucast w :: 8 word), ap)) (va_word ap)
      else if HALFFLAG \<in> flags then map_option (\<lambda>(w, ap). (ucast (ucast w :: 16 word), ap)) (va_word ap)
      else if SIZETFLAG \<in> flags then map_option (\<lambda>(w, ap). (ucast w, ap)) (va_word ap)
      else if INTMAXFLAG \<in> flags then va_longlong ap
      else map_option (\<lambda>(w, ap). (ucast w, ap)) (va_word ap))"

text \<open>
  What a conversion does: strings sent as they are, and then a field to be padded, or a number
  stored through a pointer.
\<close>

datatype effect = Plain | Field "fflag set" u32 u8 bytes | Store u32 "fflag set"

definition text_at :: "bytes \<Rightarrow> nat \<Rightarrow> bytes option" where
  "text_at buf pos = map_option (\<lambda>k. take k (drop pos buf)) (strlen (drop pos buf))"

definition num_buffer :: bytes where
  "num_buffer = replicate 32 0"

definition hex_conversion :: "fflag set \<Rightarrow> u32 \<Rightarrow> va_arg list \<Rightarrow> (bytes list \<times> effect \<times> va_arg list) option" where
  "hex_conversion flags num ap = do {
     (n, ap1) \<leftarrow> unsigned_arg flags ap;
     (buf, pos) \<leftarrow> longlong_to_hexstring num_buffer n 32 flags;
     text \<leftarrow> text_at buf pos;
     Some (if ALTFLAG \<in> flags then [[0x30], [if CAPSFLAG \<in> flags then 0x58 else 0x78]] else [], Field flags num 0 text, ap1)
   }"

definition double_conversion :: "bool \<Rightarrow> fflag set \<Rightarrow> u32 \<Rightarrow> va_arg list \<Rightarrow> (bytes list \<times> effect \<times> va_arg list) option" where
  "double_conversion hex flags num ap =
     (case ap of
        Va_double d # ap1 \<Rightarrow> do {
          (buf, pos) \<leftarrow> (if hex then double_to_hexstring num_buffer 32 d flags else double_to_string num_buffer 32 d flags);
          text \<leftarrow> text_at buf pos;
          Some ([], Field flags num 0 text, ap1)
        }
      | _ \<Rightarrow> None)"

definition conversion :: "u8 \<Rightarrow> fflag set \<Rightarrow> u32 \<Rightarrow> va_arg list \<Rightarrow> (bytes list \<times> effect \<times> va_arg list) option" where
  "conversion c flags num ap =
     (if c = 0x25 then Some ([[0x25]], Plain, ap)
      else if c = 0x63 then map_option (\<lambda>(w, ap1). ([[ucast w]], Plain, ap1)) (va_word ap)
      else if c = 0x73 then
        (case ap of
           Va_str s # ap1 \<Rightarrow> do {
             let str = (case s of None \<Rightarrow> cstr (lit ''<null>'') | Some b \<Rightarrow> b);
             text \<leftarrow> text_at str 0;
             Some ([], Field (flags - {LEADZEROFLAG}) num 0 text, ap1)
           }
         | _ \<Rightarrow> None)
      else if c = 0x69 \<or> c = 0x64 then do {
        (n, ap1) \<leftarrow> signed_arg flags ap;
        (buf, pos, signchar) \<leftarrow> longlong_to_string num_buffer n 32 (insert SIGNEDFLAG flags);
        text \<leftarrow> text_at buf pos;
        Some ([], Field (insert SIGNEDFLAG flags) num signchar text, ap1)
      }
      else if c = 0x75 then do {
        (n, ap1) \<leftarrow> unsigned_arg flags ap;
        (buf, pos, signchar) \<leftarrow> longlong_to_string num_buffer n 32 flags;
        text \<leftarrow> text_at buf pos;
        Some ([], Field flags num signchar text, ap1)
      }
      else if c = 0x70 then hex_conversion (insert LONGFLAG (insert ALTFLAG flags)) num ap
      else if c = 0x58 then hex_conversion (insert CAPSFLAG flags) num ap
      else if c = 0x78 then hex_conversion flags num ap
      else if c = 0x6E then map_option (\<lambda>(p, ap1). ([], Store p flags, ap1)) (va_word ap)
      else if c = 0x46 then double_conversion False (insert CAPSFLAG flags) num ap
      else if c = 0x66 then double_conversion False flags num ap
      else if c = 0x41 then double_conversion True (insert CAPSFLAG flags) num ap
      else if c = 0x61 then double_conversion True flags num ap
      else Some ([[0x25], [c]], Plain, ap))"

text \<open>
  Output goes through a function that returns the number of characters taken, or a negative error
  that ends the engine. \<open>progress\<close> is the state of that function, the count, and the
  numbers stored by \<^verbatim>\<open>%n\<close>; an exit on an error is \<open>Inl\<close>.
\<close>

record 's progress =
  sink :: 's
  chars_written :: u32
  stores :: "(u32 \<times> nat \<times> u64) list"

type_synonym 's output_func = "bytes \<Rightarrow> 's \<Rightarrow> (int \<times> 's) option"

definition output_string :: "'s output_func \<Rightarrow> bytes \<Rightarrow> 's progress \<Rightarrow> ((int \<times> 's progress) + (int \<times> 's progress)) option" where
  "output_string out str g = do {
     (err, st) \<leftarrow> out str (sink g);
     let g1 = g\<lparr>sink := st\<rparr>;
     Some (if err < 0 then Inl (err, g1) else Inr (err, g1\<lparr>chars_written := chars_written g + of_int err\<rparr>))
   }"

fun output_all :: "'s output_func \<Rightarrow> bytes list \<Rightarrow> 's progress \<Rightarrow> ((int \<times> 's progress) + 's progress) option" where
  "output_all out [] g = Some (Inr g)"
| "output_all out (s # ss) g = do {
     r \<leftarrow> output_string out s g;
     (case r of Inl e \<Rightarrow> Some (Inl e) | Inr (_, g1) \<Rightarrow> output_all out ss g1)
   }"

definition output_field :: "'s output_func \<Rightarrow> fflag set \<Rightarrow> u32 \<Rightarrow> u8 \<Rightarrow> bytes \<Rightarrow> 's progress \<Rightarrow> ((int \<times> 's progress) + 's progress) option" where
  "output_field out flags format_num signchar s g =
     (if LEFTFORMATFLAG \<in> flags then do {
        r \<leftarrow> output_string out s g;
        (case r of
           Inl e \<Rightarrow> Some (Inl e)
         | Inr (err, g1) \<Rightarrow> output_all out (replicate (unat format_num - unat (of_int err :: u32)) [0x20]) g1)
      }
      else
        (let num = (if signchar \<noteq> 0 \<and> format_num > 0 then format_num - 1 else format_num);
             sign = (if signchar \<noteq> 0 then [[signchar]] else []);
             zero = (LEADZEROFLAG \<in> flags)
         in output_all out ((if zero then sign else []) @ replicate (unat num - length s) [if zero then 0x30 else 0x20] @
              (if zero then [] else sign) @ [s]) g))"

text \<open>\<^verbatim>\<open>%n\<close>: how many bytes are stored, and the count cut to that size.\<close>

definition store_size :: "fflag set \<Rightarrow> nat" where
  "store_size flags =
     (if LONGLONGFLAG \<in> flags then 8 else if LONGFLAG \<in> flags then 4 else if HALFHALFFLAG \<in> flags then 1
      else if HALFFLAG \<in> flags then 2 else 4)"

definition perform :: "'s output_func \<Rightarrow> effect \<Rightarrow> 's progress \<Rightarrow> ((int \<times> 's progress) + 's progress) option" where
  "perform out e g =
     (case e of
        Plain \<Rightarrow> Some (Inr g)
      | Field flags num signchar s \<Rightarrow> output_field out flags num signchar s g
      | Store p flags \<Rightarrow> Some (Inr (g\<lparr>stores := stores g @ [(p, store_size flags, take_bit (8 * store_size flags) (ucast (chars_written g)))]\<rparr>)))"

definition finish :: "'s progress \<Rightarrow> int \<times> 's progress" where
  "finish g = (sint (chars_written g), g)"

abbreviation plain_char :: "u8 \<Rightarrow> bool" where
  "plain_char c \<equiv> c \<noteq> 0 \<and> c \<noteq> 0x25"

function printf_engine :: "'s output_func \<Rightarrow> bytes \<Rightarrow> va_arg list \<Rightarrow> 's progress \<Rightarrow> (int \<times> 's progress) option" where
  "printf_engine out fmt ap g =
     (case dropWhile plain_char fmt of
        [] \<Rightarrow> None
      | c # fmt1 \<Rightarrow>
          (case output_string out (takeWhile plain_char fmt) g of
             None \<Rightarrow> None
           | Some (Inl e) \<Rightarrow> Some e
           | Some (Inr (_, g1)) \<Rightarrow>
               if c = 0 then Some (finish g1)
               else
                 (case next_format fmt1 {} 0 of
                    None \<Rightarrow> None
                  | Some (conv, fmt2, flags, num) \<Rightarrow>
                      if conv = 0 then Some (finish g1)
                      else
                        (case conversion conv flags num ap of
                           None \<Rightarrow> None
                         | Some (pieces, eff, ap1) \<Rightarrow>
                             (case output_all out pieces g1 of
                                None \<Rightarrow> None
                              | Some (Inl e) \<Rightarrow> Some e
                              | Some (Inr g2) \<Rightarrow>
                                  (case perform out eff g2 of
                                     None \<Rightarrow> None
                                   | Some (Inl e) \<Rightarrow> Some e
                                   | Some (Inr g3) \<Rightarrow> printf_engine out fmt2 ap1 g3))))))"
  by pat_completeness auto
termination
proof (relation "measure (\<lambda>(out, fmt, ap, g). length fmt)", simp, goal_cases)
  case (1 out fmt ap g c fmt1)
  have "length (dropWhile plain_char fmt) \<le> length fmt" by (rule length_dropWhile_le)
  then show ?case using 1 next_format_shorter by fastforce
qed

declare printf_engine.simps [simp del]

section \<open>Printing into a buffer\<close>

text \<open>
  The buffer starts at offset \<open>base\<close> of a memory object \<open>outmem\<close>. With a length of 0 the terminator is
  written at \<^verbatim>\<open>str[len-1]\<close>, which is the byte in front of the buffer.
\<close>

record output_args =
  outmem :: bytes
  outstr :: nat
  out_len :: u32
  out_pos :: u32

fun vsnprintf_output_loop :: "bytes \<Rightarrow> output_args \<Rightarrow> output_args option" where
  "vsnprintf_output_loop [] args = Some args"
| "vsnprintf_output_loop (c # str) args =
     (if out_pos args < out_len args then do {
        m \<leftarrow> mem_write (outmem args) (outstr args + unat (out_pos args)) [c];
        vsnprintf_output_loop str (args\<lparr>outmem := m, out_pos := out_pos args + 1\<rparr>)
      }
      else vsnprintf_output_loop str args)"

definition vsnprintf_output :: "output_args output_func" where
  "vsnprintf_output str args = do {
     args1 \<leftarrow> vsnprintf_output_loop str args;
     Some (sint (of_nat (length str) :: u32), args1)
   }"

definition vsnprintf :: "bytes \<Rightarrow> nat \<Rightarrow> u32 \<Rightarrow> bytes \<Rightarrow> va_arg list \<Rightarrow> (int \<times> bytes) option" where
  "vsnprintf mem str len fmt ap = do {
     (wlen, g) \<leftarrow> printf_engine vsnprintf_output fmt ap
        \<lparr>sink = \<lparr>outmem = mem, outstr = str, out_len = len, out_pos = 0\<rparr>, chars_written = 0, stores = []\<rparr>;
     let args = sink g;
     mem1 \<leftarrow> (if out_pos args \<ge> len
        then (if len = 0 \<and> str = 0 then None else mem_write (outmem args) (str + unat len - 1) [0])
        else if wlen < 0 then None else mem_write (outmem args) (str + nat wlen) [0]);
     Some (wlen, mem1)
   }"

definition snprintf :: "bytes \<Rightarrow> nat \<Rightarrow> u32 \<Rightarrow> bytes \<Rightarrow> va_arg list \<Rightarrow> (int \<times> bytes) option" where
  "snprintf mem str len fmt ap = vsnprintf mem str len fmt ap"

abbreviation (input) INT_MAX :: u32 where "INT_MAX \<equiv> 0x7FFFFFFF"

definition vsprintf :: "bytes \<Rightarrow> nat \<Rightarrow> bytes \<Rightarrow> va_arg list \<Rightarrow> (int \<times> bytes) option" where
  "vsprintf mem str fmt ap = vsnprintf mem str INT_MAX fmt ap"

definition sprintf :: "bytes \<Rightarrow> nat \<Rightarrow> bytes \<Rightarrow> va_arg list \<Rightarrow> (int \<times> bytes) option" where
  "sprintf mem str fmt ap = vsprintf mem str fmt ap"

section \<open>Printing on the console\<close>

text \<open>
  lib/io and lib/libc/stdio.c: the standard streams are one handle, which passes the characters to the
  registered print callbacks and then to the serial port. \<open>shared\<close> is the state the callbacks work on.
\<close>

record 'k console_io =
  print_callbacks :: "('k \<Rightarrow> bytes \<Rightarrow> 'k option) list"
  shared :: 'k
  serial :: bytes

fun run_callbacks :: "('k \<Rightarrow> bytes \<Rightarrow> 'k option) list \<Rightarrow> bytes \<Rightarrow> 'k \<Rightarrow> 'k option" where
  "run_callbacks [] str k = Some k"
| "run_callbacks (cb # cbs) str k = do { k1 \<leftarrow> cb k str; run_callbacks cbs str k1 }"

definition out_count :: "bytes \<Rightarrow> 'k console_io \<Rightarrow> 'k console_io option" where
  "out_count str io = do {
     k \<leftarrow> run_callbacks (print_callbacks io) str (shared io);
     Some (io\<lparr>shared := k, serial := serial io @ str\<rparr>)
   }"

definition register_print_callback :: "('k \<Rightarrow> bytes \<Rightarrow> 'k option) \<Rightarrow> 'k console_io \<Rightarrow> 'k console_io" where
  "register_print_callback cb io = io\<lparr>print_callbacks := cb # print_callbacks io\<rparr>"

definition debug_stdio_write :: "'k console_io output_func" where
  "debug_stdio_write s io = do { io1 \<leftarrow> out_count s io; Some (sint (of_nat (length s) :: u32), io1) }"

definition io_write :: "'k console_io output_func" where
  "io_write buf io = debug_stdio_write buf io"

definition fputc :: "int \<Rightarrow> 'k console_io \<Rightarrow> (int \<times> 'k console_io) option" where
  "fputc c io = io_write [word_of_int c] io"

definition putchar :: "int \<Rightarrow> 'k console_io \<Rightarrow> (int \<times> 'k console_io) option" where
  "putchar c io = fputc c io"

definition fputs :: "bytes \<Rightarrow> 'k console_io \<Rightarrow> (int \<times> 'k console_io) option" where
  "fputs s io = do { len \<leftarrow> strlen s; io_write (take len s) io }"

definition puts :: "bytes \<Rightarrow> 'k console_io \<Rightarrow> (int \<times> 'k console_io) option" where
  "puts str io = do {
     (err, io1) \<leftarrow> fputs str io;
     if err \<ge> 0 then fputc 0x0A io1 else Some (err, io1)
   }"

definition fwrite :: "bytes \<Rightarrow> nat \<Rightarrow> nat \<Rightarrow> 'k console_io \<Rightarrow> (int \<times> 'k console_io) option" where
  "fwrite ptr sz num io =
     (if sz = 0 \<or> num = 0 then Some (0, io)
      else do {
        data \<leftarrow> mem_read ptr 0 (unat (of_nat (sz * num) :: u32));
        (written, io1) \<leftarrow> io_write data io;
        Some (if sz = 1 then written else int (unat (of_int written :: u32) div sz), io1)
      })"

definition fprintf_output_func :: "'k console_io output_func" where
  "fprintf_output_func str io = io_write str io"

definition vfprintf :: "bytes \<Rightarrow> va_arg list \<Rightarrow> 'k console_io \<Rightarrow> (int \<times> 'k console_io progress) option" where
  "vfprintf fmt ap io = printf_engine fprintf_output_func fmt ap \<lparr>sink = io, chars_written = 0, stores = []\<rparr>"

definition printf :: "bytes \<Rightarrow> va_arg list \<Rightarrow> 'k console_io \<Rightarrow> (int \<times> 'k console_io progress) option" where
  "printf fmt ap io = vfprintf fmt ap io"

end
