(* ===== verification/Printf_Spec.thy ===== *)
theory Printf_Spec
  imports Printf
begin

text \<open>
  The conversions of \<^verbatim>\<open>_printf_engine\<close>: the digits of a number stand in the number buffer as the decimal or the
  hexadecimal text of its value, and the engine prints a format piece by piece on every output that takes
  what it is given.
\<close>

section \<open>Digits\<close>

fun dec_text :: "nat \<Rightarrow> bytes" where
  "dec_text n = (if n < 10 then [of_nat n + 0x30] else dec_text (n div 10) @ [of_nat (n mod 10) + 0x30])"

fun hex_text :: "bytes \<Rightarrow> nat \<Rightarrow> bytes" where
  "hex_text table n = (if n < 16 then [table ! n] else hex_text table (n div 16) @ [table ! (n mod 16)])"

declare dec_text.simps [simp del] hex_text.simps [simp del]

lemma dec_text_Nil [simp]: "dec_text n \<noteq> []"
  by (subst dec_text.simps) simp

lemma hex_text_Nil [simp]: "hex_text t n \<noteq> []"
  by (subst hex_text.simps) simp

lemma dec_text_length: "n < 10 ^ Suc k \<Longrightarrow> length (dec_text n) \<le> Suc k"
proof (induction k arbitrary: n)
  case 0
  then show ?case by (subst dec_text.simps) simp
next
  case (Suc k)
  have "n div 10 < 10 ^ Suc k" using Suc.prems by (simp add: less_mult_imp_div_less)
  from Suc.IH [OF this] show ?case by (subst dec_text.simps) simp
qed

lemma hex_text_length: "n < 16 ^ Suc k \<Longrightarrow> length (hex_text t n) \<le> Suc k"
proof (induction k arbitrary: n)
  case 0
  then show ?case by (subst hex_text.simps) simp
next
  case (Suc k)
  have "n div 16 < 16 ^ Suc k" using Suc.prems by (simp add: less_mult_imp_div_less)
  from Suc.IH [OF this] show ?case by (subst hex_text.simps) simp
qed

lemma dec_text_u64: "length (dec_text (unat (n :: u64))) \<le> 20"
proof -
  have "unat n < 2 ^ 64" using unsigned_less [of n] by simp
  also have "(2 :: nat) ^ 64 < 10 ^ Suc 19" by simp
  finally show ?thesis using dec_text_length [of "unat n" 19] by simp
qed

lemma hex_text_u64: "length (hex_text t (unat (n :: u64))) \<le> 16"
proof -
  have "unat n < 2 ^ 64" using unsigned_less [of n] by simp
  also have "(2 :: nat) ^ 64 = 16 ^ Suc 15" by simp
  finally show ?thesis using hex_text_length [of "unat n" 15] by simp
qed

text \<open>Filling a buffer from the right: what is written stands in front of what was there.\<close>

definition filled :: "bytes \<Rightarrow> nat \<Rightarrow> bytes \<Rightarrow> bytes \<Rightarrow> nat \<Rightarrow> bool" where
  "filled buf pos str buf' pos' \<longleftrightarrow> pos' + length str = pos \<and> pos \<le> length buf \<and> buf' = take pos' buf @ str @ drop pos buf"

lemma filled_drop: "filled buf pos str buf' pos' \<Longrightarrow> drop pos' buf' = str @ drop pos buf"
  by (auto simp: filled_def)

lemma filled_length: "filled buf pos str buf' pos' \<Longrightarrow> length buf' = length buf"
  by (auto simp: filled_def)

lemma filled_le: "filled buf pos str buf' pos' \<Longrightarrow> pos' \<le> length buf'"
  using filled_length [of buf pos str buf' pos'] by (simp add: filled_def)

lemma filled_write:
  assumes "0 < pos" "pos \<le> length buf"
  shows "\<exists>buf1. mem_write buf (pos - 1) [c] = Some buf1 \<and> filled buf pos [c] buf1 (pos - 1)"
proof -
  have "pos - 1 + length [c] \<le> length buf" using assms by simp
  then have "mem_write buf (pos - 1) [c] = Some (take (pos - 1) buf @ [c] @ drop pos buf)" using assms(1) by (simp add: mem_write_def)
  moreover have "filled buf pos [c] (take (pos - 1) buf @ [c] @ drop pos buf) (pos - 1)" using assms by (simp add: filled_def)
  ultimately show ?thesis by blast
qed

lemma filled_trans:
  "filled buf pos s buf1 pos1 \<Longrightarrow> filled buf1 pos1 t buf2 pos2 \<Longrightarrow> filled buf pos (t @ s) buf2 pos2"
  by (auto simp: filled_def)

lemma unat_ucast_small: "unat (x :: u64) < 256 \<Longrightarrow> (ucast x :: u8) = of_nat (unat x)"
  by simp

lemma dec_loop_filled:
  assumes "length (dec_text (unat n)) \<le> pos" "pos \<le> length buf"
  shows "\<exists>buf' pos' n' ds. dec_loop buf pos n = Some (buf', pos', n') \<and> 0 < pos' \<and>
    dec_text (unat n) = (ucast n' + 0x30) # ds \<and> filled buf pos ds buf' pos'"
  using assms
proof (induction buf pos n rule: dec_loop.induct)
  case (1 buf pos n)
  show ?case
  proof (cases "n \<ge> 10")
    case True
    have u: "unat (n div 10) = unat n div 10" "unat (n mod 10) = unat n mod 10" by (simp_all add: unat_div unat_mod)
    have ge: "\<not> unat n < 10" using True by (simp add: word_le_nat_alt)
    have d: "dec_text (unat n) = dec_text (unat (n div 10)) @ [of_nat (unat n mod 10) + 0x30]" using ge u by (subst dec_text.simps) simp
    have c: "(ucast (n mod 10) :: u8) = of_nat (unat n mod 10)" using unat_ucast_small [of "n mod 10"] u by simp
    have pos: "0 < pos" "length (dec_text (unat (n div 10))) \<le> pos - 1" using 1(2) d by auto
    obtain buf1 where b1: "mem_write buf (pos - 1) [ucast (n mod 10) + 0x30] = Some buf1"
      "filled buf pos [ucast (n mod 10) + 0x30] buf1 (pos - 1)" using filled_write [OF pos(1) 1(3)] by blast
    have "pos - 1 \<le> length buf1" using b1(2) 1(3) by (simp add: filled_def)
    then obtain buf' pos' n' ds where r: "dec_loop buf1 (pos - 1) (n div 10) = Some (buf', pos', n')" "0 < pos'"
      "dec_text (unat (n div 10)) = (ucast n' + 0x30) # ds" "filled buf1 (pos - 1) ds buf' pos'"
      using 1(1) [OF True _ b1(1) pos(2)] pos(1) by auto
    have "dec_loop buf pos n = Some (buf', pos', n')" using True pos(1) b1(1) r(1) by (subst dec_loop.simps) simp
    moreover have "dec_text (unat n) = (ucast n' + 0x30) # ds @ [ucast (n mod 10) + 0x30]" unfolding d r(3) c by simp
    ultimately show ?thesis using r(2) filled_trans [OF b1(2) r(4)] by blast
  next
    case False
    then have lt: "unat n < 10" by (simp add: word_le_nat_alt)
    have "dec_text (unat n) = [ucast n + 0x30]" using lt unat_ucast_small [of n] by (subst dec_text.simps) simp
    moreover have "filled buf pos [] buf pos" using 1(3) by (simp add: filled_def)
    moreover have "dec_loop buf pos n = Some (buf, pos, n)" using False by (subst dec_loop.simps) simp
    ultimately show ?thesis using 1(2) by auto
  qed
qed

lemma hex_loop_filled:
  assumes "length (hex_text t (unat u)) \<le> pos" "pos \<le> length buf"
  shows "\<exists>buf' pos'. hex_loop t buf pos u = Some (buf', pos') \<and> filled buf pos (hex_text t (unat u)) buf' pos'"
  using assms
proof (induction t buf pos u rule: hex_loop.induct)
  case (1 t buf pos u)
  have m: "unat (u div 16) = unat u div 16" "unat (u mod 16) = unat u mod 16" by (simp_all add: unat_div unat_mod)
  have "hex_text t (unat u) \<noteq> []" by simp
  then have pos: "0 < pos" using 1(2) by (metis le_zero_eq length_0_conv neq0_conv)
  obtain buf1 where b1: "mem_write buf (pos - 1) [t ! unat (u mod 16)] = Some buf1" "filled buf pos [t ! unat (u mod 16)] buf1 (pos - 1)"
    using filled_write [OF pos 1(3)] by blast
  show ?case
  proof (cases "u div 16 = 0")
    case True
    then have "unat u div 16 = 0" using m(1) by simp
    then have "hex_text t (unat u) = [t ! unat (u mod 16)]" using m(2) by (subst hex_text.simps) simp
    then show ?thesis using True pos b1 by (subst hex_loop.simps) auto
  next
    case False
    then have "unat u div 16 \<noteq> 0" using m(1) by (metis unat_eq_zero)
    then have "\<not> unat u < 16" by simp
    then have d: "hex_text t (unat u) = hex_text t (unat (u div 16)) @ [t ! unat (u mod 16)]" using m by (subst hex_text.simps) simp
    then have len: "length (hex_text t (unat (u div 16))) \<le> pos - 1" using 1(2) by simp
    have "pos - 1 \<le> length buf1" using b1(2) 1(3) by (simp add: filled_def)
    then obtain buf' pos' where r: "hex_loop t buf1 (pos - 1) (u div 16) = Some (buf', pos')"
      "filled buf1 (pos - 1) (hex_text t (unat (u div 16))) buf' pos'" using 1(1) [OF _ b1(1) False len] pos by auto
    have "hex_loop t buf pos u = Some (buf', pos')" using False pos b1(1) r(1) by (subst hex_loop.simps) simp
    then show ?thesis using filled_trans [OF b1(2) r(2)] d by auto
  qed
qed

section \<open>The text of a number in the buffer\<close>

lemma text_at_drop:
  assumes "nonul str" "drop pos buf = str @ 0 # rest"
  shows "text_at buf pos = Some str"
proof -
  have "strlen (str @ 0 # rest) = Some (length str)" using assms(1) by (induction str) (auto simp: nonul_def)
  then show ?thesis by (simp add: text_at_def assms(2))
qed

lemma text_at_filled:
  assumes "nonul str" "filled buf pos str buf' pos'" "drop pos buf = 0 # rest"
  shows "text_at buf' pos' = Some str"
  using text_at_drop [OF assms(1)] filled_drop [OF assms(2)] assms(3) by simp

lemma unat_digit: "k < 10 \<Longrightarrow> unat (of_nat k + 0x30 :: u8) = k + 48"
proof -
  assume "k < 10"
  then have "k \<in> {0, 1, 2, 3, 4, 5, 6, 7, 8, 9}" by auto
  then show ?thesis by auto
qed

lemma digit_nonzero: "k < 10 \<Longrightarrow> (of_nat k + 0x30 :: u8) \<noteq> 0"
  using unat_digit [of k] by auto

lemma dec_text_nonul: "nonul (dec_text n)"
proof (induction n rule: dec_text.induct)
  case (1 n)
  show ?case
  proof (cases "n < 10")
    case True
    then show ?thesis using digit_nonzero [of n] by (subst dec_text.simps) (simp add: nonul_def)
  next
    case False
    then show ?thesis using 1 digit_nonzero [of "n mod 10"] by (subst dec_text.simps) (auto simp: nonul_def)
  qed
qed

lemma hex_table_nonzero: "k < 16 \<Longrightarrow> hex_table flag ! k \<noteq> 0"
proof -
  assume "k < 16"
  then have "hex_table flag ! k \<in> set (hex_table flag)" by (intro nth_mem) (simp add: hex_table_def hextable_def hextable_caps_def)
  then show ?thesis by (auto simp: hex_table_def hextable_def hextable_caps_def split: if_splits)
qed

lemma hex_text_nonul: "nonul (hex_text (hex_table flag) n)"
proof (induction "hex_table flag" n rule: hex_text.induct)
  case (1 n)
  show ?case
  proof (cases "n < 16")
    case True
    then show ?thesis using hex_table_nonzero [of n flag] by (subst hex_text.simps) (simp add: nonul_def)
  next
    case False
    then show ?thesis using 1 hex_table_nonzero [of "n mod 16" flag] by (subst hex_text.simps) (auto simp: nonul_def)
  qed
qed

definition sign_char :: "fflag set \<Rightarrow> bool \<Rightarrow> u8" where
  "sign_char flag negative = (if negative then 0x2D else if SHOWSIGNFLAG \<in> flag then 0x2B else if BLANKPOSFLAG \<in> flag then 0x20 else 0)"

definition magnitude :: "fflag set \<Rightarrow> u64 \<Rightarrow> nat" where
  "magnitude flag n = (if SIGNEDFLAG \<in> flag then nat \<bar>sint n\<bar> else unat n)"

lemma unat_abs: "sint (n :: u64) < 0 \<Longrightarrow> unat (- n) = nat (- sint n)" "\<not> sint n < 0 \<Longrightarrow> unat n = nat (sint n)"
proof -
  have u: "uint n = (if sint n < 0 then sint n + 2 ^ 64 else sint n)"
  proof -
    have "sint n = take_bit 64 (uint n) - (if bit n 63 then 2 ^ 64 else 0)"
      using signed_take_bit_eq_take_bit_minus [of 63 "uint n"] by (simp add: sint_uint bit_uint_iff)
    moreover have "take_bit 64 (uint n) = uint n" using uint_lt2p [of n] by (simp add: take_bit_int_eq_self)
    ultimately have "sint n = uint n \<or> sint n = uint n - 2 ^ 64" by (simp split: if_splits)
    then show ?thesis using uint_lt2p [of n] uint_nonnegative [of n] by auto
  qed
  show "\<not> sint n < 0 \<Longrightarrow> unat n = nat (sint n)" using u by (simp add: unat_eq_nat_uint)
  assume neg: "sint n < 0"
  then have "n \<noteq> 0" by auto
  then have "uint n \<noteq> 0" by (metis uint_0_iff)
  then have "uint (- n) = 2 ^ 64 - uint n" using uint_lt2p [of n] uint_nonnegative [of n] by (simp add: uint_word_ariths zmod_zminus1_eq_if)
  then show "unat (- n) = nat (- sint n)" using u neg by (simp add: unat_eq_nat_uint)
qed


lemma num_buffer_end:
  "length num_buffer = 32" "mem_write num_buffer 31 [0] = Some num_buffer" "drop 31 num_buffer = [0]"
  by (simp_all add: num_buffer_def mem_write_def numeral_eq_Suc)

lemma longlong_to_string_filled:
  assumes "length (dec_text (magnitude flag n)) < len" "len \<le> length buf"
  shows "\<exists>buf' pos. longlong_to_string buf n len flag = Some (buf', pos, sign_char flag (SIGNEDFLAG \<in> flag \<and> sint n < 0)) \<and>
     filled (take (len - 1) buf @ 0 # drop len buf) (len - 1) (dec_text (magnitude flag n)) buf' pos"
proof -
  define m where "m = (if SIGNEDFLAG \<in> flag \<and> sint n < 0 then - n else n)"
  have m: "unat m = magnitude flag n" using unat_abs [of n] by (auto simp: m_def magnitude_def)
  let ?b = "take (len - 1) buf @ 0 # drop len buf"
  have "dec_text (unat m) \<noteq> []" by simp
  then have len: "2 \<le> len" using assms(1) m by (cases "dec_text (unat m)") auto
  have l: "length ?b = length buf" using assms len by simp
  have w: "mem_write buf (len - 1) [0] = Some ?b" using assms len by (simp add: mem_write_def)
  obtain buf' pos' n' ds where r: "dec_loop ?b (len - 1) m = Some (buf', pos', n')" "0 < pos'"
    "dec_text (unat m) = (ucast n' + 0x30) # ds" "filled ?b (len - 1) ds buf' pos'"
  proof -
    have "length (dec_text (unat m)) \<le> len - 1" using assms(1) unfolding m by linarith
    moreover have "len - 1 \<le> length ?b" unfolding l using assms(2) by simp
    ultimately show ?thesis using dec_loop_filled [of m "len - 1" ?b] that by blast
  qed
  have "pos' \<le> length buf'" by (rule filled_le [OF r(4)])
  then obtain buf2 where b2: "mem_write buf' (pos' - 1) [ucast n' + 0x30] = Some buf2" "filled buf' pos' [ucast n' + 0x30] buf2 (pos' - 1)"
    using filled_write [OF r(2)] by blast
  have "filled ?b (len - 1) (dec_text (magnitude flag n)) buf2 (pos' - 1)" using filled_trans [OF r(4) b2(2)] r(3) m by simp
  moreover have "longlong_to_string buf n len flag = Some (buf2, pos' - 1, sign_char flag (SIGNEDFLAG \<in> flag \<and> sint n < 0))"
    using r(1,2) b2(1) len w unfolding longlong_to_string_def Let_def m_def [symmetric] by (simp add: sign_char_def)
  ultimately show ?thesis by blast
qed

lemma magnitude_length: "length (dec_text (magnitude flag n)) \<le> 20"
proof -
  have "magnitude flag n = unat (if SIGNEDFLAG \<in> flag \<and> sint n < 0 then - n else n)" using unat_abs [of n] by (auto simp: magnitude_def)
  then show ?thesis by (simp only: dec_text_u64)
qed

lemma longlong_to_string_text:
  "\<exists>buf pos. longlong_to_string num_buffer n 32 flag = Some (buf, pos, sign_char flag (SIGNEDFLAG \<in> flag \<and> sint n < 0)) \<and>
     text_at buf pos = Some (dec_text (magnitude flag n))"
proof -
  have b: "take (32 - 1) num_buffer @ 0 # drop 32 num_buffer = num_buffer" using num_buffer_end(1,2) by (simp add: mem_write_def)
  obtain buf pos where "longlong_to_string num_buffer n 32 flag = Some (buf, pos, sign_char flag (SIGNEDFLAG \<in> flag \<and> sint n < 0))"
    "filled num_buffer 31 (dec_text (magnitude flag n)) buf pos"
    using longlong_to_string_filled [of flag n 32 num_buffer] magnitude_length [of flag n] num_buffer_end(1) unfolding b by auto
  then show ?thesis using text_at_filled [OF dec_text_nonul _ num_buffer_end(3)] by blast
qed

lemma longlong_to_hexstring_text:
  "\<exists>buf pos. longlong_to_hexstring num_buffer n 32 flag = Some (buf, pos) \<and> text_at buf pos = Some (hex_text (hex_table flag) (unat n))"
proof -
  let ?t = "hex_text (hex_table flag) (unat n)"
  have "length ?t \<le> 31" using hex_text_u64 [of "hex_table flag" n] by simp
  then obtain buf' pos' where r: "hex_loop (hex_table flag) num_buffer 31 n = Some (buf', pos')" "filled num_buffer 31 ?t buf' pos'"
    using hex_loop_filled [of "hex_table flag" n 31 num_buffer] num_buffer_end(1) by auto
  have "text_at buf' pos' = Some ?t" by (rule text_at_filled [OF hex_text_nonul r(2) num_buffer_end(3)])
  then show ?thesis using r(1) by (simp add: longlong_to_hexstring_def num_buffer_end(2))
qed

section \<open>Outputs\<close>

text \<open>The text of a field, and what an effect prints and stores.\<close>

definition field_text :: "fflag set \<Rightarrow> nat \<Rightarrow> u8 \<Rightarrow> bytes \<Rightarrow> bytes" where
  "field_text flags w signchar s =
     (let sgn = (if signchar = 0 then [] else [signchar])
      in if LEFTFORMATFLAG \<in> flags then s @ replicate (w - length s) 0x20
         else if LEADZEROFLAG \<in> flags then sgn @ replicate (w - (length sgn + length s)) 0x30 @ s
         else replicate (w - (length sgn + length s)) 0x20 @ sgn @ s)"

fun effect_text :: "effect \<Rightarrow> bytes" where
  "effect_text Plain = []"
| "effect_text (Field flags num signchar s) = field_text flags (unat num) signchar s"
| "effect_text (Store p flags) = []"

fun effect_stores :: "effect \<Rightarrow> nat \<Rightarrow> (u32 \<times> nat \<times> u64) list" where
  "effect_stores (Store p flags) k = [(p, store_size flags, take_bit (8 * store_size flags) (ucast (of_nat k :: u32)))]"
| "effect_stores Plain k = []"
| "effect_stores (Field flags num signchar s) k = []"

definition has_printed :: "('s \<Rightarrow> bytes \<Rightarrow> bool) \<Rightarrow> 's progress \<Rightarrow> bytes \<Rightarrow> bool" where
  "has_printed shown g t \<longleftrightarrow> shown (sink g) t \<and> chars_written g = of_nat (length t)"

lemma concat_replicate_single: "concat (replicate n [c]) = replicate n c"
  by (induction n) auto

text \<open>
  An output: it takes every string as long as the whole text is one it is \<open>able\<close> to show, says that it took all of the string,
  and afterwards shows it behind what it showed before.
\<close>

locale printf_sink =
  fixes out :: "'s output_func"
    and shown :: "'s \<Rightarrow> bytes \<Rightarrow> bool"
    and able :: "bytes \<Rightarrow> bool"
  assumes able_prefix: "able (t @ b) \<Longrightarrow> able t"
    and takes: "shown st t \<Longrightarrow> able (t @ b) \<Longrightarrow> length (t @ b) < 2 ^ 31 \<Longrightarrow>
      \<exists>st'. out b st = Some (int (length b), st') \<and> shown st' (t @ b)"
begin

definition fits :: "bytes \<Rightarrow> bool" where
  "fits t \<longleftrightarrow> able t \<and> length t < 2 ^ 31"

lemma fits_left: "fits (a @ b) \<Longrightarrow> fits a"
  using able_prefix by (auto simp: fits_def)

lemma output_string_prints:
  assumes "has_printed shown g t" "fits (t @ b)"
  shows "\<exists>g'. output_string out b g = Some (Inr (int (length b), g')) \<and> has_printed shown g' (t @ b) \<and> stores g' = stores g"
proof -
  obtain st' where "out b (sink g) = Some (int (length b), st')" "shown st' (t @ b)"
    using takes [of "sink g" t b] assms by (auto simp: has_printed_def fits_def)
  then show ?thesis using assms(1) by (auto simp: output_string_def has_printed_def)
qed

lemma output_all_prints:
  "has_printed shown g t \<Longrightarrow> fits (t @ concat ss) \<Longrightarrow>
     \<exists>g'. output_all out ss g = Some (Inr g') \<and> has_printed shown g' (t @ concat ss) \<and> stores g' = stores g"
proof (induction ss arbitrary: g t)
  case Nil
  then show ?case by simp
next
  case (Cons s ss)
  obtain g1 where g1: "output_string out s g = Some (Inr (int (length s), g1))" "has_printed shown g1 (t @ s)" "stores g1 = stores g"
    using output_string_prints [OF Cons.prems(1), of s] Cons.prems(2) fits_left [of "t @ s" "concat ss"] by auto
  then show ?case using Cons.IH [OF g1(2)] Cons.prems(2) by auto
qed

lemma output_field_prints:
  assumes "has_printed shown g t" "fits (t @ field_text flags (unat num) signchar s)"
  shows "\<exists>g'. output_field out flags num signchar s g = Some (Inr g') \<and> has_printed shown g' (t @ field_text flags (unat num) signchar s) \<and>
    stores g' = stores g"
proof (cases "LEFTFORMATFLAG \<in> flags")
  case True
  let ?pad = "replicate (unat num - length s) [0x20 :: u8]"
  have f: "fits (t @ s @ concat ?pad)" using assms(2) True by (simp add: field_text_def concat_replicate_single)
  obtain g1 where g1: "output_string out s g = Some (Inr (int (length s), g1))" "has_printed shown g1 (t @ s)" "stores g1 = stores g"
    using output_string_prints [OF assms(1), of s] f fits_left [of "t @ s"] by auto
  have "length s < 2 ^ 32" using f by (simp add: fits_def)
  then have "unat (of_int (int (length s)) :: u32) = length s" by (simp add: unat_of_nat take_bit_nat_eq_self)
  then show ?thesis using True g1 output_all_prints [OF g1(2), of ?pad] f
    by (simp add: output_field_def field_text_def concat_replicate_single)
next
  case False
  define sgn where "sgn = (if signchar \<noteq> 0 then [[signchar]] else [])"
  define zero where "zero = (LEADZEROFLAG \<in> flags)"
  define ss where "ss = (if zero then sgn else []) @ replicate (unat (if signchar \<noteq> 0 \<and> num > 0 then num - 1 else num) - length s) [if zero then 0x30 else 0x20] @
      (if zero then [] else sgn) @ [s]"
  have "unat (if signchar \<noteq> 0 \<and> num > 0 then num - 1 else num) - length s = unat num - (length (if signchar = 0 then [] else [signchar]) + length s)"
    by (auto simp: word_less_nat_alt unat_sub_if' word_gt_0)
  then have c: "concat ss = field_text flags (unat num) signchar s"
    using False by (simp add: ss_def sgn_def zero_def field_text_def concat_replicate_single)
  have "output_field out flags num signchar s g = output_all out ss g"
    using False unfolding output_field_def ss_def sgn_def zero_def Let_def by simp
  then show ?thesis using output_all_prints [OF assms(1), of ss] assms(2) c by simp
qed

lemma perform_prints:
  assumes "has_printed shown g t" "fits (t @ effect_text e)"
  shows "\<exists>g'. perform out e g = Some (Inr g') \<and> has_printed shown g' (t @ effect_text e) \<and> stores g' = stores g @ effect_stores e (length t)"
proof (cases e)
  case Plain
  then show ?thesis using assms by (simp add: perform_def)
next
  case (Field flags num signchar s)
  then show ?thesis using assms output_field_prints [of g t flags num signchar s] by (simp add: perform_def)
next
  case (Store p flags)
  then show ?thesis using assms by (simp add: perform_def has_printed_def)
qed

lemma sint_length: "n < 2 ^ 31 \<Longrightarrow> sint (of_nat n :: u32) = int n"
  by (simp add: signed_of_nat signed_take_bit_int_eq_self)

lemma engine_end:
  assumes "has_printed shown g t" "fits (t @ p)" "\<forall>c \<in> set p. plain_char c"
  shows "\<exists>g'. printf_engine out (p @ 0 # rest) ap g = Some (int (length (t @ p)), g') \<and> has_printed shown g' (t @ p) \<and> stores g' = stores g"
proof -
  obtain g1 where g1: "output_string out p g = Some (Inr (int (length p), g1))" "has_printed shown g1 (t @ p)" "stores g1 = stores g"
    using output_string_prints [OF assms(1,2)] by blast
  have "finish g1 = (int (length (t @ p)), g1)"
    using g1(2) assms(2) sint_length [of "length (t @ p)"] by (simp add: finish_def has_printed_def fits_def)
  moreover have "takeWhile plain_char (p @ 0 # rest) = p" "dropWhile plain_char (p @ 0 # rest) = 0 # rest"
    using assms(3) by simp_all
  ultimately have "printf_engine out (p @ 0 # rest) ap g = Some (int (length (t @ p)), g1)"
    using g1(1) by (subst printf_engine.simps) simp
  then show ?thesis using g1 by blast
qed

lemma engine_conversion:
  assumes "has_printed shown g t" "\<forall>c \<in> set p. plain_char c"
    and conv: "next_format body {} 0 = Some (c, rest, flags, num)" "c \<noteq> 0" "conversion c flags num ap = Some (pieces, eff, ap1)"
    and fit: "fits (t @ p @ concat pieces @ effect_text eff)"
  shows "\<exists>g'. printf_engine out (p @ 0x25 # body) ap g = printf_engine out rest ap1 g' \<and>
    has_printed shown g' (t @ p @ concat pieces @ effect_text eff) \<and> stores g' = stores g @ effect_stores eff (length (t @ p @ concat pieces))"
proof -
  have f: "fits (t @ p)" "fits ((t @ p) @ concat pieces)"
    using fit fits_left [of "t @ p"] fits_left [of "(t @ p) @ concat pieces"] by simp_all
  obtain g1 where g1: "output_string out p g = Some (Inr (int (length p), g1))" "has_printed shown g1 (t @ p)" "stores g1 = stores g"
    using output_string_prints [OF assms(1) f(1)] by blast
  obtain g2 where g2: "output_all out pieces g1 = Some (Inr g2)" "has_printed shown g2 ((t @ p) @ concat pieces)" "stores g2 = stores g1"
    using output_all_prints [OF g1(2) f(2)] by blast
  obtain g3 where g3: "perform out eff g2 = Some (Inr g3)" "has_printed shown g3 (((t @ p) @ concat pieces) @ effect_text eff)"
    "stores g3 = stores g2 @ effect_stores eff (length ((t @ p) @ concat pieces))"
    using perform_prints [OF g2(2), of eff] fit by auto
  have "takeWhile plain_char (p @ 0x25 # body) = p" "dropWhile plain_char (p @ 0x25 # body) = 0x25 # body"
    using assms(2) by simp_all
  then have "printf_engine out (p @ 0x25 # body) ap g = printf_engine out rest ap1 g3"
    using g1(1) g2(1) g3(1) conv by (subst printf_engine.simps) simp
  then show ?thesis using g1(3) g2(3) g3 by auto
qed

end

end
