(* ===== verification/Printf_Double.thy ===== *)
theory Printf_Double
  imports Printf_Spec
begin

text \<open>
  The conversions of floating point numbers: their text fits the number buffer of 32 bytes whatever the
  number is, and the text of \<^verbatim>\<open>%f\<close> is exact up to the rounding of the fraction.
\<close>

section \<open>Hexadecimal\<close>

lemma hex_fraction_length: "length (hex_fraction tab f is z dot) \<le> (if dot then 0 else 1) + z + length is"
proof (induction tab f "is" z dot rule: hex_fraction.induct)
  case (2 tab f i "is" z dot)
  then show ?case by (cases "drop_bit i f AND 0xf = 0") (auto simp: Let_def)
qed simp

lemma exp_digits_length: "n < 10 ^ Suc k \<Longrightarrow> length (exp_digits n) \<le> Suc k"
proof (induction k arbitrary: n)
  case 0
  then show ?case by (subst exp_digits.simps) simp
next
  case (Suc k)
  have "n div 10 < 10 ^ Suc k" using Suc.prems by (simp add: less_mult_imp_div_less)
  from Suc.IH [OF this] show ?case by (subst exp_digits.simps) simp
qed

lemma caps_length: "length (caps flag u l) \<le> max (length u) (length l)"
  by (simp add: caps_def lit_def)

lemma text_at_written:
  assumes "length buf = 32" "length t < 32"
  shows "\<exists>buf' s. mem_write buf 0 (t @ [0]) = Some buf' \<and> text_at buf' 0 = Some s \<and> length s \<le> length t"
proof -
  let ?b = "t @ [0] @ drop (length t + 1) buf"
  have w: "mem_write buf 0 (t @ [0]) = Some ?b" using assms by (simp add: mem_write_def)
  have "\<exists>k. strlen (t @ 0 # r) = Some k \<and> k \<le> length t" for r
    by (induction t) auto
  then obtain k where "strlen ?b = Some k" "k \<le> length t" by auto
  then have "text_at ?b 0 = Some (take k ?b) \<and> length (take k ?b) \<le> length t" by (simp add: text_at_def)
  then show ?thesis using w by blast
qed

lemma exponent_length:
  assumes "e = drop_bit 52 (d :: u64) AND 0x7ff"
  shows "length (exponent_to_string (uint e - 1023)) \<le> 5"
proof -
  have "e \<le> 0x7ff" unfolding assms by (metis word_and_le1)
  then have "uint e \<le> 2047" by (simp add: word_le_def)
  moreover have "0 \<le> uint e" by (rule uint_nonnegative)
  ultimately have "\<bar>uint e - 1023\<bar> < 10000" by linarith
  then have "nat \<bar>uint e - 1023\<bar> < 10 ^ Suc 3" by simp
  from exp_digits_length [OF this] show ?thesis by (simp add: exponent_to_string_def)
qed

lemma double_to_hexstring_fits:
  assumes "length buf = 32"
  shows "\<exists>buf' pos s. double_to_hexstring buf len d flag = Some (buf', pos) \<and> text_at buf' pos = Some s \<and> length s \<le> 24"
proof -
  let ?is = "map (\<lambda>k. 48 - 4 * k) [0..<13]"
  define e where "e = drop_bit 52 d AND 0x7ff"
  define f where "f = d AND (push_bit 52 1 - 1)"
  define t where "t = (if bit d 63 then [0x2D] else []) @ (if e = 0x7ff then (if f = 0 then caps flag ''INF'' ''inf'' else caps flag ''NAN'' ''nan'')
     else if e = 0 then (if f = 0 then caps flag ''0X0P+0'' ''0x0p+0'' else caps flag ''DEN'' ''den'')
     else caps flag ''0X1'' ''0x1'' @ hex_fraction (hex_table flag) f ?is 0 False @ caps flag ''P'' ''p'' @ exponent_to_string (uint e - 1023))"
  have "length (exponent_to_string (uint e - 1023)) \<le> 5" by (rule exponent_length [OF e_def])
  moreover have "length (hex_fraction (hex_table flag) f ?is 0 False) \<le> 14" "length (hex_fraction (hex_table flag) 0 ?is 0 False) \<le> 14"
    using hex_fraction_length [of "hex_table flag" f ?is 0 False] hex_fraction_length [of "hex_table flag" 0 ?is 0 False] by simp_all
  moreover have c: "length (caps flag ''0X1'' ''0x1'') = 3" "length (caps flag ''P'' ''p'') = 1" "length (caps flag ''INF'' ''inf'') = 3"
    "length (caps flag ''NAN'' ''nan'') = 3" "length (caps flag ''DEN'' ''den'') = 3" "length (caps flag ''0X0P+0'' ''0x0p+0'') = 6"
    by (simp_all add: caps_def lit_def)
  ultimately have len: "length t \<le> 24" by (simp add: t_def)
  then obtain buf' s where "mem_write buf 0 (t @ [0]) = Some buf'" "text_at buf' 0 = Some s" "length s \<le> length t"
    using text_at_written [OF assms, of t] by auto
  moreover have "double_to_hexstring buf len d flag = do { b \<leftarrow> mem_write buf 0 (t @ [0]); Some (b, 0) }"
    by (simp only: double_to_hexstring_def Let_def t_def e_def f_def append_assoc)
  ultimately show ?thesis using len by auto
qed

section \<open>Decimal\<close>

lemma outrev_filled:
  "length cs \<le> pos \<Longrightarrow> pos \<le> length buf \<Longrightarrow>
     \<exists>buf'. outrev cs buf pos = Some (False, buf', pos - length cs) \<and> filled buf pos (rev cs) buf' (pos - length cs)"
proof (induction cs arbitrary: buf pos)
  case Nil
  then show ?case by (simp add: filled_def)
next
  case (Cons c cs)
  have pos: "0 < pos" using Cons.prems(1) by simp
  obtain buf1 where b1: "mem_write buf (pos - 1) [c] = Some buf1" "filled buf pos [c] buf1 (pos - 1)"
    using filled_write [OF pos Cons.prems(2)] by blast
  have "length cs \<le> pos - 1" "pos - 1 \<le> length buf1" using Cons.prems(1) filled_le [OF b1(2)] by simp_all
  from Cons.IH [OF this] obtain buf' where "outrev cs buf1 (pos - 1) = Some (False, buf', pos - 1 - length cs)"
    "filled buf1 (pos - 1) (rev cs) buf' (pos - 1 - length cs)" by blast
  then show ?case using pos b1(1) filled_trans [OF b1(2)] by auto
qed

definition frac_digits :: "nat \<Rightarrow> bytes" where
  "frac_digits n = (if n = 0 then [] else dec_text n)"

definition frac_text :: "nat \<Rightarrow> bytes" where
  "frac_text n = take (7 - length (frac_digits n)) (0x2E # replicate 6 0x30) @ frac_digits n"

lemma frac_digits_step: "0 < n \<Longrightarrow> frac_digits n = frac_digits (n div 10) @ [of_nat (n mod 10) + 0x30]"
  unfolding frac_digits_def by (subst dec_text.simps) auto

lemma frac_loop_filled:
  "length (frac_digits n) \<le> i \<Longrightarrow> i \<le> length buf \<Longrightarrow>
     \<exists>buf'. frac_loop buf i n = Some buf' \<and> filled buf i (frac_digits n) buf' (i - length (frac_digits n))"
proof (induction buf i n rule: frac_loop.induct)
  case (1 buf i n)
  show ?case
  proof (cases "n = 0")
    case True
    then show ?thesis using 1(3) by (subst frac_loop.simps) (simp add: frac_digits_def filled_def)
  next
    case False
    then have d: "frac_digits n = frac_digits (n div 10) @ [of_nat (n mod 10) + 0x30]" using frac_digits_step by simp
    then have i: "0 < i" "length (frac_digits (n div 10)) \<le> i - 1" using 1(2) by auto
    obtain buf1 where b1: "mem_write buf (i - 1) [of_nat (n mod 10) + 0x30] = Some buf1" "filled buf i [of_nat (n mod 10) + 0x30] buf1 (i - 1)"
      using filled_write [OF i(1) 1(3)] by blast
    obtain buf' where r: "frac_loop buf1 (i - 1) (n div 10) = Some buf'" "filled buf1 (i - 1) (frac_digits (n div 10)) buf' (i - 1 - length (frac_digits (n div 10)))"
      using 1(1) [OF False _ b1(1) i(2) filled_le [OF b1(2)]] i(1) by auto
    have "frac_loop buf i n = Some buf'" using False i(1) b1(1) r(1) by (subst frac_loop.simps) simp
    then show ?thesis using filled_trans [OF b1(2) r(2)] d by auto
  qed
qed

lemma round53_le: "round53 n \<le> 2 * n"
proof -
  have bl: "n \<noteq> 0 \<Longrightarrow> 2 ^ (bit_len n - 1) \<le> n" for n
  proof (induction n rule: bit_len.induct)
    case (1 n)
    show ?case
    proof (cases "n div 2 = 0")
      case True
      then show ?thesis using 1(2) by (subst bit_len.simps) (simp add: bit_len.simps [of 0])
    next
      case False
      then have "2 ^ (bit_len (n div 2) - 1) \<le> n div 2" using 1 by simp
      moreover have "0 < bit_len (n div 2)" using False by (subst bit_len.simps) simp
      ultimately have "2 ^ bit_len (n div 2) \<le> 2 * (n div 2)" by (cases "bit_len (n div 2)") simp_all
      then show ?thesis using 1(2) by (subst bit_len.simps) simp
    qed
  qed
  define s where "s = bit_len n - 53"
  define q where "q = n div 2 ^ s"
  have q: "q * 2 ^ s \<le> n" by (simp add: q_def)
  have r: "round53 n = (if 2 * (n mod 2 ^ s) > 2 ^ s \<or> 2 * (n mod 2 ^ s) = 2 ^ s \<and> odd q then q + 1 else q) * 2 ^ s"
    by (simp add: round53_def s_def q_def Let_def)
  show ?thesis
  proof (cases "s = 0")
    case True
    then show ?thesis using q unfolding r by simp
  next
    case False
    then have "n \<noteq> 0" "s \<le> bit_len n - 1" by (auto simp: s_def bit_len.simps [of 0] intro: ccontr)
    then have "2 ^ s \<le> n" using bl [of n] power_increasing [of s "bit_len n - 1" "2 :: nat"] by linarith
    then have "(q + 1) * 2 ^ s \<le> 2 * n" using q by (simp add: algebra_simps)
    then show ?thesis using q unfolding r by (auto intro: order_trans)
  qed
qed

definition whole_part :: "u64 \<Rightarrow> int \<Rightarrow> u64" where
  "whole_part fraction e = (if e \<ge> 0 then drop_bit (nat (52 - e)) (fraction OR push_bit 52 1) else 0)"

lemma fraction_bound: "unat (d AND (push_bit 52 1 - 1) :: u64) < 2 ^ 52"
proof -
  have "d AND (push_bit 52 1 - 1) \<le> push_bit 52 1 - 1" by (rule word_and_le1)
  then show ?thesis by (simp add: word_le_nat_alt)
qed

lemma unat_whole_part:
  assumes "unat f < 2 ^ 52" "0 \<le> e" "e \<le> 52"
  shows "unat (whole_part f e) = (unat f + 2 ^ 52) div 2 ^ nat (52 - e)"
proof -
  have "f AND push_bit 52 1 = 0"
  proof (rule bit_eqI)
    fix n
    have "\<not> bit (unat f) 52" using assms(1) by (simp add: bit_iff_odd)
    then have "\<not> bit f 52" by (simp add: bit_unsigned_iff)
    moreover have "bit (push_bit 52 1 :: u64) n \<Longrightarrow> n = 52" by (simp only: bit_push_bit_iff bit_1_iff) simp
    ultimately show "bit (f AND push_bit 52 1) n = bit 0 n" by (simp only: bit_and_iff bit_0_eq bot_apply) auto
  qed
  then have "f OR push_bit 52 1 = f + push_bit 52 1" by (metis word_plus_and_or add_0)
  moreover have "unat (f + push_bit 52 1) = unat f + 2 ^ 52" using assms(1) by (subst unat_add_lem [THEN iffD1]) simp_all
  moreover have "unat (drop_bit k w) = unat w div 2 ^ k" for k and w :: u64
  proof -
    have "take_bit 64 (unat w) = unat w" using unsigned_less [of w, where ?'a = nat] by (simp add: take_bit_nat_eq_self)
    then show ?thesis by (subst unsigned_drop_bit_eq) (simp add: drop_bit_eq_div)
  qed
  ultimately show ?thesis using assms(2) by (simp only: whole_part_def if_True)
qed

lemma frac_value_bound:
  assumes "unat f < 2 ^ 52" "- 52 \<le> e" "e \<le> 52"
  shows "frac_value f e (whole_part f e) < 10 ^ 7"
proof -
  let ?g = "unat f + 2 ^ 52" and ?d = "(unat f + 2 ^ 52) * 2 ^ nat (e + 52)"
  have rest: "?d - unat (whole_part f e) * 2 ^ 104 < 2 ^ 104"
  proof (cases "0 \<le> e")
    case True
    let ?k = "nat (52 - e)" and ?j = "nat (e + 52)"
    have kj: "(2 :: nat) ^ 104 = 2 ^ ?k * 2 ^ ?j" using True assms(3) by (simp flip: power_add nat_add_distrib)
    have "?g = ?g div 2 ^ ?k * 2 ^ ?k + ?g mod 2 ^ ?k" by (simp only: div_mult_mod_eq)
    then have "?d = (?g div 2 ^ ?k * 2 ^ ?k + ?g mod 2 ^ ?k) * 2 ^ ?j" by simp
    then have "?d = ?g div 2 ^ ?k * 2 ^ 104 + ?g mod 2 ^ ?k * 2 ^ ?j" unfolding kj by (simp only: add_mult_distrib mult.assoc)
    then have "?d - unat (whole_part f e) * 2 ^ 104 = ?g mod 2 ^ ?k * 2 ^ ?j" unfolding unat_whole_part [OF assms(1) True assms(3)] by simp
    also have "\<dots> < 2 ^ ?k * 2 ^ ?j" by simp
    finally show ?thesis unfolding kj .
  next
    case False
    have "nat (e + 52) \<le> 51" using False by simp
    then have "(2 :: nat) ^ nat (e + 52) \<le> 2 ^ 51" by (intro power_increasing) simp_all
    moreover have "?g < 2 ^ 53" using assms(1) by simp
    ultimately have "?d < 2 ^ 53 * 2 ^ 51" by (intro mult_less_le_imp_less) simp_all
    then show ?thesis by simp
  qed
  define r where "r = ?d - unat (whole_part f e) * 2 ^ 104"
  have "round53 (r * 1000000) \<le> 2 * (2 ^ 104 * 1000000)" using round53_le [of "r * 1000000"] rest by (simp add: r_def)
  then have "round53 (round53 (r * 1000000) + 2 ^ 103) \<le> 2 * (2 * (2 ^ 104 * 1000000) + 2 ^ 103)"
    using round53_le [of "round53 (r * 1000000) + 2 ^ 103"] by simp
  then have "round53 (round53 (r * 1000000) + 2 ^ 103) div 2 ^ 104 \<le> (2 * (2 * (2 ^ 104 * 1000000) + 2 ^ 103)) div 2 ^ 104" by (rule div_le_mono)
  then show ?thesis unfolding frac_value_def Let_def r_def [symmetric] by simp
qed

text \<open>The buffer of a number in range: the digits of the whole part, a point, and six digits that the fraction is written into.\<close>

lemma whole_written:
  assumes "length buf = 32" "drop 24 buf = replicate 7 0x30 @ [0]" "unat f < 2 ^ 52" "- 52 \<le> e" "e \<le> 52"
  defines "u \<equiv> whole_part f e"
  shows "\<exists>buf' pos. (if e \<ge> 0 then do { (b, p, _) \<leftarrow> longlong_to_string buf u (24 + 1) flag; Some (False, b, p) } else outrev [0x30] buf 24) =
      Some (False, buf', pos) \<and> length buf' = 32 \<and> pos + length (dec_text (unat u)) = 24 \<and> 1 < pos \<and>
    (\<exists>x. drop pos buf' = dec_text (unat u) @ x # replicate 6 0x30 @ [0])"
proof (cases "e \<ge> 0")
  case True
  have d25: "drop 25 buf = replicate 6 0x30 @ [0]" using arg_cong [OF assms(2), of "drop 1"] by simp
  have "unat u < 2 ^ 53"
    unfolding u_def unat_whole_part [OF assms(3) True assms(5)] using assms(3) by (intro div_le_dividend [THEN le_less_trans]) simp
  then have "unat u < 10 ^ Suc 15" by simp
  from dec_text_length [OF this] have len: "length (dec_text (unat u)) \<le> 16" by simp
  have "nat (uint u) < 2 ^ 53" using \<open>unat u < 2 ^ 53\<close> by (simp only: unat_eq_nat_uint)
  then have "nat (uint u) < 9007199254740992" by simp
  then have "uint u < 9007199254740992" by arith
  then have "uint u < 2 ^ 63" by simp
  moreover have "- (2 ^ 63) \<le> uint u" using uint_nonnegative [of u] by (rule order_trans [rotated]) simp
  ultimately have "signed_take_bit 63 (uint u) = uint u" by (intro signed_take_bit_int_eq_self)
  then have "\<not> sint u < 0" using uint_nonnegative [of u] by (simp add: sint_uint)
  then have m: "magnitude flag u = unat u" using unat_abs(2) [of u] by (simp add: magnitude_def)
  obtain buf' pos sc where r: "longlong_to_string buf u 25 flag = Some (buf', pos, sc)"
    "filled (take 24 buf @ 0 # drop 25 buf) 24 (dec_text (unat u)) buf' pos"
    using longlong_to_string_filled [of flag u 25 buf] m len assms(1) by auto
  have "drop 24 (take 24 buf @ 0 # drop 25 buf) = 0 # replicate 6 0x30 @ [0]" using assms(1) d25 by simp
  then show ?thesis using True r(1) filled_drop [OF r(2)] filled_length [OF r(2)] r(2) assms(1) len by (auto simp: filled_def)
next
  case False
  then have "u = 0" by (simp add: u_def whole_part_def)
  then have t: "dec_text (unat u) = [0x30]" by (subst dec_text.simps) simp
  obtain buf' where "outrev [0x30] buf 24 = Some (False, buf', 24 - length [0x30 :: u8])" "filled buf 24 (rev [0x30]) buf' (24 - length [0x30 :: u8])"
    using outrev_filled [of "[0x30]" 24 buf] assms(1) by auto
  moreover have "replicate 7 (0x30 :: u8) = 0x30 # replicate 6 0x30" by (simp add: numeral_eq_Suc)
  ultimately show ?thesis using False t filled_drop [of buf 24 "[0x30]" buf' 23] filled_length [of buf 24 "[0x30]" buf' 23] assms(1,2) by auto
qed


lemma frac_digits_length: "n < 10 ^ 7 \<Longrightarrow> length (frac_digits n) \<le> 7"
  using dec_text_length [of n 6] by (simp add: frac_digits_def)

lemma frac_text_nonul: "nonul (frac_text n)"
proof -
  have "nonul (frac_digits n)" using dec_text_nonul [of n] by (simp add: frac_digits_def nonul_def)
  moreover have "0 \<notin> set (take k (0x2E # replicate 6 (0x30 :: u8)))" for k by (auto dest!: in_set_takeD)
  ultimately show ?thesis by (auto simp: frac_text_def nonul_def)
qed

lemma filled_drop_before: "filled buf i str buf' k \<Longrightarrow> p \<le> k \<Longrightarrow> drop p buf' = drop p (take k buf) @ str @ drop i buf"
  by (auto simp: filled_def)

lemma fraction_written:
  assumes "length buf = 32" "pos + length w = 24" "1 < pos" "drop pos buf = w @ x # replicate 6 0x30 @ [0]" "n < 10 ^ 7" "length sg \<le> 1" "nonul w" "nonul sg"
  shows "\<exists>buf5 pos5. do {
       buf3 \<leftarrow> mem_write buf 24 [0x2E];
       buf4 \<leftarrow> frac_loop buf3 (24 + 6 + 1) n;
       (_, buf5, pos5) \<leftarrow> outrev sg buf4 pos;
       Some (buf5, pos5)
     } = Some (buf5, pos5) \<and> text_at buf5 pos5 = Some (sg @ w @ frac_text n)"
proof -
  define D where "D = frac_digits n"
  let ?b3 = "take 24 buf @ 0x2E # drop 25 buf"
  have b3: "mem_write buf 24 [0x2E] = Some ?b3" "length ?b3 = 32" using assms(1) by (simp_all add: mem_write_def)
  have lD: "length D \<le> 7" unfolding D_def by (rule frac_digits_length [OF assms(5)])
  have "length (frac_digits n) \<le> 31" "31 \<le> length ?b3" using lD unfolding b3(2) D_def by simp_all
  from frac_loop_filled [OF this] obtain b4 where b4: "frac_loop ?b3 31 n = Some b4" "filled ?b3 31 D b4 (31 - length D)"
    unfolding D_def by blast
  have pos: "pos \<le> 24" "length b4 = 32" using assms(2) filled_length [OF b4(2)] b3(2) by auto
  obtain b5 where b5: "outrev sg b4 pos = Some (False, b5, pos - length sg)" "filled b4 pos (rev sg) b5 (pos - length sg)"
    using outrev_filled [of sg pos b4] assms(3,6) pos by auto
  have "rev sg = sg" using assms(6) by (cases sg) auto
  have d3: "drop pos ?b3 = w @ 0x2E # replicate 6 0x30 @ [0]"
  proof -
    have "take (24 - pos) (drop pos buf) = w" using assms(2,4) by simp
    moreover have "drop 25 buf = drop (25 - pos) (drop pos buf)" using pos(1) by simp
    moreover have "drop (25 - pos) (drop pos buf) = replicate 6 0x30 @ [0]" unfolding assms(4) using assms(2) by (simp add: Suc_diff_le pos(1))
    ultimately show ?thesis using pos(1) assms(1) by (simp add: drop_take)
  qed
  have "drop pos b4 = drop pos (take (31 - length D) ?b3) @ D @ drop 31 ?b3"

    by (rule filled_drop_before [OF b4(2)]) (use lD pos(1) in linarith)
  also have "drop pos (take (31 - length D) ?b3) = take (31 - length D - pos) (drop pos ?b3)" by (rule drop_take)
  also have "\<dots> = w @ take (7 - length D) (0x2E # replicate 6 0x30)"
  proof -
    have k: "31 - length D - pos = length w + (7 - length D)" using assms(2) lD by linarith
    have "take (7 - length D) (0x2E # replicate 6 0x30 @ [0]) = take (7 - length D) ((0x2E # replicate 6 0x30) @ [0 :: u8])" by simp
    also have "\<dots> = take (7 - length D) (0x2E # replicate 6 0x30)" by (subst take_append) simp
    finally show ?thesis unfolding d3 k by simp
  qed
  also have "drop 31 ?b3 = [0]"
  proof -
    have "31 - pos = length w + 7" using assms(2) by linarith
    then have "drop (31 - pos) (drop pos ?b3) = [0]" unfolding d3 by simp
    moreover have "drop (31 - pos) (drop pos ?b3) = drop 31 ?b3" using pos(1) by (subst drop_drop) simp
    ultimately show ?thesis by simp
  qed
  finally have d4: "drop pos b4 = (w @ frac_text n) @ 0 # []" by (simp add: frac_text_def D_def)
  have "drop (pos - length sg) b5 = (sg @ w @ frac_text n) @ 0 # []" using filled_drop [OF b5(2)] d4 \<open>rev sg = sg\<close> by simp
  moreover have "nonul (sg @ w @ frac_text n)" using assms(7,8) frac_text_nonul [of n] by (auto simp: nonul_def)
  ultimately have "text_at b5 (pos - length sg) = Some (sg @ w @ frac_text n)" using text_at_drop by blast
  then show ?thesis using b3(1) b4(1) b5(1) by simp
qed


text \<open>The text of \<^verbatim>\<open>%f\<close>.\<close>

definition double_text :: "u64 \<Rightarrow> fflag set \<Rightarrow> bytes" where
  "double_text d flag =
     (let e = drop_bit 52 d AND 0x7ff; f = d AND (push_bit 52 1 - 1); x = uint e - 1023
      in (if bit d 63 then [0x2D] else []) @
         (if e = 0x7ff then (if f = 0 then caps flag ''INF'' ''inf'' else caps flag ''NAN'' ''nan'')
          else if e = 0 then (if f = 0 then lit ''0.000000'' else caps flag ''DEN'' ''den'')
          else if x < - 52 \<or> x > 52 then lit ''<range>''
          else dec_text (unat (whole_part f x)) @ frac_text (frac_value f x (whole_part f x))))"

lemma whole_text_at:
  assumes "length buf = 32" "nonul t" "length t < 32"
  shows "\<exists>buf'. mem_write buf 0 (t @ [0]) = Some buf' \<and> text_at buf' 0 = Some t"
proof -
  have "mem_write buf 0 (t @ [0]) = Some (t @ [0] @ drop (length t + 1) buf)" using assms by (simp add: mem_write_def)
  moreover have "text_at (t @ [0] @ drop (length t + 1) buf) 0 = Some t" using text_at_drop [OF assms(2)] by simp
  ultimately show ?thesis by blast
qed

lemma double_to_string_text:
  assumes buf: "length buf = 32"
  shows "\<exists>buf' pos. double_to_string buf 32 d flag = Some (buf', pos) \<and> text_at buf' pos = Some (double_text d flag)"
proof -
  define e where "e = drop_bit 52 d AND 0x7ff"
  define f where "f = d AND (push_bit 52 1 - 1)"
  define sg where "sg = (if bit d 63 then [0x2D :: u8] else [])"
  define x where "x = uint e - 1023"
  have sg: "length sg \<le> 1" "nonul sg" by (simp_all add: sg_def nonul_def)
  note defs = double_to_string_def double_text_def Let_def e_def [symmetric] f_def [symmetric] sg_def [symmetric] x_def [symmetric]
  consider (special) "e = 0x7ff \<or> e = 0 \<or> x < - 52 \<or> x > 52" | (range) "e \<noteq> 0x7ff" "e \<noteq> 0" "- 52 \<le> x" "x \<le> 52" by linarith
  then show ?thesis
  proof cases
    case special
    then obtain t where t: "double_text d flag = sg @ t" "nonul t" "length t < 30"
      "double_to_string buf 32 d flag = do { b \<leftarrow> mem_write buf 0 (sg @ t @ [0]); Some (b, 0) }"
      unfolding defs by (force simp: caps_def lit_def nonul_def split: if_splits)
    have "nonul (sg @ t)" using sg t by (auto simp: nonul_def)
    then show ?thesis using whole_text_at [OF buf, of "sg @ t"] t sg by auto
  next
    case range
    have f: "unat f < 2 ^ 52" unfolding f_def by (rule fraction_bound)
    let ?b0 = "sg @ drop (length sg) buf"
    have b0: "mem_write buf 0 sg = Some ?b0" "length ?b0 = 32" using buf sg(1) by (simp_all add: mem_write_def)
    obtain b1 where b1: "outrev (0 # replicate 7 0x30) ?b0 32 = Some (False, b1, 24)" "filled ?b0 32 (rev (0 # replicate 7 0x30)) b1 24"
      using outrev_filled [of "0 # replicate 7 0x30" 32 ?b0] b0(2) by auto
    have l1: "length b1 = 32" "drop 24 b1 = replicate 7 0x30 @ [0]" using filled_length [OF b1(2)] filled_drop [OF b1(2)] b0(2) by simp_all
    obtain b2 pos y where b2: "(if x \<ge> 0 then do { (b, p, _) \<leftarrow> longlong_to_string b1 (whole_part f x) (24 + 1) flag; Some (False, b, p) }
        else outrev [0x30] b1 24) = Some (False, b2, pos)"
      "length b2 = 32" "pos + length (dec_text (unat (whole_part f x))) = 24" "1 < pos"
      "drop pos b2 = dec_text (unat (whole_part f x)) @ y # replicate 6 0x30 @ [0]"
      using whole_written [OF l1 f range(3,4), of flag] by blast
    obtain b5 pos5 where b5: "do { buf3 \<leftarrow> mem_write b2 24 [0x2E]; buf4 \<leftarrow> frac_loop buf3 (24 + 6 + 1) (frac_value f x (whole_part f x));
         (_, buf5, pos5) \<leftarrow> outrev sg buf4 pos; Some (buf5, pos5) } = Some (b5, pos5)"
      "text_at b5 pos5 = Some (sg @ dec_text (unat (whole_part f x)) @ frac_text (frac_value f x (whole_part f x)))"
      using fraction_written [OF b2(2,3,4,5) frac_value_bound [OF f range(3,4)] sg(1) dec_text_nonul sg(2)] by blast
    have "double_to_string buf 32 d flag = Some (b5, pos5)"
      using range b0(1) b1(1) b2(1) b5(1) unfolding defs whole_part_def [symmetric] by (simp del: outrev.simps)
    moreover have "double_text d flag = sg @ dec_text (unat (whole_part f x)) @ frac_text (frac_value f x (whole_part f x))"
      using range unfolding defs by simp
    ultimately show ?thesis using b5(2) by simp
  qed
qed

text \<open>A fraction that rounds up to a whole has seven digits, and the first of them is written over the point.\<close>

lemma dec_text_length_ge: "10 ^ k \<le> n \<Longrightarrow> k < length (dec_text n)"
proof (induction k arbitrary: n)
  case 0
  then show ?case by simp
next
  case (Suc k)
  have d: "10 ^ k \<le> n div 10" using Suc.prems by (simp add: less_eq_div_iff_mult_less_eq mult.commute)
  moreover have "(1 :: nat) \<le> 10 ^ k" by simp
  ultimately have "\<not> n < 10" by (metis div_less le_trans not_one_le_zero)
  then show ?case using Suc.IH [OF d] by (subst dec_text.simps) simp
qed

lemma point_overwritten: "1000000 \<le> n \<Longrightarrow> n < 10 ^ 7 \<Longrightarrow> frac_text n = dec_text n"
  using dec_text_length_ge [of 6 n] by (simp add: frac_text_def frac_digits_def)

end
