(* ===== verification/Printf_Directives.thy ===== *)
theory Printf_Directives
  imports Printf_Double
begin

text \<open>
  What a format asks for: a call of \<^verbatim>\<open>printf\<close> is a list of directives, each with its text in the format,
  the arguments it takes, and the text it prints. The engine prints the text of the directives in their order.
\<close>

section \<open>Directives\<close>

text \<open>
  A directive with its options, the size of its argument and the value passed. A left-justified number is has_printed
  without its sign, and the prefix of an alternative form does not count for the width: this is what the
  engine does with them.
\<close>

record options =
  left_opt :: bool
  zero_opt :: bool
  plus_opt :: bool
  blank_opt :: bool
  alt_opt :: bool
  width_opt :: nat

datatype arg_size = Size_char | Size_short | Size_int | Size_long | Size_longlong | Size_size | Size_max | Size_diff

datatype directive =
    Text bytes
  | Percent
  | Character u32
  | String options "bytes option"
  | Signed options bool arg_size u64
  | Unsigned options arg_size u64
  | Hexadecimal options bool arg_size u64
  | Pointer options u32
  | Count arg_size u32
  | Fixed options bool u64

definition options_text :: "options \<Rightarrow> bytes" where
  "options_text opt = (if left_opt opt then [0x2D] else []) @ (if plus_opt opt then [0x2B] else []) @ (if blank_opt opt then [0x20] else []) @
     (if alt_opt opt then [0x23] else []) @ (if zero_opt opt then [0x30] else []) @
     (if width_opt opt = 0 then [] else dec_text (width_opt opt))"

fun size_text :: "arg_size \<Rightarrow> bytes" where
  "size_text Size_char = [0x68, 0x68]"
| "size_text Size_short = [0x68]"
| "size_text Size_int = []"
| "size_text Size_long = [0x6C]"
| "size_text Size_longlong = [0x6C, 0x6C]"
| "size_text Size_size = [0x7A]"
| "size_text Size_max = [0x6A]"
| "size_text Size_diff = [0x74]"

fun format_of :: "directive \<Rightarrow> bytes" where
  "format_of (Text t) = t"
| "format_of Percent = [0x25, 0x25]"
| "format_of (Character w) = [0x25, 0x63]"
| "format_of (String opt s) = 0x25 # options_text opt @ [0x73]"
| "format_of (Signed opt i sz w) = 0x25 # options_text opt @ size_text sz @ [if i then 0x69 else 0x64]"
| "format_of (Unsigned opt sz w) = 0x25 # options_text opt @ size_text sz @ [0x75]"
| "format_of (Hexadecimal opt up sz w) = 0x25 # options_text opt @ size_text sz @ [if up then 0x58 else 0x78]"
| "format_of (Pointer opt w) = 0x25 # options_text opt @ [0x70]"
| "format_of (Count sz p) = 0x25 # size_text sz @ [0x6E]"
| "format_of (Fixed opt up d) = 0x25 # options_text opt @ [if up then 0x46 else 0x66]"

definition number_arg :: "arg_size \<Rightarrow> u64 \<Rightarrow> va_arg" where
  "number_arg sz w = (if sz = Size_longlong \<or> sz = Size_max then Va_ll w else Va_int (ucast w))"

fun args_of :: "directive \<Rightarrow> va_arg list" where
  "args_of (Text t) = []"
| "args_of Percent = []"
| "args_of (Character w) = [Va_int w]"
| "args_of (String opt s) = [Va_str (map_option cstr s)]"
| "args_of (Signed opt i sz w) = [number_arg sz w]"
| "args_of (Unsigned opt sz w) = [number_arg sz w]"
| "args_of (Hexadecimal opt up sz w) = [number_arg sz w]"
| "args_of (Pointer opt w) = [Va_int w]"
| "args_of (Count sz p) = [Va_int p]"
| "args_of (Fixed opt up d) = [Va_double d]"

fun size_bits :: "arg_size \<Rightarrow> nat" where
  "size_bits Size_char = 8"
| "size_bits Size_short = 16"
| "size_bits Size_longlong = 64"
| "size_bits Size_max = 64"
| "size_bits _ = 32"

definition signed_value :: "arg_size \<Rightarrow> u64 \<Rightarrow> int" where
  "signed_value sz w = signed_take_bit (size_bits sz - 1) (uint w)"

definition unsigned_value :: "arg_size \<Rightarrow> u64 \<Rightarrow> nat" where
  "unsigned_value sz w = take_bit (size_bits sz) (unat w)"

text \<open>A field of some text with the sign it is given.\<close>

definition padded :: "options \<Rightarrow> bool \<Rightarrow> bytes \<Rightarrow> bytes \<Rightarrow> bytes" where
  "padded opt zero sg s =
     (if left_opt opt then s @ replicate (width_opt opt - length s) 0x20
      else if zero then sg @ replicate (width_opt opt - length (sg @ s)) 0x30 @ s
      else replicate (width_opt opt - length (sg @ s)) 0x20 @ sg @ s)"

definition sign_text :: "options \<Rightarrow> int \<Rightarrow> bytes" where
  "sign_text opt v = (if v < 0 then [0x2D] else if plus_opt opt then [0x2B] else if blank_opt opt then [0x20] else [])"

fun text_of :: "directive \<Rightarrow> bytes" where
  "text_of (Text t) = t"
| "text_of Percent = [0x25]"
| "text_of (Character w) = [ucast w]"
| "text_of (String opt s) = padded opt False [] (case s of None \<Rightarrow> lit ''<null>'' | Some t \<Rightarrow> t)"
| "text_of (Signed opt i sz w) = padded opt (zero_opt opt) (sign_text opt (signed_value sz w)) (dec_text (nat \<bar>signed_value sz w\<bar>))"
| "text_of (Unsigned opt sz w) = padded opt (zero_opt opt) (sign_text opt 0) (dec_text (unsigned_value sz w))"
| "text_of (Hexadecimal opt up sz w) = (if alt_opt opt then lit (if up then ''0X'' else ''0x'') else []) @
     padded opt (zero_opt opt) [] (hex_text (if up then hextable_caps else hextable) (unsigned_value sz w))"
| "text_of (Pointer opt w) = lit ''0x'' @ padded opt (zero_opt opt) [] (hex_text hextable (unat w))"
| "text_of (Count sz p) = []"
| "text_of (Fixed opt up d) = padded opt (zero_opt opt) [] (double_text d (if up then {CAPSFLAG} else {}))"

fun count_bytes :: "arg_size \<Rightarrow> nat" where
  "count_bytes Size_char = 1"
| "count_bytes Size_short = 2"
| "count_bytes Size_longlong = 8"
| "count_bytes _ = 4"

fun stores_of :: "directive \<Rightarrow> nat \<Rightarrow> (u32 \<times> nat \<times> u64) list" where
  "stores_of (Count sz p) k = [(p, count_bytes sz, take_bit (8 * count_bytes sz) (of_nat k))]"
| "stores_of _ k = []"

fun directive_ok :: "directive \<Rightarrow> bool" where
  "directive_ok (Text t) \<longleftrightarrow> (\<forall>c \<in> set t. plain_char c)"
| "directive_ok (String opt s) \<longleftrightarrow> width_opt opt < 2 ^ 32 \<and> (case s of None \<Rightarrow> True | Some t \<Rightarrow> nonul t)"
| "directive_ok (Signed opt i sz w) \<longleftrightarrow> width_opt opt < 2 ^ 32"
| "directive_ok (Unsigned opt sz w) \<longleftrightarrow> width_opt opt < 2 ^ 32"
| "directive_ok (Hexadecimal opt up sz w) \<longleftrightarrow> width_opt opt < 2 ^ 32"
| "directive_ok (Pointer opt w) \<longleftrightarrow> width_opt opt < 2 ^ 32"
| "directive_ok (Fixed opt up d) \<longleftrightarrow> width_opt opt < 2 ^ 32"
| "directive_ok _ \<longleftrightarrow> True"

section \<open>Reading a directive\<close>

definition reads :: "bytes \<Rightarrow> fflag set \<Rightarrow> u32 \<Rightarrow> fflag set \<Rightarrow> u32 \<Rightarrow> bool" where
  "reads a flags num flags' num' \<longleftrightarrow> (\<forall>rest. next_format (a @ rest) flags num = next_format rest flags' num')"

lemma reads_append: "reads a f n f1 n1 \<Longrightarrow> reads b f1 n1 f2 n2 \<Longrightarrow> reads (a @ b) f n f2 n2"
  by (simp add: reads_def)

lemma reads_char: "format_char c f n = Some (f', n') \<Longrightarrow> reads [c] f n f' n'"
  by (simp add: reads_def)

lemma reads_option:
  "format_char c f n = Some (insert x f, n) \<Longrightarrow> reads (if b then [c] else []) f n (f \<union> (if b then {x} else {})) n"
  by (simp add: reads_def)

definition flags_of :: "options \<Rightarrow> fflag set" where
  "flags_of opt = (if left_opt opt then {LEFTFORMATFLAG} else {}) \<union> (if plus_opt opt then {SHOWSIGNFLAG} else {}) \<union>
     (if blank_opt opt then {BLANKPOSFLAG} else {}) \<union> (if alt_opt opt then {ALTFLAG} else {}) \<union>
     (if zero_opt opt then {LEADZEROFLAG} else {})"

fun size_flags :: "arg_size \<Rightarrow> fflag set" where
  "size_flags Size_char = {HALFFLAG, HALFHALFFLAG}"
| "size_flags Size_short = {HALFFLAG}"
| "size_flags Size_int = {}"
| "size_flags Size_long = {LONGFLAG}"
| "size_flags Size_longlong = {LONGFLAG, LONGLONGFLAG}"
| "size_flags Size_size = {SIZETFLAG}"
| "size_flags Size_max = {INTMAXFLAG}"
| "size_flags Size_diff = {PTRDIFFFLAG}"

lemma format_digit:
  assumes "k < 10" "k \<noteq> 0 \<or> num \<noteq> 0"
  shows "format_char (of_nat k + 0x30) flags num = Some (flags, num * 10 + of_nat k)"
proof -
  let ?c = "of_nat k + 0x30 :: u8"
  have u: "unat ?c = k + 48" by (rule unat_digit [OF assms(1)])
  have "0x30 \<le> ?c" "?c \<le> 0x39" using u assms(1) by (simp_all add: word_le_nat_alt)
  moreover have "?c = 0x30 \<longrightarrow> k = 0" using u by auto
  moreover have "(ucast (of_nat k :: u8) :: u32) = of_nat k" using assms(1) by (simp add: unsigned_of_nat take_bit_nat_eq_self)
  ultimately show ?thesis using assms(2) by (auto simp: format_char_def)
qed

lemma reads_dec_text: "0 < n \<Longrightarrow> n < 2 ^ 32 \<Longrightarrow> reads (dec_text n) flags 0 flags (of_nat n)"
proof (induction n rule: dec_text.induct)
  case (1 n)
  show ?case
  proof (cases "n < 10")
    case True
    then have "dec_text n = [of_nat n + 0x30]" by (subst dec_text.simps) simp
    then show ?thesis using format_digit [OF True, of 0 flags] 1(2) reads_char [of "of_nat n + 0x30" flags 0] by simp
  next
    case False
    have d: "dec_text n = dec_text (n div 10) @ [of_nat (n mod 10) + 0x30]" using False by (subst dec_text.simps) simp
    have lt: "0 < n div 10" "n div 10 < 2 ^ 32" using False 1(3) by auto
    have "unat (of_nat (n div 10) :: u32) = n div 10" using lt(2) by (simp add: unat_of_nat take_bit_nat_eq_self)
    then have nz: "(of_nat (n div 10) :: u32) \<noteq> 0" using lt(1) by (metis less_numeral_extra(3) unat_0)
    have "(of_nat (n div 10) * 10 + of_nat (n mod 10) :: u32) = of_nat (n div 10 * 10 + n mod 10)" by (simp only: of_nat_add of_nat_mult of_nat_numeral)
    then have "format_char (of_nat (n mod 10) + 0x30) flags (of_nat (n div 10)) = Some (flags, of_nat n)"
      using format_digit [of "n mod 10" "of_nat (n div 10)" flags] nz by simp
    then show ?thesis unfolding d using reads_append [OF 1(1) [OF False lt] reads_char] by blast
  qed
qed

lemma reads_options:
  assumes "width_opt opt < 2 ^ 32"
  shows "reads (options_text opt) {} 0 (flags_of opt) (of_nat (width_opt opt))"
proof -
  have w: "reads (if width_opt opt = 0 then [] else dec_text (width_opt opt)) f 0 f (of_nat (width_opt opt))" for f
    using reads_dec_text [of "width_opt opt" f] assms by (auto simp: reads_def)
  have c: "format_char 0x2D f n = Some (insert LEFTFORMATFLAG f, n)" "format_char 0x2B f n = Some (insert SHOWSIGNFLAG f, n)"
    "format_char 0x20 f n = Some (insert BLANKPOSFLAG f, n)" "format_char 0x23 f n = Some (insert ALTFLAG f, n)"
    "format_char 0x30 f 0 = Some (insert LEADZEROFLAG f, 0)" for f n
    by (simp_all add: format_char_def)
  have "flags_of opt = {} \<union> (if left_opt opt then {LEFTFORMATFLAG} else {}) \<union> (if plus_opt opt then {SHOWSIGNFLAG} else {}) \<union>
     (if blank_opt opt then {BLANKPOSFLAG} else {}) \<union> (if alt_opt opt then {ALTFLAG} else {}) \<union>
     (if zero_opt opt then {LEADZEROFLAG} else {})" by (simp only: flags_of_def Un_empty_left)
  then show ?thesis unfolding options_text_def 
    by (simp only:) (rule reads_append [OF reads_option [OF c(1)] reads_append [OF reads_option [OF c(2)] reads_append [OF reads_option [OF c(3)]
      reads_append [OF reads_option [OF c(4)] reads_append [OF reads_option [OF c(5)] w]]]]])
qed

lemma reads_size:
  "LONGFLAG \<notin> f \<Longrightarrow> HALFFLAG \<notin> f \<Longrightarrow> reads (size_text sz) f n (f \<union> size_flags sz) n"
  by (cases sz) (simp_all add: reads_def format_char_def insert_commute)

lemma flags_of_no_size [simp]:
  "LONGFLAG \<notin> flags_of opt" "HALFFLAG \<notin> flags_of opt" "LONGLONGFLAG \<notin> flags_of opt" "HALFHALFFLAG \<notin> flags_of opt"
  "SIZETFLAG \<notin> flags_of opt" "INTMAXFLAG \<notin> flags_of opt" "CAPSFLAG \<notin> flags_of opt" "SIGNEDFLAG \<notin> flags_of opt"
  by (auto simp: flags_of_def)

lemma flags_of_options [simp]:
  "LEFTFORMATFLAG \<in> flags_of opt \<longleftrightarrow> left_opt opt" "LEADZEROFLAG \<in> flags_of opt \<longleftrightarrow> zero_opt opt"
  "SHOWSIGNFLAG \<in> flags_of opt \<longleftrightarrow> plus_opt opt" "BLANKPOSFLAG \<in> flags_of opt \<longleftrightarrow> blank_opt opt" "ALTFLAG \<in> flags_of opt \<longleftrightarrow> alt_opt opt"
  by (auto simp: flags_of_def)

lemma next_directive:
  assumes "reads a {} 0 f n" "format_char c f n = None"
  shows "next_format (a @ c # rest) {} 0 = Some (c, rest, f, n)"
  using assms by (simp add: reads_def)

lemma next_number:
  assumes "width_opt opt < 2 ^ 32" "format_char c (flags_of opt \<union> size_flags sz) (of_nat (width_opt opt)) = None"
  shows "next_format ((options_text opt @ size_text sz) @ c # rest) {} 0 = Some (c, rest, flags_of opt \<union> size_flags sz, of_nat (width_opt opt))"
  by (rule next_directive [OF reads_append [OF reads_options [OF assms(1)] reads_size] assms(2)]) simp_all

section \<open>What a directive prints\<close>

lemma scast_value:
  "sint (scast (x :: 8 word) :: u64) = sint x" "sint (scast (y :: 16 word) :: u64) = sint y" "sint (scast (z :: u32) :: u64) = sint z"
  using sint_ge [of x] sint_lt [of x] sint_ge [of y] sint_lt [of y] sint_ge [of z] sint_lt [of z]
  by (simp_all add: signed_scast_eq signed_take_bit_int_eq_self_iff)

lemma sint_narrow:
  "sint (ucast (w :: u64) :: u32) = signed_take_bit 31 (uint w)" "sint w = signed_take_bit 63 (uint w)"
  "sint (ucast (ucast w :: u32) :: 8 word) = signed_take_bit 7 (uint w)" "sint (ucast (ucast w :: u32) :: 16 word) = signed_take_bit 15 (uint w)"
proof -
  have u: "uint (ucast w :: u32) = take_bit 32 (uint w)" by (subst unsigned_ucast_eq) simp
  show "sint (ucast w :: u32) = signed_take_bit 31 (uint w)" by (simp add: signed_ucast_eq)
  show "sint w = signed_take_bit 63 (uint w)" by (simp add: sint_uint)
  show "sint (ucast (ucast w :: u32) :: 8 word) = signed_take_bit 7 (uint w)" "sint (ucast (ucast w :: u32) :: 16 word) = signed_take_bit 15 (uint w)"
    by (simp_all only: signed_ucast_eq u) (simp_all add: signed_take_bit_take_bit)
qed

lemma unat_narrow:
  "unat (ucast (ucast (w :: u64) :: u32) :: u64) = take_bit 32 (unat w)" "unat w = take_bit 64 (unat w)"
  "unat (ucast (ucast (ucast w :: u32) :: 8 word) :: u64) = take_bit 8 (unat w)"
  "unat (ucast (ucast (ucast w :: u32) :: 16 word) :: u64) = take_bit 16 (unat w)"
proof -
  have u: "unat (ucast w :: u32) = take_bit 32 (unat w)" by (subst unsigned_ucast_eq) simp
  show "unat w = take_bit 64 (unat w)" using unsigned_less [of w, where ?'a = nat] by (simp add: take_bit_nat_eq_self)
  show "unat (ucast (ucast (w :: u64) :: u32) :: u64) = take_bit 32 (unat w)" by (simp add: unsigned_ucast_eq unsigned_take_bit_eq)
  have n: "unat (ucast (ucast x :: 8 word) :: u64) = take_bit 8 (unat x)" "unat (ucast (ucast x :: 16 word) :: u64) = take_bit 16 (unat x)" for x :: u32
    by (simp_all add: unsigned_ucast_eq unsigned_take_bit_eq)
  show "unat (ucast (ucast (ucast w :: u32) :: 8 word) :: u64) = take_bit 8 (unat w)"
    "unat (ucast (ucast (ucast w :: u32) :: 16 word) :: u64) = take_bit 16 (unat w)" unfolding n u by simp_all
qed

lemma signed_arg_value:
  assumes "f \<inter> {LONGFLAG, LONGLONGFLAG, HALFFLAG, HALFHALFFLAG, SIZETFLAG, INTMAXFLAG} = {}"
  shows "\<exists>n. (\<forall>ap. signed_arg (f \<union> size_flags sz) (number_arg sz w # ap) = Some (n, ap)) \<and> sint n = signed_value sz w"
  using assms by (cases sz) (auto simp: signed_arg_def number_arg_def signed_value_def scast_value sint_narrow(1,3,4) simp flip: sint_narrow(2))

lemma unsigned_arg_value:
  assumes "f \<inter> {LONGFLAG, LONGLONGFLAG, HALFFLAG, HALFHALFFLAG, SIZETFLAG, INTMAXFLAG} = {}"
  shows "\<exists>n. (\<forall>ap. unsigned_arg (f \<union> size_flags sz) (number_arg sz w # ap) = Some (n, ap)) \<and> unat n = unsigned_value sz w"
  using assms by (cases sz) (auto simp: unsigned_arg_def number_arg_def unsigned_value_def unat_narrow(1,3,4) simp flip: unat_narrow(2))

text \<open>
  A directive is converted: its text is read up to the conversion character, which takes its argument and leaves
  the rest of the format and of the arguments.
\<close>

definition converts :: "directive \<Rightarrow> bool" where
  "converts d \<longleftrightarrow> (\<forall>rest ap k. \<exists>c body flags num pieces eff. format_of d = 0x25 # body \<and>
     next_format (body @ rest) {} 0 = Some (c, rest, flags, num) \<and> c \<noteq> 0 \<and>
     conversion c flags num (args_of d @ ap) = Some (pieces, eff, ap) \<and>
     concat pieces @ effect_text eff = text_of d \<and> (k < 2 ^ 31 \<longrightarrow> effect_stores eff (k + length (concat pieces)) = stores_of d k))"

lemma field_text_padded:
  assumes "width_opt opt < 2 ^ 32" "LEFTFORMATFLAG \<in> f \<longleftrightarrow> left_opt opt" "LEADZEROFLAG \<in> f \<longleftrightarrow> zero"
  shows "field_text f (unat (of_nat (width_opt opt) :: u32)) ch s = padded opt zero (if ch = 0 then [] else [ch]) s"
proof -
  have "unat (of_nat (width_opt opt) :: u32) = width_opt opt" using assms(1) by (simp add: unat_of_nat take_bit_nat_eq_self)
  then show ?thesis using assms(2,3) by (simp add: field_text_def padded_def Let_def)
qed

lemma sign_char_text:
  assumes "SHOWSIGNFLAG \<in> f \<longleftrightarrow> plus_opt opt" "BLANKPOSFLAG \<in> f \<longleftrightarrow> blank_opt opt" "neg \<longleftrightarrow> v < 0"
  shows "(if sign_char f neg = 0 then [] else [sign_char f neg]) = sign_text opt v"
  using assms by (simp add: sign_char_def sign_text_def)

lemma size_flags_free [simp]:
  "LEFTFORMATFLAG \<notin> size_flags sz" "LEADZEROFLAG \<notin> size_flags sz" "SHOWSIGNFLAG \<notin> size_flags sz" "BLANKPOSFLAG \<notin> size_flags sz"
  "ALTFLAG \<notin> size_flags sz" "CAPSFLAG \<notin> size_flags sz" "SIGNEDFLAG \<notin> size_flags sz"
  by (cases sz; simp)+

lemma number_format:
  assumes "width_opt opt < 2 ^ 32" "format_char c (flags_of opt \<union> size_flags sz) (of_nat (width_opt opt)) = None"
  shows "next_format ((options_text opt @ size_text sz @ [c]) @ rest) {} 0 = Some (c, rest, flags_of opt \<union> size_flags sz, of_nat (width_opt opt))"
  using next_number [OF assms, of rest] by simp

lemma string_text_at:
  assumes "nonul t"
  shows "text_at (cstr t) 0 = Some t"
proof -
  have "strlen (cstr t) = Some (length t)" using assms by (induction t) (auto simp: nonul_def)
  then show ?thesis by (simp add: text_at_def)
qed

lemma convertsI:
  assumes "format_of d = 0x25 # body" "\<And>rest. next_format (body @ rest) {} 0 = Some (c, rest, flags, num)" "c \<noteq> 0"
    and "\<And>ap. conversion c flags num (args_of d @ ap) = Some (pieces, eff, ap)"
    and "concat pieces @ effect_text eff = text_of d" "\<And>k. k < 2 ^ 31 \<Longrightarrow> effect_stores eff (k + length (concat pieces)) = stores_of d k"
  shows "converts d"
  unfolding converts_def using assms by blast

lemma Signed_converts: assumes w: "width_opt opt < 2 ^ 32" shows "converts (Signed opt i sz w)"
proof -
  let ?f = "flags_of opt \<union> size_flags sz" and ?v = "signed_value sz w" and ?c = "if i then 0x69 else 0x64 :: u8"
  obtain n where n: "\<And>ap. signed_arg ?f (number_arg sz w # ap) = Some (n, ap)" "sint n = ?v"
    using signed_arg_value [of "flags_of opt" sz w] by auto
  obtain buf pos where b: "longlong_to_string num_buffer n 32 (insert SIGNEDFLAG ?f) = Some (buf, pos, sign_char (insert SIGNEDFLAG ?f) (?v < 0))"
    "text_at buf pos = Some (dec_text (nat \<bar>?v\<bar>))"
    using longlong_to_string_text [of n "insert SIGNEDFLAG ?f"] n(2) by (auto simp: magnitude_def)
  let ?eff = "Field (insert SIGNEDFLAG ?f) (of_nat (width_opt opt)) (sign_char (insert SIGNEDFLAG ?f) (?v < 0)) (dec_text (nat \<bar>?v\<bar>))"
  have c: "conversion ?c ?f (of_nat (width_opt opt)) (args_of (Signed opt i sz w) @ ap) = Some ([], ?eff, ap)" for ap
    using n(1) b by (simp add: conversion_def)
  have t: "effect_text ?eff = text_of (Signed opt i sz w)"
    using field_text_padded [OF w, of "insert SIGNEDFLAG ?f" "zero_opt opt"] sign_char_text [of "insert SIGNEDFLAG ?f" opt "?v < 0" ?v] by simp
  show ?thesis by (rule convertsI [OF _ number_format [OF w, of ?c] _ c]) (simp_all add: format_char_def t [simplified])
qed

lemma Unsigned_converts: assumes w: "width_opt opt < 2 ^ 32" shows "converts (Unsigned opt sz w)"
proof -
  let ?f = "flags_of opt \<union> size_flags sz" and ?v = "unsigned_value sz w"
  obtain n where n: "\<And>ap. unsigned_arg ?f (number_arg sz w # ap) = Some (n, ap)" "unat n = ?v"
    using unsigned_arg_value [of "flags_of opt" sz w] by auto
  obtain buf pos where b: "longlong_to_string num_buffer n 32 ?f = Some (buf, pos, sign_char ?f False)" "text_at buf pos = Some (dec_text ?v)"
    using longlong_to_string_text [of n ?f] n(2) by (auto simp: magnitude_def)
  let ?eff = "Field ?f (of_nat (width_opt opt)) (sign_char ?f False) (dec_text ?v)"
  have c: "conversion 0x75 ?f (of_nat (width_opt opt)) (args_of (Unsigned opt sz w) @ ap) = Some ([], ?eff, ap)" for ap
    using n(1) b by (simp add: conversion_def)
  have t: "effect_text ?eff = text_of (Unsigned opt sz w)"
    using field_text_padded [OF w, of ?f "zero_opt opt"] sign_char_text [of ?f opt False 0] by simp
  show ?thesis by (rule convertsI [OF _ number_format [OF w, of "0x75"] _ c]) (simp_all add: format_char_def t [simplified])
qed

text \<open>The hexadecimal conversions share their second half.\<close>

lemma hex_conversion_text:
  assumes "\<And>ap. unsigned_arg f (a # ap) = Some (n, ap)"
  shows "hex_conversion f num (a # ap) =
    Some (if ALTFLAG \<in> f then [[0x30], [if CAPSFLAG \<in> f then 0x58 else 0x78]] else [], Field f num 0 (hex_text (hex_table f) (unat n)), ap)"
  using longlong_to_hexstring_text [of n f] assms by (auto simp: hex_conversion_def)

lemma lit_prefix: "lit ''0x'' = [0x30, 0x78]" "lit ''0X'' = [0x30, 0x58]"
  by (simp_all add: lit_def)

lemma Hexadecimal_converts: assumes w: "width_opt opt < 2 ^ 32" shows "converts (Hexadecimal opt up sz w)"
proof -
  let ?f = "flags_of opt \<union> size_flags sz" and ?v = "unsigned_value sz w"
  let ?g = "(if up then {CAPSFLAG} else {}) \<union> flags_of opt \<union> size_flags sz" and ?c = "if up then 0x58 else 0x78 :: u8"
  obtain n where n: "\<And>ap. unsigned_arg ?g (number_arg sz w # ap) = Some (n, ap)" "unat n = ?v"
    using unsigned_arg_value [of "(if up then {CAPSFLAG} else {}) \<union> flags_of opt" sz w] by (auto split: if_splits)
  let ?pieces = "if alt_opt opt then [[0x30], [?c]] else []" and ?eff = "Field ?g (of_nat (width_opt opt)) 0 (hex_text (hex_table ?g) ?v)"
  have c: "conversion ?c ?f (of_nat (width_opt opt)) (args_of (Hexadecimal opt up sz w) @ ap) = Some (?pieces, ?eff, ap)" for ap
    using hex_conversion_text [OF n(1), of "of_nat (width_opt opt)" ap] n(2) by (cases up) (simp_all add: conversion_def)
  have t: "concat ?pieces @ effect_text ?eff = text_of (Hexadecimal opt up sz w)"
    using field_text_padded [OF w, of ?g "zero_opt opt" 0] by (simp add: lit_prefix hex_table_def)
  have "format_char ?c ?f (of_nat (width_opt opt)) = None" by (simp add: format_char_def)
  then show ?thesis using convertsI [OF _ number_format [OF w] _ c t] by simp
qed


lemma Pointer_converts: assumes w: "width_opt opt < 2 ^ 32" shows "converts (Pointer opt w)"
proof -
  let ?g = "insert LONGFLAG (insert ALTFLAG (flags_of opt))"
  have "unsigned_arg ?g (Va_int w # ap) = Some (ucast w, ap)" for ap by (simp add: unsigned_arg_def)
  note h = hex_conversion_text [of ?g, OF this]
  have "unat w < 2 ^ 32" using unsigned_less [of w, where ?'a = nat] by simp
  then have "unat (ucast w :: u64) = unat w" by (simp add: unsigned_ucast_eq take_bit_nat_eq_self)
  then have c: "conversion 0x70 (flags_of opt) (of_nat (width_opt opt)) (args_of (Pointer opt w) @ ap) =
      Some ([[0x30], [0x78]], Field ?g (of_nat (width_opt opt)) 0 (hex_text hextable (unat w)), ap)" for ap
    using h by (simp add: conversion_def hex_table_def)
  have t: "concat [[0x30], [0x78]] @ effect_text (Field ?g (of_nat (width_opt opt)) 0 (hex_text hextable (unat w))) = text_of (Pointer opt w)"
    using field_text_padded [OF w, of ?g "zero_opt opt" 0] by (simp add: lit_prefix)
  have "next_format (options_text opt @ 0x70 # rest) {} 0 = Some (0x70, rest, flags_of opt, of_nat (width_opt opt))" for rest
    by (rule next_directive [OF reads_options [OF w]]) (simp add: format_char_def)
  then show ?thesis using convertsI [OF _ _ _ c t, of "options_text opt @ [0x70]"] by simp
qed

lemma String_converts:
  assumes w: "width_opt opt < 2 ^ 32" and s: "case s of None \<Rightarrow> True | Some t \<Rightarrow> nonul t"
  shows "converts (String opt s)"
proof -
  let ?g = "flags_of opt - {LEADZEROFLAG}" and ?s = "case s of None \<Rightarrow> lit ''<null>'' | Some t \<Rightarrow> t"
  have "nonul (lit ''<null>'')" by (simp add: lit_def nonul_def)
  then have c: "conversion 0x73 (flags_of opt) (of_nat (width_opt opt)) (args_of (String opt s) @ ap) = Some ([], Field ?g (of_nat (width_opt opt)) 0 ?s, ap)" for ap
    using s by (cases s) (simp_all add: conversion_def string_text_at)
  have t: "concat [] @ effect_text (Field ?g (of_nat (width_opt opt)) 0 ?s) = text_of (String opt s)"
    using field_text_padded [OF w, of ?g False 0] by simp
  have "next_format (options_text opt @ 0x73 # rest) {} 0 = Some (0x73, rest, flags_of opt, of_nat (width_opt opt))" for rest
    by (rule next_directive [OF reads_options [OF w]]) (simp add: format_char_def)
  then show ?thesis using convertsI [OF _ _ _ c t, of "options_text opt @ [0x73]"] by simp
qed

lemma Count_converts: "converts (Count sz p)"
proof -
  have sz: "store_size (size_flags sz) = count_bytes sz" by (cases sz) (simp_all add: store_size_def)
  have n: "next_format (size_text sz @ 0x6E # rest) {} 0 = Some (0x6E, rest, size_flags sz, 0)" for rest
    using next_directive [OF reads_size [of "{}" sz 0], of "0x6E" rest] by (simp add: format_char_def)
  have c: "conversion 0x6E (size_flags sz) 0 (args_of (Count sz p) @ ap) = Some ([], Store p (size_flags sz), ap)" for ap
    by (simp add: conversion_def)
  have e: "effect_stores (Store p (size_flags sz)) (k + length (concat ([] :: bytes list))) = stores_of (Count sz p) k" if "k < 2 ^ 31" for k
  proof -
    have "(ucast (of_nat k :: u32) :: u64) = of_nat k" using that by (simp add: unsigned_of_nat take_bit_nat_eq_self)
    then show ?thesis by (simp add: sz)
  qed
  show ?thesis by (rule convertsI [OF _ _ _ c _ e, of "size_text sz @ [0x6E]"]) (simp_all add: n)
qed


lemma double_text_caps: "(CAPSFLAG \<in> f \<longleftrightarrow> CAPSFLAG \<in> g) \<Longrightarrow> double_text d f = double_text d g"
proof -
  assume "CAPSFLAG \<in> f \<longleftrightarrow> CAPSFLAG \<in> g"
  then have "caps f = caps g" by (intro ext) (simp add: caps_def)
  then show ?thesis by (simp only: double_text_def)
qed

lemma Fixed_converts: assumes w: "width_opt opt < 2 ^ 32" shows "converts (Fixed opt up d)"
proof -
  let ?c = "if up then 0x46 else 0x66 :: u8" and ?g = "(if up then {CAPSFLAG} else {}) \<union> flags_of opt"
  let ?eff = "Field ?g (of_nat (width_opt opt)) 0 (double_text d (if up then {CAPSFLAG} else {}))"
  obtain buf pos where b: "double_to_string num_buffer 32 d ?g = Some (buf, pos)" "text_at buf pos = Some (double_text d ?g)"
    using double_to_string_text [OF num_buffer_end(1)] by blast
  have "double_text d ?g = double_text d (if up then {CAPSFLAG} else {})" by (rule double_text_caps) simp
  then have c: "conversion ?c (flags_of opt) (of_nat (width_opt opt)) (args_of (Fixed opt up d) @ ap) = Some ([], ?eff, ap)" for ap
    using b by (cases up) (simp_all add: conversion_def double_conversion_def)
  have t: "concat [] @ effect_text ?eff = text_of (Fixed opt up d)" using field_text_padded [OF w, of ?g "zero_opt opt" 0] by simp
  have "next_format (options_text opt @ ?c # rest) {} 0 = Some (?c, rest, flags_of opt, of_nat (width_opt opt))" for rest
    by (rule next_directive [OF reads_options [OF w]]) (simp add: format_char_def)
  then show ?thesis using convertsI [OF _ _ _ c t, of "options_text opt @ [?c]"] by simp
qed

theorem directive_converts: "directive_ok d \<Longrightarrow> (\<exists>t. d = Text t) \<or> converts d"
proof (cases d)
  case Percent
  have "converts Percent" by (rule convertsI [of _ "[0x25]" "0x25" "{}" 0 "[[0x25]]" Plain]) (simp_all add: format_char_def conversion_def)
  then show ?thesis using Percent by simp
next
  case (Character w)
  have "converts (Character w)" by (rule convertsI [of _ "[0x63]" "0x63" "{}" 0 "[[ucast w]]" Plain]) (simp_all add: format_char_def conversion_def)
  then show ?thesis using Character by simp
qed (auto intro: String_converts Signed_converts Unsigned_converts Hexadecimal_converts Pointer_converts Count_converts Fixed_converts)

section \<open>Printing a list of directives\<close>

definition format_all :: "directive list \<Rightarrow> bytes" where
  "format_all ds = concat (map format_of ds) @ [0]"

definition args_all :: "directive list \<Rightarrow> va_arg list" where
  "args_all ds = concat (map args_of ds)"

definition text_all :: "directive list \<Rightarrow> bytes" where
  "text_all ds = concat (map text_of ds)"

fun stores_all :: "directive list \<Rightarrow> nat \<Rightarrow> (u32 \<times> nat \<times> u64) list" where
  "stores_all [] k = []"
| "stores_all (d # ds) k = stores_of d k @ stores_all ds (k + length (text_of d))"

context printf_sink
begin

lemma engine_directives:
  assumes "list_all directive_ok ds" "has_printed shown g t" "\<forall>c \<in> set p. plain_char c" "fits (t @ p @ text_all ds)"
  shows "\<exists>g'. printf_engine out (p @ format_all ds) (args_all ds @ ap) g = Some (int (length (t @ p @ text_all ds)), g') \<and>
    has_printed shown g' (t @ p @ text_all ds) \<and> stores g' = stores g @ stores_all ds (length (t @ p))"
  using assms
proof (induction ds arbitrary: g t p)
  case Nil
  then show ?case using engine_end [of g t p "[]" ap] by (simp add: format_all_def args_all_def text_all_def)
next
  case (Cons d ds)
  consider (plain) u where "d = Text u" | (conv) "converts d" using directive_converts [of d] Cons.prems(1) by auto
  then show ?case
  proof cases
    case plain
    then show ?thesis using Cons.IH [of g t "p @ u"] Cons.prems by (simp add: format_all_def args_all_def text_all_def ball_Un add.assoc)
  next
    case conv
    let ?r = "format_all ds" and ?ap = "args_all ds @ ap"
    have f: "fits (t @ p @ text_of d)" "length (t @ p) < 2 ^ 31"
      using Cons.prems(4) fits_left [of "t @ p @ text_of d" "text_all ds"] by (simp_all add: fits_def text_all_def)
    obtain c body flags num pieces eff where c: "format_of d = 0x25 # body" "next_format (body @ ?r) {} 0 = Some (c, ?r, flags, num)" "c \<noteq> 0"
      "conversion c flags num (args_of d @ ?ap) = Some (pieces, eff, ?ap)" "concat pieces @ effect_text eff = text_of d"
      "effect_stores eff (length (t @ p) + length (concat pieces)) = stores_of d (length (t @ p))"
      using conv f(2) unfolding converts_def by blast
    obtain g1 where g1: "printf_engine out (p @ 0x25 # body @ ?r) (args_of d @ ?ap) g = printf_engine out ?r ?ap g1"
      "has_printed shown g1 (t @ p @ text_of d)" "stores g1 = stores g @ stores_of d (length (t @ p))"
      using engine_conversion [OF Cons.prems(2,3) c(2,3,4)] c(5,6) f(1) by (auto simp: add.assoc)
    have "p @ format_all (d # ds) = p @ 0x25 # body @ ?r" "args_all (d # ds) @ ap = args_of d @ ?ap"
      using c(1) by (simp_all add: format_all_def args_all_def)
    then show ?thesis using g1 Cons.IH [OF _ g1(2), of "[]"] Cons.prems(1,4) by (simp add: text_all_def add.assoc)
  qed
qed

lemma engine_renders:
  assumes "list_all directive_ok ds" "shown st []" "fits (text_all ds)"
  shows "\<exists>g. printf_engine out (format_all ds) (args_all ds @ ap) \<lparr>sink = st, chars_written = 0, stores = []\<rparr> = Some (int (length (text_all ds)), g) \<and>
    shown (sink g) (text_all ds) \<and> stores g = stores_all ds 0"
  using engine_directives [of ds "\<lparr>sink = st, chars_written = 0, stores = []\<rparr>" "[]" "[]" ap] assms by (auto simp: has_printed_def)

end

text \<open>Two departures from the C standard: a left-justified number loses its sign, and the digits of a precision extend the width.\<close>

lemma left_sign_lost:
  "text_of (Signed \<lparr>left_opt = True, zero_opt = False, plus_opt = False, blank_opt = False, alt_opt = False, width_opt = 4\<rparr> False Size_int (- 42)) = lit ''42  ''"
  by code_simp

lemma precision_widens: "next_format (lit ''8.3d'') {} 0 = Some (0x64, [], {}, 83)"
  by code_simp

end
