(* ===== verification/Printf_Output.thy ===== *)
theory Printf_Output
  imports Printf_Directives
begin

text \<open>
  The two outputs of \<^verbatim>\<open>_printf_engine\<close>: a buffer of limited length, and the console.
\<close>

section \<open>A buffer\<close>

definition buffer_shows :: "bytes \<Rightarrow> nat \<Rightarrow> u32 \<Rightarrow> nat \<Rightarrow> output_args \<Rightarrow> bytes \<Rightarrow> bool" where
  "buffer_shows m str len limit args t \<longleftrightarrow>
     outstr args = str \<and> out_len args = len \<and> str + min limit (unat len) \<le> length m \<and> length t \<le> limit \<and>
     unat (out_pos args) = min (length t) (unat len) \<and>
     outmem args = take str m @ take (unat len) t @ drop (str + min (length t) (unat len)) m"

lemma buffer_shows_char:
  assumes "buffer_shows m str len limit args t" "length t < limit"
  shows "\<exists>args'. vsnprintf_output_loop (c # b) args = vsnprintf_output_loop b args' \<and> buffer_shows m str len limit args' (t @ [c])"
proof (cases "out_pos args < out_len args")
  case True
  have a: "outstr args = str" "out_len args = len" "str + min limit (unat len) \<le> length m" "unat (out_pos args) = min (length t) (unat len)"
    "outmem args = take str m @ take (unat len) t @ drop (str + min (length t) (unat len)) m" using assms(1) by (auto simp: buffer_shows_def)
  have lt: "length t < unat len" using True a by (simp add: word_less_nat_alt)
  have pos: "unat (out_pos args) = length t" using a(4) lt by simp
  have room: "str + length t < length m" using a(3) lt assms(2) by auto
  have m: "outmem args = take str m @ t @ drop (str + length t) m" using a(5) lt by simp
  let ?m = "take str m @ (t @ [c]) @ drop (str + length (t @ [c])) m"
  have w: "mem_write (outmem args) (outstr args + unat (out_pos args)) [c] = Some ?m"
    using room unfolding mem_write_def m a(1) pos by (simp add: min_def)
  let ?args = "args\<lparr>outmem := ?m, out_pos := out_pos args + 1\<rparr>"
  have "unat (out_pos args + 1) = length t + 1" using pos lt unsigned_less [of len, where ?'a = nat] by (simp add: unat_word_ariths)
  then have "buffer_shows m str len limit ?args (t @ [c])" using a lt assms(2) by (simp add: buffer_shows_def)
  moreover have "vsnprintf_output_loop (c # b) args = vsnprintf_output_loop b ?args" using True w by simp
  ultimately show ?thesis by blast
next
  case False
  have "buffer_shows m str len limit args (t @ [c])"
    using assms False by (auto simp: buffer_shows_def word_less_nat_alt)
  then show ?thesis using False by auto
qed

lemma buffer_shows_loop:
  "buffer_shows m str len limit args t \<Longrightarrow> length (t @ b) \<le> limit \<Longrightarrow>
     \<exists>args'. vsnprintf_output_loop b args = Some args' \<and> buffer_shows m str len limit args' (t @ b)"
proof (induction b arbitrary: args t)
  case Nil
  then show ?case by simp
next
  case (Cons c b)
  obtain args1 where "vsnprintf_output_loop (c # b) args = vsnprintf_output_loop b args1" "buffer_shows m str len limit args1 (t @ [c])"
    using buffer_shows_char [OF Cons.prems(1), of c b] Cons.prems(2) by auto
  then show ?case using Cons.IH [of args1 "t @ [c]"] Cons.prems(2) by auto
qed

lemma sint_of_length: "n < 2 ^ 31 \<Longrightarrow> sint (of_nat n :: u32) = int n"
  by (simp add: signed_of_nat signed_take_bit_int_eq_self)

interpretation buffer_sink: printf_sink vsnprintf_output "buffer_shows m str len limit" "\<lambda>t. length t \<le> limit" for m str len limit
proof
  show "length t \<le> limit" if "length (t @ b) \<le> limit" for t b :: bytes using that by simp
next
  fix st t b
  assume "buffer_shows m str len limit st t" "length (t @ b) \<le> limit" "length (t @ b) < 2 ^ 31"
  then show "\<exists>st'. vsnprintf_output b st = Some (int (length b), st') \<and> buffer_shows m str len limit st' (t @ b)"
    using buffer_shows_loop [of m str len limit st t b] sint_of_length [of "length b"] by (auto simp: vsnprintf_output_def)
qed

text \<open>
  \<^verbatim>\<open>vsnprintf\<close> returns the length of the whole text, writes as much of it as fits in front of the terminator, and
  nothing else, except for a length of 0, where the byte in front of the buffer is cleared.
\<close>

definition buffer_after :: "bytes \<Rightarrow> nat \<Rightarrow> nat \<Rightarrow> bytes \<Rightarrow> bytes" where
  "buffer_after m str len t =
     (if len = 0 then take (str - 1) m @ [0] @ drop str m
      else take str m @ take (len - 1) t @ [0] @ drop (str + min (length t) (len - 1) + 1) m)"

definition buffer_room :: "bytes \<Rightarrow> nat \<Rightarrow> nat \<Rightarrow> bytes \<Rightarrow> bool" where
  "buffer_room m str len t \<longleftrightarrow> (if len = 0 then 0 < str \<and> str \<le> length m else str + min (length t + 1) len \<le> length m)"

lemma vsnprintf_renders:
  assumes ok: "list_all directive_ok ds" and short: "length (text_all ds) < 2 ^ 31" and room: "buffer_room m str (unat len) (text_all ds)"
  shows "vsnprintf m str len (format_all ds) (args_all ds @ ap) = Some (int (length (text_all ds)), buffer_after m str (unat len) (text_all ds))"
proof -
  let ?t = "text_all ds" and ?st = "\<lparr>outmem = m, outstr = str, out_len = len, out_pos = 0\<rparr>"
  have r: "str + min (length ?t) (unat len) \<le> length m" using room by (auto simp: buffer_room_def split: if_splits)
  have "buffer_shows m str len (length ?t) ?st []" using r by (simp add: buffer_shows_def)
  then obtain g where g: "printf_engine vsnprintf_output (format_all ds) (args_all ds @ ap) \<lparr>sink = ?st, chars_written = 0, stores = []\<rparr> = Some (int (length ?t), g)"
    "buffer_shows m str len (length ?t) (sink g) ?t"
    using buffer_sink.engine_renders [OF ok, of m str len "length ?t" ?st ap] short by (auto simp: buffer_sink.fits_def)
  have pos: "unat (out_pos (sink g)) = min (length ?t) (unat len)"
    and mem: "outmem (sink g) = take str m @ take (unat len) ?t @ drop (str + min (length ?t) (unat len)) m"
    using g(2) by (auto simp: buffer_shows_def)
  consider (none) "unat len = 0" | (full) "0 < unat len" "unat len \<le> length ?t" | (fits) "length ?t < unat len" by linarith
  then have "(if out_pos (sink g) \<ge> len
        then (if len = 0 \<and> str = 0 then None else mem_write (outmem (sink g)) (str + unat len - 1) [0])
        else if int (length ?t) < 0 then None else mem_write (outmem (sink g)) (str + nat (int (length ?t))) [0]) = Some (buffer_after m str (unat len) ?t)"
  proof cases
    case none
    then show ?thesis using room mem pos by (auto simp: buffer_room_def buffer_after_def mem_write_def word_le_nat_alt)
  next
    case full
    have "take (unat len) ?t = take (unat len - 1) ?t @ [?t ! (unat len - 1)]"
      using full take_Suc_conv_app_nth [of "unat len - 1" ?t] by simp
    then show ?thesis using full room mem pos by (auto simp: buffer_room_def buffer_after_def mem_write_def word_le_nat_alt)
  next
    case fits
    then show ?thesis using room mem pos by (auto simp: buffer_room_def buffer_after_def mem_write_def word_le_nat_alt)
  qed
  then show ?thesis using g(1) by (simp add: vsnprintf_def Let_def)
qed

end
