(* ===== verification/Stdio.thy ===== *)
theory Stdio
  imports Printf_Output Console
begin

text \<open>
  Standard output on the debug screen, and the formatted messages of the flasher: primary_printf of
  app/aiseirigh/primaryscreen.c, text_rasterise_stringf of textraster.c and the formatting in
  statemachine_transition_error.
\<close>

section \<open>The debug screen as a print callback\<close>

text \<open>
  The callback of main.c gets the characters and their number. \<^verbatim>\<open>text_rasterise_string\<close> looks at \<^verbatim>\<open>str[i]\<close> before it compares
  \<^verbatim>\<open>i\<close> with the length, so it reads one byte more than it is given, here \<open>beyond\<close>.
\<close>

definition debug_callback :: "kernel \<Rightarrow> u8 \<Rightarrow> Screen \<Rightarrow> bytes \<Rightarrow> Screen option" where
  "debug_callback K beyond scr str =
     (case debug_surface_print K scr (str @ [beyond]) (of_nat (length str)) of
        Some (Returned _ scr' _) \<Rightarrow> Some scr'
      | _ \<Rightarrow> None)"

definition ascii_bytes :: "bytes \<Rightarrow> bool" where
  "ascii_bytes t \<longleftrightarrow> list_all (\<lambda>c. c \<noteq> 0 \<and> unat c < 128) t"

lemma ascii_bytes_append [simp]: "ascii_bytes (a @ b) \<longleftrightarrow> ascii_bytes a \<and> ascii_bytes b"
  by (simp add: ascii_bytes_def)

lemma printed_piece:
  assumes "ascii_bytes b"
  shows "printed (b @ [x]) (length b) = b"
proof -
  have nz: "\<And>c. c \<in> set b \<Longrightarrow> c \<noteq> 0" using assms by (auto simp: ascii_bytes_def list_all_iff)
  have "takeWhile (\<lambda>c. c \<noteq> 0) (b @ [x]) = b @ takeWhile (\<lambda>c. c \<noteq> 0) [x]" by (rule takeWhile_append2) (rule nz)
  then show ?thesis by (simp add: printed_def)
qed

lemma term_puts_append: "term_puts C R fg (a @ b) T = term_puts C R fg b (term_puts C R fg a T)"
  by (simp add: term_puts_def)

lemma rasterise_piece:
  assumes "mutex_free (scr_mutex scr)" "screen_shows BG_COLOUR W H scr T" "ascii_bytes b" "length b < 2 ^ 32"
  shows "\<exists>scr'. text_rasterise_string K scr fg BG_COLOUR (b @ [x]) (of_nat (length b)) = Some (Returned NO_ERROR scr' K) \<and> screen_same scr scr' \<and>
    screen_shows BG_COLOUR W H scr' (term_puts (W div FONT_X) (H div FONT_Y) fg b T)"
proof -
  define n :: u32 where "n = of_nat (length b)"
  have n: "unat n = length b" using assms(4) by (simp add: n_def unat_of_nat take_bit_nat_eq_self)
  have p: "printed (b @ [x]) (unat n) = b" unfolding n by (rule printed_piece [OF assms(3)])
  have "\<forall>ch \<in> set (printed (b @ [x]) (unat n)). unat ch < 128" unfolding p using assms(3) by (simp add: ascii_bytes_def list_all_iff)
  moreover have "length (printed (b @ [x]) (unat n)) < length (b @ [x])" unfolding p by simp
  moreover note text_rasterise_string_shows [OF assms(1,2), of "b @ [x]" n K fg]
  ultimately show ?thesis unfolding p unfolding n_def by blast
qed

text \<open>Standard output shows a text: on the serial port, and typed on the debug screen.\<close>

definition stdout_shows :: "kernel \<Rightarrow> u8 \<Rightarrow> nat \<Rightarrow> nat \<Rightarrow> terminal \<Rightarrow> bytes \<Rightarrow> Screen console_io \<Rightarrow> bytes \<Rightarrow> bool" where
  "stdout_shows K beyond W H T before io t \<longleftrightarrow>
     print_callbacks io = [debug_callback K beyond] \<and> serial io = before @ t \<and> mutex_free (scr_mutex (shared io)) \<and>
     screen_shows BG_COLOUR W H (shared io) (term_puts (W div FONT_X) (H div FONT_Y) FG_COLOUR_DBG t T)"

lemma io_write_shows:
  assumes "stdout_shows K beyond W H T before io t" "ascii_bytes b" "length b < 2 ^ 31"
  shows "\<exists>io'. io_write b io = Some (int (length b), io') \<and> stdout_shows K beyond W H T before io' (t @ b)"
proof -
  obtain scr' where s: "text_rasterise_string K (shared io) FG_COLOUR_DBG BG_COLOUR (b @ [beyond]) (of_nat (length b)) = Some (Returned NO_ERROR scr' K)"
    "screen_same (shared io) scr'"
    "screen_shows BG_COLOUR W H scr' (term_puts (W div FONT_X) (H div FONT_Y) FG_COLOUR_DBG b (term_puts (W div FONT_X) (H div FONT_Y) FG_COLOUR_DBG t T))"
    using rasterise_piece [of "shared io" W H _ b K FG_COLOUR_DBG beyond] assms by (auto simp: stdout_shows_def)
  let ?io = "io\<lparr>shared := scr', serial := serial io @ b\<rparr>"
  have "run_callbacks (print_callbacks io) b (shared io) = Some scr'"
    using assms(1) s(1) by (simp add: stdout_shows_def debug_callback_def debug_surface_print_def)
  then have "io_write b io = Some (int (length b), ?io)"
    using sint_of_length [OF assms(3)] by (simp add: io_write_def debug_stdio_write_def out_count_def)
  moreover have "stdout_shows K beyond W H T before ?io (t @ b)"
    using assms(1) s(2,3) by (simp add: stdout_shows_def term_puts_append screen_same_def)
  ultimately show ?thesis by blast
qed

interpretation stdout_sink: printf_sink fprintf_output_func "stdout_shows K beyond W H T before" ascii_bytes for K beyond W H T before
proof
  show "ascii_bytes t" if "ascii_bytes (t @ b)" for t b using that by simp
next
  fix st t b
  assume "stdout_shows K beyond W H T before st t" "ascii_bytes (t @ b)" "length (t @ b) < 2 ^ 31"
  then show "\<exists>st'. fprintf_output_func b st = Some (int (length b), st') \<and> stdout_shows K beyond W H T before st' (t @ b)"
    using io_write_shows [of K beyond W H T before st t b] by (simp add: fprintf_output_func_def)
qed

lemma printf_shows:
  assumes "list_all directive_ok ds" "stdout_shows K beyond W H T before io []" "ascii_bytes (text_all ds)" "length (text_all ds) < 2 ^ 31"
  shows "\<exists>g. printf (format_all ds) (args_all ds @ ap) io = Some (int (length (text_all ds)), g) \<and>
    stdout_shows K beyond W H T before (sink g) (text_all ds) \<and> stores g = stores_all ds 0"
  using stdout_sink.engine_renders [OF assms(1,2), of ap] assms(3,4) by (simp add: stdout_sink.fits_def printf_def vfprintf_def)

lemma puts_shows:
  assumes "stdout_shows K beyond W H T before io t" "ascii_bytes b" "length b < 2 ^ 31"
  shows "\<exists>io'. puts (cstr b) io = Some (1, io') \<and> stdout_shows K beyond W H T before io' (t @ b @ [0x0A])"
proof -
  have "nonul b" using assms(2) by (auto simp: nonul_def ascii_bytes_def list_all_iff)
  then have l: "strlen (cstr b) = Some (length b)" by simp
  obtain io1 where 1: "io_write b io = Some (int (length b), io1)" "stdout_shows K beyond W H T before io1 (t @ b)"
    using io_write_shows [OF assms] by blast
  obtain io2 where "io_write [0x0A] io1 = Some (1, io2)" "stdout_shows K beyond W H T before io2 ((t @ b) @ [0x0A])"
    using io_write_shows [OF 1(2), of "[0x0A]"] by (auto simp: ascii_bytes_def)
  then show ?thesis using 1(1) l by (simp add: puts_def fputs_def fputc_def)
qed

section \<open>Formatted messages\<close>

text \<open>
  \<^verbatim>\<open>primary_printf\<close> and \<^verbatim>\<open>statemachine_transition_error\<close> format twice: into an array of one byte with a length
  of 0 to learn the length, then into a block of the heap. The array is the byte at offset 1 of the stack bytes
  \<open>frame\<close>; \<open>alloc\<close> gives the bytes of the block that \<^verbatim>\<open>malloc\<close> returns.
\<close>

definition format_message :: "bytes \<Rightarrow> (u32 \<Rightarrow> bytes option) \<Rightarrow> bytes \<Rightarrow> va_arg list \<Rightarrow> (u32 \<times> bytes \<times> bytes) option" where
  "format_message frame alloc format ap = do {
     (n, frame1) \<leftarrow> vsnprintf frame 1 0 format ap;
     let len = of_int n;
     msg \<leftarrow> alloc (len + 1);
     (_, msg1) \<leftarrow> vsnprintf msg 0 (len + 1) format ap;
     Some (len, frame1, msg1)
   }"

definition primary_printf :: "kernel \<Rightarrow> Screen option \<Rightarrow> bytes \<Rightarrow> (u32 \<Rightarrow> bytes option) \<Rightarrow> Colour \<Rightarrow> bytes \<Rightarrow> va_arg list \<Rightarrow>
    'k console_io \<Rightarrow> ((Screen \<times> 'k console_io \<times> bytes) waitable) option" where
  "primary_printf K g_screen frame alloc colour format ap io = do {
     scr \<leftarrow> g_screen;
     (len, frame1, msg) \<leftarrow> format_message frame alloc format ap;
     r \<leftarrow> text_rasterise_string K scr (colour_value colour) BG_COLOUR msg len;
     (case r of
        Blocked scr1 K1 \<Rightarrow> Some (Blocked (scr1, io, frame1) K1)
      | Returned st scr1 K1 \<Rightarrow> do { (_, io1) \<leftarrow> puts msg io; Some (Returned st (scr1, io1, frame1) K1) })
   }"

definition text_rasterise_stringf :: "kernel \<Rightarrow> Screen \<Rightarrow> u32 \<Rightarrow> u32 \<Rightarrow> bytes \<Rightarrow> bytes \<Rightarrow> va_arg list \<Rightarrow> Screen waitable option" where
  "text_rasterise_stringf K scr fg_colour bg_colour fullstr format ap = do {
     (_, str) \<leftarrow> vsnprintf fullstr 0 256 format ap;
     len \<leftarrow> strlen str;
     text_rasterise_string K scr fg_colour bg_colour str (of_nat len)
   }"

definition block_law :: "(u32 \<Rightarrow> bytes option) \<Rightarrow> nat \<Rightarrow> bool" where
  "block_law alloc n \<longleftrightarrow> (case alloc (of_nat n) of None \<Rightarrow> False | Some b \<Rightarrow> length b = n)"

lemma format_message_text:
  assumes "list_all directive_ok ds" "length (text_all ds) < 2 ^ 31 - 1" "block_law alloc (length (text_all ds) + 1)"
  shows "format_message [x, y] alloc (format_all ds) (args_all ds) = Some (of_nat (length (text_all ds)), [0, y], cstr (text_all ds))"
proof -
  let ?t = "text_all ds" and ?len = "of_nat (length (text_all ds)) :: u32"
  have lt: "length ?t < 2 ^ 31" using assms(2) by simp
  obtain msg where msg: "alloc (?len + 1) = Some msg" "length msg = length ?t + 1"
    using assms(3) by (auto simp: block_law_def add.commute split: option.splits)
  have u: "unat (?len + 1) = length ?t + 1"
  proof -
    have "?len + 1 = of_nat (length ?t + 1)" by simp
    moreover have "unat (of_nat (length ?t + 1) :: u32) = length ?t + 1" using assms(2) by (intro unat_of_nat_small32) simp
    ultimately show ?thesis by (simp only:)
  qed
  have 1: "vsnprintf [x, y] 1 0 (format_all ds) (args_all ds) = Some (int (length ?t), [0, y])"
    using vsnprintf_renders [OF assms(1) lt, of "[x, y]" 1 0 "[]"] by (simp add: buffer_room_def buffer_after_def)
  have 2: "vsnprintf msg 0 (?len + 1) (format_all ds) (args_all ds) = Some (int (length ?t), cstr ?t)"
    using vsnprintf_renders [OF assms(1) lt, of msg 0 "?len + 1" "[]"] msg(2) u by (simp add: buffer_room_def buffer_after_def)
  show ?thesis using 1 2 msg(1) by (simp add: format_message_def)
qed

lemma primary_printf_shows:
  assumes ok: "list_all directive_ok ds" "ascii_bytes (text_all ds)" "length (text_all ds) < 2 ^ 31 - 1"
    and alloc: "block_law alloc (length (text_all ds) + 1)"
    and scr: "mutex_free (scr_mutex scr)" "screen_shows BG_COLOUR W H scr T" and io: "stdout_shows K beyond W' H' T' before io t"
  shows "\<exists>scr' io'. primary_printf K (Some scr) [x, y] alloc colour (format_all ds) (args_all ds) io = Some (Returned NO_ERROR (scr', io', [0, y]) K) \<and>
     screen_shows BG_COLOUR W H scr' (term_puts (W div FONT_X) (H div FONT_Y) (colour_value colour) (text_all ds) T) \<and>
     stdout_shows K beyond W' H' T' before io' (t @ text_all ds @ [0x0A])"
proof -
  let ?t = "text_all ds"
  obtain scr' where s: "text_rasterise_string K scr (colour_value colour) BG_COLOUR (cstr ?t) (of_nat (length ?t)) = Some (Returned NO_ERROR scr' K)"
    "screen_shows BG_COLOUR W H scr' (term_puts (W div FONT_X) (H div FONT_Y) (colour_value colour) ?t T)"
    using rasterise_piece [OF scr ok(2), of K "colour_value colour" 0] ok(3) by auto
  obtain io' where "puts (cstr ?t) io = Some (1, io')" "stdout_shows K beyond W' H' T' before io' (t @ ?t @ [0x0A])"
    using puts_shows [OF io ok(2)] ok(3) by auto
  then show ?thesis using s format_message_text [OF ok(1,3) alloc] by (simp add: primary_printf_def)
qed

section \<open>The messages of the states\<close>

text \<open>\<^verbatim>\<open>%i\<close> prints the decimal text that the model of the states uses, and \<^verbatim>\<open>%s\<close> the string.\<close>

abbreviation no_options :: options where
  "no_options \<equiv> \<lparr>left_opt = False, zero_opt = False, plus_opt = False, blank_opt = False, alt_opt = False, width_opt = 0\<rparr>"

definition arg_int :: "int \<Rightarrow> directive" where
  "arg_int i = Signed no_options True Size_int (word_of_int i)"

definition arg_str :: "string \<Rightarrow> directive" where
  "arg_str s = String no_options (Some (lit s))"

definition arg_text :: "string \<Rightarrow> directive" where
  "arg_text s = Text (lit s)"

lemma dec_text_digits: "dec_text n = lit (digits n)"
proof (induction n rule: dec_text.induct)
  case (1 n)
  have d: "(of_char (char_of (48 + k) :: char) :: u8) = of_nat k + 0x30" if "k < 10" for k :: nat
  proof -
    have "(of_char (char_of (48 + k) :: char) :: nat) = 48 + k" using that by simp
    then have "(of_nat (of_char (char_of (48 + k) :: char)) :: u8) = of_nat (48 + k)" by (simp only:)
    then show ?thesis by (simp only: of_nat_of_char) (simp add: add.commute)
  qed
  show ?case
  proof (cases "n < 10")
    case True
    then show ?thesis using d [of n] by (subst dec_text.simps, subst digits.simps) (simp add: lit_def)
  next
    case False
    then show ?thesis using 1 d [of "n mod 10"] by (subst dec_text.simps, subst digits.simps) (simp add: lit_def)
  qed
qed

lemma text_of_arg_int:
  assumes "- (2 ^ 31) \<le> i" "i < 2 ^ 31"
  shows "text_of (arg_int i) = lit (decimal i)"
proof -
  have "signed_value Size_int (word_of_int i) = signed_take_bit 31 (take_bit 64 i)" by (simp add: signed_value_def unsigned_of_int)
  also have "\<dots> = signed_take_bit 31 i" by (simp add: signed_take_bit_take_bit)
  also have "\<dots> = i" using assms by (simp add: signed_take_bit_int_eq_self)
  finally have v: "signed_value Size_int (word_of_int i) = i" .
  show ?thesis by (simp add: arg_int_def v padded_def sign_text_def decimal_def dec_text_digits lit_def)
qed

lemma text_of_arg_str [simp]: "text_of (arg_str s) = lit s" "text_of (arg_text s) = lit s"
  by (simp_all add: arg_str_def arg_text_def padded_def)

lemma arg_ok:
  "directive_ok (arg_int i)" "nonul (lit s) \<Longrightarrow> directive_ok (arg_str s)"
  "directive_ok (arg_text s) \<longleftrightarrow> (\<forall>c \<in> set (lit s). plain_char c)"
  by (simp_all add: arg_int_def arg_str_def arg_text_def)

lemma ucast_word_of_int: "(ucast (word_of_int i :: u64) :: u32) = word_of_int i"
  by transfer simp

lemma arg_forms:
  "format_of (arg_int i) = lit ''%i''" "format_of (arg_str s) = lit ''%s''" "format_of (arg_text s) = lit s"
  "args_of (arg_int i) = [Va_int (word_of_int i)]" "args_of (arg_str s) = [Va_str (Some (cstr (lit s)))]" "args_of (arg_text s) = []"
  by (simp_all add: arg_int_def arg_str_def arg_text_def options_text_def lit_def number_arg_def ucast_word_of_int)

text \<open>
  The formats of the calls in the state handlers, their arguments, and the message that the model of the
  handlers has for them: \<open>r\<close> the name of a file system error, \<open>i\<close> the number of another error, \<open>f\<close> the name of a flash
  and \<open>p\<close> the path of the updater.
\<close>

definition state_messages :: "string \<Rightarrow> int \<Rightarrow> string \<Rightarrow> string \<Rightarrow> (string \<times> va_arg list \<times> string) list" where
  "state_messages r i f p =
     (let s = (\<lambda>x. Va_str (Some (cstr (lit x)))); n = Va_int (word_of_int i)
      in [(''error %s mounting memory card.'', [s r], ''error '' @ r @ '' mounting memory card.''),
          (''check you have the correct updater in %s\<newline>'', [s p], ''check you have the correct updater in '' @ p @ ''\<newline>''),
          (''error %i initialising psar handle.'', [n], ''error '' @ decimal i @ '' initialising psar handle.''),
          (''error %i opening 6.61 psar.'', [n], ''error '' @ decimal i @ '' opening 6.61 psar.''),
          (''error %i partitioning flash\<newline>'', [n], ''error '' @ decimal i @ '' partitioning flash\<newline>''),
          (''formatting %s... '', [s f], ''formatting '' @ f @ ''... ''),
          (''error %s formatting %s.'', [s r, s f], ''error '' @ r @ '' formatting '' @ f @ ''.''),
          (''error %s mounting flash0.'', [s r], ''error '' @ r @ '' mounting flash0.''),
          (''error %s mounting flash1.'', [s r], ''error '' @ r @ '' mounting flash1.''),
          (''error %s creating directories.'', [s r], ''error '' @ r @ '' creating directories.''),
          (''error %i flashing files.'', [n], ''error '' @ decimal i @ '' flashing files.'')])"

definition message_directives :: "string \<Rightarrow> int \<Rightarrow> string \<Rightarrow> string \<Rightarrow> directive list list" where
  "message_directives r i f p =
     [[arg_text ''error '', arg_str r, arg_text '' mounting memory card.''],
      [arg_text ''check you have the correct updater in '', arg_str p, arg_text ''\<newline>''],
      [arg_text ''error '', arg_int i, arg_text '' initialising psar handle.''],
      [arg_text ''error '', arg_int i, arg_text '' opening 6.61 psar.''],
      [arg_text ''error '', arg_int i, arg_text '' partitioning flash\<newline>''],
      [arg_text ''formatting '', arg_str f, arg_text ''... ''],
      [arg_text ''error '', arg_str r, arg_text '' formatting '', arg_str f, arg_text ''.''],
      [arg_text ''error '', arg_str r, arg_text '' mounting flash0.''],
      [arg_text ''error '', arg_str r, arg_text '' mounting flash1.''],
      [arg_text ''error '', arg_str r, arg_text '' creating directories.''],
      [arg_text ''error '', arg_int i, arg_text '' flashing files.'']]"

lemma lit_append: "lit (a @ b) = lit a @ lit b"
  by (simp add: lit_def)

lemma message_directives_ok:
  assumes "nonul (lit r)" "nonul (lit f)" "nonul (lit p)"
  shows "list_all (list_all directive_ok) (message_directives r i f p)"
  using arg_ok(1) arg_ok(2) [OF assms(1)] arg_ok(2) [OF assms(2)] arg_ok(2) [OF assms(3)]
  by (simp add: message_directives_def arg_ok(3)) (simp add: lit_def)

lemma message_directives_render:
  assumes "- (2 ^ 31) \<le> i" "i < 2 ^ 31"
  shows "map (\<lambda>(fm, as, m). (cstr (lit fm), as, lit m)) (state_messages r i f p) =
    map (\<lambda>ds. (format_all ds, args_all ds, text_all ds)) (message_directives r i f p)"
  unfolding state_messages_def message_directives_def Let_def
  by (simp add: format_all_def args_all_def text_all_def arg_forms text_of_arg_int [OF assms] lit_append) (simp add: lit_def)

end
