(* ===== verification/Atoi.thy ===== *)
theory Atoi
  imports Printf_Output
begin

text \<open>
  lib/libc/ctype.c and lib/libc/atoi.c: character classes and the conversion of text to numbers. A \<^verbatim>\<open>char\<close> is
  signed when it is passed as an \<^verbatim>\<open>int\<close>. \<open>None\<close> is a read behind the end of the string.
\<close>

section \<open>Characters\<close>

definition isblank :: "int \<Rightarrow> bool" where
  "isblank c \<longleftrightarrow> c = 0x20 \<or> c = 0x09"

definition isspace :: "int \<Rightarrow> bool" where
  "isspace c \<longleftrightarrow> c = 0x20 \<or> c = 0x0C \<or> c = 0x0A \<or> c = 0x0D \<or> c = 0x09 \<or> c = 0x0B"

definition islower :: "int \<Rightarrow> bool" where
  "islower c \<longleftrightarrow> c \<ge> 0x61 \<and> c \<le> 0x7A"

definition isupper :: "int \<Rightarrow> bool" where
  "isupper c \<longleftrightarrow> c \<ge> 0x41 \<and> c \<le> 0x5A"

definition isdigit :: "int \<Rightarrow> bool" where
  "isdigit c \<longleftrightarrow> c \<ge> 0x30 \<and> c \<le> 0x39"

definition isalpha :: "int \<Rightarrow> bool" where
  "isalpha c \<longleftrightarrow> isupper c \<or> islower c"

definition isalnum :: "int \<Rightarrow> bool" where
  "isalnum c \<longleftrightarrow> isalpha c \<or> isdigit c"

definition isxdigit :: "int \<Rightarrow> bool" where
  "isxdigit c \<longleftrightarrow> isdigit c \<or> c \<ge> 0x61 \<and> c \<le> 0x66 \<or> c \<ge> 0x41 \<and> c \<le> 0x46"

definition isgraph :: "int \<Rightarrow> bool" where
  "isgraph c \<longleftrightarrow> c > 0x20 \<and> c < 0x7f"

definition iscntrl :: "int \<Rightarrow> bool" where
  "iscntrl c \<longleftrightarrow> c < 0x20 \<or> c = 0x7f"

definition isprint :: "int \<Rightarrow> bool" where
  "isprint c \<longleftrightarrow> c \<ge> 0x20 \<and> c < 0x7f"

definition ispunct :: "int \<Rightarrow> bool" where
  "ispunct c \<longleftrightarrow> isgraph c \<and> \<not> isalnum c"

definition tolower :: "int \<Rightarrow> int" where
  "tolower c = (if c \<ge> 0x41 \<and> c \<le> 0x5A then c + (0x61 - 0x41) else c)"

definition toupper :: "int \<Rightarrow> int" where
  "toupper c = (if c \<ge> 0x61 \<and> c \<le> 0x7A then c + (0x41 - 0x61) else c)"

section \<open>Numbers\<close>

definition hexval :: "int \<Rightarrow> int" where
  "hexval c = (if c \<ge> 0x30 \<and> c \<le> 0x39 then c - 0x30
     else if c \<ge> 0x61 \<and> c \<le> 0x66 then c - 0x61 + 10
     else if c \<ge> 0x41 \<and> c \<le> 0x46 then c - 0x41 + 10 else 0)"

text \<open>The two loops that \<^verbatim>\<open>atol\<close>, \<^verbatim>\<open>atoul\<close> and \<^verbatim>\<open>atoull\<close> share, at the width of their result.\<close>

fun hex_value :: "bytes \<Rightarrow> 'a::len word \<Rightarrow> 'a word option" where
  "hex_value [] value = None"
| "hex_value (c # num) value =
     (if c \<noteq> 0 \<and> isxdigit (sint c) then hex_value num (value * 16 + of_int (hexval (sint c))) else Some value)"

fun dec_value :: "bytes \<Rightarrow> 'a::len word \<Rightarrow> 'a word option" where
  "dec_value [] value = None"
| "dec_value (c # num) value =
     (if c \<noteq> 0 \<and> isdigit (sint c) then dec_value num (value * 10 + of_int (sint c) - 0x30) else Some value)"

definition peek :: "bytes \<Rightarrow> nat \<Rightarrow> u8 option" where
  "peek s i = (if i < length s then Some (s ! i) else None)"

definition hex_prefix :: "bytes \<Rightarrow> bool option" where
  "hex_prefix num = do {
     c0 \<leftarrow> peek num 0;
     if c0 = 0x30 then do { c1 \<leftarrow> peek num 1; Some (c1 = 0x78) } else Some False
   }"

definition atol :: "bytes \<Rightarrow> int option" where
  "atol num = do {
     hex \<leftarrow> hex_prefix num;
     if hex then do { value \<leftarrow> hex_value (drop 2 num) 0; Some (sint (value :: u32)) }
     else do {
       c0 \<leftarrow> peek num 0;
       let neg = (c0 = 0x2D);
       value \<leftarrow> dec_value (if neg then drop 1 num else num) 0;
       Some (sint (if neg then - value else value :: u32))
     }
   }"

definition atoi :: "bytes \<Rightarrow> int option" where
  "atoi num = atol num"

definition atoul :: "bytes \<Rightarrow> u32 option" where
  "atoul num = do { hex \<leftarrow> hex_prefix num; if hex then hex_value (drop 2 num) 0 else dec_value num 0 }"

definition atoui :: "bytes \<Rightarrow> u32 option" where
  "atoui num = atoul num"

definition atoull :: "bytes \<Rightarrow> u64 option" where
  "atoull num = do { hex \<leftarrow> hex_prefix num; if hex then hex_value (drop 2 num) 0 else dec_value num 0 }"

text \<open>\<^verbatim>\<open>strtoul\<close>: the result with the offset of \<^verbatim>\<open>*endptr\<close>, if it is set, and the error number, if one is set.\<close>

datatype errno = EINVAL | ERANGE

abbreviation (input) ULONG_MAX :: u32 where "ULONG_MAX \<equiv> 0xFFFFFFFF"

definition strtoul_digit :: "int \<Rightarrow> int" where
  "strtoul_digit c = (if c \<ge> 0x41 \<and> c \<le> 0x5A then c - 0x41 + 10
     else if c \<ge> 0x61 \<and> c \<le> 0x7A then c - 0x61 + 10
     else if c \<ge> 0x30 \<and> c \<le> 0x39 then c - 0x30 else - 1)"

fun strtoul_loop :: "int \<Rightarrow> bytes \<Rightarrow> nat \<Rightarrow> u32 \<Rightarrow> errno option \<Rightarrow> (u32 \<times> nat \<times> errno option) option" where
  "strtoul_loop base [] pos ret err = None"
| "strtoul_loop base (c # s) pos ret err =
     (let v = strtoul_digit (sint c); new_ret = ret * of_int base
      in if v < 0 \<or> v \<ge> base then Some (ret, pos, err)
         else if new_ret div of_int base \<noteq> ret \<or> new_ret + of_int v < new_ret \<or> ret = ULONG_MAX
           then strtoul_loop base s (pos + 1) ULONG_MAX (Some ERANGE)
         else strtoul_loop base s (pos + 1) (new_ret + of_int v) err)"

fun skip_space :: "bytes \<Rightarrow> nat option" where
  "skip_space [] = None"
| "skip_space (c # s) = (if isspace (sint c) then map_option Suc (skip_space s) else Some 0)"

definition strtoul :: "bytes \<Rightarrow> int \<Rightarrow> (u32 \<times> nat option \<times> errno option) option" where
  "strtoul nptr base0 =
     (if base0 < 0 \<or> base0 = 1 \<or> base0 > 36 then Some (0, None, Some EINVAL)
      else do {
        p0 \<leftarrow> skip_space nptr;
        c \<leftarrow> peek nptr p0;
        let neg = (c = 0x2D);
        let p1 = (if c = 0x2B \<or> neg then p0 + 1 else p0);
        hex \<leftarrow> (if base0 = 0 \<or> base0 = 16 then hex_prefix (drop p1 nptr) else Some False);
        c1 \<leftarrow> (if hex then Some 0 else if base0 = 0 then peek nptr p1 else Some 0);
        let (base, p2) = (if hex then (16, p1 + 2) else if base0 = 0 \<and> c1 = 0x30 then (8, p1 + 1) else if base0 = 0 then (10, p1) else (base0, p1));
        (ret, p3, err) \<leftarrow> strtoul_loop base (drop p2 nptr) p2 0 None;
        Some (if neg \<and> ret \<noteq> ULONG_MAX then - ret else ret, Some p3, err)
      })"

section \<open>Reading what was printed\<close>

lemma sint_ascii: "unat (c :: u8) < 128 \<Longrightarrow> sint c = int (unat c)"
proof -
  assume "unat c < 128"
  then have "nat (uint c) < 128" by (simp only: unat_eq_nat_uint)
  then have "uint c < 128" by arith
  then have "uint c < 2 ^ 7" by simp
  moreover have "- (2 ^ 7) \<le> uint c" using uint_nonnegative [of c] by (rule order_trans [rotated]) simp
  ultimately have "signed_take_bit 7 (uint c) = uint c" by (intro signed_take_bit_int_eq_self)
  then show ?thesis by (simp add: sint_uint)
qed

lemma sint_digit: "k < 10 \<Longrightarrow> sint (of_nat k + 0x30 :: u8) = int k + 48"
  using sint_ascii [of "of_nat k + 0x30"] unat_digit [of k] by simp

lemma dec_value_text: "dec_value (dec_text n @ s) 0 = dec_value s (of_nat n)"
proof (induction n arbitrary: s rule: dec_text.induct)
  case (1 n)
  have step: "dec_value ((of_nat k + 0x30) # s) v = dec_value s (v * 10 + of_nat k)" if "k < 10" for k s and v :: "'a word"
    using that digit_nonzero [OF that] sint_digit [OF that] by (simp add: isdigit_def)
  show ?case
  proof (cases "n < 10")
    case True
    then have "dec_text n = [of_nat n + 0x30]" by (subst dec_text.simps) simp
    then show ?thesis using step [OF True, of s 0] by simp
  next
    case False
    have d: "dec_text n = dec_text (n div 10) @ [of_nat (n mod 10) + 0x30]" using False by (subst dec_text.simps) simp
    have "dec_value (dec_text n @ s) 0 = dec_value ((of_nat (n mod 10) + 0x30) # s) (of_nat (n div 10) :: 'a word)"
      unfolding d using 1 [OF False, of "(of_nat (n mod 10) + 0x30) # s"] by (simp del: dec_value.simps)
    also have "\<dots> = dec_value s (of_nat (n div 10) * 10 + of_nat (n mod 10))" by (rule step) simp
    also have "of_nat (n div 10) * 10 + of_nat (n mod 10) = (of_nat (n div 10 * 10 + n mod 10) :: 'a word)"
      by (simp only: of_nat_add of_nat_mult of_nat_numeral)
    finally show ?thesis by simp
  qed
qed

lemma hex_digit:
  assumes "k < 16" "t = hextable \<or> t = hextable_caps"
  shows "isxdigit (sint (t ! k))" "hexval (sint (t ! k)) = int k" "t ! k \<noteq> 0"
proof -
  have k: "k \<in> {0, 1, 2, 3, 4, 5, 6, 7, 8, 9, 10, 11, 12, 13, 14, 15}" using assms(1) by (simp only: insert_iff empty_iff) arith
  have u: "unat (t ! k) < 128" using k assms(2) by (elim insertE emptyE disjE; simp add: hextable_def hextable_caps_def)
  have h: "hexval (int (unat (t ! k))) = int k \<and> isxdigit (int (unat (t ! k))) \<and> unat (t ! k) \<noteq> 0"
    using k assms(2) by (elim insertE emptyE disjE; simp add: hextable_def hextable_caps_def hexval_def isxdigit_def isdigit_def)
  show "isxdigit (sint (t ! k))" "hexval (sint (t ! k)) = int k" using h sint_ascii [OF u] by simp_all
  show "t ! k \<noteq> 0" using h by auto
qed

lemma hex_value_text:
  assumes "t = hextable \<or> t = hextable_caps"
  shows "hex_value (hex_text t n @ s) 0 = hex_value s (of_nat n)"
  using assms
proof (induction t n arbitrary: s rule: hex_text.induct)
  case (1 t n)
  have step: "hex_value (t ! k # s) v = hex_value s (v * 16 + of_nat k)" if "k < 16" for k s and v :: "'a word"
    using hex_digit [OF that 1(2)] by simp
  show ?case
  proof (cases "n < 16")
    case True
    then have "hex_text t n = [t ! n]" by (subst hex_text.simps) simp
    then show ?thesis using step [OF True, of s 0] by simp
  next
    case False
    have d: "hex_text t n = hex_text t (n div 16) @ [t ! (n mod 16)]" using False by (subst hex_text.simps) simp
    have "hex_value (hex_text t n @ s) 0 = hex_value (t ! (n mod 16) # s) (of_nat (n div 16) :: 'a word)"
      unfolding d using 1(1) [OF False 1(2), of "t ! (n mod 16) # s"] by (simp del: hex_value.simps)
    also have "\<dots> = hex_value s (of_nat (n div 16) * 16 + of_nat (n mod 16))" by (rule step) simp
    also have "of_nat (n div 16) * 16 + of_nat (n mod 16) = (of_nat (n div 16 * 16 + n mod 16) :: 'a word)"
      by (simp only: of_nat_add of_nat_mult of_nat_numeral)
    finally show ?thesis by simp
  qed
qed

lemma dec_text_chars: "c \<in> set (dec_text n) \<Longrightarrow> 48 \<le> unat c \<and> unat c \<le> 57"
proof (induction n rule: dec_text.induct)
  case (1 n)
  show ?case
  proof (cases "n < 10")
    case True
    then have "dec_text n = [of_nat n + 0x30]" by (subst dec_text.simps) simp
    then show ?thesis using 1(2) unat_digit [OF True] True by simp
  next
    case False
    have d: "dec_text n = dec_text (n div 10) @ [of_nat (n mod 10) + 0x30]" using False by (subst dec_text.simps) simp
    have "48 \<le> unat (of_nat (n mod 10) + 0x30 :: u8) \<and> unat (of_nat (n mod 10) + 0x30 :: u8) \<le> 57" using unat_digit [of "n mod 10"] by simp
    moreover have "c \<in> set (dec_text (n div 10)) \<or> c = of_nat (n mod 10) + 0x30" using 1(2) unfolding d by auto
    ultimately show ?thesis using 1(1) [OF False] by blast
  qed
qed

lemma dec_text_no_prefix: "hex_prefix (dec_text n @ 0 # r) = Some False"
proof -
  have ne: "0 < length (dec_text n)" by simp
  have "(dec_text n @ 0 # r) ! 1 \<noteq> 0x78"
  proof (cases "1 < length (dec_text n)")
    case True
    then have "(dec_text n @ 0 # r) ! 1 \<in> set (dec_text n)" by (simp add: nth_append)
    then show ?thesis using dec_text_chars [of "(dec_text n @ 0 # r) ! 1" n] by auto
  next
    case False
    then have "length (dec_text n) = 1" using ne by linarith
    then show ?thesis by (simp add: nth_append)
  qed
  then show ?thesis by (simp add: hex_prefix_def peek_def)
qed

lemma dec_text_no_sign: "\<exists>c. peek (dec_text n @ 0 # r) 0 = Some c \<and> c \<noteq> 0x2D"
proof -
  have "0 < length (dec_text n)" by simp
  then have "dec_text n ! 0 \<in> set (dec_text n)" "(dec_text n @ 0 # r) ! 0 = dec_text n ! 0" by (rule nth_mem, simp add: nth_append)
  then have "(dec_text n @ 0 # r) ! 0 \<noteq> 0x2D" using dec_text_chars [of "dec_text n ! 0" n] by auto
  then show ?thesis by (simp add: peek_def)
qed

lemma atoul_dec_text: "atoul (dec_text n @ 0 # r) = Some (of_nat n)" "atoull (dec_text n @ 0 # r) = Some (of_nat n)"
  by (simp_all add: atoul_def atoull_def dec_text_no_prefix dec_value_text)

lemma atoul_hex_text:
  assumes "t = hextable \<or> t = hextable_caps"
  shows "atoul (0x30 # 0x78 # hex_text t n @ 0 # r) = Some (of_nat n)" "atoull (0x30 # 0x78 # hex_text t n @ 0 # r) = Some (of_nat n)"
  by (simp_all add: atoul_def atoull_def hex_prefix_def peek_def hex_value_text [OF assms])

lemma atol_dec_text:
  assumes "- (2 ^ 31) \<le> i" "i < 2 ^ 31"
  shows "atol ((if i < 0 then [0x2D] else []) @ dec_text (nat \<bar>i\<bar>) @ 0 # r) = Some i"
proof -
  have w: "sint (word_of_int i :: u32) = i" using assms by (simp add: signed_of_int signed_take_bit_int_eq_self)
  show ?thesis
  proof (cases "i < 0")
    case True
    have "- (of_nat (nat \<bar>i\<bar>) :: u32) = word_of_int i" using True by (simp flip: word_of_int_minus)
    then show ?thesis using True w by (simp add: atol_def hex_prefix_def peek_def dec_value_text)
  next
    case False
    then have "(of_nat (nat \<bar>i\<bar>) :: u32) = word_of_int i" by simp
    then show ?thesis using False w dec_text_no_sign [of "nat \<bar>i\<bar>" r] by (auto simp: atol_def dec_text_no_prefix dec_value_text)
  qed
qed

text \<open>The text of a number that fits its buffer stands at the front of it, with the terminator behind.\<close>

lemma vsnprintf_number:
  assumes "directive_ok d" "length (text_of d) < unat len" "unat len \<le> length m" "unat len < 2 ^ 31"
  shows "\<exists>r. vsnprintf m 0 len (cstr (format_of d)) (args_of d) = Some (int (length (text_of d)), text_of d @ 0 # r)"
proof -
  have "vsnprintf m 0 len (format_all [d]) (args_all [d] @ []) = Some (int (length (text_all [d])), buffer_after m 0 (unat len) (text_all [d]))"
    by (rule vsnprintf_renders) (use assms in \<open>simp_all add: text_all_def buffer_room_def\<close>)
  moreover have "buffer_after m 0 (unat len) (text_of d) = text_of d @ 0 # drop (length (text_of d) + 1) m"
    using assms(2) by (simp add: buffer_after_def)
  ultimately show ?thesis by (simp add: format_all_def args_all_def text_all_def)
qed

abbreviation plain_options :: options where
  "plain_options \<equiv> \<lparr>left_opt = False, zero_opt = False, plus_opt = False, blank_opt = False, alt_opt = False, width_opt = 0\<rparr>"

lemma u32_wide: "signed_value Size_int (ucast (w :: u32)) = sint w" "unsigned_value Size_int (ucast w) = unat w"
proof -
  have "unat w < 2 ^ 32" using unsigned_less [of w, where ?'a = nat] by simp
  then show "unsigned_value Size_int (ucast w) = unat w" by (simp add: unsigned_value_def unsigned_ucast_eq take_bit_nat_eq_self)
  have "uint (ucast w :: u64) = take_bit 64 (uint w)" by (subst unsigned_ucast_eq) simp
  then show "signed_value Size_int (ucast w) = sint w"
    by (simp only: signed_value_def) (simp add: signed_take_bit_take_bit sint_uint)
qed

lemma u64_wide: "unsigned_value Size_longlong n = unat n"
  by (simp add: unsigned_value_def flip: unat_narrow(2))

lemma ucast_ucast_u32: "(ucast (ucast (w :: u32) :: u64) :: u32) = w"
  by transfer simp

lemma number_formats:
  "cstr (lit ''%d'') = cstr (format_of (Signed plain_options False Size_int (ucast (w :: u32))))"
  "cstr (lit ''%u'') = cstr (format_of (Unsigned plain_options Size_int (ucast w)))"
  "cstr (lit ''%#x'') = cstr (format_of (Hexadecimal (plain_options\<lparr>alt_opt := True\<rparr>) False Size_int (ucast w)))"
  "cstr (lit ''%llu'') = cstr (format_of (Unsigned plain_options Size_longlong n))"
  "cstr (lit ''%#llx'') = cstr (format_of (Hexadecimal (plain_options\<lparr>alt_opt := True\<rparr>) False Size_longlong n))"
  by (simp_all add: options_text_def lit_def)

lemma number_args:
  "[Va_int (w :: u32)] = args_of (Signed plain_options False Size_int (ucast w))" "[Va_int w] = args_of (Unsigned plain_options Size_int (ucast w))"
  "[Va_int w] = args_of (Hexadecimal (plain_options\<lparr>alt_opt := True\<rparr>) False Size_int (ucast w))"
  "[Va_ll n] = args_of (Unsigned plain_options Size_longlong n)" "[Va_ll n] = args_of (Hexadecimal (plain_options\<lparr>alt_opt := True\<rparr>) False Size_longlong n)"
  by (simp_all add: number_arg_def ucast_ucast_u32)

lemma number_texts:
  "text_of (Signed plain_options False Size_int (ucast (w :: u32))) = (if sint w < 0 then [0x2D] else []) @ dec_text (nat \<bar>sint w\<bar>)"
  "text_of (Unsigned plain_options Size_int (ucast w)) = dec_text (unat w)"
  "text_of (Hexadecimal (plain_options\<lparr>alt_opt := True\<rparr>) False Size_int (ucast w)) = 0x30 # 0x78 # hex_text hextable (unat w)"
  "text_of (Unsigned plain_options Size_longlong n) = dec_text (unat n)"
  "text_of (Hexadecimal (plain_options\<lparr>alt_opt := True\<rparr>) False Size_longlong n) = 0x30 # 0x78 # hex_text hextable (unat n)"
  by (simp_all add: padded_def sign_text_def u32_wide u64_wide lit_prefix)

section \<open>Saturation\<close>

text \<open>The value of a text in a base, and what \<^verbatim>\<open>strtoul\<close> makes of it.\<close>

definition digits_value :: "int \<Rightarrow> bytes \<Rightarrow> int" where
  "digits_value base ds = foldl (\<lambda>a c. a * base + strtoul_digit (sint c)) 0 ds"

definition in_base :: "int \<Rightarrow> u8 \<Rightarrow> bool" where
  "in_base base c \<longleftrightarrow> 0 \<le> strtoul_digit (sint c) \<and> strtoul_digit (sint c) < base"

text \<open>The accumulator after a text of some value: the value, or the largest number with the error set.\<close>

definition saturated :: "int \<Rightarrow> u32 \<Rightarrow> errno option \<Rightarrow> bool" where
  "saturated val ret err \<longleftrightarrow> 0 \<le> val \<and> (if val < 2 ^ 32 then uint ret = val \<and> err = None else ret = ULONG_MAX \<and> err = Some ERANGE)"

lemma saturated_step:
  assumes s: "saturated val ret err" and b: "2 \<le> base" "base \<le> 36" and v: "0 \<le> v" "v < base"
  defines "n \<equiv> ret * of_int base"
  shows "if n div of_int base \<noteq> ret \<or> n + of_int v < n \<or> ret = ULONG_MAX
    then saturated (val * base + v) ULONG_MAX (Some ERANGE) else saturated (val * base + v) (n + of_int v) err"
proof -
  have ub: "uint (of_int base :: u32) = base" "uint (of_int v :: u32) = v" using b v by (simp_all add: unsigned_of_int take_bit_int_eq_self)
  have nn: "0 \<le> val * base + v" using s b v by (simp add: saturated_def)
  show ?thesis
  proof (cases "val < 2 ^ 32")
    case False
    then have "2 ^ 32 * 1 \<le> val * base" using b by (intro mult_mono) simp_all
    then show ?thesis using s False v by (simp add: saturated_def)
  next
    case True
    then have r: "uint ret = val" "err = None" using s by (simp_all add: saturated_def)
    have n: "uint n = (val * base) mod 2 ^ 32" unfolding n_def uint_word_ariths(3) ub r by simp
    have m: "0 \<le> val * base" using s b by (simp add: saturated_def)
    have max: "ret = ULONG_MAX \<longrightarrow> 2 ^ 32 \<le> val * base"
    proof
      assume "ret = ULONG_MAX"
      then have "val = 2 ^ 32 - 1" using r by simp
      then have "(2 ^ 32 - 1) * 2 \<le> val * base" using b by (intro mult_mono) simp_all
      then show "2 ^ 32 \<le> val * base" by simp
    qed
    consider (ok) "val * base + v < 2 ^ 32" | (add) "val * base < 2 ^ 32" "2 ^ 32 \<le> val * base + v" | (mult) "2 ^ 32 \<le> val * base" by linarith
    then show ?thesis
    proof cases
      case ok
      then have un: "uint n = val * base" using n m v by simp
      have "uint (n div of_int base) = val" unfolding uint_div un ub using b by simp
      then have d: "n div of_int base = ret" using r by (metis word_uint_eqI)
      have a: "uint (n + of_int v) = val * base + v" unfolding uint_word_ariths(1) un ub using ok nn by simp
      then have "\<not> n + of_int v < n" using un v by (simp add: word_less_def)
      moreover have "ret \<noteq> ULONG_MAX" using max ok v by auto
      ultimately show ?thesis using d a r nn ok by (simp add: saturated_def)
    next
      case add
      then have un: "uint n = val * base" using n m by simp
      have "(val * base + v) mod 2 ^ 32 = (val * base + v - 2 ^ 32) mod 2 ^ 32" using add(2) by (intro mod_pos_geq) simp_all
      also have "\<dots> = val * base + v - 2 ^ 32" using add v b by (intro mod_pos_pos_trivial) simp_all
      finally have "uint (n + of_int v) = val * base + v - 2 ^ 32" unfolding uint_word_ariths(1) un ub by simp
      then have "n + of_int v < n" using un v b by (simp add: word_less_def)
      then show ?thesis using add nn by (simp add: saturated_def)
    next
      case mult
      have "n div of_int base \<noteq> ret"
      proof
        assume "n div of_int base = ret"
        then have "(val * base) mod 2 ^ 32 div base = val" using r n by (metis uint_div ub(1))
        moreover have "0 \<le> (val * base) mod 2 ^ 32 mod base" using b by (intro pos_mod_sign) simp
        ultimately have "val * base \<le> (val * base) mod 2 ^ 32" 
          using minus_mod_eq_div_mult [of "(val * base) mod 2 ^ 32" base] by simp
        moreover have "(val * base) mod 2 ^ 32 < 2 ^ 32" by simp
        ultimately show False using mult by linarith
      qed
      then show ?thesis using mult nn v by (simp add: saturated_def)
    qed
  qed
qed


lemma strtoul_loop_saturates:
  assumes "saturated val ret err" "2 \<le> base" "base \<le> 36" "list_all (in_base base) ds" "\<not> in_base base c"
  shows "\<exists>ret' err'. strtoul_loop base (ds @ c # s) pos ret err = Some (ret', pos + length ds, err') \<and>
    saturated (foldl (\<lambda>a c. a * base + strtoul_digit (sint c)) val ds) ret' err'"
  using assms
proof (induction ds arbitrary: val ret err pos)
  case Nil
  then show ?case by (auto simp: Let_def in_base_def)
next
  case (Cons d ds)
  let ?v = "strtoul_digit (sint d)" and ?n = "ret * of_int base :: u32"
  have v: "0 \<le> ?v" "?v < base" using Cons.prems(4) by (auto simp: in_base_def)
  show ?case
  proof (cases "?n div of_int base \<noteq> ret \<or> ?n + of_int ?v < ?n \<or> ret = ULONG_MAX")
    case True
    then have "saturated (val * base + ?v) ULONG_MAX (Some ERANGE)" using saturated_step [OF Cons.prems(1,2,3) v] by simp
    from Cons.IH [OF this Cons.prems(2,3) _ Cons.prems(5), of "pos + 1"] Cons.prems(4) show ?thesis using True v by (simp add: Let_def)
  next
    case False
    then have "saturated (val * base + ?v) (?n + of_int ?v) err" using saturated_step [OF Cons.prems(1,2,3) v] by simp
    from Cons.IH [OF this Cons.prems(2,3) _ Cons.prems(5), of "pos + 1"] Cons.prems(4) show ?thesis using False v by (simp add: Let_def)
  qed
qed

lemma strtoul_saturates:
  assumes base: "2 \<le> base" "base \<le> 36" and ds: "list_all (in_base base) ds" "ds \<noteq> []" "\<not> in_base base c"
    and sp: "list_all (\<lambda>c. isspace (sint c)) sp" and sg: "sg = [] \<or> sg = [0x2B] \<or> sg = [0x2D]"
    and pre: "base = 16 \<longrightarrow> hex_prefix (ds @ c # s) = Some False"
  shows "strtoul (sp @ sg @ ds @ c # s) base =
    Some (if digits_value base ds < 2 ^ 32 - 1 then (if sg = [0x2D] then - of_int (digits_value base ds) else of_int (digits_value base ds)) else ULONG_MAX,
      Some (length sp + length sg + length ds), if digits_value base ds < 2 ^ 32 then None else Some ERANGE)"
proof -
  obtain d ds' where d: "ds = d # ds'" using ds(2) by (cases ds) auto
  then have "in_base base d" using ds(1) by simp
  then have nd: "\<not> isspace (sint d)" "d \<noteq> 0x2D" "d \<noteq> 0x2B" by (auto simp: in_base_def isspace_def strtoul_digit_def)
  define e where "e = (case sg @ ds @ c # s of x # xs \<Rightarrow> x)"
  have e: "\<exists>xs. sg @ ds @ c # s = e # xs" using d sg by (auto simp: e_def)
  have ns: "\<not> isspace (sint e)" using nd(1) sg d by (auto simp: e_def isspace_def)
  have neg: "e = 0x2D \<longleftrightarrow> sg = [0x2D]" and p1: "(if e = 0x2B \<or> e = 0x2D then length sp + 1 else length sp) = length sp + length sg"
    using sg nd d by (auto simp: e_def)
  have sk: "skip_space (sp @ sg @ ds @ c # s) = Some (length sp)" using sp ns e by (induction sp) auto
  have pk: "peek (sp @ sg @ ds @ c # s) (length sp) = Some e"
  proof -
    obtain xs where xs: "sg @ ds @ c # s = e # xs" using e by blast
    have "peek (sp @ e # xs) (length sp) = Some e" by (simp add: peek_def)
    then show ?thesis unfolding xs .
  qed
  have dr: "drop (length sp + length sg) (sp @ sg @ ds @ c # s) = ds @ c # s" by simp
  have "saturated 0 0 None" by (simp add: saturated_def)
  from strtoul_loop_saturates [OF this base ds(1,3), of s "length sp + length sg"] obtain ret err where
    r: "strtoul_loop base (ds @ c # s) (length sp + length sg) 0 None = Some (ret, length sp + length sg + length ds, err)"
    "saturated (digits_value base ds) ret err"
    by (auto simp: digits_value_def)
  have "strtoul (sp @ sg @ ds @ c # s) base = Some (if sg = [0x2D] \<and> ret \<noteq> ULONG_MAX then - ret else ret, Some (length sp + length sg + length ds), err)"
    using base pre r(1) unfolding strtoul_def sk by (cases "base = 16") (simp_all add: pk neg [symmetric] p1 dr Let_def del: drop_append)
  moreover have "ret = of_int (digits_value base ds) \<and> err = None" if "digits_value base ds < 2 ^ 32"
    using r(2) that by (auto simp: saturated_def) (metis word_of_int_uint)
  moreover have "ret = ULONG_MAX \<and> err = Some ERANGE" if "\<not> digits_value base ds < 2 ^ 32" using r(2) that by (simp add: saturated_def)
  moreover have "ret = ULONG_MAX \<longleftrightarrow> digits_value base ds = 2 ^ 32 - 1" if "digits_value base ds < 2 ^ 32"
    using r(2) that by (simp add: saturated_def word_uint_eq_iff [of ret])
  ultimately show ?thesis by (cases "digits_value base ds < 2 ^ 32") auto
qed


section \<open>Printing and reading\<close>

lemma u32_text_lengths:
  "length (dec_text (unat (w :: u32))) \<le> 10" "length (dec_text (nat \<bar>sint w\<bar>)) \<le> 10" "length (hex_text t (unat w)) \<le> 8"
proof -
  have u: "unat w < 2 ^ 32" using unsigned_less [of w, where ?'a = nat] by simp
  then show "length (dec_text (unat w)) \<le> 10" using dec_text_length [of "unat w" 9] by simp
  show "length (hex_text t (unat w)) \<le> 8" using u hex_text_length [of "unat w" 7 t] by simp
  have "nat \<bar>sint w\<bar> < 10 ^ Suc 9" using sint_ge [of w] sint_lt [of w] by simp
  then show "length (dec_text (nat \<bar>sint w\<bar>)) \<le> 10" using dec_text_length [of _ 9] by simp
qed

lemma print_read_u32:
  assumes "12 \<le> unat len" "unat len \<le> length m" "unat len < 2 ^ 31"
  shows "\<exists>n m'. vsnprintf m 0 len (cstr (lit ''%d'')) [Va_int w] = Some (n, m') \<and> atoi m' = Some (sint w)"
    and "\<exists>n m'. vsnprintf m 0 len (cstr (lit ''%u'')) [Va_int w] = Some (n, m') \<and> atoui m' = Some w"
    and "\<exists>n m'. vsnprintf m 0 len (cstr (lit ''%#x'')) [Va_int w] = Some (n, m') \<and> atoui m' = Some w"
proof -
  have "- (2 ^ 31) \<le> sint w" "sint w < 2 ^ 31" using sint_ge [of w] sint_lt [of w] by simp_all
  note at = atol_dec_text [OF this]
  show "\<exists>n m'. vsnprintf m 0 len (cstr (lit ''%d'')) [Va_int w] = Some (n, m') \<and> atoi m' = Some (sint w)"
  proof -
    let ?d = "Signed plain_options False Size_int (ucast w)"
    have "length (text_of ?d) < unat len" unfolding number_texts length_append using assms(1) u32_text_lengths(2) [of w] by (auto split: if_split)
    from vsnprintf_number [OF _ this assms(2,3)] obtain r where
      r: "vsnprintf m 0 len (cstr (lit ''%d'')) [Va_int w] = Some (int (length (text_of ?d)), text_of ?d @ 0 # r)"
      unfolding number_formats(1) [of w] number_args(1) by auto
    have "atoi (text_of ?d @ 0 # r) = Some (sint w)" unfolding number_texts atoi_def append_assoc by (rule at)
    then show ?thesis using r by blast
  qed
  show "\<exists>n m'. vsnprintf m 0 len (cstr (lit ''%u'')) [Va_int w] = Some (n, m') \<and> atoui m' = Some w"
    using vsnprintf_number [OF _ _ assms(2,3), of "Unsigned plain_options Size_int (ucast w)"] assms(1) u32_text_lengths(1) [of w]
    unfolding number_formats(2) [of w] number_args(2) number_texts by (fastforce simp: atoui_def atoul_dec_text)
  show "\<exists>n m'. vsnprintf m 0 len (cstr (lit ''%#x'')) [Va_int w] = Some (n, m') \<and> atoui m' = Some w"
    using vsnprintf_number [OF _ _ assms(2,3), of "Hexadecimal (plain_options\<lparr>alt_opt := True\<rparr>) False Size_int (ucast w)"] assms(1) u32_text_lengths(3) [of hextable w]
    unfolding number_formats(3) [of w] number_args(3) number_texts by (fastforce simp: atoui_def atoul_hex_text)
qed

lemma print_read_u64:
  assumes "21 \<le> unat len" "unat len \<le> length m" "unat len < 2 ^ 31"
  shows "\<exists>k m'. vsnprintf m 0 len (cstr (lit ''%llu'')) [Va_ll n] = Some (k, m') \<and> atoull m' = Some n"
    and "\<exists>k m'. vsnprintf m 0 len (cstr (lit ''%#llx'')) [Va_ll n] = Some (k, m') \<and> atoull m' = Some n"
proof -
  show "\<exists>k m'. vsnprintf m 0 len (cstr (lit ''%llu'')) [Va_ll n] = Some (k, m') \<and> atoull m' = Some n"
    using vsnprintf_number [OF _ _ assms(2,3), of "Unsigned plain_options Size_longlong n"] assms(1) dec_text_u64 [of n]
    unfolding number_formats(4) [of n] number_args(4) number_texts by (fastforce simp: atoul_dec_text)
  show "\<exists>k m'. vsnprintf m 0 len (cstr (lit ''%#llx'')) [Va_ll n] = Some (k, m') \<and> atoull m' = Some n"
    using vsnprintf_number [OF _ _ assms(2,3), of "Hexadecimal (plain_options\<lparr>alt_opt := True\<rparr>) False Size_longlong n"] assms(1) hex_text_u64 [of hextable n]
    unfolding number_formats(5) [of n] number_args(5) number_texts by (fastforce simp: atoul_hex_text)
qed

end
