(* ===== verification/Spec2Isabelle.thy ===== *)
theory Spec2Isabelle
  imports Flasher_Example Gamepad Timer Console Drawing Cbuf Malloc Stdio Atoi
begin

text \<open>
  \<^bold>\<open>aiseirigh\<close>: a firmware flasher for the PSP, running on the LK kernel. This development
  models the flasher (src/app/aiseirigh), the libraries written for it (fdisk, gamepad, vsync,
  evflag under src/external/lib), and the parts of the kernel and its C library they stand on,
  and proves what makes them correct.

  \<^bold>\<open>The program.\<close> Two threads share a state machine (statemachine.c): the main loop waits for a
  key press or a requested transition and calls the handlers of the current state; a second
  thread turns gamepad readings into key presses. The states (states/*.c) run from the menu
  through mounting the memory card, checking the updater's SHA-1, opening the archive in it
  (psar.c, with prx.c, prxtype2.c, prxtype8.c, crypt.c for decryption), partitioning the flash
  (fdisk.c), formatting and mounting it, creating the directories (sorted with qsort) and
  flashing the files, personalised where the model asks for it (personalisation.c) and with the
  boot loader going to its own area of the NAND (ipl.c). Any failure leads to the error state.
  The threads block and wake through mutexes, semaphores, events and event flags, all of them
  wait queues of the scheduler (kernel/thread.c) with time limits from kernel/timer.c.

  \<^bold>\<open>Theories.\<close>
  \<^item> \<open>Prelude\<close>: machine types, byte buffers with checked access, little-endian fields, status
    codes and the shared lemmas; \<open>Cstring\<close>: lib/libc/string, one function each, with \<open>strtok\<close>'s
    saved pointer made explicit; \<open>Qsort\<close>: lib/libc/qsort.c on the list of the array's elements,
    with the locale \<open>comparator\<close> interpreted on the flasher's path comparison.
  \<^item> \<open>Crypt\<close>, \<open>Prx\<close>: crypt.c, personalisation.c, prx.c and the two decryption types on the
    buffer that holds the image.
  \<^item> \<open>Fatfs\<close>: fferr.c and the file operations the code calls. \<open>Psar\<close>: psar.c, the handle as the
    record \<open>psar_state\<close>, one definition per function. \<open>Psar_Safety\<close>: buffer bounds; \<open>Psar_Table\<close>:
    the path table and its round trip; \<open>Psar_Open\<close>: what a successful open guarantees;
    \<open>Psar_Example\<close>: a smallest archive that opens.
  \<^item> \<open>Ipl\<close>: ipl.c over a NAND driver. \<open>Fdisk\<close>: fdisk.c, with the on-disk records and the reader
    that takes partitions back from the boot records.
  \<^item> \<open>Thread\<close>: kernel/thread.c, the state \<open>kernel\<close> (threads, run queues, bitmap, wait queues,
    current thread). A call that switches threads returns the kernel after the switch, and its
    continuation, where it has one, is a second definition. \<open>Thread_Inv\<close>: the scheduler
    invariant; \<open>Thread_Ops\<close>: the kernel as a transition system (\<open>sys_call\<close>, \<open>reachable\<close>) and
    the locale \<open>wait_queue_contract\<close> with its interpretation \<open>kernel_queues\<close>.
    \<open>Timer\<close>: kernel/timer.c, callbacks run by an argument; locale \<open>quiet_callbacks\<close>, interpreted
    on the callbacks of thread.c.
  \<^item> \<open>Sync\<close>: mutex.c, semaphore.c, event.c, evflag.c. \<open>Sync_Inv\<close>: a mutex shared by any number of
    threads as a transition system. \<open>Gamepad\<close>: gamepad.c and vsync.c.
    \<open>Pow2\<close>: lk/pow2.h. \<open>Cbuf\<close>: lib/cbuf, with the locale \<open>byte_fifo\<close> of a bounded byte queue,
    interpreted on it.
  \<^item> \<open>Pages\<close>: kernel/novm and lib/heap/page_alloc.c, the map of pages as a byte list, with the locale
    \<open>page_source\<close> of what a user of pages relies on, interpreted on it. \<open>Miniheap\<close>:
    lib/heap/miniheap and heap_wrapper.c, the free list as the list of its chunks and the headers
    in front of the blocks as a map. \<open>Free_List\<close>: a list of chunks as the set of its bytes;
    inserting, merging and splitting. \<open>Miniheap_Inv\<close>: the invariant of free list, blocks and pages, and
    that allocating, freeing and growing keep it; \<open>Heap_Trim\<close>: giving pages back; \<open>Malloc\<close>: the
    C interface as a transition system (\<open>heap_do\<close>, \<open>heap_reach\<close>) from start-up on.
  \<^item> \<open>Gfx\<close>, \<open>Font\<close>: lib/gfx and lib/font on surfaces whose memory is a list of pixels; \<open>paints\<close> says
    which pixels a call changes and to what. \<open>Drawing\<close>: sequences of drawing calls as the relation
    \<open>draws\<close>, and blending. \<open>Terminal\<close>: what text output promises, a grid of characters, with the
    locale \<open>text_display\<close> of a device that shows one. \<open>Screen\<close>: screen.c, textraster.c, the
    framebuffers of platform/psp-allegrex/display.c and \<^verbatim>\<open>setup_screens\<close>, and the interpretation
    \<open>lcd\<close> of that locale. \<open>Console\<close>: primaryscreen.c, the screen switch of main.c, and that
    everything the states print is text the screen can show.
  \<^item> \<open>Printf\<close>: lib/libc/printf.c with its floating point, and lib/libc/stdio.c and lib/io down to the print
    callbacks; the arguments are a list of typed values and the output function an argument of the
    engine. \<open>Printf_Spec\<close>: numbers as digits, and the locale \<open>printf_sink\<close> of an output that takes
    what it is given; \<open>Printf_Double\<close>: the text of floating point numbers; \<open>Printf_Directives\<close>: a call as a
    list of directives with their format, arguments and text, and that the engine prints the
    text; \<open>Printf_Output\<close>: the interpretation on a buffer; \<open>Stdio\<close>: the one on the console with the
    debug screen as callback, primary_printf, and the messages of the states. \<open>Atoi\<close>:
    lib/libc/ctype.c and atoi.c.
  \<^item> \<open>States\<close>: every state's \<^verbatim>\<open>on_enter\<close> and \<^verbatim>\<open>on_key_press\<close> on the application record \<open>app\<close>;
    \<open>State_Machine\<close>: statemachine.c as the step relation \<open>sm_step\<close> of the two threads;
    \<open>State_Runs\<close>: whole runs; \<open>Flasher_Example\<close>: an environment in which a whole run succeeds,
    used by the witnesses.

  \<^bold>\<open>Effects.\<close> State is passed explicitly; an assertion that fails, a panic and an access outside
  a buffer are \<open>None\<close>; error codes are values. Machine integers are words and wrap. Buffers are
  byte lists whose length is the buffer's size.

  \<^bold>\<open>Parameters.\<close> The platform SDK is not in the repository, and FatFs, mbedtls and miniz are
  vendored: the KIRK engine (\<open>kirk_engine\<close>), the NAND driver (\<open>nand_ops\<close>), the flash translation
  layer, the FatFs calls (\<open>fat_ops\<close>), SHA-1 (\<open>sha1_ops\<close>), decompression, the outcome of memory
  allocation inside other components and the key register are fields of records or arguments.
  What a theorem needs of them is a named hypothesis, and its witness instantiates them.

  \<^bold>\<open>What is shown.\<close> C1--C3: the flash is not touched before the updater is verified, the
  machine's assertions hold under every interleaving, a run reaches its end.
  C4--C7: what the single states compute. C8--C12: archive and decryption:
  validity, bounds, round trip, termination. C13--C17: boot loader and partition table.
  C18--C21: scheduler and timers. C22--C26: mutexes, event flags, gamepad. C27--C31: the heap:
  disjoint blocks, alignment, freeing undoes allocating, when it fails, sizes that wrap
  around. C32: the screen shows what the states print. C33--C34: drawing. C35: the
  circular buffer. C36--C40: formatted output and number parsing.

  \<^bold>\<open>Loops.\<close> Loops whose end is a theorem are total functions. \<^verbatim>\<open>get_header\<close> can run for ever
  on a crafted file, the timer tick as long as callbacks re-arm timers, and a blocking read of
  the circular buffer as long as it finds nothing: these are \<open>partial_function (option)\<close>, \<open>None\<close>
  being the loop that never returns, and their return is proved where it is claimed. No fuel is
  used. Fixed sizes are the source's: 48 NAND blocks for the boot loader, 32 pages to a block, 32 priorities, a 0x400-byte KIRK window; the timer theorems need
  the due times within half the range of the 32-bit clock of each other, as the source's
  comparison does. The heap is shown for the 32 megabytes of the target with at least two pages
  behind the kernel, and for pages that only the heap takes.

  \<^bold>\<open>Not modelled.\<close> Hardware registers, exception entry and context switch (src/arch,
  src/platform); SMP and the dynamic timer, which the target does not have; the contents of
  allocated memory and the magic number of a header, whose check is that there is a header; the
  demo patterns of lib/gfx; console input; start-up, the debug console, ports, the kernel libraries
  and the demo applications that are not part of the flasher; unused static functions.
\<close>

section \<open>The flasher\<close>

text \<open>
  C1. Safety of the whole program: in every state the two threads of the state machine can
  reach from start-up, under every interleaving and every sequence of key presses, the
  observed part of the devices is as it was at the start, or the updater on the memory card
  has the expected SHA-1 digest and its archive opens without error. The only assumption is
  that mounting the memory card does not change the flash.
\<close>

theorem flash_untouched_until_verified:
  assumes "sm_reach N (statemachine_init a g_init_state) m" "card_mount_keeps N flash"
  shows "flash (world (app_state m)) = flash (world a) \<or> updater_authentic N \<and> archive_opens N"
proof -
  have "flash_inv N flash (flash (world a)) (statemachine_init a g_init_state)"
    by (simp add: flash_inv_def targets_def statemachine_init_def clearance_def path_set_def less_eq_State_def)
  from sm_reach_flash_inv [OF assms(1) sm_init_inv this assms(2)] show ?thesis
    by (simp add: flash_inv_def verified_def)
qed

theorem flash_untouched_until_verified_witness:
  "\<exists>m. sm_reach (example_app\<lparr>card := example_card\<lparr>f_open := (\<lambda>_. (FR_NO_FILE, 0))\<rparr>\<rparr>) (statemachine_init example_start g_init_state) m \<and>
     mpc m = Raise False \<and> world (app_state m) = blank"
proof -
  let ?N = "example_app\<lparr>card := example_card\<lparr>f_open := (\<lambda>_. (FR_NO_FILE, 0))\<rparr>\<rparr>" and ?init = "statemachine_init example_start g_init_state"
  let ?m = "?init\<lparr>next_state := Some g_init_state, mpc := Raise False\<rparr>"
  have pc: "mpc ?init = Set_next g_init_state False" "next_state ?init = None" by (simp_all add: statemachine_init_def)
  then have "main_step ?N ?init = Some ?m" by (simp add: main_step_def statemachine_transition_def)
  note r = main_reach [OF sm_reach.start this]
  have "card_mount_keeps ?N (\<lambda>w. w)" by (simp add: card_mount_keeps_def example_dev_def)
  moreover have "\<not> updater_authentic ?N" by (simp add: updater_authentic_def file_sha1_calc_def)
  ultimately have "world (app_state ?m) = world example_start" using flash_untouched_until_verified [OF r] by blast
  then show ?thesis using r by (intro exI [of _ ?m]) (simp add: example_start_def)
qed

text \<open>
  C2. The two assertions of statemachine.c, that no transition is pending when one is
  requested and that one is pending when one is performed, never fail, whatever keys are
  pressed and however the threads interleave.
\<close>

theorem assertions_never_fail:
  assumes "sm_reach N (statemachine_init a s) m"
  shows "mpc m \<noteq> Assert_failed"
  using sm_reach_inv [OF assms sm_init_inv] by (auto simp: sm_inv_def)

theorem assertions_never_fail_witness:
  "mpc (on_press (on_press (statemachine_init example_start g_init_state) 0x4000) 0) \<noteq> Assert_failed"
proof -
  have "sm_reach example_app (statemachine_init example_start g_init_state)
      (on_press (on_press (statemachine_init example_start g_init_state) 0x4000) 0)"
    by (rule sm_reach.step [OF sm_reach.step [OF sm_reach.start sm_step.press] sm_step.press])
  then show ?thesis by (rule assertions_never_fail)
qed



text \<open>
  The error state is final: once the machine rests in it, no key press and no scheduling
  changes the application state or the devices again.
\<close>

lemma error_state_is_final:
  assumes "sm_reach N m0 m" "state m0 = Some g_error_state" "next_state m0 = None" "mpc m0 = Waiting" "\<not> bit (evbits m0) 0"
  shows "state m = Some g_error_state \<and> app_state m = app_state m0"
proof -
  have "failed_at (app_state m0) m0" using assms(2-5) by (simp add: failed_at_def)
  then show ?thesis using failed_forever [OF assms(1)] by (simp add: failed_at_def)
qed

text \<open>
  C4. The updater check hashes the whole file: when reads deliver what they are asked for,
  \<^verbatim>\<open>file_sha1_calc\<close> returns the digest of the file's contents, for every size of the
  work buffer, and it always returns.
\<close>

theorem file_sha1_calc_whole_file:
  assumes "reads_as F rest" "digest_of H D" "f_open F path = (FR_OK, fp0)" "buffer \<noteq> []"
    and "unat (f_size F fp0) = length (rest fp0)" "\<And>fp. f_close F fp = FR_OK"
  shows "\<exists>buffer'. file_sha1_calc H F path buffer = Some (FILE_SHA_RES_OK, D (rest fp0), buffer')"
  using assms by (rule file_sha1_whole)

theorem file_sha1_calc_whole_file_witness:
  "\<exists>b. file_sha1_calc \<lparr>sha1_starts = [], sha1_update = (@), sha1_finish = rev\<rparr> (file_ops (\<lambda>_. Some [1, 2, 3])) [] [0, 0] =
     Some (FILE_SHA_RES_OK, [3, 2, 1], b)"
proof -
  let ?F = "file_ops (\<lambda>_. Some [1, 2, 3])" and ?H = "\<lparr>sha1_starts = [], sha1_update = (@), sha1_finish = rev\<rparr>"
  have "reads_as ?F (\<lambda>(c, p). drop p c)"
    by (auto simp: reads_as_def file_ops_def min_def add.commute)
  moreover have "foldl (@) xs bss = xs @ concat bss" for xs :: bytes and bss
    by (induction bss arbitrary: xs) simp_all
  then have "digest_of ?H rev" by (simp add: digest_of_def)
  ultimately show ?thesis
    using file_sha1_calc_whole_file [of ?F "\<lambda>(c, p). drop p c" ?H rev "[]" "([1, 2, 3], 0)" "[0, 0]"]
    by (simp add: file_ops_def)
qed

section \<open>Preparing the flash\<close>

text \<open>
  C5. When \<^verbatim>\<open>partition_flash\<close> succeeds, walking the partition table on the flash (boot
  record, then the chain of extended boot records) finds the four partitions at their
  places, with the sizes of the model, each 32 sectors into its slot.
\<close>

theorem partition_flash_layout:
  assumes "lflash_ok (lflash (dev N))" "partition_flash N w model = Some (FDISK_RESULT_OK, w')"
  shows "read_table (lflash_sector (lflash (dev N)) w') 4 =
    Some (if model = PSP_MODEL_01G then [(0x60, 0xBFE0), (0xC060, 0x1FE0), (0xE060, 0x7E0), (0xE860, 0x760)]
          else [(0x60, 0x147E0), (0x14860, 0x27E0), (0x17060, 0x1FE0), (0x19060, 0x48E0)])"
proof -
  have c: "calloc_ok N" using assms(2) by (auto simp: partition_flash_def fdisk_def Let_def split: if_splits)
  have tab: "ps = zip (map of_nat ls) zs" if "map (unat \<circ> fst) ps = ls" "map snd ps = zs" for ps :: "(u32 \<times> u32) list" and ls zs
    by (rule nth_equalityI) (use that in \<open>auto simp: prod_eq_iff\<close>)
  show ?thesis
  proof (cases "model = PSP_MODEL_01G")
    case True
    then have "fdisk (lflash (dev N)) True (emcsm_disable_write_protect (dev N) w) 0xC000 0x2000 0x800 0x780 = Some (FDISK_RESULT_OK, w')"
      using assms(2) c by (simp add: partition_flash_def Let_def)
    from fdisk_table [OF assms(1) partition_sizes_fit(1) this] obtain ps where ps:
      "map snd ps = [0xC000, 0x2000, 0x800, 0x780]" "map (unat \<circ> fst) ps = layout 64 (map unat [0xC000 :: u32, 0x2000, 0x800, 0x780])"
      "read_table (lflash_sector (lflash (dev N)) w') 4 = Some (map (\<lambda>(s, z). (s + 32, z - 32)) ps)"
      by (elim exE conjE) (rule that)
    show ?thesis using True ps(3) tab [OF ps(2,1)] by (simp add: align_up_def)
  next
    case False
    then have "fdisk (lflash (dev N)) True (emcsm_disable_write_protect (dev N) w) 0x14800 0x2800 0x2000 0x4900 = Some (FDISK_RESULT_OK, w')"
      using assms(2) c by (simp add: partition_flash_def Let_def)
    from fdisk_table [OF assms(1) partition_sizes_fit(2) this] obtain ps where ps:
      "map snd ps = [0x14800, 0x2800, 0x2000, 0x4900]" "map (unat \<circ> fst) ps = layout 64 (map unat [0x14800 :: u32, 0x2800, 0x2000, 0x4900])"
      "read_table (lflash_sector (lflash (dev N)) w') 4 = Some (map (\<lambda>(s, z). (s + 32, z - 32)) ps)"
      by (elim exE conjE) (rule that)
    show ?thesis using False ps(3) tab [OF ps(2,1)] by (simp add: align_up_def)
  qed
qed

theorem partition_flash_layout_witness:
  "\<exists>w'. partition_flash example_app blank PSP_MODEL_01G = Some (FDISK_RESULT_OK, w') \<and>
     read_table (sectors w') 4 = Some [(0x60, 0xBFE0), (0xC060, 0x1FE0), (0xE060, 0x7E0), (0xE860, 0x760)]"
proof -
  have ok: "lflash_ok (lflash (dev example_app))" by (auto simp: lflash_ok_def example_dev_def example_lflash_def)
  have "\<exists>d'. fdisk example_lflash True blank 0xC000 0x2000 0x800 0x780 = Some (FDISK_RESULT_OK, d')"
    by (rule fdisk_succeeds [OF partition_sizes_fit(1)]) (simp add: example_lflash_def)
  then obtain w' where w': "partition_flash example_app blank PSP_MODEL_01G = Some (FDISK_RESULT_OK, w')"
    by (auto simp: partition_flash_def example_dev_def Let_def)
  from partition_flash_layout [OF ok w'] w' show ?thesis by (simp add: example_dev_def example_lflash_def)
qed

text \<open>
  C6. After \<^verbatim>\<open>process_psar\<close> succeeded, the directory list is exactly the list of directory
  paths of the archive's table, reordered, and if the paths are 7-bit strings every directory
  comes before the directories inside it, so it can be created in list order.
\<close>

theorem directories_constructable:
  assumes "process_psar_on_enter N a = Some (a', Some g_partition_flash_state)"
  shows "mset (directories a') = mset (map (\<lambda>p. take (the (strlen p) + 1) p) (directory_paths (ph a') (table_list (ph a')))) \<and>
    (set (directories a') \<subseteq> ascii_strings \<longrightarrow>
      (\<forall>i < length (directories a'). \<forall>j < length (directories a'). \<forall>s t.
        directories a' ! i = cstr s \<and> directories a' ! j = cstr (s @ t) \<and> t \<noteq> [] \<longrightarrow> i < j))"
proof -
  obtain st1 res dirs where d: "psar_read_each_directory (read_directory (penv N)) st1 [] = Some (res, dirs)"
      "ph a' = st1" "directories a' = qsort strcmp_qsort_wrapper dirs"
    using assms by (auto simp: process_psar_on_enter_def Let_def bind_eq_Some_conv primary_puts_def
        dest: transition_error_Some split: prod.splits if_splits)
  have "dirs = map (\<lambda>p. take (the (strlen p) + 1) p) (directory_paths st1 (table_list st1))"
    using read_directories_list [OF d(1) [unfolded psar_read_each_directory_def]] by simp
  moreover have "i < j" if "set (directories a') \<subseteq> ascii_strings" "i < length (directories a')" "j < length (directories a')"
      "directories a' ! i = cstr s" "directories a' ! j = cstr (s @ t)" "t \<noteq> []" for i j s t
    using qsort_parents_first [of dirs i j s t] that d(3) by simp
  ultimately show ?thesis using d(2,3) by (simp add: qsort_mset)
qed

theorem directories_constructable_witness:
  "\<exists>a'. process_psar_on_enter example_app (app_state example_menu) = Some (a', Some g_partition_flash_state) \<and> directories a' = []"
proof -
  obtain a' where a': "process_psar_on_enter example_app (app_state example_menu) = Some (a', Some g_partition_flash_state)"
      "psar_list (ph a') = [example_entry]" "table_list (ph a') = [\<lparr>te_name = 0, te_path = 6, te_entry = 0\<rparr>]"
    using example_process [of "app_state example_menu" "cstr (lit ''ms:/661.PBP'')"]
    by (auto simp: example_menu_def statemachine_init_def psar_init_def)
  have "directory_paths (ph a') (table_list (ph a')) = []"
    using a'(2,3) by (simp add: directory_paths_def is_entry_a_file_def example_entry_def)
  with directories_constructable [OF a'(1)] a'(1) show ?thesis by auto
qed

text \<open>
  C7. \<^verbatim>\<open>qsort\<close> with the application's comparison returns a permutation of its input, sorted,
  for every list of 7-bit strings of any length.
\<close>

theorem qsort_sorts_paths:
  assumes "set ds \<subseteq> ascii_strings"
  shows "mset (qsort strcmp_qsort_wrapper ds) = mset ds \<and>
    sorted_wrt (\<lambda>x y. strcmp_qsort_wrapper x y \<le> 0) (qsort strcmp_qsort_wrapper ds)"
  using path_order.qsort_ordered [OF assms] qsort_mset by blast

theorem qsort_sorts_paths_witness:
  "mset (qsort strcmp_qsort_wrapper [cstr (lit ''b''), cstr (lit ''a'')]) = mset [cstr (lit ''b''), cstr (lit ''a'')]"
proof -
  have "set [cstr (lit ''b''), cstr (lit ''a'')] \<subseteq> ascii_strings" by (auto simp: ascii_strings_def)
  from qsort_sorts_paths [OF this] show ?thesis by blast
qed

section \<open>The archive\<close>

text \<open>
  C8. When \<^verbatim>\<open>psar_open\<close> succeeds, the handle is ready to be read: every entry of the
  contents list fits both work buffers, every line of the file table refers to an entry of
  the contents list, the archive is firmware 6.61, the table version is 4, and on every model
  but the 01G the boot loader was found and decrypted as a self-test.
\<close>

theorem opened_archive_is_valid:
  assumes "psar_env_ok E" "fat_ok F" "psar_wf st" "psar_open E F hdr0 st path = Some (PSAR_RESULT_OK, st')"
  shows "psar_wf st' \<and> list_all (entry_fits st') (psar_list st') \<and>
    list_all (\<lambda>t. te_entry t < length (psar_list st')) (table_list st') \<and> is_661 (metadata st') \<and>
    table_version st' = 4 \<and> (psp_model E \<noteq> PSP_MODEL_01G \<longrightarrow> ipl_decrypts E F st')"
  using psar_open_ready [OF assms] by (simp add: psar_ready_def table_valid_def)

theorem opened_archive_is_valid_witness:
  "\<exists>st'. psar_open example_env example_card (replicate 16 0)
      (snd (psar_init 0 (replicate 690 0) (replicate 690 0) (replicate KIRK_WINDOW 0))) [] = Some (PSAR_RESULT_OK, st') \<and>
    is_661 (metadata st') \<and> psar_list st' = [example_entry]"
proof -
  let ?st = "snd (psar_init 0 (replicate 690 0) (replicate 690 0) (replicate KIRK_WINDOW 0)) :: nat psar_state"
  have b: "example_buffers ?st" "psar_wf ?st" by (simp_all add: example_buffers_def psar_init_def psar_wf_def)
  obtain st' where o: "psar_open example_env example_card (replicate 16 0) ?st [] = Some (PSAR_RESULT_OK, st')"
      "psar_list st' = [example_entry]"
    using example_opens [OF _ b(1)] by (metis length_replicate)
  from opened_archive_is_valid [OF example_env_ok example_card_ok b(2) o(1)] o show ?thesis by blast
qed

text \<open>
  C9. Parsing inverts printing for the file table: a table with one \<open>name,path\<close> line per
  file, whose names are all in the contents list, is accepted, and table entry \<open>k\<close> points at
  the name and at the path of line \<open>k\<close>, as terminated strings, and at the contents entry of
  that name.
\<close>

theorem file_table_roundtrip:
  assumes "list_all terminated (psar_list st)" "list_all good_line ls"
    and "\<forall>l \<in> set ls. name_index (psar_list st) (fst l) \<noteq> None"
    and "ls \<noteq> []" "\<And>n. malloc_ok E n"
  shows "\<exists>st'. build_table_entry_list E st (table_txt ls @ 0 # r) = Some (PSAR_RESULT_OK, st') \<and>
    length (table_list st') = length ls \<and>
    (\<forall>k < length ls. let t = table_list st' ! k in
       Some (te_entry t) = name_index (psar_list st) (fst (ls ! k)) \<and>
       (\<exists>q. drop (te_name t) (table_text st') = fst (ls ! k) @ 0 # q) \<and>
       (\<exists>q. drop (te_path t) (table_text st') = snd (ls ! k) @ 0 # q))"
proof -
  let ?st = "st\<lparr>table_text := parsed_txt ls @ [0], table_list := entries_at (psar_list st) 0 ls\<rparr>"
  have "Some (te_entry (table_list ?st ! k)) = name_index (psar_list st) (fst (ls ! k)) \<and>
      (\<exists>q. drop (te_name (table_list ?st ! k)) (table_text ?st) = fst (ls ! k) @ 0 # q) \<and>
      (\<exists>q. drop (te_path (table_list ?st ! k)) (table_text ?st) = snd (ls ! k) @ 0 # q)" if "k < length ls" for k
    using entries_at_nth [of k ls 0 "[]" "psar_list st" "[0]"] that assms(3) by auto
  then show ?thesis
    using build_table_entry_list_txt [OF assms, of r] by (intro exI [of _ ?st]) (simp add: Let_def)
qed

theorem file_table_roundtrip_witness:
  "\<exists>st'. build_table_entry_list example_env ((ph example_start)\<lparr>psar_list := [example_entry]\<rparr>) (table_txt example_lines @ 0 # []) =
     Some (PSAR_RESULT_OK, st') \<and> te_entry (table_list st' ! 0) = 0"
proof -
  have "list_all terminated [example_entry]" "name_index [example_entry] (lit ''00001'') = Some 0"
    by (simp_all add: example_name)
  then show ?thesis
    using file_table_roundtrip [of "(ph example_start)\<lparr>psar_list := [example_entry]\<rparr>" example_lines example_env "[]"]
    by (auto simp: example_lines_def example_env_def Let_def)
qed

text \<open>
  C10. Reading an entry that fits the buffers stays inside them: it returns, keeps the archive
  handle apart from the position and the buffers' contents, and on success has produced
  exactly the expanded size of the entry. The one exception is a block whose decrypted size
  field is larger than the buffer, where the decompressor reads past it.
\<close>

theorem read_file_stays_in_buffers:
  assumes "psar_env_ok E" "fat_ok F" "psar_wf st" "entry_fits st e"
  shows "(\<exists>res len st'. read_file_by_entry E F st e = Some (res, len, st') \<and> psar_frame st st' \<and>
       (res = PSAR_RESULT_OK \<longrightarrow> len = ent_expanded_size e)) \<or>
    (\<exists>len st2 fp1. read_next_block_wb1 (kirk E) F (st\<lparr>fp := fp1\<rparr>) (unat (ent_size e)) = Some (PSAR_RESULT_OK, len, st2) \<and>
       length (wb1 st) < unat len \<and> read_file_by_entry E F st e = None)"
  using assms by (rule read_file_by_entry_safe)

theorem read_file_stays_in_buffers_witness:
  "\<exists>st'. read_file_by_entry example_env example_card
     ((snd (psar_init 0 (replicate 690 0) (replicate 690 0) (replicate KIRK_WINDOW 0)))\<lparr>psar_version := 1\<rparr>) example_entry =
     Some (PSAR_RESULT_OK, 354, st') \<and> length (wb2 st') = 690"
proof -
  let ?st = "(snd (psar_init 0 (replicate 690 0) (replicate 690 0) (replicate KIRK_WINDOW 0)))\<lparr>psar_version := 1\<rparr> :: nat psar_state"
  have b: "example_buffers ?st" "psar_wf ?st" "entry_fits ?st example_entry"
    by (simp_all add: example_buffers_def psar_init_def psar_wf_def entry_fits_def example_entry_def)
  obtain st' where r: "read_file_by_entry example_env example_card ?st example_entry = Some (PSAR_RESULT_OK, 354, st')"
    by (rule example_read_entry [OF _ b(1)]) simp_all
  then have "psar_frame ?st st'"
    using read_file_stays_in_buffers [OF example_env_ok example_card_ok b(2,3)] by auto
  then show ?thesis using r psar_frame_lengths(2) [of ?st st'] by (simp add: psar_init_def)
qed

text \<open>
  Flashing reads the archive without damaging it: whatever the callback writes to the
  flash, and whether or not the iteration stops early, the handle is as valid after
  \<^verbatim>\<open>flash_files_on_enter\<close> as before, with the same contents list and file table.
\<close>

lemma flashing_keeps_archive:
  assumes "psar_env_ok (penv N)" "fat_ok (card N)" "psar_ready (ph a)" "flash_files_on_enter N a = Some (a', t)"
  shows "psar_ready (ph a') \<and> psar_list (ph a') = psar_list (ph a) \<and> table_list (ph a') = table_list (ph a) \<and>
    table_text (ph a') = table_text (ph a)"
proof -
  obtain res st w where r: "psar_read_each_file (penv N) (card N) (on_read_psar_file (penv N) (dev N)) (ph a) (world a) = Some (res, st, w)"
      "ph a' = st"
    using assms(4) by (auto simp: flash_files_on_enter_def Let_def bind_eq_Some_conv primary_puts_def
        dest: transition_error_Some split: if_splits)
  have "kirk_ok (kirk (penv N))" using assms(1) by (simp add: psar_env_ok_def)
  note cb = on_read_psar_file_lengths [OF this]
  have "read_each_file (penv N) (card N) (on_read_psar_file (penv N) (dev N)) (ph a) (world a) (table_list (ph a)) = Some (res, st, w)"
    using r(1) by (simp add: psar_read_each_file_def)
  moreover have "table_valid (ph a) (table_list (ph a))" using assms(3) by (simp add: psar_ready_def)
  ultimately have "psar_frame (ph a) st" by (intro read_each_file_frame [OF assms(1,2) _ assms(3)]) (rule cb)
  then show ?thesis using r(2) psar_ready_frame assms(3) psar_frame_lengths [of "ph a" st] by blast
qed

text \<open>
  C11. \<^verbatim>\<open>get_header\<close> does not return on every file: a PBP file whose archive offset leads
  back to a PBP header at the same place is read again for ever.
\<close>

theorem get_header_can_loop:
  assumes "\<And>hdr. \<exists>d fp1. f_read F fp0 0x10 = (FR_OK, d, fp1) \<and> read_u32 (read_into hdr d) 0 = Some PBP_MAGIC \<and>
      (\<exists>fp2 d3 fp3 off. f_lseek F fp1 0x24 = (FR_OK, fp2) \<and> f_read F fp2 4 = (FR_OK, d3, fp3) \<and>
        read_u32 (read_into (to_le32 0) d3) 0 = Some off \<and> f_lseek F fp3 off = (FR_OK, fp0))"
  shows "get_header F fp0 hdr0 = None"
  using assms by (rule get_header_diverges)

theorem get_header_can_loop_witness:
  "get_header (file_ops (\<lambda>_. None)) (to_le32 PBP_MAGIC @ replicate 0x20 0 @ to_le32 0, 0) (replicate 16 0) = None"
  by (rule get_header_can_loop) (simp add: file_ops_def read_into_def read_u32_def mem_read_def le32_to_le32)

section \<open>Decryption and personalisation\<close>



section \<open>The boot loader on the NAND\<close>

text \<open>
  C13. Read back after a successful \<^verbatim>\<open>write_ipl\<close>, the loader is the data that was given: the
  good blocks 16 to 47 that the index lists, in order, hold it page by page; every good index
  block carries the same list (or its write failed, which the code ignores); no bad block was
  written and no other page changed.
\<close>

theorem write_ipl_roundtrip:
  assumes "nand_ok N" "num_ipl_pages (unat len) * page_size \<le> length data" "write_ipl N model d data len = Some (0, d')"
  shows "\<exists>bs. ipl_installed N model d data (unat len) d' bs"
  using assms by (rule write_ipl_installs)

theorem write_ipl_roundtrip_witness:
  "\<exists>d' bs. write_ipl (mem_nand (\<lambda>p. p = 512)) PSP_MODEL_02G (\<lambda>_. ([], [])) (replicate 512 7) 512 = Some (0, d') \<and>
     take 512 (ipl_image (mem_nand (\<lambda>p. p = 512)) d' bs) = replicate 512 7"
proof -
  let ?N = "mem_nand (\<lambda>p. p = 512)" and ?d = "(\<lambda>_. ([], [])) :: nat \<Rightarrow> nand_block"
  obtain d' where d': "write_ipl ?N PSP_MODEL_02G ?d (replicate 512 7) 512 = Some (0, d')"
    using mem_nand_writes [of "\<lambda>p. p = 512" 512 PSP_MODEL_02G ?d] by auto
  with write_ipl_roundtrip [OF mem_nand_ok _ d'] show ?thesis
    by (auto simp: num_ipl_pages_def page_size_def ipl_installed_def)
qed

text \<open>
  C14. \<^verbatim>\<open>write_ipl\<close> succeeds whenever it can: if no block write fails, the loader fits the
  index, there are enough good blocks for it and one good index block.
\<close>

theorem write_ipl_complete:
  assumes "nand_ok N" "\<And>d p b s. 0 \<le> fst (emcsm_write_block_with_verify N d p b s)"
    and "num_ipl_pages (unat len) * page_size \<le> length data" "len \<noteq> 0" "unat len \<le> 32 * ppb * page_size"
    and "(num_ipl_pages (unat len) + 31) div 32 \<le> Finite_Set.card (good_blocks N d 16)"
    and "\<exists>b \<in> {4..<12}. emcsm_is_bad_block N d (b * ppb) = 0"
  shows "\<exists>d'. write_ipl N model d data len = Some (0, d')"
  using assms by (rule write_ipl_succeeds)

theorem write_ipl_complete_witness:
  "\<exists>d'. write_ipl (mem_nand (\<lambda>p. False)) PSP_MODEL_01G (\<lambda>_. ([], [])) (replicate 512 7) 3 = Some (0, d')"
proof (rule write_ipl_complete [OF mem_nand_ok])
  let ?N = "mem_nand (\<lambda>p. False)" and ?d = "(\<lambda>_. ([], [])) :: nat \<Rightarrow> nand_block"
  have "16 \<in> good_blocks ?N ?d 16" "finite (good_blocks ?N ?d 16)"
    by (auto simp: good_blocks_def mem_nand_def ppb_def)
  then show "(num_ipl_pages (unat (3 :: u32)) + 31) div 32 \<le> Finite_Set.card (good_blocks ?N ?d 16)"
    using card_gt_0_iff [of "good_blocks ?N ?d 16"] by (auto simp: num_ipl_pages_def page_size_def)
  show "\<exists>b \<in> {4..<12}. emcsm_is_bad_block ?N ?d (b * ppb) = 0"
    by (rule bexI [of _ 4]) (simp_all add: mem_nand_def ppb_def)
qed (simp_all add: mem_nand_def num_ipl_pages_def page_size_def ppb_def)



section \<open>Partitions\<close>

text \<open>
  C16. Every sector the assumed geometry can address survives the way into a partition entry
  and back: linear address, cylinder/head/sector, the packed three bytes, and linear again.
  These are exactly the sectors below 65536; all others are reported as out of range.
\<close>

theorem chs_address_roundtrip:
  "if lba < 0x10000
   then \<exists>chs. lba_to_chs lba g_assumed_geometry = (FDISK_RESULT_OK, Some chs) \<and>
     chs_to_lba (addr_to_chs (chs_to_chs_addr chs)) g_assumed_geometry = unat lba
   else lba_to_chs lba g_assumed_geometry = (FDISK_ERR_LBA_OUT_OF_CHS_RANGE, None)"
proof -
  let ?g = g_assumed_geometry
  have c: "lba div 64 \<le> 1023 \<longleftrightarrow> lba < 0x10000"
    by (simp add: word_le_nat_alt word_less_nat_alt unat_div_distrib) arith
  show ?thesis
  proof (cases "lba < 0x10000")
    case True
    then have "\<not> 1023 < lba div 64" using c by (simp only: not_less)
    then obtain chs where l: "lba_to_chs lba ?g = (FDISK_RESULT_OK, Some chs)"
      by (simp add: lba_to_chs_def g_assumed_geometry_def Let_def)
    have g: "0 < sectors_per_track ?g" "unat (heads_per_cylinder ?g) * unat (sectors_per_track ?g) < 2 ^ 32"
        "unat (sectors_per_track ?g) < 2 ^ 32 - 1" "0 < heads_per_cylinder ?g"
      by (simp_all add: g_assumed_geometry_def)
    note r = chs_to_lba_to_chs [OF l g(1-3)]
    have "head chs < 256" "cylinder chs < 1024" "sector chs < 64"
      using r(2,3) r(4) [OF g(4)] by (simp_all add: g_assumed_geometry_def word_less_nat_alt word_le_nat_alt)
    then show ?thesis using l r(1) addr_to_chs_roundtrip True by simp
  next
    case False
    then have "1023 < lba div 64" using c not_less by blast
    then show ?thesis using False by (simp add: lba_to_chs_def g_assumed_geometry_def Let_def)
  qed
qed

text \<open>
  C17. For any four sizes that fit, the partitions read back from the flash have the requested
  sizes less the 32 sectors in front of each, lie one behind the other without overlap, and
  start at a multiple of 32; and only the boot records' own sectors were written.
\<close>

theorem partitions_disjoint:
  assumes "lflash_ok L" "fdisk_fits (map unat [f0, f1, f2, f3])" "\<forall>f \<in> {f0, f1, f2, f3}. 32 \<le> f"
    and "fdisk L True d f0 f1 f2 f3 = Some (FDISK_RESULT_OK, d')"
  shows "\<exists>ps. read_table (lflash_sector L d') 4 = Some ps \<and> map snd ps = map (\<lambda>z. z - 32) [f0, f1, f2, f3] \<and>
    (\<forall>i < 3. unat (fst (ps ! i)) + unat (snd (ps ! i)) \<le> unat (fst (ps ! Suc i))) \<and>
    (\<forall>p \<in> set ps. 32 dvd unat (fst p)) \<and>
    (\<forall>q. q \<noteq> 0 \<and> q + 32 \<notin> fst ` set ps \<longrightarrow> lflash_sector L d' q = lflash_sector L d q)"
proof -
  define fs where "fs = [f0, f1, f2, f3]"
  then have f: "length fs = 4" "\<forall>f \<in> set fs. 32 \<le> f" "fdisk_fits (map unat fs)" using assms(2,3) by simp_all
  let ?g = "\<lambda>(s, z). (s + 32, z - 32 :: u32) :: u32 \<times> u32"
  obtain ps where ps: "map snd ps = fs" "map (unat \<circ> fst) ps = layout 64 (map unat fs)"
      "read_table (lflash_sector L d') 4 = Some (map ?g ps)"
      "\<forall>q. q \<notin> insert 0 (fst ` set ps) \<longrightarrow> lflash_sector L d' q = lflash_sector L d q"
    using fdisk_table [OF assms(1,2,4)] unfolding fs_def [symmetric] by (elim exE conjE) (rule that)
  have l: "length ps = 4" using arg_cong [OF ps(1), of length] f(1) by simp
  have s: "unat (fst (ps ! i)) = layout 64 (map unat fs) ! i" if "i < 4" for i
    using arg_cong [OF ps(2), of "\<lambda>xs. xs ! i"] l that by simp
  have z: "snd (ps ! i) = fs ! i" "32 \<le> fs ! i" if "i < 4" for i
    using arg_cong [OF ps(1), of "\<lambda>xs. xs ! i"] l that f(1,2) nth_mem [of i fs] by auto
  have u: "unat (fst (ps ! i) + 32) = layout 64 (map unat fs) ! i + 32" "unat (snd (ps ! i) - 32) = map unat fs ! i - 32"
    if "i < 4" for i
  proof -
    have "32 \<le> unat (fs ! i)" "map unat fs ! i = unat (fs ! i)" using z [OF that] that f(1) by (simp_all add: word_le_nat_alt)
    then have "layout 64 (map unat fs) ! i + 32 < 2 ^ 32"
      using layout_fits [of i "map unat fs" 64] f(1,3) that unfolding fdisk_fits_def by simp
    then show "unat (fst (ps ! i) + 32) = layout 64 (map unat fs) ! i + 32"
      using s [OF that] by (simp add: unat_add_lem [THEN iffD1])
    show "unat (snd (ps ! i) - 32) = map unat fs ! i - 32"
      using z [OF that] that f(1) by (simp add: unat_sub)
  qed
  have g: "map ?g ps ! i = (fst (ps ! i) + 32, snd (ps ! i) - 32)" if "i < 4" for i
    using l that by (simp add: case_prod_beta)
  have "unat (fst (map ?g ps ! i)) + unat (snd (map ?g ps ! i)) \<le> unat (fst (map ?g ps ! Suc i))" if "i < 3" for i
    using that f(1) z(2) [of i] g [of i] g [of "Suc i"] u [of i] u [of "Suc i"] layout_disjoint [of i "map unat fs" 64]
    by (simp add: word_le_nat_alt)
  moreover have "32 dvd unat (fst p)" if p: "p \<in> set (map ?g ps)" for p
  proof -
    obtain i where i: "i < 4" "p = map ?g ps ! i" using p l unfolding in_set_conv_nth by auto
    have "layout 64 (map unat fs) ! i \<in> set (layout 64 (map unat fs))" using i(1) f(1) by (intro nth_mem) simp
    from layout_aligned [OF _ this] show ?thesis using u(1) [OF i(1)] g [OF i(1)] i(2) by simp
  qed
  moreover have "map snd (map ?g ps) = map (\<lambda>z. z - 32) fs"
    unfolding ps(1) [symmetric] by (simp add: comp_def case_prod_beta)
  moreover have "lflash_sector L d' q = lflash_sector L d q" if q: "q \<noteq> 0" "q + 32 \<notin> fst ` set (map ?g ps)" for q
  proof -
    have "fst ` set (map ?g ps) = (\<lambda>x. x + 32) ` fst ` set ps" by (simp add: image_image case_prod_beta)
    then have "q \<notin> fst ` set ps" using q(2) by blast
    then show ?thesis using ps(4) q(1) by blast
  qed
  ultimately show ?thesis using ps(3) unfolding fs_def by (intro exI [of _ "map ?g ps"]) blast
qed

theorem partitions_disjoint_witness:
  "\<exists>d' ps. fdisk (mem_lflash 0xFFE0) True (\<lambda>_. []) 0xC000 0x2000 0x800 0x780 = Some (FDISK_RESULT_OK, d') \<and>
     read_table d' 4 = Some ps \<and> unat (fst (ps ! 0)) + unat (snd (ps ! 0)) \<le> unat (fst (ps ! 1))"
proof -
  obtain d' where d': "fdisk (mem_lflash 0xFFE0) True (\<lambda>_. []) 0xC000 0x2000 0x800 0x780 = Some (FDISK_RESULT_OK, d')"
    using fdisk_succeeds [OF partition_sizes_fit(1), of "mem_lflash 0xFFE0"] by (auto simp: mem_lflash_def)
  have "\<forall>f \<in> {0xC000, 0x2000, 0x800, 0x780 :: u32}. 32 \<le> f" by simp
  from partitions_disjoint [OF mem_lflash_ok partition_sizes_fit(1) this d'] d' show ?thesis
    by (fastforce simp: mem_lflash_def)
qed

section \<open>The kernel\<close>

text \<open>
  C18. The scheduler's data structures always agree. After every sequence of kernel calls and
  timer interrupts from boot: exactly the current thread is running; every ready thread is in
  the run queue of its priority and every blocked thread in the wait queue it names; no queue
  holds a thread twice; the bitmap has exactly the bits of the non-empty run queues; and every
  wait queue's count is its length.
\<close>

theorem kernel_invariant:
  assumes "reachable boot_kernel K"
  shows "(\<forall>t. t_state (threads K t) = THREAD_RUNNING \<longleftrightarrow> t = current_thread K) \<and>
    (\<forall>t. t \<noteq> idle_thread \<and> t_state (threads K t) = THREAD_READY \<longrightarrow> t \<in> set (run_queue K (priority (threads K t)))) \<and>
    (\<forall>t. t_state (threads K t) = THREAD_BLOCKED \<longrightarrow>
       (\<exists>w. blocking_wait_queue (threads K t) = Some w \<and> t \<in> set (waiting K w))) \<and>
    (\<forall>p. distinct (run_queue K p) \<and> bit (run_queue_bitmap K) p = (run_queue K p \<noteq> [])) \<and>
    (\<forall>w. distinct (waiting K w) \<and> wq_count (wait_queues K w) = int (length (waiting K w)))"
proof -
  have wf: "kernel_wf K" using reachable_wf [OF assms boot_kernel_wf] .
  then show ?thesis by (simp add: kernel_wf_def core_def runq_ok_def waitq_ok_def placed_def)
qed

theorem kernel_invariant_witness:
  "\<exists>K. thread_yield boot_kernel = Some K \<and> t_state (threads K (current_thread K)) = THREAD_RUNNING"
proof -
  obtain K where K: "thread_yield boot_kernel = Some K" using thread_yield_wf [OF boot_kernel_wf] by blast
  have "reachable boot_kernel K" by (rule reachable.step [OF reachable.start sys_call.yield [OF K]])
  from kernel_invariant [OF this] K show ?thesis by blast
qed



text \<open>
  Scheduling is by priority: after a yield, a preemption, a sleep or a change of priority,
  no thread that is ready has a higher priority than the one that runs, and the idle thread
  runs only if no other thread is ready.
\<close>

lemma highest_priority_runs:
  assumes "kernel_wf K"
    and "thread_yield K = Some K' \<or> thread_preempt K = Some K' \<or>
      current_thread K \<noteq> idle_thread \<and> (thread_sleep K = Some K' \<or> thread_set_priority K p = Some K')"
    and "s \<noteq> idle_thread" "t_state (threads K' s) = THREAD_READY"
  shows "current_thread K' \<noteq> idle_thread \<and> priority (threads K' s) \<le> priority (threads K' (current_thread K'))"
proof -
  have "\<exists>K2. switchable K2 \<and> thread_resched K2 = Some K'"
    using assms(2) thread_yield_switch [OF assms(1)] thread_preempt_switch [OF assms(1)]
      thread_sleep_switch [OF assms(1)] thread_set_priority_switch [OF assms(1), where p = p]
    by metis
  then show ?thesis using thread_resched_priority assms(3,4) by blast
qed

section \<open>Timers\<close>

text \<open>
  C20. The timer queue is always in the order in which its timers are due, whatever the clock
  reads and across its wrap-around, as long as the times in it are less than \<open>2\<^sup>3\<^sup>1\<close> apart:
  setting a timer puts it behind every timer due no later and before all others, and cancelling
  takes out just the one.
\<close>

theorem timer_queue_ordered:
  assumes "timers_wf S" "timers_sorted b S" "tm_magic (timer_obj S t)" "\<not> tm_in_list (timer_obj S t)" "in_window b (now + delay)"
  shows "\<exists>S' S''. timer_set S now t delay period cb = Some S' \<and> timers_wf S' \<and> timers_sorted b S' \<and>
    timer_queue S' = takeWhile (\<lambda>e. ahead b (sched S e) \<le> ahead b (now + delay)) (timer_queue S) @
      t # dropWhile (\<lambda>e. ahead b (sched S e) \<le> ahead b (now + delay)) (timer_queue S) \<and>
    timer_cancel S' t = Some S'' \<and> timers_wf S'' \<and> timers_sorted b S'' \<and> timer_queue S'' = timer_queue S"
proof -
  obtain S' where S': "timer_set S now t delay period cb = Some S'" "timers_wf S'" "timers_sorted b S'"
      "timer_queue S' = takeWhile (\<lambda>e. ahead b (sched S e) \<le> ahead b (now + delay)) (timer_queue S) @
        t # dropWhile (\<lambda>e. ahead b (sched S e) \<le> ahead b (now + delay)) (timer_queue S)"
    using timer_set_spec [OF assms] by blast
  have "tm_magic (timer_obj S' t)" using S'(2,4) by (simp add: timers_wf_def)
  from timer_cancel_spec [OF S'(2,3) this] obtain S'' where
    S'': "timer_cancel S' t = Some S''" "timers_wf S''" "timers_sorted b S''" "timer_queue S'' = remove1 t (timer_queue S')" by blast
  have "t \<notin> set (timer_queue S)" using assms(1,4) by (simp add: timers_wf_def)
  then have "timer_queue S'' = timer_queue S"
    unfolding S''(4) S'(4) by (auto simp: remove1_append dest: set_takeWhileD)
  then show ?thesis using S' S'' by blast
qed

theorem timer_queue_ordered_witness:
  "\<exists>S'. timer_set (example_timers boot_kernel) 0xFFFFFFF0 7 0x20 0 (Sleep_callback 2) = Some S' \<and> timer_queue S' = [7]"
  using timer_queue_ordered [of "example_timers boot_kernel" "0xFFFFFFF0" 7 "0xFFFFFFF0" "0x20" 0 "Sleep_callback 2"]
  by (auto simp: example_timers_def timers_wf_def timers_sorted_def in_window_def ahead_def)



section \<open>Mutexes and event flags\<close>

text \<open>
  C22. Without time limits a mutex works: at most one thread is between acquire and release,
  it is the recorded holder, the count is the number of threads inside, handed over to or
  waiting, and while threads wait there is always an owner that will wake them.
\<close>

theorem mutex_exclusion:
  assumes "mutex_start s0" "mutex_reach False s0 s"
  shows "length (inside s) \<le> 1 \<and> holder (mm s) = (case inside s of [] \<Rightarrow> None | t # _ \<Rightarrow> Some t) \<and>
    m_count (mm s) = int (length (inside s) + length (pending s) + length (mwaiting s)) \<and>
    (mwaiting s \<noteq> [] \<longrightarrow> inside s \<noteq> [] \<or> pending s \<noteq> [])"
  using mutex_reach_inv [OF assms(2,1)] by (auto simp: mutex_inv_def)

theorem mutex_exclusion_witness:
  "\<exists>s0 s. mutex_start s0 \<and> mutex_reach False s0 s \<and> inside s = [4] \<and> holder (mm s) = Some 4"
proof -
  let ?s0 = "\<lparr>mk = three_threads 4 [2, 3] [] NO_ERROR, mm = lost_mutex 0 None, inside = [], pending = []\<rparr>"
  have "mutex_acquire_timeout (mk ?s0) (mm ?s0) INFINITE_TIME = Some (Returned NO_ERROR (lost_mutex 1 (Some 4)) (mk ?s0))"
    by (simp add: mutex_acquire_timeout_def lost_mutex_def three_threads_sel Let_def)
  from mutex_step.acquire_now [OF _ _ _ _ this, of False]
  have "mutex_step False ?s0 (?s0\<lparr>mm := lost_mutex 1 (Some 4), inside := [4]\<rparr>)"
    by (simp add: three_threads_sel idle_thread_def)
  note r = mutex_reach.step [OF mutex_reach.init this]
  from mutex_exclusion [OF mutex_timeout_run(1) r] r mutex_timeout_run(1) show ?thesis by (intro exI [of _ ?s0] exI) auto
qed



text \<open>
  C24. Waiting for all flags of a pattern does not wait for them: the AND mode compares with the
  flags instead of the pattern. So with no flag raised it returns at once, whatever the
  pattern, and with every flag of the pattern and one more raised it blocks.
\<close>

theorem evflag_and_mode:
  assumes "ev_magic e" "ev_wait e = w" "wq_magic (wait_queues K w)" "kernel_wf K" "current_thread K \<noteq> idle_thread"
    and "ev_bits e = 0 \<or> (\<exists>k. bit (ev_bits e) k \<and> \<not> bit pattern k)"
  shows "if ev_bits e = 0 then evflag_wait_timeout K e pattern 2 INFINITE_TIME = Some (Some 0, Returned NO_ERROR e K)
    else \<exists>K'. evflag_wait_timeout K e pattern 2 INFINITE_TIME = Some (None, Blocked e K') \<and> current_thread K \<in> set (waiting K' w)"
proof (cases "ev_bits e = 0")
  case True
  then show ?thesis using assms(1) by (simp add: evflag_wait_timeout_def check_pattern_def)
next
  case False
  then obtain k where k: "bit (ev_bits e) k" "\<not> bit pattern k" using assms(6) by blast
  have "ev_bits e AND pattern \<noteq> ev_bits e"
  proof
    assume "ev_bits e AND pattern = ev_bits e"
    then have "bit (ev_bits e AND pattern) k" using k(1) by simp
    then show False using k(2) by (simp add: bit_and_iff)
  qed
  then have n: "\<not> check_pattern (ev_bits e) pattern 2" by (simp add: check_pattern_def)
  obtain K' where "wait_queue_block K w INFINITE_TIME = Some (Inr K')" "waiting K' w = waiting K w @ [current_thread K]"
    using wait_queue_block_wf [OF assms(4,3,5), of INFINITE_TIME] by blast
  then show ?thesis using False n assms(1,2) by (simp add: evflag_wait_timeout_def)
qed

theorem evflag_and_mode_witness:
  "evflag_wait_timeout (three_threads 4 [2, 3] [] NO_ERROR) \<lparr>ev_magic = True, ev_bits = 0, ev_wait = 7\<rparr> 5 2 INFINITE_TIME =
     Some (Some 0, Returned NO_ERROR \<lparr>ev_magic = True, ev_bits = 0, ev_wait = 7\<rparr> (three_threads 4 [2, 3] [] NO_ERROR)) \<and>
   (\<exists>K'. evflag_wait_timeout (three_threads 4 [2, 3] [] NO_ERROR) \<lparr>ev_magic = True, ev_bits = 7, ev_wait = 7\<rparr> 5 2 INFINITE_TIME =
     Some (None, Blocked \<lparr>ev_magic = True, ev_bits = 7, ev_wait = 7\<rparr> K'))"
proof -
  have k: "bit (7 :: u32) 1 \<and> \<not> bit (5 :: u32) 1" by (simp add: bit_iff_odd)
  show ?thesis
    using evflag_and_mode [of "\<lparr>ev_magic = True, ev_bits = 0, ev_wait = 7\<rparr>" 7 "three_threads 4 [2, 3] [] NO_ERROR" 5]
      evflag_and_mode [of "\<lparr>ev_magic = True, ev_bits = 7, ev_wait = 7\<rparr>" 7 "three_threads 4 [2, 3] [] NO_ERROR" 5] exI [of "\<lambda>k. bit (7 :: u32) k \<and> \<not> bit (5 :: u32) k", OF k]
    by (auto simp: three_threads_wf three_threads_sel idle_thread_def)
qed

section \<open>Keys and frames\<close>



text \<open>
  C26. Publishing a sample wakes every thread that waits for one of its events: afterwards the
  queue of each trigger with a key is empty and its threads are ready; the queues of the other
  triggers are as before.
\<close>

theorem sample_wakes_readers:
  assumes "kernel_wf K" "\<And>tr. wq_magic (wait_queues K (trigger_queue g tr))"
    and "distinct [wait_on_press g, wait_on_release g, wait_on_hold g]"
  shows "\<exists>K'. gamepad_publish K M g keys = Some (gamepad_sample M g keys, K') \<and> kernel_wf K' \<and>
    (\<forall>tr. waiting K' (trigger_queue g tr) =
      (if trigger_keys (gamepad_sample M g keys) tr \<noteq> 0 then [] else waiting K (trigger_queue g tr))) \<and>
    (\<forall>tr. \<forall>t \<in> set (waiting K (trigger_queue g tr)).
      trigger_keys (gamepad_sample M g keys) tr \<noteq> 0 \<longrightarrow> t_state (threads K' t) = THREAD_READY)"
  using assms by (rule gamepad_publish_wakes)

theorem sample_wakes_readers_witness:
  "\<exists>K'. gamepad_publish (wait_queue_init (wait_queue_init (three_threads 4 [] [2, 3] NO_ERROR) 8) 9) 1 example_pad 0 =
     Some (gamepad_sample 1 example_pad 0, K') \<and> waiting K' 7 = []"
proof -
  let ?K = "wait_queue_init (wait_queue_init (three_threads 4 [] [2, 3] NO_ERROR) 8) 9"
  have "waiting (three_threads 4 [] [2, 3] NO_ERROR) w = (if w = 7 then [2, 3] else [])" for w
    by (simp add: three_threads_def)
  then have wf: "kernel_wf ?K" by (intro wait_queue_init_wf) (simp_all add: three_threads_wf wait_queue_init_def)
  have m: "wq_magic (wait_queues ?K (trigger_queue example_pad tr))" for tr
    by (cases tr) (simp_all add: example_pad_def wait_queue_init_def three_threads_sel)
  have k: "trigger_keys (gamepad_sample 1 example_pad 0) GAMEPAD_TRIGGER_ON_PRESS \<noteq> 0"
      "trigger_queue example_pad GAMEPAD_TRIGGER_ON_PRESS = 7"
    by (simp_all add: gamepad_sample_def TO_KEYS_def example_pad_def)
  have "distinct [wait_on_press example_pad, wait_on_release example_pad, wait_on_hold example_pad]"
    by (simp add: example_pad_def)
  from sample_wakes_readers [OF wf m this, of 1 0] show ?thesis using k by metis
qed

section \<open>The heap\<close>

text \<open>
  C27. Safety of the heap: from start-up on, after any sequence of calls that ask for sizes that do not wrap
  around and free what they own, the next such call returns without a failed assertion; every block
  lies in memory behind the kernel, holds its header, and overlaps neither another block nor the
  free list; and the counter of free bytes is right.
\<close>

theorem heap_safe:
  assumes "boot_ok list_head mem_start" "heap_reach list_head mem_start s"
  shows "(call_ok s c \<longrightarrow> (\<exists>r s'. heap_do s c = Some (r, s'))) \<and>
    (\<forall>a b. headers (theheap s) a = Some b \<longrightarrow> header_ok a b \<and> bytes_of (block_of b) \<subseteq> {unat mem_start..<0x8A000000} \<and>
      bytes_of (block_of b) \<inter> all_bytes (free_list (theheap s)) = {} \<and>
      (\<forall>a' b'. headers (theheap s) a' = Some b' \<and> a' \<noteq> a \<longrightarrow> bytes_of (block_of b) \<inter> bytes_of (block_of b') = {})) \<and>
    unat (remaining (theheap s)) = Finite_Set.card (all_bytes (free_list (theheap s)))"
proof -
  have ok: "sys_ok (boot_bytes mem_start) s" by (rule heap_reach_ok [OF assms(2,1)])
  then have inv: "heap_inv (theheap s) (boot_bytes mem_start \<union> arena_taken (arena s))" by (simp add: sys_ok_def heap_ok_def)
  note mem = heap_reach_memory [OF assms(2,1)]
  have "header_ok a b \<and> bytes_of (block_of b) \<subseteq> {unat mem_start..<0x8A000000} \<and> bytes_of (block_of b) \<inter> all_bytes (free_list (theheap s)) = {} \<and>
      (\<forall>a' b'. headers (theheap s) a' = Some b' \<and> a' \<noteq> a \<longrightarrow> bytes_of (block_of b) \<inter> bytes_of (block_of b') = {})"
    if b: "headers (theheap s) a = Some b" for a b
  proof -
    have sub: "bytes_of (block_of b) \<subseteq> live_bytes (headers (theheap s))" using live_bytes_block [of "headers (theheap s)" a b] b by simp
    then have "bytes_of (block_of b) \<subseteq> {unat mem_start..<0x8A000000}" using inv mem by (auto simp: heap_inv_def)
    moreover have "bytes_of (block_of b) \<inter> all_bytes (free_list (theheap s)) = {}" using inv sub by (auto simp: heap_inv_def)
    ultimately show ?thesis using inv b headers_ok_apart [of "headers (theheap s)" a b] by (simp add: heap_inv_def headers_ok_def) blast
  qed
  then show ?thesis using heap_do_inv [OF ok, of c] inv by (auto simp: heap_inv_def)
qed

theorem heap_safe_witness:
  "\<exists>p s'. malloc example_heap 16 = Some (p, s') \<and> (\<exists>r s''. heap_do s' Trim = Some (r, s'')) \<and>
     unat (remaining (theheap s')) = Finite_Set.card (all_bytes (free_list (theheap s')))"
proof -
  have fits: "call_ok example_heap (Malloc 16)" by (simp add: call_ok_def request_fits_def request_alignment_def)
  then obtain p s' where m: "heap_do example_heap (Malloc 16) = Some (p, s')" using heap_safe [OF example_boot example_heap_reach] by blast
  note r = heap_reach.call [OF example_heap_reach fits m]
  have "call_ok s' Trim" by (simp add: call_ok_def)
  with heap_safe [OF example_boot r, of Trim] m show ?thesis by (auto simp: heap_do_def)
qed

text \<open>
  C28. What an allocation gives: the bytes asked for lie in the new block behind its header, at an
  address that the boundary divides, in no other block and in no free chunk; and every block
  in use before is still there.
\<close>

theorem memalign_gives_block:
  assumes "boot_ok list_head mem_start" "heap_reach list_head mem_start s" "request_fits sz boundary" "memalign s boundary sz = Some (Some p, s')"
  shows "\<exists>b. headers (theheap s') (p - 12) = Some b \<and> unat (as_ptr b) + 12 \<le> unat p \<and> unat p + unat sz \<le> unat (as_ptr b) + unat (as_size b) \<and>
    (boundary \<noteq> 0 \<longrightarrow> unat boundary dvd unat p) \<and>
    {unat p..<unat p + unat sz} \<inter> all_bytes (free_list (theheap s')) = {} \<and>
    (\<forall>a b'. headers (theheap s') a = Some b' \<and> a \<noteq> p - 12 \<longrightarrow> {unat p..<unat p + unat sz} \<inter> bytes_of (block_of b') = {}) \<and>
    (\<forall>q. in_use s q \<longrightarrow> in_use s' q \<and> q \<noteq> p \<and> headers (theheap s') (q - 12) = headers (theheap s) (q - 12))"
proof -
  have ok: "sys_ok (boot_bytes mem_start) s" by (rule heap_reach_ok [OF assms(2,1)])
  show ?thesis
  proof (cases rule: memalign_inv [OF ok assms(3)])
    case (2 q s1 t)
    have eq: "q = p" "t = s'" using 2(1) assms(4) by simp_all
    have inv: "heap_inv (theheap s') (boot_bytes mem_start \<union> arena_taken (arena s'))" using 2(2) unfolding eq by (simp add: sys_ok_def heap_ok_def)
    obtain b where b: "headers (theheap s') = (headers (theheap s1))(p - 12 \<mapsto> b)" "payload_ok p sz boundary b" "headers (theheap s1) (p - 12) = None"
      using 2(7) unfolding eq by (auto simp: block_added_def)
    have sub: "{unat p..<unat p + unat sz} \<subseteq> bytes_of (block_of b)" using b(2) by (auto simp: payload_ok_def bytes_of_def block_of_def)
    have hb: "headers (theheap s') (p - 12) = Some b" using b(1) by simp
    have "boundary \<noteq> 0 \<longrightarrow> unat boundary dvd unat p"
      using b(2) assms(3) request_alignment_dvd [of boundary] dvd_trans by (auto simp: payload_ok_def request_fits_def)
    moreover have "bytes_of (block_of b) \<inter> all_bytes (free_list (theheap s')) = {}"
      using inv live_bytes_block [of "headers (theheap s')" "p - 12" b] hb by (auto simp: heap_inv_def)
    moreover have "bytes_of (block_of b) \<inter> bytes_of (block_of b') = {}" if "headers (theheap s') a = Some b'" "a \<noteq> p - 12" for a b'
      using headers_ok_apart [of "headers (theheap s')" "p - 12" b a b'] inv hb that by (simp add: heap_inv_def)
    moreover have "in_use s' r \<and> r \<noteq> p \<and> headers (theheap s') (r - 12) = headers (theheap s) (r - 12)" if r: "in_use s r" for r
    proof -
      have keep: "headers (theheap s1) (r - 12) = headers (theheap s) (r - 12)"
        using settled_in_use [OF r, of "theheap s1"] settle_delayed_inv [OF ok] 2(3) by auto
      then have "r \<noteq> p" using b(3) r by (auto simp: in_use_def)
      then show ?thesis using keep b(1) r 2(6) unfolding eq by (auto simp: in_use_def)
    qed
    ultimately show ?thesis using hb b(2) sub unfolding payload_ok_def by blast
  qed (use assms(4) in simp)
qed

theorem memalign_gives_block_witness:
  "\<exists>p s'. memalign example_heap 64 10 = Some (Some p, s') \<and> 64 dvd unat p \<and> in_use s' p"
proof -
  have fits: "request_fits 10 64" by (simp add: request_fits_def request_alignment_def)
  have ok: "sys_ok (boot_bytes 0x88100F00) example_heap" by (rule heap_reach_ok [OF example_heap_reach example_boot])
  show ?thesis
  proof (cases rule: memalign_inv [OF ok fits])
    case (1 s1)
    have "request_size 10 64 = 88" by (simp add: request_size_def ROUNDUP_def)
    then show ?thesis using 1(3,4) by (simp add: settle_delayed_def example_heap_state)
  next
    case (2 p s1 s')
    from memalign_gives_block [OF example_boot example_heap_reach fits 2(1)]
    have "64 dvd unat p" "headers (theheap s') (p - 12) \<noteq> None" by auto
    moreover have "p \<noteq> 0" using 2(7) by (simp add: block_added_def)
    ultimately show ?thesis using 2(1,6) by (auto simp: in_use_def)
  qed
qed

text \<open>
  C29. Freeing undoes allocating: when \<^verbatim>\<open>malloc\<close> took a block without asking for more pages, freeing it leaves the
  heap exactly as it was, with the neighbours merged again.
\<close>

theorem malloc_free_undo:
  assumes "boot_ok list_head mem_start" "heap_reach list_head mem_start s" "request_fits sz 0" "delayed_free_list s = []"
    and "malloc s sz = Some (Some p, s1)" "arena s1 = arena s"
  shows "free s1 p = Some s"
  using malloc_free_same [OF heap_reach_ok [OF assms(2,1)] assms(4,3,5,6)] .

theorem malloc_free_undo_witness:
  "\<exists>p s1. malloc example_heap 16 = Some (Some p, s1) \<and> free s1 p = Some example_heap"
proof -
  have fits: "request_fits 16 0" by (simp add: request_fits_def request_alignment_def)
  have "request_size 16 0 = 28" by (simp add: request_size_def ROUNDUP_def)
  then obtain p s1 where m: "malloc example_heap 16 = Some (Some p, s1)" "arena s1 = arena example_heap"
    by (simp add: malloc_def settle_delayed_def example_heap_state miniheap_alloc_def request_alignment_def alloc_locked_def
        heap_create_free_chunk_def aligned_ptr_def Let_def)
  from malloc_free_undo [OF example_boot example_heap_reach fits example_heap_state(1) m] m(1) show ?thesis by blast
qed





section \<open>The screen\<close>

text \<open>
  C32. What is on the console is what is on the screen. In every state the machine can reach,
  the messages printed since the last clear are 7-bit text, and printing them draws exactly
  that text: after whatever was printed before, a clear and the messages leave every cell of
  the 80 by 22 grid showing the glyph that typing the messages on a terminal puts there, in its
  colour, and change no pixel outside the visible screen.
\<close>

theorem console_shown:
  assumes "sm_reach N (statemachine_init a g_init_state) m" "text_ok a" "ascii_text (identity_text N)"
    and "\<forall>(c, msg) \<in> set (console (app_state m)). length msg < 2 ^ 32"
    and "\<forall>(c, msg) \<in> set old. ascii_text msg \<and> length msg < 2 ^ 32"
    and "display_ok d" "length fbs0 = 2"
  shows "\<exists>p q K' p1 p2 p3. setup_screens alloc (Some fbs0) K w1 w2 d = Some (p, q, K') \<and> print_calls K' old p = Some p1 \<and>
    primary_clear_screen (Some p1) = Some p2 \<and> print_calls K' (console (app_state m)) p2 = Some p3 \<and>
    screen_shows BG_COLOUR 480 272 p3 (console_text 80 22 (console (app_state m)) blank_terminal) \<and>
    visible_only (surface p) (surface p3)"
proof -
  have "text_ok (app_state m)" using sm_reach_text [OF assms(1) _ assms(3)] assms(2) by (simp add: statemachine_init_def)
  then have ok: "\<forall>(c, msg) \<in> set old \<union> set (console (app_state m)). ascii_text msg \<and> length msg < 2 ^ 32"
    using assms(4,5) by (auto simp: text_ok_def list_all_iff)
  obtain p q K' where p: "setup_screens alloc (Some fbs0) K w1 w2 d = Some (p, q, K')" "screen_shows BG_COLOUR 480 272 p blank_terminal"
    "mutex_free (scr_mutex p)" "clearable BG_COLOUR (surface p)"
    using setup_screens_shows [OF assms(6,7), of alloc K w1 w2] by auto
  from clear_print_shows [OF p(3,2,4) ok, of K'] p(1) show ?thesis by (auto simp: screen_same_def)
qed

theorem console_shown_witness:
  "\<exists>d p q K' p1 p2 p3. setup_screens (\<lambda>_. None) (Some (replicate 2 (get_framebuffer []))) boot_kernel 0 1 d = Some (p, q, K') \<and>
     print_calls K' [(FG_COLOUR_ERR, ''Error'')] p = Some p1 \<and> primary_clear_screen (Some p1) = Some p2 \<and>
     print_calls K' [(FG_COLOUR, ''Hi'')] p2 = Some p3 \<and>
     screen_shows BG_COLOUR 480 272 p3 (console_text 80 22 [(FG_COLOUR, ''Hi'')] blank_terminal)"
proof -
  let ?a = "example_start\<lparr>console := [(FG_COLOUR, ''Hi'')]\<rparr>"
  have r: "sm_reach example_app (statemachine_init ?a g_init_state) (statemachine_init ?a g_init_state)" by (rule sm_reach.start)
  have ok: "text_ok ?a" "ascii_text (identity_text example_app)"
    by (simp_all add: text_ok_def example_start_def example_app_def ascii_text_def)
  let ?d = "\<lparr>fb_mem = (\<lambda>_. replicate framebuffer_pixels 7), g_active_framebuffer = G_FRAMEBUFFER1, hw_framebuffer = G_FRAMEBUFFER1\<rparr>"
  have "display_ok ?d" by (simp add: display_ok_def)
  from console_shown [OF r ok _ _ this, of "[(FG_COLOUR_ERR, ''Error'')]" "replicate 2 (get_framebuffer [])" "\<lambda>_. None" boot_kernel 0 1]
  show ?thesis by (simp add: statemachine_init_def ascii_text_def) blast
qed



text \<open>
  \<^verbatim>\<open>gfx_copyrect\<close> copies correctly to lower addresses, also when the rectangles overlap. To a
  higher or equal address it copies the rectangle one line down and one pixel to the right of
  where it belongs, and from one line down and one pixel right of where it was asked to; and a
  copy that ends on the last line of the memory leaves it.
\<close>

lemma copyrect_directions:
  assumes "surface_wf s" "rect_inside s x y w h" "rect_inside s x2 y2 w h"
    and "src = unat x + unat y * unat (g_stride s)" "dest = unat x2 + unat y2 * unat (g_stride s)"
  shows "if dest < src
    then \<exists>s'. gfx_copyrect s x y w h x2 y2 = Some s' \<and>
      paints s (\<lambda>a b. unat x2 \<le> a \<and> a < unat x2 + unat w \<and> unat y2 \<le> b \<and> b < unat y2 + unat h)
        (\<lambda>a b. pixel s (a + unat x - unat x2) (b + unat y - unat y2)) s'
    else if unat y2 + unat h < unat (g_height s)
    then unat x2 + unat w < unat (g_stride s) \<longrightarrow> (\<exists>s'. gfx_copyrect s x y w h x2 y2 = Some s' \<and>
      paints s (\<lambda>a b. unat x2 + 1 \<le> a \<and> a < unat x2 + 1 + unat w \<and> unat y2 + 1 \<le> b \<and> b < unat y2 + 1 + unat h)
        (\<lambda>a b. pixel s (a + unat x - unat x2) (b + unat y - unat y2)) s')
    else length (ptr s) = unat (g_height s) * unat (g_stride s) \<and> unat h * unat (g_stride s) + unat w < 2 ^ 32 \<longrightarrow>
      gfx_copyrect s x y w h x2 y2 = None"
proof -
  have "\<not> unat y2 + unat h < unat (g_height s) \<Longrightarrow> unat y2 + unat h = unat (g_height s)" using assms(3) by (simp add: rect_inside_def)
  then show ?thesis using copyrect_up [OF assms(1-3)] copyrect_down [OF assms(1-3)] copyrect_last_line [OF assms(1-3)] assms(4,5)
    by (simp add: not_less)
qed

text \<open>
  C34. \<^verbatim>\<open>gfx_line\<close> draws the points of the rational line: with \<open>n\<close> the larger of the two distances,
  the points after \<open>1, ..., n\<close> steps, in which the longer coordinate moves by one and the other
  by the rounded share, and nothing else. The last one is the end point; the start point is
  never drawn by the first step.
\<close>

theorem line_points:
  assumes "surface_wf s" "unat (g_width s) \<le> 2 ^ 31" "unat (g_height s) \<le> 2 ^ 31"
    and "unat x1 < unat (g_width s)" "unat x2 < unat (g_width s)" "unat y1 < unat (g_height s)" "unat y2 < unat (g_height s)"
    and "n = max (dist (unat x1) (unat x2)) (dist (unat y1) (unat y2))"
  shows "\<exists>s'. gfx_line s x1 y1 x2 y2 c = Some s' \<and>
    paints s (\<lambda>a b. \<exists>j. 1 \<le> j \<and> j \<le> n \<and> (a, b) = line_point (unat x1) (unat y1) (unat x2) (unat y2) j) (\<lambda>_ _. stored s c) s' \<and>
    (0 < n \<longrightarrow> line_point (unat x1) (unat y1) (unat x2) (unat y2) n = (unat x2, unat y2) \<and> pixel s' (unat x2) (unat y2) = stored s c) \<and>
    pixel s' (unat x1) (unat y1) = pixel s (unat x1) (unat y1)"
proof -
  let ?p = "line_point (unat x1) (unat y1) (unat x2) (unat y2)"
  obtain s' where s': "gfx_line s x1 y1 x2 y2 c = Some s'"
    "paints s (\<lambda>a b. \<exists>j. 1 \<le> j \<and> j \<le> n \<and> (a, b) = ?p j) (\<lambda>_ _. stored s c) s'"
    using gfx_line_paints [OF assms(1-7), of c] unfolding assms(8) by blast
  have st: "unat x1 < unat (g_stride s)" "unat x2 < unat (g_stride s)" using surface_wf_stride [OF assms(1)] assms(4,5) by linarith+
  have "pixel s' (unat x1) (unat y1) = pixel s (unat x1) (unat y1)"
    using paints_pixel [OF s'(2) assms(1) st(1) assms(6)] line_point_start unfolding assms(8) by auto
  moreover have "?p n = (unat x2, unat y2) \<and> pixel s' (unat x2) (unat y2) = stored s c" if "0 < n"
  proof -
    have e: "?p n = (unat x2, unat y2)" using that unfolding assms(8) by (intro line_point_end) auto
    then have "\<exists>j. 1 \<le> j \<and> j \<le> n \<and> (unat x2, unat y2) = ?p j" using that by (intro exI [of _ n]) simp
    then show ?thesis using e paints_pixel [OF s'(2) assms(1) st(2) assms(7)] by simp
  qed
  ultimately show ?thesis using s' by blast
qed

theorem line_points_witness:
  "\<exists>s'. gfx_line small_surface 0 0 7 2 99 = Some s' \<and> pixel s' 7 2 = 99 \<and> pixel s' 0 0 = 0"
proof -
  have n: "7 = max (dist (unat (0 :: u32)) (unat (7 :: u32))) (dist (unat (0 :: u32)) (unat (2 :: u32)))" by (simp add: dist_def)
  have st: "stored small_surface 99 = 99" by (simp add: stored_def flatten_def)
  show ?thesis using line_points [OF small_surface_wf _ _ _ _ _ _ n, of 99] st small_surface_pixel [of 0 0] by auto
qed

section \<open>The console buffer\<close>

text \<open>
  C35. The circular buffer is a queue: on a buffer fresh from initialisation, for any sequence
  of writes and non-blocking reads, the bytes delivered, followed by the bytes still inside, are
  the bytes accepted, in order; every call returns, and the buffer's event stays signalled
  exactly while there is data.
\<close>

theorem cbuf_fifo:
  assumes "cbuf_initialize_etc K w len buf = Some (c, K0)" "kernel_wf K" "waiting K w = []" "length buf = unat len"
    and "\<forall>op \<in> set ops. op_ok (unat len - 1) op"
  shows "\<exists>accepted delivered c' K'. fifo_run cbuf_put cbuf_get ops (c, K0) = Some (accepted, delivered, c', K') \<and>
    cbuf_inv c' K' \<and> accepted = delivered @ contents c'"
proof -
  have "len \<noteq> 0" "ispow2 len" using assms(1) by (auto simp: cbuf_initialize_etc_def split: if_splits)
  from cbuf_initialize_inv [OF assms(2,3) this assms(4)] assms(1)
  have "cbuf_inv c K0" "contents c = []" "cbuf_capacity c = unat len - 1" by auto
  then show ?thesis using cbuf_queue.run_fifo [of "(c, K0)" ops] assms(5) by auto
qed

theorem cbuf_fifo_witness:
  "\<exists>c K0 a d c' K'. cbuf_initialize_etc boot_kernel 5 4 [0, 0, 0, 0] = Some (c, K0) \<and>
     fifo_run cbuf_put cbuf_get [Put [1, 2], Get 1, Put [3, 4], Get 3] (c, K0) = Some (a, d, c', K') \<and> a = d @ contents c'"
proof -
  obtain c K0 where c: "cbuf_initialize_etc boot_kernel 5 4 [0, 0, 0, 0] = Some (c, K0)"
    by (simp add: cbuf_initialize_etc_def ispow2_def event_init_def)
  have "waiting boot_kernel 5 = []" by (simp add: boot_kernel_def)
  from cbuf_fifo [OF c boot_kernel_wf this, of "[Put [1, 2], Get 1, Put [3, 4], Get 3]"] c show ?thesis by auto
qed

text \<open>
  A blocking read does what its arguments allow: with data it returns the oldest bytes, up
  to the number asked for, without it the caller joins the queue of the buffer's event; and when
  no byte is asked for while there is data, it never returns.
\<close>

lemma cbuf_read_blocking:
  assumes "cbuf_inv c K" "current_thread K \<noteq> idle_thread"
  shows "if contents c = []
    then \<exists>K'. cbuf_read K c n True = Some (Blocked ([], c) K') \<and> kernel_wf K' \<and>
      waiting K' (e_wait (cb_event c)) = waiting K (e_wait (cb_event c)) @ [current_thread K]
    else if n = 0 then cbuf_read K c n True = None
    else \<exists>c'. cbuf_read K c n True = Some (Returned NO_ERROR (take n (contents c), c') K) \<and> cbuf_inv c' K \<and> contents c' = drop n (contents c)"
  using cbuf_read_blocking_empty [OF assms(1) _ assms(2)] cbuf_read_zero_diverges [OF assms(1)] cbuf_read_blocking_data [OF assms(1)]
  by (cases "contents c = []"; cases "n = 0") simp_all

section \<open>Formatted output\<close>



text \<open>
  C37. A formatted message reaches both screens. On the screens that \<^verbatim>\<open>setup_screens\<close> prepares, with the debug screen registered as
  print callback, \<^verbatim>\<open>primary_printf\<close> with 7-bit text types exactly the text of its directives on the primary screen, and the text
  and a new line on the debug screen and the serial port. On the way the stack byte in front of its local array is
  set to 0.
\<close>

theorem message_on_both_screens:
  assumes "display_ok d" "length fbs0 = 2" "list_all directive_ok ds" "ascii_bytes (text_all ds)" "length (text_all ds) < 2 ^ 31 - 1"
    and "block_law heap_block (length (text_all ds) + 1)"
  shows "\<exists>p q K' p' io'. setup_screens alloc (Some fbs0) K w1 w2 d = Some (p, q, K') \<and>
    primary_printf K' (Some p) [x, y] heap_block colour (format_all ds) (args_all ds)
      (register_print_callback (debug_callback K' beyond) \<lparr>print_callbacks = [], shared = q, serial = []\<rparr>) = Some (Returned NO_ERROR (p', io', [0, y]) K') \<and>
    screen_shows BG_COLOUR 480 272 p' (term_puts 80 22 (colour_value colour) (text_all ds) blank_terminal) \<and>
    screen_shows BG_COLOUR 480 272 (shared io') (term_puts 80 22 FG_COLOUR_DBG (text_all ds @ [0x0A]) blank_terminal) \<and>
    serial io' = text_all ds @ [0x0A]"
proof -
  obtain p q K' where s: "setup_screens alloc (Some fbs0) K w1 w2 d = Some (p, q, K')" "screen_shows BG_COLOUR 480 272 p blank_terminal"
    "screen_shows BG_COLOUR 480 272 q blank_terminal" "mutex_free (scr_mutex p)" "mutex_free (scr_mutex q)"
    using setup_screens_shows [OF assms(1,2), of alloc K w1 w2] by auto
  let ?io = "register_print_callback (debug_callback K' beyond) \<lparr>print_callbacks = [], shared = q, serial = []\<rparr>"
  have "stdout_shows K' beyond 480 272 blank_terminal [] ?io []"
    using s(3,5) by (simp add: stdout_shows_def register_print_callback_def term_puts_def)
  from primary_printf_shows [OF assms(3-6) s(4,2) this, of x y colour] s(1) show ?thesis by (auto simp: stdout_shows_def)
qed

theorem message_on_both_screens_witness:
  "\<exists>d p q K' p' io'. setup_screens (\<lambda>_. None) (Some (replicate 2 (get_framebuffer []))) boot_kernel 0 1 d = Some (p, q, K') \<and>
     primary_printf K' (Some p) [7, 7] (\<lambda>n. Some (replicate (unat n) 0)) FG_COLOUR (cstr (lit ''formatting %s... '')) [Va_str (Some (cstr (lit ''flash0'')))]
       (register_print_callback (debug_callback K' 0) \<lparr>print_callbacks = [], shared = q, serial = []\<rparr>) = Some (Returned NO_ERROR (p', io', [0, 7]) K') \<and>
     screen_shows BG_COLOUR 480 272 p' (term_puts 80 22 (colour_value FG_COLOUR) (lit ''formatting flash0... '') blank_terminal)"
proof -
  let ?ds = "[arg_text ''formatting '', arg_str ''flash0'', arg_text ''... '']"
  have f: "format_all ?ds = cstr (lit ''formatting %s... '')" "args_all ?ds = [Va_str (Some (cstr (lit ''flash0'')))]" "text_all ?ds = lit ''formatting flash0... ''"
    by (simp_all add: format_all_def args_all_def text_all_def arg_forms lit_def)
  have ok: "list_all directive_ok ?ds" by (simp add: arg_str_def arg_text_def lit_def nonul_def)
  have t: "ascii_bytes (text_all ?ds)" "length (text_all ?ds) < 2 ^ 31 - 1" "block_law (\<lambda>n. Some (replicate (unat n) 0)) (length (text_all ?ds) + 1)"
    unfolding f by (simp_all add: ascii_bytes_def lit_def block_law_def)
  let ?d = "\<lparr>fb_mem = (\<lambda>_. replicate framebuffer_pixels 7), g_active_framebuffer = G_FRAMEBUFFER1, hw_framebuffer = G_FRAMEBUFFER1\<rparr>"
  have "display_ok ?d" by (simp add: display_ok_def)
  from message_on_both_screens [OF this _ ok t, of "replicate 2 (get_framebuffer [])" "\<lambda>_. None" boot_kernel 0 1 7 7 FG_COLOUR 0]
  show ?thesis unfolding f by (simp only: length_replicate) blast
qed



text \<open>
  C39. Printing and reading a number are inverse: in a buffer of 12 bytes or more, a 32-bit number printed with \<^verbatim>\<open>%d\<close> is read back by
  \<^verbatim>\<open>atoi\<close>, with \<^verbatim>\<open>%u\<close> and with \<^verbatim>\<open>%#x\<close> by \<^verbatim>\<open>atoui\<close>, and in one of 21 bytes a 64-bit number printed with \<^verbatim>\<open>%llu\<close> and \<^verbatim>\<open>%#llx\<close> by \<^verbatim>\<open>atoull\<close>.
\<close>

theorem print_read_roundtrip:
  assumes "12 \<le> unat len" "unat len \<le> length m" "unat len < 2 ^ 31"
  shows "(\<exists>k b. vsnprintf m 0 len (cstr (lit ''%d'')) [Va_int w] = Some (k, b) \<and> atoi b = Some (sint w)) \<and>
    (\<exists>k b. vsnprintf m 0 len (cstr (lit ''%u'')) [Va_int w] = Some (k, b) \<and> atoui b = Some w) \<and>
    (\<exists>k b. vsnprintf m 0 len (cstr (lit ''%#x'')) [Va_int w] = Some (k, b) \<and> atoui b = Some w) \<and>
    (21 \<le> unat len \<longrightarrow> (\<exists>k b. vsnprintf m 0 len (cstr (lit ''%llu'')) [Va_ll n] = Some (k, b) \<and> atoull b = Some n) \<and>
      (\<exists>k b. vsnprintf m 0 len (cstr (lit ''%#llx'')) [Va_ll n] = Some (k, b) \<and> atoull b = Some n))"
  using print_read_u32 [OF assms, of w] print_read_u64 [OF _ assms(2,3), of n] by blast

theorem print_read_roundtrip_witness:
  "\<exists>k b. vsnprintf (replicate 12 7) 0 12 (cstr (lit ''%d'')) [Va_int 0x80000000] = Some (k, b) \<and> atoi b = Some (- (2 ^ 31))"
  using print_read_roundtrip [of 12 "replicate 12 7" "0x80000000" 0] by simp



end
